(* ===== verification/Speaker_Prelude.thy ===== *)
theory Speaker_Prelude
  imports Main "HOL-Library.Word"
begin

text \<open>
  Shared material of the wifi-speaker development: names for the C integer types, the
  block copies (\<^verbatim>\<open>memcpy\<close>) on arrays that are modelled as lists, rotations of ring
  buffers, and the little-endian layout of the 16- and 32-bit values the firmware moves
  through byte buffers.
\<close>

unbundle bit_operations_syntax

section \<open>C types\<close>

type_synonym byte = "8 word"
type_synonym u16 = "16 word"
type_synonym u32 = "32 word"

named_theorems array_simps \<open>lengths, prefixes and suffixes of array copies\<close>

section \<open>Block copies\<close>

text \<open>
  \<open>overwrite xs p ys\<close> is the array \<open>xs\<close> after \<^verbatim>\<open>memcpy(xs + p, ys, length ys)\<close>;
  \<open>chunk xs p n\<close> is what \<^verbatim>\<open>memcpy(dst, xs + p, n)\<close> reads.
\<close>

definition overwrite :: "'a list \<Rightarrow> nat \<Rightarrow> 'a list \<Rightarrow> 'a list" where
  "overwrite xs p ys = take p xs @ ys @ drop (p + length ys) xs"

definition chunk :: "'a list \<Rightarrow> nat \<Rightarrow> nat \<Rightarrow> 'a list" where
  "chunk xs p n = take n (drop p xs)"

lemma length_overwrite [array_simps]:
  "p + length ys \<le> length xs \<Longrightarrow> length (overwrite xs p ys) = length xs"
  by (simp add: overwrite_def)

lemma take_overwrite_end [array_simps]:
  "p + length ys \<le> length xs \<Longrightarrow> take (p + length ys) (overwrite xs p ys) = take p xs @ ys"
  by (simp add: overwrite_def)

lemma take_overwrite_before:
  "q \<le> p \<Longrightarrow> p \<le> length xs \<Longrightarrow> take q (overwrite xs p ys) = take q xs"
  by (simp add: overwrite_def min_def)

lemma drop_overwrite_after:
  "p + length ys \<le> q \<Longrightarrow> p \<le> length xs \<Longrightarrow> drop q (overwrite xs p ys) = drop q xs"
  by (simp add: overwrite_def)

lemma overwrite_full:
  "p + length ys = length xs \<Longrightarrow> overwrite xs p ys = take p xs @ ys"
  by (simp add: overwrite_def)

lemma length_chunk [array_simps]:
  "p + n \<le> length xs \<Longrightarrow> length (chunk xs p n) = n"
  by (simp add: chunk_def)

lemma chunk_append_drop:
  "drop p xs = chunk xs p n @ drop (p + n) xs"
  by (simp add: chunk_def add.commute flip: drop_drop)

lemma chunk_all: "p + n = length xs \<Longrightarrow> chunk xs p n = drop p xs"
  by (simp add: chunk_def)

lemma diff_add_restore:
  fixes l m u d :: nat
  assumes "l \<le> m" "d < l - u"
  shows "m - (u + d) + d = m - u"
  using assms by arith

section \<open>Ring positions\<close>

lemma mod_ring_inj:
  fixes m i j n :: nat
  assumes "i < n" "j < n" "(m + i) mod n = (m + j) mod n"
  shows "i = j"
proof -
  have "int i mod int n = int j mod int n"
    using assms(3) by (metis add_diff_cancel_left' mod_diff_left_eq of_nat_add of_nat_mod)
  then show ?thesis using assms(1,2) by simp
qed

lemma rotate_update:
  assumes "j < length xs"
  shows "rotate m (xs[(m + j) mod length xs := x]) = (rotate m xs)[j := x]"
proof (rule nth_equalityI)
  show "length (rotate m (xs[(m + j) mod length xs := x])) = length ((rotate m xs)[j := x])"
    by simp
next
  fix i
  assume "i < length (rotate m (xs[(m + j) mod length xs := x]))"
  then have i: "i < length xs" by simp
  then have len: "(m + i) mod length xs < length xs" by (intro mod_less_divisor) linarith
  show "rotate m (xs[(m + j) mod length xs := x]) ! i = (rotate m xs)[j := x] ! i"
  proof (cases "i = j")
    case True
    then show ?thesis using i len by (simp add: nth_rotate)
  next
    case False
    then have "(m + j) mod length xs \<noteq> (m + i) mod length xs"
      using mod_ring_inj i assms by metis
    then show ?thesis using i False by (simp add: nth_rotate)
  qed
qed

lemma mod_step:
  fixes k n z :: nat
  assumes "k < n" "0 < z"
  shows "(if n * z \<le> k * z + z then 0 else k * z + z) = ((k + 1) mod n) * z"
proof (cases "k + 1 = n")
  case True
  then show ?thesis by (auto simp: algebra_simps)
next
  case False
  then have "k + 1 < n" using assms by simp
  then have "(k + 1) * z < n * z" using assms by (intro mult_less_mono1)
  then have "k * z + z < n * z" by simp
  then show ?thesis using \<open>k + 1 < n\<close> by simp
qed

lemma mod_step_back:
  fixes k n z :: nat
  assumes "k < n" "0 < z"
  shows "(if k * z < z then n * z - z else k * z - z) = ((k + (n - 1)) mod n) * z"
proof (cases k)
  case 0
  then show ?thesis using assms by (simp add: diff_mult_distrib)
next
  case (Suc j)
  then have "(k + (n - 1)) mod n = j"
    using assms by (simp add: mod_if)
  then show ?thesis using Suc by simp
qed

section \<open>Slots of a flat array\<close>

text \<open>An array of \<open>n\<close> slots of \<open>z\<close> bytes: replacing one slot leaves the others alone.\<close>

lemma slot_bound:
  fixes b n z :: nat
  shows "b < n \<Longrightarrow> b * z + z \<le> n * z"
  by (metis Suc_leI add.commute mult_Suc mult_le_mono1)

lemma chunk_overwrite_slot:
  assumes "length st = n * z" "length item = z" "a < n" "b < n"
  shows "chunk (overwrite st (a * z) item) (b * z) z
           = (if a = b then item else chunk st (b * z) z)"
proof -
  have az: "a * z + z \<le> length st" and bz: "b * z + z \<le> length st"
    using assms slot_bound by metis+
  consider "a = b" | "a < b" | "b < a" by linarith
  then show ?thesis
  proof cases
    case 1
    then show ?thesis using az assms(2) by (simp add: chunk_def overwrite_def)
  next
    case 2
    then have "a * z + z \<le> b * z" using slot_bound by blast
    then show ?thesis using 2 az assms(2)
      by (simp add: chunk_def drop_overwrite_after)
  next
    case 3
    then have le: "b * z + z \<le> a * z" using slot_bound by blast
    have "chunk (overwrite st (a * z) item) (b * z) z
            = drop (b * z) (take (b * z + z) (overwrite st (a * z) item))"
      by (simp add: chunk_def take_drop add.commute)
    also have "\<dots> = drop (b * z) (take (b * z + z) st)"
      using le az by (simp add: take_overwrite_before)
    also have "\<dots> = chunk st (b * z) z"
      by (simp add: chunk_def take_drop add.commute)
    finally show ?thesis using 3 by simp
  qed
qed

section \<open>Unsigned counters\<close>

named_theorems counter_simps \<open>unsigned counters that do not wrap\<close>

lemma unat_inc [counter_simps]:
  fixes m l :: "'a::len word"
  assumes "m < l"
  shows "unat (m + 1) = unat m + 1"
proof -
  have "unat l < 2 ^ LENGTH('a)" by simp
  moreover have "unat m < unat l" using assms by (simp add: word_less_nat_alt)
  ultimately have "unat m + 1 < 2 ^ LENGTH('a)" by linarith
  then show ?thesis by (simp add: unat_word_ariths)
qed

lemma unat_dec [counter_simps]:
  fixes m :: "'a::len word"
  shows "0 < m \<Longrightarrow> unat (m - 1) = unat m - 1"
  by (metis unat_minus_one word_gt_0)

lemma unat_pos_iff [counter_simps]:
  fixes m :: "'a::len word"
  shows "0 < unat m \<longleftrightarrow> 0 < m"
  by (metis neq0_conv unat_eq_zero word_gt_0)

section \<open>Byte rings\<close>

text \<open>
  A ring of \<open>length xs\<close> bytes with read position \<open>r\<close> holds \<open>take f (rotate r xs)\<close> when it is
  filled with \<open>f\<close> bytes.
\<close>

lemma nth_overwrite:
  assumes "i < length xs" "p + length ys \<le> length xs"
  shows "overwrite xs p ys ! i = (if p \<le> i \<and> i < p + length ys then ys ! (i - p) else xs ! i)"
  using assms by (auto simp: overwrite_def nth_append min_def not_less)

lemma ring_append:
  assumes "f + length d \<le> length xs" "w = (r + f) mod length xs" "w + length d \<le> length xs"
  shows "take (f + length d) (rotate r (overwrite xs w d)) = take f (rotate r xs) @ d"
proof (rule nth_equalityI)
  have len: "length (overwrite xs w d) = length xs" using assms(3) by (rule length_overwrite)
  show "length (take (f + length d) (rotate r (overwrite xs w d))) = length (take f (rotate r xs) @ d)"
    using assms(1) len by simp
  fix i
  assume "i < length (take (f + length d) (rotate r (overwrite xs w d)))"
  then have i: "i < f + length d" "i < length xs" using len assms(1) by auto
  then have pos: "(r + i) mod length xs < length xs" by (intro mod_less_divisor) linarith
  have ring: "w + k = (r + (f + k)) mod length xs" if "k < length d" for k
  proof -
    have "w + k < length xs" using that assms(3) by simp
    then have "w + k = (w + k) mod length xs" by simp
    also have "\<dots> = (r + f + k) mod length xs" by (simp only: assms(2) mod_add_left_eq)
    finally show ?thesis by (simp only: add.assoc)
  qed
  have lhs: "take (f + length d) (rotate r (overwrite xs w d)) ! i
      = overwrite xs w d ! ((r + i) mod length xs)"
    using i len by (simp add: nth_rotate)
  show "take (f + length d) (rotate r (overwrite xs w d)) ! i = (take f (rotate r xs) @ d) ! i"
  proof (cases "i < f")
    case True
    have "\<not> (w \<le> (r + i) mod length xs \<and> (r + i) mod length xs < w + length d)"
    proof
      assume a: "w \<le> (r + i) mod length xs \<and> (r + i) mod length xs < w + length d"
      then obtain j where j: "(r + i) mod length xs = w + j" "j < length d"
        by (metis le_Suc_ex nat_add_left_cancel_less)
      have "(r + (f + j)) mod length xs = (r + i) mod length xs"
        using ring [OF j(2)] j(1) by (rule trans [OF sym sym])
      moreover have "f + j < length xs" using j(2) assms(1) by linarith
      ultimately have "f + j = i" using mod_ring_inj i(2) by blast
      with True show False by simp
    qed
    then show ?thesis
      using True i pos assms(1,3) unfolding lhs
      by (subst nth_overwrite) (auto simp: nth_append nth_rotate)
  next
    case False
    then obtain k where k: "i = f + k" "k < length d"
      using i by (metis le_Suc_ex nat_add_left_cancel_less not_less)
    have "overwrite xs w d ! (w + k) = d ! k"
      using k(2) assms(3) by (simp add: nth_overwrite)
    moreover have "(take f (rotate r xs) @ d) ! i = d ! k"
      using k assms(1) by (simp add: nth_append)
    moreover have "(r + i) mod length xs = w + k"
      using ring [OF k(2)] k(1) by simp
    ultimately show ?thesis using lhs by simp
  qed
qed

lemma ring_front:
  assumes "n \<le> f" "f \<le> length xs" "r + n \<le> length xs"
  shows "take n (take f (rotate r xs)) = chunk xs r n"
proof (rule nth_equalityI)
  show "length (take n (take f (rotate r xs))) = length (chunk xs r n)"
    using assms by (simp add: chunk_def)
  fix i
  assume "i < length (take n (take f (rotate r xs)))"
  then have "i < n" by simp
  then show "take n (take f (rotate r xs)) ! i = chunk xs r n ! i"
    using assms by (simp add: nth_rotate chunk_def)
qed

lemma ring_drop:
  assumes "n \<le> f" "f \<le> length xs"
  shows "take (f - n) (rotate ((r + n) mod length xs) xs) = drop n (take f (rotate r xs))"
proof (rule nth_equalityI)
  show "length (take (f - n) (rotate ((r + n) mod length xs) xs)) = length (drop n (take f (rotate r xs)))"
    using assms by simp
  fix i
  assume "i < length (take (f - n) (rotate ((r + n) mod length xs) xs))"
  then have i: "i < f - n" "i < length xs" by auto
  have "((r + n) mod length xs + i) mod length xs = (r + (n + i)) mod length xs"
    by (metis add.assoc mod_add_left_eq)
  then show "take (f - n) (rotate ((r + n) mod length xs) xs) ! i = drop n (take f (rotate r xs)) ! i"
    using i assms by (simp add: nth_rotate)
qed

lemma mod_advance:
  fixes p n m :: nat
  assumes "p < m" "p + n \<le> m"
  shows "(if m \<le> p + n then 0 else p + n) = (p + n) mod m"
  using assms by (cases "p + n = m") auto

section \<open>Runs that can fail\<close>

text \<open>
  The ways in which C code stops being defined or stops returning: a failed \<^verbatim>\<open>configASSERT\<close>
  (which aborts), a NULL pointer dereference, an integer division by zero, an access outside
  an object, the use of an uninitialised pointer, a conversion of an infinite floating-point
  value to an integer, and a wait that nothing ends.
\<close>

datatype fault = Assert_Failed | Null_Pointer | Div_By_Zero | Out_Of_Bounds | Uninitialised
  | Bad_Conversion | Blocks_Forever

type_synonym 'a run = "fault + 'a"

fun run_bind :: "'a run \<Rightarrow> ('a \<Rightarrow> 'b run) \<Rightarrow> 'b run" where
  "run_bind (Inl e) f = Inl e"
| "run_bind (Inr x) f = f x"

lemma run_bind_Inr_iff:
  "run_bind m f = Inr y \<longleftrightarrow> (\<exists>x. m = Inr x \<and> f x = Inr y)"
  by (cases m) auto

lemma run_bind_cong [fundef_cong]:
  "m = m' \<Longrightarrow> (\<And>x. m' = Inr x \<Longrightarrow> f x = g x) \<Longrightarrow> run_bind m f = run_bind m' g"
  by (cases m') auto

section \<open>Little-endian words\<close>

definition le16 :: "u16 \<Rightarrow> byte list" where
  "le16 w = [ucast w, ucast (drop_bit 8 w)]"

definition le32 :: "u32 \<Rightarrow> byte list" where
  "le32 w = [ucast w, ucast (drop_bit 8 w), ucast (drop_bit 16 w), ucast (drop_bit 24 w)]"

definition of_le16 :: "byte list \<Rightarrow> u16" where
  "of_le16 bs = ucast (bs ! 0) OR push_bit 8 (ucast (bs ! 1))"

definition of_le32 :: "byte list \<Rightarrow> u32" where
  "of_le32 bs = ucast (bs ! 0) OR push_bit 8 (ucast (bs ! 1)) OR push_bit 16 (ucast (bs ! 2))
     OR push_bit 24 (ucast (bs ! 3))"

lemma length_le [simp]: "length (le16 v) = 2" "length (le32 w) = 4"
  by (simp_all add: le16_def le32_def)

lemma of_le32_le32 [simp]: "of_le32 (le32 w) = w"
proof (rule bit_word_eqI)
  fix n
  assume "n < LENGTH(32)"
  then show "bit (of_le32 (le32 w)) n \<longleftrightarrow> bit w n"
    by (simp add: of_le32_def le32_def bit_simps cong: conj_cong) auto
qed

lemma of_le16_le16 [simp]: "of_le16 (le16 w) = w"
proof (rule bit_word_eqI)
  fix n
  assume "n < LENGTH(16)"
  then show "bit (of_le16 (le16 w)) n \<longleftrightarrow> bit w n"
    by (simp add: of_le16_def le16_def bit_simps cong: conj_cong) auto
qed

lemma le32_inj: "le32 v = le32 w \<longleftrightarrow> v = w"
  by (metis of_le32_le32)

end
