(* ===== verification/Byte_Fifo.thy ===== *)
theory Byte_Fifo
  imports Speaker_Prelude
begin

text \<open>
  The contract that the two byte buffers of the firmware (\<^verbatim>\<open>data_buffer.c\<close> and
  \<^verbatim>\<open>spiram_fifo.c\<close>) offer to the tasks around them: a put that leaves room appends to the
  queue, a get of fewer bytes than are ready takes them from its front, and both return.
\<close>

datatype fifo_op = Put "byte list" | Get nat

text \<open>
  A script of operations, with the bytes that went in and came out; \<open>None\<close> if some
  operation does not return. \<open>fifo_script_ok\<close> checks, along the same run, that every
  operation is one the contract speaks about.
\<close>

fun fifo_script ::
  "('s \<Rightarrow> byte list \<Rightarrow> 's option) \<Rightarrow> ('s \<Rightarrow> nat \<Rightarrow> ('s \<times> byte list) option) \<Rightarrow>
   's \<Rightarrow> fifo_op list \<Rightarrow> ('s \<times> byte list \<times> byte list) option" where
  "fifo_script put get s [] = Some (s, [], [])"
| "fifo_script put get s (Put d # ops) =
     (case put s d of None \<Rightarrow> None
      | Some s' \<Rightarrow> map_option (\<lambda>(t, i, out). (t, d @ i, out)) (fifo_script put get s' ops))"
| "fifo_script put get s (Get n # ops) =
     (case get s n of None \<Rightarrow> None
      | Some (s', bs) \<Rightarrow> map_option (\<lambda>(t, i, out). (t, i, bs @ out)) (fifo_script put get s' ops))"

fun fifo_script_ok ::
  "('s \<Rightarrow> byte list \<Rightarrow> 's option) \<Rightarrow> ('s \<Rightarrow> nat \<Rightarrow> ('s \<times> byte list) option) \<Rightarrow>
   ('s \<Rightarrow> nat) \<Rightarrow> ('s \<Rightarrow> nat) \<Rightarrow> 's \<Rightarrow> fifo_op list \<Rightarrow> bool" where
  "fifo_script_ok put get free ready s [] = True"
| "fifo_script_ok put get free ready s (Put d # ops) =
     (length d < free s \<and>
      (case put s d of None \<Rightarrow> True | Some s' \<Rightarrow> fifo_script_ok put get free ready s' ops))"
| "fifo_script_ok put get free ready s (Get n # ops) =
     (n < ready s \<and>
      (case get s n of None \<Rightarrow> True | Some (s', bs) \<Rightarrow> fifo_script_ok put get free ready s' ops))"

locale byte_fifo =
  fixes inv :: "'s \<Rightarrow> bool"
    and content :: "'s \<Rightarrow> byte list"
    and free :: "'s \<Rightarrow> nat"
    and ready :: "'s \<Rightarrow> nat"
    and put :: "'s \<Rightarrow> byte list \<Rightarrow> 's option"
    and get :: "'s \<Rightarrow> nat \<Rightarrow> ('s \<times> byte list) option"
  assumes put_law: "inv s \<Longrightarrow> length d < free s \<Longrightarrow>
      \<exists>s'. put s d = Some s' \<and> inv s' \<and> content s' = content s @ d \<and> free s' + length d = free s"
    and get_law: "inv s \<Longrightarrow> n < ready s \<Longrightarrow>
      \<exists>s'. get s n = Some (s', take n (content s)) \<and> inv s' \<and>
           content s = take n (content s) @ content s' \<and> ready s' + n = ready s"
begin

lemma put_twice:
  assumes "inv s" "length d + length e < free s"
  shows "\<exists>s1 s2. put s d = Some s1 \<and> put s1 e = Some s2 \<and> inv s2 \<and>
    content s2 = content s @ d @ e"
proof -
  obtain s1 where s1: "put s d = Some s1" "inv s1" "content s1 = content s @ d"
      "free s1 + length d = free s"
    using put_law [OF assms(1), of d] assms(2) by auto
  then obtain s2 where "put s1 e = Some s2" "inv s2" "content s2 = content s1 @ e"
    using put_law [of s1 e] assms(2) by auto
  with s1 show ?thesis by auto
qed

lemma get_prefix:
  assumes "inv s" "content s = x @ rest" "length x < ready s"
  shows "\<exists>s'. get s (length x) = Some (s', x) \<and> inv s' \<and> content s' = rest \<and> ready s' + length x = ready s"
  using get_law [OF assms(1,3)] assms(2) by auto

lemma script_fifo:
  "inv s \<Longrightarrow> fifo_script_ok put get free ready s ops \<Longrightarrow>
   \<exists>s' i out. fifo_script put get s ops = Some (s', i, out) \<and> inv s' \<and>
     content s @ i = out @ content s'"
proof (induction ops arbitrary: s)
  case Nil
  then show ?case by simp
next
  case (Cons op ops)
  show ?case
  proof (cases op)
    case (Put d)
    then obtain s1 where s1: "put s d = Some s1" "inv s1" "content s1 = content s @ d"
      using put_law [OF Cons.prems(1), of d] Cons.prems(2) by auto
    then obtain s' i out where "fifo_script put get s1 ops = Some (s', i, out)" "inv s'"
        "content s1 @ i = out @ content s'"
      using Cons.IH [of s1] Cons.prems(2) Put by auto
    with s1 Put show ?thesis by simp
  next
    case (Get n)
    then obtain s1 where s1: "get s n = Some (s1, take n (content s))" "inv s1"
        "content s = take n (content s) @ content s1"
      using get_law [OF Cons.prems(1), of n] Cons.prems(2) by auto
    then obtain s' i out where rec: "fifo_script put get s1 ops = Some (s', i, out)" "inv s'"
        "content s1 @ i = out @ content s'"
      using Cons.IH [of s1] Cons.prems(2) Get by auto
    have "content s @ i = (take n (content s) @ out) @ content s'"
      by (subst s1(3)) (simp add: rec(3))
    with rec s1 Get show ?thesis by simp
  qed
qed

end

end
