(* ===== verification/Data_Buffer.thy ===== *)
theory Data_Buffer
  imports Byte_Fifo
begin

text \<open>
  \<^verbatim>\<open>ESP32/main/data_buffer.c\<close>: the ring of five 5120-byte buffers between the TCP receiver
  (\<^verbatim>\<open>audio_thread\<close>, the writer) and the command interpreter (\<^verbatim>\<open>prcess_character\<close>, the
  reader).

  A buffer is \<^verbatim>\<open>B_UNPREPARED\<close> while the writer fills it and \<^verbatim>\<open>B_PREPARED\<close> while the reader
  drains it; the field \<^verbatim>\<open>used\<close> is the writer's offset in the first case and the reader's in
  the second. The two loops busy-wait on the state of the other side's buffer: one
  iteration is a function into \<open>option\<close> whose \<open>None\<close> means that the iteration spins, and the
  two C functions are \<open>partial_function\<close>s that return \<open>None\<close> when, run without the other
  task, they would spin for ever. The buffer a caller passes with its size is the list of
  its bytes.
\<close>

section \<open>State\<close>

definition NUMBER_OF_BUFFER :: nat where
  "NUMBER_OF_BUFFER = 5"

definition LENGTH_OF_BUFFER :: nat where
  "LENGTH_OF_BUFFER = 5120"

datatype data_buffer_state_e = B_PREPARED | B_UNPREPARED

record data_buffer_s =
  buffer :: "byte list"
  used :: nat
  data_buffer_state :: data_buffer_state_e

record db_state =
  data_buffer :: "data_buffer_s list"
  current_write_buffer :: nat
  current_read_buffer :: nat
  buffer_used :: int

text \<open>
  The image the loader leaves in memory: every static is zero, and the enumerator with
  value zero is \<^verbatim>\<open>B_PREPARED\<close>.
\<close>

definition db_static :: db_state where
  "db_static =
     \<lparr>data_buffer = replicate NUMBER_OF_BUFFER
        \<lparr>buffer = replicate LENGTH_OF_BUFFER 0, used = 0, data_buffer_state = B_PREPARED\<rparr>,
      current_write_buffer = 0, current_read_buffer = 0, buffer_used = 0\<rparr>"

section \<open>Operations\<close>

definition init_data_buffer :: "db_state \<Rightarrow> db_state" where
  "init_data_buffer s =
     s\<lparr>data_buffer := map (\<lambda>b. b\<lparr>used := 0, data_buffer_state := B_UNPREPARED\<rparr>) (data_buffer s)\<rparr>"

text \<open>One iteration of the loop of \<^verbatim>\<open>buffer_write_data\<close>, with the bytes still to be written.\<close>

definition write_iter :: "db_state \<Rightarrow> byte list \<Rightarrow> (db_state \<times> byte list) option" where
  "write_iter s data =
     (let w = current_write_buffer s; current = data_buffer s ! w in
      if data_buffer_state current = B_PREPARED then None
      else if length data < LENGTH_OF_BUFFER - used current then
        Some (s\<lparr>data_buffer := (data_buffer s)
                 [w := current\<lparr>buffer := overwrite (buffer current) (used current) data,
                               used := used current + length data\<rparr>]\<rparr>, [])
      else
        let remain = LENGTH_OF_BUFFER - used current;
            filled = current\<lparr>buffer := overwrite (buffer current) (used current) (take remain data),
                             used := 0, data_buffer_state := B_PREPARED\<rparr>;
            bs = (data_buffer s)[w := filled];
            w' = (w + 1) mod NUMBER_OF_BUFFER
        in Some (s\<lparr>data_buffer := bs[w' := (bs ! w')\<lparr>used := 0\<rparr>],
                   current_write_buffer := w',
                   buffer_used := buffer_used s + 1\<rparr>, drop remain data))"

partial_function (option) buffer_write_data :: "db_state \<Rightarrow> byte list \<Rightarrow> db_state option" where
  "buffer_write_data s data =
     (if data = [] then Some s
      else case write_iter s data of None \<Rightarrow> None
           | Some (s', rest) \<Rightarrow> buffer_write_data s' rest)"

text \<open>
  One iteration of the loop of \<^verbatim>\<open>buffer_read_data\<close>: the bytes copied to the caller and
  whether the iteration leaves the function through its early \<^verbatim>\<open>return\<close>.
\<close>

definition read_iter :: "db_state \<Rightarrow> nat \<Rightarrow> (db_state \<times> byte list \<times> bool) option" where
  "read_iter s sz =
     (let r = current_read_buffer s; current = data_buffer s ! r in
      if data_buffer_state current = B_UNPREPARED then None
      else if sz < LENGTH_OF_BUFFER - used current then
        Some (s\<lparr>data_buffer := (data_buffer s)[r := current\<lparr>used := used current + sz\<rparr>]\<rparr>,
              chunk (buffer current) (used current) sz, True)
      else
        let remain = LENGTH_OF_BUFFER - used current;
            bs = (data_buffer s)[r := current\<lparr>used := 0, data_buffer_state := B_UNPREPARED\<rparr>];
            r' = (r + 1) mod NUMBER_OF_BUFFER
        in Some (s\<lparr>data_buffer := bs[r' := (bs ! r')\<lparr>used := 0\<rparr>],
                   current_read_buffer := r',
                   buffer_used := buffer_used s - 1\<rparr>,
                 chunk (buffer current) (used current) remain, False))"

partial_function (option) read_loop ::
  "db_state \<Rightarrow> nat \<Rightarrow> byte list \<Rightarrow> (db_state \<times> byte list \<times> int) option" where
  "read_loop s sz acc =
     (if sz = 0 then Some (s, acc, 0)
      else case read_iter s sz of None \<Rightarrow> None
           | Some (s', bs, early) \<Rightarrow>
               if early then Some (s', acc @ bs, int (length acc) + int sz)
               else read_loop s' (sz - length bs) (acc @ bs))"

text \<open>
  The result carries the bytes stored through the caller's pointer and the C return value;
  \<^verbatim>\<open>data_read\<close> is the number of bytes copied so far.
\<close>

definition buffer_read_data :: "db_state \<Rightarrow> int \<Rightarrow> (db_state \<times> byte list \<times> int) option" where
  "buffer_read_data s sz = read_loop s (nat sz) []"

definition getBufferPercent :: "db_state \<Rightarrow> int" where
  "getBufferPercent s = (buffer_used s * 100) div int NUMBER_OF_BUFFER"

section \<open>The ring seen from the reader\<close>

definition ring :: "db_state \<Rightarrow> data_buffer_s list" where
  "ring s = rotate (current_read_buffer s) (data_buffer s)"

definition buf_ok :: "data_buffer_s \<Rightarrow> bool" where
  "buf_ok b \<longleftrightarrow> length (buffer b) = LENGTH_OF_BUFFER \<and> used b < LENGTH_OF_BUFFER"

text \<open>
  \<open>ring_ok v k\<close>: from the reader's position on, \<open>k\<close> prepared buffers are followed by the
  unprepared ones, and only the two buffers the tasks work on have a non-zero offset.
\<close>

definition ring_ok :: "data_buffer_s list \<Rightarrow> nat \<Rightarrow> bool" where
  "ring_ok v k \<longleftrightarrow>
     length v = NUMBER_OF_BUFFER \<and> k \<le> NUMBER_OF_BUFFER \<and>
     (\<forall>j < NUMBER_OF_BUFFER. buf_ok (v ! j) \<and>
        (data_buffer_state (v ! j) = B_PREPARED \<longleftrightarrow> j < k) \<and>
        (0 < j \<and> j \<noteq> k \<longrightarrow> used (v ! j) = 0))"

definition db_inv :: "db_state \<Rightarrow> bool" where
  "db_inv s \<longleftrightarrow>
     length (data_buffer s) = NUMBER_OF_BUFFER \<and> current_read_buffer s < NUMBER_OF_BUFFER \<and>
     0 \<le> buffer_used s \<and> ring_ok (ring s) (nat (buffer_used s)) \<and>
     current_write_buffer s =
       (current_read_buffer s + nat (buffer_used s)) mod NUMBER_OF_BUFFER"

text \<open>The byte queue the ring stands for.\<close>

definition ring_content :: "data_buffer_s list \<Rightarrow> nat \<Rightarrow> byte list" where
  "ring_content v k =
     (if k = 0 then [] else drop (used (v ! 0)) (buffer (v ! 0))) @
     concat (map buffer (take (k - 1) (drop 1 v))) @
     (if k < NUMBER_OF_BUFFER then take (used (v ! k)) (buffer (v ! k)) else [])"

definition db_content :: "db_state \<Rightarrow> byte list" where
  "db_content s = ring_content (ring s) (nat (buffer_used s))"

text \<open>Bytes the writer can still store, and bytes the reader finds in prepared buffers.\<close>

definition ring_free :: "data_buffer_s list \<Rightarrow> nat \<Rightarrow> nat" where
  "ring_free v k =
     (if k < NUMBER_OF_BUFFER then (NUMBER_OF_BUFFER - k) * LENGTH_OF_BUFFER - used (v ! k) else 0)"

definition ring_ready :: "data_buffer_s list \<Rightarrow> nat \<Rightarrow> nat" where
  "ring_ready v k = (if k = 0 then 0 else k * LENGTH_OF_BUFFER - used (v ! 0))"

definition db_free :: "db_state \<Rightarrow> nat" where
  "db_free s = ring_free (ring s) (nat (buffer_used s))"

definition db_ready :: "db_state \<Rightarrow> nat" where
  "db_ready s = ring_ready (ring s) (nat (buffer_used s))"

section \<open>Reading and updating the ring\<close>

lemma N_pos [simp]: "0 < NUMBER_OF_BUFFER" "Suc 0 < NUMBER_OF_BUFFER"
    "NUMBER_OF_BUFFER \<noteq> 0" "NUMBER_OF_BUFFER \<noteq> Suc 0" "Suc 0 \<noteq> NUMBER_OF_BUFFER"
  by (simp_all add: NUMBER_OF_BUFFER_def)

lemma L_pos [simp]: "0 < LENGTH_OF_BUFFER"
  by (simp add: LENGTH_OF_BUFFER_def)

lemma length_ring [simp]: "length (ring s) = length (data_buffer s)"
  by (simp add: ring_def)

lemma ring_nth:
  "j < length (data_buffer s) \<Longrightarrow>
   data_buffer s ! ((current_read_buffer s + j) mod length (data_buffer s)) = ring s ! j"
  by (simp add: ring_def nth_rotate)

lemma ring_update:
  "j < length (data_buffer s) \<Longrightarrow>
   rotate (current_read_buffer s)
     ((data_buffer s)[(current_read_buffer s + j) mod length (data_buffer s) := b]) =
   (ring s)[j := b]"
  by (simp add: ring_def rotate_update)

lemma ring_advance:
  "rotate ((m + 1) mod length xs) xs = rotate1 (rotate m xs)"
  by (metis Suc_eq_plus1 rotate_Suc rotate_conv_mod)

text \<open>The facts of the invariant that the operations use.\<close>

lemma ring_okD:
  assumes "ring_ok v k" "j < NUMBER_OF_BUFFER"
  shows "buf_ok (v ! j)" "data_buffer_state (v ! j) = B_PREPARED \<longleftrightarrow> j < k"
    "0 < j \<Longrightarrow> j \<noteq> k \<Longrightarrow> used (v ! j) = 0"
  using assms by (auto simp: ring_ok_def)

lemma not_prepared [simp]: "x \<noteq> B_PREPARED \<longleftrightarrow> x = B_UNPREPARED"
  by (cases x) auto

lemma db_invD:
  assumes "db_inv s"
  shows "length (data_buffer s) = NUMBER_OF_BUFFER" "ring_ok (ring s) (nat (buffer_used s))"
    "0 \<le> buffer_used s" "nat (buffer_used s) \<le> NUMBER_OF_BUFFER"
    "current_write_buffer s = (current_read_buffer s + nat (buffer_used s)) mod NUMBER_OF_BUFFER"
    "current_read_buffer s < NUMBER_OF_BUFFER"
  using assms by (auto simp: db_inv_def ring_ok_def)

lemma write_current:
  assumes "db_inv s"
  shows "data_buffer s ! current_write_buffer s =
         ring s ! (nat (buffer_used s) mod NUMBER_OF_BUFFER)"
proof -
  have "(current_read_buffer s + nat (buffer_used s)) mod NUMBER_OF_BUFFER =
        (current_read_buffer s + nat (buffer_used s) mod NUMBER_OF_BUFFER) mod NUMBER_OF_BUFFER"
    by (simp add: mod_add_right_eq)
  then show ?thesis
    using ring_nth [of "nat (buffer_used s) mod NUMBER_OF_BUFFER" s] assms
    by (simp add: db_invD(1,5))
qed

lemma read_current:
  assumes "db_inv s"
  shows "data_buffer s ! current_read_buffer s = ring s ! 0"
  using ring_nth [of 0 s] assms by (simp add: db_invD(1,6))

section \<open>The ring operations, from the reader's position\<close>

definition filled :: "data_buffer_s \<Rightarrow> byte list \<Rightarrow> data_buffer_s" where
  "filled b data = b\<lparr>buffer := overwrite (buffer b) (used b) data, used := 0,
                      data_buffer_state := B_PREPARED\<rparr>"

definition appended :: "data_buffer_s \<Rightarrow> byte list \<Rightarrow> data_buffer_s" where
  "appended b data = b\<lparr>buffer := overwrite (buffer b) (used b) data,
                        used := used b + length data\<rparr>"

definition drained :: "data_buffer_s \<Rightarrow> data_buffer_s" where
  "drained b = b\<lparr>used := 0, data_buffer_state := B_UNPREPARED\<rparr>"

definition rewound :: "data_buffer_s \<Rightarrow> data_buffer_s" where
  "rewound b = b\<lparr>used := 0\<rparr>"

lemmas ring_edits = filled_def appended_def drained_def rewound_def

lemma write_iter_full:
  assumes "db_inv s" "nat (buffer_used s) = NUMBER_OF_BUFFER"
  shows "write_iter s data = None"
  using assms by (simp add: write_iter_def write_current ring_okD(2) [OF db_invD(2)])

lemma read_iter_empty:
  assumes "db_inv s" "buffer_used s = 0"
  shows "read_iter s sz = None"
proof -
  have "data_buffer_state (ring s ! 0) \<noteq> B_PREPARED"
    using assms ring_okD(2) [OF db_invD(2), of s 0] by simp
  then show ?thesis using assms by (simp add: read_iter_def read_current)
qed

lemma write_iter_part:
  assumes "db_inv s" and k: "nat (buffer_used s) = k" "k < NUMBER_OF_BUFFER"
    and "length data < LENGTH_OF_BUFFER - used (ring s ! k)"
  obtains s' where "write_iter s data = Some (s', [])"
    "ring s' = (ring s)[k := appended (ring s ! k) data]"
    "length (data_buffer s') = NUMBER_OF_BUFFER"
    "current_read_buffer s' = current_read_buffer s"
    "current_write_buffer s' = current_write_buffer s" "buffer_used s' = buffer_used s"
proof -
  note inv = db_invD [OF assms(1)]
  have upd: "rotate (current_read_buffer s) ((data_buffer s)[current_write_buffer s := b]) =
    (ring s)[k := b]" for b
    using ring_update [of k s b] k inv(1,5) by simp
  have "data_buffer_state (ring s ! k) \<noteq> B_PREPARED"
    using ring_okD(2) [OF inv(2)] k by simp
  then show thesis
    using assms inv(1) k upd that
    by (simp add: write_iter_def write_current Let_def ring_def appended_def)
qed

lemma write_iter_fill:
  assumes "db_inv s" and k: "nat (buffer_used s) = k" "k < NUMBER_OF_BUFFER"
    and r: "remain = LENGTH_OF_BUFFER - used (ring s ! k)" and "remain \<le> length data"
    and v': "v' = (ring s)[k := filled (ring s ! k) (take remain data)]"
    and k': "k' = (k + 1) mod NUMBER_OF_BUFFER"
  obtains s' where "write_iter s data = Some (s', drop remain data)"
    "ring s' = v'[k' := rewound (v' ! k')]"
    "length (data_buffer s') = NUMBER_OF_BUFFER"
    "current_read_buffer s' = current_read_buffer s"
    "current_write_buffer s' = (current_read_buffer s + (k + 1)) mod NUMBER_OF_BUFFER"
    "buffer_used s' = buffer_used s + 1"
proof -
  note inv = db_invD [OF assms(1)]
  define bs where
    "bs = (data_buffer s)[current_write_buffer s := filled (ring s ! k) (take remain data)]"
  have v'_bs: "v' = rotate (current_read_buffer s) bs"
    using ring_update [of k s] k inv(1,5) by (simp add: v' bs_def)
  have bs_len: "length bs = NUMBER_OF_BUFFER" by (simp add: bs_def inv(1))
  have k'_less: "k' < NUMBER_OF_BUFFER" by (simp add: k')
  have nxt: "(current_write_buffer s + 1) mod NUMBER_OF_BUFFER =
    (current_read_buffer s + k') mod NUMBER_OF_BUFFER"
    using inv(5) k by (simp add: k' mod_simps add.assoc)
  have nth: "bs ! ((current_read_buffer s + k') mod NUMBER_OF_BUFFER) = v' ! k'"
    using bs_len k'_less by (simp add: v'_bs nth_rotate)
  have upd: "rotate (current_read_buffer s)
      (bs[(current_read_buffer s + k') mod NUMBER_OF_BUFFER := b]) = v'[k' := b]" for b
    using rotate_update [of k' bs] bs_len k'_less by (simp add: v'_bs)
  have "data_buffer_state (ring s ! k) \<noteq> B_PREPARED"
    using ring_okD(2) [OF inv(2)] k by simp
  then have "write_iter s data =
      Some (s\<lparr>data_buffer := bs[(current_read_buffer s + k') mod NUMBER_OF_BUFFER :=
                rewound (v' ! k')],
              current_write_buffer := (current_read_buffer s + k') mod NUMBER_OF_BUFFER,
              buffer_used := buffer_used s + 1\<rparr>, drop remain data)"
    using assms(1,5) k r nxt nth
    by (simp add: write_iter_def write_current Let_def filled_def rewound_def bs_def)
  then show thesis
    using that bs_len upd by (simp add: ring_def k' mod_simps)
qed

lemma read_iter_part:
  assumes "db_inv s" "0 < buffer_used s" and "sz < LENGTH_OF_BUFFER - used (ring s ! 0)"
  obtains s' where
    "read_iter s sz = Some (s', chunk (buffer (ring s ! 0)) (used (ring s ! 0)) sz, True)"
    "ring s' = (ring s)[0 := (ring s ! 0)\<lparr>used := used (ring s ! 0) + sz\<rparr>]"
    "length (data_buffer s') = NUMBER_OF_BUFFER"
    "current_read_buffer s' = current_read_buffer s"
    "current_write_buffer s' = current_write_buffer s" "buffer_used s' = buffer_used s"
proof -
  note inv = db_invD [OF assms(1)]
  have upd: "rotate (current_read_buffer s) ((data_buffer s)[current_read_buffer s := b]) =
    (ring s)[0 := b]" for b
    using ring_update [of 0 s b] inv(1,6) by simp
  have "data_buffer_state (ring s ! 0) = B_PREPARED"
    using ring_okD(2) [OF inv(2), of 0] assms(2) by simp
  then show thesis
    using assms inv(1) upd that
    by (simp add: read_iter_def read_current Let_def ring_def)
qed

lemma read_iter_drain:
  assumes "db_inv s" "0 < buffer_used s"
    and r: "remain = LENGTH_OF_BUFFER - used (ring s ! 0)" and "remain \<le> sz"
  obtains s' where
    "read_iter s sz = Some (s', chunk (buffer (ring s ! 0)) (used (ring s ! 0)) remain, False)"
    "ring s' = rotate1 ((ring s)[0 := drained (ring s ! 0), 1 := rewound (ring s ! 1)])"
    "length (data_buffer s') = NUMBER_OF_BUFFER"
    "current_read_buffer s' = (current_read_buffer s + 1) mod NUMBER_OF_BUFFER"
    "current_write_buffer s' = current_write_buffer s" "buffer_used s' = buffer_used s - 1"
proof -
  note inv = db_invD [OF assms(1)]
  define bs where "bs = (data_buffer s)[current_read_buffer s := drained (ring s ! 0)]"
  have v'_bs: "rotate (current_read_buffer s) bs = (ring s)[0 := drained (ring s ! 0)]"
    using ring_update [of 0 s] inv(1,6) by (simp add: bs_def)
  have bs_len: "length bs = NUMBER_OF_BUFFER" by (simp add: bs_def inv(1))
  have nth: "bs ! ((current_read_buffer s + 1) mod NUMBER_OF_BUFFER) = ring s ! 1"
  proof -
    have "bs ! ((current_read_buffer s + 1) mod NUMBER_OF_BUFFER) =
      rotate (current_read_buffer s) bs ! 1"
      using bs_len by (simp add: nth_rotate)
    then show ?thesis by (simp add: v'_bs)
  qed
  have upd: "rotate ((current_read_buffer s + 1) mod NUMBER_OF_BUFFER)
      (bs[(current_read_buffer s + 1) mod NUMBER_OF_BUFFER := b]) =
    rotate1 ((ring s)[0 := drained (ring s ! 0), 1 := b])" for b
    using rotate_update [of 1 bs "current_read_buffer s" b] bs_len v'_bs
      ring_advance [of "current_read_buffer s"
        "bs[(current_read_buffer s + 1) mod NUMBER_OF_BUFFER := b]"]
    by simp
  have "data_buffer_state (ring s ! 0) = B_PREPARED"
    using ring_okD(2) [OF inv(2), of 0] assms(2) by simp
  then have "read_iter s sz =
      Some (s\<lparr>data_buffer := bs[(current_read_buffer s + 1) mod NUMBER_OF_BUFFER :=
                rewound (ring s ! 1)],
              current_read_buffer := (current_read_buffer s + 1) mod NUMBER_OF_BUFFER,
              buffer_used := buffer_used s - 1\<rparr>,
            chunk (buffer (ring s ! 0)) (used (ring s ! 0)) remain, False)"
    using assms(1,4) r nth
    by (simp add: read_iter_def read_current Let_def drained_def rewound_def bs_def)
  then show thesis
    using that bs_len upd by (simp add: ring_def)
qed

lemma appended_content:
  assumes "buf_ok b" "length data < LENGTH_OF_BUFFER - used b"
  shows "take (used (appended b data)) (buffer (appended b data)) = take (used b) (buffer b) @ data"
    "buf_ok (appended b data)" "data_buffer_state (appended b data) = data_buffer_state b"
  using assms by (auto simp: appended_def buf_ok_def array_simps)

lemma filled_content:
  assumes "buf_ok b" "length data = LENGTH_OF_BUFFER - used b"
  shows "buffer (filled b data) = take (used b) (buffer b) @ data" "used (filled b data) = 0"
    "buf_ok (filled b data)" "data_buffer_state (filled b data) = B_PREPARED"
  using assms by (auto simp: filled_def buf_ok_def overwrite_full)

lemma drained_simps [simp]:
  "buf_ok b \<Longrightarrow> buf_ok (drained b)" "data_buffer_state (drained b) = B_UNPREPARED"
  "used (drained b) = 0"
  by (auto simp: drained_def buf_ok_def)

lemma rewound_simps [simp]:
  "buf_ok b \<Longrightarrow> buf_ok (rewound b)" "data_buffer_state (rewound b) = data_buffer_state b"
  "used (rewound b) = 0" "buffer (rewound b) = buffer b"
  by (auto simp: rewound_def buf_ok_def)

lemma rewound_id: "used b = 0 \<Longrightarrow> rewound b = b"
  by (simp add: rewound_def)

lemma middle_update:
  "k \<le> j \<Longrightarrow> take (k - 1) (drop 1 (v[j := x])) = take (k - 1) (drop 1 v)"
  "drop 1 (v[0 := x]) = drop 1 v"
  by (cases j; cases v; simp) (cases v; simp)

lemma ring_store:
  assumes "ring_ok v k" "k < NUMBER_OF_BUFFER" "length data < LENGTH_OF_BUFFER - used (v ! k)"
  shows "ring_ok (v[k := appended (v ! k) data]) k"
    "ring_content (v[k := appended (v ! k) data]) k = ring_content v k @ data"
    "ring_free (v[k := appended (v ! k) data]) k + length data = ring_free v k"
proof -
  note ok = ring_okD(1) [OF assms(1,2)]
  note app = appended_content [OF ok assms(3)]
  have len: "length v = NUMBER_OF_BUFFER" using assms(1) by (simp add: ring_ok_def)
  have "data_buffer_state (v ! k) = B_UNPREPARED"
    using ring_okD(2) [OF assms(1,2)] by simp
  then show "ring_ok (v[k := appended (v ! k) data]) k"
    using assms(1,2) app(2,3) len unfolding ring_ok_def by (simp add: nth_list_update)
  show "ring_content (v[k := appended (v ! k) data]) k = ring_content v k @ data"
    unfolding ring_content_def middle_update(1) [OF order_refl]
    using app(1) assms(2) len by simp
  have "LENGTH_OF_BUFFER \<le> (NUMBER_OF_BUFFER - k) * LENGTH_OF_BUFFER" using assms(2) by simp
  from diff_add_restore [OF this assms(3)]
  show "ring_free (v[k := appended (v ! k) data]) k + length data = ring_free v k"
    using assms(2) len by (simp add: ring_free_def appended_def)
qed

lemma ring_fill:
  assumes "ring_ok v k" "k < NUMBER_OF_BUFFER" "length data = LENGTH_OF_BUFFER - used (v ! k)"
    and v': "v' = v[k := filled (v ! k) data]" and k': "k' = (k + 1) mod NUMBER_OF_BUFFER"
  shows "ring_ok (v'[k' := rewound (v' ! k')]) (k + 1)"
    "ring_content (v'[k' := rewound (v' ! k')]) (k + 1) =
       (if k + 1 = NUMBER_OF_BUFFER then take (used (v ! 0)) (buffer (v ! 0)) else []) @
       ring_content v k @ data"
    "ring_free (v'[k' := rewound (v' ! k')]) (k + 1) + length data = ring_free v k"
proof -
  let ?v = "v'[k' := rewound (v' ! k')]"
  note ok = ring_okD(1) [OF assms(1,2)]
  note fill = filled_content [OF ok assms(3)]
  have len: "length v = NUMBER_OF_BUFFER" using assms(1) by (simp add: ring_ok_def)
  have k'_cases: "k' = k + 1 \<and> k + 1 < NUMBER_OF_BUFFER \<or> k' = 0 \<and> k + 1 = NUMBER_OF_BUFFER \<and> 0 < k"
    using assms(2) by (auto simp: k' NUMBER_OF_BUFFER_def mod_Suc)
  have nth: "?v ! j = (if j = k then filled (v ! k) data else if j = k' then rewound (v ! j) else v ! j)"
    if "j < NUMBER_OF_BUFFER" for j
    using that k'_cases len by (auto simp: v' nth_list_update)
  show "ring_ok ?v (k + 1)"
    unfolding ring_ok_def
  proof (intro conjI allI impI)
    fix j assume j: "j < NUMBER_OF_BUFFER"
    note old = ring_okD [OF assms(1) j]
    show "buf_ok (?v ! j)" using old(1) fill(3) by (auto simp: nth [OF j])
    show "data_buffer_state (?v ! j) = B_PREPARED \<longleftrightarrow> j < k + 1"
      using old(2) fill(4) k'_cases by (auto simp: nth [OF j])
    show "used (?v ! j) = 0" if "0 < j \<and> j \<noteq> k + 1"
      using old(3) fill(2) that by (auto simp: nth [OF j])
  qed (use assms(2) len in \<open>simp_all add: v'\<close>)
  show "ring_content ?v (k + 1) =
       (if k + 1 = NUMBER_OF_BUFFER then take (used (v ! 0)) (buffer (v ! 0)) else []) @
       ring_content v k @ data"
  proof (cases "k = 0")
    case True
    then show ?thesis
      using nth [of 0] nth [of 1] fill k'_cases ring_okD(3) [OF assms(1), of 1]
      by (auto simp: ring_content_def)
  next
    case False
    then have mid: "take k (drop 1 ?v) = take (k - 1) (drop 1 v) @ [filled (v ! k) data]"
    proof -
      have "take k (drop 1 ?v) = take (k - 1) (drop 1 ?v) @ [?v ! k]"
        using False assms(2) len take_Suc_conv_app_nth [of "k - 1" "drop 1 ?v"]
        by (simp add: v')
      moreover have "take (k - 1) (drop 1 ?v) = take (k - 1) (drop 1 v)"
      proof -
        have "take (k - 1) (drop 1 ?v) = take (k - 1) (drop 1 v')"
          using k'_cases by (metis le_add1 middle_update)
        then show ?thesis by (simp only: v' middle_update(1) [OF order_refl])
      qed
      ultimately show ?thesis using nth [OF assms(2)] by simp
    qed
    show ?thesis
      using nth [of 0] nth [of "k + 1"] mid fill k'_cases False
        ring_okD(3) [OF assms(1), of "k + 1"] assms(2)
      by (auto simp: ring_content_def)
  qed
  have "(NUMBER_OF_BUFFER - k) * LENGTH_OF_BUFFER =
      (NUMBER_OF_BUFFER - (k + 1)) * LENGTH_OF_BUFFER + LENGTH_OF_BUFFER"
    using assms(2) by (metis Suc_diff_Suc Suc_eq_plus1 add.commute mult_Suc)
  then show "ring_free ?v (k + 1) + length data = ring_free v k"
    using nth [of "k + 1"] k'_cases ok assms(2,3)
    by (auto simp: ring_free_def buf_ok_def)
qed

lemma ring_read:
  assumes "ring_ok v k" "0 < k" "sz < LENGTH_OF_BUFFER - used (v ! 0)"
    and v': "v' = v[0 := (v ! 0)\<lparr>used := used (v ! 0) + sz\<rparr>]"
  shows "ring_ok v' k"
    "ring_content v k = chunk (buffer (v ! 0)) (used (v ! 0)) sz @ ring_content v' k"
    "ring_ready v' k + sz = ring_ready v k"
proof -
  have len: "length v = NUMBER_OF_BUFFER" using assms(1) by (simp add: ring_ok_def)
  show "ring_ok v' k"
    using assms(1-3) len unfolding ring_ok_def v' buf_ok_def by (simp add: nth_list_update)
  show "ring_content v k = chunk (buffer (v ! 0)) (used (v ! 0)) sz @ ring_content v' k"
    using assms(2) len chunk_append_drop [of "used (v ! 0)" "buffer (v ! 0)" sz]
    by (cases v) (auto simp: ring_content_def v' NUMBER_OF_BUFFER_def)
  have "LENGTH_OF_BUFFER \<le> k * LENGTH_OF_BUFFER" using assms(2) by simp
  from diff_add_restore [OF this assms(3)]
  show "ring_ready v' k + sz = ring_ready v k"
    using assms(2) len by (simp add: ring_ready_def v')
qed

lemma ring_drain:
  assumes "ring_ok v k" "0 < k"
    and v': "v' = rotate1 (v[0 := drained (v ! 0), 1 := rewound (v ! 1)])"
  shows "ring_ok v' (k - 1)"
    "ring_content v k =
       drop (used (v ! 0)) (buffer (v ! 0)) @ ring_content v' (k - 1) @
       (if k = 1 then take (used (v ! 1)) (buffer (v ! 1)) else [])"
    "ring_ready v' (k - 1) + (LENGTH_OF_BUFFER - used (v ! 0)) = ring_ready v k"
proof -
  have len: "length v = NUMBER_OF_BUFFER" using assms(1) by (simp add: ring_ok_def)
  obtain a b r where v: "v = a # b # r"
    using len that by (cases v; cases "tl v") (auto simp: NUMBER_OF_BUFFER_def)
  have v'_eq: "v' = rewound b # r @ [drained a]" by (simp add: v' v)
  have nth: "v' ! j = (if j = 0 then rewound b else if j + 1 = NUMBER_OF_BUFFER then drained a else v ! (j + 1))"
    if "j < NUMBER_OF_BUFFER" for j
    using that len by (auto simp: v'_eq v nth_Cons nth_append split: nat.splits)
  have k_le: "k \<le> NUMBER_OF_BUFFER" using assms(1) by (simp add: ring_ok_def)
  show "ring_ok v' (k - 1)"
    unfolding ring_ok_def
  proof (intro conjI allI impI)
    fix j assume j: "j < NUMBER_OF_BUFFER"
    have b0: "buf_ok a" "buf_ok b" using ring_okD(1) [OF assms(1), of 0] ring_okD(1) [OF assms(1), of 1]
      by (simp_all add: v)
    have old: "j + 1 < NUMBER_OF_BUFFER \<Longrightarrow> buf_ok (v ! (j + 1))"
      "j + 1 < NUMBER_OF_BUFFER \<Longrightarrow> data_buffer_state (v ! (j + 1)) = B_PREPARED \<longleftrightarrow> j + 1 < k"
      "j + 1 < NUMBER_OF_BUFFER \<Longrightarrow> j + 1 \<noteq> k \<Longrightarrow> used (v ! (j + 1)) = 0"
      using ring_okD [OF assms(1), of "j + 1"] by auto
    show "buf_ok (v' ! j)" using old(1) b0 j by (auto simp: nth)
    show "data_buffer_state (v' ! j) = B_PREPARED \<longleftrightarrow> j < k - 1"
      using old(2) j k_le ring_okD(2) [OF assms(1), of 1] by (auto simp: nth v)
    show "used (v' ! j) = 0" if "0 < j \<and> j \<noteq> k - 1"
      using old(3) that j by (auto simp: nth)
  qed (use k_le len in \<open>simp_all add: v'\<close>)
  show "ring_content v k =
       drop (used (v ! 0)) (buffer (v ! 0)) @ ring_content v' (k - 1) @
       (if k = 1 then take (used (v ! 1)) (buffer (v ! 1)) else [])"
  proof (cases "k = 1")
    case True
    then show ?thesis by (simp add: ring_content_def v v'_eq)
  next
    case False
    with assms(2) obtain m where k: "k = Suc (Suc m)"
      by (metis One_nat_def gr0_implies_Suc not_gr_zero)
    have "used b = 0" using ring_okD(3) [OF assms(1), of 1] False by (simp add: v)
    moreover have "m \<le> length r" using k_le k len by (simp add: v)
    ultimately show ?thesis using len k_le nth [of "Suc m"] k
      by (auto simp: ring_content_def v v'_eq rewound_def)
  qed
  have "k * LENGTH_OF_BUFFER = (k - 1) * LENGTH_OF_BUFFER + LENGTH_OF_BUFFER"
    using assms(2) by (metis Suc_diff_1 add.commute mult_Suc)
  then show "ring_ready v' (k - 1) + (LENGTH_OF_BUFFER - used (v ! 0)) = ring_ready v k"
    using assms(2) ring_okD(1) [OF assms(1), of 0] by (auto simp: ring_ready_def v'_eq buf_ok_def)
qed

section \<open>One iteration against the byte queue\<close>

text \<open>
  The writer's iteration that completes the last free buffer rewinds the buffer the reader
  is in the middle of, so the bytes already read appear again; the reader's iteration that
  empties the last prepared buffer rewinds the buffer the writer is filling, so the bytes
  already written to it are lost. \<open>write_replay\<close> and \<open>read_loss\<close> are these bytes.
\<close>

definition write_replay :: "db_state \<Rightarrow> byte list \<Rightarrow> byte list" where
  "write_replay s data =
     (let k = nat (buffer_used s) in
      if k + 1 = NUMBER_OF_BUFFER \<and> LENGTH_OF_BUFFER - used (ring s ! k) \<le> length data
      then take (used (ring s ! 0)) (buffer (ring s ! 0)) else [])"

definition read_loss :: "db_state \<Rightarrow> nat \<Rightarrow> byte list" where
  "read_loss s sz =
     (if buffer_used s = 1 \<and> LENGTH_OF_BUFFER - used (ring s ! 0) \<le> sz
      then take (used (ring s ! 1)) (buffer (ring s ! 1)) else [])"

lemma db_inv_write:
  assumes "db_inv s" "length (data_buffer s') = NUMBER_OF_BUFFER"
    "current_read_buffer s' = current_read_buffer s" "buffer_used s' = buffer_used s + int n"
    "current_write_buffer s' = (current_read_buffer s + (nat (buffer_used s) + n)) mod NUMBER_OF_BUFFER"
    "ring_ok (ring s') (nat (buffer_used s) + n)"
  shows "db_inv s'"
  using assms db_invD [OF assms(1)] by (simp add: db_inv_def nat_add_distrib)

lemma write_iter_spec:
  assumes "db_inv s" "buffer_used s < int NUMBER_OF_BUFFER" "data \<noteq> []"
  obtains s' written rest where "write_iter s data = Some (s', rest)" "data = written @ rest"
    "written \<noteq> []" "db_inv s'" "db_content s' = write_replay s data @ db_content s @ written"
    "db_free s' + length written = db_free s"
proof -
  note inv = db_invD [OF assms(1)]
  define k where "k = nat (buffer_used s)"
  define remain where "remain = LENGTH_OF_BUFFER - used (ring s ! k)"
  have k: "nat (buffer_used s) = k" "k < NUMBER_OF_BUFFER"
    using assms(2) inv(3) by (auto simp: k_def)
  have ok: "ring_ok (ring s) k" using inv(2) by (simp add: k_def)
  have pos: "0 < remain" using ring_okD(1) [OF ok k(2)] by (simp add: buf_ok_def remain_def)
  show thesis
  proof (cases "length data < remain")
    case True
    then have small: "length data < LENGTH_OF_BUFFER - used (ring s ! k)" by (simp add: remain_def)
    obtain s' where it: "write_iter s data = Some (s', [])"
      and r: "ring s' = (ring s)[k := appended (ring s ! k) data]"
      and f: "length (data_buffer s') = NUMBER_OF_BUFFER"
        "current_read_buffer s' = current_read_buffer s"
        "current_write_buffer s' = current_write_buffer s" "buffer_used s' = buffer_used s"
      using write_iter_part [OF assms(1) k small] by metis
    have ok': "ring_ok (ring s') k" using ring_store(1) [OF ok k(2) small] r by simp
    have "db_inv s'"
      using db_inv_write [OF assms(1) f(1,2), of 0] f ok' inv(5) k(1) by simp
    moreover have "db_content s' = write_replay s data @ db_content s @ data"
      using ring_store(2) [OF ok k(2) small] r f(4) k(1) True
      by (simp add: db_content_def write_replay_def remain_def)
    moreover have "db_free s' + length data = db_free s"
      using ring_store(3) [OF ok k(2) small] r f(4) k(1) by (simp add: db_free_def)
    ultimately show thesis using that [of s' "[]" data] it assms(3) by simp
  next
    case False
    define v' where "v' = (ring s)[k := filled (ring s ! k) (take remain data)]"
    define k' where "k' = (k + 1) mod NUMBER_OF_BUFFER"
    have full: "remain \<le> length data" using False by simp
    then have len: "length (take remain data) = LENGTH_OF_BUFFER - used (ring s ! k)"
      by (simp add: remain_def)
    obtain s' where it: "write_iter s data = Some (s', drop remain data)"
      and r: "ring s' = v'[k' := rewound (v' ! k')]"
      and f: "length (data_buffer s') = NUMBER_OF_BUFFER"
        "current_read_buffer s' = current_read_buffer s"
        "current_write_buffer s' = (current_read_buffer s + (k + 1)) mod NUMBER_OF_BUFFER"
        "buffer_used s' = buffer_used s + 1"
      using write_iter_fill [OF assms(1) k remain_def full v'_def k'_def] by metis
    note fill = ring_fill [OF ok k(2) len v'_def k'_def]
    have "db_inv s'"
      using db_inv_write [OF assms(1) f(1,2), of 1] f fill(1) r k(1) by simp
    moreover have k1: "nat (buffer_used s') = k + 1" using f(4) inv(3) k(1) by simp
    then have "db_content s' = write_replay s data @ db_content s @ take remain data"
      using fill(2) r k(1) full
      by (simp add: db_content_def write_replay_def Let_def remain_def)
    moreover have "db_free s' + length (take remain data) = db_free s"
      using fill(3) r k(1) k1 by (simp add: db_free_def)
    moreover have "take remain data \<noteq> []" using pos assms(3) by simp
    ultimately show thesis
      using that [of s' "drop remain data" "take remain data"] it by simp
  qed
qed

lemma read_iter_spec:
  assumes "db_inv s" "0 < buffer_used s" "0 < sz"
  obtains s' bs early where "read_iter s sz = Some (s', bs, early)" "db_inv s'"
    "db_content s = bs @ db_content s' @ read_loss s sz" "bs \<noteq> []" "length bs \<le> sz"
    "db_ready s' + length bs = db_ready s" "early \<Longrightarrow> length bs = sz"
    "early \<longleftrightarrow> sz < LENGTH_OF_BUFFER - used (ring s ! 0)"
    "\<not> early \<Longrightarrow> length bs = LENGTH_OF_BUFFER - used (ring s ! 0)"
    "\<not> early \<Longrightarrow> used (ring s' ! 0) = 0"
proof -
  note inv = db_invD [OF assms(1)]
  define k where "k = nat (buffer_used s)"
  define remain where "remain = LENGTH_OF_BUFFER - used (ring s ! 0)"
  have k: "nat (buffer_used s) = k" "0 < k" using assms(2) by (auto simp: k_def)
  have ok: "ring_ok (ring s) k" using inv(2) by (simp add: k_def)
  have buf: "buf_ok (ring s ! 0)" using ring_okD(1) [OF ok] by simp
  show thesis
  proof (cases "sz < remain")
    case True
    then have small: "sz < LENGTH_OF_BUFFER - used (ring s ! 0)" by (simp add: remain_def)
    obtain s' where it:
        "read_iter s sz = Some (s', chunk (buffer (ring s ! 0)) (used (ring s ! 0)) sz, True)"
      and r: "ring s' = (ring s)[0 := (ring s ! 0)\<lparr>used := used (ring s ! 0) + sz\<rparr>]"
      and f: "length (data_buffer s') = NUMBER_OF_BUFFER"
        "current_read_buffer s' = current_read_buffer s"
        "current_write_buffer s' = current_write_buffer s" "buffer_used s' = buffer_used s"
      using read_iter_part [OF assms(1,2) small] by metis
    note rd = ring_read [OF ok k(2) small r]
    have "db_inv s'" using f rd(1) inv k by (simp add: db_inv_def)
    moreover have "db_content s = chunk (buffer (ring s ! 0)) (used (ring s ! 0)) sz @
        db_content s' @ read_loss s sz"
      using rd(2) f(4) k True by (simp add: db_content_def read_loss_def remain_def)
    moreover have len: "length (chunk (buffer (ring s ! 0)) (used (ring s ! 0)) sz) = sz"
      using buf small by (simp add: buf_ok_def array_simps)
    moreover have "db_ready s' + sz = db_ready s"
      using rd(3) f(4) k by (simp add: db_ready_def)
    moreover have "chunk (buffer (ring s ! 0)) (used (ring s ! 0)) sz \<noteq> []"
      using len assms(3) by auto
    ultimately show thesis using that [OF it] small by simp
  next
    case False
    then have full: "remain \<le> sz" by simp
    obtain s' where it:
        "read_iter s sz = Some (s', chunk (buffer (ring s ! 0)) (used (ring s ! 0)) remain, False)"
      and r: "ring s' = rotate1 ((ring s)[0 := drained (ring s ! 0), 1 := rewound (ring s ! 1)])"
      and f: "length (data_buffer s') = NUMBER_OF_BUFFER"
        "current_read_buffer s' = (current_read_buffer s + 1) mod NUMBER_OF_BUFFER"
        "current_write_buffer s' = current_write_buffer s" "buffer_used s' = buffer_used s - 1"
      using read_iter_drain [OF assms(1,2) remain_def full] by metis
    note dr = ring_drain [OF ok k(2) r]
    have chunk: "chunk (buffer (ring s ! 0)) (used (ring s ! 0)) remain =
        drop (used (ring s ! 0)) (buffer (ring s ! 0))"
      using buf by (simp add: chunk_all buf_ok_def remain_def)
    have k1: "nat (buffer_used s') = k - 1" using f(4) k by simp
    have "current_write_buffer s' =
        (current_read_buffer s' + nat (buffer_used s')) mod NUMBER_OF_BUFFER"
      using f inv(5) k(1) k1 gr0_implies_Suc [OF k(2)] by (auto simp: mod_simps)
    then have "db_inv s'" using f dr(1) inv(1) k k1 assms(2) by (simp add: db_inv_def)
    moreover have "db_content s = chunk (buffer (ring s ! 0)) (used (ring s ! 0)) remain @
        db_content s' @ read_loss s sz"
    proof -
      have "buffer_used s = 1 \<longleftrightarrow> k = 1" using k by auto
      then show ?thesis using dr(2) k(1) k1 full chunk
        by (simp add: db_content_def read_loss_def remain_def)
    qed
    moreover have len: "length (chunk (buffer (ring s ! 0)) (used (ring s ! 0)) remain) = remain"
      using buf by (simp add: buf_ok_def array_simps remain_def)
    moreover have "db_ready s' + remain = db_ready s"
      using dr(3) k k1 by (simp add: db_ready_def remain_def)
    moreover have "chunk (buffer (ring s ! 0)) (used (ring s ! 0)) remain \<noteq> []"
      using len buf by (auto simp: buf_ok_def remain_def)
    moreover have "used (ring s' ! 0) = 0"
      using r inv(1) length_ring [of s]
      by (cases "ring s"; cases "tl (ring s)") (auto simp: rewound_def)
    ultimately show thesis using that [OF it] full by (simp add: remain_def)
  qed
qed

section \<open>The two functions against the byte queue\<close>

lemma db_free_pos:
  assumes "db_inv s"
  shows "0 < db_free s \<longleftrightarrow> buffer_used s < int NUMBER_OF_BUFFER"
proof (cases "nat (buffer_used s) < NUMBER_OF_BUFFER")
  case True
  have "used (ring s ! nat (buffer_used s)) < LENGTH_OF_BUFFER"
    using ring_okD(1) [OF db_invD(2) [OF assms] True] by (simp add: buf_ok_def)
  also have "\<dots> \<le> (NUMBER_OF_BUFFER - nat (buffer_used s)) * LENGTH_OF_BUFFER"
    using True by simp
  finally show ?thesis using True db_invD(3) [OF assms] by (simp add: db_free_def ring_free_def)
next
  case False
  then show ?thesis using db_invD(3) [OF assms] by (simp add: db_free_def ring_free_def)
qed

lemma db_ready_pos:
  assumes "db_inv s"
  shows "0 < db_ready s \<longleftrightarrow> 0 < buffer_used s"
proof (cases "nat (buffer_used s) = 0")
  case True
  then show ?thesis by (simp add: db_ready_def ring_ready_def)
next
  case False
  have "used (ring s ! 0) < LENGTH_OF_BUFFER"
    using ring_okD(1) [OF db_invD(2) [OF assms], of 0] by (simp add: buf_ok_def)
  also have "\<dots> \<le> nat (buffer_used s) * LENGTH_OF_BUFFER" using False by simp
  finally show ?thesis using False by (simp add: db_ready_def ring_ready_def)
qed

text \<open>A write that leaves room behind it completes no last buffer, so it replays nothing.\<close>

lemma write_replay_none:
  assumes "db_inv s" "length data < db_free s"
  shows "write_replay s data = []"
proof -
  have "nat (buffer_used s) + 1 = NUMBER_OF_BUFFER \<Longrightarrow> NUMBER_OF_BUFFER - nat (buffer_used s) = 1"
    by linarith
  then show ?thesis
    using assms by (auto simp: write_replay_def db_free_def ring_free_def Let_def split: if_splits)
qed

lemma buffer_write_data_fifo:
  assumes "db_inv s" "length data < db_free s"
  shows "\<exists>s'. buffer_write_data s data = Some s' \<and> db_inv s' \<and>
    db_content s' = db_content s @ data \<and> db_free s' + length data = db_free s"
  using assms
proof (induction data arbitrary: s rule: length_induct)
  case (1 data s)
  show ?case
  proof (cases "data = []")
    case True
    then show ?thesis using 1 by (simp add: buffer_write_data.simps)
  next
    case False
    have "buffer_used s < int NUMBER_OF_BUFFER"
      using db_free_pos [OF 1(2)] 1(3) by simp
    from write_iter_spec [OF 1(2) this False]
    obtain s1 written rest where it: "write_iter s data = Some (s1, rest)"
      and data: "data = written @ rest" "written \<noteq> []"
      and inv1: "db_inv s1" and cont: "db_content s1 = write_replay s data @ db_content s @ written"
      and free: "db_free s1 + length written = db_free s" by metis
    have "length rest < length data" "length rest < db_free s1"
      using data free 1(3) by auto
    with 1(1) inv1 obtain s' where "buffer_write_data s1 rest = Some s'" "db_inv s'"
      "db_content s' = db_content s1 @ rest" "db_free s' + length rest = db_free s1" by blast
    moreover have "write_replay s data = []" using write_replay_none 1(2,3) by blast
    moreover have "buffer_write_data s data = buffer_write_data s1 rest"
      using it False by (simp add: buffer_write_data.simps [of s data])
    ultimately show ?thesis using cont data free by simp
  qed
qed

lemma read_loss_none:
  assumes "db_inv s" "sz < db_ready s"
  shows "read_loss s sz = []"
  using assms by (auto simp: read_loss_def db_ready_def ring_ready_def)

lemma used_lt: "db_inv s \<Longrightarrow> used (ring s ! 0) < LENGTH_OF_BUFFER"
  using ring_okD(1) [OF db_invD(2), of s 0] by (simp add: buf_ok_def)

definition read_result :: "nat \<Rightarrow> nat \<Rightarrow> nat \<Rightarrow> int" where
  "read_result offset n sz =
     (if sz = 0 \<or> LENGTH_OF_BUFFER dvd offset + sz then 0 else int n + int sz)"

lemma read_loop_fifo:
  assumes "db_inv s" "sz < db_ready s"
  shows "\<exists>s'. read_loop s sz acc =
      Some (s', acc @ take sz (db_content s), read_result (used (ring s ! 0)) (length acc) sz) \<and>
    db_inv s' \<and> db_content s = take sz (db_content s) @ db_content s' \<and>
    db_ready s' + sz = db_ready s"
  using assms
proof (induction sz arbitrary: s acc rule: less_induct)
  case (less sz s acc)
  show ?case
  proof (cases "sz = 0")
    case True
    then show ?thesis using less.prems by (simp add: read_loop.simps read_result_def)
  next
    case False
    have "0 < buffer_used s" using db_ready_pos [OF less.prems(1)] less.prems(2) by simp
    moreover have "0 < sz" using False by simp
    ultimately obtain s1 bs early where it: "read_iter s sz = Some (s1, bs, early)"
      and inv1: "db_inv s1" and cont: "db_content s = bs @ db_content s1 @ read_loss s sz"
      and bs: "bs \<noteq> []" "length bs \<le> sz" and ready: "db_ready s1 + length bs = db_ready s"
      and early: "early \<Longrightarrow> length bs = sz" "early \<longleftrightarrow> sz < LENGTH_OF_BUFFER - used (ring s ! 0)"
      and late: "\<not> early \<Longrightarrow> length bs = LENGTH_OF_BUFFER - used (ring s ! 0)"
        "\<not> early \<Longrightarrow> used (ring s1 ! 0) = 0"
      using read_iter_spec [OF less.prems(1)] by metis
    have nl: "read_loss s sz = []" using read_loss_none less.prems by blast
    show ?thesis
    proof (cases early)
      case True
      have "\<not> LENGTH_OF_BUFFER dvd used (ring s ! 0) + sz"
        using early(2) True False by (auto dest: dvd_imp_le)
      then show ?thesis
        using it True False inv1 cont nl early ready
        by (simp add: read_loop.simps [of s sz] read_result_def)
    next
      case False
      define rest where "rest = sz - length bs"
      have "rest < sz" "rest < db_ready s1"
        using bs ready less.prems(2) by (cases bs; force simp: rest_def)+
      then obtain s' where rec: "read_loop s1 rest (acc @ bs) =
          Some (s', (acc @ bs) @ take rest (db_content s1),
                read_result (used (ring s1 ! 0)) (length (acc @ bs)) rest)"
        and fin: "db_inv s'" "db_content s1 = take rest (db_content s1) @ db_content s'"
          "db_ready s' + rest = db_ready s1"
        using less.IH inv1 by blast
      have sz: "sz = length bs + rest" using bs by (simp add: rest_def)
      have "used (ring s ! 0) + sz = LENGTH_OF_BUFFER + rest"
        using late(1) False used_lt [OF less.prems(1)] sz by simp
      then have "LENGTH_OF_BUFFER dvd used (ring s ! 0) + sz \<longleftrightarrow> LENGTH_OF_BUFFER dvd rest"
        by simp
      then have "read_result (used (ring s1 ! 0)) (length (acc @ bs)) rest =
          read_result (used (ring s ! 0)) (length acc) sz"
        using late(2) False sz \<open>sz \<noteq> 0\<close> unfolding read_result_def by (cases "rest = 0") simp_all
      moreover have "read_loop s sz acc = read_loop s1 rest (acc @ bs)"
        using it False \<open>sz \<noteq> 0\<close> by (simp add: read_loop.simps [of s sz] rest_def)
      ultimately show ?thesis using rec fin cont nl ready sz by simp
    qed
  qed
qed

section \<open>Interleavings of writer and reader\<close>

text \<open>
  A step is one iteration of one of the two loops; it reports the bytes the writer put in
  and the bytes the reader took out. \<open>db_run clean s win rout\<close> says that \<open>s\<close> is reached
  from the initialised ring by some interleaving in which \<open>win\<close> was written and \<open>rout\<close>
  read; \<open>clean\<close> records that no step on the way replayed or lost bytes.
\<close>

inductive db_step :: "db_state \<Rightarrow> bool \<Rightarrow> byte list \<Rightarrow> byte list \<Rightarrow> db_state \<Rightarrow> bool" where
  writer: "data \<noteq> [] \<Longrightarrow> write_iter s data = Some (s', rest) \<Longrightarrow> data = w @ rest \<Longrightarrow>
    db_step s (write_replay s data = []) w [] s'"
| reader: "0 < sz \<Longrightarrow> read_iter s sz = Some (s', bs, early) \<Longrightarrow>
    db_step s (read_loss s sz = []) [] bs s'"

inductive db_run :: "bool \<Rightarrow> db_state \<Rightarrow> byte list \<Rightarrow> byte list \<Rightarrow> bool" where
  start: "db_run True (init_data_buffer db_static) [] []"
| step: "db_run clean s win rout \<Longrightarrow> db_step s ok w r s' \<Longrightarrow>
    db_run (clean \<and> ok) s' (win @ w) (rout @ r)"

inductive_cases db_stepE: "db_step s ok w r s'"

lemma init_ring: "ring (init_data_buffer db_static) = replicate NUMBER_OF_BUFFER
    \<lparr>buffer = replicate LENGTH_OF_BUFFER 0, used = 0, data_buffer_state = B_UNPREPARED\<rparr>"
  by (simp add: ring_def init_data_buffer_def db_static_def)

lemma db_inv_init: "db_inv (init_data_buffer db_static)"
proof -
  have "ring_ok (ring (init_data_buffer db_static)) 0"
    unfolding init_ring by (simp add: ring_ok_def buf_ok_def)
  then show ?thesis by (simp add: db_inv_def init_data_buffer_def db_static_def)
qed

lemma db_init_simps [simp]:
  "db_content (init_data_buffer db_static) = []"
  "db_free (init_data_buffer db_static) = NUMBER_OF_BUFFER * LENGTH_OF_BUFFER"
  "db_ready (init_data_buffer db_static) = 0"
  "buffer_used (init_data_buffer db_static) = 0"
  by (simp_all add: db_content_def db_free_def db_ready_def ring_content_def ring_free_def
      ring_ready_def init_ring) (simp_all add: init_data_buffer_def db_static_def)

lemma write_iter_SomeD:
  assumes "db_inv s" "write_iter s data = Some x"
  shows "buffer_used s < int NUMBER_OF_BUFFER"
  using assms write_iter_full [OF assms(1), of data] db_invD(3,4) [OF assms(1)] by force

lemma read_iter_SomeD:
  assumes "db_inv s" "read_iter s sz = Some x"
  shows "0 < buffer_used s"
  using assms read_iter_empty [OF assms(1), of sz] db_invD(3) [OF assms(1)] by force

lemma db_step_inv:
  assumes "db_step s ok w r s'" "db_inv s"
  shows "db_inv s'" "ok \<Longrightarrow> db_content s @ w = r @ db_content s'"
proof -
  have "db_inv s' \<and> (ok \<longrightarrow> db_content s @ w = r @ db_content s')"
    using assms(1)
  proof (cases rule: db_step.cases)
    case (writer data rest)
    then show ?thesis
      using write_iter_spec [OF assms(2) write_iter_SomeD [OF assms(2) writer(4)] writer(3)]
      by (metis (no_types, lifting) Pair_inject append_Nil append_same_eq option.inject)
  next
    case (reader sz early)
    then show ?thesis
      using read_iter_spec [OF assms(2) read_iter_SomeD [OF assms(2) reader(4)] reader(3)]
      by (metis (no_types, lifting) Pair_inject append_Nil2 option.inject)
  qed
  then show "db_inv s'" "ok \<Longrightarrow> db_content s @ w = r @ db_content s'" by auto
qed

lemma db_run_inv: "db_run clean s win rout \<Longrightarrow> db_inv s"
  by (induction rule: db_run.induct) (auto intro: db_inv_init db_step_inv)

lemma db_run_fifo: "db_run clean s win rout \<Longrightarrow> clean \<Longrightarrow> win = rout @ db_content s"
proof (induction rule: db_run.induct)
  case start
  then show ?case by simp
next
  case (step clean s win rout ok w r s')
  then have "db_content s @ w = r @ db_content s'"
    using db_step_inv(2) db_run_inv by blast
  with step show ?case by simp
qed

section \<open>The contract of the ring\<close>

definition db_get :: "db_state \<Rightarrow> nat \<Rightarrow> (db_state \<times> byte list) option" where
  "db_get s n = map_option (\<lambda>(s', bs, r). (s', bs)) (buffer_read_data s (int n))"

interpretation db: byte_fifo db_inv db_content db_free db_ready buffer_write_data db_get
proof
  fix s and d :: "byte list"
  assume "db_inv s" "length d < db_free s"
  then show "\<exists>s'. buffer_write_data s d = Some s' \<and> db_inv s' \<and>
      db_content s' = db_content s @ d \<and> db_free s' + length d = db_free s"
    by (rule buffer_write_data_fifo)
next
  fix s n
  assume "db_inv s" "n < db_ready s"
  then show "\<exists>s'. db_get s n = Some (s', take n (db_content s)) \<and> db_inv s' \<and>
      db_content s = take n (db_content s) @ db_content s' \<and> db_ready s' + n = db_ready s"
    using read_loop_fifo [of s n "[]"] by (auto simp: db_get_def buffer_read_data_def)
qed

lemma read_loop_last:
  assumes "db_inv s" "buffer_used s = 1"
  shows "\<exists>s'. read_loop s (db_ready s) acc = Some (s', acc @ take (db_ready s) (db_content s), 0) \<and>
    db_inv s' \<and> db_content s' = [] \<and>
    db_content s = take (db_ready s) (db_content s) @ take (used (ring s ! 1)) (buffer (ring s ! 1))"
proof -
  have ready: "db_ready s = LENGTH_OF_BUFFER - used (ring s ! 0)" "0 < db_ready s"
    using assms db_ready_pos [OF assms(1)] by (simp_all add: db_ready_def ring_ready_def)
  obtain s1 bs early where it: "read_iter s (db_ready s) = Some (s1, bs, early)"
    and inv1: "db_inv s1" and cont: "db_content s = bs @ db_content s1 @ read_loss s (db_ready s)"
    and bs: "\<not> early \<Longrightarrow> length bs = db_ready s" "\<not> early"
    using read_iter_spec [OF assms(1) _ ready(2)] assms(2) ready(1) by (metis less_irrefl zero_less_one)
  have used1: "nat (buffer_used s1) = 0"
    using it assms(2) bs(2) by (auto simp: read_iter_def Let_def split: if_splits)
  have "used (ring s1 ! 0) = 0"
    using read_iter_spec [OF assms(1) _ ready(2)] assms(2) it bs(2)
    by (metis (no_types, lifting) Pair_inject option.inject zero_less_one)
  with used1 have nil: "db_content s1 = []" by (simp add: db_content_def ring_content_def)
  have "read_loop s (db_ready s) acc = Some (s1, acc @ bs, 0)"
    using it bs ready(2) by (simp add: read_loop.simps [of s] read_loop.simps [of s1 0])
  moreover have "read_loss s (db_ready s) = take (used (ring s ! 1)) (buffer (ring s ! 1))"
    using assms(2) ready(1) by (simp add: read_loss_def)
  ultimately show ?thesis using inv1 nil cont bs by simp
qed

lemma db_used_by_free:
  assumes "db_inv s" "db_free s + n = NUMBER_OF_BUFFER * LENGTH_OF_BUFFER"
    "n < NUMBER_OF_BUFFER * LENGTH_OF_BUFFER"
  shows "nat (buffer_used s) = n div LENGTH_OF_BUFFER"
    "used (ring s ! nat (buffer_used s)) = n mod LENGTH_OF_BUFFER"
proof -
  define k where "k = nat (buffer_used s)"
  have k: "k < NUMBER_OF_BUFFER"
    using assms db_free_pos [OF assms(1)] db_invD(3) [OF assms(1)] by (simp add: k_def)
  have u: "used (ring s ! k) < LENGTH_OF_BUFFER"
    using ring_okD(1) [OF db_invD(2) [OF assms(1)]] k by (simp add: k_def buf_ok_def)
  have "n = k * LENGTH_OF_BUFFER + used (ring s ! k)"
  proof -
    have "(NUMBER_OF_BUFFER - k) * LENGTH_OF_BUFFER + k * LENGTH_OF_BUFFER =
        NUMBER_OF_BUFFER * LENGTH_OF_BUFFER"
      using k by (metis add_mult_distrib le_add_diff_inverse2 less_imp_le_nat)
    moreover have "LENGTH_OF_BUFFER \<le> (NUMBER_OF_BUFFER - k) * LENGTH_OF_BUFFER" using k by simp
    moreover have "db_free s = (NUMBER_OF_BUFFER - k) * LENGTH_OF_BUFFER - used (ring s ! k)"
      using k by (simp add: db_free_def ring_free_def k_def)
    ultimately show ?thesis using assms(2) u by linarith
  qed
  with u show "nat (buffer_used s) = n div LENGTH_OF_BUFFER"
    "used (ring s ! nat (buffer_used s)) = n mod LENGTH_OF_BUFFER"
    by (simp_all flip: k_def)
qed

lemma write_from_init:
  assumes "length d < NUMBER_OF_BUFFER * LENGTH_OF_BUFFER"
  obtains s where "buffer_write_data (init_data_buffer db_static) d = Some s" "db_inv s"
    "db_content s = d" "nat (buffer_used s) = length d div LENGTH_OF_BUFFER"
    "used (ring s ! nat (buffer_used s)) = length d mod LENGTH_OF_BUFFER"
  using db.put_law [OF db_inv_init, of d] assms db_used_by_free by auto

lemma write_from_init_ready:
  assumes "db_inv s" "db_content s = d" "nat (buffer_used s) = length d div LENGTH_OF_BUFFER"
    "used (ring s ! nat (buffer_used s)) = length d mod LENGTH_OF_BUFFER"
    "length d < NUMBER_OF_BUFFER * LENGTH_OF_BUFFER"
  shows "db_ready s = length d div LENGTH_OF_BUFFER * LENGTH_OF_BUFFER"
proof -
  define k where "k = nat (buffer_used s)"
  note inv = db_invD [OF assms(1)]
  have lens: "buf_ok (ring s ! j)" if "j < NUMBER_OF_BUFFER" for j
    using ring_okD(1) [OF inv(2) that] .
  have k: "k < NUMBER_OF_BUFFER" using assms(3,5) by (simp add: k_def less_mult_imp_div_less)
  have mid: "length (concat (map buffer (take (k - 1) (drop 1 (ring s))))) = (k - 1) * LENGTH_OF_BUFFER"
  proof -
    have "map length (map buffer (take (k - 1) (drop 1 (ring s)))) =
        replicate (k - 1) LENGTH_OF_BUFFER"
      using lens k inv(1) by (intro nth_equalityI) (auto simp: buf_ok_def)
    then show ?thesis by (simp add: length_concat sum_list_replicate del: map_map)
  qed
  show ?thesis
  proof (cases "k = 0")
    case True
    then show ?thesis using assms(3) by (simp add: db_ready_def ring_ready_def k_def)
  next
    case False
    have "length (db_content s) = LENGTH_OF_BUFFER - used (ring s ! 0) +
        ((k - 1) * LENGTH_OF_BUFFER + used (ring s ! k))"
      using mid lens [of 0] lens [OF k] k False
      unfolding db_content_def k_def [symmetric] ring_content_def length_append
      by (simp add: buf_ok_def)
    then have "length d = LENGTH_OF_BUFFER - used (ring s ! 0) +
        ((k - 1) * LENGTH_OF_BUFFER + length d mod LENGTH_OF_BUFFER)"
      using assms(2,4) by (simp flip: k_def)
    moreover have "length d = k * LENGTH_OF_BUFFER + length d mod LENGTH_OF_BUFFER"
      using assms(3) by (simp add: k_def)
    moreover have "k * LENGTH_OF_BUFFER = LENGTH_OF_BUFFER + (k - 1) * LENGTH_OF_BUFFER"
      using False by (metis Suc_diff_1 mult_Suc not_gr_zero)
    ultimately have "used (ring s ! 0) = 0"
      using lens [OF N_pos(1)] unfolding buf_ok_def by linarith
    then show ?thesis using False assms(3) by (simp add: db_ready_def ring_ready_def k_def)
  qed
qed

lemma length_filter_rotate: "length (filter P (rotate m xs)) = length (filter P xs)"
proof -
  have "length (filter P xs) =
      length (filter P (take (m mod length xs) xs @ drop (m mod length xs) xs))" by simp
  then show ?thesis unfolding rotate_drop_take filter_append length_append by simp
qed

lemma prepared_card:
  assumes "db_inv s"
  shows "card {i. i < NUMBER_OF_BUFFER \<and> data_buffer_state (data_buffer s ! i) = B_PREPARED} =
    nat (buffer_used s)"
proof -
  note inv = db_invD [OF assms]
  let ?P = "\<lambda>b. data_buffer_state b = B_PREPARED"
  have "{i. i < length (ring s) \<and> ?P (ring s ! i)} = {..<nat (buffer_used s)}"
    using ring_okD(2) [OF inv(2)] inv(1,4) by auto
  then have "length (filter ?P (ring s)) = nat (buffer_used s)"
    by (simp add: length_filter_conv_card)
  then have "length (filter ?P (data_buffer s)) = nat (buffer_used s)"
    by (simp add: ring_def length_filter_rotate)
  then show ?thesis by (simp add: length_filter_conv_card inv(1))
qed

section \<open>Properties\<close>



text \<open>
  \<^verbatim>\<open>buffer_write_data\<close> with fewer bytes than the ring has room for returns without
  waiting for the reader and appends exactly its bytes to the queue.
\<close>

theorem buffer_write_data_appends:
  assumes "db_inv s" "length data < db_free s"
  shows "\<exists>s'. buffer_write_data s data = Some s' \<and> db_inv s' \<and>
    db_content s' = db_content s @ data \<and> db_free s' + length data = db_free s"
  using assms by (rule db.put_law)

theorem buffer_write_data_appends_witness:
  "\<exists>s'. buffer_write_data (init_data_buffer db_static) (replicate 6000 7) = Some s' \<and>
     db_content s' = replicate 6000 7"
  using buffer_write_data_appends [OF db_inv_init, of "replicate 6000 7"]
  by (auto simp: NUMBER_OF_BUFFER_def LENGTH_OF_BUFFER_def)

text \<open>
  \<^verbatim>\<open>buffer_read_data\<close> asked for fewer bytes than lie in prepared buffers delivers the
  oldest bytes of the queue, in order, and removes them. Its return value is the number of
  bytes delivered, except that a read that ends exactly at the end of a buffer falls out of
  the loop and returns 0.
\<close>

theorem buffer_read_data_delivers:
  assumes "db_inv s" "0 < n" "n < int (db_ready s)"
  shows "\<exists>s'. buffer_read_data s n =
      Some (s', take (nat n) (db_content s),
            if LENGTH_OF_BUFFER dvd used (ring s ! 0) + nat n then 0 else n) \<and>
    db_inv s' \<and> db_content s = take (nat n) (db_content s) @ db_content s' \<and>
    db_ready s' + nat n = db_ready s"
  using read_loop_fifo [OF assms(1), of "nat n" "[]"] assms(2,3)
  by (auto simp: buffer_read_data_def read_result_def)

theorem buffer_read_data_delivers_witness:
  "\<exists>s s'. buffer_write_data (init_data_buffer db_static) (replicate 10240 7) = Some s \<and>
     (\<exists>r. buffer_read_data s 5000 = Some (s', replicate 5000 7, r))"
proof -
  let ?d = "replicate 10240 (7 :: byte)"
  obtain s where w: "buffer_write_data (init_data_buffer db_static) ?d = Some s" "db_inv s"
    "db_content s = ?d" "nat (buffer_used s) = length ?d div LENGTH_OF_BUFFER"
    "used (ring s ! nat (buffer_used s)) = length ?d mod LENGTH_OF_BUFFER"
    by (rule write_from_init [of ?d]) (simp_all add: NUMBER_OF_BUFFER_def LENGTH_OF_BUFFER_def)
  have "db_ready s = 10240"
    using write_from_init_ready [OF w(2-5)] by (simp add: NUMBER_OF_BUFFER_def LENGTH_OF_BUFFER_def)
  then show ?thesis using buffer_read_data_delivers [OF w(2), of 5000] w(1,3) by auto
qed

text \<open>
  C39. When the reader drains the last prepared buffer, the bytes the writer has already
  stored in the buffer it is filling are lost: the reset of \<^verbatim>\<open>used\<close> of the next buffer
  empties the queue, although those bytes were written and never read.
\<close>

theorem buffer_read_data_drops_partial:
  assumes "db_inv s" "buffer_used s = 1"
  shows "\<exists>s'. buffer_read_data s (int (db_ready s)) =
      Some (s', take (db_ready s) (db_content s), 0) \<and> db_inv s' \<and> db_content s' = [] \<and>
    db_content s = take (db_ready s) (db_content s) @
      take (used (ring s ! 1)) (buffer (ring s ! 1))"
  using read_loop_last [OF assms, of "[]"] by (simp add: buffer_read_data_def)

theorem buffer_read_data_drops_partial_witness:
  "\<exists>s s'. buffer_write_data (init_data_buffer db_static) (replicate 5121 7) = Some s \<and>
     length (db_content s) = 5121 \<and>
     buffer_read_data s 5120 = Some (s', replicate 5120 7, 0) \<and> db_content s' = []"
proof -
  let ?d = "replicate 5121 (7 :: byte)"
  obtain s where w: "buffer_write_data (init_data_buffer db_static) ?d = Some s" "db_inv s"
    "db_content s = ?d" "nat (buffer_used s) = length ?d div LENGTH_OF_BUFFER"
    "used (ring s ! nat (buffer_used s)) = length ?d mod LENGTH_OF_BUFFER"
    by (rule write_from_init [of ?d]) (simp_all add: NUMBER_OF_BUFFER_def LENGTH_OF_BUFFER_def)
  have "db_ready s = 5120" "buffer_used s = 1"
    using write_from_init_ready [OF w(2-5)] w(4)
    by (simp_all add: NUMBER_OF_BUFFER_def LENGTH_OF_BUFFER_def)
  then show ?thesis using buffer_read_data_drops_partial [OF w(2)] w(1,3) by auto
qed

text \<open>
  The fill level that starts the playback task is twenty percent per prepared buffer:
  it stays between 0 and 100 and exceeds 50 exactly when at least three of the five
  buffers are prepared.
\<close>

theorem getBufferPercent_levels:
  assumes "db_run clean s win rout"
  shows "0 \<le> getBufferPercent s \<and> getBufferPercent s \<le> 100 \<and>
    getBufferPercent s = 20 * int (card {i. i < NUMBER_OF_BUFFER \<and>
      data_buffer_state (data_buffer s ! i) = B_PREPARED}) \<and>
    (50 < getBufferPercent s \<longleftrightarrow> 3 \<le> buffer_used s)"
proof -
  have inv: "db_inv s" using assms by (rule db_run_inv)
  have "getBufferPercent s = 20 * buffer_used s"
    by (simp add: getBufferPercent_def NUMBER_OF_BUFFER_def)
  then show ?thesis
    using db_invD(3,4) [OF inv] prepared_card [OF inv] by (auto simp: NUMBER_OF_BUFFER_def)
qed

theorem getBufferPercent_levels_witness:
  "0 \<le> getBufferPercent (init_data_buffer db_static) \<and>
   getBufferPercent (init_data_buffer db_static) \<le> 100"
  using getBufferPercent_levels [OF db_run.start] by blast

text \<open>
  One iteration of the writer's loop either finds all five buffers prepared and spins,
  or moves a non-empty prefix of its data into the ring. The queue then grows by that
  prefix, and by the bytes already read of the reader's buffer when the iteration completes
  the last free buffer and resets the reader's offset.
\<close>

theorem write_iter_law:
  assumes "db_inv s" "data \<noteq> []"
  shows "case write_iter s data of
      None \<Rightarrow> buffer_used s = int NUMBER_OF_BUFFER
    | Some (s', rest) \<Rightarrow> \<exists>w. data = w @ rest \<and> w \<noteq> [] \<and> db_inv s' \<and>
        db_content s' = write_replay s data @ db_content s @ w"
proof (cases "buffer_used s < int NUMBER_OF_BUFFER")
  case True
  show ?thesis by (rule write_iter_spec [OF assms(1) True assms(2)]) auto
next
  case False
  then have "nat (buffer_used s) = NUMBER_OF_BUFFER"
    using db_invD(4) [OF assms(1)] by simp
  then show ?thesis using write_iter_full [OF assms(1)] db_invD(3) [OF assms(1)] by auto
qed

theorem write_iter_law_witness:
  "case write_iter (init_data_buffer db_static) [1, 2] of
      None \<Rightarrow> buffer_used (init_data_buffer db_static) = int NUMBER_OF_BUFFER
    | Some (s', rest) \<Rightarrow> \<exists>w. [1, 2] = w @ rest \<and> w \<noteq> [] \<and> db_inv s' \<and>
        db_content s' = write_replay (init_data_buffer db_static) [1, 2] @
          db_content (init_data_buffer db_static) @ w"
  by (rule write_iter_law [OF db_inv_init]) simp

end
