(* ===== verification/I2S_Regs.thy ===== *)
theory I2S_Regs
  imports Speaker_Prelude "HOL-Library.Signed_Division"
begin

text \<open>
  The register side of \<^verbatim>\<open>components/driver/i2s.c\<close>: the bit fields of one I2S peripheral that the
  driver touches (\<^verbatim>\<open>soc/i2s_struct.h\<close>, one record per register, every field at its width), the
  functions that program them, the clock divider arithmetic of \<^verbatim>\<open>i2s_set_clk\<close>, and the choice of
  signals and pins in \<^verbatim>\<open>i2s_set_pin\<close>.
\<close>

section \<open>Constants of \<^verbatim>\<open>driver/i2s.h\<close>\<close>

definition I2S_MODE_MASTER :: u32 where "I2S_MODE_MASTER = 1"
definition I2S_MODE_SLAVE :: u32 where "I2S_MODE_SLAVE = 2"
definition I2S_MODE_TX :: u32 where "I2S_MODE_TX = 4"
definition I2S_MODE_RX :: u32 where "I2S_MODE_RX = 8"
definition I2S_MODE_DAC_BUILT_IN :: u32 where "I2S_MODE_DAC_BUILT_IN = 16"
definition I2S_MODE_PDM :: u32 where "I2S_MODE_PDM = 64"

definition I2S_COMM_FORMAT_I2S :: u32 where "I2S_COMM_FORMAT_I2S = 1"
definition I2S_COMM_FORMAT_I2S_MSB :: u32 where "I2S_COMM_FORMAT_I2S_MSB = 2"
definition I2S_COMM_FORMAT_I2S_LSB :: u32 where "I2S_COMM_FORMAT_I2S_LSB = 4"
definition I2S_COMM_FORMAT_PCM :: u32 where "I2S_COMM_FORMAT_PCM = 8"
definition I2S_COMM_FORMAT_PCM_SHORT :: u32 where "I2S_COMM_FORMAT_PCM_SHORT = 16"

definition I2S_NUM_MAX :: nat where "I2S_NUM_MAX = 2"
definition I2S_CHANNEL_FMT_ONLY_RIGHT :: nat where "I2S_CHANNEL_FMT_ONLY_RIGHT = 3"
definition I2S_DAC_CHANNEL_MAX :: nat where "I2S_DAC_CHANNEL_MAX = 4"

named_theorems i2s_flags \<open>values of the mode and format flags\<close>

lemmas i2s_flag_values [i2s_flags] =
  I2S_MODE_MASTER_def I2S_MODE_SLAVE_def I2S_MODE_TX_def I2S_MODE_RX_def I2S_MODE_DAC_BUILT_IN_def
  I2S_MODE_PDM_def I2S_COMM_FORMAT_I2S_def I2S_COMM_FORMAT_I2S_MSB_def I2S_COMM_FORMAT_I2S_LSB_def
  I2S_COMM_FORMAT_PCM_def I2S_COMM_FORMAT_PCM_SHORT_def

text \<open>\<^verbatim>\<open>if (mode & FLAG)\<close>\<close>

definition has :: "u32 \<Rightarrow> u32 \<Rightarrow> bool" where
  "has m f \<longleftrightarrow> m AND f \<noteq> 0"

record i2s_config_t =
  cfg_mode :: u32
  cfg_sample_rate :: int
  cfg_bits_per_sample :: nat
  cfg_channel_format :: nat
  cfg_communication_format :: u32
  cfg_dma_buf_count :: int
  cfg_dma_buf_len :: int

record i2s_pin_config_t =
  bck_io_num :: int
  ws_io_num :: int
  data_out_num :: int
  data_in_num :: int

section \<open>Registers\<close>

record conf_reg =
  tx_reset :: bool
  rx_reset :: bool
  tx_fifo_reset :: bool
  rx_fifo_reset :: bool
  tx_start :: bool
  rx_start :: bool
  tx_slave_mod :: bool
  rx_slave_mod :: bool
  tx_right_first :: bool
  rx_right_first :: bool
  tx_msb_shift :: bool
  rx_msb_shift :: bool
  tx_short_sync :: bool
  rx_short_sync :: bool
  tx_mono :: bool
  rx_mono :: bool
  tx_msb_right :: bool
  rx_msb_right :: bool
  sig_loopback :: bool

record int_bits =
  in_suc_eof :: bool
  out_eof :: bool
  in_dscr_err :: bool
  out_dscr_err :: bool

record fifo_conf_reg =
  dscr_en :: bool
  tx_fifo_mod :: "3 word"
  rx_fifo_mod :: "3 word"
  tx_fifo_mod_force_en :: bool
  rx_fifo_mod_force_en :: bool

record lc_conf_reg =
  in_rst :: bool
  out_rst :: bool
  check_owner :: bool
  out_loop_test :: bool
  out_auto_wrback :: bool
  out_data_burst_en :: bool
  outdscr_burst_en :: bool
  out_no_restart_clr :: bool
  indscr_burst_en :: bool
  out_eof_mode :: bool

record link_reg =
  link_addr :: "20 word"
  link_stop :: bool
  link_start :: bool

record pdm_conf_reg =
  tx_pdm_en :: bool
  rx_pdm_en :: bool
  pcm2pdm_conv_en :: bool
  pdm2pcm_conv_en :: bool
  tx_sinc_osr2 :: "4 word"
  rx_sinc_dsr_16_en :: bool
  tx_pdm_fs :: "10 word"
  tx_pdm_fp :: "10 word"

record clk_reg =
  clkm_div_num :: "8 word"
  clkm_div_b :: "6 word"
  clkm_div_a :: "6 word"
  clka_en :: bool
  tx_bck_div_num :: "6 word"
  rx_bck_div_num :: "6 word"
  tx_bits_mod :: "6 word"
  rx_bits_mod :: "6 word"

text \<open>
  \<open>int_clr\<close> is the last mask written to the write-only clear register: \<open>Clear_mask m\<close> a constant,
  \<open>Clear_status\<close> the value just read from \<^verbatim>\<open>int_st\<close>.
\<close>

datatype int_clear = Clear_mask u32 | Clear_status int_bits

record i2s_dev =
  conf :: conf_reg
  int_st :: int_bits
  int_ena :: int_bits
  int_clr :: int_clear
  fifo_conf :: fifo_conf_reg
  rx_eof_num :: u32
  tx_chan_mod :: "3 word"
  rx_chan_mod :: "2 word"
  out_link :: link_reg
  in_link :: link_reg
  out_eof_des_addr :: u32
  in_eof_des_addr :: u32
  lc_conf :: lc_conf_reg
  lcd_en :: bool
  camera_en :: bool
  pdm_conf :: pdm_conf_reg
  clk :: clk_reg

section \<open>Resets, interrupts, start and stop\<close>

definition i2s_reset_fifo :: "i2s_dev \<Rightarrow> i2s_dev" where
  "i2s_reset_fifo r =
     conf_update (\<lambda>c. c\<lparr>rx_fifo_reset := True\<rparr>\<lparr>rx_fifo_reset := False\<rparr>
                       \<lparr>tx_fifo_reset := True\<rparr>\<lparr>tx_fifo_reset := False\<rparr>) r"

definition i2s_clear_intr_status :: "u32 \<Rightarrow> i2s_dev \<Rightarrow> i2s_dev" where
  "i2s_clear_intr_status clr_mask r = r\<lparr>int_clr := Clear_mask clr_mask\<rparr>"

definition i2s_enable_rx_intr :: "i2s_dev \<Rightarrow> i2s_dev" where
  "i2s_enable_rx_intr r = int_ena_update (\<lambda>i. i\<lparr>in_suc_eof := True, in_dscr_err := True\<rparr>) r"

definition i2s_disable_rx_intr :: "i2s_dev \<Rightarrow> i2s_dev" where
  "i2s_disable_rx_intr r = int_ena_update (\<lambda>i. i\<lparr>in_suc_eof := False, in_dscr_err := False\<rparr>) r"

definition i2s_disable_tx_intr :: "i2s_dev \<Rightarrow> i2s_dev" where
  "i2s_disable_tx_intr r = int_ena_update (\<lambda>i. i\<lparr>out_eof := False, out_dscr_err := False\<rparr>) r"

definition i2s_enable_tx_intr :: "i2s_dev \<Rightarrow> i2s_dev" where
  "i2s_enable_tx_intr r = int_ena_update (\<lambda>i. i\<lparr>out_eof := True, out_dscr_err := True\<rparr>) r"

definition reset_dma :: "i2s_dev \<Rightarrow> i2s_dev" where
  "reset_dma r =
     lc_conf_update (\<lambda>l. l\<lparr>in_rst := True\<rparr>\<lparr>in_rst := False\<rparr>\<lparr>out_rst := True\<rparr>\<lparr>out_rst := False\<rparr>) r"

text \<open>The register writes of \<^verbatim>\<open>i2s_start\<close> and \<^verbatim>\<open>i2s_stop\<close> for a port in the given mode.\<close>

definition start_regs :: "u32 \<Rightarrow> i2s_dev \<Rightarrow> i2s_dev" where
  "start_regs md r =
     (let r0 = r\<lparr>int_clr := Clear_mask 0xFFFFFFFF\<rparr>;
          r1 = (if has md I2S_MODE_TX then
                  conf_update (\<lambda>c. c\<lparr>tx_start := True\<rparr>)
                    (out_link_update (\<lambda>l. l\<lparr>link_start := True\<rparr>) (i2s_enable_tx_intr r0))
                else r0)
      in if has md I2S_MODE_RX then
           conf_update (\<lambda>c. c\<lparr>rx_start := True\<rparr>)
             (in_link_update (\<lambda>l. l\<lparr>link_start := True\<rparr>) (i2s_enable_rx_intr r1))
         else r1)"

definition stop_regs :: "u32 \<Rightarrow> i2s_dev \<Rightarrow> i2s_dev" where
  "stop_regs md r =
     (let r1 = (if has md I2S_MODE_TX then
                  i2s_disable_tx_intr (conf_update (\<lambda>c. c\<lparr>tx_start := False\<rparr>)
                    (out_link_update (\<lambda>l. l\<lparr>link_stop := True\<rparr>) r))
                else r);
          r2 = (if has md I2S_MODE_RX then
                  i2s_disable_rx_intr (conf_update (\<lambda>c. c\<lparr>rx_start := False\<rparr>)
                    (in_link_update (\<lambda>l. l\<lparr>link_stop := True\<rparr>) r1))
                else r1)
      in reset_dma (i2s_reset_fifo (r2\<lparr>int_clr := Clear_status (int_st r2)\<rparr>)))"

section \<open>\<^verbatim>\<open>i2s_param_config\<close>\<close>

text \<open>
  The stages of the function, in order. An assignment of a larger value to a bit field
  truncates it. \<open>None\<close> is the division by zero of the PDM branch.
\<close>

definition cfg_reset :: "i2s_dev \<Rightarrow> i2s_dev" where
  "cfg_reset r =
     lc_conf_update (\<lambda>l. l\<lparr>check_owner := False, out_loop_test := False, out_auto_wrback := False,
         out_data_burst_en := False, outdscr_burst_en := False, out_no_restart_clr := False,
         indscr_burst_en := False, out_eof_mode := True\<rparr>)
       (reset_dma
         (conf_update (\<lambda>c. c\<lparr>tx_reset := True\<rparr>\<lparr>tx_reset := False\<rparr>\<lparr>rx_reset := True\<rparr>\<lparr>rx_reset := False\<rparr>)
           (i2s_reset_fifo r)))"

definition cfg_channels :: "nat \<Rightarrow> i2s_dev \<Rightarrow> i2s_dev" where
  "cfg_channels fmt r =
     (let chan = (if fmt < I2S_CHANNEL_FMT_ONLY_RIGHT then fmt else fmt div 2);
          fifo = (if fmt < I2S_CHANNEL_FMT_ONLY_RIGHT then 0 else 1) in
      conf_update (\<lambda>c. c\<lparr>tx_mono := False, rx_mono := False, tx_start := False, rx_start := False\<rparr>)
        (fifo_conf_update (\<lambda>f. f\<lparr>dscr_en := False\<rparr>\<lparr>tx_fifo_mod := of_nat fifo,
             rx_fifo_mod := of_nat fifo\<rparr>\<lparr>dscr_en := True\<rparr>)
          (pdm_conf_update (\<lambda>p. p\<lparr>pcm2pdm_conv_en := False, pdm2pcm_conv_en := False\<rparr>)
            (r\<lparr>lcd_en := False, camera_en := False,
               tx_chan_mod := of_nat chan, rx_chan_mod := of_nat chan\<rparr>))))"

definition cfg_direction :: "u32 \<Rightarrow> i2s_dev \<Rightarrow> i2s_dev" where
  "cfg_direction md r =
     (let r1 = (if has md I2S_MODE_TX then
                  conf_update (\<lambda>c. c\<lparr>tx_msb_right := False, tx_right_first := False,
                      tx_slave_mod := has md I2S_MODE_SLAVE\<rparr>)
                    (fifo_conf_update (\<lambda>f. f\<lparr>tx_fifo_mod_force_en := True\<rparr>) r)
                else r);
          r2 = (if has md I2S_MODE_RX then
                  conf_update (\<lambda>c. c\<lparr>rx_msb_right := False, rx_right_first := False,
                      rx_slave_mod := has md I2S_MODE_SLAVE\<rparr>)
                    (fifo_conf_update (\<lambda>f. f\<lparr>rx_fifo_mod_force_en := True\<rparr>) r1)
                else r1)
      in if has md I2S_MODE_DAC_BUILT_IN
         then conf_update (\<lambda>c. c\<lparr>tx_right_first := True\<rparr>) (r2\<lparr>lcd_en := True\<rparr>)
         else r2)"

definition cfg_pdm :: "u32 \<Rightarrow> int \<Rightarrow> i2s_dev \<Rightarrow> i2s_dev run" where
  "cfg_pdm md rate r =
     (if has md I2S_MODE_PDM then
        let fs = (word_of_int (rate sdiv 1000 * 10) :: 10 word) in
        if fs = 0 then Inl Div_By_Zero
        else Inr (pdm_conf_update (\<lambda>p. p\<lparr>tx_pdm_fp := 960, tx_pdm_fs := fs,
                    tx_sinc_osr2 := of_nat (960 div unat fs),
                    rx_sinc_dsr_16_en := False, rx_pdm_en := True, tx_pdm_en := True,
                    pcm2pdm_conv_en := True, pdm2pcm_conv_en := True\<rparr>)
               (fifo_conf_update (\<lambda>f. f\<lparr>rx_fifo_mod_force_en := True, tx_fifo_mod_force_en := True\<rparr>) r))
      else Inr (pdm_conf_update (\<lambda>p. p\<lparr>rx_pdm_en := False, tx_pdm_en := False\<rparr>) r))"

definition cfg_format :: "u32 \<Rightarrow> u32 \<Rightarrow> i2s_dev \<Rightarrow> i2s_dev" where
  "cfg_format md fmt r =
     (let r1 = (if has fmt I2S_COMM_FORMAT_I2S then
                  conf_update (\<lambda>c. c\<lparr>tx_short_sync := False, rx_short_sync := False,
                    tx_msb_shift := \<not> (has fmt I2S_COMM_FORMAT_I2S_LSB \<and> has md I2S_MODE_TX),
                    rx_msb_shift := \<not> (has fmt I2S_COMM_FORMAT_I2S_LSB \<and> has md I2S_MODE_RX)\<rparr>) r
                else r)
      in if has fmt I2S_COMM_FORMAT_PCM then
           conf_update (\<lambda>c. c\<lparr>tx_msb_shift := False, rx_msb_shift := False,
             tx_short_sync := has fmt I2S_COMM_FORMAT_PCM_SHORT \<and> has md I2S_MODE_TX,
             rx_short_sync := has fmt I2S_COMM_FORMAT_PCM_SHORT \<and> has md I2S_MODE_RX\<rparr>) r1
         else r1)"

text \<open>The loopback stage looks at the mode stored in the driver object.\<close>

definition cfg_loopback :: "u32 \<Rightarrow> i2s_dev \<Rightarrow> i2s_dev" where
  "cfg_loopback obj_mode r =
     (if has obj_mode I2S_MODE_RX \<and> has obj_mode I2S_MODE_TX then
        conf_update (\<lambda>c. c\<lparr>sig_loopback := True, tx_slave_mod := \<not> has obj_mode I2S_MODE_MASTER,
                          rx_slave_mod := True\<rparr>) r
      else r)"

definition i2s_param_config :: "u32 \<Rightarrow> i2s_config_t \<Rightarrow> i2s_dev \<Rightarrow> i2s_dev run" where
  "i2s_param_config obj_mode cfg r =
     run_bind (cfg_pdm (cfg_mode cfg) (cfg_sample_rate cfg)
                 (cfg_direction (cfg_mode cfg) (cfg_channels (cfg_channel_format cfg) (cfg_reset r))))
       (\<lambda>r1. Inr (cfg_loopback obj_mode
                   (cfg_format (cfg_mode cfg) (cfg_communication_format cfg) r1)))"

section \<open>Clock dividers\<close>

definition I2S_BASE_CLK :: nat where
  "I2S_BASE_CLK = 2 * (80 * 1000000)"

text \<open>
  The \<^verbatim>\<open>double\<close> quotient \<^verbatim>\<open>I2S_BASE_CLK / m\<close> and its use as an integer part and a count of 64ths.
  Since \<open>I2S_BASE_CLK < 2^28\<close>, the rounding error of the quotient is far below \<open>1/m\<close>, so the
  truncations of the quotient and of 64 times its fractional part are those of the exact
  rational.
\<close>

definition clkm_split :: "u32 \<Rightarrow> (nat \<times> nat) run" where
  "clkm_split m =
     (if m = 0 then Inl Bad_Conversion
      else Inr (I2S_BASE_CLK div unat m, (64 * (I2S_BASE_CLK mod unat m)) div unat m))"

definition clk_factor :: "nat \<Rightarrow> u32" where
  "clk_factor bits = (if 256 mod bits \<noteq> 0 then 384 else 256)"

text \<open>\<^verbatim>\<open>clkmdiv > 256\<close>, where a zero product makes the quotient infinite.\<close>

definition clkmdiv_too_large :: "u32 \<Rightarrow> nat \<Rightarrow> bool" where
  "clkmdiv_too_large rate bits \<longleftrightarrow>
     rate * clk_factor bits = 0 \<or> 256 * unat (rate * clk_factor bits) < I2S_BASE_CLK"

text \<open>
  The three branches for the divider: the integer part, the 64ths and the bit clock divider.
  \<^verbatim>\<open>b_clk * factor2\<close> is an unsigned 32-bit product.
\<close>

definition clk_dividers :: "u32 \<Rightarrow> pdm_conf_reg \<Rightarrow> u32 \<Rightarrow> nat \<Rightarrow> (nat \<times> nat \<times> nat) run" where
  "clk_dividers md pdm rate bits =
     (if has md I2S_MODE_DAC_BUILT_IN then
        let b_clk = rate * 2; mclk = b_clk * 60 in
        run_bind (clkm_split mclk) (\<lambda>(i, dec).
          if b_clk = 0 then Inl Bad_Conversion else Inr (i, dec, unat mclk div unat b_clk))
      else if has md I2S_MODE_PDM then
        run_bind
          (if has md I2S_MODE_TX then
             if tx_pdm_fs pdm = 0 then Inl Div_By_Zero
             else Inr (rate * 64 * of_nat (unat (tx_pdm_fp pdm) div unat (tx_pdm_fs pdm)))
           else if has md I2S_MODE_RX then
             Inr (rate * 64 * (if rx_sinc_dsr_16_en pdm then 2 else 1))
           else Inr 0)
          (\<lambda>b_clk. let mclk = b_clk * 5 in
             run_bind (clkm_split mclk) (\<lambda>(i, dec).
               if b_clk = 0 then Inl Bad_Conversion else Inr (i, dec, unat mclk div unat b_clk)))
      else
        run_bind (clkm_split (rate * clk_factor bits)) (\<lambda>(i, dec).
          Inr (i, dec, unat (clk_factor bits) div (bits * 2))))"

definition write_dividers :: "nat \<Rightarrow> nat \<Rightarrow> nat \<Rightarrow> nat \<Rightarrow> i2s_dev \<Rightarrow> i2s_dev" where
  "write_dividers i dec bck bits r =
     clk_update (\<lambda>c. c\<lparr>clka_en := False, clkm_div_a := 63, clkm_div_b := of_nat dec,
       clkm_div_num := of_nat i, tx_bck_div_num := of_nat bck, rx_bck_div_num := of_nat bck,
       tx_bits_mod := of_nat bits, rx_bits_mod := of_nat bits\<rparr>) r"

text \<open>
  \<^verbatim>\<open>I2S_BASE_CLK / (bck * bits * clkmInteger) / 2\<close>, computed for the log line with unsigned
  32-bit arithmetic.
\<close>

definition real_rate :: "nat \<Rightarrow> nat \<Rightarrow> nat \<Rightarrow> nat run" where
  "real_rate bck bits i =
     (let prod = (of_nat bck * of_nat bits * of_nat i :: u32) in
      if prod = 0 then Inl Div_By_Zero else Inr (I2S_BASE_CLK div unat prod div 2))"

section \<open>Pins and DAC\<close>

datatype esp_err_t = ESP_OK | ESP_FAIL | ESP_ERR_INVALID_ARG | ESP_ERR_INVALID_STATE | ESP_ERR_OTHER int

record dac_state =
  dac_channel_1 :: bool
  dac_channel_2 :: bool
  dac_i2s :: bool

definition i2s_set_dac_mode :: "nat \<Rightarrow> dac_state \<Rightarrow> esp_err_t \<times> dac_state" where
  "i2s_set_dac_mode dac_mode d =
     (if \<not> dac_mode < I2S_DAC_CHANNEL_MAX then (ESP_ERR_INVALID_ARG, d)
      else
        let d1 = (if dac_mode = 0
                  then d\<lparr>dac_channel_1 := False\<rparr>\<lparr>dac_channel_1 := False\<rparr>\<lparr>dac_i2s := False\<rparr>
                  else d\<lparr>dac_i2s := True\<rparr>);
            d2 = (if odd dac_mode then d1\<lparr>dac_channel_1 := True\<rparr> else d1);
            d3 = (if odd (dac_mode div 2) then d2\<lparr>dac_channel_2 := True\<rparr> else d2)
        in (ESP_OK, d3))"

text \<open>
  The pins without a pad have the entry 0 in \<^verbatim>\<open>GPIO_PIN_MUX_REG\<close>, which has 40 entries; a number
  below zero indexes outside it.
\<close>

definition GPIO_IS_VALID_GPIO :: "int \<Rightarrow> bool run" where
  "GPIO_IS_VALID_GPIO p =
     (if p < 40 then
        if p < 0 then Inl Out_Of_Bounds else Inr (p \<notin> {20, 24, 28, 29, 30, 31})
      else Inr False)"

definition pin_ok :: "int \<Rightarrow> bool run" where
  "pin_ok p = (if p \<noteq> - 1 then GPIO_IS_VALID_GPIO p else Inr True)"

text \<open>\<^verbatim>\<open>bck_sig\<close>, \<^verbatim>\<open>ws_sig\<close>, \<^verbatim>\<open>data_out_sig\<close> and \<^verbatim>\<open>data_in_sig\<close>, with the indices of \<^verbatim>\<open>gpio_sig_map.h\<close>.\<close>

record i2s_signals =
  bck_sig :: int
  ws_sig :: int
  data_out_sig :: int
  data_in_sig :: int

definition tx_signals :: "nat \<Rightarrow> u32 \<Rightarrow> i2s_signals \<Rightarrow> i2s_signals" where
  "tx_signals num md g =
     (if has md I2S_MODE_TX \<and> (has md I2S_MODE_MASTER \<or> has md I2S_MODE_SLAVE) then
        if num = 0 then g\<lparr>bck_sig := 23, ws_sig := 25, data_out_sig := 163\<rparr>
        else g\<lparr>bck_sig := 24, ws_sig := 26, data_out_sig := 189\<rparr>
      else g)"

definition rx_signals :: "nat \<Rightarrow> u32 \<Rightarrow> i2s_signals \<Rightarrow> i2s_signals" where
  "rx_signals num md g =
     (if has md I2S_MODE_RX \<and> (has md I2S_MODE_MASTER \<or> has md I2S_MODE_SLAVE) then
        if num = 0 then g\<lparr>bck_sig := 27, ws_sig := 28, data_in_sig := 155\<rparr>
        else g\<lparr>bck_sig := 164, ws_sig := 165, data_in_sig := 181\<rparr>
      else g)"

definition duplex_signals :: "nat \<Rightarrow> u32 \<Rightarrow> i2s_signals \<Rightarrow> i2s_signals" where
  "duplex_signals num md g =
     (let slave = I2S_MODE_TX OR I2S_MODE_RX OR I2S_MODE_SLAVE;
          master = I2S_MODE_TX OR I2S_MODE_RX OR I2S_MODE_MASTER in
      if md AND slave = slave then
        if num = 0 then g\<lparr>bck_sig := 27, ws_sig := 28\<rparr> else g\<lparr>bck_sig := 164, ws_sig := 165\<rparr>
      else if md AND master = master then
        if num = 0 then g\<lparr>bck_sig := 23, ws_sig := 25\<rparr> else g\<lparr>bck_sig := 24, ws_sig := 26\<rparr>
      else g)"

definition select_signals :: "nat \<Rightarrow> u32 \<Rightarrow> i2s_signals" where
  "select_signals num md =
     duplex_signals num md (rx_signals num md (tx_signals num md
       \<lparr>bck_sig = - 1, ws_sig = - 1, data_out_sig = - 1, data_in_sig = - 1\<rparr>))"

datatype gpio_act = Gpio_out int int | Gpio_in int int

definition gpio_matrix_out_check :: "int \<Rightarrow> int \<Rightarrow> gpio_act list" where
  "gpio_matrix_out_check gpio sig = (if gpio \<noteq> - 1 then [Gpio_out gpio sig] else [])"

definition gpio_matrix_in_check :: "int \<Rightarrow> int \<Rightarrow> gpio_act list" where
  "gpio_matrix_in_check gpio sig = (if gpio \<noteq> - 1 then [Gpio_in gpio sig] else [])"

definition connect_pins :: "u32 \<Rightarrow> i2s_pin_config_t \<Rightarrow> i2s_signals \<Rightarrow> gpio_act list" where
  "connect_pins md pin g =
     gpio_matrix_out_check (data_out_num pin) (data_out_sig g) @
     gpio_matrix_in_check (data_in_num pin) (data_in_sig g) @
     (if has md I2S_MODE_MASTER then
        gpio_matrix_out_check (ws_io_num pin) (ws_sig g) @
        gpio_matrix_out_check (bck_io_num pin) (bck_sig g)
      else if has md I2S_MODE_SLAVE then
        gpio_matrix_in_check (ws_io_num pin) (ws_sig g) @
        gpio_matrix_in_check (bck_io_num pin) (bck_sig g)
      else [])"

text \<open>
  \<open>obj_mode\<close> is \<open>None\<close> when the driver is not installed: the function then dereferences NULL. The
  result is the error code, the routing performed, and the DAC state.
\<close>

definition i2s_set_pin ::
  "nat \<Rightarrow> u32 option \<Rightarrow> i2s_pin_config_t option \<Rightarrow> dac_state \<Rightarrow>
   (esp_err_t \<times> gpio_act list \<times> dac_state) run" where
  "i2s_set_pin num obj_mode pin d =
     (if \<not> num < I2S_NUM_MAX then Inr (ESP_ERR_INVALID_ARG, [], d)
      else case pin of
        None \<Rightarrow> (let (e, d') = i2s_set_dac_mode 3 d in Inr (e, [], d'))
      | Some p \<Rightarrow>
          run_bind (pin_ok (bck_io_num p)) (\<lambda>b. if \<not> b then Inr (ESP_FAIL, [], d) else
          run_bind (pin_ok (ws_io_num p)) (\<lambda>b. if \<not> b then Inr (ESP_FAIL, [], d) else
          run_bind (pin_ok (data_out_num p)) (\<lambda>b. if \<not> b then Inr (ESP_FAIL, [], d) else
          run_bind (pin_ok (data_in_num p)) (\<lambda>b. if \<not> b then Inr (ESP_FAIL, [], d) else
            case obj_mode of None \<Rightarrow> Inl Null_Pointer
            | Some md \<Rightarrow> Inr (ESP_OK, connect_pins md p (select_signals num md), d))))))"

section \<open>Properties of the registers\<close>

lemma div_64ths:
  fixes m :: nat
  assumes "0 < m"
  shows "(64 * (b div m) + (64 * (b mod m)) div m) * m \<le> 64 * b"
    "64 * b < (64 * (b div m) + (64 * (b mod m)) div m + 1) * m"
    "(64 * (b mod m)) div m < 64"
proof -
  let ?d = "(64 * (b mod m)) div m" and ?e = "(64 * (b mod m)) mod m"
  have b: "64 * b = 64 * (b div m) * m + 64 * (b mod m)"
    by (metis add_mult_distrib2 div_mult_mod_eq mult.assoc)
  have d: "64 * (b mod m) = ?d * m + ?e" by simp
  have e: "?e < m" using assms by simp
  show "(64 * (b div m) + ?d) * m \<le> 64 * b" using b d by (simp add: algebra_simps)
  have "(64 * (b div m) + ?d + 1) * m = 64 * (b div m) * m + ?d * m + m"
    by (simp add: add_mult_distrib)
  then show "64 * b < (64 * (b div m) + ?d + 1) * m" using b d e by linarith
  have "64 * (b mod m) < 64 * m" using assms by simp
  then show "?d < 64" using assms by (simp add: div_less_iff_less_mult)
qed

lemma unat_of_nat_small: "n < 2 ^ LENGTH('a::len) \<Longrightarrow> unat (of_nat n :: 'a word) = n"
  by (simp add: unat_of_nat take_bit_nat_eq_self)

text \<open>
  In the plain I2S mode the divider that \<^verbatim>\<open>i2s_set_clk\<close> computes for an accepted rate fits its
  8-bit and 6-bit register fields, and the programmed division by
  \<open>clkm_div_num + clkm_div_b / 64\<close> is the exact quotient of the 160 MHz base clock and the
  requested master clock \<open>rate * factor\<close>, rounded down to a 64th.
\<close>

theorem clk_dividers_plain_accurate:
  assumes "\<not> clkmdiv_too_large rate bits"
    "\<not> has md I2S_MODE_DAC_BUILT_IN" "\<not> has md I2S_MODE_PDM"
  defines "m \<equiv> unat (rate * clk_factor bits)"
  shows "\<exists>i dec bck. clk_dividers md pdm rate bits = Inr (i, dec, bck) \<and>
     (let c = clk (write_dividers i dec bck bits r);
          q = 64 * unat (clkm_div_num c) + unat (clkm_div_b c) in
      q * m \<le> 64 * I2S_BASE_CLK \<and> 64 * I2S_BASE_CLK < (q + 1) * m)"
proof -
  let ?i = "I2S_BASE_CLK div m" and ?d = "64 * (I2S_BASE_CLK mod m) div m"
  have m: "0 < m" "I2S_BASE_CLK \<le> 256 * m"
    using assms(1) by (auto simp: clkmdiv_too_large_def m_def unat_gt_0)
  have d: "?d < 64" using div_64ths(3) [OF m(1)] .
  have ne: "m \<noteq> 625000"
  proof
    assume eq: "m = 625000"
    have "m = unat rate * unat (clk_factor bits) mod 2 ^ 32"
      by (simp add: m_def unat_word_ariths)
    moreover have "16 dvd unat rate * unat (clk_factor bits)"
      by (simp add: clk_factor_def dvd_mult)
    ultimately have "16 dvd m" by (simp add: dvd_mod)
    then show False unfolding eq by simp
  qed
  have i: "?i < 256"
  proof -
    have "I2S_BASE_CLK \<noteq> 256 * m" using ne by (simp add: I2S_BASE_CLK_def)
    with m show ?thesis by (simp add: div_less_iff_less_mult mult.commute)
  qed
  have "clk_dividers md pdm rate bits = Inr (?i, ?d, unat (clk_factor bits) div (bits * 2))"
    using assms by (simp add: clk_dividers_def clkm_split_def m_def clkmdiv_too_large_def)
  moreover have "unat (of_nat ?i :: 8 word) = ?i" "unat (of_nat ?d :: 6 word) = ?d"
    using i d by (simp_all add: unat_of_nat_small)
  ultimately show ?thesis
    using div_64ths(1,2) [OF m(1), of I2S_BASE_CLK]
    by (auto simp: write_dividers_def Let_def)
qed

definition zero_pdm :: pdm_conf_reg where
  "zero_pdm = \<lparr>tx_pdm_en = False, rx_pdm_en = False, pcm2pdm_conv_en = False,
     pdm2pcm_conv_en = False, tx_sinc_osr2 = 0, rx_sinc_dsr_16_en = False, tx_pdm_fs = 0,
     tx_pdm_fp = 0\<rparr>"

text \<open>The value of the registers at reset does not matter; this one is all zero.\<close>

definition zero_dev :: i2s_dev where
  "zero_dev =
     \<lparr>conf = \<lparr>tx_reset = False, rx_reset = False, tx_fifo_reset = False, rx_fifo_reset = False,
        tx_start = False, rx_start = False, tx_slave_mod = False, rx_slave_mod = False,
        tx_right_first = False, rx_right_first = False, tx_msb_shift = False, rx_msb_shift = False,
        tx_short_sync = False, rx_short_sync = False, tx_mono = False, rx_mono = False,
        tx_msb_right = False, rx_msb_right = False, sig_loopback = False\<rparr>,
      int_st = \<lparr>in_suc_eof = False, out_eof = False, in_dscr_err = False, out_dscr_err = False\<rparr>,
      int_ena = \<lparr>in_suc_eof = False, out_eof = False, in_dscr_err = False, out_dscr_err = False\<rparr>,
      int_clr = Clear_mask 0,
      fifo_conf = \<lparr>dscr_en = False, tx_fifo_mod = 0, rx_fifo_mod = 0, tx_fifo_mod_force_en = False,
        rx_fifo_mod_force_en = False\<rparr>,
      rx_eof_num = 0, tx_chan_mod = 0, rx_chan_mod = 0,
      out_link = \<lparr>link_addr = 0, link_stop = False, link_start = False\<rparr>,
      in_link = \<lparr>link_addr = 0, link_stop = False, link_start = False\<rparr>,
      out_eof_des_addr = 0, in_eof_des_addr = 0,
      lc_conf = \<lparr>in_rst = False, out_rst = False, check_owner = False, out_loop_test = False,
        out_auto_wrback = False, out_data_burst_en = False, outdscr_burst_en = False,
        out_no_restart_clr = False, indscr_burst_en = False, out_eof_mode = False\<rparr>,
      lcd_en = False, camera_en = False, pdm_conf = zero_pdm,
      clk = \<lparr>clkm_div_num = 0, clkm_div_b = 0, clkm_div_a = 0, clka_en = False, tx_bck_div_num = 0,
        rx_bck_div_num = 0, tx_bits_mod = 0, rx_bits_mod = 0\<rparr>\<rparr>"

theorem clk_dividers_plain_accurate_witness:
  "\<not> clkmdiv_too_large 44100 16 \<and>
   (\<exists>i dec bck. clk_dividers 5 zero_pdm 44100 16 = Inr (i, dec, bck) \<and>
     (let c = clk (write_dividers i dec bck 16 zero_dev);
          q = 64 * unat (clkm_div_num c) + unat (clkm_div_b c) in
      q * 11289600 \<le> 64 * I2S_BASE_CLK \<and> 64 * I2S_BASE_CLK < (q + 1) * 11289600))"
proof -
  have ok: "\<not> clkmdiv_too_large 44100 16" "\<not> has 5 I2S_MODE_DAC_BUILT_IN" "\<not> has 5 I2S_MODE_PDM"
    by (simp_all add: clkmdiv_too_large_def clk_factor_def I2S_BASE_CLK_def has_def i2s_flags)
  have "unat (44100 * clk_factor 16) = 11289600" by (simp add: clk_factor_def)
  then show ?thesis
    using ok(1) clk_dividers_plain_accurate [OF ok, of zero_pdm zero_dev] by simp
qed

lemma dac_dividers:
  assumes "has md I2S_MODE_DAC_BUILT_IN" "2442 \<le> unat rate" "unat rate \<le> 11184810"
    "bits = 16 \<or> bits = 32"
  shows "\<exists>i dec. clk_dividers md pdm rate bits = Inr (i, dec, 60) \<and>
     \<not> clkmdiv_too_large rate bits \<and>
     (let c = clk (write_dividers i dec 60 bits r);
          q = 64 * unat (clkm_div_num c) + unat (clkm_div_b c) in
      (unat rate \<le> 5208 \<longrightarrow> unat (clkm_div_num c) < i) \<and>
      (5209 \<le> unat rate \<longrightarrow>
         q * (unat rate * 120) \<le> 64 * I2S_BASE_CLK \<and> 64 * I2S_BASE_CLK < (q + 1) * (unat rate * 120)) \<and>
      (1333333 < unat rate \<longleftrightarrow> real_rate 60 bits i = Inl Div_By_Zero))"
proof -
  define m where "m = unat rate * 120"
  let ?i = "I2S_BASE_CLK div m" and ?d = "64 * (I2S_BASE_CLK mod m) div m"
  have m: "0 < m" using assms(2) by (simp add: m_def)
  have b2: "unat (rate * 2) = unat rate * 2" and mw: "unat (rate * 2 * 60) = m"
    using assms(3) by (simp_all add: unat_word_ariths m_def)
  have nz: "rate * 2 \<noteq> 0" "rate * 2 * 60 \<noteq> 0"
    using b2 mw m assms(2) by (metis mult_eq_0_iff not_numeral_le_zero unat_0 zero_neq_numeral,
        metis less_irrefl unat_0)
  have "unat (rate * 2 * 60) div unat (rate * 2) = 60"
    using assms(2) unfolding mw b2 by (simp add: m_def)
  then have div: "clk_dividers md pdm rate bits = Inr (?i, ?d, 60)"
    using assms(1) nz mw by (simp add: clk_dividers_def clkm_split_def)
  have fac: "clk_factor bits = 256" using assms(4) by (auto simp: clk_factor_def)
  have "unat (rate * 256) = unat rate * 256" using assms(3) by (simp add: unat_word_ariths)
  then have ok: "\<not> clkmdiv_too_large rate bits"
    using assms(2) fac by (auto simp: clkmdiv_too_large_def I2S_BASE_CLK_def)
  have d: "unat (of_nat ?d :: 6 word) = ?d"
    using div_64ths(3) [OF m] by (simp add: unat_of_nat_small)
  have small: "unat (of_nat ?i :: 8 word) = ?i" if "5209 \<le> unat rate"
  proof -
    have "?i < 256" using that by (simp add: div_less_iff_less_mult m_def I2S_BASE_CLK_def)
    then show ?thesis by (simp add: unat_of_nat_small)
  qed
  have trunc: "unat (of_nat ?i :: 8 word) < ?i" if "unat rate \<le> 5208"
  proof -
    have "256 \<le> ?i" using that m
      by (simp add: less_eq_div_iff_mult_less_eq m_def I2S_BASE_CLK_def)
    moreover have "unat (of_nat ?i :: 8 word) < 2 ^ LENGTH(8)" by (rule unsigned_less)
    ultimately show ?thesis by simp
  qed
  have i_small: "?i \<le> 65535"
  proof -
    have "?i \<le> I2S_BASE_CLK div (2442 * 120)"
      using assms(2) by (intro div_le_mono2) (simp_all add: m_def)
    then show ?thesis by (simp add: I2S_BASE_CLK_def)
  qed
  have prod: "unat (of_nat 60 * of_nat bits * of_nat ?i :: u32) = 60 * bits * ?i"
    using i_small assms(4) by (auto simp: unat_word_ariths unat_of_nat)
  have "real_rate 60 bits ?i = Inl Div_By_Zero \<longleftrightarrow> ?i = 0"
    using prod assms(4) by (auto simp: real_rate_def Let_def unat_eq_zero [symmetric] simp del: unat_eq_zero)
  moreover have "?i = 0 \<longleftrightarrow> 1333333 < unat rate"
    using m by (simp add: div_eq_0_iff m_def I2S_BASE_CLK_def) linarith
  ultimately show ?thesis
    using div ok d small trunc div_64ths(1,2) [OF m, of I2S_BASE_CLK] unfolding m_def [symmetric]
    by (auto simp: write_dividers_def Let_def)
qed

text \<open>
  With the built-in DAC (the mode the speaker runs in) the divider is computed from
  \<open>rate * 120\<close>, but the only range check is on \<open>rate * 256\<close>. From 5209 Hz to 1333333 Hz the divider
  fits its register and is exact to a 64th. From 2442 Hz to 5208 Hz the rate is accepted although
  the integer part needs more than 8 bits, and the register receives a smaller divider. Above
  1333333 Hz the integer part is 0 and the log line of \<^verbatim>\<open>i2s_set_clk\<close> divides by zero.
\<close>

theorem clk_dividers_dac_ranges:
  assumes "has md I2S_MODE_DAC_BUILT_IN" "2442 \<le> unat rate" "unat rate \<le> 11184810"
    "bits = 16 \<or> bits = 32"
  shows "\<exists>i dec. clk_dividers md pdm rate bits = Inr (i, dec, 60) \<and>
     \<not> clkmdiv_too_large rate bits \<and>
     (let c = clk (write_dividers i dec 60 bits r);
          q = 64 * unat (clkm_div_num c) + unat (clkm_div_b c) in
      (unat rate \<le> 5208 \<longrightarrow> unat (clkm_div_num c) < i) \<and>
      (5209 \<le> unat rate \<longrightarrow>
         q * (unat rate * 120) \<le> 64 * I2S_BASE_CLK \<and> 64 * I2S_BASE_CLK < (q + 1) * (unat rate * 120)) \<and>
      (1333333 < unat rate \<longleftrightarrow> real_rate 60 bits i = Inl Div_By_Zero))"
  by (rule dac_dividers [OF assms])

theorem clk_dividers_dac_ranges_witness:
  "clk_dividers 21 zero_pdm 4000 16 = Inr (333, 21, 60) \<and> \<not> clkmdiv_too_large 4000 16 \<and>
   unat (clkm_div_num (clk (write_dividers 333 21 60 16 zero_dev))) < 333 \<and>
   clk_dividers 21 zero_pdm 2000000 16 = Inr (0, 42, 60) \<and> real_rate 60 16 0 = Inl Div_By_Zero"
proof -
  have dac: "has 21 I2S_MODE_DAC_BUILT_IN" by (simp add: has_def i2s_flags)
  have low: "clk_dividers 21 zero_pdm 4000 16 = Inr (333, 21, 60)"
    using dac by (simp add: clk_dividers_def clkm_split_def I2S_BASE_CLK_def)
  have high: "clk_dividers 21 zero_pdm 2000000 16 = Inr (0, 42, 60)"
    using dac by (simp add: clk_dividers_def clkm_split_def I2S_BASE_CLK_def)
  show ?thesis
    using clk_dividers_dac_ranges [OF dac, of 4000 16 zero_pdm zero_dev] low
      clk_dividers_dac_ranges [OF dac, of 2000000 16 zero_pdm zero_dev] high
    by (auto simp: Let_def)
qed

text \<open>
  What \<^verbatim>\<open>i2s_param_config\<close> leaves in the registers of a port without PDM, for every mode and
  format: transfers are stopped and the DMA is connected; a transmitter or receiver alone is a
  slave exactly in slave mode; in full duplex the loopback is on, the receiver follows the
  transmitter, and the transmitter is the master only in master mode; PCM clears the MSB shift
  and selects short sync per direction, plain I2S sets the shift unless the LSB format is
  chosen for that direction; the LCD path is on exactly for the built-in DAC.
\<close>

theorem i2s_param_config_decodes:
  assumes "\<not> has md I2S_MODE_PDM" "cfg_mode cfg = md" "cfg_communication_format cfg = fmt"
  shows "\<exists>r'. i2s_param_config md cfg r = Inr r' \<and>
     (let c = conf r' in
      \<not> tx_start c \<and> \<not> rx_start c \<and> dscr_en (fifo_conf r') \<and> lcd_en r' = has md I2S_MODE_DAC_BUILT_IN \<and>
      (has md I2S_MODE_TX \<and> \<not> has md I2S_MODE_RX \<longrightarrow> tx_slave_mod c = has md I2S_MODE_SLAVE) \<and>
      (has md I2S_MODE_RX \<and> \<not> has md I2S_MODE_TX \<longrightarrow> rx_slave_mod c = has md I2S_MODE_SLAVE) \<and>
      (has md I2S_MODE_TX \<and> has md I2S_MODE_RX \<longrightarrow>
         sig_loopback c \<and> rx_slave_mod c \<and> tx_slave_mod c = (\<not> has md I2S_MODE_MASTER)) \<and>
      (has fmt I2S_COMM_FORMAT_PCM \<longrightarrow>
         \<not> tx_msb_shift c \<and> \<not> rx_msb_shift c \<and>
         tx_short_sync c = (has fmt I2S_COMM_FORMAT_PCM_SHORT \<and> has md I2S_MODE_TX) \<and>
         rx_short_sync c = (has fmt I2S_COMM_FORMAT_PCM_SHORT \<and> has md I2S_MODE_RX)) \<and>
      (has fmt I2S_COMM_FORMAT_I2S \<and> \<not> has fmt I2S_COMM_FORMAT_PCM \<longrightarrow>
         \<not> tx_short_sync c \<and> \<not> rx_short_sync c \<and>
         tx_msb_shift c = (\<not> (has fmt I2S_COMM_FORMAT_I2S_LSB \<and> has md I2S_MODE_TX)) \<and>
         rx_msb_shift c = (\<not> (has fmt I2S_COMM_FORMAT_I2S_LSB \<and> has md I2S_MODE_RX))))"
proof -
  have start: "\<not> tx_start (conf (cfg_channels f u))" "\<not> rx_start (conf (cfg_channels f u))"
      "dscr_en (fifo_conf (cfg_channels f u))" "\<not> lcd_en (cfg_channels f u)" for f u
    by (simp_all add: cfg_channels_def Let_def)
  have dir: "tx_start (conf (cfg_direction md u)) = tx_start (conf u)"
      "rx_start (conf (cfg_direction md u)) = rx_start (conf u)"
      "dscr_en (fifo_conf (cfg_direction md u)) = dscr_en (fifo_conf u)"
      "lcd_en (cfg_direction md u) = (lcd_en u \<or> has md I2S_MODE_DAC_BUILT_IN)"
      "has md I2S_MODE_TX \<Longrightarrow> tx_slave_mod (conf (cfg_direction md u)) = has md I2S_MODE_SLAVE"
      "has md I2S_MODE_RX \<Longrightarrow> rx_slave_mod (conf (cfg_direction md u)) = has md I2S_MODE_SLAVE" for u
    by (simp_all add: cfg_direction_def Let_def)
  show ?thesis
    using assms start dir
    by (simp add: i2s_param_config_def cfg_pdm_def cfg_format_def cfg_loopback_def Let_def)
qed

theorem i2s_param_config_decodes_witness:
  "\<exists>r'. i2s_param_config 21 \<lparr>cfg_mode = 21, cfg_sample_rate = 44100, cfg_bits_per_sample = 16,
       cfg_channel_format = 0, cfg_communication_format = 2, cfg_dma_buf_count = 32,
       cfg_dma_buf_len = 64\<rparr> zero_dev = Inr r' \<and> lcd_en r' \<and> \<not> tx_slave_mod (conf r')"
  using i2s_param_config_decodes [of 21 "\<lparr>cfg_mode = 21, cfg_sample_rate = 44100,
      cfg_bits_per_sample = 16, cfg_channel_format = 0, cfg_communication_format = 2,
      cfg_dma_buf_count = 32, cfg_dma_buf_len = 64\<rparr>" 2 zero_dev]
  by (auto simp: has_def i2s_flags Let_def)

text \<open>
  \<^verbatim>\<open>i2s_set_pin\<close> on an installed port routes nothing unless every pin is usable: a pin number
  outside the chip or without a pad makes it fail before the first write. When it succeeds the
  data pins, and then the word-select and bit-clock pins, are connected to the signals of the
  unit that owns the clocks: the transmitter when the port transmits as a master, the receiver
  when it receives as a slave, also in full duplex.
\<close>

theorem i2s_set_pin_routes:
  assumes "num < 2" "- 1 \<le> bck_io_num p" "- 1 \<le> ws_io_num p" "- 1 \<le> data_out_num p" "- 1 \<le> data_in_num p"
  defines "usable \<equiv> \<lambda>n::int. n = - 1 \<or> (n < 40 \<and> n \<notin> {20, 24, 28, 29, 30, 31})"
  shows "i2s_set_pin num (Some md) (Some p) d =
      Inr (if usable (bck_io_num p) \<and> usable (ws_io_num p) \<and> usable (data_out_num p) \<and>
              usable (data_in_num p)
           then (ESP_OK, connect_pins md p (select_signals num md), d) else (ESP_FAIL, [], d)) \<and>
    (has md I2S_MODE_TX \<and> has md I2S_MODE_MASTER \<and> \<not> has md I2S_MODE_RX \<longrightarrow>
       bck_sig (select_signals num md) = (if num = 0 then 23 else 24) \<and>
       ws_sig (select_signals num md) = (if num = 0 then 25 else 26)) \<and>
    (md AND 13 = 13 \<and> md AND 14 \<noteq> 14 \<longrightarrow>
       bck_sig (select_signals num md) = (if num = 0 then 23 else 24) \<and>
       ws_sig (select_signals num md) = (if num = 0 then 25 else 26)) \<and>
    (md AND 14 = 14 \<longrightarrow>
       bck_sig (select_signals num md) = (if num = 0 then 27 else 164) \<and>
       ws_sig (select_signals num md) = (if num = 0 then 28 else 165))"
proof -
  have pin: "pin_ok n = Inr (usable n)" if "- 1 \<le> n" for n
    using that by (auto simp: pin_ok_def GPIO_IS_VALID_GPIO_def usable_def)
  have "i2s_set_pin num (Some md) (Some p) d =
      Inr (if usable (bck_io_num p) \<and> usable (ws_io_num p) \<and> usable (data_out_num p) \<and>
              usable (data_in_num p)
           then (ESP_OK, connect_pins md p (select_signals num md), d) else (ESP_FAIL, [], d))"
    using assms(1-5) by (simp add: i2s_set_pin_def I2S_NUM_MAX_def pin)
  moreover have "md AND 8 = (md AND 14) AND 8" "md AND 8 = (md AND 13) AND 8"
    by (simp_all add: and.assoc)
  ultimately show ?thesis
    by (auto simp: select_signals_def duplex_signals_def tx_signals_def rx_signals_def i2s_flags
        has_def Let_def)
qed

definition speaker_pins :: i2s_pin_config_t where
  "speaker_pins = \<lparr>bck_io_num = 26, ws_io_num = 25, data_out_num = 22, data_in_num = - 1\<rparr>"

definition dac_off :: dac_state where
  "dac_off = \<lparr>dac_channel_1 = False, dac_channel_2 = False, dac_i2s = False\<rparr>"

theorem i2s_set_pin_routes_witness:
  "i2s_set_pin 0 (Some 5) (Some speaker_pins) dac_off =
     Inr (ESP_OK, [Gpio_out 22 163, Gpio_out 25 25, Gpio_out 26 23], dac_off)"
  using i2s_set_pin_routes [of 0 speaker_pins 5 dac_off]
  by (simp add: speaker_pins_def connect_pins_def select_signals_def duplex_signals_def
      tx_signals_def rx_signals_def i2s_flags has_def Let_def gpio_matrix_out_check_def
      gpio_matrix_in_check_def)

text \<open>
  \<^verbatim>\<open>i2s_set_dac_mode\<close> rejects modes above 3 without touching the DAC and otherwise leaves the
  requested channels on. Disabling, however, switches channel 1 off twice and never channel 2,
  which stays on.
\<close>

theorem i2s_set_dac_mode_disable:
  "(4 \<le> m \<longrightarrow> i2s_set_dac_mode m d = (ESP_ERR_INVALID_ARG, d)) \<and>
   (\<exists>d3. i2s_set_dac_mode 3 d = (ESP_OK, d3) \<and> dac_channel_1 d3 \<and> dac_channel_2 d3 \<and> dac_i2s d3 \<and>
      (\<exists>d0. i2s_set_dac_mode 0 d3 = (ESP_OK, d0) \<and> \<not> dac_channel_1 d0 \<and> dac_channel_2 d0 \<and>
         \<not> dac_i2s d0))"
  by (simp add: i2s_set_dac_mode_def I2S_DAC_CHANNEL_MAX_def Let_def)

theorem i2s_set_dac_mode_disable_witness:
  "i2s_set_dac_mode 5 dac_off = (ESP_ERR_INVALID_ARG, dac_off)"
  using i2s_set_dac_mode_disable [of 5] by simp

end
