(* ===== verification/RTOS_Queue.thy ===== *)
theory RTOS_Queue
  imports Speaker_Prelude
begin

text \<open>
  The data side of \<^verbatim>\<open>components/freertos/queue.c\<close>: the \<^verbatim>\<open>Queue_t\<close> structure, its creation,
  and the copies into and out of its circular storage area. Everything here runs inside
  the critical section of the queue's \<^verbatim>\<open>mux\<close>, so it is atomic for tasks and interrupts; what
  the API functions add around it (waking and blocking tasks) is the subject of the theory
  of the blocking calls.

  Pointers into the storage area are offsets from its start, in bytes. The two double uses of
  the structure's members are kept apart: \<open>pcHead = None\<close> is \<^verbatim>\<open>uxQueueType == queueQUEUE_IS_MUTEX\<close>,
  \<open>pxMutexHolder\<close> is the other reading of \<^verbatim>\<open>pcTail\<close>, and the union \<^verbatim>\<open>u\<close> has two fields. A copy
  that would leave the storage area has the result \<open>None\<close>.
\<close>

section \<open>The structure\<close>

type_synonym task = nat
type_synonym qhandle = nat

datatype queue_position = queueSEND_TO_BACK | queueSEND_TO_FRONT | queueOVERWRITE

record Queue_t =
  storage :: "byte list"
  pcHead :: "nat option"
  pcTail :: nat
  pxMutexHolder :: "task option"
  pcWriteTo :: nat
  pcReadFrom :: nat
  uxRecursiveCallCount :: u32
  xTasksWaitingToSend :: "task list"
  xTasksWaitingToReceive :: "task list"
  uxMessagesWaiting :: u32
  uxLength :: u32
  uxItemSize :: u32
  pxQueueSetContainer :: "qhandle option"

definition head_ptr :: "Queue_t \<Rightarrow> nat" where
  "head_ptr q = (case pcHead q of None \<Rightarrow> 0 | Some h \<Rightarrow> h)"

definition is_mutex :: "Queue_t \<Rightarrow> bool" where
  "is_mutex q \<longleftrightarrow> pcHead q = None"

section \<open>Creation\<close>

text \<open>
  \<^verbatim>\<open>xQueueGenericReset\<close> up to its treatment of the waiting lists. The products are products
  of 32-bit unsigned values.
\<close>

definition reset_ring :: "Queue_t \<Rightarrow> Queue_t" where
  "reset_ring q =
     q\<lparr>pcTail := head_ptr q + unat (uxLength q * uxItemSize q),
       uxMessagesWaiting := 0,
       pcWriteTo := head_ptr q,
       pcReadFrom := head_ptr q + unat ((uxLength q - 1) * uxItemSize q)\<rparr>"

definition reset_new :: "Queue_t \<Rightarrow> Queue_t" where
  "reset_new q = (reset_ring q)\<lparr>xTasksWaitingToSend := [], xTasksWaitingToReceive := []\<rparr>"

definition prvInitialiseNewQueue :: "u32 \<Rightarrow> u32 \<Rightarrow> Queue_t \<Rightarrow> Queue_t" where
  "prvInitialiseNewQueue uxQueueLength itemSize q =
     (reset_new (q\<lparr>pcHead := Some 0, uxLength := uxQueueLength, uxItemSize := itemSize\<rparr>))
       \<lparr>pxQueueSetContainer := None\<rparr>"

text \<open>
  What \<^verbatim>\<open>pvPortMalloc\<close> returns: a structure with arbitrary fields, of which only the size of
  the storage area behind it matters.
\<close>

definition raw_queue :: "byte list \<Rightarrow> Queue_t" where
  "raw_queue area =
     \<lparr>storage = area, pcHead = None, pcTail = 0, pxMutexHolder = None, pcWriteTo = 0,
      pcReadFrom = 0, uxRecursiveCallCount = 0, xTasksWaitingToSend = [],
      xTasksWaitingToReceive = [], uxMessagesWaiting = 0, uxLength = 0, uxItemSize = 0,
      pxQueueSetContainer = None\<rparr>"

text \<open>The number of bytes requested from the heap for the storage area.\<close>

definition xQueueSizeInBytes :: "u32 \<Rightarrow> u32 \<Rightarrow> u32" where
  "xQueueSizeInBytes uxQueueLength itemSize =
     (if itemSize = 0 then 0 else uxQueueLength * itemSize)"

text \<open>
  \<^verbatim>\<open>xQueueGenericCreate\<close>: the outer \<open>None\<close> is the failed \<^verbatim>\<open>configASSERT\<close> on the length, the inner
  one the NULL handle of a failed allocation.
\<close>

definition xQueueGenericCreate :: "(nat \<Rightarrow> byte list option) \<Rightarrow> u32 \<Rightarrow> u32 \<Rightarrow> Queue_t option option" where
  "xQueueGenericCreate pvPortMalloc uxQueueLength itemSize =
     (if uxQueueLength = 0 then None
      else Some (case pvPortMalloc (unat (xQueueSizeInBytes uxQueueLength itemSize)) of
             None \<Rightarrow> None
           | Some area \<Rightarrow> Some (prvInitialiseNewQueue uxQueueLength itemSize (raw_queue area))))"

section \<open>Copies\<close>

text \<open>
  \<^verbatim>\<open>prvCopyDataToQueue\<close> without its call of \<^verbatim>\<open>xTaskPriorityDisinherit\<close>, which does not touch the
  queue.
\<close>

definition copy_to_queue :: "Queue_t \<Rightarrow> byte list \<Rightarrow> queue_position \<Rightarrow> Queue_t option" where
  "copy_to_queue q item xPosition =
     (let sz = unat (uxItemSize q) in
      if uxItemSize q = 0 then
        Some ((if is_mutex q then q\<lparr>pxMutexHolder := None\<rparr> else q)
                \<lparr>uxMessagesWaiting := uxMessagesWaiting q + 1\<rparr>)
      else if xPosition = queueSEND_TO_BACK then
        if pcWriteTo q + sz \<le> length (storage q) then
          Some (q\<lparr>storage := overwrite (storage q) (pcWriteTo q) item,
                  pcWriteTo := if pcTail q \<le> pcWriteTo q + sz then head_ptr q else pcWriteTo q + sz,
                  uxMessagesWaiting := uxMessagesWaiting q + 1\<rparr>)
        else None
      else
        if pcReadFrom q + sz \<le> length (storage q) then
          Some (q\<lparr>storage := overwrite (storage q) (pcReadFrom q) item,
                  pcReadFrom := if pcReadFrom q < head_ptr q + sz then pcTail q - sz
                                else pcReadFrom q - sz,
                  uxMessagesWaiting :=
                    (if xPosition = queueOVERWRITE \<and> 0 < uxMessagesWaiting q
                     then uxMessagesWaiting q - 1 else uxMessagesWaiting q) + 1\<rparr>)
        else None)"

definition prvCopyDataFromQueue :: "Queue_t \<Rightarrow> (Queue_t \<times> byte list) option" where
  "prvCopyDataFromQueue q =
     (let sz = unat (uxItemSize q) in
      if uxItemSize q \<noteq> 0 then
        let rd = (if pcTail q \<le> pcReadFrom q + sz then head_ptr q else pcReadFrom q + sz) in
        if rd + sz \<le> length (storage q)
        then Some (q\<lparr>pcReadFrom := rd\<rparr>, chunk (storage q) rd sz)
        else None
      else Some (q, []))"

definition prvIsQueueEmpty :: "Queue_t \<Rightarrow> bool" where
  "prvIsQueueEmpty q \<longleftrightarrow> uxMessagesWaiting q = 0"

definition prvIsQueueFull :: "Queue_t \<Rightarrow> bool" where
  "prvIsQueueFull q \<longleftrightarrow> uxMessagesWaiting q = uxLength q"

definition uxQueueMessagesWaiting :: "Queue_t \<Rightarrow> u32" where
  "uxQueueMessagesWaiting q = uxMessagesWaiting q"

definition uxQueueSpacesAvailable :: "Queue_t \<Rightarrow> u32" where
  "uxQueueSpacesAvailable q = uxLength q - uxMessagesWaiting q"

section \<open>Invariant and contents\<close>

definition queue_inv :: "Queue_t \<Rightarrow> bool" where
  "queue_inv q \<longleftrightarrow>
     head_ptr q = 0 \<and> uxLength q \<noteq> 0 \<and>
     length (storage q) = unat (uxLength q) * unat (uxItemSize q) \<and>
     pcTail q = unat (uxLength q) * unat (uxItemSize q) \<and>
     uxMessagesWaiting q \<le> uxLength q \<and>
     (\<exists>r < unat (uxLength q). pcReadFrom q = r * unat (uxItemSize q) \<and>
        pcWriteTo q = ((r + 1 + unat (uxMessagesWaiting q)) mod unat (uxLength q))
                        * unat (uxItemSize q))"

definition read_slot :: "Queue_t \<Rightarrow> nat" where
  "read_slot q = pcReadFrom q div unat (uxItemSize q)"

definition slot :: "Queue_t \<Rightarrow> nat \<Rightarrow> byte list" where
  "slot q k = chunk (storage q) (k * unat (uxItemSize q)) (unat (uxItemSize q))"

definition queue_content :: "Queue_t \<Rightarrow> byte list list" where
  "queue_content q =
     map (\<lambda>i. slot q ((read_slot q + 1 + i) mod unat (uxLength q))) [0..<unat (uxMessagesWaiting q)]"

lemma length_queue_content [simp]:
  "length (queue_content q) = unat (uxMessagesWaiting q)"
  by (simp add: queue_content_def)

lemma queue_content_no_size:
  "uxItemSize q = 0 \<Longrightarrow> queue_content q = replicate (unat (uxMessagesWaiting q)) []"
  by (simp add: queue_content_def slot_def chunk_def map_replicate_const)

lemma queue_inv_slots:
  assumes "queue_inv q" "0 < uxItemSize q"
  obtains r where "r < unat (uxLength q)" "read_slot q = r" "pcReadFrom q = r * unat (uxItemSize q)"
    "pcWriteTo q = ((r + 1 + unat (uxMessagesWaiting q)) mod unat (uxLength q)) * unat (uxItemSize q)"
  using assms by (auto simp: queue_inv_def read_slot_def counter_simps)

lemma queue_inv_facts:
  assumes "queue_inv q"
  shows "head_ptr q = 0" "0 < unat (uxLength q)"
    "length (storage q) = unat (uxLength q) * unat (uxItemSize q)"
    "pcTail q = unat (uxLength q) * unat (uxItemSize q)" "uxMessagesWaiting q \<le> uxLength q"
  using assms by (auto simp: queue_inv_def counter_simps word_gt_0)

lemma queue_inv_no_size:
  "uxItemSize q = 0 \<Longrightarrow>
   queue_inv q \<longleftrightarrow> head_ptr q = 0 \<and> uxLength q \<noteq> 0 \<and> storage q = [] \<and> pcTail q = 0 \<and>
     uxMessagesWaiting q \<le> uxLength q \<and> pcReadFrom q = 0 \<and> pcWriteTo q = 0"
  by (auto simp: queue_inv_def word_gt_0 unat_gt_0 intro: exI [of _ 0])

lemma queue_invI:
  assumes "head_ptr q = 0" "uxLength q \<noteq> 0"
    "length (storage q) = unat (uxLength q) * unat (uxItemSize q)"
    "pcTail q = unat (uxLength q) * unat (uxItemSize q)" "uxMessagesWaiting q \<le> uxLength q"
    "r < unat (uxLength q)" "pcReadFrom q = r * unat (uxItemSize q)"
    "pcWriteTo q = ((r + 1 + unat (uxMessagesWaiting q)) mod unat (uxLength q))
                     * unat (uxItemSize q)"
  shows "queue_inv q"
  unfolding queue_inv_def using assms by blast

lemma head_ptr_update [simp]:
  "head_ptr (q\<lparr>storage := a\<rparr>) = head_ptr q" "head_ptr (q\<lparr>pcWriteTo := b\<rparr>) = head_ptr q"
  "head_ptr (q\<lparr>pcReadFrom := b\<rparr>) = head_ptr q" "head_ptr (q\<lparr>uxMessagesWaiting := c\<rparr>) = head_ptr q"
  "head_ptr (q\<lparr>pxMutexHolder := d\<rparr>) = head_ptr q"
  "head_ptr (q\<lparr>xTasksWaitingToSend := e\<rparr>) = head_ptr q"
  "head_ptr (q\<lparr>xTasksWaitingToReceive := e\<rparr>) = head_ptr q"
  by (simp_all add: head_ptr_def)

text \<open>A new queue is empty and well formed whenever its size in bytes fits 32 bits.\<close>

lemma prvInitialiseNewQueue_inv:
  assumes "n \<noteq> 0" "unat n * unat z < 2 ^ 32" "length (storage q) = unat n * unat z"
  shows "queue_inv (prvInitialiseNewQueue n z q)"
    "queue_content (prvInitialiseNewQueue n z q) = []"
proof -
  let ?q = "prvInitialiseNewQueue n z q"
  have n1: "unat (n - 1) = unat n - 1" "0 < unat n"
    using assms(1) by (auto simp: unat_minus_one unat_gt_0)
  have nz: "unat (n * z) = unat n * unat z"
    using assms(2) unat_mult_lem [of n z] by simp
  have "unat (n - 1) * unat z < 2 ^ 32"
    using assms(2) n1 by (metis diff_le_self le_less_trans mult_le_mono1)
  then have n1z: "unat ((n - 1) * z) = (unat n - 1) * unat z"
    using unat_mult_lem [of "n - 1" z] n1 by simp
  have w: "((unat n - 1) + 1 + 0) mod unat n = 0" using n1 by simp
  have "head_ptr ?q = 0 \<and> uxLength ?q = n \<and> uxItemSize ?q = z \<and> storage ?q = storage q \<and>
     pcTail ?q = unat n * unat z \<and> uxMessagesWaiting ?q = 0 \<and>
     pcReadFrom ?q = (unat n - 1) * unat z \<and> pcWriteTo ?q = 0"
    by (simp add: prvInitialiseNewQueue_def reset_new_def reset_ring_def head_ptr_def nz n1z)
  then show "queue_inv ?q" "queue_content ?q = []"
    using assms n1 w unfolding queue_inv_def queue_content_def
    by (auto intro!: exI [of _ "unat n - 1"])
qed

lemma xQueueGenericCreate_new:
  assumes "n \<noteq> 0" "unat n * unat z < 2 ^ 32" "pvPortMalloc (unat (n * z)) = Some (replicate (unat (n * z)) 0)"
  shows "\<exists>q. xQueueGenericCreate pvPortMalloc n z = Some (Some q) \<and> queue_inv q \<and>
     queue_content q = [] \<and> uxLength q = n \<and> uxItemSize q = z"
proof -
  have size: "xQueueSizeInBytes n z = n * z" by (simp add: xQueueSizeInBytes_def)
  have "length (storage (raw_queue (replicate (unat (n * z)) 0))) = unat n * unat z"
    using assms(2) unat_mult_lem [of n z] by (simp add: raw_queue_def)
  from prvInitialiseNewQueue_inv [OF assms(1,2) this] show ?thesis
    using assms(1,3)
    by (simp add: xQueueGenericCreate_def size)
      (simp add: prvInitialiseNewQueue_def reset_new_def reset_ring_def)
qed

section \<open>The copies implement a bounded list\<close>

lemma copy_to_queue_back:
  assumes inv: "queue_inv q" and room: "uxMessagesWaiting q < uxLength q"
    and item: "length item = unat (uxItemSize q)"
  shows "\<exists>q'. copy_to_queue q item queueSEND_TO_BACK = Some q' \<and> queue_inv q' \<and>
     queue_content q' = queue_content q @ [item] \<and>
     uxMessagesWaiting q' = uxMessagesWaiting q + 1 \<and>
     uxLength q' = uxLength q \<and> uxItemSize q' = uxItemSize q"
proof (cases "uxItemSize q = 0")
  case True
  define q' where "q' = (if is_mutex q then q\<lparr>pxMutexHolder := None\<rparr> else q)
      \<lparr>uxMessagesWaiting := uxMessagesWaiting q + 1\<rparr>"
  have fields: "uxItemSize q' = 0" "uxMessagesWaiting q' = uxMessagesWaiting q + 1"
      "uxLength q' = uxLength q" "storage q' = storage q" "pcTail q' = pcTail q"
      "pcReadFrom q' = pcReadFrom q" "pcWriteTo q' = pcWriteTo q" "head_ptr q' = head_ptr q"
    using True by (simp_all add: q'_def head_ptr_def)
  have "queue_inv q'"
    using inv room True by (simp add: queue_inv_no_size fields inc_le)
  moreover have "queue_content q' = queue_content q @ [item]"
    using item room True
    by (simp add: queue_content_no_size fields unat_inc replicate_append_same)
  ultimately show ?thesis
    using True by (simp add: copy_to_queue_def fields flip: q'_def)
next
  case False
  let ?n = "unat (uxLength q)" and ?z = "unat (uxItemSize q)" and ?m = "unat (uxMessagesWaiting q)"
  from False have z: "0 < ?z" "0 < uxItemSize q" by (auto simp: unat_gt_0 word_gt_0)
  note facts = queue_inv_facts [OF inv]
  obtain r where r: "r < ?n" "read_slot q = r" "pcReadFrom q = r * ?z"
      "pcWriteTo q = ((r + 1 + ?m) mod ?n) * ?z"
    using queue_inv_slots [OF inv z(2)] by blast
  define w where "w = (r + 1 + ?m) mod ?n"
  have w: "w < ?n" using facts(2) by (simp add: w_def)
  have mn: "?m < ?n" using room by (simp add: word_less_nat_alt)
  have m1: "unat (uxMessagesWaiting q + 1) = ?m + 1" using room by (rule unat_inc)
  define q' where "q' = q\<lparr>storage := overwrite (storage q) (w * ?z) item,
      pcWriteTo := ((w + 1) mod ?n) * ?z, uxMessagesWaiting := uxMessagesWaiting q + 1\<rparr>"
  have bound: "w * ?z + ?z \<le> length (storage q)" using w facts(3) slot_bound by metis
  have wr: "pcWriteTo q = w * ?z" using r(4) by (simp add: w_def)
  have step: "(if pcTail q \<le> w * ?z + ?z then head_ptr q else w * ?z + ?z) = ((w + 1) mod ?n) * ?z"
    unfolding facts(1,4) by (rule mod_step [OF w z(1)])
  have "copy_to_queue q item queueSEND_TO_BACK = Some q'"
    using False bound by (simp only: copy_to_queue_def Let_def step simp_thms if_True if_False wr q'_def)
  moreover have "queue_inv q'"
  proof -
    have "(w + 1) mod ?n = (r + 1 + (?m + 1)) mod ?n"
      by (simp add: w_def mod_simps add.assoc)
    moreover have "uxMessagesWaiting q + 1 \<le> uxLength q"
      using room by (simp add: inc_le)
    ultimately show ?thesis
      by (intro queue_invI [where r = r])
        (use r m1 facts bound item in \<open>auto simp: q'_def length_overwrite\<close>)
  qed
  moreover have "queue_content q' = queue_content q @ [item]"
  proof -
    have "slot q' ((r + 1 + i) mod ?n) = (if i = ?m then item else slot q ((r + 1 + i) mod ?n))"
      if "i \<le> ?m" for i
    proof -
      have "w = (r + 1 + i) mod ?n \<longleftrightarrow> i = ?m"
        using mod_ring_inj [of i ?n ?m "r + 1"] that mn by (auto simp: w_def)
      then show ?thesis
        using chunk_overwrite_slot [OF facts(3) item w, of "(r + 1 + i) mod ?n"] facts(2)
        by (simp add: slot_def q'_def)
    qed
    then show ?thesis
      using r(2) m1 by (simp add: queue_content_def q'_def read_slot_def)
  qed
  ultimately show ?thesis by (auto simp: q'_def)
qed

lemma copy_to_queue_outside:
  "length (storage q) < pcWriteTo q + unat (uxItemSize q) \<Longrightarrow> uxItemSize q \<noteq> 0 \<Longrightarrow>
   copy_to_queue q item queueSEND_TO_BACK = None"
  by (simp add: copy_to_queue_def)

lemma mod_pred_shift:
  fixes r n i :: nat
  assumes "0 < n"
  shows "((r + (n - 1)) mod n + 1 + i) mod n = (r + i) mod n"
proof -
  have "((r + (n - 1)) mod n + 1 + i) mod n = (r + (n - 1) + (1 + i)) mod n"
    by (metis add.assoc mod_add_left_eq)
  also have "r + (n - 1) + (1 + i) = r + i + n" using assms by simp
  finally show ?thesis by simp
qed

lemma copy_to_queue_front:
  assumes inv: "queue_inv q" and room: "uxMessagesWaiting q < uxLength q"
    and item: "length item = unat (uxItemSize q)" and size: "0 < uxItemSize q"
  shows "\<exists>q'. copy_to_queue q item queueSEND_TO_FRONT = Some q' \<and> queue_inv q' \<and>
     queue_content q' = item # queue_content q \<and>
     uxLength q' = uxLength q \<and> uxItemSize q' = uxItemSize q"
proof -
  let ?n = "unat (uxLength q)" and ?z = "unat (uxItemSize q)" and ?m = "unat (uxMessagesWaiting q)"
  from size have z: "0 < ?z" "uxItemSize q \<noteq> 0" by (auto simp: counter_simps)
  note facts = queue_inv_facts [OF inv]
  obtain r where r: "r < ?n" "read_slot q = r" "pcReadFrom q = r * ?z"
      "pcWriteTo q = ((r + 1 + ?m) mod ?n) * ?z"
    using queue_inv_slots [OF inv size] by blast
  define r' where "r' = (r + (?n - 1)) mod ?n"
  have r': "r' < ?n" using facts(2) by (simp add: r'_def)
  have mn: "?m < ?n" using room by (simp add: word_less_nat_alt)
  have m1: "unat (uxMessagesWaiting q + 1) = ?m + 1" using room by (rule unat_inc)
  define q' where "q' = q\<lparr>storage := overwrite (storage q) (r * ?z) item,
      pcReadFrom := r' * ?z, uxMessagesWaiting := uxMessagesWaiting q + 1\<rparr>"
  have bound: "r * ?z + ?z \<le> length (storage q)" using r(1) facts(3) slot_bound by metis
  have step: "(if r * ?z < head_ptr q + ?z then pcTail q - ?z else r * ?z - ?z) = r' * ?z"
    unfolding facts(1,4) r'_def add_0 by (rule mod_step_back [OF r(1) z(1)])
  have pos: "(queueSEND_TO_FRONT = queueSEND_TO_BACK) = False"
      "(queueSEND_TO_FRONT = queueOVERWRITE) = False" by simp_all
  have "copy_to_queue q item queueSEND_TO_FRONT = Some q'"
    using z(2) bound by (simp only: copy_to_queue_def Let_def step pos simp_thms if_True if_False r(3) q'_def)
  moreover have "queue_inv q'"
  proof -
    have "(r' + 1 + (?m + 1)) mod ?n = (r + 1 + ?m) mod ?n"
      using mod_pred_shift [OF facts(2), of r "?m + 1"] by (simp add: r'_def)
    moreover have "uxMessagesWaiting q + 1 \<le> uxLength q"
      using room by (simp add: inc_le)
    ultimately show ?thesis
      by (intro queue_invI [where r = r'])
        (use r r' m1 facts bound item in \<open>auto simp: q'_def length_overwrite\<close>)
  qed
  moreover have "queue_content q' = item # queue_content q"
  proof -
    have sl: "slot q' ((r + i) mod ?n) = (if i = 0 then item else slot q ((r + i) mod ?n))"
      if "i \<le> ?m" for i
    proof -
      have "r = (r + i) mod ?n \<longleftrightarrow> i = 0"
        using mod_ring_inj [of 0 ?n i r] that mn r(1) by auto
      then show ?thesis
        using chunk_overwrite_slot [OF facts(3) item r(1), of "(r + i) mod ?n"] facts(2)
        by (simp add: slot_def q'_def)
    qed
    have "queue_content q' = map (\<lambda>i. slot q' ((r + i) mod ?n)) [0..<?m + 1]"
      using mod_pred_shift [OF facts(2), of r] z(1) m1
      by (simp add: queue_content_def read_slot_def q'_def r'_def)
    also have "\<dots> = slot q' (r mod ?n) # map (\<lambda>i. slot q' ((r + Suc i) mod ?n)) [0..<?m]"
      by (simp add: upt_conv_Cons map_Suc_upt [symmetric] del: upt_Suc)
    also have "\<dots> = item # queue_content q"
      using sl [of 0] sl [of "Suc i" for i] r(2) by (simp add: queue_content_def)
    finally show ?thesis .
  qed
  ultimately show ?thesis by (auto simp: q'_def)
qed

lemma copy_to_queue_overwrite:
  assumes inv: "queue_inv q" and one: "uxLength q = 1"
    and item: "length item = unat (uxItemSize q)" and size: "0 < uxItemSize q"
  shows "\<exists>q'. copy_to_queue q item queueOVERWRITE = Some q' \<and> queue_inv q' \<and>
     queue_content q' = [item] \<and> uxLength q' = uxLength q \<and> uxItemSize q' = uxItemSize q"
proof -
  let ?z = "unat (uxItemSize q)"
  from size have z: "0 < ?z" "uxItemSize q \<noteq> 0" by (auto simp: counter_simps)
  note facts = queue_inv_facts [OF inv]
  have p: "pcReadFrom q = 0" "pcWriteTo q = 0"
    using inv one by (auto simp: queue_inv_def)
  have len: "length (storage q) = ?z" using facts(3) one by simp
  have m: "(if 0 < uxMessagesWaiting q then uxMessagesWaiting q - 1 else uxMessagesWaiting q) + 1 = 1"
  proof -
    have "uxMessagesWaiting q = 0 \<or> uxMessagesWaiting q = 1"
      using facts(5) one by (auto simp: word_unat_eq_iff word_le_nat_alt le_Suc_eq)
    then show ?thesis by auto
  qed
  define q' where "q' = q\<lparr>storage := item, pcReadFrom := 0, uxMessagesWaiting := 1\<rparr>"
  have "copy_to_queue q item queueOVERWRITE = Some q'"
    using z p len facts(1,4) one item m
    by (simp add: copy_to_queue_def Let_def q'_def overwrite_def)
  moreover have "queue_inv q'"
    using inv one p item len by (auto simp: queue_inv_def q'_def head_ptr_def)
  moreover have "queue_content q' = [item]"
    using one item by (simp add: queue_content_def q'_def read_slot_def slot_def chunk_def)
  ultimately show ?thesis by (auto simp: q'_def)
qed

lemma prvCopyDataFromQueue_head:
  assumes inv: "queue_inv q" and some: "0 < uxMessagesWaiting q"
  shows "\<exists>q1. prvCopyDataFromQueue q = Some (q1, hd (queue_content q)) \<and>
     (\<exists>r. q1 = q\<lparr>pcReadFrom := r\<rparr>) \<and>
     queue_inv (q1\<lparr>uxMessagesWaiting := uxMessagesWaiting q - 1\<rparr>) \<and>
     queue_content (q1\<lparr>uxMessagesWaiting := uxMessagesWaiting q - 1\<rparr>) = tl (queue_content q)"
proof (cases "uxItemSize q = 0")
  case True
  have le: "uxMessagesWaiting q - 1 \<le> uxLength q"
    using queue_inv_facts(5) [OF inv] some by (simp add: word_le_nat_alt counter_simps)
  have ne: "replicate (unat (uxMessagesWaiting q)) [] \<noteq> []" "unat (uxMessagesWaiting q) \<noteq> 0"
    using some by (auto simp: counter_simps)
  have "queue_inv (q\<lparr>uxMessagesWaiting := uxMessagesWaiting q - 1\<rparr>)"
    using inv True le by (auto simp: queue_inv_no_size head_ptr_def)
  moreover have "hd (queue_content q) = []"
    "queue_content (q\<lparr>uxMessagesWaiting := uxMessagesWaiting q - 1\<rparr>) = tl (queue_content q)"
    using True some ne by (simp_all add: queue_content_no_size counter_simps tl_replicate)
  moreover have "\<exists>r. q = q\<lparr>pcReadFrom := r\<rparr>" by (rule exI [of _ "pcReadFrom q"]) simp
  ultimately show ?thesis using True unfolding prvCopyDataFromQueue_def by auto
next
  case False
  let ?n = "unat (uxLength q)" and ?z = "unat (uxItemSize q)" and ?m = "unat (uxMessagesWaiting q)"
  from False have z: "0 < ?z" "0 < uxItemSize q" by (auto simp: unat_gt_0 word_gt_0)
  note facts = queue_inv_facts [OF inv]
  obtain r where r: "r < ?n" "read_slot q = r" "pcReadFrom q = r * ?z"
      "pcWriteTo q = ((r + 1 + ?m) mod ?n) * ?z"
    using queue_inv_slots [OF inv z(2)] by blast
  define r' where "r' = (r + 1) mod ?n"
  have r': "r' < ?n" using facts(2) by (simp add: r'_def)
  have m: "unat (uxMessagesWaiting q - 1) = ?m - 1" "0 < ?m" using some by (auto simp: counter_simps)
  have le: "uxMessagesWaiting q - 1 \<le> uxLength q"
    using facts(5) some by (simp add: word_le_nat_alt counter_simps)
  define q1 where "q1 = q\<lparr>pcReadFrom := r' * ?z\<rparr>"
  define q' where "q' = q1\<lparr>uxMessagesWaiting := uxMessagesWaiting q - 1\<rparr>"
  have bound: "r' * ?z + ?z \<le> length (storage q)" using r' facts(3) slot_bound by metis
  have step: "(if pcTail q \<le> r * ?z + ?z then head_ptr q else r * ?z + ?z) = r' * ?z"
    unfolding facts(1,4) r'_def by (rule mod_step [OF r(1) z(1)])
  have cons: "queue_content q = slot q r' # map (\<lambda>i. slot q ((r + 1 + Suc i) mod ?n)) [0..<?m - 1]"
  proof -
    have "[0..<?m] = 0 # map Suc [0..<?m - 1]"
      using m(2) by (simp add: upt_conv_Cons map_Suc_upt)
    then show ?thesis using r(2) by (simp add: queue_content_def r'_def)
  qed
  have "prvCopyDataFromQueue q = Some (q1, hd (queue_content q))"
    using False bound unfolding cons
    by (simp only: prvCopyDataFromQueue_def Let_def step r(3) simp_thms if_True list.sel slot_def q1_def)
  moreover have "queue_inv q'"
  proof -
    have "(r' + 1 + (?m - 1)) mod ?n = (r + 1 + ?m) mod ?n"
      using m(2) by (simp add: r'_def mod_simps)
    then show ?thesis
      by (intro queue_invI [where r = r'])
        (use r r' m le facts in \<open>auto simp: q'_def q1_def\<close>)
  qed
  moreover have "queue_content q' = tl (queue_content q)"
  proof -
    have "Suc (r' + i) mod ?n = Suc (Suc (r + i)) mod ?n" for i
      by (metis Suc_eq_plus1 add_Suc mod_Suc_eq mod_add_left_eq r'_def)
    then show ?thesis
      using z(1) m unfolding cons
      by (simp add: queue_content_def q'_def q1_def read_slot_def slot_def)
  qed
  ultimately show ?thesis using q'_def q1_def by blast
qed

section \<open>One pass of the API functions\<close>

text \<open>
  \<open>queue_send\<close> is the first critical section of \<^verbatim>\<open>xQueueGenericSend\<close> (and the one of
  \<^verbatim>\<open>xQueueGenericSendFromISR\<close>) as far as the queue is concerned: \<open>True\<close> is \<^verbatim>\<open>pdPASS\<close>, \<open>False\<close> that the
  queue was full. \<open>queue_receive\<close> is the same part of \<^verbatim>\<open>xQueueGenericReceive\<close>: \<open>None\<close> in the second
  component says that the queue was empty. \<open>me\<close> is the calling task, which becomes the holder
  when the queue is a mutex.
\<close>

definition queue_send :: "Queue_t \<Rightarrow> byte list \<Rightarrow> queue_position \<Rightarrow> (Queue_t \<times> bool) option" where
  "queue_send q item xCopyPosition =
     (if uxMessagesWaiting q < uxLength q \<or> xCopyPosition = queueOVERWRITE
      then map_option (\<lambda>q'. (q', True)) (copy_to_queue q item xCopyPosition)
      else Some (q, False))"

definition queue_receive ::
  "bool \<Rightarrow> task option \<Rightarrow> Queue_t \<Rightarrow> (Queue_t \<times> byte list option) option" where
  "queue_receive xJustPeeking me q =
     (if 0 < uxMessagesWaiting q then
        case prvCopyDataFromQueue q of None \<Rightarrow> None
        | Some (q1, item) \<Rightarrow>
            if xJustPeeking then Some (q1\<lparr>pcReadFrom := pcReadFrom q\<rparr>, Some item)
            else let q2 = q1\<lparr>uxMessagesWaiting := uxMessagesWaiting q - 1\<rparr> in
                 Some (if is_mutex q2 then q2\<lparr>pxMutexHolder := me\<rparr> else q2, Some item)
      else Some (q, None))"

lemma holder_irrelevant [simp]:
  "queue_inv (q\<lparr>pxMutexHolder := h\<rparr>) = queue_inv q"
  "queue_content (q\<lparr>pxMutexHolder := h\<rparr>) = queue_content q"
  by (simp_all add: queue_inv_def queue_content_def read_slot_def slot_def)

lemma waiting_lists_irrelevant [simp]:
  "queue_inv (q\<lparr>xTasksWaitingToSend := l\<rparr>) = queue_inv q"
  "queue_content (q\<lparr>xTasksWaitingToSend := l\<rparr>) = queue_content q"
  "queue_inv (q\<lparr>xTasksWaitingToReceive := l\<rparr>) = queue_inv q"
  "queue_content (q\<lparr>xTasksWaitingToReceive := l\<rparr>) = queue_content q"
  by (simp_all add: queue_inv_def queue_content_def read_slot_def slot_def)

lemma queue_room_iff:
  "queue_inv q \<Longrightarrow> length (queue_content q) < unat (uxLength q) \<longleftrightarrow> uxMessagesWaiting q < uxLength q"
  by (simp add: word_less_nat_alt)

lemma queue_nonempty_iff: "queue_content q \<noteq> [] \<longleftrightarrow> 0 < uxMessagesWaiting q"
  by (metis length_greater_0_conv length_queue_content unat_pos_iff)

lemma queue_receive_peek:
  assumes "queue_inv q" "0 < uxMessagesWaiting q"
  shows "queue_receive True me q = Some (q, Some (hd (queue_content q)))"
proof -
  obtain r where "prvCopyDataFromQueue q = Some (q\<lparr>pcReadFrom := r\<rparr>, hd (queue_content q))"
    using prvCopyDataFromQueue_head [OF assms] by blast
  then show ?thesis using assms(2) by (simp add: queue_receive_def)
qed

lemma queue_receive_head:
  assumes "queue_inv q" "0 < uxMessagesWaiting q"
  shows "\<exists>q'. queue_receive False me q = Some (q', Some (hd (queue_content q))) \<and> queue_inv q' \<and>
     queue_content q' = tl (queue_content q) \<and> uxLength q' = uxLength q \<and>
     uxItemSize q' = uxItemSize q \<and> uxMessagesWaiting q' = uxMessagesWaiting q - 1"
proof -
  obtain r where r: "prvCopyDataFromQueue q = Some (q\<lparr>pcReadFrom := r\<rparr>, hd (queue_content q))"
      "queue_inv (q\<lparr>pcReadFrom := r, uxMessagesWaiting := uxMessagesWaiting q - 1\<rparr>)"
      "queue_content (q\<lparr>pcReadFrom := r, uxMessagesWaiting := uxMessagesWaiting q - 1\<rparr>)
         = tl (queue_content q)"
    using prvCopyDataFromQueue_head [OF assms] by blast
  then show ?thesis using assms(2) by (auto simp: queue_receive_def Let_def)
qed

section \<open>The contract of a bounded queue\<close>

datatype 'i queue_op = Send 'i | Receive

fun queue_script ::
  "('q \<Rightarrow> 'i \<Rightarrow> ('q \<times> bool) option) \<Rightarrow> ('q \<Rightarrow> ('q \<times> 'i option) option) \<Rightarrow>
   'q \<Rightarrow> 'i queue_op list \<Rightarrow> ('q \<times> 'i list \<times> 'i list) option" where
  "queue_script send receive q [] = Some (q, [], [])"
| "queue_script send receive q (Send x # ops) =
     (case send q x of None \<Rightarrow> None
      | Some (q', ok) \<Rightarrow> map_option (\<lambda>(t, i, out). (t, (if ok then x # i else i), out))
                           (queue_script send receive q' ops))"
| "queue_script send receive q (Receive # ops) =
     (case receive q of None \<Rightarrow> None
      | Some (q', r) \<Rightarrow> map_option (\<lambda>(t, i, out). (t, i, (case r of None \<Rightarrow> out | Some x \<Rightarrow> x # out)))
                          (queue_script send receive q' ops))"

fun sends_ok :: "('i \<Rightarrow> bool) \<Rightarrow> 'i queue_op list \<Rightarrow> bool" where
  "sends_ok ok [] = True"
| "sends_ok ok (Send x # ops) = (ok x \<and> sends_ok ok ops)"
| "sends_ok ok (Receive # ops) = sends_ok ok ops"

locale bounded_queue =
  fixes inv :: "'q \<Rightarrow> bool"
    and content :: "'q \<Rightarrow> 'i list"
    and cap :: "'q \<Rightarrow> nat"
    and ok :: "'q \<Rightarrow> 'i \<Rightarrow> bool"
    and send :: "'q \<Rightarrow> 'i \<Rightarrow> ('q \<times> bool) option"
    and receive :: "'q \<Rightarrow> ('q \<times> 'i option) option"
  assumes bound: "inv q \<Longrightarrow> length (content q) \<le> cap q"
    and send_room: "inv q \<Longrightarrow> ok q x \<Longrightarrow> length (content q) < cap q \<Longrightarrow>
      \<exists>q'. send q x = Some (q', True) \<and> inv q' \<and> content q' = content q @ [x] \<and>
           cap q' = cap q \<and> ok q' = ok q"
    and send_full: "inv q \<Longrightarrow> length (content q) = cap q \<Longrightarrow> send q x = Some (q, False)"
    and receive_some: "inv q \<Longrightarrow> content q \<noteq> [] \<Longrightarrow>
      \<exists>q'. receive q = Some (q', Some (hd (content q))) \<and> inv q' \<and> content q' = tl (content q) \<and>
           cap q' = cap q \<and> ok q' = ok q"
    and receive_none: "inv q \<Longrightarrow> content q = [] \<Longrightarrow> receive q = Some (q, None)"
begin

lemma send_then_receive_empty:
  assumes "inv q" "ok q x" "content q = []" "0 < cap q"
  shows "\<exists>q1 q2. send q x = Some (q1, True) \<and> receive q1 = Some (q2, Some x) \<and> inv q2 \<and>
    content q2 = []"
proof -
  obtain q1 where "send q x = Some (q1, True)" "inv q1" "content q1 = [x]"
    using send_room [of q x] assms by auto
  then show ?thesis using receive_some [of q1] by auto
qed

lemma script_fifo:
  "inv q \<Longrightarrow> sends_ok (ok q) ops \<Longrightarrow>
   \<exists>q' i out. queue_script send receive q ops = Some (q', i, out) \<and> inv q' \<and>
     content q @ i = out @ content q' \<and> cap q' = cap q \<and> length (content q') \<le> cap q"
proof (induction ops arbitrary: q)
  case Nil
  then show ?case by (simp add: bound)
next
  case (Cons op ops)
  show ?case
  proof (cases op)
    case (Send x)
    show ?thesis
    proof (cases "length (content q) < cap q")
      case True
      then obtain q1 where "send q x = Some (q1, True)" "inv q1" "content q1 = content q @ [x]"
          "cap q1 = cap q" "ok q1 = ok q"
        using send_room [of q x] Cons.prems Send by auto
      then show ?thesis using Cons.IH [of q1] Cons.prems Send by fastforce
    next
      case False
      then have "send q x = Some (q, False)"
        using send_full bound Cons.prems(1) by (metis le_antisym not_le)
      then show ?thesis using Cons.IH [of q] Cons.prems Send by fastforce
    qed
  next
    case Receive
    show ?thesis
    proof (cases "content q")
      case Nil
      then show ?thesis using receive_none [of q] Cons.IH [of q] Cons.prems Receive by fastforce
    next
      case (Cons x xs)
      then obtain q1 where "receive q = Some (q1, Some x)" "inv q1" "content q1 = xs"
          "cap q1 = cap q" "ok q1 = ok q"
        using receive_some [of q] Cons.prems by auto
      then show ?thesis using Cons.IH [of q1] Cons.prems Receive \<open>content q = x # xs\<close> by fastforce
    qed
  qed
qed

end

interpretation rq: bounded_queue queue_inv queue_content "\<lambda>q. unat (uxLength q)"
    "\<lambda>q x. length x = unat (uxItemSize q)" "\<lambda>q x. queue_send q x queueSEND_TO_BACK"
    "queue_receive False me" for me
proof unfold_locales
  fix q :: Queue_t and x :: "byte list"
  assume inv: "queue_inv q"
  show "length (queue_content q) \<le> unat (uxLength q)"
    using queue_inv_facts(5) [OF inv] by (simp add: word_le_nat_alt)
  show "queue_send q x queueSEND_TO_BACK = Some (q, False)"
    if "length (queue_content q) = unat (uxLength q)"
    using that by (simp add: queue_send_def word_less_nat_alt)
  show "\<exists>q'. queue_send q x queueSEND_TO_BACK = Some (q', True) \<and> queue_inv q' \<and>
      queue_content q' = queue_content q @ [x] \<and> unat (uxLength q') = unat (uxLength q) \<and>
      (\<lambda>x. length x = unat (uxItemSize q')) = (\<lambda>x. length x = unat (uxItemSize q))"
    if "length x = unat (uxItemSize q)" "length (queue_content q) < unat (uxLength q)"
    using copy_to_queue_back [OF inv, of x] that queue_room_iff [OF inv]
    by (auto simp: queue_send_def)
  show "\<exists>q'. queue_receive False me q = Some (q', Some (hd (queue_content q))) \<and> queue_inv q' \<and>
      queue_content q' = tl (queue_content q) \<and> unat (uxLength q') = unat (uxLength q) \<and>
      (\<lambda>x. length x = unat (uxItemSize q')) = (\<lambda>x. length x = unat (uxItemSize q))"
    if "queue_content q \<noteq> []"
    using queue_receive_head [OF inv, of me] that by (fastforce simp: queue_nonempty_iff)
  show "queue_receive False me q = Some (q, None)" if "queue_content q = []"
    using that queue_nonempty_iff [of q] by (simp add: queue_receive_def)
qed

section \<open>Binary semaphores\<close>

text \<open>
  The contract the callers of \<^verbatim>\<open>xSemaphoreTake(_, portMAX_DELAY)\<close> and \<^verbatim>\<open>xSemaphoreGive\<close> rely on:
  a take of a semaphore that is not given does not return before somebody gives it, and
  gives do not accumulate.
\<close>

locale binary_semaphore =
  fixes sinv :: "'q \<Rightarrow> bool"
    and given :: "'q \<Rightarrow> bool"
    and take_sem :: "'q \<Rightarrow> 'q option"
    and give_sem :: "'q \<Rightarrow> 'q"
  assumes take_given: "sinv q \<Longrightarrow> given q \<Longrightarrow> \<exists>q'. take_sem q = Some q' \<and> sinv q' \<and> \<not> given q'"
    and take_taken: "sinv q \<Longrightarrow> \<not> given q \<Longrightarrow> take_sem q = None"
    and give_inv: "sinv q \<Longrightarrow> sinv (give_sem q)"
    and give_given: "sinv q \<Longrightarrow> given (give_sem q)"
begin

lemma take_iff: "sinv q \<Longrightarrow> (\<exists>q'. take_sem q = Some q') \<longleftrightarrow> given q"
  using take_given take_taken by fastforce

lemma take_Some:
  "sinv q \<Longrightarrow> take_sem q = Some q' \<Longrightarrow> given q \<and> sinv q' \<and> \<not> given q'"
  using take_given [of q] take_taken [of q] by (cases "given q") auto

lemma give_take: "sinv q \<Longrightarrow> \<exists>q'. take_sem (give_sem q) = Some q' \<and> sinv q' \<and> \<not> given q'"
  using take_given give_inv give_given by blast

lemma gives_do_not_accumulate:
  "sinv q \<Longrightarrow> \<exists>q'. take_sem (give_sem (give_sem q)) = Some q' \<and> take_sem q' = None"
  using give_take [of "give_sem q"] give_inv take_taken by blast

end

definition xSemaphoreTake :: "task option \<Rightarrow> Queue_t \<Rightarrow> Queue_t option" where
  "xSemaphoreTake me q =
     (case queue_receive False me q of
        Some (q', Some _) \<Rightarrow> Some q'
      | _ \<Rightarrow> None)"

definition xSemaphoreGive :: "Queue_t \<Rightarrow> Queue_t" where
  "xSemaphoreGive q =
     (case queue_send q [] queueSEND_TO_BACK of Some (q', _) \<Rightarrow> q' | None \<Rightarrow> q)"

definition bin_sem :: "Queue_t \<Rightarrow> bool" where
  "bin_sem q \<longleftrightarrow> queue_inv q \<and> uxItemSize q = 0 \<and> uxLength q = 1"

definition sem_given :: "Queue_t \<Rightarrow> bool" where
  "sem_given q \<longleftrightarrow> 0 < uxMessagesWaiting q"

lemma bin_sem_counts: "bin_sem q \<Longrightarrow> uxMessagesWaiting q = 0 \<or> uxMessagesWaiting q = 1"
  using queue_inv_facts(5) [of q]
  by (auto simp: bin_sem_def word_unat_eq_iff word_le_nat_alt le_Suc_eq)

interpretation sem: binary_semaphore bin_sem sem_given "xSemaphoreTake me" xSemaphoreGive for me
proof unfold_locales
  fix q :: Queue_t
  assume s: "bin_sem q"
  then have inv: "queue_inv q" by (simp add: bin_sem_def)
  show "\<exists>q'. xSemaphoreTake me q = Some q' \<and> bin_sem q' \<and> \<not> sem_given q'" if "sem_given q"
  proof -
    obtain q' where q': "queue_receive False me q = Some (q', Some (hd (queue_content q)))"
        "queue_inv q'" "uxLength q' = uxLength q" "uxItemSize q' = uxItemSize q"
        "uxMessagesWaiting q' = uxMessagesWaiting q - 1"
      using queue_receive_head [OF inv, of me] \<open>sem_given q\<close> by (auto simp: sem_given_def)
    then show ?thesis
      using s bin_sem_counts [OF s] \<open>sem_given q\<close>
      by (auto simp: xSemaphoreTake_def bin_sem_def sem_given_def)
  qed
  show "xSemaphoreTake me q = None" if "\<not> sem_given q"
    using that by (simp add: xSemaphoreTake_def queue_receive_def sem_given_def)
  have full: "uxMessagesWaiting q < uxLength q \<or> uxMessagesWaiting q = 1"
    using s bin_sem_counts [OF s] by (auto simp: bin_sem_def)
  have "bin_sem (xSemaphoreGive q) \<and> sem_given (xSemaphoreGive q)"
  proof (cases "uxMessagesWaiting q < uxLength q")
    case True
    then have zero: "uxMessagesWaiting q = 0"
      using s bin_sem_counts [OF s] by (auto simp: bin_sem_def)
    obtain q' where "copy_to_queue q [] queueSEND_TO_BACK = Some q'" "queue_inv q'"
        "uxMessagesWaiting q' = uxMessagesWaiting q + 1" "uxLength q' = uxLength q"
        "uxItemSize q' = uxItemSize q"
      using copy_to_queue_back [OF inv True, of "[]"] s by (auto simp: bin_sem_def)
    then show ?thesis using True s zero
      by (simp add: xSemaphoreGive_def queue_send_def bin_sem_def sem_given_def)
  next
    case False
    then show ?thesis using s full
      by (auto simp: xSemaphoreGive_def queue_send_def sem_given_def)
  qed
  then show "bin_sem (xSemaphoreGive q)" "sem_given (xSemaphoreGive q)" by auto
qed

text \<open>
  The macros that create the semaphores the firmware uses. \<^verbatim>\<open>vSemaphoreCreateBinary\<close> gives the
  new semaphore once; \<^verbatim>\<open>xQueueCreateMutex\<close> turns the queue into a mutex and gives it.
\<close>

definition vSemaphoreCreateBinary :: "(nat \<Rightarrow> byte list option) \<Rightarrow> Queue_t option" where
  "vSemaphoreCreateBinary pvPortMalloc =
     (case xQueueGenericCreate pvPortMalloc 1 0 of
        Some (Some q) \<Rightarrow> Some (xSemaphoreGive q) | _ \<Rightarrow> None)"

definition prvInitialiseMutex :: "Queue_t \<Rightarrow> Queue_t" where
  "prvInitialiseMutex q =
     xSemaphoreGive (q\<lparr>pxMutexHolder := None, pcHead := None, uxRecursiveCallCount := 0\<rparr>)"

definition xQueueCreateMutex :: "(nat \<Rightarrow> byte list option) \<Rightarrow> Queue_t option" where
  "xQueueCreateMutex pvPortMalloc =
     (case xQueueGenericCreate pvPortMalloc 1 0 of
        Some (Some q) \<Rightarrow> Some (prvInitialiseMutex q) | _ \<Rightarrow> None)"

lemma new_bin_sem:
  "bin_sem (prvInitialiseNewQueue 1 0 (raw_queue []))"
  using prvInitialiseNewQueue_inv(1) [of 1 0 "raw_queue []"]
  by (simp add: bin_sem_def raw_queue_def prvInitialiseNewQueue_def reset_new_def reset_ring_def)

lemma vSemaphoreCreateBinary_given:
  assumes "pvPortMalloc 0 = Some []"
  shows "\<exists>q. vSemaphoreCreateBinary pvPortMalloc = Some q \<and> bin_sem q \<and> sem_given q"
  using assms new_bin_sem sem.give_inv sem.give_given
  by (simp add: vSemaphoreCreateBinary_def xQueueGenericCreate_def xQueueSizeInBytes_def)

lemma xQueueCreateMutex_given:
  assumes "pvPortMalloc 0 = Some []"
  shows "\<exists>q. xQueueCreateMutex pvPortMalloc = Some q \<and> bin_sem q \<and> sem_given q"
proof -
  let ?q = "prvInitialiseNewQueue 1 0 (raw_queue [])"
  let ?m = "?q\<lparr>pxMutexHolder := None, pcHead := None, uxRecursiveCallCount := 0\<rparr>"
  have "bin_sem ?m"
    by (simp add: bin_sem_def queue_inv_no_size prvInitialiseNewQueue_def reset_new_def
        reset_ring_def raw_queue_def head_ptr_def)
  then show ?thesis
    using assms sem.give_inv sem.give_given
    by (simp add: xQueueCreateMutex_def xQueueGenericCreate_def xQueueSizeInBytes_def
        prvInitialiseMutex_def)
qed

section \<open>Properties\<close>

text \<open>
  C25. A queue is a bounded first-in-first-out buffer of fixed-size items: on a well-formed
  queue, any sequence of non-blocking sends (to the back) and receives runs without leaving
  the storage area, the items received followed by the items still stored are the items that
  were there followed by the accepted ones, in order, and never more than \<^verbatim>\<open>uxLength\<close> items are
  stored.
\<close>

theorem queue_is_bounded_fifo:
  assumes "queue_inv q" "sends_ok (\<lambda>x. length x = unat (uxItemSize q)) ops"
  shows "\<exists>q' accepted received.
     queue_script (\<lambda>q x. queue_send q x queueSEND_TO_BACK) (queue_receive False me) q ops
       = Some (q', accepted, received) \<and> queue_inv q' \<and>
     queue_content q @ accepted = received @ queue_content q' \<and>
     uxLength q' = uxLength q \<and> length (queue_content q') \<le> unat (uxLength q)"
  using rq.script_fifo [OF assms] by (simp add: word_unat_eq_iff)

theorem queue_is_bounded_fifo_witness:
  "let q = prvInitialiseNewQueue 2 1 (raw_queue [0, 0]);
       ops = [Send [7], Send [8], Send [9], Receive, Send [5]] in
   \<exists>q' accepted received.
     queue_script (\<lambda>q x. queue_send q x queueSEND_TO_BACK) (queue_receive False None) q ops
       = Some (q', accepted, received) \<and> queue_inv q' \<and>
     queue_content q @ accepted = received @ queue_content q' \<and>
     uxLength q' = uxLength q \<and> length (queue_content q') \<le> unat (uxLength q)"
  unfolding Let_def
  by (rule queue_is_bounded_fifo)
    (simp_all add: prvInitialiseNewQueue_inv raw_queue_def,
     simp add: prvInitialiseNewQueue_def reset_new_def reset_ring_def)

text \<open>
  Sending to the front puts an item ahead of everything stored, overwriting a queue of
  length one leaves exactly the new item whether or not it was full, and peeking returns the
  oldest item without changing the queue.
\<close>

theorem queue_front_overwrite_peek:
  assumes "queue_inv q" "0 < uxItemSize q" "length item = unat (uxItemSize q)"
  shows "(uxMessagesWaiting q < uxLength q \<longrightarrow>
            (\<exists>q'. queue_send q item queueSEND_TO_FRONT = Some (q', True) \<and> queue_inv q' \<and>
               queue_content q' = item # queue_content q)) \<and>
         (uxLength q = 1 \<longrightarrow>
            (\<exists>q'. queue_send q item queueOVERWRITE = Some (q', True) \<and> queue_inv q' \<and>
               queue_content q' = [item])) \<and>
         (0 < uxMessagesWaiting q \<longrightarrow>
            queue_receive True me q = Some (q, Some (hd (queue_content q))))"
  using copy_to_queue_front [OF assms(1) _ assms(3,2)] copy_to_queue_overwrite [OF assms(1) _ assms(3,2)]
    queue_receive_peek [OF assms(1)]
  by (auto simp: queue_send_def)

definition one_item_queue :: Queue_t where
  "one_item_queue = prvInitialiseNewQueue 1 2 (raw_queue [1, 2])"

theorem queue_front_overwrite_peek_witness:
  "queue_inv one_item_queue \<and> 0 < uxItemSize one_item_queue \<and>
   (\<exists>q'. queue_send one_item_queue [3, 4] queueOVERWRITE = Some (q', True) \<and> queue_inv q' \<and>
      queue_content q' = [[3, 4]])"
proof -
  have f: "queue_inv one_item_queue" "uxItemSize one_item_queue = 2" "uxLength one_item_queue = 1"
    by (simp_all add: one_item_queue_def prvInitialiseNewQueue_inv raw_queue_def)
      (simp_all add: prvInitialiseNewQueue_def reset_new_def reset_ring_def)
  with queue_front_overwrite_peek [of one_item_queue "[3, 4]" None] show ?thesis by simp
qed

text \<open>
  A queue created for a size in bytes that fits 32 bits is well formed and empty. If
  the 32-bit product of length and item size wraps, the area allocated is smaller than the
  items the queue promises to hold, and when it does not even hold one item the first send
  writes outside it.
\<close>

theorem xQueueGenericCreate_size:
  assumes "n \<noteq> 0" "\<And>k. pvPortMalloc k = Some (replicate k 0)"
  shows "\<exists>q. xQueueGenericCreate pvPortMalloc n z = Some (Some q) \<and>
     (unat n * unat z < 2 ^ 32 \<longrightarrow> queue_inv q \<and> queue_content q = [] \<and> uxLength q = n \<and>
        uxItemSize q = z) \<and>
     (2 ^ 32 \<le> unat n * unat z \<longrightarrow> length (storage q) < unat n * unat z \<and>
        (unat (n * z) < unat z \<longrightarrow> queue_send q item queueSEND_TO_BACK = None))"
proof -
  let ?q = "prvInitialiseNewQueue n z (raw_queue (replicate (unat (n * z)) 0))"
  have size: "xQueueSizeInBytes n z = n * z" by (simp add: xQueueSizeInBytes_def)
  have "xQueueGenericCreate pvPortMalloc n z = Some (Some ?q)"
    using assms by (simp add: xQueueGenericCreate_def size)
  moreover have fields: "storage ?q = replicate (unat (n * z)) 0" "uxLength ?q = n" "uxItemSize ?q = z"
      "uxMessagesWaiting ?q = 0" "pcWriteTo ?q = 0"
    by (simp_all add: prvInitialiseNewQueue_def reset_new_def reset_ring_def raw_queue_def head_ptr_def)
  moreover have "queue_inv ?q \<and> queue_content ?q = []" if "unat n * unat z < 2 ^ 32"
    using prvInitialiseNewQueue_inv [of n z "raw_queue (replicate (unat (n * z)) 0)"] that assms(1)
      unat_mult_lem [of n z] by (simp add: raw_queue_def)
  moreover have "unat (n * z) < unat n * unat z" if "2 ^ 32 \<le> unat n * unat z"
  proof -
    have "unat (n * z) < 2 ^ LENGTH(32)" by (rule unsigned_less)
    with that show ?thesis by simp
  qed
  moreover have "queue_send ?q item queueSEND_TO_BACK = None" if "unat (n * z) < unat z"
  proof -
    have "z \<noteq> 0" using that by (metis not_less_zero unat_0)
    with that have "copy_to_queue ?q item queueSEND_TO_BACK = None"
      by (intro copy_to_queue_outside) (simp_all only: fields length_replicate add_0 simp_thms)
    then show ?thesis
      using assms(1) by (simp only: queue_send_def fields) (simp add: word_gt_0)
  qed
  ultimately show ?thesis by auto
qed

theorem xQueueGenericCreate_size_witness:
  "\<exists>q. xQueueGenericCreate (\<lambda>k. Some (replicate k 0)) 0x20000000 8 = Some (Some q) \<and>
     queue_send q (replicate 8 1) queueSEND_TO_BACK = None"
  using xQueueGenericCreate_size [of "0x20000000" "\<lambda>k. Some (replicate k 0)" 8 "replicate 8 1"]
  by auto

end
