(* ===== verification/I2S_Dma.thy ===== *)
theory I2S_Dma
  imports I2S_Regs RTOS_Queue "HOL-Library.Multiset"
begin

text \<open>
  The DMA side of \<^verbatim>\<open>components/driver/i2s.c\<close>: the driver object, the allocation and release of a
  ring of DMA buffers, the interrupt handler that passes finished buffers to the tasks through
  a FreeRTOS queue of buffer pointers, and the four functions that move samples.

  Pointers are 32-bit words, 0 is NULL. The memory behind the buffer pointers is the map
  \<open>dma_mem\<close>; an access outside a buffer is the fault \<open>Out_Of_Bounds\<close>. \<^verbatim>\<open>malloc\<close> takes its results
  from the list \<open>mallocs\<close> (0 is a failure), and \<open>live\<close> is the list of blocks allocated and not
  freed. A wait for a buffer with a finite number of ticks is described by the state at the
  end of the wait: the queue then has an item or it does not.
\<close>

section \<open>State\<close>

record lldesc_t =
  desc_addr :: u32
  owner :: bool
  eof :: bool
  sosf :: bool
  desc_length :: nat
  desc_size :: nat
  desc_buf :: u32
  desc_offset :: nat
  desc_empty :: u32

record i2s_dma_t =
  dma_addr :: u32
  buf_arr :: u32
  buf :: "u32 list"
  dma_mem :: "u32 \<Rightarrow> byte list option"
  buf_size :: nat
  rw_pos :: nat
  curr_ptr :: u32
  dma_mux :: "(u32 \<times> Queue_t) option"
  dma_queue :: "(u32 \<times> Queue_t) option"
  desc_arr :: u32
  desc :: "lldesc_t option list"

record i2s_obj_t =
  i2s_num :: nat
  i2s_queue :: "(u32 \<times> Queue_t) option"
  dma_buf_count :: nat
  dma_buf_len :: nat
  rx :: "i2s_dma_t option"
  tx :: "i2s_dma_t option"
  channel_num :: nat
  bytes_per_sample :: nat
  bits_per_sample :: nat
  mode :: u32
  intr_enabled :: bool

record heap =
  mallocs :: "u32 list"
  live :: "u32 list"

definition malloc :: "heap \<Rightarrow> u32 \<times> heap" where
  "malloc h =
     (case mallocs h of
        [] \<Rightarrow> (0, h)
      | a # as \<Rightarrow> (a, h\<lparr>mallocs := as, live := if a = 0 then live h else a # live h\<rparr>))"

definition free :: "u32 \<Rightarrow> heap \<Rightarrow> heap" where
  "free a h = h\<lparr>live := remove1 a (live h)\<rparr>"

section \<open>Release of a DMA ring\<close>

text \<open>
  \<open>destroy_desc\<close> and \<open>destroy_buf\<close> are the two statements of the loop body: an entry of the
  descriptor array that was never written is an indeterminate pointer.
\<close>

definition destroy_desc :: "i2s_dma_t \<Rightarrow> nat \<Rightarrow> heap \<Rightarrow> heap run" where
  "destroy_desc dma k h =
     (if desc_arr dma = 0 then Inr h
      else case desc dma ! k of
        None \<Rightarrow> Inl Uninitialised
      | Some d \<Rightarrow> Inr (if desc_addr d \<noteq> 0 then free (desc_addr d) h else h))"

definition destroy_buf :: "i2s_dma_t \<Rightarrow> nat \<Rightarrow> heap \<Rightarrow> heap" where
  "destroy_buf dma k h = (if buf_arr dma \<noteq> 0 \<and> buf dma ! k \<noteq> 0 then free (buf dma ! k) h else h)"

fun destroy_loop :: "i2s_dma_t \<Rightarrow> nat list \<Rightarrow> heap \<Rightarrow> heap run" where
  "destroy_loop dma [] h = Inr h"
| "destroy_loop dma (k # ks) h =
     run_bind (destroy_desc dma k h) (\<lambda>h1. destroy_loop dma ks (destroy_buf dma k h1))"

definition vQueueDelete :: "(u32 \<times> Queue_t) option \<Rightarrow> heap \<Rightarrow> heap run" where
  "vQueueDelete q h = (case q of None \<Rightarrow> Inl Assert_Failed | Some (a, _) \<Rightarrow> Inr (free a h))"

text \<open>\<open>cnt\<close> is the \<^verbatim>\<open>dma_buf_count\<close> of the port's object, which must exist.\<close>

definition i2s_destroy_dma_queue :: "nat \<Rightarrow> i2s_dma_t option \<Rightarrow> heap \<Rightarrow> (esp_err_t \<times> heap) run" where
  "i2s_destroy_dma_queue cnt dma h =
     (case dma of None \<Rightarrow> Inr (ESP_FAIL, h)
      | Some d \<Rightarrow>
          run_bind (destroy_loop d [0..<cnt] h) (\<lambda>h1.
            let h2 = (if buf_arr d \<noteq> 0 then free (buf_arr d) h1 else h1);
                h3 = (if desc_arr d \<noteq> 0 then free (desc_arr d) h2 else h2) in
            run_bind (vQueueDelete (dma_queue d) h3) (\<lambda>h4.
            run_bind (vQueueDelete (dma_mux d) h4) (\<lambda>h5.
              Inr (ESP_OK, free (dma_addr d) h5)))))"

section \<open>Creation of a DMA ring\<close>

text \<open>
  \<open>alloc_some k\<close> allocates \<open>k\<close> blocks one after the other and stops at the first failure; the
  result has the addresses, the failing one included as 0.
\<close>

fun alloc_some :: "nat \<Rightarrow> heap \<Rightarrow> u32 list \<times> heap" where
  "alloc_some 0 h = ([], h)"
| "alloc_some (Suc k) h =
     (let (a, h1) = malloc h in
      if a = 0 then ([0], h1)
      else let (as, h2) = alloc_some k h1 in (a # as, h2))"

definition zero_dma :: "u32 \<Rightarrow> i2s_dma_t" where
  "zero_dma a = \<lparr>dma_addr = a, buf_arr = 0, buf = [], dma_mem = (\<lambda>_. None), buf_size = 0, rw_pos = 0,
     curr_ptr = 0, dma_mux = None, dma_queue = None, desc_arr = 0, desc = []\<rparr>"

definition blank_desc :: "u32 \<Rightarrow> lldesc_t" where
  "blank_desc a = \<lparr>desc_addr = a, owner = False, eof = False, sosf = False, desc_length = 0,
     desc_size = 0, desc_buf = 0, desc_offset = 0, desc_empty = 0\<rparr>"

text \<open>The loop that fills the descriptors links each to the next one and the last to the first.\<close>

definition link_descs :: "u32 list \<Rightarrow> u32 list \<Rightarrow> nat \<Rightarrow> lldesc_t option list" where
  "link_descs das bufs sz =
     map (\<lambda>k. Some \<lparr>desc_addr = das ! k, owner = True, eof = True, sosf = False, desc_length = sz,
              desc_size = sz, desc_buf = bufs ! k, desc_offset = 0,
              desc_empty = (if k < length das - 1 then das ! (k + 1) else das ! 0)\<rparr>)
       [0..<length das]"

definition pad_to :: "nat \<Rightarrow> 'a \<Rightarrow> 'a list \<Rightarrow> 'a list" where
  "pad_to n x xs = xs @ replicate (n - length xs) x"

text \<open>
  \<^verbatim>\<open>xQueueCreate\<close> and \<^verbatim>\<open>xSemaphoreCreateMutex\<close> allocate one block each; a failed allocation leaves
  the NULL handle in the structure, which the function does not check.
\<close>

definition new_queue :: "u32 \<Rightarrow> u32 \<Rightarrow> heap \<Rightarrow> ((u32 \<times> Queue_t) option \<times> heap) run" where
  "new_queue len isz h =
     (let (a, h1) = malloc h in
      case xQueueGenericCreate (\<lambda>k. if a = 0 then None else Some (replicate k 0)) len isz of
        None \<Rightarrow> Inl Assert_Failed
      | Some None \<Rightarrow> Inr (None, h1)
      | Some (Some q) \<Rightarrow> Inr (Some (a, q), h1))"

definition new_mutex :: "heap \<Rightarrow> ((u32 \<times> Queue_t) option \<times> heap)" where
  "new_mutex h =
     (let (a, h1) = malloc h in
      (map_option (Pair a) (xQueueCreateMutex (\<lambda>k. if a = 0 then None else Some (replicate k 0))), h1))"

definition finish_dma :: "nat \<Rightarrow> nat \<Rightarrow> i2s_dma_t \<Rightarrow> u32 list \<Rightarrow> heap \<Rightarrow> (i2s_dma_t option \<times> heap) run" where
  "finish_dma cnt sz dma das h =
     run_bind (new_queue (of_nat (cnt - 1)) 4 h) (\<lambda>(q, h1).
       let (m, h2) = new_mutex h1 in
       Inr (Some (dma\<lparr>desc := link_descs das (buf dma) sz, dma_queue := q, dma_mux := m, rw_pos := 0,
                      buf_size := sz, curr_ptr := 0\<rparr>), h2))"

definition i2s_create_dma_queue ::
  "nat \<Rightarrow> nat \<Rightarrow> nat \<Rightarrow> heap \<Rightarrow> (i2s_dma_t option \<times> heap) run" where
  "i2s_create_dma_queue sample_size cnt len h =
     (let sz = len * sample_size; (a, h1) = malloc h in
      if a = 0 then Inr (None, h1)
      else
        let (ba, h2) = malloc h1 in
        if ba = 0 then Inr (None, h2)
        else
          let (bs, h3) = alloc_some cnt h2;
              dma = (zero_dma a)\<lparr>buf_arr := ba, buf := pad_to cnt 0 bs,
                       dma_mem := (\<lambda>p. if p \<in> set bs - {0} then Some (replicate sz 0) else None)\<rparr> in
          if 0 \<in> set bs then
            run_bind (i2s_destroy_dma_queue cnt (Some dma) h3) (\<lambda>(_, h4). Inr (None, h4))
          else
            let (da, h4) = malloc h3 in
            if da = 0 then
              run_bind (i2s_destroy_dma_queue cnt (Some dma) h4) (\<lambda>(_, h5). Inr (None, h5))
            else
              let (das, h5) = alloc_some cnt h4;
                  dma2 = dma\<lparr>desc_arr := da,
                             desc := pad_to cnt None (map (Some \<circ> blank_desc) das)\<rparr> in
              if 0 \<in> set das then
                run_bind (i2s_destroy_dma_queue cnt (Some dma2) h5) (\<lambda>(_, h6). Inr (None, h6))
              else finish_dma cnt sz dma2 das h5)"

section \<open>Moving samples\<close>

text \<open>
  The common beginning of the four functions: when the current buffer is used up (or there is
  none yet), take the next one from the queue. The boolean is \<^verbatim>\<open>pdTRUE\<close> or \<^verbatim>\<open>pdFALSE\<close>.
\<close>

definition next_buffer :: "i2s_dma_t \<Rightarrow> (bool \<times> i2s_dma_t) run" where
  "next_buffer d =
     (if rw_pos d = buf_size d \<or> curr_ptr d = 0 then
        case dma_queue d of None \<Rightarrow> Inl Assert_Failed
        | Some (a, q) \<Rightarrow>
            (case queue_receive False None q of
               None \<Rightarrow> Inl Out_Of_Bounds
             | Some (q', None) \<Rightarrow> Inr (False, d)
             | Some (q', Some bs) \<Rightarrow>
                 Inr (True, d\<lparr>dma_queue := Some (a, q'), curr_ptr := of_le32 bs, rw_pos := 0\<rparr>))
      else Inr (True, d))"

definition mem_write :: "i2s_dma_t \<Rightarrow> byte list \<Rightarrow> i2s_dma_t run" where
  "mem_write d bs =
     (case dma_mem d (curr_ptr d) of None \<Rightarrow> Inl Out_Of_Bounds
      | Some m \<Rightarrow>
          if rw_pos d + length bs \<le> length m
          then Inr (d\<lparr>dma_mem := (dma_mem d)(curr_ptr d \<mapsto> overwrite m (rw_pos d) bs),
                      rw_pos := rw_pos d + length bs\<rparr>)
          else Inl Out_Of_Bounds)"

definition mem_read :: "i2s_dma_t \<Rightarrow> nat \<Rightarrow> (byte list \<times> i2s_dma_t) run" where
  "mem_read d n =
     (case dma_mem d (curr_ptr d) of None \<Rightarrow> Inl Out_Of_Bounds
      | Some m \<Rightarrow>
          if rw_pos d + n \<le> length m
          then Inr (chunk m (rw_pos d) n, d\<lparr>rw_pos := rw_pos d + n\<rparr>)
          else Inl Out_Of_Bounds)"

text \<open>\<open>sample\<close> is the object behind the caller's pointer; \<open>n\<close> bytes of it are read.\<close>

definition push_sample :: "nat \<Rightarrow> byte list \<Rightarrow> i2s_dma_t \<Rightarrow> (nat \<times> i2s_dma_t) run" where
  "push_sample n sample d =
     run_bind (next_buffer d) (\<lambda>(ok, d1).
       if \<not> ok then Inr (0, d1)
       else if length sample < n then Inl Out_Of_Bounds
       else run_bind (mem_write d1 (take n sample)) (\<lambda>d2. Inr (n, d2)))"

definition pop_sample :: "nat \<Rightarrow> i2s_dma_t \<Rightarrow> (byte list \<times> i2s_dma_t) run" where
  "pop_sample n d =
     run_bind (next_buffer d) (\<lambda>(ok, d1). if \<not> ok then Inr ([], d1) else mem_read d1 n)"

text \<open>
  The loops of \<^verbatim>\<open>i2s_write_bytes\<close> and \<^verbatim>\<open>i2s_read_bytes\<close>. With a position behind the end of the buffer
  the copy starts outside it whatever its length. \<open>None\<close> is a loop that never ends.
\<close>

partial_function (option) write_loop ::
  "i2s_dma_t \<Rightarrow> byte list \<Rightarrow> nat \<Rightarrow> ((nat \<times> i2s_dma_t) run) option" where
  "write_loop d src writen =
     (if src = [] then Some (Inr (writen, d))
      else case next_buffer d of
        Inl e \<Rightarrow> Some (Inl e)
      | Inr (ok, d1) \<Rightarrow>
          if \<not> ok then Some (Inr (writen, d1))
          else if buf_size d1 < rw_pos d1 then Some (Inl Out_Of_Bounds)
          else
            let n = min (buf_size d1 - rw_pos d1) (length src) in
            case mem_write d1 (take n src) of
              Inl e \<Rightarrow> Some (Inl e)
            | Inr d2 \<Rightarrow> write_loop d2 (drop n src) (writen + n))"

partial_function (option) read_bytes_loop ::
  "i2s_dma_t \<Rightarrow> nat \<Rightarrow> byte list \<Rightarrow> ((byte list \<times> i2s_dma_t) run) option" where
  "read_bytes_loop d sz acc =
     (if sz = 0 then Some (Inr (acc, d))
      else case next_buffer d of
        Inl e \<Rightarrow> Some (Inl e)
      | Inr (ok, d1) \<Rightarrow>
          if \<not> ok then Some (Inr (acc, d1))
          else if buf_size d1 < rw_pos d1 then Some (Inl Out_Of_Bounds)
          else
            let n = min (buf_size d1 - rw_pos d1) sz in
            case mem_read d1 n of
              Inl e \<Rightarrow> Some (Inl e)
            | Inr (bs, d2) \<Rightarrow> read_bytes_loop d2 (sz - n) (acc @ bs))"

definition take_dma_mux :: "i2s_dma_t \<Rightarrow> i2s_dma_t run" where
  "take_dma_mux d =
     (case dma_mux d of None \<Rightarrow> Inl Assert_Failed
      | Some (a, m) \<Rightarrow>
          (case xSemaphoreTake None m of None \<Rightarrow> Inl Blocks_Forever
           | Some m' \<Rightarrow> Inr (d\<lparr>dma_mux := Some (a, m')\<rparr>)))"

definition give_dma_mux :: "i2s_dma_t \<Rightarrow> i2s_dma_t run" where
  "give_dma_mux d =
     (case dma_mux d of None \<Rightarrow> Inl Assert_Failed
      | Some (a, m) \<Rightarrow> Inr (d\<lparr>dma_mux := Some (a, xSemaphoreGive m)\<rparr>))"

definition write_bytes :: "byte list \<Rightarrow> i2s_dma_t \<Rightarrow> ((nat \<times> i2s_dma_t) run) option" where
  "write_bytes src d =
     (case take_dma_mux d of Inl e \<Rightarrow> Some (Inl e)
      | Inr d1 \<Rightarrow>
          map_option (\<lambda>r. run_bind r (\<lambda>(n, d2). run_bind (give_dma_mux d2) (\<lambda>d3. Inr (n, d3))))
            (write_loop d1 src 0))"

definition read_bytes :: "nat \<Rightarrow> i2s_dma_t \<Rightarrow> ((byte list \<times> i2s_dma_t) run) option" where
  "read_bytes sz d =
     (case take_dma_mux d of Inl e \<Rightarrow> Some (Inl e)
      | Inr d1 \<Rightarrow>
          map_option (\<lambda>r. run_bind r (\<lambda>(bs, d2). run_bind (give_dma_mux d2) (\<lambda>d3. Inr (bs, d3))))
            (read_bytes_loop d1 sz []))"

section \<open>The interrupt handler\<close>

datatype i2s_event_type_t = I2S_EVENT_DMA_ERROR | I2S_EVENT_TX_DONE | I2S_EVENT_RX_DONE

definition event_code :: "i2s_event_type_t \<Rightarrow> u32" where
  "event_code t = (case t of I2S_EVENT_DMA_ERROR \<Rightarrow> 0 | I2S_EVENT_TX_DONE \<Rightarrow> 1 | I2S_EVENT_RX_DONE \<Rightarrow> 2)"

text \<open>
  An \<^verbatim>\<open>i2s_event_t\<close> of 8 bytes; its member \<^verbatim>\<open>size\<close> is not initialised by the handler, so its four
  bytes are a parameter.
\<close>

definition event_bytes :: "byte list \<Rightarrow> i2s_event_type_t \<Rightarrow> byte list" where
  "event_bytes pad t = le32 (event_code t) @ pad"

text \<open>
  Putting an item on a queue from the handler: if the queue is full its oldest item is first
  received into the \<^verbatim>\<open>int dummy\<close>, a 4-byte object that receives \<^verbatim>\<open>uxItemSize\<close> bytes.
\<close>

definition isr_put :: "Queue_t \<Rightarrow> byte list \<Rightarrow> Queue_t run" where
  "isr_put q item =
     run_bind
       (if prvIsQueueFull q then
          if 4 < uxItemSize q then Inl Out_Of_Bounds
          else (case queue_receive False None q of None \<Rightarrow> Inl Out_Of_Bounds | Some (q', _) \<Rightarrow> Inr q')
        else Inr q)
       (\<lambda>q1. case queue_send q1 item queueSEND_TO_BACK of None \<Rightarrow> Inl Out_Of_Bounds
             | Some (q2, _) \<Rightarrow> Inr q2)"

definition isr_event :: "byte list \<Rightarrow> i2s_event_type_t \<Rightarrow> i2s_obj_t \<Rightarrow> i2s_obj_t run" where
  "isr_event pad t ob =
     (case i2s_queue ob of None \<Rightarrow> Inr ob
      | Some (a, q) \<Rightarrow> run_bind (isr_put q (event_bytes pad t)) (\<lambda>q'. Inr (ob\<lparr>i2s_queue := Some (a, q')\<rparr>)))"

definition find_desc :: "i2s_dma_t \<Rightarrow> u32 \<Rightarrow> lldesc_t run" where
  "find_desc d a =
     (case find (\<lambda>e. case e of None \<Rightarrow> False | Some l \<Rightarrow> desc_addr l = a) (desc d) of
        Some (Some l) \<Rightarrow> Inr l | _ \<Rightarrow> Inl Out_Of_Bounds)"

definition isr_buffer :: "u32 \<Rightarrow> i2s_dma_t \<Rightarrow> i2s_dma_t run" where
  "isr_buffer finish_desc d =
     run_bind (find_desc d finish_desc) (\<lambda>l.
       case dma_queue d of None \<Rightarrow> Inl Assert_Failed
       | Some (a, q) \<Rightarrow>
           run_bind (isr_put q (le32 (desc_buf l))) (\<lambda>q'. Inr (d\<lparr>dma_queue := Some (a, q')\<rparr>)))"

definition i2s_intr_handler_default ::
  "byte list \<Rightarrow> i2s_obj_t \<Rightarrow> i2s_dev \<Rightarrow> (i2s_obj_t \<times> i2s_dev) run" where
  "i2s_intr_handler_default pad ob r =
     run_bind (if out_dscr_err (int_st r) \<or> in_dscr_err (int_st r)
               then isr_event pad I2S_EVENT_DMA_ERROR ob else Inr ob) (\<lambda>ob1.
     run_bind (case tx ob1 of
                 Some d \<Rightarrow> if out_eof (int_st r) then
                             run_bind (isr_buffer (out_eof_des_addr r) d) (\<lambda>d'.
                               isr_event pad I2S_EVENT_TX_DONE (ob1\<lparr>tx := Some d'\<rparr>))
                           else Inr ob1
               | None \<Rightarrow> Inr ob1) (\<lambda>ob2.
     run_bind (case rx ob2 of
                 Some d \<Rightarrow> if in_suc_eof (int_st r) then
                             run_bind (isr_buffer (in_eof_des_addr r) d) (\<lambda>d'.
                               isr_event pad I2S_EVENT_RX_DONE (ob2\<lparr>rx := Some d'\<rparr>))
                           else Inr ob2
               | None \<Rightarrow> Inr ob2) (\<lambda>ob3.
     Inr (ob3, r\<lparr>int_clr := Clear_status (int_st r)\<rparr>))))"

section \<open>Invariant of a DMA ring\<close>

text \<open>The queue of free (or filled) buffers and the pointers stored in it.\<close>

definition waiting_buffers :: "i2s_dma_t \<Rightarrow> u32 list" where
  "waiting_buffers d =
     (case dma_queue d of None \<Rightarrow> [] | Some (a, q) \<Rightarrow> map of_le32 (queue_content q))"

definition ptr_queue :: "i2s_dma_t \<Rightarrow> bool" where
  "ptr_queue d \<longleftrightarrow>
     (case dma_queue d of None \<Rightarrow> False | Some (a, q) \<Rightarrow> queue_inv q \<and> uxItemSize q = 4)"

definition dma_ok :: "i2s_dma_t \<Rightarrow> bool" where
  "dma_ok d \<longleftrightarrow>
     ptr_queue d \<and> set (waiting_buffers d) \<subseteq> set (buf d) \<and> 0 \<notin> set (buf d) \<and>
     (\<forall>p \<in> set (buf d). map_option length (dma_mem d p) = Some (buf_size d)) \<and>
     0 < buf_size d \<and> rw_pos d \<le> buf_size d \<and> (curr_ptr d = 0 \<or> curr_ptr d \<in> set (buf d)) \<and>
     (\<forall>e \<in> set (desc d). \<exists>l. e = Some l \<and> desc_buf l \<in> set (buf d))"

lemma set_tl_subset: "set (tl xs) \<subseteq> set xs"
  by (cases xs) auto

lemma next_buffer_law:
  assumes "dma_ok d"
  shows "\<exists>ok d1. next_buffer d = Inr (ok, d1) \<and> dma_ok d1 \<and> buf d1 = buf d \<and>
     dma_mem d1 = dma_mem d \<and> buf_size d1 = buf_size d \<and> desc d1 = desc d \<and> dma_mux d1 = dma_mux d \<and>
     (if ok then curr_ptr d1 \<in> set (buf d) \<and> rw_pos d1 < buf_size d \<and> (rw_pos d1 = rw_pos d \<or> rw_pos d1 = 0)
      else d1 = d \<and> waiting_buffers d = [] \<and> (rw_pos d = buf_size d \<or> curr_ptr d = 0))"
proof (cases "rw_pos d = buf_size d \<or> curr_ptr d = 0")
  case False
  then show ?thesis
    using assms by (intro exI [of _ True] exI [of _ d]) (auto simp: next_buffer_def dma_ok_def)
next
  case need: True
  obtain a q where q: "dma_queue d = Some (a, q)" "queue_inv q" "uxItemSize q = 4"
    using assms by (auto simp: dma_ok_def ptr_queue_def split: option.splits)
  show ?thesis
  proof (cases "0 < uxMessagesWaiting q")
    case False
    then have "queue_content q = []" using queue_nonempty_iff by blast
    moreover have "queue_receive False None q = Some (q, None)"
      using False by (simp add: queue_receive_def)
    ultimately show ?thesis
      using need q assms
      by (intro exI [of _ False] exI [of _ d]) (simp add: next_buffer_def waiting_buffers_def)
  next
    case True
    obtain q' where q': "queue_receive False None q = Some (q', Some (hd (queue_content q)))"
        "queue_inv q'" "queue_content q' = tl (queue_content q)" "uxItemSize q' = uxItemSize q"
      using queue_receive_head [OF q(2) True] by blast
    have ne: "queue_content q \<noteq> []" using True queue_nonempty_iff by blast
    define d1 where "d1 = d\<lparr>dma_queue := Some (a, q'), curr_ptr := of_le32 (hd (queue_content q)),
        rw_pos := 0\<rparr>"
    have nb: "next_buffer d = Inr (True, d1)"
      using need q(1) q'(1) by (auto simp: next_buffer_def d1_def)
    have wb: "of_le32 (hd (queue_content q)) \<in> set (buf d)" "set (waiting_buffers d1) \<subseteq> set (buf d)"
      using assms q(1) ne q'(3)
      by (auto simp: dma_ok_def waiting_buffers_def d1_def dest: list.set_sel)
    have "dma_ok d1"
      using assms wb q q' by (simp add: dma_ok_def ptr_queue_def d1_def)
    then show ?thesis
      using nb wb assms by (auto simp: d1_def dma_ok_def)
  qed
qed

lemma mem_write_law:
  assumes "dma_ok d" "curr_ptr d \<in> set (buf d)" "rw_pos d + length bs \<le> buf_size d"
  shows "\<exists>m d'. dma_mem d (curr_ptr d) = Some m \<and> length m = buf_size d \<and> mem_write d bs = Inr d' \<and> dma_ok d' \<and>
     d' = d\<lparr>dma_mem := (dma_mem d)(curr_ptr d \<mapsto> overwrite m (rw_pos d) bs),
            rw_pos := rw_pos d + length bs\<rparr>"
proof -
  obtain m where m: "dma_mem d (curr_ptr d) = Some m" "length m = buf_size d"
    using assms(1,2) by (auto simp: dma_ok_def)
  then show ?thesis
    using assms by (auto simp: mem_write_def dma_ok_def ptr_queue_def waiting_buffers_def length_overwrite)
qed

lemma mem_read_law:
  assumes "dma_ok d" "curr_ptr d \<in> set (buf d)" "rw_pos d + n \<le> buf_size d"
  shows "\<exists>m. dma_mem d (curr_ptr d) = Some m \<and> length m = buf_size d \<and>
     mem_read d n = Inr (chunk m (rw_pos d) n, d\<lparr>rw_pos := rw_pos d + n\<rparr>) \<and>
     dma_ok (d\<lparr>rw_pos := rw_pos d + n\<rparr>)"
proof -
  obtain m where m: "dma_mem d (curr_ptr d) = Some m" "length m = buf_size d"
    using assms(1,2) by (auto simp: dma_ok_def)
  then show ?thesis
    using assms by (auto simp: mem_read_def dma_ok_def ptr_queue_def waiting_buffers_def)
qed

lemma multiples_gap:
  fixes n a b :: nat
  assumes "n dvd a" "n dvd b" "a < b"
  shows "a + n \<le> b"
proof -
  obtain k j where "a = n * k" "b = n * j" using assms by (elim dvdE)
  with assms(3) have "Suc k \<le> j" by (simp add: Suc_leI)
  then have "n * Suc k \<le> n * j" by (rule mult_le_mono2)
  with \<open>a = n * k\<close> \<open>b = n * j\<close> show ?thesis by simp
qed

section \<open>Sample and byte transfers\<close>

lemma push_sample_law:
  assumes "dma_ok d" "n dvd buf_size d" "n dvd rw_pos d" "0 < n" "n \<le> length sample"
  shows "\<exists>k d'. push_sample n sample d = Inr (k, d') \<and> dma_ok d' \<and> buf d' = buf d \<and>
     buf_size d' = buf_size d \<and> n dvd rw_pos d' \<and>
     (if k = 0 then d' = d \<and> waiting_buffers d = []
      else k = n \<and>
        (\<exists>m. dma_mem d (curr_ptr d') = Some m \<and> rw_pos d' \<le> length m \<and> n \<le> rw_pos d' \<and>
           dma_mem d' = (dma_mem d)(curr_ptr d' \<mapsto> overwrite m (rw_pos d' - n) (take n sample))))"
proof -
  obtain ok d1 where d1: "next_buffer d = Inr (ok, d1)" "dma_ok d1" "buf d1 = buf d"
      "dma_mem d1 = dma_mem d" "buf_size d1 = buf_size d"
      "if ok then curr_ptr d1 \<in> set (buf d) \<and> rw_pos d1 < buf_size d \<and> (rw_pos d1 = rw_pos d \<or> rw_pos d1 = 0)
       else d1 = d \<and> waiting_buffers d = [] \<and> (rw_pos d = buf_size d \<or> curr_ptr d = 0)"
    using next_buffer_law [OF assms(1)] by blast
  show ?thesis
  proof (cases ok)
    case False
    then show ?thesis using d1 assms by (simp add: push_sample_def)
  next
    case True
    then have c: "curr_ptr d1 \<in> set (buf d1)" "rw_pos d1 < buf_size d1" "n dvd rw_pos d1"
      using d1 assms(3) by auto
    have len: "length (take n sample) = n" using assms(5) by simp
    have fit: "rw_pos d1 + length (take n sample) \<le> buf_size d1"
      using multiples_gap [OF c(3) _ c(2)] assms(2) d1(5) len by simp
    obtain m d' where m: "dma_mem d1 (curr_ptr d1) = Some m" "length m = buf_size d1"
        "mem_write d1 (take n sample) = Inr d'" "dma_ok d'"
        "d' = d1\<lparr>dma_mem := (dma_mem d1)(curr_ptr d1 \<mapsto> overwrite m (rw_pos d1) (take n sample)),
            rw_pos := rw_pos d1 + length (take n sample)\<rparr>"
      using mem_write_law [OF d1(2) c(1) fit] by blast
    have "push_sample n sample d = Inr (n, d')"
      using d1(1) True m(3) assms(5) by (simp add: push_sample_def)
    then show ?thesis
      using m c d1 len fit assms(4) by (intro exI [of _ n] exI [of _ d']) simp
  qed
qed

text \<open>
  C34. \<^verbatim>\<open>i2s_push_sample\<close> on a well-formed ring whose buffer size and position are multiples of the
  sample size stays inside the DMA buffers: it either reports 0 because no buffer is free and
  changes nothing, or it stores the whole sample contiguously in the current buffer, touches
  no other byte, and keeps the ring well formed and aligned.
\<close>

theorem push_sample_stores:
  assumes "dma_ok d" "n dvd buf_size d" "n dvd rw_pos d" "0 < n" "n \<le> length sample"
  shows "\<exists>k d'. push_sample n sample d = Inr (k, d') \<and> dma_ok d' \<and> buf d' = buf d \<and>
     buf_size d' = buf_size d \<and> n dvd rw_pos d' \<and>
     (if k = 0 then d' = d \<and> waiting_buffers d = []
      else k = n \<and>
        (\<exists>m. dma_mem d (curr_ptr d') = Some m \<and> rw_pos d' \<le> length m \<and> n \<le> rw_pos d' \<and>
           dma_mem d' = (dma_mem d)(curr_ptr d' \<mapsto> overwrite m (rw_pos d' - n) (take n sample))))"
  by (rule push_sample_law [OF assms])

lemma write_loop_law:
  "dma_ok d \<Longrightarrow>
   \<exists>k d'. write_loop d src w = Some (Inr (w + k, d')) \<and> dma_ok d' \<and> k \<le> length src \<and>
     buf d' = buf d \<and> buf_size d' = buf_size d \<and> dma_mux d' = dma_mux d \<and>
     (k < length src \<longrightarrow> waiting_buffers d' = [])"
proof (induction "length src" arbitrary: d src w rule: less_induct)
  case less
  show ?case
  proof (cases "src = []")
    case True
    then show ?thesis using less.prems by (subst write_loop.simps) simp
  next
    case False
    obtain ok d1 where d1: "next_buffer d = Inr (ok, d1)" "dma_ok d1" "buf d1 = buf d"
        "buf_size d1 = buf_size d" "dma_mux d1 = dma_mux d"
        "if ok then curr_ptr d1 \<in> set (buf d) \<and> rw_pos d1 < buf_size d \<and> (rw_pos d1 = rw_pos d \<or> rw_pos d1 = 0)
         else d1 = d \<and> waiting_buffers d = [] \<and> (rw_pos d = buf_size d \<or> curr_ptr d = 0)"
      using next_buffer_law [OF less.prems] by blast
    show ?thesis
    proof (cases ok)
      case False
      then show ?thesis using d1 less.prems \<open>src \<noteq> []\<close> by (subst write_loop.simps) simp
    next
      case True
      define n where "n = min (buf_size d1 - rw_pos d1) (length src)"
      have n: "0 < n" "n \<le> length src" using d1 True False by (auto simp: n_def)
      have len: "length (take n src) = n" using n by simp
      have "n \<le> buf_size d1 - rw_pos d1" by (simp add: n_def)
      then have "rw_pos d1 + length (take n src) \<le> buf_size d1"
        using len d1(4,6) True by auto
      then obtain m d2 where d2: "mem_write d1 (take n src) = Inr d2" "dma_ok d2"
          "d2 = d1\<lparr>dma_mem := (dma_mem d1)(curr_ptr d1 \<mapsto> overwrite m (rw_pos d1) (take n src)),
              rw_pos := rw_pos d1 + length (take n src)\<rparr>"
        using mem_write_law [OF d1(2), of "take n src"] d1(3,6) True by auto
      have nd: "min (buf_size d - rw_pos d1) (length src) = n" using d1(4) by (simp add: n_def)
      have eq: "write_loop d src w = write_loop d2 (drop n src) (w + n)"
        using False d1 True d2(1) by (subst write_loop.simps) (simp add: nd)
      obtain k d' where k: "write_loop d2 (drop n src) (w + n) = Some (Inr (w + n + k, d'))" "dma_ok d'"
          "k \<le> length src - n" "buf d' = buf d2" "buf_size d' = buf_size d2" "dma_mux d' = dma_mux d2"
          "k < length src - n \<longrightarrow> waiting_buffers d' = []"
        using less.hyps [of "drop n src" d2 "w + n"] d2(2) n False by auto
      show ?thesis
        using eq k d1 d2(3) n by (intro exI [of _ "n + k"] exI [of _ d']) (simp add: add.assoc)
    qed
  qed
qed

text \<open>
  \<^verbatim>\<open>i2s_write_bytes\<close> on a well-formed ring with a free mutex always returns, never writes
  outside a DMA buffer, accepts at most the bytes offered, stops short only when no buffer is
  left, keeps the ring well formed and gives the mutex back.
\<close>

theorem write_bytes_returns:
  assumes "dma_ok d" "dma_mux d = Some (a, mx)" "bin_sem mx" "sem_given mx"
  shows "\<exists>k d'. write_bytes src d = Some (Inr (k, d')) \<and> dma_ok d' \<and> k \<le> length src \<and>
     (k < length src \<longrightarrow> waiting_buffers d' = []) \<and>
     (\<exists>m'. dma_mux d' = Some (a, m') \<and> bin_sem m' \<and> sem_given m')"
proof -
  obtain m1 where m1: "xSemaphoreTake None mx = Some m1" "bin_sem m1"
    using sem.take_given [OF assms(3,4)] by blast
  let ?d1 = "d\<lparr>dma_mux := Some (a, m1)\<rparr>"
  have ok1: "dma_ok ?d1"
    using assms(1) by (simp add: dma_ok_def ptr_queue_def waiting_buffers_def)
  obtain k d' where k: "write_loop ?d1 src 0 = Some (Inr (k, d'))" "dma_ok d'" "k \<le> length src"
      "dma_mux d' = Some (a, m1)" "k < length src \<longrightarrow> waiting_buffers d' = []"
    using write_loop_law [OF ok1, of src 0] by auto
  let ?d3 = "d'\<lparr>dma_mux := Some (a, xSemaphoreGive m1)\<rparr>"
  have "write_bytes src d = Some (Inr (k, ?d3))"
    using assms(2) m1 k by (simp add: write_bytes_def take_dma_mux_def give_dma_mux_def)
  moreover have "dma_ok ?d3" "waiting_buffers ?d3 = waiting_buffers d'"
    using k(2) by (simp_all add: dma_ok_def ptr_queue_def waiting_buffers_def)
  ultimately show ?thesis
    using k(3,5) sem.give_inv [OF m1(2)] sem.give_given [OF m1(2)] by auto
qed

section \<open>Interrupts\<close>

lemma isr_put_law:
  assumes "queue_inv q" "uxItemSize q = 4" "length item = 4"
  shows "\<exists>q'. isr_put q item = Inr q' \<and> queue_inv q' \<and> uxItemSize q' = 4 \<and> uxLength q' = uxLength q \<and>
     queue_content q' =
       (if prvIsQueueFull q then tl (queue_content q) else queue_content q) @ [item]"
proof -
  have len: "0 < uxLength q" "uxMessagesWaiting q \<le> uxLength q"
    using queue_inv_facts [OF assms(1)] by (auto simp: counter_simps)
  have send: "\<exists>q2. queue_send q1 item queueSEND_TO_BACK = Some (q2, True) \<and> queue_inv q2 \<and>
      queue_content q2 = queue_content q1 @ [item] \<and> uxLength q2 = uxLength q1 \<and>
      uxItemSize q2 = uxItemSize q1"
    if "queue_inv q1" "uxMessagesWaiting q1 < uxLength q1" "uxItemSize q1 = 4" for q1
    using copy_to_queue_back [OF that(1,2), of item] that assms(3) by (auto simp: queue_send_def)
  show ?thesis
  proof (cases "prvIsQueueFull q")
    case True
    then have w: "0 < uxMessagesWaiting q" using len by (simp add: prvIsQueueFull_def)
    obtain q1 where q1: "queue_receive False None q = Some (q1, Some (hd (queue_content q)))" "queue_inv q1"
        "queue_content q1 = tl (queue_content q)" "uxLength q1 = uxLength q" "uxItemSize q1 = uxItemSize q"
        "uxMessagesWaiting q1 = uxMessagesWaiting q - 1"
      using queue_receive_head [OF assms(1) w] by blast
    have "uxMessagesWaiting q1 < uxLength q1"
      using q1 True w by (simp add: prvIsQueueFull_def word_less_nat_alt unat_dec)
    then show ?thesis
      using send [OF q1(2)] q1 assms True by (auto simp: isr_put_def)
  next
    case False
    then have "uxMessagesWaiting q < uxLength q"
      using len by (simp add: prvIsQueueFull_def order_le_less)
    then show ?thesis
      using send [OF assms(1)] assms False by (auto simp: isr_put_def)
  qed
qed

lemma isr_buffer_law:
  assumes ok: "dma_ok d" and l: "find_desc d a = Inr l"
  shows "\<exists>d' full. isr_buffer a d = Inr d' \<and> dma_ok d' \<and> dma_mem d' = dma_mem d \<and>
     buf_size d' = buf_size d \<and> buf d' = buf d \<and> rw_pos d' = rw_pos d \<and> curr_ptr d' = curr_ptr d \<and> desc d' = desc d \<and>
     waiting_buffers d' = (if full then tl (waiting_buffers d) else waiting_buffers d) @ [desc_buf l]"
proof -
  obtain qa q where q: "dma_queue d = Some (qa, q)" "queue_inv q" "uxItemSize q = 4"
    using ok by (auto simp: dma_ok_def ptr_queue_def split: option.splits)
  have lb: "desc_buf l \<in> set (buf d)"
  proof -
    from l have "Some l \<in> set (desc d)"
      by (auto simp: find_desc_def find_Some_iff split: option.splits intro: nth_mem dest: nth_mem)
    with ok show ?thesis by (fastforce simp: dma_ok_def)
  qed
  obtain q' where q': "isr_put q (le32 (desc_buf l)) = Inr q'" "queue_inv q'" "uxItemSize q' = 4"
      "queue_content q' = (if prvIsQueueFull q then tl (queue_content q) else queue_content q) @ [le32 (desc_buf l)]"
    using isr_put_law [OF q(2,3), of "le32 (desc_buf l)"] by auto
  let ?d' = "d\<lparr>dma_queue := Some (qa, q')\<rparr>"
  have run: "isr_buffer a d = Inr ?d'" using l q(1) q'(1) by (simp add: isr_buffer_def)
  have wb: "waiting_buffers ?d'
      = (if prvIsQueueFull q then tl (waiting_buffers d) else waiting_buffers d) @ [desc_buf l]"
    using q(1) q'(4) by (simp add: waiting_buffers_def map_tl)
  have "set (waiting_buffers ?d') \<subseteq> set (buf d)"
    using ok lb set_tl_subset [of "waiting_buffers d"] unfolding wb by (auto simp: dma_ok_def)
  then have "dma_ok ?d'"
    using ok q'(2,3) by (simp add: dma_ok_def ptr_queue_def)
  with run wb show ?thesis
    by (intro exI [of _ ?d'] exI [of _ "prvIsQueueFull q"]) auto
qed

text \<open>
  The interrupt handler of a port without an event queue is safe for every interrupt status:
  it never faults, keeps the transmit ring well formed, leaves buffer contents and the task's
  position alone, acknowledges the interrupt, and on a transmit-done interrupt appends the
  finished buffer to the queue, dropping the oldest entry when the queue is full.
\<close>

theorem i2s_intr_handler_tx:
  assumes "i2s_queue ob = None" "tx ob = Some d" "rx ob = None" "dma_ok d"
    "find_desc d (out_eof_des_addr r) = Inr l"
  shows "\<exists>d'. i2s_intr_handler_default pad ob r
       = Inr (ob\<lparr>tx := Some d'\<rparr>, r\<lparr>int_clr := Clear_status (int_st r)\<rparr>) \<and> dma_ok d' \<and>
     dma_mem d' = dma_mem d \<and> rw_pos d' = rw_pos d \<and> curr_ptr d' = curr_ptr d \<and>
     (if out_eof (int_st r)
      then \<exists>full. waiting_buffers d' = (if full then tl (waiting_buffers d) else waiting_buffers d)
                                        @ [desc_buf l]
      else d' = d)"
proof (cases "out_eof (int_st r)")
  case True
  obtain d' full where d': "isr_buffer (out_eof_des_addr r) d = Inr d'" "dma_ok d'"
      "dma_mem d' = dma_mem d" "rw_pos d' = rw_pos d" "curr_ptr d' = curr_ptr d"
      "waiting_buffers d' = (if full then tl (waiting_buffers d) else waiting_buffers d) @ [desc_buf l]"
    using isr_buffer_law [OF assms(4,5)] by blast
  have "i2s_intr_handler_default pad ob r
      = Inr (ob\<lparr>tx := Some d'\<rparr>, r\<lparr>int_clr := Clear_status (int_st r)\<rparr>)"
    using True d'(1) assms(1-3) by (simp add: i2s_intr_handler_default_def isr_event_def)
  with True d' show ?thesis by (metis (no_types, lifting))
next
  case False
  then show ?thesis
    using assms by (intro exI [of _ d]) (simp add: i2s_intr_handler_default_def isr_event_def)
qed

lemma isr_put_event_full:
  "uxItemSize q = 8 \<Longrightarrow> prvIsQueueFull q \<Longrightarrow> isr_put q item = Inl Out_Of_Bounds"
  by (simp add: isr_put_def)

lemma isr_put_event_room:
  assumes "queue_inv q" "uxItemSize q = 8" "\<not> prvIsQueueFull q" "length item = 8"
  shows "\<exists>q'. isr_put q item = Inr q' \<and> queue_inv q' \<and> uxItemSize q' = 8 \<and> uxLength q' = uxLength q \<and>
     uxMessagesWaiting q' = uxMessagesWaiting q + 1"
proof -
  have "uxMessagesWaiting q < uxLength q"
    using queue_inv_facts(5) [OF assms(1)] assms(3) by (simp add: prvIsQueueFull_def order_le_less)
  then show ?thesis
    using copy_to_queue_back [OF assms(1), of item] assms by (auto simp: isr_put_def queue_send_def)
qed

text \<open>
  With an event queue the handler overruns its own stack: \<^verbatim>\<open>dummy\<close> is a 4-byte integer, an
  event has 8 bytes. On a port with an empty event queue of length 1, as the renderer
  installs it, and nobody receiving events, the first transmit-done interrupt posts its event
  and the second one already writes the discarded event outside \<^verbatim>\<open>dummy\<close>.
\<close>

theorem i2s_event_queue_overruns_dummy:
  assumes "i2s_queue ob = Some (a, q)" "queue_inv q" "uxItemSize q = 8" "uxLength q = 1"
    "uxMessagesWaiting q = 0" "tx ob = Some d" "rx ob = None" "dma_ok d"
    "find_desc d (out_eof_des_addr r) = Inr l" "out_eof (int_st r)"
    "\<not> out_dscr_err (int_st r)" "\<not> in_dscr_err (int_st r)" "length pad = 4"
  shows "\<exists>ob1 r1. i2s_intr_handler_default pad ob r = Inr (ob1, r1) \<and>
     (\<forall>r2. out_eof (int_st r2) \<and> \<not> out_dscr_err (int_st r2) \<and> \<not> in_dscr_err (int_st r2) \<and>
        out_eof_des_addr r2 = out_eof_des_addr r \<longrightarrow>
        i2s_intr_handler_default pad ob1 r2 = Inl Out_Of_Bounds)"
proof -
  obtain d' where d': "isr_buffer (out_eof_des_addr r) d = Inr d'" "dma_ok d'" "desc d' = desc d"
    using isr_buffer_law [OF assms(8,9)] by blast
  have nf: "\<not> prvIsQueueFull q" using assms(4,5) by (simp add: prvIsQueueFull_def)
  obtain q' where q': "isr_put q (event_bytes pad I2S_EVENT_TX_DONE) = Inr q'" "queue_inv q'"
      "uxItemSize q' = 8" "uxLength q' = 1" "uxMessagesWaiting q' = 1"
    using isr_put_event_room [OF assms(2,3) nf, of "event_bytes pad I2S_EVENT_TX_DONE"] assms(4,5,13)
    by (auto simp: event_bytes_def)
  let ?ob1 = "ob\<lparr>tx := Some d', i2s_queue := Some (a, q')\<rparr>"
  have run1: "i2s_intr_handler_default pad ob r
      = Inr (?ob1, r\<lparr>int_clr := Clear_status (int_st r)\<rparr>)"
    using assms d'(1) q'(1) by (simp add: i2s_intr_handler_default_def isr_event_def)
  have fd: "find_desc d' (out_eof_des_addr r) = Inr l"
    using assms(9) d'(3) by (simp add: find_desc_def)
  obtain d'' where d'': "isr_buffer (out_eof_des_addr r) d' = Inr d''"
    using isr_buffer_law [OF d'(2) fd] by blast
  have "isr_put q' (event_bytes pad I2S_EVENT_TX_DONE) = Inl Out_Of_Bounds"
    using q' by (intro isr_put_event_full) (simp_all add: prvIsQueueFull_def)
  then have "i2s_intr_handler_default pad ?ob1 r2 = Inl Out_Of_Bounds"
    if "out_eof (int_st r2)" "\<not> out_dscr_err (int_st r2)" "\<not> in_dscr_err (int_st r2)"
      "out_eof_des_addr r2 = out_eof_des_addr r" for r2
    using that d'' by (simp add: i2s_intr_handler_default_def isr_event_def)
  with run1 show ?thesis by blast
qed

section \<open>Allocation\<close>

lemma malloc_Cons:
  "mallocs h = a # as \<Longrightarrow> a \<noteq> 0 \<Longrightarrow> malloc h = (a, h\<lparr>mallocs := as, live := a # live h\<rparr>)"
  by (simp add: malloc_def)

lemma malloc_fail: "mallocs h = 0 # as \<Longrightarrow> malloc h = (0, h\<lparr>mallocs := as\<rparr>)"
  by (simp add: malloc_def)

lemma alloc_some_ok:
  "mallocs h = as @ rest \<Longrightarrow> 0 \<notin> set as \<Longrightarrow>
   alloc_some (length as) h = (as, h\<lparr>mallocs := rest, live := rev as @ live h\<rparr>)"
proof (induction as arbitrary: h)
  case Nil
  then show ?case by simp
next
  case (Cons a as)
  then have "malloc h = (a, h\<lparr>mallocs := as @ rest, live := a # live h\<rparr>)"
    by (simp add: malloc_Cons)
  then show ?case using Cons by simp
qed

lemma new_queue_ok:
  assumes "mallocs h = a # as" "a \<noteq> 0" "n \<noteq> 0" "unat n * unat z < 2 ^ 32"
  shows "\<exists>q. new_queue n z h = Inr (Some (a, q), h\<lparr>mallocs := as, live := a # live h\<rparr>) \<and>
     queue_inv q \<and> queue_content q = [] \<and> uxLength q = n \<and> uxItemSize q = z"
  using xQueueGenericCreate_new [of n z "\<lambda>k. if a = 0 then None else Some (replicate k 0)"] assms
  by (auto simp: new_queue_def malloc_Cons)

lemma new_mutex_ok:
  assumes "mallocs h = a # as" "a \<noteq> 0"
  shows "\<exists>m. new_mutex h = (Some (a, m), h\<lparr>mallocs := as, live := a # live h\<rparr>) \<and> bin_sem m \<and> sem_given m"
  using xQueueCreateMutex_given [of "\<lambda>k. if a = 0 then None else Some (replicate k 0)"] assms
  by (auto simp: new_mutex_def malloc_Cons)

lemma destroy_loop_ok:
  assumes "\<And>k. k \<in> set ks \<Longrightarrow> \<exists>l. desc d ! k = Some l \<and> desc_addr l = das ! k \<and> das ! k \<noteq> 0 \<and> buf d ! k \<noteq> 0"
    "desc_arr d \<noteq> 0" "buf_arr d \<noteq> 0"
  shows "\<exists>h'. destroy_loop d ks h = Inr h' \<and> mallocs h' = mallocs h \<and>
     mset (live h') = mset (live h) - mset (map ((!) das) ks) - mset (map ((!) (buf d)) ks)"
  using assms(1)
proof (induction ks arbitrary: h)
  case Nil
  then show ?case by simp
next
  case (Cons k ks)
  obtain l where l: "desc d ! k = Some l" "desc_addr l = das ! k" "das ! k \<noteq> 0" "buf d ! k \<noteq> 0"
    using Cons.prems [of k] by auto
  let ?h = "free (buf d ! k) (free (das ! k) h)"
  have step: "destroy_loop d (k # ks) h = destroy_loop d ks ?h"
    using l assms(2,3) by (simp add: destroy_desc_def destroy_buf_def)
  obtain h' where h': "destroy_loop d ks ?h = Inr h'" "mallocs h' = mallocs ?h"
      "mset (live h') = mset (live ?h) - mset (map ((!) das) ks) - mset (map ((!) (buf d)) ks)"
    using Cons.IH [of ?h] Cons.prems by auto
  have "mset (live ?h) = mset (live h) - {#das ! k#} - {#buf d ! k#}"
    by (simp add: free_def)
  then show ?case
    using step h' by (auto simp: free_def ac_simps)
qed

text \<open>The result of \<open>i2s_create_dma_queue\<close> when every allocation succeeds.\<close>

lemma create_dma_ok:
  assumes m: "mallocs h = a # ba # bs @ da # das @ qa # ma # rest"
    and nz: "a \<noteq> 0" "ba \<noteq> 0" "da \<noteq> 0" "qa \<noteq> 0" "ma \<noteq> 0" "0 \<notin> set bs" "0 \<notin> set das"
    and n: "length bs = n" "length das = n" "2 \<le> n" "n \<le> 128" and sz: "0 < len * ss"
  shows "\<exists>dma h'. i2s_create_dma_queue ss n len h = Inr (Some dma, h') \<and> dma_ok dma \<and> buf dma = bs \<and>
     buf_size dma = len * ss \<and> rw_pos dma = 0 \<and> waiting_buffers dma = [] \<and>
     desc dma = link_descs das bs (len * ss) \<and> dma_addr dma = a \<and> buf_arr dma = ba \<and> desc_arr dma = da \<and>
     (\<exists>q mx. dma_queue dma = Some (qa, q) \<and> uxLength q = of_nat (n - 1) \<and>
        dma_mux dma = Some (ma, mx) \<and> bin_sem mx \<and> sem_given mx) \<and>
     mallocs h' = rest \<and> live h' = ma # qa # rev das @ da # rev bs @ ba # a # live h"
proof -
  let ?h2 = "h\<lparr>mallocs := bs @ da # das @ qa # ma # rest, live := ba # a # live h\<rparr>"
  let ?h4 = "h\<lparr>mallocs := das @ qa # ma # rest, live := da # rev bs @ ba # a # live h\<rparr>"
  let ?h5 = "h\<lparr>mallocs := qa # ma # rest, live := rev das @ da # rev bs @ ba # a # live h\<rparr>"
  have h2: "malloc h = (a, h\<lparr>mallocs := ba # bs @ da # das @ qa # ma # rest, live := a # live h\<rparr>)"
      "malloc (h\<lparr>mallocs := ba # bs @ da # das @ qa # ma # rest, live := a # live h\<rparr>) = (ba, ?h2)"
    using m nz by (simp_all add: malloc_Cons)
  have h3: "alloc_some n ?h2
      = (bs, h\<lparr>mallocs := da # das @ qa # ma # rest, live := rev bs @ ba # a # live h\<rparr>)"
    using alloc_some_ok [of ?h2 bs] nz n by simp
  have h4: "malloc (h\<lparr>mallocs := da # das @ qa # ma # rest, live := rev bs @ ba # a # live h\<rparr>) = (da, ?h4)"
    using nz by (simp add: malloc_Cons)
  have h5: "alloc_some n ?h4 = (das, ?h5)"
    using alloc_some_ok [of ?h4 das] nz n by simp
  have pads: "pad_to n 0 bs = bs" "pad_to n None (map (Some \<circ> blank_desc) das) = map (Some \<circ> blank_desc) das"
    using n by (simp_all add: pad_to_def)
  define dma where "dma = (zero_dma a)\<lparr>buf_arr := ba, buf := bs,
      dma_mem := (\<lambda>p. if p \<in> set bs - {0} then Some (replicate (len * ss) 0) else None),
      desc_arr := da, desc := map (Some \<circ> blank_desc) das\<rparr>"
  have in_bs: "(p \<in> set bs \<and> p \<noteq> 0) = (p \<in> set bs)" for p using nz(6) by auto
  have run: "i2s_create_dma_queue ss n len h = finish_dma n (len * ss) dma das ?h5"
    using h2 h3 h4 h5 nz
    by (simp add: i2s_create_dma_queue_def pads dma_def Let_def in_bs del: alloc_some.simps)
  have qn: "of_nat (n - 1) \<noteq> (0 :: u32)" "unat (of_nat (n - 1) :: u32) * unat (4 :: u32) < 2 ^ 32"
  proof -
    have "n - 1 < 2 ^ LENGTH(32)" using n by simp
    then have eq: "unat (of_nat (n - 1) :: u32) = n - 1" by (rule unat_of_nat_small)
    show "of_nat (n - 1) \<noteq> (0 :: u32)"
    proof
      assume "of_nat (n - 1) = (0 :: u32)"
      with eq n show False by simp
    qed
    show "unat (of_nat (n - 1) :: u32) * unat (4 :: u32) < 2 ^ 32"
      unfolding eq using n by simp
  qed
  obtain q where q: "new_queue (of_nat (n - 1)) 4 ?h5
        = Inr (Some (qa, q), h\<lparr>mallocs := ma # rest, live := qa # rev das @ da # rev bs @ ba # a # live h\<rparr>)"
      "queue_inv q" "queue_content q = []" "uxLength q = of_nat (n - 1)" "uxItemSize q = 4"
    using new_queue_ok [OF _ nz(4) qn, of ?h5] by auto
  obtain mx where mx: "new_mutex (h\<lparr>mallocs := ma # rest,
          live := qa # rev das @ da # rev bs @ ba # a # live h\<rparr>)
        = (Some (ma, mx), h\<lparr>mallocs := rest, live := ma # qa # rev das @ da # rev bs @ ba # a # live h\<rparr>)"
      "bin_sem mx" "sem_given mx"
    using new_mutex_ok [OF _ nz(5), of "h\<lparr>mallocs := ma # rest,
          live := qa # rev das @ da # rev bs @ ba # a # live h\<rparr>"] by auto
  let ?d = "dma\<lparr>desc := link_descs das bs (len * ss), dma_queue := Some (qa, q), dma_mux := Some (ma, mx),
      rw_pos := 0, buf_size := len * ss, curr_ptr := 0\<rparr>"
  have "i2s_create_dma_queue ss n len h
      = Inr (Some ?d, h\<lparr>mallocs := rest, live := ma # qa # rev das @ da # rev bs @ ba # a # live h\<rparr>)"
    unfolding run finish_dma_def using q(1) mx(1) by (simp add: dma_def)
  moreover have "dma_ok ?d"
    using nz q sz n unfolding dma_ok_def
    by (auto simp: ptr_queue_def waiting_buffers_def dma_def link_descs_def)
  ultimately show ?thesis
    using q mx by (auto simp: dma_def zero_dma_def waiting_buffers_def)
qed

lemma destroy_created:
  assumes "desc_arr d \<noteq> 0" "buf_arr d \<noteq> 0" "desc d = link_descs das (buf d) sz" "length das = n"
    "length (buf d) = n" "0 \<notin> set das" "0 \<notin> set (buf d)" "dma_queue d = Some (qa, q)"
    "dma_mux d = Some (ma, mx)"
  shows "\<exists>h'. i2s_destroy_dma_queue n (Some d) h = Inr (ESP_OK, h') \<and>
     mset (live h') = mset (live h) - mset das - mset (buf d) - {#buf_arr d#} - {#desc_arr d#}
       - {#qa#} - {#ma#} - {#dma_addr d#}"
proof -
  have "\<exists>l. desc d ! k = Some l \<and> desc_addr l = das ! k \<and> das ! k \<noteq> 0 \<and> buf d ! k \<noteq> 0"
    if "k \<in> set [0..<n]" for k
  proof -
    have "das ! k \<in> set das" "buf d ! k \<in> set (buf d)" using that assms(4,5) by auto
    then have "das ! k \<noteq> 0" "buf d ! k \<noteq> 0" using assms(6,7) by metis+
    with that assms(3,4) show ?thesis by (simp add: link_descs_def)
  qed
  then obtain h' where h': "destroy_loop d [0..<n] h = Inr h'"
      "mset (live h') = mset (live h) - mset (map ((!) das) [0..<n]) - mset (map ((!) (buf d)) [0..<n])"
    using destroy_loop_ok [of "[0..<n]" d das h] assms(1,2) by blast
  have "map ((!) das) [0..<n] = das" "map ((!) (buf d)) [0..<n] = buf d"
    using assms(4,5) map_nth [of das] map_nth [of "buf d"] by simp_all
  then show ?thesis
    using h' assms(1,2,8,9) by (simp add: i2s_destroy_dma_queue_def vQueueDelete_def free_def)
qed

text \<open>
  When every allocation succeeds, \<^verbatim>\<open>i2s_create_dma_queue\<close> returns a well-formed ring with no
  buffer waiting, whose descriptors form a cycle over the buffers in order, and
  \<^verbatim>\<open>i2s_destroy_dma_queue\<close> releases exactly the blocks the creation took.
\<close>

theorem create_destroy_no_leak:
  assumes "mallocs h = a # ba # bs @ da # das @ qa # ma # rest"
    "a \<noteq> 0" "ba \<noteq> 0" "da \<noteq> 0" "qa \<noteq> 0" "ma \<noteq> 0" "0 \<notin> set bs" "0 \<notin> set das"
    "length bs = n" "length das = n" "2 \<le> n" "n \<le> 128" "0 < len * ss"
  shows "\<exists>dma h1 h2. i2s_create_dma_queue ss n len h = Inr (Some dma, h1) \<and> dma_ok dma \<and>
     waiting_buffers dma = [] \<and> buf dma = bs \<and> buf_size dma = len * ss \<and>
     (\<forall>k<n. \<exists>l. desc dma ! k = Some l \<and> desc_buf l = bs ! k \<and> desc_empty l = das ! ((k + 1) mod n)) \<and>
     i2s_destroy_dma_queue n (Some dma) h1 = Inr (ESP_OK, h2) \<and> mset (live h2) = mset (live h)"
proof -
  obtain dma h1 q mx where c: "i2s_create_dma_queue ss n len h = Inr (Some dma, h1)" "dma_ok dma" "buf dma = bs"
      "buf_size dma = len * ss" "waiting_buffers dma = []" "desc dma = link_descs das bs (len * ss)"
      "dma_addr dma = a" "buf_arr dma = ba" "desc_arr dma = da" "dma_queue dma = Some (qa, q)"
      "dma_mux dma = Some (ma, mx)" "live h1 = ma # qa # rev das @ da # rev bs @ ba # a # live h"
    using create_dma_ok [OF assms] by blast
  obtain h2 where h2: "i2s_destroy_dma_queue n (Some dma) h1 = Inr (ESP_OK, h2)"
      "mset (live h2) = mset (live h1) - mset das - mset bs - {#ba#} - {#da#} - {#qa#} - {#ma#} - {#a#}"
    using destroy_created [of dma das "len * ss" n qa q ma mx h1] c assms by auto
  have "mset (live h2) = mset (live h)"
    unfolding h2(2) c(12) by (simp add: ac_simps)
  moreover have "\<exists>l. desc dma ! k = Some l \<and> desc_buf l = bs ! k \<and> desc_empty l = das ! ((k + 1) mod n)"
    if "k < n" for k
  proof (cases "k < n - 1")
    case True
    then show ?thesis using assms(10) c(6) by (simp add: link_descs_def)
  next
    case False
    with that have "k + 1 = n" by simp
    then have "(k + 1) mod n = 0" by simp
    with False that show ?thesis using assms(10) c(6) by (simp add: link_descs_def)
  qed
  ultimately show ?thesis using c h2(1) by blast
qed

definition demo_heap :: heap where
  "demo_heap = \<lparr>mallocs = [10, 20, 100, 200, 30, 300, 400, 40, 50], live = []\<rparr>"

theorem create_destroy_no_leak_witness:
  "\<exists>dma h1 h2. i2s_create_dma_queue 4 2 8 demo_heap = Inr (Some dma, h1) \<and> dma_ok dma \<and>
     i2s_destroy_dma_queue 2 (Some dma) h1 = Inr (ESP_OK, h2) \<and> mset (live h2) = {#}"
  using create_destroy_no_leak [of demo_heap 10 20 "[100, 200]" 30 "[300, 400]" 40 50 "[]" 2 8 4]
  by (auto simp: demo_heap_def)

text \<open>
  What happens when an allocation fails. The first one: NULL is returned and nothing is
  lost. The second one (the buffer pointer array): NULL is returned and the block of the
  structure is leaked. The third one (the first buffer) or the one of the descriptor array:
  the clean-up calls \<^verbatim>\<open>vQueueDelete\<close> on the queue that does not exist yet, whose \<^verbatim>\<open>configASSERT\<close>
  stops the program, so that the failure is never reported.
\<close>

theorem create_dma_failures:
  assumes "a \<noteq> 0" "ba \<noteq> 0" "0 < n" "length bs = n" "0 \<notin> set bs"
  shows "(mallocs h = 0 # rest \<longrightarrow>
            (\<exists>h'. i2s_create_dma_queue ss n len h = Inr (None, h') \<and> live h' = live h)) \<and>
         (mallocs h = a # 0 # rest \<longrightarrow>
            (\<exists>h'. i2s_create_dma_queue ss n len h = Inr (None, h') \<and> live h' = a # live h)) \<and>
         (mallocs h = a # ba # 0 # rest \<longrightarrow> i2s_create_dma_queue ss n len h = Inl Assert_Failed) \<and>
         (mallocs h = a # ba # bs @ 0 # rest \<longrightarrow> i2s_create_dma_queue ss n len h = Inl Assert_Failed)"
proof -
  have dl: "\<exists>h'. destroy_loop d ks h = Inr h'" if "desc_arr d = 0" for d ks h
    using that by (induction ks arbitrary: h) (auto simp: destroy_desc_def)
  have abort: "i2s_destroy_dma_queue n (Some d) h = Inl Assert_Failed"
    if "desc_arr d = 0" "dma_queue d = None" for d h
  proof -
    have "desc_arr d = 0" by (rule that)
    then obtain h' where "destroy_loop d [0..<n] h = Inr h'" using dl by blast
    then show ?thesis using \<open>desc_arr d = 0\<close> \<open>dma_queue d = None\<close> by (simp add: i2s_destroy_dma_queue_def vQueueDelete_def Let_def)
  qed
  have some: "alloc_some n (h\<lparr>mallocs := 0 # rest, live := l\<rparr>) = ([0], h\<lparr>mallocs := rest, live := l\<rparr>)" for l
    using assms(3) by (cases n) (simp_all add: malloc_fail)
  have all: "alloc_some n (h\<lparr>mallocs := bs @ 0 # rest, live := l\<rparr>)
      = (bs, h\<lparr>mallocs := 0 # rest, live := rev bs @ l\<rparr>)" for l
    using alloc_some_ok [of "h\<lparr>mallocs := bs @ 0 # rest, live := l\<rparr>" bs "0 # rest"] assms by simp
  show ?thesis
    using assms(1,2,5)
    by (auto simp: i2s_create_dma_queue_def malloc_Cons malloc_fail Let_def some all abort zero_dma_def
        simp del: alloc_some.simps)
qed

theorem create_dma_failures_witness:
  "i2s_create_dma_queue 4 2 64 \<lparr>mallocs = [10, 20, 0], live = []\<rparr> = Inl Assert_Failed \<and>
   (\<exists>h'. i2s_create_dma_queue 4 2 64 \<lparr>mallocs = [10, 0], live = []\<rparr> = Inr (None, h') \<and> live h' = [10])"
  using create_dma_failures [of 10 20 2 "[1, 2]" "\<lparr>mallocs = [10, 20, 0], live = []\<rparr>" "[]" 4 64]
    create_dma_failures [of 10 20 2 "[1, 2]" "\<lparr>mallocs = [10, 0], live = []\<rparr>" "[]" 4 64]
  by simp

section \<open>Witnesses for the transfers and the interrupt handler\<close>

lemma demo_ring:
  "\<exists>d h q mx. i2s_create_dma_queue 4 2 8 demo_heap = Inr (Some d, h) \<and> dma_ok d \<and> buf_size d = 32 \<and>
     rw_pos d = 0 \<and> waiting_buffers d = [] \<and> desc d = link_descs [300, 400] [100, 200] 32 \<and>
     dma_queue d = Some (40, q) \<and> dma_mux d = Some (50, mx) \<and> bin_sem mx \<and> sem_given mx"
  using create_dma_ok [of demo_heap 10 20 "[100, 200]" 30 "[300, 400]" 40 50 "[]" 2 8 4]
  by (auto simp: demo_heap_def)

theorem push_sample_stores_witness:
  "\<exists>d k d'. dma_ok d \<and> push_sample 4 [1, 2, 3, 4] d = Inr (k, d') \<and> dma_ok d' \<and> 4 dvd rw_pos d'"
proof -
  obtain d where d: "dma_ok d" "buf_size d = 32" "rw_pos d = 0" using demo_ring by blast
  then have "\<exists>k d'. push_sample 4 [1, 2, 3, 4] d = Inr (k, d') \<and> dma_ok d' \<and> 4 dvd rw_pos d'"
    using push_sample_stores [of d 4 "[1, 2, 3, 4]"] by auto
  with d(1) show ?thesis by blast
qed

theorem write_bytes_returns_witness:
  "\<exists>d k d'. dma_ok d \<and> write_bytes [1, 2, 3] d = Some (Inr (k, d')) \<and> dma_ok d'"
  using demo_ring write_bytes_returns [of _ 50 _ "[1, 2, 3]"] by metis

definition tx_done_dev :: "u32 \<Rightarrow> i2s_dev" where
  "tx_done_dev a = zero_dev\<lparr>out_eof_des_addr := a,
     int_st := \<lparr>in_suc_eof = False, out_eof = True, in_dscr_err = False, out_dscr_err = False\<rparr>\<rparr>"

definition demo_obj :: "i2s_dma_t \<Rightarrow> (u32 \<times> Queue_t) option \<Rightarrow> i2s_obj_t" where
  "demo_obj d q = \<lparr>i2s_num = 0, i2s_queue = q, dma_buf_count = 2, dma_buf_len = 8, rx = None,
     tx = Some d, channel_num = 2, bytes_per_sample = 2, bits_per_sample = 16, mode = 5,
     intr_enabled = True\<rparr>"

lemma demo_find_desc:
  "desc d = link_descs [300, 400] [100, 200] 32 \<Longrightarrow> \<exists>l. find_desc d 300 = Inr l"
  by (simp add: find_desc_def link_descs_def)

theorem i2s_intr_handler_tx_witness:
  "\<exists>d d'. dma_ok d \<and>
     i2s_intr_handler_default [0, 0, 0, 0] (demo_obj d None) (tx_done_dev 300)
       = Inr ((demo_obj d None)\<lparr>tx := Some d'\<rparr>,
              (tx_done_dev 300)\<lparr>int_clr := Clear_status (int_st (tx_done_dev 300))\<rparr>) \<and> dma_ok d'"
proof -
  obtain d where d: "dma_ok d" "desc d = link_descs [300, 400] [100, 200] 32" using demo_ring by blast
  obtain l where l: "find_desc d 300 = Inr l" using demo_find_desc [OF d(2)] by blast
  have "\<exists>d'. i2s_intr_handler_default [0, 0, 0, 0] (demo_obj d None) (tx_done_dev 300)
       = Inr ((demo_obj d None)\<lparr>tx := Some d'\<rparr>,
              (tx_done_dev 300)\<lparr>int_clr := Clear_status (int_st (tx_done_dev 300))\<rparr>) \<and> dma_ok d'"
    using i2s_intr_handler_tx [of "demo_obj d None" d "tx_done_dev 300" l "[0, 0, 0, 0]"] d l
    by (auto simp: demo_obj_def tx_done_dev_def)
  with d(1) show ?thesis by blast
qed

theorem i2s_event_queue_overruns_dummy_witness:
  "\<exists>d q ob1 r1. dma_ok d \<and> queue_inv q \<and>
     i2s_intr_handler_default [0, 0, 0, 0] (demo_obj d (Some (60, q))) (tx_done_dev 300) = Inr (ob1, r1) \<and>
     i2s_intr_handler_default [0, 0, 0, 0] ob1 (tx_done_dev 300) = Inl Out_Of_Bounds"
proof -
  obtain d where d: "dma_ok d" "desc d = link_descs [300, 400] [100, 200] 32" using demo_ring by blast
  obtain l where l: "find_desc d 300 = Inr l" using demo_find_desc [OF d(2)] by blast
  obtain q where q: "queue_inv q" "queue_content q = []" "uxLength q = 1" "uxItemSize q = 8"
    using xQueueGenericCreate_new [of 1 8 "\<lambda>k. Some (replicate k 0)"] by auto
  have m: "uxMessagesWaiting q = 0"
    using q(2) queue_nonempty_iff [of q] by (simp add: word_gt_0)
  have "\<exists>ob1 r1. i2s_intr_handler_default [0, 0, 0, 0] (demo_obj d (Some (60, q))) (tx_done_dev 300)
         = Inr (ob1, r1) \<and>
      i2s_intr_handler_default [0, 0, 0, 0] ob1 (tx_done_dev 300) = Inl Out_Of_Bounds"
    using i2s_event_queue_overruns_dummy [of "demo_obj d (Some (60, q))" 60 q d "tx_done_dev 300" l "[0, 0, 0, 0]"]
      d l q m by (auto simp: demo_obj_def tx_done_dev_def)
  with d(1) q(1) show ?thesis by blast
qed

end
