(* ===== verification/I2S_Driver.thy ===== *)
theory I2S_Driver
  imports I2S_Dma
begin

text \<open>
  The driver as a whole: the two ports with their objects and registers, the heap and the DAC,
  and the public functions of \<^verbatim>\<open>components/driver/i2s.c\<close> on them. A function result is the error
  code (or count) with the new state, or the fault in which it ends.
\<close>

section \<open>State\<close>

record i2s_drv =
  objs :: "nat \<Rightarrow> i2s_obj_t option"
  obj_addr :: "nat \<Rightarrow> u32"
  regs :: "nat \<Rightarrow> i2s_dev"
  hp :: heap
  periph_on :: "nat \<Rightarrow> bool"
  drv_dac :: dac_state

definition set_obj :: "nat \<Rightarrow> i2s_obj_t option \<Rightarrow> i2s_drv \<Rightarrow> i2s_drv" where
  "set_obj n ob v = v\<lparr>objs := (objs v)(n := ob)\<rparr>"

definition upd_regs :: "nat \<Rightarrow> (i2s_dev \<Rightarrow> i2s_dev) \<Rightarrow> i2s_drv \<Rightarrow> i2s_drv" where
  "upd_regs n f v = v\<lparr>regs := (regs v)(n := f (regs v n))\<rparr>"

lemma set_obj_simps [simp]:
  "objs (set_obj n ob v) = (objs v)(n := ob)" "regs (set_obj n ob v) = regs v"
  "hp (set_obj n ob v) = hp v" "obj_addr (set_obj n ob v) = obj_addr v"
  "drv_dac (set_obj n ob v) = drv_dac v" "periph_on (set_obj n ob v) = periph_on v"
  by (simp_all add: set_obj_def)

lemma upd_regs_simps [simp]:
  "objs (upd_regs n f v) = objs v" "regs (upd_regs n f v) = (regs v)(n := f (regs v n))"
  "hp (upd_regs n f v) = hp v" "obj_addr (upd_regs n f v) = obj_addr v"
  "drv_dac (upd_regs n f v) = drv_dac v" "periph_on (upd_regs n f v) = periph_on v"
  by (simp_all add: upd_regs_def)

section \<open>Start, stop and uninstall\<close>

definition i2s_start :: "nat \<Rightarrow> i2s_drv \<Rightarrow> (esp_err_t \<times> i2s_drv) run" where
  "i2s_start n v =
     (case objs v n of None \<Rightarrow> Inl Null_Pointer
      | Some ob \<Rightarrow> Inr (ESP_OK, set_obj n (Some (ob\<lparr>intr_enabled := True\<rparr>))
                                 (upd_regs n (start_regs (mode ob)) v)))"

definition i2s_stop :: "nat \<Rightarrow> i2s_drv \<Rightarrow> (esp_err_t \<times> i2s_drv) run" where
  "i2s_stop n v =
     (case objs v n of None \<Rightarrow> Inl Null_Pointer
      | Some ob \<Rightarrow> Inr (ESP_OK, set_obj n (Some (ob\<lparr>intr_enabled := False\<rparr>))
                                 (upd_regs n (stop_regs (mode ob)) v)))"

definition destroy_ring :: "nat \<Rightarrow> i2s_dma_t option \<Rightarrow> i2s_drv \<Rightarrow> i2s_drv run" where
  "destroy_ring cnt d v =
     run_bind (i2s_destroy_dma_queue cnt d (hp v)) (\<lambda>(_, h). Inr (v\<lparr>hp := h\<rparr>))"

definition i2s_driver_uninstall :: "nat \<Rightarrow> i2s_drv \<Rightarrow> (esp_err_t \<times> i2s_drv) run" where
  "i2s_driver_uninstall n v =
     (if \<not> n < I2S_NUM_MAX then Inr (ESP_ERR_INVALID_ARG, v)
      else case objs v n of None \<Rightarrow> Inr (ESP_OK, v)
      | Some ob \<Rightarrow>
          run_bind (i2s_stop n v) (\<lambda>(_, v1).
          run_bind (if tx ob \<noteq> None \<and> has (mode ob) I2S_MODE_TX
                    then destroy_ring (dma_buf_count ob) (tx ob) v1 else Inr v1) (\<lambda>v2.
          run_bind (if rx ob \<noteq> None \<and> has (mode ob) I2S_MODE_RX
                    then destroy_ring (dma_buf_count ob) (rx ob) v2 else Inr v2) (\<lambda>v3.
          let v4 = (case i2s_queue ob of None \<Rightarrow> v3 | Some (a, _) \<Rightarrow> v3\<lparr>hp := free a (hp v3)\<rparr>) in
          Inr (ESP_OK, set_obj n None (v4\<lparr>hp := free (obj_addr v4 n) (hp v4),
                 periph_on := (periph_on v4)(n := False)\<rparr>))))))"

section \<open>\<^verbatim>\<open>i2s_set_clk\<close>\<close>

definition lock_rings :: "i2s_obj_t \<Rightarrow> i2s_obj_t run" where
  "lock_rings ob =
     run_bind (case tx ob of
                 Some d \<Rightarrow> if has (mode ob) I2S_MODE_TX
                           then run_bind (take_dma_mux d) (\<lambda>d'. Inr (ob\<lparr>tx := Some d'\<rparr>)) else Inr ob
               | None \<Rightarrow> Inr ob) (\<lambda>ob1.
     case rx ob1 of
       Some d \<Rightarrow> if has (mode ob1) I2S_MODE_RX
                 then run_bind (take_dma_mux d) (\<lambda>d'. Inr (ob1\<lparr>rx := Some d'\<rparr>)) else Inr ob1
     | None \<Rightarrow> Inr ob1)"

definition unlock_rings :: "i2s_obj_t \<Rightarrow> i2s_obj_t run" where
  "unlock_rings ob =
     run_bind (case tx ob of
                 Some d \<Rightarrow> if has (mode ob) I2S_MODE_TX
                           then run_bind (give_dma_mux d) (\<lambda>d'. Inr (ob\<lparr>tx := Some d'\<rparr>)) else Inr ob
               | None \<Rightarrow> Inr ob) (\<lambda>ob1.
     case rx ob1 of
       Some d \<Rightarrow> if has (mode ob1) I2S_MODE_RX
                 then run_bind (give_dma_mux d) (\<lambda>d'. Inr (ob1\<lparr>rx := Some d'\<rparr>)) else Inr ob1
     | None \<Rightarrow> Inr ob1)"

definition set_channels :: "nat \<Rightarrow> nat \<Rightarrow> i2s_obj_t \<Rightarrow> i2s_drv \<Rightarrow> i2s_drv" where
  "set_channels n ch ob v =
     (if channel_num ob \<noteq> ch then
        set_obj n (Some (ob\<lparr>channel_num := (if ch = 2 then 2 else 1)\<rparr>))
          (upd_regs n (\<lambda>r. fifo_conf_update (\<lambda>f. f
               \<lparr>tx_fifo_mod := (if ch = 2 then tx_fifo_mod f - 1 else tx_fifo_mod f + 1),
                rx_fifo_mod := (if ch = 2 then rx_fifo_mod f - 1 else rx_fifo_mod f + 1)\<rparr>)
             (r\<lparr>tx_chan_mod := (if ch = 2 then 0 else 1), rx_chan_mod := (if ch = 2 then 0 else 1)\<rparr>)) v)
      else set_obj n (Some ob) v)"

definition fifo_width :: "nat \<Rightarrow> nat \<Rightarrow> i2s_dev \<Rightarrow> i2s_dev" where
  "fifo_width old new r =
     (if old \<le> 16 \<and> 16 < new then
        fifo_conf_update (\<lambda>f. f\<lparr>tx_fifo_mod := tx_fifo_mod f + 2, rx_fifo_mod := rx_fifo_mod f + 2\<rparr>) r
      else if 16 < old \<and> new \<le> 16 then
        fifo_conf_update (\<lambda>f. f\<lparr>tx_fifo_mod := tx_fifo_mod f - 2, rx_fifo_mod := rx_fifo_mod f - 2\<rparr>) r
      else r)"

text \<open>The sample width of the object: bytes rounded up to half-words, buffer length limited to 4092 bytes.\<close>

definition set_width :: "nat \<Rightarrow> i2s_obj_t \<Rightarrow> i2s_obj_t" where
  "set_width bits ob =
     (let bytes = ((bits + 15) div 16) * 2 in
      ob\<lparr>bits_per_sample := bits, bytes_per_sample := bytes,
         dma_buf_len := (if dma_buf_len ob * bytes * channel_num ob > 4092
                         then 4092 div bytes div channel_num ob else dma_buf_len ob)\<rparr>)"

text \<open>
  The new ring for one direction: \<open>Inr (Inl v)\<close> is the early return after a failed allocation,
  \<open>Inr (Inr v)\<close> the normal end.
\<close>

definition recreate_tx :: "nat \<Rightarrow> i2s_drv \<Rightarrow> (i2s_drv + i2s_drv) run" where
  "recreate_tx n v =
     (case objs v n of None \<Rightarrow> Inl Null_Pointer
      | Some ob \<Rightarrow>
          if has (mode ob) I2S_MODE_TX then
            run_bind (i2s_create_dma_queue (bytes_per_sample ob * channel_num ob) (dma_buf_count ob)
                        (dma_buf_len ob) (hp v)) (\<lambda>(d, h).
              let v1 = set_obj n (Some (ob\<lparr>tx := d\<rparr>)) (v\<lparr>hp := h\<rparr>) in
              case d of
                None \<Rightarrow> run_bind (i2s_driver_uninstall n v1) (\<lambda>(_, v2). Inr (Inl v2))
              | Some dma \<Rightarrow>
                  let v2 = upd_regs n (out_link_update (\<lambda>l. l\<lparr>link_addr :=
                             (case desc dma ! 0 of Some e \<Rightarrow> ucast (desc_addr e) | None \<Rightarrow> 0)\<rparr>)) v1 in
                  run_bind (if tx ob \<noteq> None then destroy_ring (dma_buf_count ob) (tx ob) v2 else Inr v2)
                    (\<lambda>v3. Inr (Inr v3)))
          else Inr (Inr v))"

definition recreate_rx :: "nat \<Rightarrow> i2s_drv \<Rightarrow> (i2s_drv + i2s_drv) run" where
  "recreate_rx n v =
     (case objs v n of None \<Rightarrow> Inl Null_Pointer
      | Some ob \<Rightarrow>
          if has (mode ob) I2S_MODE_RX then
            run_bind (i2s_create_dma_queue (bytes_per_sample ob * channel_num ob) (dma_buf_count ob)
                        (dma_buf_len ob) (hp v)) (\<lambda>(d, h).
              let v1 = set_obj n (Some (ob\<lparr>rx := d\<rparr>)) (v\<lparr>hp := h\<rparr>) in
              case d of
                None \<Rightarrow> run_bind (i2s_driver_uninstall n v1) (\<lambda>(_, v2). Inr (Inl v2))
              | Some dma \<Rightarrow>
                  let v2 = upd_regs n (\<lambda>r. in_link_update (\<lambda>l. l\<lparr>link_addr :=
                             (case desc dma ! 0 of Some e \<Rightarrow> ucast (desc_addr e) | None \<Rightarrow> 0)\<rparr>)
                             (r\<lparr>rx_eof_num := of_nat ((dma_buf_len ob * channel_num ob * bytes_per_sample ob) div 4)\<rparr>)) v1 in
                  run_bind (if rx ob \<noteq> None then destroy_ring (dma_buf_count ob) (rx ob) v2 else Inr v2)
                    (\<lambda>v3. Inr (Inr v3)))
          else Inr (Inr v))"

definition change_width :: "nat \<Rightarrow> nat \<Rightarrow> i2s_drv \<Rightarrow> (i2s_drv + i2s_drv) run" where
  "change_width n bits v =
     (case objs v n of None \<Rightarrow> Inl Null_Pointer
      | Some ob \<Rightarrow>
          if bits \<noteq> bits_per_sample ob then
            run_bind (recreate_tx n (set_obj n (Some (set_width bits ob))
                                      (upd_regs n (fifo_width (bits_per_sample ob) bits) v))) (\<lambda>t.
              case t of Inl v1 \<Rightarrow> Inr (Inl v1) | Inr v1 \<Rightarrow> recreate_rx n v1)
          else Inr (Inr v))"

definition finish_clk :: "nat \<Rightarrow> u32 \<Rightarrow> nat \<Rightarrow> i2s_drv \<Rightarrow> (esp_err_t \<times> i2s_drv) run" where
  "finish_clk n rate bits v =
     (case objs v n of None \<Rightarrow> Inl Null_Pointer
      | Some ob \<Rightarrow>
          run_bind (clk_dividers (mode ob) (pdm_conf (regs v n)) rate bits) (\<lambda>(i, dec, bck).
          run_bind (real_rate bck bits i) (\<lambda>_.
          run_bind (unlock_rings ob) (\<lambda>ob1.
            i2s_start n (set_obj n (Some ob1) (upd_regs n (write_dividers i dec bck bits) v))))))"

definition i2s_set_clk ::
  "nat \<Rightarrow> u32 \<Rightarrow> nat \<Rightarrow> nat \<Rightarrow> i2s_drv \<Rightarrow> (esp_err_t \<times> i2s_drv) run" where
  "i2s_set_clk n rate bits ch v =
     (if bits = 0 then Inl Div_By_Zero
      else if \<not> n < I2S_NUM_MAX then Inr (ESP_ERR_INVALID_ARG, v)
      else if bits mod 8 \<noteq> 0 \<or> bits > 32 \<or> bits < 16 then Inr (ESP_ERR_INVALID_ARG, v)
      else case objs v n of None \<Rightarrow> Inr (ESP_FAIL, v)
      | Some ob \<Rightarrow>
          if clkmdiv_too_large rate bits then Inr (ESP_FAIL, v)
          else
            run_bind (lock_rings ob) (\<lambda>ob1.
            run_bind (i2s_stop n (set_obj n (Some ob1) v)) (\<lambda>(_, v1).
            run_bind (case objs v1 n of None \<Rightarrow> Inl Null_Pointer
                      | Some ob2 \<Rightarrow> change_width n bits (set_channels n ch ob2 v1)) (\<lambda>t.
            case t of Inl v2 \<Rightarrow> Inr (ESP_FAIL, v2)
            | Inr v2 \<Rightarrow> finish_clk n rate bits v2))))"

definition i2s_set_sample_rates :: "nat \<Rightarrow> u32 \<Rightarrow> i2s_drv \<Rightarrow> (esp_err_t \<times> i2s_drv) run" where
  "i2s_set_sample_rates n rate v =
     (if \<not> n < I2S_NUM_MAX then Inr (ESP_ERR_INVALID_ARG, v)
      else case objs v n of None \<Rightarrow> Inl Null_Pointer
      | Some ob \<Rightarrow>
          if \<not> 0 < bytes_per_sample ob then Inr (ESP_ERR_INVALID_ARG, v)
          else i2s_set_clk n rate (bits_per_sample ob) (channel_num ob) v)"

section \<open>Install\<close>

definition new_obj :: "nat \<Rightarrow> i2s_config_t \<Rightarrow> i2s_obj_t" where
  "new_obj n cfg =
     \<lparr>i2s_num = n, i2s_queue = None, dma_buf_count = nat (cfg_dma_buf_count cfg),
      dma_buf_len = nat (cfg_dma_buf_len cfg), rx = None, tx = None,
      channel_num = (if cfg_channel_format cfg < I2S_CHANNEL_FMT_ONLY_RIGHT then 2 else 1),
      bytes_per_sample = 0, bits_per_sample = 0, mode = cfg_mode cfg, intr_enabled = False\<rparr>"

text \<open>
  \<open>isr_err\<close> is what \<^verbatim>\<open>esp_intr_alloc\<close> returns; \<open>queue_size\<close> is given when the caller wants an event
  queue. A failed queue allocation ends in the \<^verbatim>\<open>configASSERT\<close> of \<^verbatim>\<open>uxQueueSpacesAvailable\<close>.
\<close>

definition i2s_driver_install ::
  "esp_err_t \<Rightarrow> nat \<Rightarrow> i2s_config_t option \<Rightarrow> u32 option \<Rightarrow> i2s_drv \<Rightarrow> (esp_err_t \<times> i2s_drv) run" where
  "i2s_driver_install isr_err n config queue_size v =
     (if \<not> n < I2S_NUM_MAX then Inr (ESP_ERR_INVALID_ARG, v)
      else case config of None \<Rightarrow> Inr (ESP_ERR_INVALID_ARG, v)
      | Some cfg \<Rightarrow>
          if \<not> (2 \<le> cfg_dma_buf_count cfg \<and> cfg_dma_buf_count cfg \<le> 128) then Inr (ESP_ERR_INVALID_ARG, v)
          else if \<not> (8 \<le> cfg_dma_buf_len cfg \<and> cfg_dma_buf_len cfg \<le> 1024) then Inr (ESP_ERR_INVALID_ARG, v)
          else if objs v n \<noteq> None then Inr (ESP_ERR_INVALID_STATE, v)
          else
            let (a, h) = malloc (hp v); v0 = v\<lparr>hp := h\<rparr> in
            if a = 0 then Inr (ESP_FAIL, v0)
            else
              let v1 = set_obj n (Some (new_obj n cfg))
                         (v0\<lparr>obj_addr := (obj_addr v0)(n := a), periph_on := (periph_on v0)(n := True)\<rparr>) in
              if isr_err \<noteq> ESP_OK then Inr (isr_err, set_obj n None (v1\<lparr>hp := free a (hp v1)\<rparr>))
              else
                run_bind (i2s_stop n v1) (\<lambda>(_, v2).
                run_bind (i2s_param_config (cfg_mode cfg) cfg (regs v2 n)) (\<lambda>r.
                let v3 = upd_regs n (\<lambda>_. r) v2 in
                run_bind (case queue_size of None \<Rightarrow> Inr v3
                          | Some qs \<Rightarrow> run_bind (new_queue qs 8 (hp v3)) (\<lambda>(q, h3).
                              if q = None then Inl Assert_Failed
                              else Inr (set_obj n (map_option (\<lambda>ob. ob\<lparr>i2s_queue := q\<rparr>) (objs v3 n))
                                         (v3\<lparr>hp := h3\<rparr>)))) (\<lambda>v4.
                i2s_set_clk n (word_of_int (cfg_sample_rate cfg)) (cfg_bits_per_sample cfg)
                  (channel_num (new_obj n cfg)) v4))))"

section \<open>Data functions\<close>

definition ESP_ERR_INVALID_ARG_code :: int where
  "ESP_ERR_INVALID_ARG_code = 0x102"

definition i2s_push_sample :: "nat \<Rightarrow> byte list \<Rightarrow> i2s_drv \<Rightarrow> (int \<times> i2s_drv) run" where
  "i2s_push_sample n sample v =
     (if \<not> n < I2S_NUM_MAX then Inr (ESP_ERR_INVALID_ARG_code, v)
      else case objs v n of None \<Rightarrow> Inl Null_Pointer
      | Some ob \<Rightarrow>
          (case tx ob of None \<Rightarrow> Inl Null_Pointer
           | Some d \<Rightarrow>
               run_bind (push_sample (bytes_per_sample ob * channel_num ob) sample d) (\<lambda>(k, d').
                 Inr (int k, set_obj n (Some (ob\<lparr>tx := Some d'\<rparr>)) v))))"

definition i2s_pop_sample :: "nat \<Rightarrow> i2s_drv \<Rightarrow> (byte list \<times> int \<times> i2s_drv) run" where
  "i2s_pop_sample n v =
     (if \<not> n < I2S_NUM_MAX then Inr ([], ESP_ERR_INVALID_ARG_code, v)
      else case objs v n of None \<Rightarrow> Inl Null_Pointer
      | Some ob \<Rightarrow>
          (case rx ob of None \<Rightarrow> Inl Null_Pointer
           | Some d \<Rightarrow>
               run_bind (pop_sample (bytes_per_sample ob * channel_num ob) d) (\<lambda>(bs, d').
                 Inr (bs, int (length bs), set_obj n (Some (ob\<lparr>rx := Some d'\<rparr>)) v))))"

definition i2s_write_bytes :: "nat \<Rightarrow> byte list \<Rightarrow> i2s_drv \<Rightarrow> ((int \<times> i2s_drv) run) option" where
  "i2s_write_bytes n src v =
     (if \<not> n < I2S_NUM_MAX then Some (Inr (ESP_ERR_INVALID_ARG_code, v))
      else case objs v n of None \<Rightarrow> Some (Inl Null_Pointer)
      | Some ob \<Rightarrow>
          (case tx ob of None \<Rightarrow> Some (Inr (0, v))
           | Some d \<Rightarrow>
               map_option (\<lambda>r. run_bind r (\<lambda>(k, d').
                 Inr (int k, set_obj n (Some (ob\<lparr>tx := Some d'\<rparr>)) v))) (write_bytes src d)))"

definition i2s_read_bytes :: "nat \<Rightarrow> nat \<Rightarrow> i2s_drv \<Rightarrow> ((byte list \<times> int \<times> i2s_drv) run) option" where
  "i2s_read_bytes n sz v =
     (if \<not> n < I2S_NUM_MAX then Some (Inr ([], ESP_ERR_INVALID_ARG_code, v))
      else case objs v n of None \<Rightarrow> Some (Inl Null_Pointer)
      | Some ob \<Rightarrow>
          (case rx ob of None \<Rightarrow> Some (Inr ([], 0, v))
           | Some d \<Rightarrow>
               map_option (\<lambda>r. run_bind r (\<lambda>(bs, d').
                 Inr (bs, int (length bs), set_obj n (Some (ob\<lparr>rx := Some d'\<rparr>)) v))) (read_bytes sz d)))"

definition zero_ring :: "nat \<Rightarrow> i2s_dma_t \<Rightarrow> i2s_dma_t" where
  "zero_ring cnt d =
     (if buf_arr d \<noteq> 0 \<and> buf_size d \<noteq> 0
      then d\<lparr>dma_mem := (\<lambda>p. if p \<in> set (take cnt (buf d)) then Some (replicate (buf_size d) 0)
                             else dma_mem d p)\<rparr>
      else d)"

definition i2s_zero_dma_buffer :: "nat \<Rightarrow> i2s_drv \<Rightarrow> (esp_err_t \<times> i2s_drv) run" where
  "i2s_zero_dma_buffer n v =
     (if \<not> n < I2S_NUM_MAX then Inr (ESP_ERR_INVALID_ARG, v)
      else case objs v n of None \<Rightarrow> Inl Null_Pointer
      | Some ob \<Rightarrow>
          Inr (ESP_OK, set_obj n (Some (ob\<lparr>rx := map_option (zero_ring (dma_buf_count ob)) (rx ob),
                                         tx := map_option (zero_ring (dma_buf_count ob)) (tx ob)\<rparr>)) v))"

definition i2s_interrupt :: "byte list \<Rightarrow> nat \<Rightarrow> i2s_drv \<Rightarrow> i2s_drv run" where
  "i2s_interrupt pad n v =
     (case objs v n of None \<Rightarrow> Inl Null_Pointer
      | Some ob \<Rightarrow>
          run_bind (i2s_intr_handler_default pad ob (regs v n)) (\<lambda>(ob', r').
            Inr (set_obj n (Some ob') (upd_regs n (\<lambda>_. r') v))))"

section \<open>A transmitting port\<close>

text \<open>
  The state in which the speaker uses port \<open>n\<close>: installed, transmit only, with a well-formed ring
  whose size and position are multiples of the sample size and whose mutex is free.
\<close>

definition sample_bytes :: "i2s_obj_t \<Rightarrow> nat" where
  "sample_bytes ob = bytes_per_sample ob * channel_num ob"

definition ring_ready :: "nat \<Rightarrow> i2s_dma_t \<Rightarrow> bool" where
  "ring_ready z d \<longleftrightarrow> dma_ok d \<and> 0 < z \<and> z dvd buf_size d \<and> z dvd rw_pos d \<and>
     (case dma_mux d of None \<Rightarrow> False | Some (a, m) \<Rightarrow> bin_sem m \<and> sem_given m)"

definition obj_ready :: "i2s_obj_t \<Rightarrow> bool" where
  "obj_ready ob \<longleftrightarrow>
     has (mode ob) I2S_MODE_TX \<and> \<not> has (mode ob) I2S_MODE_RX \<and> rx ob = None \<and>
     bits_per_sample ob \<in> {16, 24, 32} \<and> bytes_per_sample ob = ((bits_per_sample ob + 15) div 16) * 2 \<and>
     channel_num ob \<in> {1, 2} \<and>
     (case tx ob of None \<Rightarrow> False | Some d \<Rightarrow> ring_ready (sample_bytes ob) d)"

definition tx_port :: "nat \<Rightarrow> i2s_drv \<Rightarrow> bool" where
  "tx_port n v \<longleftrightarrow> n < I2S_NUM_MAX \<and> (case objs v n of None \<Rightarrow> False | Some ob \<Rightarrow> obj_ready ob)"

lemma obj_readyE:
  assumes "obj_ready ob"
  obtains d a m where "tx ob = Some d" "ring_ready (sample_bytes ob) d" "dma_mux d = Some (a, m)"
    "bin_sem m" "sem_given m" "dma_ok d"
  using assms by (auto simp: obj_ready_def ring_ready_def split: option.splits)

lemma dma_mux_update_ok [simp]: "dma_ok (d\<lparr>dma_mux := x\<rparr>) = dma_ok d"
  by (simp add: dma_ok_def ptr_queue_def waiting_buffers_def)

text \<open>
  With the width and channel count unchanged, \<^verbatim>\<open>i2s_set_clk\<close> amounts to stopping the port,
  programming the dividers and starting it again.
\<close>

definition relocked :: "i2s_obj_t \<Rightarrow> i2s_dma_t option" where
  "relocked ob =
     (case tx ob of None \<Rightarrow> None | Some d \<Rightarrow>
        (case dma_mux d of None \<Rightarrow> None | Some (a, m) \<Rightarrow>
           (case xSemaphoreTake None m of None \<Rightarrow> None
            | Some m1 \<Rightarrow> Some (d\<lparr>dma_mux := Some (a, xSemaphoreGive m1)\<rparr>))))"

lemma relocked_ready:
  assumes "obj_ready ob"
  obtains d d' where "tx ob = Some d" "relocked ob = Some d'" "\<exists>x. d' = d\<lparr>dma_mux := x\<rparr>"
    "ring_ready (sample_bytes ob) d'"
proof -
  obtain d a m where d: "tx ob = Some d" "ring_ready (sample_bytes ob) d" "dma_mux d = Some (a, m)"
      "bin_sem m" "sem_given m" "dma_ok d"
    using assms by (rule obj_readyE)
  obtain m1 where m1: "xSemaphoreTake None m = Some m1" "bin_sem m1"
    using sem.take_given [OF d(4,5)] by blast
  show ?thesis
    using that [of d "d\<lparr>dma_mux := Some (a, xSemaphoreGive m1)\<rparr>"] d m1
      sem.give_inv [OF m1(2)] sem.give_given [OF m1(2)]
    by (auto simp: relocked_def ring_ready_def)
qed

lemma i2s_set_clk_same_format:
  assumes port: "tx_port n v" and ob: "objs v n = Some ob"
    and ok: "\<not> clkmdiv_too_large rate (bits_per_sample ob)"
    and dv: "clk_dividers (mode ob) (pdm_conf (regs v n)) rate (bits_per_sample ob) = Inr (i, dec, bck)"
  shows "i2s_set_clk n rate (bits_per_sample ob) (channel_num ob) v =
    (case real_rate bck (bits_per_sample ob) i of Inl e \<Rightarrow> Inl e
     | Inr _ \<Rightarrow> Inr (ESP_OK, set_obj n (Some (ob\<lparr>tx := relocked ob, intr_enabled := True\<rparr>))
          (upd_regs n (\<lambda>r. start_regs (mode ob) (write_dividers i dec bck (bits_per_sample ob)
             (stop_regs (mode ob) r))) v)))"
proof -
  have r: "obj_ready ob" "n < I2S_NUM_MAX" using port ob by (simp_all add: tx_port_def)
  obtain d a m where d: "tx ob = Some d" "ring_ready (sample_bytes ob) d" "dma_mux d = Some (a, m)"
      "bin_sem m" "sem_given m" "dma_ok d"
    using r(1) by (rule obj_readyE)
  obtain m1 where m1: "xSemaphoreTake None m = Some m1" "bin_sem m1"
    using sem.take_given [OF d(4,5)] by blast
  have flags: "has (mode ob) I2S_MODE_TX" "\<not> has (mode ob) I2S_MODE_RX" "rx ob = None"
    using r(1) by (simp_all add: obj_ready_def)
  have bits: "bits_per_sample ob \<noteq> 0" "bits_per_sample ob mod 8 = 0" "\<not> bits_per_sample ob > 32"
      "\<not> bits_per_sample ob < 16"
    using r(1) by (auto simp: obj_ready_def)
  have pdm: "pdm_conf (stop_regs (mode ob) r) = pdm_conf r" for r
    by (simp add: stop_regs_def Let_def reset_dma_def i2s_reset_fifo_def i2s_disable_tx_intr_def
        i2s_disable_rx_intr_def)
  let ?ob1 = "ob\<lparr>tx := Some (d\<lparr>dma_mux := Some (a, m1)\<rparr>)\<rparr>"
  have lock: "lock_rings ob = Inr ?ob1"
    using d m1 flags by (simp add: lock_rings_def take_dma_mux_def)
  let ?v1 = "set_obj n (Some (?ob1\<lparr>intr_enabled := False\<rparr>)) (upd_regs n (stop_regs (mode ob)) (set_obj n (Some ?ob1) v))"
  have stop: "i2s_stop n (set_obj n (Some ?ob1) v) = Inr (ESP_OK, ?v1)"
    by (simp add: i2s_stop_def)
  have same: "change_width n (bits_per_sample ob) (set_channels n (channel_num ob) (?ob1\<lparr>intr_enabled := False\<rparr>) ?v1)
      = Inr (Inr (set_obj n (Some (?ob1\<lparr>intr_enabled := False\<rparr>)) ?v1))"
    by (simp add: set_channels_def change_width_def)
  have unlock: "unlock_rings (?ob1\<lparr>intr_enabled := False\<rparr>)
      = Inr (?ob1\<lparr>intr_enabled := False, tx := Some (d\<lparr>dma_mux := Some (a, xSemaphoreGive m1)\<rparr>)\<rparr>)"
    using flags by (simp add: unlock_rings_def give_dma_mux_def)
  show ?thesis
  proof (cases "real_rate bck (bits_per_sample ob) i")
    case (Inl e)
    then show ?thesis
      using bits r(2) ob ok lock stop same dv pdm
      by (simp add: i2s_set_clk_def finish_clk_def)
  next
    case (Inr rr)
    then show ?thesis
      using bits r(2) ob ok lock stop same dv pdm unlock d m1
      by (simp add: i2s_set_clk_def finish_clk_def i2s_start_def set_obj_def upd_regs_def relocked_def)
  qed
qed

lemma start_regs_running:
  assumes "has md I2S_MODE_TX"
  shows "tx_start (conf (start_regs md r))" "link_start (out_link (start_regs md r))"
    "out_eof (int_ena (start_regs md r))" "clk (start_regs md r) = clk r"
  using assms by (simp_all add: start_regs_def Let_def i2s_enable_tx_intr_def i2s_enable_rx_intr_def)

lemma sample_bytes_updates [simp]:
  "sample_bytes (ob\<lparr>tx := x\<rparr>) = sample_bytes ob" "sample_bytes (ob\<lparr>intr_enabled := b\<rparr>) = sample_bytes ob"
  by (simp_all add: sample_bytes_def)

lemma set_rates_dac:
  assumes "tx_port n v" "objs v n = Some ob" "has (mode ob) I2S_MODE_DAC_BUILT_IN"
    "bits_per_sample ob = 16 \<or> bits_per_sample ob = 32" "unat rate \<le> 11184810"
  shows "if unat rate < 2442 then i2s_set_sample_rates n rate v = Inr (ESP_FAIL, v)
     else if unat rate \<le> 1333333 then
       \<exists>v' ob' d d' r i dec.
         i2s_set_sample_rates n rate v = Inr (ESP_OK, v') \<and> tx_port n v' \<and>
         objs v' = (objs v)(n := Some ob') \<and> intr_enabled ob' \<and> mode ob' = mode ob \<and>
         bits_per_sample ob' = bits_per_sample ob \<and> sample_bytes ob' = sample_bytes ob \<and> drv_dac v' = drv_dac v \<and>
         tx ob = Some d \<and> tx ob' = Some d' \<and> dma_mem d' = dma_mem d \<and> waiting_buffers d' = waiting_buffers d \<and>
         rw_pos d' = rw_pos d \<and> curr_ptr d' = curr_ptr d \<and>
         clk_dividers (mode ob) (pdm_conf (regs v n)) rate (bits_per_sample ob) = Inr (i, dec, 60) \<and>
         r = regs v' n \<and> tx_start (conf r) \<and> link_start (out_link r) \<and> out_eof (int_ena r) \<and>
         clk r = clk (write_dividers i dec 60 (bits_per_sample ob) (regs v n))
     else i2s_set_sample_rates n rate v = Inl Div_By_Zero"
proof -
  have r: "obj_ready ob" "n < I2S_NUM_MAX" using assms(1,2) by (simp_all add: tx_port_def)
  have bytes: "0 < bytes_per_sample ob" using r(1) by (auto simp: obj_ready_def)
  have set: "i2s_set_sample_rates n rate v = i2s_set_clk n rate (bits_per_sample ob) (channel_num ob) v"
    using assms(2) r(2) bytes by (simp add: i2s_set_sample_rates_def)
  have fac: "clk_factor (bits_per_sample ob) = 256" using assms(4) by (auto simp: clk_factor_def)
  show ?thesis
  proof (cases "unat rate < 2442")
    case True
    have "unat (rate * 256) = unat rate * 256" using assms(5) by (simp add: unat_word_ariths)
    then have "clkmdiv_too_large rate (bits_per_sample ob)"
      using True fac by (auto simp: clkmdiv_too_large_def I2S_BASE_CLK_def)
    then show ?thesis
      using True assms(2,4) r(2) unfolding set by (auto simp: i2s_set_clk_def)
  next
    case False
    then obtain i dec where dv: "clk_dividers (mode ob) (pdm_conf (regs v n)) rate (bits_per_sample ob) = Inr (i, dec, 60)"
        "\<not> clkmdiv_too_large rate (bits_per_sample ob)"
        "1333333 < unat rate \<longleftrightarrow> real_rate 60 (bits_per_sample ob) i = Inl Div_By_Zero"
      using dac_dividers [OF assms(3) _ assms(5,4)] by (metis not_less)
    note clk = i2s_set_clk_same_format [OF assms(1,2) dv(2,1)]
    show ?thesis
    proof (cases "unat rate \<le> 1333333")
      case False
      then have "real_rate 60 (bits_per_sample ob) i = Inl Div_By_Zero" using dv(3) by simp
      with False \<open>\<not> unat rate < 2442\<close> show ?thesis unfolding set clk by simp
    next
      case True
      then obtain rr where rr: "real_rate 60 (bits_per_sample ob) i = Inr rr"
        using dv(3) by (auto simp: real_rate_def Let_def split: if_splits)
      obtain d d' where d: "tx ob = Some d" "relocked ob = Some d'" "\<exists>x. d' = d\<lparr>dma_mux := x\<rparr>"
          "ring_ready (sample_bytes ob) d'"
        using relocked_ready [OF r(1)] by blast
      let ?ob' = "ob\<lparr>tx := relocked ob, intr_enabled := True\<rparr>"
      let ?v' = "set_obj n (Some ?ob') (upd_regs n (\<lambda>r. start_regs (mode ob)
          (write_dividers i dec 60 (bits_per_sample ob) (stop_regs (mode ob) r))) v)"
      have tx: "has (mode ob) I2S_MODE_TX" using r(1) by (simp add: obj_ready_def)
      have clk_eq: "clk (write_dividers i dec 60 b (stop_regs md u)) = clk (write_dividers i dec 60 b u)" for b md u
        by (simp add: write_dividers_def stop_regs_def Let_def reset_dma_def i2s_reset_fifo_def
            i2s_disable_tx_intr_def i2s_disable_rx_intr_def)
      have port: "tx_port n ?v'"
        using r d by (simp add: tx_port_def obj_ready_def)
      have "i2s_set_sample_rates n rate v = Inr (ESP_OK, ?v')"
        unfolding set clk rr by simp
      moreover have "dma_mem d' = dma_mem d" "waiting_buffers d' = waiting_buffers d"
          "rw_pos d' = rw_pos d" "curr_ptr d' = curr_ptr d"
        using d(3) by (auto simp: waiting_buffers_def)
      ultimately show ?thesis
        using True \<open>\<not> unat rate < 2442\<close> port d(1,2) dv(1) start_regs_running [OF tx] clk_eq
        by (subst if_not_P, simp, subst if_P, simp)
          (intro exI [of _ ?v'] exI [of _ ?ob'] exI [of _ d] exI [of _ d']
            exI [of _ "regs ?v' n"] exI [of _ i] exI [of _ dec], simp)
    qed
  qed
qed


section \<open>Installing the driver\<close>

definition clipped_len :: "nat \<Rightarrow> nat \<Rightarrow> nat \<Rightarrow> nat" where
  "clipped_len len bytes ch = (if 4092 < len * bytes * ch then 4092 div bytes div ch else len)"

text \<open>The part of \<^verbatim>\<open>i2s_set_clk\<close> that follows the checks, on a port that has no ring yet.\<close>

lemma first_set_clk:
  assumes n: "n < I2S_NUM_MAX" and ob: "objs v n = Some ob" "tx ob = None" "rx ob = None"
      "channel_num ob = 2" "bits_per_sample ob = 0" "has (mode ob) I2S_MODE_TX" "\<not> has (mode ob) I2S_MODE_RX"
      "has (mode ob) I2S_MODE_DAC_BUILT_IN" "2 \<le> dma_buf_count ob" "dma_buf_count ob \<le> 128" "0 < dma_buf_len ob"
    and bits: "bits = 16 \<or> bits = 32" and rate: "2442 \<le> unat rate" "unat rate \<le> 1333333"
    and m: "mallocs (hp v) = a # ba # bs @ da # das @ qa # ma # rest"
    and nz: "a \<noteq> 0" "ba \<noteq> 0" "da \<noteq> 0" "qa \<noteq> 0" "ma \<noteq> 0" "0 \<notin> set bs" "0 \<notin> set das"
    and len: "length bs = dma_buf_count ob" "length das = dma_buf_count ob"
  defines "bytes \<equiv> ((bits + 15) div 16) * 2"
  defines "blen \<equiv> clipped_len (dma_buf_len ob) bytes 2"
  shows "\<exists>d r'. i2s_set_clk n rate bits 2 v =
       Inr (ESP_OK, set_obj n (Some (ob\<lparr>bits_per_sample := bits, bytes_per_sample := bytes,
              dma_buf_len := blen, tx := Some d, intr_enabled := True\<rparr>))
            (v\<lparr>regs := (regs v)(n := r'),
               hp := (hp v)\<lparr>mallocs := rest, live := ma # qa # rev das @ da # rev bs @ ba # a # live (hp v)\<rparr>\<rparr>)) \<and>
     ring_ready (bytes * 2) d \<and> buf d = bs \<and> buf_size d = blen * (bytes * 2) \<and> rw_pos d = 0 \<and>
     waiting_buffers d = [] \<and> desc d = link_descs das bs (blen * (bytes * 2)) \<and> dma_addr d = a \<and> buf_arr d = ba \<and>
     desc_arr d = da \<and> (\<exists>q mx. dma_queue d = Some (qa, q) \<and> dma_mux d = Some (ma, mx)) \<and>
     tx_start (conf r') \<and> link_start (out_link r') \<and> out_eof (int_ena r')"
proof -
  have b24: "bytes = 2 \<or> bytes = 4" using bits by (auto simp: bytes_def)
  have bl: "0 < blen * (bytes * 2)"
    using b24 ob(11) by (auto simp: blen_def clipped_len_def)
  obtain d h' q mx where c: "i2s_create_dma_queue (bytes * 2) (dma_buf_count ob) blen (hp v) = Inr (Some d, h')"
      "dma_ok d" "buf d = bs" "buf_size d = blen * (bytes * 2)" "rw_pos d = 0" "waiting_buffers d = []"
      "desc d = link_descs das bs (blen * (bytes * 2))" "dma_addr d = a" "buf_arr d = ba" "desc_arr d = da"
      "dma_queue d = Some (qa, q)" "dma_mux d = Some (ma, mx)" "bin_sem mx" "sem_given mx"
      "mallocs h' = rest" "live h' = ma # qa # rev das @ da # rev bs @ ba # a # live (hp v)"
    using create_dma_ok [OF m nz len ob(9,10) bl] by blast
  have h': "h' = (hp v)\<lparr>mallocs := rest, live := ma # qa # rev das @ da # rev bs @ ba # a # live (hp v)\<rparr>"
    using c(15,16) by (cases h') simp
  obtain i dec where dv: "\<And>p. clk_dividers (mode ob) p rate bits = Inr (i, dec, 60)"
      "\<not> clkmdiv_too_large rate bits" "real_rate 60 bits i \<noteq> Inl Div_By_Zero"
  proof -
    have up: "unat rate \<le> 11184810" using rate(2) by simp
    from dac_dividers [OF ob(8) rate(1) up bits, of zero_pdm zero_dev] obtain i dec where
      "clk_dividers (mode ob) zero_pdm rate bits = Inr (i, dec, 60)" "\<not> clkmdiv_too_large rate bits"
      "1333333 < unat rate \<longleftrightarrow> real_rate 60 bits i = Inl Div_By_Zero"
      by (auto simp: Let_def)
    moreover have "clk_dividers (mode ob) p rate bits = clk_dividers (mode ob) zero_pdm rate bits" for p
      using ob(8) by (simp add: clk_dividers_def)
    ultimately show ?thesis using that rate(2) by auto
  qed
  then obtain rr where rr: "real_rate 60 bits i = Inr rr"
    by (auto simp: real_rate_def Let_def split: if_splits)
  have width: "set_width bits (ob\<lparr>intr_enabled := False\<rparr>) =
      ob\<lparr>intr_enabled := False, bits_per_sample := bits, bytes_per_sample := bytes, dma_buf_len := blen\<rparr>"
    using ob(4) by (simp add: set_width_def bytes_def blen_def clipped_len_def Let_def)
  let ?d' = "d\<lparr>dma_mux := Some (ma, xSemaphoreGive mx)\<rparr>"
  have ready: "ring_ready (bytes * 2) ?d'"
    using c(2,4,5,13,14) b24 sem.give_inv sem.give_given
    by (auto simp: ring_ready_def)
  let ?o = "ob\<lparr>intr_enabled := False\<rparr>"
  let ?o3 = "?o\<lparr>bits_per_sample := bits, bytes_per_sample := bytes, dma_buf_len := blen\<rparr>"
  let ?ra = "case desc d ! 0 of Some e \<Rightarrow> ucast (desc_addr e) | None \<Rightarrow> 0"
  let ?r4 = "out_link_update (\<lambda>l. l\<lparr>link_addr := ?ra\<rparr>) (fifo_width 0 bits (stop_regs (mode ob) (regs v n)))"
  let ?r' = "start_regs (mode ob) (write_dividers i dec 60 bits ?r4)"
  define v1 where "v1 = set_obj n (Some ?o) (upd_regs n (stop_regs (mode ob)) (set_obj n (Some ob) v))"
  define v2 where "v2 = set_obj n (Some ?o3) (upd_regs n (fifo_width 0 bits) (set_obj n (Some ?o) v1))"
  define v3 where "v3 = upd_regs n (out_link_update (\<lambda>l. l\<lparr>link_addr := ?ra\<rparr>))
      (set_obj n (Some (?o3\<lparr>tx := Some d\<rparr>)) (v2\<lparr>hp := h'\<rparr>))"
  have lock: "lock_rings ob = Inr ob" using ob(2,3) by (simp add: lock_rings_def)
  have stop: "i2s_stop n (set_obj n (Some ob) v) = Inr (ESP_OK, v1)" by (simp add: i2s_stop_def v1_def)
  have hp2: "hp v2 = hp v" "objs v2 n = Some ?o3" by (simp_all add: v2_def v1_def)
  have rec_tx: "recreate_tx n v2 = Inr (Inr v3)"
    using ob(2,4,6) c(1) hp2 by (simp add: recreate_tx_def v3_def Let_def)
  have o3: "objs v3 n = Some (?o3\<lparr>tx := Some d\<rparr>)" by (simp add: v3_def)
  have rec_rx: "recreate_rx n v3 = Inr (Inr v3)" using o3 ob(7) by (simp add: recreate_rx_def)
  have change: "change_width n bits (set_channels n 2 ?o v1) = Inr (Inr v3)"
    using ob(4,5) bits rec_tx rec_rx width
    by (auto simp add: set_channels_def change_width_def simp flip: v2_def)
  have fin: "finish_clk n rate bits v3 = Inr (ESP_OK,
      set_obj n (Some (?o3\<lparr>tx := Some ?d', intr_enabled := True\<rparr>))
        (upd_regs n (start_regs (mode ob)) (set_obj n (Some (?o3\<lparr>tx := Some ?d'\<rparr>))
          (upd_regs n (write_dividers i dec 60 bits) v3))))"
    using o3 dv(1) rr ob(3,6) c(12)
    by (simp add: finish_clk_def unlock_rings_def give_dma_mux_def i2s_start_def)
  have run: "i2s_set_clk n rate bits 2 v = finish_clk n rate bits v3"
    using n ob(1) bits dv(2) lock stop change
    by (auto simp add: i2s_set_clk_def v1_def)
  have "i2s_set_clk n rate bits 2 v =
       Inr (ESP_OK, set_obj n (Some (ob\<lparr>bits_per_sample := bits, bytes_per_sample := bytes,
              dma_buf_len := blen, tx := Some ?d', intr_enabled := True\<rparr>))
            (v\<lparr>regs := (regs v)(n := ?r'), hp := h'\<rparr>))"
    unfolding run fin
    by (simp add: v3_def v2_def v1_def)
  then show ?thesis
    using ready c start_regs_running [OF ob(6)] unfolding h'
    by (intro exI [of _ ?d'] exI [of _ ?r']) (simp add: waiting_buffers_def)
qed

lemma install_law:
  assumes n: "n < 2" and free_port: "objs v n = None"
    and cfg: "has (cfg_mode cfg) I2S_MODE_TX" "\<not> has (cfg_mode cfg) I2S_MODE_RX"
      "has (cfg_mode cfg) I2S_MODE_DAC_BUILT_IN" "\<not> has (cfg_mode cfg) I2S_MODE_PDM"
      "cfg_channel_format cfg < 3" "2 \<le> cfg_dma_buf_count cfg" "cfg_dma_buf_count cfg \<le> 128"
      "8 \<le> cfg_dma_buf_len cfg" "cfg_dma_buf_len cfg \<le> 1024"
      "cfg_bits_per_sample cfg = 16 \<or> cfg_bits_per_sample cfg = 32"
      "2442 \<le> cfg_sample_rate cfg" "cfg_sample_rate cfg \<le> 1333333"
    and mem: "mallocs (hp v) = oa # ea # a # ba # bs @ da # das @ qa # ma # rest"
      "0 \<notin> {oa, ea, a, ba, da, qa, ma} \<union> set bs \<union> set das"
      "length bs = nat (cfg_dma_buf_count cfg)" "length das = nat (cfg_dma_buf_count cfg)"
    and qs: "qs \<noteq> 0" "unat qs * 8 < 2 ^ 32"
  shows "\<exists>v1 ob d v2. i2s_driver_install ESP_OK n (Some cfg) (Some qs) v = Inr (ESP_OK, v1) \<and>
     tx_port n v1 \<and> objs v1 n = Some ob \<and> tx ob = Some d \<and> intr_enabled ob \<and> buf d = bs \<and>
     waiting_buffers d = [] \<and> buf_size d \<le> 4092 \<and> tx_start (conf (regs v1 n)) \<and>
     i2s_driver_uninstall n v1 = Inr (ESP_OK, v2) \<and> objs v2 n = None \<and>
     mset (live (hp v2)) = mset (live (hp v)) \<and>
     mode ob = cfg_mode cfg \<and> bits_per_sample ob = cfg_bits_per_sample cfg \<and> channel_num ob = 2 \<and>
     drv_dac v1 = drv_dac v \<and> hd (desc d) \<noteq> None \<and> rx ob = None \<and>
     (\<exists>q. i2s_queue ob = Some (ea, q) \<and> queue_inv q \<and> queue_content q = [] \<and> uxLength q = qs \<and> uxItemSize q = 8)"
proof -
  let ?ob = "new_obj n cfg"
  have nz: "oa \<noteq> 0" "ea \<noteq> 0" "a \<noteq> 0" "ba \<noteq> 0" "da \<noteq> 0" "qa \<noteq> 0" "ma \<noteq> 0" "0 \<notin> set bs" "0 \<notin> set das"
    using mem(2) by auto
  have ch: "channel_num ?ob = 2" using cfg(5) by (simp add: new_obj_def I2S_CHANNEL_FMT_ONLY_RIGHT_def)
  let ?rate = "word_of_int (cfg_sample_rate cfg) :: u32"
  have rate: "unat ?rate = nat (cfg_sample_rate cfg)"
    using cfg(11,12) by (simp add: unat_eq_nat_uint uint_word_of_int_eq take_bit_int_eq_self)
  then have rate_b: "2442 \<le> unat ?rate" "unat ?rate \<le> 1333333" using cfg(11,12) by auto
  define va where "va = set_obj n (Some ?ob) (v\<lparr>hp := (hp v)\<lparr>mallocs := ea # a # ba # bs @ da # das @ qa # ma # rest,
      live := oa # live (hp v)\<rparr>, obj_addr := (obj_addr v)(n := oa), periph_on := (periph_on v)(n := True)\<rparr>)"
  define vb where "vb = set_obj n (Some ?ob) (upd_regs n (stop_regs (cfg_mode cfg)) va)"
  have stop: "i2s_stop n va = Inr (ESP_OK, vb)"
    by (simp add: i2s_stop_def va_def vb_def) (simp add: new_obj_def)
  obtain r where r: "i2s_param_config (cfg_mode cfg) cfg (regs vb n) = Inr r"
    using cfg(4) by (simp add: i2s_param_config_def cfg_pdm_def)
  define vc where "vc = upd_regs n (\<lambda>_. r) vb"
  have hpc: "mallocs (hp vc) = ea # a # ba # bs @ da # das @ qa # ma # rest" "live (hp vc) = oa # live (hp v)"
      "objs vc n = Some ?ob"
    by (simp_all add: vc_def vb_def va_def)
  obtain q where q: "new_queue qs 8 (hp vc) = Inr (Some (ea, q),
      (hp vc)\<lparr>mallocs := a # ba # bs @ da # das @ qa # ma # rest, live := ea # oa # live (hp v)\<rparr>)"
      "queue_inv q" "queue_content q = []" "uxLength q = qs" "uxItemSize q = 8"
    using new_queue_ok [OF hpc(1) nz(2) qs(1), of 8] qs(2) hpc(2) by auto
  let ?ob4 = "?ob\<lparr>i2s_queue := Some (ea, q)\<rparr>"
  define vd where "vd = set_obj n (Some ?ob4) (vc\<lparr>hp := (hp vc)\<lparr>mallocs := a # ba # bs @ da # das @ qa # ma # rest,
      live := ea # oa # live (hp v)\<rparr>\<rparr>)"
  have install: "i2s_driver_install ESP_OK n (Some cfg) (Some qs) v
      = i2s_set_clk n ?rate (cfg_bits_per_sample cfg) 2 vd"
  proof -
    have "hp vc = hp vb" "objs vc = objs vb" by (simp_all add: vc_def)
    then show ?thesis
      using n free_port cfg(6-9) mem(1) nz(1) stop r q(1) ch hpc(3)
      by (simp add: i2s_driver_install_def I2S_NUM_MAX_def malloc_Cons vd_def Let_def flip: va_def)
        (simp add: vc_def)
  qed
  let ?by = "((cfg_bits_per_sample cfg + 15) div 16) * 2"
  let ?bl = "clipped_len (nat (cfg_dma_buf_len cfg)) ?by 2"
  have obd: "objs vd n = Some ?ob4" "tx ?ob4 = None" "rx ?ob4 = None" "channel_num ?ob4 = 2"
      "bits_per_sample ?ob4 = 0" "has (mode ?ob4) I2S_MODE_TX" "\<not> has (mode ?ob4) I2S_MODE_RX"
      "has (mode ?ob4) I2S_MODE_DAC_BUILT_IN" "2 \<le> dma_buf_count ?ob4" "dma_buf_count ?ob4 \<le> 128"
      "0 < dma_buf_len ?ob4" "dma_buf_len ?ob4 = nat (cfg_dma_buf_len cfg)"
      "dma_buf_count ?ob4 = nat (cfg_dma_buf_count cfg)"
    using cfg ch by (simp_all add: vd_def) (auto simp: new_obj_def)
  have mm: "mallocs (hp vd) = a # ba # bs @ da # das @ qa # ma # rest" by (simp add: vd_def)
  have nm: "n < I2S_NUM_MAX" using n by (simp add: I2S_NUM_MAX_def)
  obtain d r' qx mx where set: "i2s_set_clk n ?rate (cfg_bits_per_sample cfg) 2 vd = Inr (ESP_OK,
        set_obj n (Some (?ob4\<lparr>bits_per_sample := cfg_bits_per_sample cfg, bytes_per_sample := ?by,
          dma_buf_len := ?bl, tx := Some d, intr_enabled := True\<rparr>))
        (vd\<lparr>regs := (regs vd)(n := r'), hp := (hp vd)\<lparr>mallocs := rest,
          live := ma # qa # rev das @ da # rev bs @ ba # a # live (hp vd)\<rparr>\<rparr>))"
      "ring_ready (?by * 2) d" "buf d = bs" "buf_size d = ?bl * (?by * 2)" "waiting_buffers d = []"
      "desc d = link_descs das bs (?bl * (?by * 2))" "dma_addr d = a" "buf_arr d = ba" "desc_arr d = da"
      "dma_queue d = Some (qa, qx)" "dma_mux d = Some (ma, mx)" "tx_start (conf r')"
    using first_set_clk [OF nm obd(1-11) cfg(10) rate_b mm nz(3-9)] mem(3,4) obd(12,13) by auto
  define obf where "obf = ?ob4\<lparr>bits_per_sample := cfg_bits_per_sample cfg, bytes_per_sample := ?by,
      dma_buf_len := ?bl, tx := Some d, intr_enabled := True\<rparr>"
  define v1 where "v1 = set_obj n (Some obf) (vd\<lparr>regs := (regs vd)(n := r'), hp := (hp vd)\<lparr>mallocs := rest,
      live := ma # qa # rev das @ da # rev bs @ ba # a # live (hp vd)\<rparr>\<rparr>)"
  have obf: "tx obf = Some d" "rx obf = None" "mode obf = cfg_mode cfg" "i2s_queue obf = Some (ea, q)"
      "channel_num obf = 2" "bytes_per_sample obf = ?by" "bits_per_sample obf = cfg_bits_per_sample cfg"
      "dma_buf_count obf = nat (cfg_dma_buf_count cfg)" "intr_enabled obf"
    using ch by (simp_all add: obf_def) (simp_all add: new_obj_def)
  have port: "tx_port n v1"
    using nm obf cfg(1,2,10) set(2)
    by (auto simp: tx_port_def v1_def obj_ready_def sample_bytes_def)
  have size: "?bl * (?by * 2) \<le> 4092"
    using cfg(10) by (auto simp: clipped_len_def)
  let ?h = "(hp vd)\<lparr>mallocs := rest, live := ma # qa # rev das @ da # rev bs @ ba # a # live (hp vd)\<rparr>"
  obtain h2 where h2: "i2s_destroy_dma_queue (nat (cfg_dma_buf_count cfg)) (Some d) ?h = Inr (ESP_OK, h2)"
      "mset (live h2) = mset (live ?h) - mset das - mset bs - {#ba#} - {#da#} - {#qa#} - {#ma#} - {#a#}"
    using destroy_created [of d das "?bl * (?by * 2)" _ qa qx ma mx ?h] set nz mem(3,4) by auto
  have live: "mset (live h2) = add_mset ea (add_mset oa (mset (live (hp v))))"
    unfolding h2(2) by (simp add: vd_def ac_simps)
  have addr: "obj_addr v1 n = oa" by (simp add: v1_def vd_def vc_def vb_def va_def)
  define v2 where "v2 = (set_obj n None ((set_obj n (Some (obf\<lparr>intr_enabled := False\<rparr>))
      (upd_regs n (stop_regs (cfg_mode cfg)) v1))\<lparr>hp := free oa (free ea h2),
        periph_on := (periph_on v1)(n := False)\<rparr>))"
  have "i2s_driver_uninstall n v1 = Inr (ESP_OK, v2)"
  proof -
    have "objs v1 n = Some obf" "hp v1 = ?h" by (simp_all add: v1_def)
    then show ?thesis
      using nm obf cfg(1,2) h2(1) addr
      by (simp add: i2s_driver_uninstall_def i2s_stop_def destroy_ring_def v2_def)
  qed
  moreover have "mset (live (hp v2)) = mset (live (hp v))" "objs v2 n = None"
    using live by (simp_all add: v2_def free_def)
  moreover have "i2s_driver_install ESP_OK n (Some cfg) (Some qs) v = Inr (ESP_OK, v1)"
    unfolding install set(1) v1_def obf_def ..
  moreover have "drv_dac v1 = drv_dac v" by (simp add: v1_def vd_def vc_def vb_def va_def)
  moreover have "hd (desc d) \<noteq> None"
  proof -
    have "0 < length das" using mem(4) cfg(6) by simp
    then show ?thesis unfolding set(6) link_descs_def by (simp add: hd_map)
  qed
  ultimately show ?thesis
    using port obf set(3,4,5,12) size q(2-5)
    by (intro exI [of _ v1] exI [of _ obf] exI [of _ d] exI [of _ v2]) (simp add: v1_def)
qed

text \<open>
  C30. Installing the driver for built-in DAC output, with an event queue, on a free port with
  enough memory: the call succeeds, the port runs with a well-formed empty ring of the
  requested number of buffers, each at most 4092 bytes long, and uninstalling it afterwards
  frees every block the installation allocated.
\<close>

theorem i2s_install_uninstall:
  assumes n: "n < 2" and free_port: "objs v n = None"
    and cfg: "has (cfg_mode cfg) I2S_MODE_TX" "\<not> has (cfg_mode cfg) I2S_MODE_RX"
      "has (cfg_mode cfg) I2S_MODE_DAC_BUILT_IN" "\<not> has (cfg_mode cfg) I2S_MODE_PDM"
      "cfg_channel_format cfg < 3" "2 \<le> cfg_dma_buf_count cfg" "cfg_dma_buf_count cfg \<le> 128"
      "8 \<le> cfg_dma_buf_len cfg" "cfg_dma_buf_len cfg \<le> 1024"
      "cfg_bits_per_sample cfg = 16 \<or> cfg_bits_per_sample cfg = 32"
      "2442 \<le> cfg_sample_rate cfg" "cfg_sample_rate cfg \<le> 1333333"
    and mem: "mallocs (hp v) = oa # ea # a # ba # bs @ da # das @ qa # ma # rest"
      "0 \<notin> {oa, ea, a, ba, da, qa, ma} \<union> set bs \<union> set das"
      "length bs = nat (cfg_dma_buf_count cfg)" "length das = nat (cfg_dma_buf_count cfg)"
    and qs: "qs \<noteq> 0" "unat qs * 8 < 2 ^ 32"
  shows "\<exists>v1 ob d v2. i2s_driver_install ESP_OK n (Some cfg) (Some qs) v = Inr (ESP_OK, v1) \<and>
     tx_port n v1 \<and> objs v1 n = Some ob \<and> tx ob = Some d \<and> intr_enabled ob \<and> buf d = bs \<and>
     waiting_buffers d = [] \<and> buf_size d \<le> 4092 \<and> tx_start (conf (regs v1 n)) \<and>
     i2s_driver_uninstall n v1 = Inr (ESP_OK, v2) \<and> objs v2 n = None \<and>
     mset (live (hp v2)) = mset (live (hp v))"
  using install_law [OF assms] by blast

section \<open>Witnesses\<close>

definition demo_cfg :: i2s_config_t where
  "demo_cfg = \<lparr>cfg_mode = 21, cfg_sample_rate = 44100, cfg_bits_per_sample = 16, cfg_channel_format = 0,
     cfg_communication_format = 2, cfg_dma_buf_count = 2, cfg_dma_buf_len = 64\<rparr>"

definition idle_drv :: i2s_drv where
  "idle_drv = \<lparr>objs = (\<lambda>_. None), obj_addr = (\<lambda>_. 0), regs = (\<lambda>_. zero_dev),
     hp = \<lparr>mallocs = [1, 2, 10, 20, 100, 200, 30, 300, 400, 40, 50], live = []\<rparr>,
     periph_on = (\<lambda>_. False), drv_dac = dac_off\<rparr>"

theorem i2s_install_uninstall_witness:
  "\<exists>v1 v2. i2s_driver_install ESP_OK 0 (Some demo_cfg) (Some 1) idle_drv = Inr (ESP_OK, v1) \<and>
     tx_port 0 v1 \<and> i2s_driver_uninstall 0 v1 = Inr (ESP_OK, v2) \<and> mset (live (hp v2)) = {#}"
  using i2s_install_uninstall [of 0 idle_drv demo_cfg 1 2 10 20 "[100, 200]" 30 "[300, 400]" 40 50 "[]" 1]
  by (auto simp: demo_cfg_def idle_drv_def has_def i2s_flags)

definition demo_drv :: "i2s_dma_t \<Rightarrow> i2s_drv" where
  "demo_drv d = idle_drv\<lparr>objs := (\<lambda>_. None)(0 := Some ((demo_obj d None)\<lparr>mode := 21\<rparr>))\<rparr>"

lemma demo_port: "\<exists>d. tx_port 0 (demo_drv d)"
proof -
  obtain d mx where "dma_ok d" "buf_size d = 32" "rw_pos d = 0" "dma_mux d = Some (50, mx)" "bin_sem mx"
      "sem_given mx"
    using demo_ring by blast
  then have "tx_port 0 (demo_drv d)"
    by (simp add: tx_port_def demo_drv_def idle_drv_def demo_obj_def obj_ready_def ring_ready_def
        sample_bytes_def I2S_NUM_MAX_def has_def i2s_flags)
  then show ?thesis ..
qed


text \<open>
  The error branches of the driver: a port number out of range, a missing configuration, a
  buffer count or length outside its bounds and a second installation are reported and leave the
  state alone, and so do an unsupported sample width or a port that is not installed in
  \<^verbatim>\<open>i2s_set_clk\<close>. A width of zero, however, divides by zero before the width is checked.
\<close>

theorem i2s_driver_errors:
  "(2 \<le> n \<longrightarrow> i2s_driver_install e n c q v = Inr (ESP_ERR_INVALID_ARG, v) \<and>
      i2s_driver_uninstall n v = Inr (ESP_ERR_INVALID_ARG, v) \<and>
      i2s_set_sample_rates n rate v = Inr (ESP_ERR_INVALID_ARG, v)) \<and>
   (n < 2 \<longrightarrow> i2s_driver_install e n None q v = Inr (ESP_ERR_INVALID_ARG, v)) \<and>
   (n < 2 \<and> (cfg_dma_buf_count cfg < 2 \<or> 128 < cfg_dma_buf_count cfg \<or> cfg_dma_buf_len cfg < 8 \<or>
             1024 < cfg_dma_buf_len cfg) \<longrightarrow>
      i2s_driver_install e n (Some cfg) q v = Inr (ESP_ERR_INVALID_ARG, v)) \<and>
   (n < 2 \<and> 2 \<le> cfg_dma_buf_count cfg \<and> cfg_dma_buf_count cfg \<le> 128 \<and> 8 \<le> cfg_dma_buf_len cfg \<and>
             cfg_dma_buf_len cfg \<le> 1024 \<and> objs v n \<noteq> None \<longrightarrow>
      i2s_driver_install e n (Some cfg) q v = Inr (ESP_ERR_INVALID_STATE, v)) \<and>
   (bits \<noteq> 0 \<and> (bits < 16 \<or> 32 < bits \<or> bits mod 8 \<noteq> 0) \<longrightarrow>
      i2s_set_clk n rate bits ch v = Inr (ESP_ERR_INVALID_ARG, v)) \<and>
   (n < 2 \<and> bits \<in> {16, 24, 32} \<and> objs v n = None \<longrightarrow>
      i2s_set_clk n rate bits ch v = Inr (ESP_FAIL, v)) \<and>
   i2s_set_clk n rate 0 ch v = Inl Div_By_Zero"
  by (auto simp: i2s_driver_install_def i2s_driver_uninstall_def i2s_set_sample_rates_def
      i2s_set_clk_def I2S_NUM_MAX_def)

theorem i2s_driver_errors_witness:
  "i2s_driver_install ESP_OK 2 None None idle_drv = Inr (ESP_ERR_INVALID_ARG, idle_drv) \<and>
   i2s_set_clk 0 44100 8 2 idle_drv = Inr (ESP_ERR_INVALID_ARG, idle_drv) \<and>
   i2s_set_clk 0 44100 16 2 idle_drv = Inr (ESP_FAIL, idle_drv) \<and>
   i2s_set_clk 0 44100 0 2 idle_drv = Inl Div_By_Zero"
  using i2s_driver_errors [of 2 ESP_OK None None idle_drv 0 demo_cfg 16 2]
    i2s_driver_errors [of 0 ESP_OK None None idle_drv 44100 demo_cfg 8 2]
    i2s_driver_errors [of 0 ESP_OK None None idle_drv 44100 demo_cfg 16 2]
  by (simp add: idle_drv_def)

section \<open>The port as a sink of stereo samples\<close>

text \<open>
  The contract the renderer relies on: a push either stores the four bytes of a sample or, when
  there is no room, reports 0 and changes nothing. \<open>push_loop\<close> is the retry loop around it:
  before each attempt the next action of the environment happens (interrupts, other tasks);
  the result has the state, the samples stored, and the samples left when the environment's
  actions are used up.
\<close>

fun push_loop ::
  "(byte list \<Rightarrow> 's \<Rightarrow> (int \<times> 's) run) \<Rightarrow> ('s \<Rightarrow> 's run) list \<Rightarrow> byte list list \<Rightarrow> 's \<Rightarrow>
   ('s \<times> byte list list \<times> byte list list) run" where
  "push_loop push env [] s = Inr (s, [], [])"
| "push_loop push [] (x # xs) s = Inr (s, [], x # xs)"
| "push_loop push (e # es) (x # xs) s =
     run_bind (e s) (\<lambda>s1.
     run_bind (push x s1) (\<lambda>(k, s2).
       if k = 0 then push_loop push es (x # xs) s2
       else run_bind (push_loop push es xs s2) (\<lambda>(s3, done, left). Inr (s3, x # done, left))))"

locale sample_sink =
  fixes inv :: "'s \<Rightarrow> bool"
    and ready :: "'s \<Rightarrow> bool"
    and last_sample :: "'s \<Rightarrow> byte list"
    and push :: "byte list \<Rightarrow> 's \<Rightarrow> (int \<times> 's) run"
  assumes push_ready: "inv s \<Longrightarrow> ready s \<Longrightarrow> length x = 4 \<Longrightarrow>
      \<exists>s'. push x s = Inr (4, s') \<and> inv s' \<and> last_sample s' = x"
    and push_full: "inv s \<Longrightarrow> \<not> ready s \<Longrightarrow> length x = 4 \<Longrightarrow> push x s = Inr (0, s)"
begin

lemma push_loop_in_order:
  "inv s \<Longrightarrow> (\<And>x. x \<in> set xs \<Longrightarrow> length x = 4) \<Longrightarrow>
   (\<And>e t. e \<in> set env \<Longrightarrow> inv t \<Longrightarrow> \<exists>t'. e t = Inr t' \<and> inv t') \<Longrightarrow>
   \<exists>s' done left. push_loop push env xs s = Inr (s', done, left) \<and> inv s' \<and> xs = done @ left"
proof (induction env arbitrary: xs s)
  case Nil
  then show ?case by (cases xs) auto
next
  case (Cons e es)
  show ?case
  proof (cases xs)
    case Nil
    then show ?thesis using Cons.prems(1) by simp
  next
    case xs: (Cons x ys)
    obtain s1 where s1: "e s = Inr s1" "inv s1" using Cons.prems(1,3) by (meson list.set_intros(1))
    have len: "length x = 4" using Cons.prems(2) xs by simp
    have es: "\<exists>t'. e' t = Inr t' \<and> inv t'" if "e' \<in> set es" "inv t" for e' t
      using Cons.prems(3) that by (meson list.set_intros(2))
    show ?thesis
    proof (cases "ready s1")
      case True
      obtain s2 where s2: "push x s1 = Inr (4, s2)" "inv s2" using push_ready [OF s1(2) True len] by blast
      have "\<exists>s' done left. push_loop push es ys s2 = Inr (s', done, left) \<and> inv s' \<and> ys = done @ left"
        by (rule Cons.IH [OF s2(2)]) (use es Cons.prems(2) xs in auto)
      then show ?thesis using s1 s2 xs by auto
    next
      case False
      then have "push x s1 = Inr (0, s1)" using push_full s1(2) len by blast
      moreover have "\<exists>s' done left. push_loop push es xs s1 = Inr (s', done, left) \<and> inv s' \<and> xs = done @ left"
        by (rule Cons.IH [OF s1(2)]) (use es Cons.prems(2) in auto)
      ultimately show ?thesis using s1 xs by auto
    qed
  qed
qed

lemma push_loop_finishes:
  "inv s \<Longrightarrow> (\<And>x. x \<in> set xs \<Longrightarrow> length x = 4) \<Longrightarrow>
   (\<And>e t. e \<in> set env \<Longrightarrow> inv t \<Longrightarrow> \<exists>t'. e t = Inr t' \<and> inv t' \<and> ready t') \<Longrightarrow> length xs \<le> length env \<Longrightarrow>
   \<exists>s'. push_loop push env xs s = Inr (s', xs, []) \<and> inv s'"
proof (induction env arbitrary: xs s)
  case Nil
  then show ?case by simp
next
  case (Cons e es)
  show ?case
  proof (cases xs)
    case Nil
    then show ?thesis using Cons.prems(1) by simp
  next
    case xs: (Cons x ys)
    obtain s1 where s1: "e s = Inr s1" "inv s1" "ready s1"
      using Cons.prems(1,3) by (meson list.set_intros(1))
    have len: "length x = 4" using Cons.prems(2) xs by simp
    obtain s2 where s2: "push x s1 = Inr (4, s2)" "inv s2" using push_ready [OF s1(2,3) len] by blast
    have es: "\<exists>t'. e' t = Inr t' \<and> inv t' \<and> ready t'" if "e' \<in> set es" "inv t" for e' t
      using Cons.prems(3) that by (meson list.set_intros(2))
    have "\<exists>s'. push_loop push es ys s2 = Inr (s', ys, []) \<and> inv s'"
      by (rule Cons.IH [OF s2(2)]) (use es Cons.prems(2,4) xs in auto)
    then show ?thesis using s1 s2 xs by auto
  qed
qed

end

definition sink_inv :: "nat \<Rightarrow> i2s_drv \<Rightarrow> bool" where
  "sink_inv n v \<longleftrightarrow>
     tx_port n v \<and> (case objs v n of None \<Rightarrow> False | Some ob \<Rightarrow> sample_bytes ob = 4)"

definition sink_ready :: "nat \<Rightarrow> i2s_drv \<Rightarrow> bool" where
  "sink_ready n v \<longleftrightarrow>
     (case objs v n of None \<Rightarrow> False | Some ob \<Rightarrow> (case tx ob of None \<Rightarrow> False
        | Some d \<Rightarrow> waiting_buffers d \<noteq> [] \<or> rw_pos d \<noteq> buf_size d \<and> curr_ptr d \<noteq> 0))"

definition sink_last :: "nat \<Rightarrow> i2s_drv \<Rightarrow> byte list" where
  "sink_last n v =
     (case objs v n of None \<Rightarrow> [] | Some ob \<Rightarrow> (case tx ob of None \<Rightarrow> []
        | Some d \<Rightarrow> (case dma_mem d (curr_ptr d) of None \<Rightarrow> [] | Some m \<Rightarrow> chunk m (rw_pos d - 4) 4)))"

lemma push_sample_zero_iff:
  assumes "dma_ok d" "n dvd buf_size d" "n dvd rw_pos d" "0 < n" "n \<le> length x"
  shows "(\<exists>d'. push_sample n x d = Inr (0, d')) \<longleftrightarrow>
     waiting_buffers d = [] \<and> (rw_pos d = buf_size d \<or> curr_ptr d = 0)"
proof -
  obtain ok d1 where d1: "next_buffer d = Inr (ok, d1)"
      "if ok then curr_ptr d1 \<in> set (buf d) \<and> rw_pos d1 < buf_size d \<and> (rw_pos d1 = rw_pos d \<or> rw_pos d1 = 0)
       else d1 = d \<and> waiting_buffers d = [] \<and> (rw_pos d = buf_size d \<or> curr_ptr d = 0)"
    using next_buffer_law [OF assms(1)] by blast
  obtain k d' where k: "push_sample n x d = Inr (k, d')"
    using push_sample_law [OF assms] by blast
  show ?thesis
  proof (cases ok)
    case False
    then show ?thesis using d1 by (simp add: push_sample_def)
  next
    case True
    then have "k = n" using k d1(1) assms(5) by (auto simp: push_sample_def run_bind_Inr_iff)
    moreover have "\<not> (waiting_buffers d = [] \<and> (rw_pos d = buf_size d \<or> curr_ptr d = 0))"
    proof
      assume a: "waiting_buffers d = [] \<and> (rw_pos d = buf_size d \<or> curr_ptr d = 0)"
      obtain qa q where q: "dma_queue d = Some (qa, q)"
        using assms(1) by (auto simp: dma_ok_def ptr_queue_def split: option.splits)
      then have "queue_content q = []" using a by (simp add: waiting_buffers_def)
      then have "queue_receive False None q = Some (q, None)"
        using queue_nonempty_iff [of q] by (simp add: queue_receive_def)
      then have "next_buffer d = Inr (False, d)" using a q by (auto simp: next_buffer_def)
      with d1(1) True show False by simp
    qed
    ultimately show ?thesis using k assms(4) by simp
  qed
qed

interpretation sink: sample_sink "sink_inv n" "sink_ready n" "sink_last n" "i2s_push_sample n" for n
proof unfold_locales
  fix v :: i2s_drv and x :: "byte list"
  assume inv: "sink_inv n v" and len: "length x = 4"
  obtain ob where ob: "objs v n = Some ob" "obj_ready ob" "sample_bytes ob = 4" "n < I2S_NUM_MAX"
    using inv by (auto simp: sink_inv_def tx_port_def split: option.splits)
  obtain d a m where d: "tx ob = Some d" "ring_ready (sample_bytes ob) d" "dma_mux d = Some (a, m)" "dma_ok d"
    using ob(2) by (rule obj_readyE)
  have al: "4 dvd buf_size d" "4 dvd rw_pos d" using d(2) ob(3) by (auto simp: ring_ready_def)
  obtain k d' where k: "push_sample 4 x d = Inr (k, d')" "dma_ok d'" "buf_size d' = buf_size d" "4 dvd rw_pos d'"
      "if k = 0 then d' = d \<and> waiting_buffers d = []
       else k = 4 \<and> (\<exists>m. dma_mem d (curr_ptr d') = Some m \<and> rw_pos d' \<le> length m \<and> 4 \<le> rw_pos d' \<and>
           dma_mem d' = (dma_mem d)(curr_ptr d' \<mapsto> overwrite m (rw_pos d' - 4) (take 4 x)))"
    using push_sample_law [OF d(4) al, of x] len by auto
  have zero: "k = 0 \<longleftrightarrow> \<not> sink_ready n v"
    using push_sample_zero_iff [OF d(4) al, of x] len k(1) ob(1) d(1)
    by (auto simp: sink_ready_def)
  have push: "i2s_push_sample n x v = Inr (int k, set_obj n (Some (ob\<lparr>tx := Some d'\<rparr>)) v)"
    using ob d k(1) by (simp add: i2s_push_sample_def sample_bytes_def)
  show "i2s_push_sample n x v = Inr (0, v)" if "\<not> sink_ready n v"
  proof -
    have "k = 0" "d' = d" using that zero k(5) by auto
    moreover have "set_obj n (Some (ob\<lparr>tx := Some d\<rparr>)) v = v"
    proof -
      have "ob\<lparr>tx := Some d\<rparr> = ob" using d(1) by simp
      then show ?thesis using ob(1) by (simp add: set_obj_def fun_upd_idem)
    qed
    ultimately show ?thesis using push by simp
  qed
  show "\<exists>v'. i2s_push_sample n x v = Inr (4, v') \<and> sink_inv n v' \<and> sink_last n v' = x" if "sink_ready n v"
  proof -
    have "k \<noteq> 0" using that zero by simp
    then obtain mm where m: "k = 4" "dma_mem d (curr_ptr d') = Some mm" "rw_pos d' \<le> length mm" "4 \<le> rw_pos d'"
        "dma_mem d' = (dma_mem d)(curr_ptr d' \<mapsto> overwrite mm (rw_pos d' - 4) (take 4 x))"
      using k(5) by auto
    have mux: "dma_mux d' = dma_mux d"
      using k(1) next_buffer_law [OF d(4)]
      by (auto simp: push_sample_def run_bind_Inr_iff mem_write_def split: option.splits if_splits)
    have "sink_inv n (set_obj n (Some (ob\<lparr>tx := Some d'\<rparr>)) v)"
      using ob d k(2,3,4) mux inv by (auto simp: sink_inv_def tx_port_def obj_ready_def ring_ready_def)
    moreover have "sink_last n (set_obj n (Some (ob\<lparr>tx := Some d'\<rparr>)) v) = x"
      using m len by (simp add: sink_last_def chunk_def overwrite_def)
    ultimately show ?thesis using push m(1) by auto
  qed
qed

end
