(* ===== verification/Spiram_Fifo.thy ===== *)
theory Spiram_Fifo
  imports Byte_Fifo RTOS_Queue
begin

text \<open>
  \<^verbatim>\<open>components/fifo/spiram_fifo.c\<close>: the 128000-byte ring (built with \<^verbatim>\<open>FAKE_SPI_BUFF\<close>, so that
  the SPI RAM is the array \<^verbatim>\<open>fakespiram\<close> and its accesses are \<^verbatim>\<open>memcpy\<close>s) between a decoding task
  and the renderer, with two binary semaphores that carry the wake-ups and a mutex around the
  bookkeeping.

  The body of each loop has two parts: the section under the mutex, and the semaphore
  operation after it. \<open>write_section\<close> and \<open>read_section\<close> are the first part and report whether
  the second one is a wait; \<open>None\<close> means that the mutex is not available. The two C functions
  run alone are \<open>partial_function\<close>s whose \<open>None\<close> is a call that never returns, and the step
  relation at the end interleaves one writer with one reader, part by part.
\<close>

section \<open>State\<close>

definition SPIREADSIZE :: nat where
  "SPIREADSIZE = 64"

definition SPIRAMSIZE :: nat where
  "SPIRAMSIZE = 128000"

definition FIFO_LOWMARK :: nat where
  "FIFO_LOWMARK = 112 * 1024"

record fifo_state =
  fakespiram :: "byte list"
  fifoRpos :: nat
  fifoWpos :: nat
  fifoFill :: nat
  semCanRead :: Queue_t
  semCanWrite :: Queue_t
  fifo_mux :: Queue_t
  fifoOvfCnt :: int
  fifoUdrCnt :: int

section \<open>Operations\<close>

text \<open>
  The result is \<open>None\<close> when an allocation fails: the C function stores the NULL handle, and the
  first use of it ends in a failed \<^verbatim>\<open>configASSERT\<close>. \<^verbatim>\<open>spiRamTest()\<close> is the constant 1.
\<close>

definition spiRamFifoInit :: "(nat \<Rightarrow> byte list option) \<Rightarrow> byte list \<Rightarrow> (fifo_state \<times> int) option" where
  "spiRamFifoInit pvPortMalloc ram =
     (case (vSemaphoreCreateBinary pvPortMalloc, vSemaphoreCreateBinary pvPortMalloc,
            xQueueCreateMutex pvPortMalloc) of
        (Some cr, Some cw, Some mx) \<Rightarrow>
          Some (\<lparr>fakespiram = ram, fifoRpos = 0, fifoWpos = 0, fifoFill = 0, semCanRead = cr,
                 semCanWrite = cw, fifo_mux = mx, fifoOvfCnt = 0, fifoUdrCnt = 0\<rparr>, 1)
      | _ \<Rightarrow> None)"

definition lock_mux :: "task option \<Rightarrow> fifo_state \<Rightarrow> fifo_state option" where
  "lock_mux me s = map_option (\<lambda>m. s\<lparr>fifo_mux := m\<rparr>) (xSemaphoreTake me (fifo_mux s))"

definition unlock_mux :: "fifo_state \<Rightarrow> fifo_state" where
  "unlock_mux s = s\<lparr>fifo_mux := xSemaphoreGive (fifo_mux s)\<rparr>"

text \<open>
  A reset either returns or stays blocked in \<^verbatim>\<open>xSemaphoreTake(semCanRead, portMAX_DELAY)\<close>, with
  the mutex held; \<open>Reset_waits_mux\<close> is the caller blocked in its first statement.
\<close>

datatype reset_outcome = Reset_done fifo_state | Reset_waits_mux | Reset_waits_read fifo_state

definition spiRamFifoReset :: "task option \<Rightarrow> fifo_state \<Rightarrow> reset_outcome" where
  "spiRamFifoReset me s =
     (case lock_mux me s of
        None \<Rightarrow> Reset_waits_mux
      | Some s1 \<Rightarrow>
          let s2 = s1\<lparr>fifoRpos := 0, fifoWpos := 0, fifoFill := 0, fifoOvfCnt := 0, fifoUdrCnt := 0,
                      semCanWrite := xSemaphoreGive (semCanWrite s1)\<rparr> in
          case xSemaphoreTake me (semCanRead s2) of
            None \<Rightarrow> Reset_waits_read s2
          | Some q \<Rightarrow> Reset_done (unlock_mux (s2\<lparr>semCanRead := q\<rparr>)))"

definition read_size :: "fifo_state \<Rightarrow> nat \<Rightarrow> nat" where
  "read_size s len =
     (let n = (if SPIREADSIZE < len then SPIREADSIZE else len) in
      if SPIRAMSIZE - fifoRpos s < n then SPIRAMSIZE - fifoRpos s else n)"

definition read_section ::
  "task option \<Rightarrow> fifo_state \<Rightarrow> nat \<Rightarrow> (fifo_state \<times> byte list \<times> bool) option" where
  "read_section me s len =
     (let n = read_size s len in
      case lock_mux me s of None \<Rightarrow> None
      | Some s1 \<Rightarrow>
          if fifoFill s1 < n then
            Some (unlock_mux (s1\<lparr>fifoUdrCnt := fifoUdrCnt s1 + 1\<rparr>), [], True)
          else
            Some (unlock_mux (s1\<lparr>fifoFill := fifoFill s1 - n,
                    fifoRpos := (if SPIRAMSIZE \<le> fifoRpos s1 + n then 0 else fifoRpos s1 + n)\<rparr>),
                  chunk (fakespiram s1) (fifoRpos s1) n, False))"

definition read_wait :: "task option \<Rightarrow> fifo_state \<Rightarrow> fifo_state option" where
  "read_wait me s =
     (if fifoFill s < FIFO_LOWMARK
      then map_option (\<lambda>q. s\<lparr>semCanRead := q\<rparr>) (xSemaphoreTake me (semCanRead s))
      else Some s)"

definition read_post :: "fifo_state \<Rightarrow> fifo_state" where
  "read_post s = s\<lparr>semCanWrite := xSemaphoreGive (semCanWrite s)\<rparr>"

partial_function (option) fifo_read_loop ::
  "task option \<Rightarrow> fifo_state \<Rightarrow> nat \<Rightarrow> byte list \<Rightarrow> (fifo_state \<times> byte list) option" where
  "fifo_read_loop me s len acc =
     (if len = 0 then Some (s, acc)
      else case read_section me s len of None \<Rightarrow> None
           | Some (s', bs, wait) \<Rightarrow>
               if wait then (case read_wait me s' of None \<Rightarrow> None
                             | Some s'' \<Rightarrow> fifo_read_loop me s'' len acc)
               else fifo_read_loop me (read_post s') (len - length bs) (acc @ bs))"

text \<open>The result: the state, the bytes stored at \<^verbatim>\<open>buff\<close>, and the returned count.\<close>

definition spiRamFifoRead ::
  "task option \<Rightarrow> fifo_state \<Rightarrow> int \<Rightarrow> (fifo_state \<times> byte list \<times> int) option" where
  "spiRamFifoRead me s len =
     (if len \<le> 0 then Some (s, [], 0)
      else let m = (if int (fifoFill s) < len then fifoFill s else nat len) in
           map_option (\<lambda>(s', bs). (s', bs, int m)) (fifo_read_loop me s m []))"

definition write_size :: "fifo_state \<Rightarrow> nat \<Rightarrow> nat" where
  "write_size s buffLen =
     (let n = (if SPIREADSIZE < buffLen then SPIREADSIZE else buffLen) in
      if SPIRAMSIZE - fifoWpos s < n then SPIRAMSIZE - fifoWpos s else n)"

definition write_section ::
  "task option \<Rightarrow> fifo_state \<Rightarrow> byte list \<Rightarrow> (fifo_state \<times> byte list \<times> bool) option" where
  "write_section me s buff =
     (let n = write_size s (length buff) in
      case lock_mux me s of None \<Rightarrow> None
      | Some s1 \<Rightarrow>
          if SPIRAMSIZE - fifoFill s1 < n then
            Some (unlock_mux (s1\<lparr>fifoOvfCnt := fifoOvfCnt s1 + 1\<rparr>), buff, True)
          else
            Some (unlock_mux (s1\<lparr>fakespiram := overwrite (fakespiram s1) (fifoWpos s1) (take n buff),
                    fifoFill := fifoFill s1 + n,
                    fifoWpos := (if SPIRAMSIZE \<le> fifoWpos s1 + n then 0 else fifoWpos s1 + n)\<rparr>),
                  drop n buff, False))"

definition write_wait :: "task option \<Rightarrow> fifo_state \<Rightarrow> fifo_state option" where
  "write_wait me s = map_option (\<lambda>q. s\<lparr>semCanWrite := q\<rparr>) (xSemaphoreTake me (semCanWrite s))"

definition write_post :: "fifo_state \<Rightarrow> fifo_state" where
  "write_post s = s\<lparr>semCanRead := xSemaphoreGive (semCanRead s)\<rparr>"

partial_function (option) spiRamFifoWrite ::
  "task option \<Rightarrow> fifo_state \<Rightarrow> byte list \<Rightarrow> fifo_state option" where
  "spiRamFifoWrite me s buff =
     (if buff = [] then Some s
      else case write_section me s buff of None \<Rightarrow> None
           | Some (s', rest, wait) \<Rightarrow>
               if wait then (case write_wait me s' of None \<Rightarrow> None
                             | Some s'' \<Rightarrow> spiRamFifoWrite me s'' rest)
               else spiRamFifoWrite me (write_post s') rest)"

text \<open>The four query functions take and release the mutex around the read of one variable.\<close>

definition under_mux :: "task option \<Rightarrow> (fifo_state \<Rightarrow> 'a) \<Rightarrow> fifo_state \<Rightarrow> (fifo_state \<times> 'a) option" where
  "under_mux me f s =
     (case lock_mux me s of None \<Rightarrow> None | Some s1 \<Rightarrow> Some (unlock_mux s1, f s1))"

definition spiRamFifoFill :: "task option \<Rightarrow> fifo_state \<Rightarrow> (fifo_state \<times> int) option" where
  "spiRamFifoFill me s = under_mux me (\<lambda>t. int (fifoFill t)) s"

definition spiRamFifoFree :: "task option \<Rightarrow> fifo_state \<Rightarrow> (fifo_state \<times> int) option" where
  "spiRamFifoFree me s = map_option (\<lambda>(s', f). (s', int SPIRAMSIZE - f)) (spiRamFifoFill me s)"

definition spiRamFifoLen :: int where
  "spiRamFifoLen = int SPIRAMSIZE"

definition spiRamGetOverrunCt :: "task option \<Rightarrow> fifo_state \<Rightarrow> (fifo_state \<times> int) option" where
  "spiRamGetOverrunCt me s = under_mux me fifoOvfCnt s"

definition spiRamGetUnderrunCt :: "task option \<Rightarrow> fifo_state \<Rightarrow> (fifo_state \<times> int) option" where
  "spiRamGetUnderrunCt me s = under_mux me fifoUdrCnt s"

section \<open>Invariant and contents\<close>

definition ring_inv :: "fifo_state \<Rightarrow> bool" where
  "ring_inv s \<longleftrightarrow>
     length (fakespiram s) = SPIRAMSIZE \<and> fifoRpos s < SPIRAMSIZE \<and> fifoFill s \<le> SPIRAMSIZE \<and>
     fifoWpos s = (fifoRpos s + fifoFill s) mod SPIRAMSIZE"

definition fifo_inv :: "fifo_state \<Rightarrow> bool" where
  "fifo_inv s \<longleftrightarrow>
     ring_inv s \<and> bin_sem (semCanRead s) \<and> bin_sem (semCanWrite s) \<and> bin_sem (fifo_mux s) \<and>
     sem_given (fifo_mux s)"

definition fifo_content :: "fifo_state \<Rightarrow> byte list" where
  "fifo_content s = take (fifoFill s) (rotate (fifoRpos s) (fakespiram s))"

lemma SPIRAMSIZE_pos [simp]: "0 < SPIRAMSIZE"
  by (simp add: SPIRAMSIZE_def)

lemma length_fifo_content: "ring_inv s \<Longrightarrow> length (fifo_content s) = fifoFill s"
  by (simp add: ring_inv_def fifo_content_def)

lemma lock_mux_ok:
  assumes "fifo_inv s"
  obtains m where "lock_mux me s = Some (s\<lparr>fifo_mux := m\<rparr>)" "bin_sem m"
    "bin_sem (xSemaphoreGive m)" "sem_given (xSemaphoreGive m)"
proof -
  obtain m where m: "xSemaphoreTake me (fifo_mux s) = Some m" "bin_sem m"
    using sem.take_given [of "fifo_mux s" me] assms by (auto simp: fifo_inv_def)
  then show ?thesis
    using that [of m] sem.give_inv sem.give_given by (simp add: lock_mux_def)
qed

lemma write_size_facts:
  assumes "fifoWpos s < SPIRAMSIZE" "buff \<noteq> []"
  shows "0 < write_size s (length buff)" "write_size s (length buff) \<le> length buff"
    "fifoWpos s + write_size s (length buff) \<le> SPIRAMSIZE"
  using assms by (auto simp: write_size_def SPIREADSIZE_def Let_def)

lemma read_size_facts:
  assumes "fifoRpos s < SPIRAMSIZE" "0 < len"
  shows "0 < read_size s len" "read_size s len \<le> len" "fifoRpos s + read_size s len \<le> SPIRAMSIZE"
  using assms by (auto simp: read_size_def SPIREADSIZE_def Let_def)

lemma write_section_law:
  assumes inv: "fifo_inv s" and ne: "buff \<noteq> []"
  defines "n \<equiv> write_size s (length buff)"
  shows "\<exists>s' rest wait. write_section me s buff = Some (s', rest, wait) \<and> fifo_inv s' \<and>
     semCanRead s' = semCanRead s \<and> semCanWrite s' = semCanWrite s \<and> fifoRpos s' = fifoRpos s \<and>
     fifoUdrCnt s' = fifoUdrCnt s \<and>
     (if SPIRAMSIZE - fifoFill s < n
      then wait \<and> rest = buff \<and> fifo_content s' = fifo_content s \<and> fifoFill s' = fifoFill s \<and>
           fifoWpos s' = fifoWpos s \<and> fifoOvfCnt s' = fifoOvfCnt s + 1
      else \<not> wait \<and> rest = drop n buff \<and> fifo_content s' = fifo_content s @ take n buff \<and>
           fifoFill s' = fifoFill s + n \<and> fifoOvfCnt s' = fifoOvfCnt s)"
proof -
  obtain m where m: "lock_mux me s = Some (s\<lparr>fifo_mux := m\<rparr>)" "bin_sem m"
      "bin_sem (xSemaphoreGive m)" "sem_given (xSemaphoreGive m)"
    using lock_mux_ok [OF inv] by blast
  have r: "ring_inv s" using inv by (simp add: fifo_inv_def)
  then have w: "fifoWpos s < SPIRAMSIZE" by (simp add: ring_inv_def)
  have n: "0 < n" "n \<le> length buff" "fifoWpos s + n \<le> SPIRAMSIZE"
    unfolding n_def using write_size_facts [OF w ne] by auto
  show ?thesis
  proof (cases "SPIRAMSIZE - fifoFill s < n")
    case True
    then show ?thesis
      using m inv r
      by (auto simp add: write_section_def n_def [symmetric] unlock_mux_def fifo_inv_def ring_inv_def
          fifo_content_def)
  next
    case False
    let ?w = "if SPIRAMSIZE \<le> fifoWpos s + n then 0 else fifoWpos s + n"
    have fill: "fifoFill s + n \<le> SPIRAMSIZE" using False r n by (auto simp: ring_inv_def)
    have w': "?w = (fifoRpos s + (fifoFill s + n)) mod SPIRAMSIZE"
      using mod_advance [OF w n(3)] r
      by (simp add: ring_inv_def) (metis add.assoc mod_add_left_eq)
    have "take (fifoFill s + n) (rotate (fifoRpos s) (overwrite (fakespiram s) (fifoWpos s) (take n buff)))
        = fifo_content s @ take n buff"
      using ring_append [of "fifoFill s" "take n buff" "fakespiram s" "fifoWpos s" "fifoRpos s"]
        r n fill by (simp add: ring_inv_def fifo_content_def min_absorb2)
    note content = this
    define s' where "s' = unlock_mux (s\<lparr>fifo_mux := m,
        fakespiram := overwrite (fakespiram s) (fifoWpos s) (take n buff),
        fifoFill := fifoFill s + n, fifoWpos := ?w\<rparr>)"
    have "write_section me s buff = Some (s', drop n buff, False)"
      using False m by (simp add: write_section_def n_def [symmetric] s'_def)
    moreover have "fifo_inv s'"
      using m inv r w' fill n
      by (simp add: s'_def unlock_mux_def fifo_inv_def ring_inv_def length_overwrite del: if_split)
    moreover have "fifo_content s' = fifo_content s @ take n buff"
      using content by (simp add: s'_def unlock_mux_def fifo_content_def)
    ultimately show ?thesis using False by (auto simp add: s'_def unlock_mux_def)
  qed
qed

lemma read_section_law:
  assumes inv: "fifo_inv s" and ne: "0 < len"
  defines "n \<equiv> read_size s len"
  shows "\<exists>s' bs wait. read_section me s len = Some (s', bs, wait) \<and> fifo_inv s' \<and>
     semCanRead s' = semCanRead s \<and> semCanWrite s' = semCanWrite s \<and> fifoWpos s' = fifoWpos s \<and>
     fifoOvfCnt s' = fifoOvfCnt s \<and>
     (if fifoFill s < n
      then wait \<and> bs = [] \<and> fifo_content s' = fifo_content s \<and> fifoFill s' = fifoFill s \<and>
           fifoUdrCnt s' = fifoUdrCnt s + 1
      else \<not> wait \<and> length bs = n \<and>
           fifo_content s = bs @ fifo_content s' \<and>
           fifoFill s' + n = fifoFill s \<and> fifoUdrCnt s' = fifoUdrCnt s)"
proof -
  obtain m where m: "lock_mux me s = Some (s\<lparr>fifo_mux := m\<rparr>)" "bin_sem m"
      "bin_sem (xSemaphoreGive m)" "sem_given (xSemaphoreGive m)"
    using lock_mux_ok [OF inv] by blast
  have r: "ring_inv s" using inv by (simp add: fifo_inv_def)
  then have rp: "fifoRpos s < SPIRAMSIZE" by (simp add: ring_inv_def)
  have n: "0 < n" "n \<le> len" "fifoRpos s + n \<le> SPIRAMSIZE"
    unfolding n_def using read_size_facts [OF rp ne] by auto
  show ?thesis
  proof (cases "fifoFill s < n")
    case True
    then show ?thesis
      using m inv r
      by (auto simp add: read_section_def n_def [symmetric] unlock_mux_def fifo_inv_def ring_inv_def
          fifo_content_def)
  next
    case False
    let ?r = "if SPIRAMSIZE \<le> fifoRpos s + n then 0 else fifoRpos s + n"
    have r': "?r = (fifoRpos s + n) mod SPIRAMSIZE" by (rule mod_advance [OF rp n(3)])
    have w': "fifoWpos s = (?r + (fifoFill s - n)) mod SPIRAMSIZE"
    proof -
      have "((fifoRpos s + n) mod SPIRAMSIZE + (fifoFill s - n)) mod SPIRAMSIZE
          = (fifoRpos s + n + (fifoFill s - n)) mod SPIRAMSIZE"
        by (rule mod_add_left_eq)
      also have "\<dots> = fifoWpos s" using r False by (simp add: ring_inv_def)
      finally show ?thesis unfolding r' by simp
    qed
    have bs: "chunk (fakespiram s) (fifoRpos s) n = take n (fifo_content s)"
      using ring_front [of n "fifoFill s" "fakespiram s" "fifoRpos s"] r n False
      by (simp add: ring_inv_def fifo_content_def)
    have rest: "take (fifoFill s - n) (rotate ?r (fakespiram s)) = drop n (fifo_content s)"
      using ring_drop [of n "fifoFill s" "fakespiram s" "fifoRpos s"] r False
      unfolding r' by (simp add: ring_inv_def fifo_content_def)
    have len: "length (fifo_content s) = fifoFill s" using r by (rule length_fifo_content)
    define s' where "s' = unlock_mux (s\<lparr>fifo_mux := m, fifoFill := fifoFill s - n, fifoRpos := ?r\<rparr>)"
    have "read_section me s len = Some (s', take n (fifo_content s), False)"
      using False m bs by (simp add: read_section_def n_def [symmetric] s'_def)
    moreover have "fifo_inv s'"
    proof -
      have "fifoFill s - n \<le> SPIRAMSIZE" "?r < SPIRAMSIZE"
        using r unfolding r' by (auto simp: ring_inv_def)
      then show ?thesis
        using m inv r w' by (simp add: s'_def unlock_mux_def fifo_inv_def ring_inv_def)
    qed
    moreover have "fifo_content s' = drop n (fifo_content s)"
      using rest by (simp add: s'_def unlock_mux_def fifo_content_def)
    ultimately show ?thesis using False len n by (auto simp add: s'_def unlock_mux_def)
  qed
qed

lemma read_section_ok:
  assumes "fifo_inv s" "0 < len" "read_size s len \<le> fifoFill s"
  obtains s' bs where "read_section me s len = Some (s', bs, False)" "fifo_inv s'"
    "length bs = read_size s len"
    "fifo_content s = bs @ fifo_content s'" "fifoFill s' + read_size s len = fifoFill s"
    "fifoUdrCnt s' = fifoUdrCnt s" "semCanRead s' = semCanRead s" "semCanWrite s' = semCanWrite s"
    "fifoWpos s' = fifoWpos s"
proof -
  have "(fifoFill s < read_size s len) = False" using assms(3) by simp
  then obtain s' bs wait where "read_section me s len = Some (s', bs, wait)" "\<not> wait" "fifo_inv s'"
      "length bs = read_size s len" "fifo_content s = bs @ fifo_content s'"
      "fifoFill s' + read_size s len = fifoFill s"
      "fifoUdrCnt s' = fifoUdrCnt s" "semCanRead s' = semCanRead s" "semCanWrite s' = semCanWrite s"
      "fifoWpos s' = fifoWpos s"
    using read_section_law [OF assms(1,2), of me] by (simp only: if_False) (elim exE conjE, rule that)
  then show ?thesis using that [of s' bs] by simp
qed

lemma semaphore_updates_keep_ring [simp]:
  "ring_inv (s\<lparr>semCanRead := q\<rparr>) = ring_inv s" "ring_inv (s\<lparr>semCanWrite := q\<rparr>) = ring_inv s"
  "fifo_content (s\<lparr>semCanRead := q\<rparr>) = fifo_content s"
  "fifo_content (s\<lparr>semCanWrite := q\<rparr>) = fifo_content s"
  by (simp_all add: ring_inv_def fifo_content_def)

lemma write_post_inv: "fifo_inv s \<Longrightarrow> fifo_inv (write_post s)"
  using sem.give_inv by (simp add: write_post_def fifo_inv_def)

lemma read_post_inv: "fifo_inv s \<Longrightarrow> fifo_inv (read_post s)"
  using sem.give_inv by (simp add: read_post_def fifo_inv_def)

lemma write_post_fields [simp]:
  "fifo_content (write_post s) = fifo_content s" "fifoFill (write_post s) = fifoFill s"
  "fifoRpos (write_post s) = fifoRpos s" "fifoWpos (write_post s) = fifoWpos s"
  "fifoUdrCnt (write_post s) = fifoUdrCnt s" "semCanWrite (write_post s) = semCanWrite s"
  by (simp_all add: write_post_def)

lemma read_post_fields [simp]:
  "fifo_content (read_post s) = fifo_content s" "fifoFill (read_post s) = fifoFill s"
  "fifoRpos (read_post s) = fifoRpos s" "fifoWpos (read_post s) = fifoWpos s"
  "fifoUdrCnt (read_post s) = fifoUdrCnt s" "semCanRead (read_post s) = semCanRead s"
  by (simp_all add: read_post_def)

lemma write_wait_law:
  assumes "fifo_inv s" "write_wait me s = Some s'"
  shows "fifo_inv s'" "fifo_content s' = fifo_content s" "fifoFill s' = fifoFill s"
    "fifoRpos s' = fifoRpos s" "fifoWpos s' = fifoWpos s" "fifoUdrCnt s' = fifoUdrCnt s"
  using assms sem.take_Some [of "semCanWrite s" me]
  by (auto simp: write_wait_def fifo_inv_def)

section \<open>A call running alone\<close>

lemma write_post_given: "fifo_inv s \<Longrightarrow> sem_given (semCanRead (write_post s))"
  using sem.give_given by (simp add: write_post_def fifo_inv_def)

lemma spiRamFifoWrite_fits:
  "fifo_inv s \<Longrightarrow> length buff \<le> SPIRAMSIZE - fifoFill s \<Longrightarrow>
   \<exists>s'. spiRamFifoWrite me s buff = Some s' \<and> fifo_inv s' \<and>
     fifo_content s' = fifo_content s @ buff \<and> fifoFill s' = fifoFill s + length buff \<and>
     fifoOvfCnt s' = fifoOvfCnt s \<and>
     (buff \<noteq> [] \<or> sem_given (semCanRead s) \<longrightarrow> sem_given (semCanRead s'))"
proof (induction "length buff" arbitrary: s buff rule: less_induct)
  case less
  show ?case
  proof (cases "buff = []")
    case True
    then show ?thesis using less.prems by (subst spiRamFifoWrite.simps) simp
  next
    case False
    define n where "n = write_size s (length buff)"
    have r: "ring_inv s" "fifoWpos s < SPIRAMSIZE" using less.prems(1) by (auto simp: fifo_inv_def ring_inv_def)
    have n: "0 < n" "n \<le> length buff" unfolding n_def using write_size_facts [OF r(2) False] by auto
    obtain s' where s': "write_section me s buff = Some (s', drop n buff, False)" "fifo_inv s'"
        "fifo_content s' = fifo_content s @ take n buff" "fifoFill s' = fifoFill s + n"
        "fifoOvfCnt s' = fifoOvfCnt s"
      using write_section_law [OF less.prems(1) False, of me] less.prems(2) n
      by (auto simp flip: n_def split: if_splits)
    have "\<exists>t. spiRamFifoWrite me (write_post s') (drop n buff) = Some t \<and> fifo_inv t \<and>
        fifo_content t = fifo_content (write_post s') @ drop n buff \<and>
        fifoFill t = fifoFill (write_post s') + length (drop n buff) \<and>
        fifoOvfCnt t = fifoOvfCnt (write_post s') \<and> sem_given (semCanRead t)"
      using less.hyps [of "drop n buff" "write_post s'"] less.prems(2) n s' False
        write_post_given [OF s'(2)] by (simp add: write_post_inv)
    then show ?thesis
      using s' False n by (subst spiRamFifoWrite.simps) (auto simp: write_post_def)
  qed
qed

lemma spiRamFifoWrite_returns:
  assumes "spiRamFifoWrite me s buff = Some s'" "fifo_inv s"
  shows "length buff \<le> SPIRAMSIZE - fifoFill s"
proof -
  have "fifo_inv s \<longrightarrow> length buff \<le> SPIRAMSIZE - fifoFill s"
  proof (rule spiRamFifoWrite.raw_induct [where P = "\<lambda>me s buff s'. fifo_inv s \<longrightarrow>
        length buff \<le> SPIRAMSIZE - fifoFill s", OF _ assms(1)], rule impI)
    fix W :: "task option \<Rightarrow> fifo_state \<Rightarrow> byte list \<Rightarrow> fifo_state option" and me s buff s'
    assume IH: "\<And>me s buff s'. W me s buff = Some s' \<Longrightarrow> fifo_inv s \<longrightarrow>
        length buff \<le> SPIRAMSIZE - fifoFill s"
      and body: "(if buff = [] then Some s
          else case write_section me s buff of None \<Rightarrow> None
            | Some (s', rest, wait) \<Rightarrow>
                if wait then case write_wait me s' of None \<Rightarrow> None | Some s'' \<Rightarrow> W me s'' rest
                else W me (write_post s') rest) = Some s'"
      and inv: "fifo_inv s"
    define n where "n = write_size s (length buff)"
    have w: "fifoWpos s < SPIRAMSIZE" using inv by (auto simp: fifo_inv_def ring_inv_def)
    show "length buff \<le> SPIRAMSIZE - fifoFill s"
    proof (cases "buff = []")
      case False
      have n: "n \<le> length buff" unfolding n_def using write_size_facts [OF w False] by auto
      obtain t rest wait where t: "write_section me s buff = Some (t, rest, wait)" "fifo_inv t"
          "if SPIRAMSIZE - fifoFill s < n then wait \<and> rest = buff \<and> fifoFill t = fifoFill s
           else \<not> wait \<and> rest = drop n buff \<and> fifoFill t = fifoFill s + n"
        using write_section_law [OF inv False, of me] by (auto simp flip: n_def split: if_splits)
      show ?thesis
      proof (cases wait)
        case True
        then obtain u where u: "write_wait me t = Some u" "W me u rest = Some s'"
          using body t(1) False by (auto split: option.splits)
        then show ?thesis
          using IH [OF u(2)] write_wait_law [OF t(2) u(1)] t(3) True by (auto split: if_splits)
      next
        case nw: False
        then have "W me (write_post t) rest = Some s'" using body t(1) False by simp
        from IH [OF this] show ?thesis
          using write_post_inv [OF t(2)] t(3) nw n by (auto split: if_splits)
      qed
    qed simp
  qed
  with assms(2) show ?thesis by simp
qed

lemma read_section_sem: "read_section me s len = Some (t, bs, w) \<Longrightarrow> semCanRead t = semCanRead s"
  by (auto simp: read_section_def lock_mux_def unlock_mux_def Let_def split: if_splits option.splits)

lemma fifo_read_loop_fits:
  "fifo_inv s \<Longrightarrow> len \<le> fifoFill s \<Longrightarrow>
   \<exists>s'. fifo_read_loop me s len acc = Some (s', acc @ take len (fifo_content s)) \<and> fifo_inv s' \<and>
     fifo_content s = take len (fifo_content s) @ fifo_content s' \<and>
     fifoFill s' + len = fifoFill s \<and> fifoUdrCnt s' = fifoUdrCnt s \<and>
     semCanRead s' = semCanRead s"
proof (induction len arbitrary: s acc rule: less_induct)
  case (less len)
  show ?case
  proof (cases "len = 0")
    case True
    then show ?thesis using less.prems by (subst fifo_read_loop.simps) simp
  next
    case False
    define n where "n = read_size s len"
    have r: "ring_inv s" "fifoRpos s < SPIRAMSIZE" using less.prems(1) by (auto simp: fifo_inv_def ring_inv_def)
    have n: "0 < n" "n \<le> len" unfolding n_def using read_size_facts [OF r(2), of len] False by auto
    obtain s' bs where s': "read_section me s len = Some (s', bs, False)" "fifo_inv s'"
        "length bs = n" "fifo_content s = bs @ fifo_content s'"
        "fifoFill s' + n = fifoFill s" "fifoUdrCnt s' = fifoUdrCnt s"
    proof (rule read_section_ok [OF less.prems(1), of len me])
      show "read_size s len \<le> fifoFill s" using n(2) less.prems(2) n_def by simp
    qed (use False n_def in auto)
    have tk: "take len (fifo_content s) = bs @ take (len - n) (fifo_content s')"
      using s'(3,4) n by (metis append_take_drop_id take_all_iff take_append le_refl)
    obtain t where t: "fifo_read_loop me (read_post s') (len - n) (acc @ bs)
          = Some (t, (acc @ bs) @ take (len - n) (fifo_content s'))" "fifo_inv t"
        "fifo_content s' = take (len - n) (fifo_content s') @ fifo_content t"
        "fifoFill t + (len - n) = fifoFill s'" "fifoUdrCnt t = fifoUdrCnt s'"
        "semCanRead t = semCanRead s'"
    proof -
      have "len - n < len" "fifo_inv (read_post s')" "len - n \<le> fifoFill (read_post s')"
        using n False s'(2,5) less.prems(2) by (auto simp: read_post_inv)
      from less.IH [OF this, of "acc @ bs", unfolded read_post_fields] show ?thesis
        by (elim exE conjE) (rule that)
    qed
    have "fifo_content s = take len (fifo_content s) @ fifo_content t"
      using tk s'(4) t(3) by simp
    moreover have "fifo_read_loop me s len acc = Some (t, acc @ take len (fifo_content s))"
      using False s'(1,3) t(1) tk by (subst fifo_read_loop.simps) simp
    ultimately show ?thesis using t s' n read_section_sem [OF s'(1)] by auto
  qed
qed

lemma fifo_read_law:
  assumes "fifo_inv s"
  shows "\<exists>s'. spiRamFifoRead me s len
       = Some (s', take (nat len) (fifo_content s), min (max 0 len) (int (fifoFill s))) \<and>
     fifo_inv s' \<and> fifo_content s' = drop (nat len) (fifo_content s) \<and>
     fifoUdrCnt s' = fifoUdrCnt s \<and> semCanRead s' = semCanRead s"
proof (cases "len \<le> 0")
  case True
  then show ?thesis using assms by (simp add: spiRamFifoRead_def)
next
  case False
  define m where "m = (if int (fifoFill s) < len then fifoFill s else nat len)"
  have c: "length (fifo_content s) = fifoFill s"
    using assms length_fifo_content by (simp add: fifo_inv_def)
  obtain s' where s': "fifo_read_loop me s m [] = Some (s', take m (fifo_content s))" "fifo_inv s'"
      "fifo_content s = take m (fifo_content s) @ fifo_content s'" "fifoUdrCnt s' = fifoUdrCnt s"
      "semCanRead s' = semCanRead s"
  proof -
    have "m \<le> fifoFill s" by (auto simp: m_def)
    from fifo_read_loop_fits [OF assms this, of me "[]", unfolded append_Nil] show ?thesis
      by (elim exE conjE) (rule that)
  qed
  have tk: "take m (fifo_content s) = take (nat len) (fifo_content s)" using c by (auto simp: m_def)
  have "fifo_content s' = drop (nat len) (fifo_content s)"
    using s'(3) unfolding tk by (metis append_take_drop_id same_append_eq)
  moreover have "int m = min (max 0 len) (int (fifoFill s))" using False by (auto simp: m_def)
  ultimately show ?thesis
    using s' False tk by (simp add: spiRamFifoRead_def flip: m_def)
qed

interpretation spiram: byte_fifo fifo_inv fifo_content "\<lambda>s. SPIRAMSIZE - fifoFill s + 1"
    "\<lambda>s. fifoFill s + 1" "spiRamFifoWrite me"
    "\<lambda>s n. map_option (\<lambda>(s', bs, _). (s', bs)) (spiRamFifoRead me s (int n))" for me
proof unfold_locales
  fix s :: fifo_state and d :: "byte list" and n :: nat
  assume inv: "fifo_inv s"
  show "\<exists>s'. spiRamFifoWrite me s d = Some s' \<and> fifo_inv s' \<and> fifo_content s' = fifo_content s @ d \<and>
      SPIRAMSIZE - fifoFill s' + 1 + length d = SPIRAMSIZE - fifoFill s + 1"
    if "length d < SPIRAMSIZE - fifoFill s + 1"
    using spiRamFifoWrite_fits [OF inv, of d me] that by auto
  show "\<exists>s'. map_option (\<lambda>(s', bs, _). (s', bs)) (spiRamFifoRead me s (int n))
        = Some (s', take n (fifo_content s)) \<and> fifo_inv s' \<and>
      fifo_content s = take n (fifo_content s) @ fifo_content s' \<and>
      fifoFill s' + 1 + n = fifoFill s + 1"
    if "n < fifoFill s + 1"
  proof (cases "n = 0")
    case True
    then show ?thesis using inv by (simp add: spiRamFifoRead_def)
  next
    case False
    then have "spiRamFifoRead me s (int n)
        = map_option (\<lambda>(s', bs). (s', bs, int n)) (fifo_read_loop me s n [])"
      using that by (simp add: spiRamFifoRead_def Let_def)
    then show ?thesis using fifo_read_loop_fits [OF inv, of n me "[]"] that by auto
  qed
qed

lemma reset_law:
  assumes "fifo_inv s" "sem_given (semCanRead s)"
  shows "\<exists>s1. spiRamFifoReset me s = Reset_done s1 \<and> fifo_inv s1 \<and> fifo_content s1 = [] \<and>
     sem_given (semCanWrite s1) \<and> \<not> sem_given (semCanRead s1)"
proof -
  obtain m where m: "lock_mux me s = Some (s\<lparr>fifo_mux := m\<rparr>)" "bin_sem m"
      "bin_sem (xSemaphoreGive m)" "sem_given (xSemaphoreGive m)"
    using lock_mux_ok [OF assms(1)] by blast
  obtain q where q: "xSemaphoreTake me (semCanRead s) = Some q" "bin_sem q" "\<not> sem_given q"
    using sem.take_given [of "semCanRead s" me] assms by (auto simp: fifo_inv_def)
  have gw: "bin_sem (xSemaphoreGive (semCanWrite s))" "sem_given (xSemaphoreGive (semCanWrite s))"
    using assms(1) sem.give_inv sem.give_given by (auto simp: fifo_inv_def)
  then show ?thesis
    using assms m q
    by (simp add: spiRamFifoReset_def Let_def unlock_mux_def fifo_inv_def ring_inv_def fifo_content_def)
qed

section \<open>One writer and one reader\<close>

text \<open>
  The program counters of the two tasks. \<open>W_loop buff\<close> is the head of the writer's loop with
  \<open>buff\<close> still to be written, \<open>W_wait\<close> stands before \<^verbatim>\<open>xSemaphoreTake(semCanWrite)\<close>, \<open>W_post\<close> before
  \<^verbatim>\<open>xSemaphoreGive(semCanRead)\<close>; likewise for the reader, with the number of bytes it still
  wants. \<open>written\<close> and \<open>got\<close> record the bytes that have entered and left the ring.
\<close>

datatype writer_pc = W_idle | W_loop "byte list" | W_wait "byte list" | W_post "byte list"
datatype reader_pc = R_idle | R_loop nat | R_wait nat | R_post nat

record fifo_sys =
  shared :: fifo_state
  wpc :: writer_pc
  rpc :: reader_pc
  written :: "byte list"
  got :: "byte list"

inductive fifo_step :: "task \<Rightarrow> task \<Rightarrow> fifo_sys \<Rightarrow> fifo_sys \<Rightarrow> bool" for wt rt where
  w_call: "wpc y = W_idle \<Longrightarrow> fifo_step wt rt y (y\<lparr>wpc := W_loop buff\<rparr>)"
| w_return: "wpc y = W_loop [] \<Longrightarrow> fifo_step wt rt y (y\<lparr>wpc := W_idle\<rparr>)"
| w_copy: "wpc y = W_loop buff \<Longrightarrow> buff \<noteq> [] \<Longrightarrow>
    write_section (Some wt) (shared y) buff = Some (s', rest, False) \<Longrightarrow>
    fifo_step wt rt y (y\<lparr>shared := s', wpc := W_post rest,
      written := written y @ take (length buff - length rest) buff\<rparr>)"
| w_full: "wpc y = W_loop buff \<Longrightarrow> buff \<noteq> [] \<Longrightarrow>
    write_section (Some wt) (shared y) buff = Some (s', rest, True) \<Longrightarrow>
    fifo_step wt rt y (y\<lparr>shared := s', wpc := W_wait rest\<rparr>)"
| w_wake: "wpc y = W_wait buff \<Longrightarrow> write_wait (Some wt) (shared y) = Some s' \<Longrightarrow>
    fifo_step wt rt y (y\<lparr>shared := s', wpc := W_loop buff\<rparr>)"
| w_post: "wpc y = W_post buff \<Longrightarrow>
    fifo_step wt rt y (y\<lparr>shared := write_post (shared y), wpc := W_loop buff\<rparr>)"
| r_call: "rpc y = R_idle \<Longrightarrow> 0 < n \<Longrightarrow>
    fifo_step wt rt y (y\<lparr>rpc := R_loop (if fifoFill (shared y) < n then fifoFill (shared y) else n)\<rparr>)"
| r_return: "rpc y = R_loop 0 \<Longrightarrow> fifo_step wt rt y (y\<lparr>rpc := R_idle\<rparr>)"
| r_copy: "rpc y = R_loop len \<Longrightarrow> 0 < len \<Longrightarrow>
    read_section (Some rt) (shared y) len = Some (s', bs, False) \<Longrightarrow>
    fifo_step wt rt y (y\<lparr>shared := s', rpc := R_post (len - length bs), got := got y @ bs\<rparr>)"
| r_empty: "rpc y = R_loop len \<Longrightarrow> 0 < len \<Longrightarrow>
    read_section (Some rt) (shared y) len = Some (s', bs, True) \<Longrightarrow>
    fifo_step wt rt y (y\<lparr>shared := s', rpc := R_wait len\<rparr>)"
| r_wake: "rpc y = R_wait len \<Longrightarrow> read_wait (Some rt) (shared y) = Some s' \<Longrightarrow>
    fifo_step wt rt y (y\<lparr>shared := s', rpc := R_loop len\<rparr>)"
| r_post: "rpc y = R_post len \<Longrightarrow>
    fifo_step wt rt y (y\<lparr>shared := read_post (shared y), rpc := R_loop len\<rparr>)"

definition fifo_sys_start :: "fifo_state \<Rightarrow> fifo_sys" where
  "fifo_sys_start s = \<lparr>shared = s, wpc = W_idle, rpc = R_idle, written = [], got = []\<rparr>"

text \<open>
  What the writer can rely on when it waits: either the semaphore is given, or its next chunk
  really does not fit, or the reader has just made room and is about to give the semaphore.
\<close>

definition wait_justified :: "fifo_sys \<Rightarrow> bool" where
  "wait_justified y \<longleftrightarrow>
     (\<forall>buff. wpc y = W_wait buff \<longrightarrow>
        sem_given (semCanWrite (shared y)) \<or> (\<exists>n. rpc y = R_post n) \<or>
        SPIRAMSIZE - fifoFill (shared y) < write_size (shared y) (length buff))"

definition reader_inv :: "fifo_sys \<Rightarrow> bool" where
  "reader_inv y \<longleftrightarrow>
     (case rpc y of R_idle \<Rightarrow> True | R_loop n \<Rightarrow> n \<le> fifoFill (shared y) | R_wait n \<Rightarrow> False
      | R_post n \<Rightarrow> n \<le> fifoFill (shared y)) \<and> fifoUdrCnt (shared y) = 0"

definition sys_inv :: "fifo_sys \<Rightarrow> bool" where
  "sys_inv y \<longleftrightarrow>
     fifo_inv (shared y) \<and> written y = got y @ fifo_content (shared y) \<and> reader_inv y \<and>
     wait_justified y"

lemma write_size_cong: "fifoWpos s' = fifoWpos s \<Longrightarrow> write_size s' n = write_size s n"
  by (simp add: write_size_def)

lemma fifo_step_inv: "fifo_step wt rt y y' \<Longrightarrow> sys_inv y \<Longrightarrow> sys_inv y'"
proof (induction rule: fifo_step.induct)
  case (w_copy y buff s' rest)
  let ?s = "shared y" and ?n = "write_size (shared y) (length buff)"
  have inv: "fifo_inv ?s" using w_copy by (simp add: sys_inv_def)
  have w: "fifoWpos ?s < SPIRAMSIZE" using inv by (simp add: fifo_inv_def ring_inv_def)
  have n: "?n \<le> length buff" using write_size_facts [OF w w_copy(2)] by simp
  have law: "fifo_inv s'" "rest = drop ?n buff" "fifo_content s' = fifo_content ?s @ take ?n buff"
      "fifoFill s' = fifoFill ?s + ?n" "fifoUdrCnt s' = fifoUdrCnt ?s"
    using write_section_law [OF inv w_copy(2), of "Some wt"] w_copy(3) by (auto split: if_splits)
  have "reader_inv (y\<lparr>shared := s', wpc := W_post rest, written := w\<rparr>)" for w
    using w_copy(4) law(4,5) by (auto simp: sys_inv_def reader_inv_def split: reader_pc.splits)
  then show ?case
    using w_copy(4) law n by (simp add: sys_inv_def wait_justified_def)
next
  case (w_full y buff s' rest)
  let ?s = "shared y"
  have inv: "fifo_inv ?s" using w_full by (simp add: sys_inv_def)
  have law: "fifo_inv s'" "rest = buff" "fifo_content s' = fifo_content ?s" "fifoFill s' = fifoFill ?s"
      "fifoWpos s' = fifoWpos ?s" "fifoUdrCnt s' = fifoUdrCnt ?s"
      "SPIRAMSIZE - fifoFill ?s < write_size ?s (length buff)"
    using write_section_law [OF inv w_full(2), of "Some wt"] w_full(3) by (auto split: if_splits)
  then show ?case
    using w_full(4) by (auto simp: sys_inv_def reader_inv_def wait_justified_def
        write_size_cong [OF law(5)] split: reader_pc.splits)
next
  case (w_wake y buff s')
  then show ?case
    using write_wait_law [of "shared y" "Some wt" s']
    by (auto simp: sys_inv_def reader_inv_def wait_justified_def split: reader_pc.splits)
next
  case (w_post y buff)
  then show ?case
    by (auto simp: sys_inv_def reader_inv_def wait_justified_def write_post_inv
        split: reader_pc.splits)
next
  case (r_copy y len s' bs)
  let ?s = "shared y"
  have inv: "fifo_inv ?s" and le: "len \<le> fifoFill ?s"
    using r_copy by (auto simp: sys_inv_def reader_inv_def)
  have "fifoRpos ?s < SPIRAMSIZE" using inv by (simp add: fifo_inv_def ring_inv_def)
  then have "read_size ?s len \<le> fifoFill ?s"
    using read_size_facts(2) [of ?s len] r_copy(2) le by simp
  then obtain t b where t: "read_section (Some rt) ?s len = Some (t, b, False)" "fifo_inv t"
      "fifo_content ?s = b @ fifo_content t" "fifoFill t + read_size ?s len = fifoFill ?s"
      "length b = read_size ?s len" "fifoUdrCnt t = fifoUdrCnt ?s"
    using read_section_ok [OF inv r_copy(2), of "Some rt"] by metis
  then have "t = s'" "b = bs" using r_copy(3) by simp_all
  with t le show ?case
    using r_copy(4) by (auto simp: sys_inv_def reader_inv_def wait_justified_def)
next
  case (r_empty y len s' bs)
  let ?s = "shared y"
  have inv: "fifo_inv ?s" and le: "len \<le> fifoFill ?s"
    using r_empty by (auto simp: sys_inv_def reader_inv_def)
  have "fifoRpos ?s < SPIRAMSIZE" using inv by (simp add: fifo_inv_def ring_inv_def)
  then have "read_size ?s len \<le> fifoFill ?s"
    using read_size_facts(2) [of ?s len] r_empty(2) le by simp
  then show ?case
    using read_section_ok [OF inv r_empty(2), of "Some rt"] r_empty(3) by auto
next
  case (r_post y len)
  have "sem_given (semCanWrite (read_post (shared y)))"
    using r_post(2) sem.give_given by (simp add: read_post_def sys_inv_def fifo_inv_def)
  then show ?case
    using r_post by (auto simp: sys_inv_def reader_inv_def wait_justified_def read_post_inv)
qed (auto simp: sys_inv_def reader_inv_def wait_justified_def split: reader_pc.splits)

lemma spiRamFifoInit_ok:
  assumes "pvPortMalloc 0 = Some []" "length ram = SPIRAMSIZE"
  shows "\<exists>s. spiRamFifoInit pvPortMalloc ram = Some (s, 1) \<and> fifo_inv s \<and> fifo_content s = [] \<and>
     fifoFill s = 0 \<and> sem_given (semCanRead s) \<and> sem_given (semCanWrite s) \<and> fifoUdrCnt s = 0"
  using vSemaphoreCreateBinary_given [of pvPortMalloc] xQueueCreateMutex_given [of pvPortMalloc] assms
  by (auto simp: spiRamFifoInit_def fifo_inv_def ring_inv_def fifo_content_def)

section \<open>Properties\<close>



text \<open>
  C35. \<^verbatim>\<open>spiRamFifoWrite\<close>, run without a reader, returns exactly when the data fits in the free
  space, and then it has appended the data to the ring; otherwise the call blocks for ever.
\<close>

theorem spiRamFifoWrite_returns_iff_fits:
  assumes "fifo_inv s"
  shows "((\<exists>s'. spiRamFifoWrite me s buff = Some s') \<longleftrightarrow> length buff \<le> SPIRAMSIZE - fifoFill s) \<and>
     (\<forall>s'. spiRamFifoWrite me s buff = Some s' \<longrightarrow> fifo_inv s' \<and>
        fifo_content s' = fifo_content s @ buff \<and> fifoOvfCnt s' = fifoOvfCnt s)"
  using spiRamFifoWrite_fits [OF assms, of buff me] spiRamFifoWrite_returns [OF _ assms, of me buff]
  by (metis option.inject)

definition fresh_fifo :: fifo_state where
  "fresh_fifo =
     (let g = xSemaphoreGive (prvInitialiseNewQueue 1 0 (raw_queue [])) in
      \<lparr>fakespiram = replicate SPIRAMSIZE 0, fifoRpos = 0, fifoWpos = 0, fifoFill = 0,
       semCanRead = g, semCanWrite = g,
       fifo_mux = prvInitialiseMutex (prvInitialiseNewQueue 1 0 (raw_queue [])),
       fifoOvfCnt = 0, fifoUdrCnt = 0\<rparr>)"

lemma fresh_fifo_init: "spiRamFifoInit (\<lambda>_. Some []) (replicate SPIRAMSIZE 0) = Some (fresh_fifo, 1)"
  by (simp add: spiRamFifoInit_def fresh_fifo_def vSemaphoreCreateBinary_def xQueueCreateMutex_def
      xQueueGenericCreate_def xQueueSizeInBytes_def Let_def)

lemma fresh_fifo_facts:
  "fifo_inv fresh_fifo" "fifo_content fresh_fifo = []" "fifoFill fresh_fifo = 0"
  "sem_given (semCanRead fresh_fifo)"
  using spiRamFifoInit_ok [of "\<lambda>_. Some []" "replicate SPIRAMSIZE 0"] fresh_fifo_init by auto

theorem spiRamFifoWrite_returns_iff_fits_witness:
  "fifo_inv fresh_fifo \<and> (\<exists>s'. spiRamFifoWrite None fresh_fifo [1, 2, 3] = Some s') \<and>
   spiRamFifoWrite None fresh_fifo (replicate (SPIRAMSIZE + 1) 0) = None"
proof -
  note w = spiRamFifoWrite_returns_iff_fits [OF fresh_fifo_facts(1), of None]
  have "\<exists>s'. spiRamFifoWrite None fresh_fifo [1, 2, 3] = Some s'"
    using w [of "[1, 2, 3]"] by (simp add: fresh_fifo_facts SPIRAMSIZE_def)
  moreover have "spiRamFifoWrite None fresh_fifo (replicate (SPIRAMSIZE + 1) 0) = None"
    using w [of "replicate (SPIRAMSIZE + 1) 0"] by (simp add: fresh_fifo_facts)
  ultimately show ?thesis using fresh_fifo_facts(1) by simp
qed

text \<open>
  \<^verbatim>\<open>spiRamFifoRead\<close> always returns without waiting: it hands over the oldest
  \<^verbatim>\<open>min(len, fifoFill)\<close> bytes of the ring, in order, removes them and returns their number (zero
  for a non-positive length).
\<close>

theorem spiRamFifoRead_delivers:
  assumes "fifo_inv s"
  shows "\<exists>s'. spiRamFifoRead me s len
       = Some (s', take (nat len) (fifo_content s), min (max 0 len) (int (fifoFill s))) \<and>
     fifo_inv s' \<and> fifo_content s' = drop (nat len) (fifo_content s) \<and>
     fifoUdrCnt s' = fifoUdrCnt s"
  using fifo_read_law [OF assms] by blast

theorem spiRamFifoRead_delivers_witness:
  "fifo_inv fresh_fifo \<and> (\<exists>s'. spiRamFifoRead None fresh_fifo 1024 = Some (s', [], 0))"
  using spiRamFifoRead_delivers [OF fresh_fifo_facts(1), of None 1024] fresh_fifo_facts by auto

text \<open>
  Any sequence of writes that fit and reads of stored bytes returns, and the bytes read
  followed by those left are the bytes that were stored followed by those written.
\<close>

theorem spiram_script_fifo:
  assumes "fifo_inv s"
    "fifo_script_ok (spiRamFifoWrite me)
       (\<lambda>s n. map_option (\<lambda>(s', bs, _). (s', bs)) (spiRamFifoRead me s (int n)))
       (\<lambda>s. SPIRAMSIZE - fifoFill s + 1) (\<lambda>s. fifoFill s + 1) s ops"
  shows "\<exists>s' i out.
     fifo_script (spiRamFifoWrite me)
       (\<lambda>s n. map_option (\<lambda>(s', bs, _). (s', bs)) (spiRamFifoRead me s (int n))) s ops
       = Some (s', i, out) \<and> fifo_inv s' \<and> fifo_content s @ i = out @ fifo_content s'"
  by (rule spiram.script_fifo [OF assms])

theorem spiram_script_fifo_witness:
  "\<exists>s' i out.
     fifo_script (spiRamFifoWrite None)
       (\<lambda>s n. map_option (\<lambda>(s', bs, _). (s', bs)) (spiRamFifoRead None s (int n))) fresh_fifo
       [Put [1, 2], Get 1] = Some (s', i, out) \<and> fifo_inv s' \<and>
     fifo_content fresh_fifo @ i = out @ fifo_content s'"
proof (rule spiram_script_fifo [OF fresh_fifo_facts(1)])
  obtain t where t: "spiRamFifoWrite None fresh_fifo [1, 2] = Some t" "fifo_inv t" "fifoFill t = 2"
    using spiRamFifoWrite_fits [OF fresh_fifo_facts(1), of "[1, 2]" None]
    by (auto simp: fresh_fifo_facts SPIRAMSIZE_def)
  then show "fifo_script_ok (spiRamFifoWrite None)
     (\<lambda>s n. map_option (\<lambda>(s', bs, _). (s', bs)) (spiRamFifoRead None s (int n)))
     (\<lambda>s. SPIRAMSIZE - fifoFill s + 1) (\<lambda>s. fifoFill s + 1) fresh_fifo [Put [1, 2], Get 1]"
    by (simp add: fresh_fifo_facts SPIRAMSIZE_def split: option.split)
qed

text \<open>
  \<^verbatim>\<open>spiRamFifoReset\<close> works once: it empties the ring and consumes the \<^verbatim>\<open>semCanRead\<close> signal.
  A second reset with no write in between blocks on that semaphore while it holds the mutex,
  and from then on every operation of the FIFO blocks: further resets, the queries, every
  non-empty write and every read of stored bytes.
\<close>

theorem spiRamFifoReset_twice_deadlocks:
  assumes "fifo_inv s" "sem_given (semCanRead s)"
  shows "\<exists>s1 s2. spiRamFifoReset me s = Reset_done s1 \<and> fifo_inv s1 \<and> fifo_content s1 = [] \<and>
     sem_given (semCanWrite s1) \<and>
     spiRamFifoReset me s1 = Reset_waits_read s2 \<and>
     (\<forall>t. spiRamFifoReset t s2 = Reset_waits_mux \<and> spiRamFifoFill t s2 = None \<and>
        spiRamFifoFree t s2 = None \<and> spiRamGetOverrunCt t s2 = None \<and>
        spiRamGetUnderrunCt t s2 = None \<and>
        (\<forall>b bs. spiRamFifoWrite t s2 (b # bs) = None) \<and>
        (\<forall>len>0. read_section t s2 len = None))"
proof -
  define z where "z = (\<lambda>s1. s1\<lparr>fifoRpos := 0, fifoWpos := 0, fifoFill := 0, fifoOvfCnt := 0,
      fifoUdrCnt := 0, semCanWrite := xSemaphoreGive (semCanWrite s1)\<rparr> :: fifo_state)"
  have reset: "spiRamFifoReset t u = (case lock_mux t u of None \<Rightarrow> Reset_waits_mux | Some u1 \<Rightarrow>
      (case xSemaphoreTake t (semCanRead u1) of None \<Rightarrow> Reset_waits_read (z u1)
       | Some q \<Rightarrow> Reset_done (unlock_mux ((z u1)\<lparr>semCanRead := q\<rparr>))))" for t u
    by (simp add: spiRamFifoReset_def z_def Let_def split: option.split)
  obtain m where m: "lock_mux me s = Some (s\<lparr>fifo_mux := m\<rparr>)" "bin_sem m"
      "bin_sem (xSemaphoreGive m)" "sem_given (xSemaphoreGive m)"
    using lock_mux_ok [OF assms(1)] by blast
  obtain q where q: "xSemaphoreTake me (semCanRead s) = Some q" "bin_sem q" "\<not> sem_given q"
    using sem.take_given [of "semCanRead s" me] assms by (auto simp: fifo_inv_def)
  define s1 where "s1 = unlock_mux ((z (s\<lparr>fifo_mux := m\<rparr>))\<lparr>semCanRead := q\<rparr>)"
  have r1: "spiRamFifoReset me s = Reset_done s1" by (simp add: reset m q s1_def)
  have gw: "bin_sem (xSemaphoreGive (semCanWrite s))" "sem_given (xSemaphoreGive (semCanWrite s))"
    using assms(1) sem.give_inv sem.give_given by (auto simp: fifo_inv_def)
  have inv1: "fifo_inv s1"
    using assms m q gw by (simp add: s1_def z_def unlock_mux_def fifo_inv_def ring_inv_def)
  have c1: "fifo_content s1 = []" "semCanRead s1 = q" "sem_given (semCanWrite s1)"
    using gw by (simp_all add: s1_def z_def unlock_mux_def fifo_content_def)
  obtain m' where m': "xSemaphoreTake me (fifo_mux s1) = Some m'" "bin_sem m'" "\<not> sem_given m'"
    using sem.take_given [of "fifo_mux s1" me] inv1 by (auto simp: fifo_inv_def)
  define s2 where "s2 = z (s1\<lparr>fifo_mux := m'\<rparr>)"
  have r2: "spiRamFifoReset me s1 = Reset_waits_read s2"
    using sem.take_taken [OF q(2,3)] by (simp add: reset lock_mux_def m' c1(2) s2_def)
  have locked: "lock_mux t s2 = None" for t
    using sem.take_taken [OF m'(2,3)] by (simp add: lock_mux_def s2_def z_def)
  have "spiRamFifoWrite t s2 (b # bs) = None" for t b bs
    by (subst spiRamFifoWrite.simps) (simp add: write_section_def locked)
  then show ?thesis
    using r1 r2 inv1 c1 locked
    by (intro exI [of _ s1] exI [of _ s2]) (simp add: reset spiRamFifoFill_def spiRamFifoFree_def
        spiRamGetOverrunCt_def spiRamGetUnderrunCt_def under_mux_def read_section_def)
qed

theorem spiRamFifoReset_twice_deadlocks_witness:
  "\<exists>s1 s2. spiRamFifoReset None fresh_fifo = Reset_done s1 \<and>
     spiRamFifoReset None s1 = Reset_waits_read s2 \<and> spiRamFifoFill None s2 = None"
  using spiRamFifoReset_twice_deadlocks [OF fresh_fifo_facts(1,4), of None] by blast

end
