(* ===== verification/Audio_Render.thy ===== *)
theory Audio_Render
  imports I2S_Driver Spiram_Fifo
begin

text \<open>
  The renderer, \<^verbatim>\<open>components/audio_render/audio_render.c\<close>, with the stream header of
  \<^verbatim>\<open>main/include/wav.h\<close>. The state holds the driver, the renderer configuration the global
  pointer \<^verbatim>\<open>renderer_instance\<close> refers to (\<open>None\<close> for NULL) and \<^verbatim>\<open>renderer_status\<close>. Log output is
  left out, and so are \<^verbatim>\<open>sample_rate_modifier\<close> and the handle \<^verbatim>\<open>i2s_event_queue\<close>, which are
  written and never read.
\<close>

section \<open>The stream header\<close>

record WAVEFORMATEX =
  wFormatTag :: u16
  nChannels :: u16
  nSamplesPerSec :: u32
  nAvgBytesPerSec :: u32
  nBlockAlign :: u16
  wBitsPerSample :: u16
  cbSize :: u16
  fillFullStruct :: u16

text \<open>The 20 bytes of the structure in memory; every field is at a multiple of its size.\<close>

definition wfx_bytes :: "WAVEFORMATEX \<Rightarrow> byte list" where
  "wfx_bytes w = le16 (wFormatTag w) @ le16 (nChannels w) @ le32 (nSamplesPerSec w) @
     le32 (nAvgBytesPerSec w) @ le16 (nBlockAlign w) @ le16 (wBitsPerSample w) @ le16 (cbSize w) @
     le16 (fillFullStruct w)"

definition wfx_of_bytes :: "byte list \<Rightarrow> WAVEFORMATEX" where
  "wfx_of_bytes b =
     \<lparr>wFormatTag = of_le16 (chunk b 0 2), nChannels = of_le16 (chunk b 2 2),
      nSamplesPerSec = of_le32 (chunk b 4 4), nAvgBytesPerSec = of_le32 (chunk b 8 4),
      nBlockAlign = of_le16 (chunk b 12 2), wBitsPerSample = of_le16 (chunk b 14 2),
      cbSize = of_le16 (chunk b 16 2), fillFullStruct = of_le16 (chunk b 18 2)\<rparr>"

definition sizeof_WAVEFORMATEX :: nat where
  "sizeof_WAVEFORMATEX = 20"

section \<open>Configuration\<close>

datatype component_status_t = UNINITIALIZED | INITIALIZED | RUNNING | STOPPED

datatype output_mode_t = I2S | I2S_MERUS | DAC_BUILT_IN | PDM

record renderer_config_t =
  output_mode :: output_mode_t
  sample_rate :: u32
  bit_depth :: nat
  rc_i2s_num :: nat

record renderer =
  drv :: i2s_drv
  renderer_instance :: "renderer_config_t option"
  renderer_status :: component_status_t

text \<open>\<open>ok\<close> says whether \<^verbatim>\<open>calloc\<close> finds memory; its result is not checked.\<close>

definition create_renderer_config :: "bool \<Rightarrow> renderer_config_t run" where
  "create_renderer_config ok =
     (if ok then Inr \<lparr>output_mode = DAC_BUILT_IN, sample_rate = 44100, bit_depth = 16, rc_i2s_num = 0\<rparr>
      else Inl Null_Pointer)"

definition render_mode :: "output_mode_t \<Rightarrow> u32" where
  "render_mode om =
     (let md = I2S_MODE_MASTER OR I2S_MODE_TX;
          md1 = (if om = DAC_BUILT_IN then md OR I2S_MODE_DAC_BUILT_IN else md)
      in if om = PDM then md1 OR I2S_MODE_PDM else md1)"

definition render_comm_fmt :: "output_mode_t \<Rightarrow> u32" where
  "render_comm_fmt om =
     (if om = DAC_BUILT_IN then I2S_COMM_FORMAT_I2S_MSB
      else I2S_COMM_FORMAT_I2S OR I2S_COMM_FORMAT_I2S_MSB)"

definition render_i2s_config :: "renderer_config_t \<Rightarrow> i2s_config_t" where
  "render_i2s_config config =
     \<lparr>cfg_mode = render_mode (output_mode config), cfg_sample_rate = sint (sample_rate config),
      cfg_bits_per_sample = bit_depth config, cfg_channel_format = 0,
      cfg_communication_format = render_comm_fmt (output_mode config),
      cfg_dma_buf_count = 32, cfg_dma_buf_len = 64\<rparr>"

definition render_pins :: i2s_pin_config_t where
  "render_pins = \<lparr>bck_io_num = 26, ws_io_num = 25, data_out_num = 22, data_in_num = - 1\<rparr>"

text \<open>
  The return codes of the driver are ignored. \<open>isr_err\<close> is what \<^verbatim>\<open>esp_intr_alloc\<close> answers. The pins
  routed are the second component of the result.
\<close>

definition init_i2s :: "esp_err_t \<Rightarrow> renderer_config_t \<Rightarrow> i2s_drv \<Rightarrow> (gpio_act list \<times> i2s_drv) run" where
  "init_i2s isr_err config v =
     (let n = rc_i2s_num config; md = render_mode (output_mode config) in
      run_bind (i2s_driver_install isr_err n (Some (render_i2s_config config)) (Some 1) v) (\<lambda>(_, v1).
      run_bind (if has md I2S_MODE_DAC_BUILT_IN \<or> has md I2S_MODE_PDM then
                  run_bind (i2s_set_pin n (map_option mode (objs v1 n)) None (drv_dac v1)) (\<lambda>(_, acts, d).
                    Inr (acts, v1\<lparr>drv_dac := snd (i2s_set_dac_mode 3 d)\<rparr>))
                else
                  run_bind (i2s_set_pin n (map_option mode (objs v1 n)) (Some render_pins) (drv_dac v1))
                    (\<lambda>(_, acts, d). Inr (acts, v1\<lparr>drv_dac := d\<rparr>))) (\<lambda>(acts, v2).
      run_bind (i2s_stop n v2) (\<lambda>(_, v3). Inr (acts, v3)))))"

definition renderer_init :: "esp_err_t \<Rightarrow> renderer_config_t \<Rightarrow> renderer \<Rightarrow> renderer run" where
  "renderer_init isr_err config r =
     run_bind (init_i2s isr_err config (drv r)) (\<lambda>(_, v).
     run_bind (i2s_set_sample_rates (rc_i2s_num config) (sample_rate config) v) (\<lambda>(_, v').
       Inr \<lparr>drv = v', renderer_instance = Some config, renderer_status = INITIALIZED\<rparr>))"

section \<open>\<^verbatim>\<open>render_samples\<close>\<close>

text \<open>
  \<open>mem\<close> is the array the buffer pointer leads to, of which the caller says that \<open>buf_len\<close> bytes
  are data. A frame is the 32-bit word handed to the driver, as its four bytes in memory.
\<close>

definition load_short :: "byte list \<Rightarrow> nat \<Rightarrow> u16 run" where
  "load_short mem p = (if p + 2 \<le> length mem then Inr (of_le16 (chunk mem p 2)) else Inl Out_Of_Bounds)"

definition dac_sample :: "u16 \<Rightarrow> u16 \<Rightarrow> u32" where
  "dac_sample left0 right0 =
     (let left = left0 + 0x8000; right = right0 + 0x8000; sample = ucast left :: u32
      in (push_bit 16 sample AND 0xffff0000) OR ucast right)"

datatype loop_end = Loop_done | Loop_stopped | Loop_running nat

text \<open>
  The loop over the samples. Before each attempt the next action of the environment happens
  (interrupts and other tasks); the loop is observed until these actions are used up. The result
  has the frames that the driver accepted, in order, and how the observation ended.
\<close>

definition renderer_push :: "byte list \<Rightarrow> renderer \<Rightarrow> (int \<times> renderer) run" where
  "renderer_push x r =
     (case renderer_instance r of None \<Rightarrow> Inl Null_Pointer
      | Some c \<Rightarrow> run_bind (i2s_push_sample (rc_i2s_num c) x (drv r)) (\<lambda>(k, v). Inr (k, r\<lparr>drv := v\<rparr>)))"

fun render_loop ::
  "(renderer \<Rightarrow> renderer run) list \<Rightarrow> byte list \<Rightarrow> nat \<Rightarrow> nat \<Rightarrow> nat \<Rightarrow> renderer \<Rightarrow>
   (renderer \<times> byte list list \<times> loop_end) run" where
  "render_loop env mem 0 ptr_l ptr_r s = Inr (s, [], Loop_done)"
| "render_loop [] mem (Suc k) ptr_l ptr_r s = Inr (s, [], Loop_running (Suc k))"
| "render_loop (e # es) mem (Suc k) ptr_l ptr_r s =
     run_bind (e s) (\<lambda>s1.
     if renderer_status s1 = STOPPED then Inr (s1, [], Loop_stopped)
     else
       run_bind (load_short mem ptr_l) (\<lambda>left.
       run_bind (load_short mem ptr_r) (\<lambda>right.
       let x = le32 (dac_sample left right) in
       run_bind (renderer_push x s1) (\<lambda>(bytes_pushed, s2).
         if bytes_pushed = 0 then render_loop es mem (Suc k) ptr_l ptr_r s2
         else run_bind (render_loop es mem k (ptr_l + 4) (ptr_r + 4) s2)
                (\<lambda>(s3, done, en). Inr (s3, x # done, en))))))"

definition change_rate :: "WAVEFORMATEX \<Rightarrow> renderer \<Rightarrow> renderer run" where
  "change_rate w s =
     (case renderer_instance s of None \<Rightarrow> Inl Null_Pointer
      | Some c \<Rightarrow>
          if sample_rate c \<noteq> nSamplesPerSec w then
            run_bind (i2s_set_sample_rates (rc_i2s_num c) (nSamplesPerSec w) (drv s)) (\<lambda>(_, v).
              Inr (s\<lparr>drv := v, renderer_instance := Some (c\<lparr>sample_rate := nSamplesPerSec w\<rparr>)\<rparr>))
          else Inr s)"

definition bytes_per_sample_of :: "WAVEFORMATEX \<Rightarrow> byte" where
  "bytes_per_sample_of w = ucast (wBitsPerSample w div 8)"

definition num_samples :: "WAVEFORMATEX \<Rightarrow> u32 \<Rightarrow> u32 run" where
  "num_samples w buf_len =
     (if bytes_per_sample_of w = 0 \<or> nChannels w = 0 then Inl Div_By_Zero
      else Inr (buf_len div ucast (bytes_per_sample_of w) div ucast (nChannels w)))"

definition render_samples ::
  "(renderer \<Rightarrow> renderer run) list \<Rightarrow> byte list \<Rightarrow> u32 \<Rightarrow> WAVEFORMATEX \<Rightarrow> renderer \<Rightarrow>
   (renderer \<times> byte list list \<times> loop_end) run" where
  "render_samples env mem buf_len w s =
     run_bind (change_rate w s) (\<lambda>s1.
     run_bind (num_samples w buf_len) (\<lambda>cnt.
       if wBitsPerSample w \<noteq> 16 then Inr (s1, [], Loop_done)
       else render_loop env mem (unat cnt) 0 (if nChannels w = 1 then 0 else 2) s1))"

section \<open>\<^verbatim>\<open>render_audio\<close>\<close>

text \<open>
  The render task. Each round of its loop has what the other tasks do before the read (to the
  FIFO and to the global header \<^verbatim>\<open>wfx\<close>), what happens during the two calls of \<^verbatim>\<open>render_samples\<close>,
  and what happens to the FIFO between the last read and the reset. \<open>Audio_running\<close> is the task
  seen before its end, \<open>Audio_blocked\<close> a read that waits forever, and \<open>Audio_reset\<close> the task's
  last call with its outcome.
\<close>

record audio_env =
  before_read :: "fifo_state \<times> WAVEFORMATEX \<Rightarrow> fifo_state \<times> WAVEFORMATEX"
  during_render :: "(renderer \<Rightarrow> renderer run) list"
  during_silence :: "(renderer \<Rightarrow> renderer run) list"
  before_reset :: "fifo_state \<Rightarrow> fifo_state"

datatype audio_end = Audio_running | Audio_blocked | Audio_reset reset_outcome

fun render_over :: "loop_end \<Rightarrow> bool" where
  "render_over (Loop_running k) = False"
| "render_over Loop_done = True"
| "render_over Loop_stopped = True"

fun render_audio ::
  "task option \<Rightarrow> audio_env list \<Rightarrow> byte list \<Rightarrow> fifo_state \<times> WAVEFORMATEX \<Rightarrow> renderer \<Rightarrow>
   (renderer \<times> byte list list \<times> audio_end) run" where
  "render_audio me [] render_buffer fw s = Inr (s, [], Audio_running)"
| "render_audio me (e # es) render_buffer fw s =
     (let (f, w) = before_read e fw in
      case spiRamFifoRead me f 1024 of None \<Rightarrow> Inr (s, [], Audio_blocked)
      | Some (f', bs, bytes_to_read) \<Rightarrow>
          let b1 = overwrite render_buffer 0 bs in
          if bytes_to_read < 1024 then
            run_bind (render_samples (during_render e) b1 (word_of_int bytes_to_read) w s) (\<lambda>(s1, d1, e1).
              if \<not> render_over e1 then Inr (s1, d1, Audio_running)
              else
                run_bind (render_samples (during_silence e) (overwrite b1 0 (replicate 16 0)) 16 w s1)
                  (\<lambda>(s2, d2, e2).
                    if \<not> render_over e2 then Inr (s2, d1 @ d2, Audio_running)
                    else Inr (s2, d1 @ d2, Audio_reset (spiRamFifoReset me (before_reset e f')))))
          else
            run_bind (render_samples (during_render e) b1 1024 w s) (\<lambda>(s1, d1, e1).
              if \<not> render_over e1 then Inr (s1, d1, Audio_running)
              else run_bind (render_audio me es b1 (f', w) s1) (\<lambda>(s2, d2, en). Inr (s2, d1 @ d2, en))))"

section \<open>The header in memory\<close>

lemma le16_of_le16: "length bs = 2 \<Longrightarrow> le16 (of_le16 bs) = bs"
proof -
  assume "length bs = 2"
  then obtain a b where bs: "bs = [a, b]" by (auto simp: numeral_2_eq_2 length_Suc_conv)
  have "ucast (of_le16 [a, b]) = a" "ucast (drop_bit 8 (of_le16 [a, b])) = b"
    by (rule bit_word_eqI, auto simp: of_le16_def bit_simps dest: bit_imp_le_length)+
  then show ?thesis by (simp add: bs le16_def)
qed

lemma le32_of_le32: "length bs = 4 \<Longrightarrow> le32 (of_le32 bs) = bs"
proof -
  assume "length bs = 4"
  then obtain a b c d where bs: "bs = [a, b, c, d]" by (auto simp: eval_nat_numeral length_Suc_conv)
  have "ucast (of_le32 [a, b, c, d]) = a" "ucast (drop_bit 8 (of_le32 [a, b, c, d])) = b"
      "ucast (drop_bit 16 (of_le32 [a, b, c, d])) = c" "ucast (drop_bit 24 (of_le32 [a, b, c, d])) = d"
    by (rule bit_word_eqI, auto simp: of_le32_def bit_simps dest: bit_imp_le_length)+
  then show ?thesis by (simp add: bs le32_def)
qed

lemma length_wfx_bytes [simp]: "length (wfx_bytes w) = 20"
  by (simp add: wfx_bytes_def)

lemma wfx_bytes_split:
  assumes "length b = 20"
  shows "b = chunk b 0 2 @ chunk b 2 2 @ chunk b 4 4 @ chunk b 8 4 @ chunk b 12 2 @ chunk b 14 2 @
     chunk b 16 2 @ chunk b 18 2"
  using assms chunk_append_drop [of 0 b 2, unfolded drop_0 add_0] chunk_append_drop [of 2 b 2] chunk_append_drop [of 4 b 4]
    chunk_append_drop [of 8 b 4] chunk_append_drop [of 12 b 2] chunk_append_drop [of 14 b 2]
    chunk_append_drop [of 16 b 2] chunk_append_drop [of 18 b 2]
  by (simp del: One_nat_def)

lemma wfx_roundtrip: "wfx_of_bytes (wfx_bytes w) = w"
  by (simp add: wfx_of_bytes_def wfx_bytes_def chunk_def)

lemma wfx_bytes_of_bytes: "length b = 20 \<Longrightarrow> wfx_bytes (wfx_of_bytes b) = b"
  by (simp add: wfx_bytes_def wfx_of_bytes_def le16_of_le16 le32_of_le32 length_chunk flip: wfx_bytes_split)

section \<open>Frames\<close>

text \<open>What a stereo stream should become: per frame the right sample, then the left one, both
  moved from the signed to the unsigned range.\<close>

definition dac_frame :: "u16 \<Rightarrow> u16 \<Rightarrow> byte list" where
  "dac_frame left right = le16 (right + 0x8000) @ le16 (left + 0x8000)"

fun stereo_frames :: "byte list \<Rightarrow> byte list list" where
  "stereo_frames (a # b # c # d # rest) = dac_frame (of_le16 [a, b]) (of_le16 [c, d]) # stereo_frames rest"
| "stereo_frames _ = []"

lemma le32_pair: "le32 ((push_bit 16 (ucast l) AND 0xffff0000) OR ucast r) = le16 r @ le16 l"
  for l r :: u16
proof -
  have m: "0xffff0000 = (push_bit 16 (mask 16) :: u32)" by (simp add: mask_eq_exp_minus_1)
  let ?x = "(push_bit 16 (ucast l) AND 0xffff0000) OR ucast r :: u32"
  have "ucast ?x = (ucast r :: byte)" "ucast (drop_bit 8 ?x) = (ucast (drop_bit 8 r) :: byte)"
      "ucast (drop_bit 16 ?x) = (ucast l :: byte)" "ucast (drop_bit 24 ?x) = (ucast (drop_bit 8 l) :: byte)"
    unfolding m by (rule bit_word_eqI, auto simp: bit_simps dest: bit_imp_le_length)+
  then show ?thesis by (simp add: le32_def le16_def)
qed

lemma le32_dac_sample: "le32 (dac_sample l r) = dac_frame l r"
  unfolding dac_sample_def Let_def dac_frame_def by (rule le32_pair)

definition frame_at :: "byte list \<Rightarrow> nat \<Rightarrow> nat \<Rightarrow> byte list" where
  "frame_at mem l r = dac_frame (of_le16 (chunk mem l 2)) (of_le16 (chunk mem r 2))"

definition frames :: "byte list \<Rightarrow> nat \<Rightarrow> nat \<Rightarrow> nat \<Rightarrow> byte list list" where
  "frames mem k l r = map (\<lambda>i. frame_at mem (l + 4 * i) (r + 4 * i)) [0..<k]"

lemma frames_simps [simp]:
  "frames mem 0 l r = []" "frames mem (Suc k) l r = frame_at mem l r # frames mem k (l + 4) (r + 4)"
  by (simp_all add: frames_def upt_conv_Cons map_Suc_upt [symmetric] add.assoc del: upt_Suc)

lemma length_frame [simp]: "length (frame_at mem l r) = 4" "length (dac_frame a b) = 4"
  by (simp_all add: frame_at_def dac_frame_def)

lemma length_frames [simp]: "length (frames mem k l r) = k"
  by (simp add: frames_def)

lemma frames_length_4: "x \<in> set (frames mem k l r) \<Longrightarrow> length x = 4"
  by (auto simp: frames_def)

lemma stereo_frames_eq:
  "p + 4 * k \<le> length mem \<Longrightarrow> frames mem k p (p + 2) = stereo_frames (chunk mem p (4 * k))"
proof (induction k arbitrary: p)
  case 0
  then show ?case by (simp add: chunk_def)
next
  case (Suc k)
  have "4 \<le> length (drop p mem)" using Suc.prems by simp
  then obtain a b c d rest where m: "drop p mem = a # b # c # d # rest"
    by (auto simp: eval_nat_numeral Suc_le_length_iff simp del: length_drop)
  have "drop (p + 2) mem = c # d # rest" "drop (p + 4) mem = rest"
    using arg_cong [OF m, of "drop 2"] arg_cong [OF m, of "drop 4"] by (simp_all add: add.commute)
  then have "chunk mem p (4 * Suc k) = a # b # c # d # chunk mem (p + 4) (4 * k)"
      "frame_at mem p (p + 2) = dac_frame (of_le16 [a, b]) (of_le16 [c, d])"
    using m by (simp_all add: chunk_def frame_at_def take_Cons')
  moreover have "frames mem k (p + 4) (p + 4 + 2) = stereo_frames (chunk mem (p + 4) (4 * k))"
    using Suc.prems by (intro Suc.IH) simp
  ultimately show ?case by (simp add: ac_simps)
qed

section \<open>The renderer as a user of the sample sink\<close>

text \<open>
  What the renderer keeps true while it plays: the instance refers to port \<open>n\<close>, which is a ready
  16-bit stereo DAC port, and nobody has stopped the renderer.
\<close>

definition render_inv :: "nat \<Rightarrow> renderer \<Rightarrow> bool" where
  "render_inv n s \<longleftrightarrow>
     sink_inv n (drv s) \<and> renderer_status s \<noteq> STOPPED \<and>
     (case renderer_instance s of None \<Rightarrow> False | Some c \<Rightarrow> rc_i2s_num c = n) \<and>
     (case objs (drv s) n of None \<Rightarrow> False
      | Some ob \<Rightarrow> has (mode ob) I2S_MODE_DAC_BUILT_IN \<and> bits_per_sample ob = 16)"

lemma push_keeps_format:
  assumes "i2s_push_sample n x v = Inr (k, v')" "objs v n = Some ob" "n < I2S_NUM_MAX"
  shows "\<exists>ob'. objs v' n = Some ob' \<and> mode ob' = mode ob \<and> bits_per_sample ob' = bits_per_sample ob"
  using assms by (auto simp: i2s_push_sample_def run_bind_Inr_iff split: option.splits)

interpretation render_sink: sample_sink "render_inv n" "\<lambda>s. sink_ready n (drv s)" "\<lambda>s. sink_last n (drv s)"
    renderer_push for n
proof unfold_locales
  fix s :: renderer and x :: "byte list"
  assume inv: "render_inv n s" and len: "length x = 4"
  obtain c ob where c: "renderer_instance s = Some c" "rc_i2s_num c = n" "sink_inv n (drv s)"
      "objs (drv s) n = Some ob" "has (mode ob) I2S_MODE_DAC_BUILT_IN" "bits_per_sample ob = 16"
    using inv by (auto simp: render_inv_def split: option.splits)
  have n: "n < I2S_NUM_MAX" using c(3) by (simp add: sink_inv_def tx_port_def)
  show "renderer_push x s = Inr (0, s)" if "\<not> sink_ready n (drv s)"
    using sink.push_full [OF c(3) that len] c(1,2) by (simp add: renderer_push_def)
  show "\<exists>s'. renderer_push x s = Inr (4, s') \<and> render_inv n s' \<and> sink_last n (drv s') = x"
    if ready: "sink_ready n (drv s)"
  proof -
    obtain v where v: "i2s_push_sample n x (drv s) = Inr (4, v)" "sink_inv n v" "sink_last n v = x"
      using sink.push_ready [OF c(3) ready len] by blast
    have "render_inv n (s\<lparr>drv := v\<rparr>)"
      using inv push_keeps_format [OF v(1) c(4) n] v(2) c by (auto simp: render_inv_def)
    then show ?thesis using v c(1,2) by (auto simp: renderer_push_def)
  qed
qed

text \<open>Environments: they keep the renderer's invariant, or even provide room for a sample.\<close>

definition env_keeps :: "nat \<Rightarrow> (renderer \<Rightarrow> renderer run) list \<Rightarrow> bool" where
  "env_keeps n env \<longleftrightarrow>
     (\<forall>e \<in> set env. \<forall>t. render_inv n t \<longrightarrow> (\<exists>t'. e t = Inr t' \<and> render_inv n t'))"

definition env_drains :: "nat \<Rightarrow> (renderer \<Rightarrow> renderer run) list \<Rightarrow> bool" where
  "env_drains n env \<longleftrightarrow>
     (\<forall>e \<in> set env. \<forall>t. render_inv n t \<longrightarrow> (\<exists>t'. e t = Inr t' \<and> render_inv n t' \<and> sink_ready n (drv t')))"

definition in_reach :: "byte list \<Rightarrow> nat \<Rightarrow> nat \<Rightarrow> nat \<Rightarrow> bool" where
  "in_reach mem k l r \<longleftrightarrow> (\<forall>i<k. l + 4 * i + 2 \<le> length mem \<and> r + 4 * i + 2 \<le> length mem)"

lemma in_reach_Suc: "in_reach mem (Suc k) l r \<longleftrightarrow>
    l + 2 \<le> length mem \<and> r + 2 \<le> length mem \<and> in_reach mem k (l + 4) (r + 4)"
  unfolding in_reach_def by (subst All_less_Suc2) (simp add: ac_simps)

lemma render_loop_push:
  "render_inv n s \<Longrightarrow> env_keeps n env \<Longrightarrow> in_reach mem k l r \<Longrightarrow>
   push_loop renderer_push env (frames mem k l r) s = Inr (s', don, left) \<Longrightarrow>
   render_loop env mem k l r s
     = Inr (s', don, if left = [] then Loop_done else Loop_running (length left))"
proof (induction env arbitrary: k l r s don)
  case Nil
  then show ?case by (cases k) auto
next
  case (Cons e es)
  show ?case
  proof (cases k)
    case 0
    then show ?thesis using Cons.prems by simp
  next
    case k: (Suc j)
    obtain s1 where s1: "e s = Inr s1" "render_inv n s1" "renderer_status s1 \<noteq> STOPPED"
      using Cons.prems(1,2) by (auto simp: env_keeps_def render_inv_def)
    have es: "env_keeps n es" using Cons.prems(2) by (simp add: env_keeps_def)
    have reach: "l + 2 \<le> length mem" "r + 2 \<le> length mem" "in_reach mem j (l + 4) (r + 4)"
      using Cons.prems(3) k by (auto simp: in_reach_Suc)
    let ?x = "frame_at mem l r"
    have load: "render_loop (e # es) mem k l r s = run_bind (renderer_push ?x s1) (\<lambda>(b, s2).
        if b = 0 then render_loop es mem k l r s2
        else run_bind (render_loop es mem j (l + 4) (r + 4) s2) (\<lambda>(s3, done, en). Inr (s3, ?x # done, en)))"
      using s1 reach k by (simp add: load_short_def le32_dac_sample frame_at_def Let_def cong: if_cong)
    obtain b s2 where b: "renderer_push ?x s1 = Inr (b, s2)"
      using Cons.prems(4) s1(1) k by (auto simp: run_bind_Inr_iff)
    have inv2: "render_inv n s2"
      using b render_sink.push_ready [OF s1(2), of ?x] render_sink.push_full [OF s1(2), of ?x] s1(2)
      by (cases "sink_ready n (drv s1)") auto
    show ?thesis
    proof (cases "b = 0")
      case True
      then have "push_loop renderer_push es (frames mem k l r) s2 = Inr (s', don, left)"
        using Cons.prems(4) s1(1) b k by simp
      with Cons.IH [OF inv2 es Cons.prems(3)] True b show ?thesis by (simp add: load)
    next
      case False
      then obtain don' where d: "push_loop renderer_push es (frames mem j (l + 4) (r + 4)) s2 = Inr (s', don', left)"
          "don = ?x # don'"
        using Cons.prems(4) s1(1) b k by (auto simp: run_bind_Inr_iff)
      with Cons.IH [OF inv2 es reach(3) d(1)] False b show ?thesis by (simp add: load)
    qed
  qed
qed

lemma env_drains_keeps: "env_drains n env \<Longrightarrow> env_keeps n env"
  by (auto simp: env_drains_def env_keeps_def)

lemma render_loop_in_order:
  assumes "render_inv n s" "env_keeps n env" "in_reach mem k l r"
  shows "\<exists>s' done left. render_loop env mem k l r s
       = Inr (s', done, if left = [] then Loop_done else Loop_running (length left)) \<and>
     render_inv n s' \<and> frames mem k l r = done @ left"
proof -
  obtain s' don left where p: "push_loop renderer_push env (frames mem k l r) s = Inr (s', don, left)"
      "render_inv n s'" "frames mem k l r = don @ left"
    using render_sink.push_loop_in_order [OF assms(1), of "frames mem k l r" env] assms(2) frames_length_4
    by (auto simp: env_keeps_def)
  then show ?thesis using render_loop_push [OF assms p(1)] by blast
qed

lemma render_loop_finishes:
  assumes "render_inv n s" "env_drains n env" "in_reach mem k l r" "k \<le> length env"
  shows "\<exists>s'. render_loop env mem k l r s = Inr (s', frames mem k l r, Loop_done) \<and> render_inv n s'"
proof -
  obtain s' where p: "push_loop renderer_push env (frames mem k l r) s = Inr (s', frames mem k l r, [])"
      "render_inv n s'"
    using render_sink.push_loop_finishes [OF assms(1), of "frames mem k l r" env] assms(2,4) frames_length_4
    by (auto simp: env_drains_def)
  then show ?thesis
    using render_loop_push [OF assms(1) env_drains_keeps [OF assms(2)] assms(3) p(1)] by simp
qed

section \<open>Properties\<close>

text \<open>A sample rate the port can be switched to.\<close>

definition rate_ok :: "renderer_config_t \<Rightarrow> WAVEFORMATEX \<Rightarrow> bool" where
  "rate_ok c w \<longleftrightarrow> nSamplesPerSec w = sample_rate c \<or>
     2442 \<le> unat (nSamplesPerSec w) \<and> unat (nSamplesPerSec w) \<le> 1333333"

lemma change_rate_law:
  assumes "render_inv n s" "renderer_instance s = Some c" "rate_ok c w"
  shows "\<exists>s'. change_rate w s = Inr s' \<and> render_inv n s' \<and>
     renderer_instance s' = Some (c\<lparr>sample_rate := nSamplesPerSec w\<rparr>)"
proof (cases "nSamplesPerSec w = sample_rate c")
  case True
  then have "c\<lparr>sample_rate := nSamplesPerSec w\<rparr> = c" by simp
  then show ?thesis using True assms by (simp add: change_rate_def)
next
  case False
  then have rate: "2442 \<le> unat (nSamplesPerSec w)" "unat (nSamplesPerSec w) \<le> 1333333"
    using assms(3) by (auto simp: rate_ok_def)
  obtain ob where ob: "tx_port n (drv s)" "objs (drv s) n = Some ob" "has (mode ob) I2S_MODE_DAC_BUILT_IN"
      "bits_per_sample ob = 16" "sample_bytes ob = 4" "rc_i2s_num c = n"
    using assms(1,2) by (auto simp: render_inv_def sink_inv_def split: option.splits)
  obtain v' ob' where v': "i2s_set_sample_rates n (nSamplesPerSec w) (drv s) = Inr (ESP_OK, v')" "tx_port n v'"
      "objs v' = (objs (drv s))(n := Some ob')" "mode ob' = mode ob" "bits_per_sample ob' = bits_per_sample ob"
      "sample_bytes ob' = sample_bytes ob"
    using set_rates_dac [OF ob(1-3), of "nSamplesPerSec w"] ob(4) rate by (auto split: if_splits)
  have "render_inv n (s\<lparr>drv := v', renderer_instance := Some (c\<lparr>sample_rate := nSamplesPerSec w\<rparr>)\<rparr>)"
    using assms(1) ob v' by (simp add: render_inv_def sink_inv_def)
  then show ?thesis using False assms(2) ob(6) v'(1) by (simp add: change_rate_def)
qed

lemma stereo_frames_whole: "stereo_frames xs = stereo_frames (take (4 * (length xs div 4)) xs)"
proof (induction xs rule: stereo_frames.induct)
  case (1 a b c d rest)
  have "length (a # b # c # d # rest) div 4 = Suc (length rest div 4)" by simp
  then show ?case using 1 by (simp only: mult_Suc_right) (simp add: take_Cons')
qed simp_all

lemma frames_stereo_buffer:
  assumes "b \<le> length mem"
  shows "frames mem (b div 4) 0 2 = stereo_frames (take b mem)"
proof -
  have "frames mem (b div 4) 0 2 = stereo_frames (take (4 * (b div 4)) mem)"
    using stereo_frames_eq [of 0 "b div 4" mem] assms by (simp add: chunk_def numeral_2_eq_2)
  also have "\<dots> = stereo_frames (take b mem)"
    using assms by (subst (2) stereo_frames_whole) (simp add: min_absorb2 min_absorb1)
  finally show ?thesis .
qed

lemma num_samples_16:
  assumes "wBitsPerSample w = 16" "nChannels w = 1 \<or> nChannels w = 2"
  shows "\<exists>k. num_samples w b = Inr k \<and> unat k = unat b div (2 * unat (nChannels w))"
  using assms by (auto simp: num_samples_def bytes_per_sample_of_def unat_div div_mult2_eq)

lemma in_reach_stereo: "b \<le> length mem \<Longrightarrow> in_reach mem (b div 4) 0 2"
  by (auto simp: in_reach_def)

definition stereo16 :: "WAVEFORMATEX \<Rightarrow> bool" where
  "stereo16 w \<longleftrightarrow> nChannels w = 2 \<and> wBitsPerSample w = 16"

lemma render_samples_law:
  assumes "render_inv n s" "renderer_instance s = Some c" "rate_ok c w" "stereo16 w"
    "unat buf_len \<le> length mem" "env_drains n env" "unat buf_len div 4 \<le> length env"
  shows "\<exists>s'. render_samples env mem buf_len w s
       = Inr (s', stereo_frames (take (unat buf_len) mem), Loop_done) \<and> render_inv n s'"
proof -
  obtain s1 where s1: "change_rate w s = Inr s1" "render_inv n s1"
      "renderer_instance s1 = Some (c\<lparr>sample_rate := nSamplesPerSec w\<rparr>)"
    using change_rate_law [OF assms(1-3)] by blast
  obtain k where k: "num_samples w buf_len = Inr k" "unat k = unat buf_len div 4"
    using num_samples_16 [of w buf_len] assms(4) by (auto simp: stereo16_def)
  obtain s2 where s2: "render_loop env mem (unat k) 0 2 s1 = Inr (s2, frames mem (unat k) 0 2, Loop_done)"
      "render_inv n s2"
    using render_loop_finishes [OF s1(2) assms(6) in_reach_stereo [OF assms(5)]] assms(7) k(2) by auto
  moreover have "frames mem (unat k) 0 2 = stereo_frames (take (unat buf_len) mem)"
    using frames_stereo_buffer [OF assms(5)] k(2) by simp
  ultimately show ?thesis using s1(1) k(1) assms(4) by (simp add: render_samples_def stereo16_def)
qed

lemma render_samples_prefix:
  assumes "render_inv n s" "renderer_instance s = Some c" "rate_ok c w" "stereo16 w"
    "unat buf_len \<le> length mem" "env_keeps n env"
  shows "\<exists>s' d rest. render_samples env mem buf_len w s
       = Inr (s', d, if rest = [] then Loop_done else Loop_running (length rest)) \<and> render_inv n s' \<and>
     stereo_frames (take (unat buf_len) mem) = d @ rest"
proof -
  obtain s1 where s1: "change_rate w s = Inr s1" "render_inv n s1"
    using change_rate_law [OF assms(1-3)] by blast
  obtain k where k: "num_samples w buf_len = Inr k" "unat k = unat buf_len div 4"
    using num_samples_16 [of w buf_len] assms(4) by (auto simp: stereo16_def)
  show ?thesis
    using render_loop_in_order [OF s1(2) assms(6) in_reach_stereo [OF assms(5)]] s1(1) k assms(4)
    unfolding frames_stereo_buffer [OF assms(5)] by (simp add: render_samples_def stereo16_def)
qed

lemma render_loop_ready_step:
  assumes "render_inv n s" "env_drains n (e # es)" "l + 2 \<le> length mem" "r + 2 \<le> length mem"
  shows "\<exists>s2. render_inv n s2 \<and> env_drains n es \<and>
     render_loop (e # es) mem (Suc m) l r s = run_bind (render_loop es mem m (l + 4) (r + 4) s2)
       (\<lambda>(s3, done, en). Inr (s3, frame_at mem l r # done, en))"
proof -
  obtain s1 where s1: "e s = Inr s1" "render_inv n s1" "sink_ready n (drv s1)"
    using assms(1,2) by (auto simp: env_drains_def)
  then have st: "renderer_status s1 \<noteq> STOPPED" by (simp add: render_inv_def)
  obtain s2 where s2: "renderer_push (frame_at mem l r) s1 = Inr (4, s2)" "render_inv n s2"
    using render_sink.push_ready [OF s1(2,3), of "frame_at mem l r"] by auto
  have "render_loop (e # es) mem (Suc m) l r s = run_bind (render_loop es mem m (l + 4) (r + 4) s2)
       (\<lambda>(s3, done, en). Inr (s3, frame_at mem l r # done, en))"
    using s1(1) st s2(1) assms(3,4) by (simp add: load_short_def le32_dac_sample frame_at_def)
  moreover have "env_drains n es" using assms(2) by (simp add: env_drains_def)
  ultimately show ?thesis using s2(2) by blast
qed

lemma render_loop_overrun:
  "render_inv n s \<Longrightarrow> env_drains n env \<Longrightarrow> in_reach mem k l r \<Longrightarrow> length mem < l + 4 * k + 2 \<Longrightarrow>
   k < length env \<Longrightarrow> render_loop env mem (Suc (k + j)) l r s = Inl Out_Of_Bounds"
proof (induction k arbitrary: env l r s)
  case 0
  then obtain e es where env: "env = e # es" by (cases env) auto
  with 0 obtain s1 where "e s = Inr s1" "renderer_status s1 \<noteq> STOPPED"
    by (auto simp: env_drains_def render_inv_def)
  then show ?case using env 0 by (simp add: load_short_def)
next
  case (Suc k)
  then obtain e es where env: "env = e # es" by (cases env) auto
  have reach: "l + 2 \<le> length mem" "r + 2 \<le> length mem" "in_reach mem k (l + 4) (r + 4)"
    using Suc.prems(3) by (auto simp: in_reach_Suc)
  obtain s2 where s2: "render_inv n s2" "env_drains n es"
      "render_loop env mem (Suc (Suc k + j)) l r s = run_bind (render_loop es mem (Suc k + j) (l + 4) (r + 4) s2)
         (\<lambda>(s3, done, en). Inr (s3, frame_at mem l r # done, en))"
    using render_loop_ready_step [OF Suc.prems(1) _ reach(1,2)] Suc.prems(2) env by blast
  have "render_loop es mem (Suc (k + j)) (l + 4) (r + 4) s2 = Inl Out_Of_Bounds"
    by (rule Suc.IH [OF s2(1,2) reach(3)]) (use Suc.prems env in auto)
  then show ?case using s2(3) by simp
qed

lemma render_loop_cut:
  "render_inv n s \<Longrightarrow> env_drains n env \<Longrightarrow> in_reach mem k l r \<Longrightarrow> length env = k \<Longrightarrow> 0 < j \<Longrightarrow>
   \<exists>s'. render_loop env mem (k + j) l r s = Inr (s', frames mem k l r, Loop_running j)"
proof (induction k arbitrary: env l r s)
  case 0
  then show ?case by (cases j) auto
next
  case (Suc k)
  then obtain e es where env: "env = e # es" by (cases env) auto
  have reach: "l + 2 \<le> length mem" "r + 2 \<le> length mem" "in_reach mem k (l + 4) (r + 4)"
    using Suc.prems(3) by (auto simp: in_reach_Suc)
  obtain s2 where s2: "render_inv n s2" "env_drains n es"
      "render_loop env mem (Suc (k + j)) l r s = run_bind (render_loop es mem (k + j) (l + 4) (r + 4) s2)
         (\<lambda>(s3, done, en). Inr (s3, frame_at mem l r # done, en))"
    using render_loop_ready_step [OF Suc.prems(1) _ reach(1,2)] Suc.prems(2) env by blast
  have "\<exists>s'. render_loop es mem (k + j) (l + 4) (r + 4) s2 = Inr (s', frames mem k (l + 4) (r + 4), Loop_running j)"
    by (rule Suc.IH [OF s2(1,2) reach(3)]) (use Suc.prems env in auto)
  then show ?case using s2(3) by auto
qed

lemma render_mode_dac: "render_mode DAC_BUILT_IN = 21"
  by (simp add: render_mode_def i2s_flags)

lemma stop_keeps_port:
  assumes "tx_port n v" "objs v n = Some ob"
  shows "\<exists>v'. i2s_stop n v = Inr (ESP_OK, v') \<and> tx_port n v' \<and>
     objs v' n = Some (ob\<lparr>intr_enabled := False\<rparr>) \<and> drv_dac v' = drv_dac v"
  using assms by (simp add: i2s_stop_def tx_port_def obj_ready_def split: option.splits)

lemma renderer_init_law:
  assumes config: "create_renderer_config True = Inr config" and free_port: "objs (drv r) 0 = None"
    and mem: "mallocs (hp (drv r)) = oa # ea # a # ba # bs @ da # das @ qa # ma # rest"
      "0 \<notin> {oa, ea, a, ba, da, qa, ma} \<union> set bs \<union> set das" "length bs = 32" "length das = 32"
  shows "\<exists>r'. renderer_init ESP_OK config r = Inr r' \<and> render_inv 0 r' \<and>
     renderer_instance r' = Some config \<and> renderer_status r' = INITIALIZED \<and>
     drv_dac (drv r') = \<lparr>dac_channel_1 = True, dac_channel_2 = True, dac_i2s = True\<rparr> \<and>
     tx_start (conf (regs (drv r') 0))"
proof -
  have c: "output_mode config = DAC_BUILT_IN" "sample_rate config = 44100" "bit_depth config = 16"
      "rc_i2s_num config = 0"
    using config by (auto simp: create_renderer_config_def)
  let ?cfg = "render_i2s_config config"
  have cfg: "cfg_mode ?cfg = 21" "cfg_sample_rate ?cfg = 44100" "cfg_bits_per_sample ?cfg = 16"
      "cfg_channel_format ?cfg = 0" "cfg_dma_buf_count ?cfg = 32" "cfg_dma_buf_len ?cfg = 64"
    using c by (simp_all add: render_i2s_config_def render_mode_dac)
  obtain v1 ob where v1: "i2s_driver_install ESP_OK 0 (Some ?cfg) (Some 1) (drv r) = Inr (ESP_OK, v1)"
      "tx_port 0 v1" "objs v1 0 = Some ob" "mode ob = 21" "bits_per_sample ob = 16" "channel_num ob = 2"
    using install_law [OF _ free_port, of ?cfg oa ea a ba bs da das qa ma rest 1] mem cfg
    by (auto simp: has_def i2s_flags)
  let ?dac = "\<lparr>dac_channel_1 = True, dac_channel_2 = True, dac_i2s = True\<rparr>"
  obtain v2 where v2: "i2s_stop 0 (v1\<lparr>drv_dac := ?dac\<rparr>) = Inr (ESP_OK, v2)" "tx_port 0 v2"
      "objs v2 0 = Some (ob\<lparr>intr_enabled := False\<rparr>)" "drv_dac v2 = ?dac"
    using stop_keeps_port [of 0 "v1\<lparr>drv_dac := ?dac\<rparr>" ob] v1(2,3) by (auto simp: tx_port_def)
  have dac: "d\<lparr>dac_i2s := True, dac_channel_1 := True, dac_channel_2 := True\<rparr> = ?dac" for d :: dac_state
    by (cases d) simp
  have init: "init_i2s ESP_OK config (drv r) = Inr ([], v2)"
    using v1(1) v2(1) c
    by (simp add: init_i2s_def render_mode_dac has_def i2s_flags i2s_set_pin_def i2s_set_dac_mode_def
        I2S_NUM_MAX_def I2S_DAC_CHANNEL_MAX_def Let_def dac)
  obtain v3 ob' where v3: "i2s_set_sample_rates 0 44100 v2 = Inr (ESP_OK, v3)" "tx_port 0 v3"
      "objs v3 = (objs v2)(0 := Some ob')" "mode ob' = 21" "bits_per_sample ob' = 16"
      "sample_bytes ob' = sample_bytes ob" "drv_dac v3 = drv_dac v2" "tx_start (conf (regs v3 0))"
    using set_rates_dac [OF v2(2,3), of 44100] v1(4,5) by (auto simp: has_def i2s_flags)
  have "sample_bytes ob = 4"
    using v1(2,3,5,6) by (simp add: tx_port_def obj_ready_def sample_bytes_def)
  then show ?thesis
    using init v3 c v2(4)
    by (simp add: renderer_init_def render_inv_def sink_inv_def has_def i2s_flags)
qed

lemma stereo_frames_append:
  "4 dvd length xs \<Longrightarrow> stereo_frames (xs @ ys) = stereo_frames xs @ stereo_frames ys"
proof (induction xs rule: stereo_frames.induct)
  case (1 a b c d rest)
  then have "4 dvd length rest" by (simp add: dvd_eq_mod_eq_0)
  with 1 show ?case by simp
qed (auto simp: dvd_eq_mod_eq_0)

lemma silence_frames: "stereo_frames (replicate 16 0) = replicate 4 (dac_frame 0 0)"
  by (simp add: numeral_eq_Suc of_le16_def)

lemma overwrite_front:
  "length ys \<le> length xs \<Longrightarrow> take (length ys) (overwrite xs 0 ys) = ys"
  by (simp add: overwrite_def)

text \<open>An environment in which nobody writes to the FIFO before the task's last read.\<close>

definition quiet_env :: "nat \<Rightarrow> audio_env \<Rightarrow> bool" where
  "quiet_env n e \<longleftrightarrow>
     (\<forall>fw. before_read e fw = fw) \<and> env_drains n (during_render e) \<and> 256 \<le> length (during_render e) \<and>
     env_drains n (during_silence e) \<and> 4 \<le> length (during_silence e) \<and>
     (\<forall>f. fifo_inv f \<and> sem_given (semCanRead f) \<longrightarrow>
        fifo_inv (before_reset e f) \<and> sem_given (semCanRead (before_reset e f)))"

lemma render_step:
  assumes "render_inv n s" "stereo16 w"
    "2442 \<le> unat (nSamplesPerSec w)" "unat (nSamplesPerSec w) \<le> 1333333"
    "length bs \<le> length b" "length bs \<le> 1024" "env_drains n env" "length bs div 4 \<le> length env"
  shows "\<exists>s'. render_samples env (overwrite b 0 bs) (word_of_int (int (length bs))) w s
     = Inr (s', stereo_frames bs, Loop_done) \<and> render_inv n s'"
proof -
  obtain c where c: "renderer_instance s = Some c"
    using assms(1) by (auto simp: render_inv_def split: option.splits)
  have u: "unat (word_of_int (int (length bs)) :: u32) = length bs"
    using assms(6) by (simp add: unat_of_nat take_bit_nat_eq_self)
  show ?thesis
    using render_samples_law [OF assms(1) c _ assms(2), of "word_of_int (int (length bs))" "overwrite b 0 bs" env]
      assms u overwrite_front [OF assms(5)] by (auto simp: rate_ok_def overwrite_def)
qed

lemma render_audio_law:
  "fifo_inv f \<Longrightarrow> sem_given (semCanRead f) \<Longrightarrow> render_inv n s \<Longrightarrow> stereo16 w \<Longrightarrow>
   2442 \<le> unat (nSamplesPerSec w) \<Longrightarrow> unat (nSamplesPerSec w) \<le> 1333333 \<Longrightarrow> length b = 1024 \<Longrightarrow>
   (\<And>e. e \<in> set es \<Longrightarrow> quiet_env n e) \<Longrightarrow> length (fifo_content f) div 1024 < length es \<Longrightarrow>
   \<exists>s' f'. render_audio me es b (f, w) s
       = Inr (s', stereo_frames (fifo_content f) @ replicate 4 (dac_frame 0 0), Audio_reset (Reset_done f')) \<and>
     render_inv n s' \<and> fifo_inv f' \<and> fifo_content f' = []"
proof (induction es arbitrary: f s b)
  case Nil
  then show ?case by simp
next
  case (Cons e es)
  note pr = Cons.prems
  have e: "before_read e (f, w) = (f, w)" "env_drains n (during_render e)" "256 \<le> length (during_render e)"
      "env_drains n (during_silence e)" "4 \<le> length (during_silence e)"
    using pr(8) [of e] by (auto simp: quiet_env_def)
  let ?c = "fifo_content f"
  have fill: "length ?c = fifoFill f" using pr(1) length_fifo_content by (simp add: fifo_inv_def)
  obtain f1 where f1: "spiRamFifoRead me f 1024 = Some (f1, take 1024 ?c, min 1024 (int (length ?c)))"
      "fifo_inv f1" "fifo_content f1 = drop 1024 ?c" "semCanRead f1 = semCanRead f"
    using fifo_read_law [OF pr(1), of me 1024] fill by auto
  let ?b1 = "overwrite b 0 (take 1024 ?c)"
  have b1: "length ?b1 = 1024" using pr(7) by (simp add: overwrite_def)
  obtain s1 where s1: "render_samples (during_render e) ?b1 (word_of_int (int (length (take 1024 ?c)))) w s
      = Inr (s1, stereo_frames (take 1024 ?c), Loop_done)" "render_inv n s1"
  proof -
    have "length (take 1024 ?c) div 4 \<le> length (during_render e)" using e(3) by simp
    then show ?thesis
      using render_step [OF pr(3-6), of "take 1024 ?c" b "during_render e"] pr(7) e(2) that by auto
  qed
  show ?case
  proof (cases "length ?c < 1024")
    case True
    obtain s2 where s2: "render_samples (during_silence e) (overwrite ?b1 0 (replicate 16 0)) 16 w s1
        = Inr (s2, replicate 4 (dac_frame 0 0), Loop_done)" "render_inv n s2"
      using render_step [OF s1(2) pr(4-6), of "replicate 16 0" ?b1 "during_silence e"] b1 e(4,5)
      unfolding silence_frames by auto
    have f2: "fifo_inv (before_reset e f1)" "sem_given (semCanRead (before_reset e f1))"
      using pr(8) [of e] f1(2,4) pr(2) by (auto simp: quiet_env_def)
    obtain f' where f': "spiRamFifoReset me (before_reset e f1) = Reset_done f'" "fifo_inv f'" "fifo_content f' = []"
      using reset_law [OF f2] by blast
    show ?thesis using True e(1) f1(1) s1(1) s2 f' by simp
  next
    case False
    then have len: "int (length (take 1024 ?c)) = 1024" "4 dvd length (take 1024 ?c)" by auto
    have "\<exists>s' f'. render_audio me es ?b1 (f1, w) s1
       = Inr (s', stereo_frames (fifo_content f1) @ replicate 4 (dac_frame 0 0), Audio_reset (Reset_done f')) \<and>
     render_inv n s' \<and> fifo_inv f' \<and> fifo_content f' = []"
    proof (rule Cons.IH [OF f1(2) _ s1(2) pr(4-6) b1])
      show "sem_given (semCanRead f1)" using f1(4) pr(2) by simp
      show "length (fifo_content f1) div 1024 < length es"
        using False pr(9) f1(3) by (simp add: div_if [of "length ?c"] split: if_splits)
    qed (use pr(8) in auto)
    then show ?thesis
      using False e(1) f1 s1(1) len stereo_frames_append [OF len(2), of "drop 1024 ?c"] by auto
  qed
qed

text \<open>
  Starting the renderer with the configuration it builds itself, on a free port 0 with enough
  memory for the driver object, the event queue and 32 DMA buffers: every driver call succeeds,
  the port ends up as a running 16-bit stereo port on the built-in DAC with a well-formed empty
  sample ring, both DAC channels are enabled, and the global instance is the configuration.
\<close>

theorem renderer_init_ready:
  assumes "create_renderer_config True = Inr config" "objs (drv r) 0 = None"
    and "mallocs (hp (drv r)) = oa # ea # a # ba # bs @ da # das @ qa # ma # rest"
      "0 \<notin> {oa, ea, a, ba, da, qa, ma} \<union> set bs \<union> set das" "length bs = 32" "length das = 32"
  shows "\<exists>r'. renderer_init ESP_OK config r = Inr r' \<and> render_inv 0 r' \<and>
     renderer_instance r' = Some config \<and> renderer_status r' = INITIALIZED \<and>
     drv_dac (drv r') = \<lparr>dac_channel_1 = True, dac_channel_2 = True, dac_i2s = True\<rparr> \<and>
     tx_start (conf (regs (drv r') 0))"
  by (rule renderer_init_law [OF assms])

definition boot_renderer :: renderer where
  "boot_renderer = \<lparr>drv = idle_drv\<lparr>hp := \<lparr>mallocs = 1 # 2 # 3 # 4 # replicate 32 100 @ 5 # replicate 32 200 @ 6 # 7 # [],
     live = []\<rparr>\<rparr>, renderer_instance = None, renderer_status = UNINITIALIZED\<rparr>"

theorem renderer_init_ready_witness:
  "\<exists>config r'. create_renderer_config True = Inr config \<and>
     renderer_init ESP_OK config boot_renderer = Inr r' \<and> render_inv 0 r'"
  using renderer_init_ready [of "\<lparr>output_mode = DAC_BUILT_IN, sample_rate = 44100, bit_depth = 16, rc_i2s_num = 0\<rparr>"
      boot_renderer 1 2 3 4 "replicate 32 100" 5 "replicate 32 200" 6 7 "[]"]
  by (auto simp: create_renderer_config_def boot_renderer_def idle_drv_def)

text \<open>
  C22. Rendering a 16-bit stereo buffer. Whatever interrupts and other tasks do between the
  attempts, as long as they keep the port usable, the frames the driver has accepted are a prefix
  of the frames of the buffer, in order and without loss or repetition, and the rest is still to
  come. If room is made before each attempt, one attempt per frame finishes the call with every
  whole frame of the first \<^verbatim>\<open>buf_len\<close> bytes played; a trailing part of a frame is ignored.
\<close>

theorem render_samples_stereo:
  assumes "render_inv n s" "renderer_instance s = Some c" "rate_ok c w" "stereo16 w"
    "unat buf_len \<le> length mem" "env_keeps n env"
  shows "\<exists>s' d rest. render_samples env mem buf_len w s
       = Inr (s', d, if rest = [] then Loop_done else Loop_running (length rest)) \<and> render_inv n s' \<and>
     stereo_frames (take (unat buf_len) mem) = d @ rest \<and>
     (env_drains n env \<and> unat buf_len div 4 \<le> length env \<longrightarrow> rest = [])"
proof (cases "env_drains n env \<and> unat buf_len div 4 \<le> length env")
  case True
  then show ?thesis using render_samples_law [OF assms(1-5), of env] by auto
next
  case False
  with render_samples_prefix [OF assms] show ?thesis by blast
qed

definition demo_conf :: renderer_config_t where
  "demo_conf = \<lparr>output_mode = DAC_BUILT_IN, sample_rate = 44100, bit_depth = 16, rc_i2s_num = 0\<rparr>"

definition demo_wfx :: WAVEFORMATEX where
  "demo_wfx = \<lparr>wFormatTag = 1, nChannels = 2, nSamplesPerSec = 48000, nAvgBytesPerSec = 192000,
     nBlockAlign = 4, wBitsPerSample = 16, cbSize = 0, fillFullStruct = 0\<rparr>"

lemma demo_renderer:
  "\<exists>s. render_inv 0 s \<and> sink_ready 0 (drv s) \<and> renderer_instance s = Some demo_conf"
proof -
  obtain d mx where d: "dma_ok d" "buf_size d = 32" "rw_pos d = 0" "dma_mux d = Some (50, mx)" "bin_sem mx"
      "sem_given mx" "desc d = link_descs [300, 400] [100, 200] 32"
    using demo_ring by blast
  have "100 \<in> set (buf d)" using d(1,7) by (simp add: dma_ok_def link_descs_def)
  then have ok: "dma_ok (d\<lparr>curr_ptr := 100\<rparr>)"
    using d(1) by (simp add: dma_ok_def ptr_queue_def waiting_buffers_def)
  let ?v = "demo_drv (d\<lparr>curr_ptr := 100\<rparr>)"
  have "sink_inv 0 ?v" "sink_ready 0 ?v"
    using d ok by (simp_all add: sink_inv_def sink_ready_def tx_port_def demo_drv_def idle_drv_def demo_obj_def
        obj_ready_def ring_ready_def sample_bytes_def I2S_NUM_MAX_def has_def i2s_flags)
  then have "render_inv 0 \<lparr>drv = ?v, renderer_instance = Some demo_conf, renderer_status = INITIALIZED\<rparr>"
    by (simp add: render_inv_def demo_conf_def demo_drv_def demo_obj_def has_def i2s_flags)
  with \<open>sink_ready 0 ?v\<close> show ?thesis
    by (intro exI [of _ "\<lparr>drv = ?v, renderer_instance = Some demo_conf, renderer_status = INITIALIZED\<rparr>"]) simp
qed

definition refill_from :: "renderer \<Rightarrow> renderer \<Rightarrow> renderer run" where
  "refill_from s t = Inr (if sink_ready 0 (drv t) then t else s)"

lemma refill_drains:
  "render_inv 0 s \<Longrightarrow> sink_ready 0 (drv s) \<Longrightarrow> env_drains 0 (replicate k (refill_from s))"
  by (auto simp: env_drains_def refill_from_def)

theorem render_samples_stereo_witness:
  "\<exists>s s'. render_samples (replicate 2 (refill_from s)) [1, 2, 3, 4, 5, 6, 7, 8, 9] 9 demo_wfx s
     = Inr (s', stereo_frames [1, 2, 3, 4, 5, 6, 7, 8, 9], Loop_done)"
proof -
  obtain s where s: "render_inv 0 s" "sink_ready 0 (drv s)" "renderer_instance s = Some demo_conf"
    using demo_renderer by blast
  note drains = refill_drains [OF s(1,2), of 2]
  have "rate_ok demo_conf demo_wfx" "stereo16 demo_wfx"
    by (simp_all add: rate_ok_def demo_wfx_def stereo16_def)
  from render_samples_stereo [OF s(1,3) this, of 9 "[1, 2, 3, 4, 5, 6, 7, 8, 9]" "replicate 2 (refill_from s)"]
  have "\<exists>s'. render_samples (replicate 2 (refill_from s)) [1, 2, 3, 4, 5, 6, 7, 8, 9] 9 demo_wfx s
      = Inr (s', stereo_frames [1, 2, 3, 4, 5, 6, 7, 8, 9], Loop_done)"
    using drains env_drains_keeps [OF drains] by auto
  then show ?thesis by blast
qed

text \<open>
  C38. A 16-bit mono buffer is rendered wrongly. The loop still advances by a stereo frame, so the
  frames it plays come from every second sample, and as it counts twice as many frames as the
  buffer holds at that stride, it reads past the end of the array after half of them, unless the
  buffer has fewer than four bytes.
\<close>

theorem render_samples_mono_overrun:
  assumes "render_inv n s" "renderer_instance s = Some c" "rate_ok c w" "nChannels w = 1" "wBitsPerSample w = 16"
    "unat buf_len = length mem" "4 \<le> length mem" "env_drains n env"
  defines "k \<equiv> (length mem + 2) div 4"
  shows "if k < length env then render_samples env mem buf_len w s = Inl Out_Of_Bounds
     else length env = k \<longrightarrow> (\<exists>s'. render_samples env mem buf_len w s
       = Inr (s', map (\<lambda>i. dac_frame (of_le16 (chunk mem (4 * i) 2)) (of_le16 (chunk mem (4 * i) 2))) [0..<k],
              Loop_running (length mem div 2 - k)))"
proof -
  obtain s1 where s1: "change_rate w s = Inr s1" "render_inv n s1"
    using change_rate_law [OF assms(1-3)] by blast
  obtain m where m: "num_samples w buf_len = Inr m" "unat m = length mem div 2"
    using num_samples_16 [of w buf_len] assms(4-6) by auto
  have k: "k < length mem div 2" using assms(7) unfolding k_def by presburger
  have reach: "in_reach mem k 0 0" "length mem < 4 * k + 2"
    by (auto simp: in_reach_def k_def)
  have run: "render_samples env mem buf_len w s = render_loop env mem (Suc (k + (length mem div 2 - Suc k))) 0 0 s1"
    using s1(1) m k assms(4,5) by (simp add: render_samples_def)
  show ?thesis
  proof (cases "k < length env")
    case True
    then show ?thesis
      using render_loop_overrun [OF s1(2) assms(8) reach(1)] reach(2) run by simp
  next
    case False
    have "\<exists>s'. render_loop env mem (k + (length mem div 2 - k)) 0 0 s1
        = Inr (s', frames mem k 0 0, Loop_running (length mem div 2 - k))" if "length env = k"
      using render_loop_cut [OF s1(2) assms(8) reach(1) that, of "length mem div 2 - k"] k by auto
    moreover have "frames mem k 0 0
        = map (\<lambda>i. dac_frame (of_le16 (chunk mem (4 * i) 2)) (of_le16 (chunk mem (4 * i) 2))) [0..<k]"
      by (simp add: frames_def frame_at_def)
    ultimately show ?thesis using False k unfolding run by simp
  qed
qed

definition demo_mono :: WAVEFORMATEX where
  "demo_mono = demo_wfx\<lparr>nChannels := 1\<rparr>"

theorem render_samples_mono_overrun_witness:
  "\<exists>s. render_inv 0 s \<and>
     render_samples (replicate 3 (refill_from s)) [1, 2, 3, 4, 5, 6, 7, 8] 8 demo_mono s = Inl Out_Of_Bounds"
proof -
  obtain s where s: "render_inv 0 s" "sink_ready 0 (drv s)" "renderer_instance s = Some demo_conf"
    using demo_renderer by blast
  have "rate_ok demo_conf demo_mono" "nChannels demo_mono = 1" "wBitsPerSample demo_mono = 16"
    by (simp_all add: rate_ok_def demo_mono_def demo_wfx_def)
  from render_samples_mono_overrun [OF s(1,3) this, of 8 "[1, 2, 3, 4, 5, 6, 7, 8]" "replicate 3 (refill_from s)"]
  have "render_samples (replicate 3 (refill_from s)) [1, 2, 3, 4, 5, 6, 7, 8] 8 demo_mono s = Inl Out_Of_Bounds"
    using refill_drains [OF s(1,2), of 3] by simp
  with s(1) show ?thesis by blast
qed

text \<open>
  Headers that are not checked anywhere before they reach the renderer: with no channels, or
  with a sample width whose number of bytes, taken as an 8-bit number, is zero, the call divides
  by zero. Any other width than 16 bits is refused without playing anything, after the sample
  rate has been changed all the same.
\<close>

theorem render_samples_bad_header:
  assumes "render_inv n s" "renderer_instance s = Some c" "rate_ok c w"
  shows "if nChannels w = 0 \<or> unat (wBitsPerSample w) div 8 mod 256 = 0
     then render_samples env mem buf_len w s = Inl Div_By_Zero
     else wBitsPerSample w \<noteq> 16 \<longrightarrow>
       (\<exists>s'. render_samples env mem buf_len w s = Inr (s', [], Loop_done) \<and> render_inv n s' \<and>
          renderer_instance s' = Some (c\<lparr>sample_rate := nSamplesPerSec w\<rparr>))"
proof -
  obtain s1 where s1: "change_rate w s = Inr s1" "render_inv n s1"
      "renderer_instance s1 = Some (c\<lparr>sample_rate := nSamplesPerSec w\<rparr>)"
    using change_rate_law [OF assms] by blast
  have "bytes_per_sample_of w = 0 \<longleftrightarrow> unat (wBitsPerSample w) div 8 mod 256 = 0"
    by (simp add: bytes_per_sample_of_def unsigned_eq_0_iff [symmetric, where 'a = nat] unsigned_ucast_eq unat_div
        take_bit_eq_mod del: unsigned_eq_0_iff)
  then show ?thesis using s1 by (auto simp: render_samples_def num_samples_def)
qed

theorem render_samples_bad_header_witness:
  "\<exists>s. render_inv 0 s \<and>
     render_samples [] [] 0 (demo_wfx\<lparr>wBitsPerSample := 4\<rparr>) s = Inl Div_By_Zero \<and>
     (\<exists>s'. render_samples [] [] 0 (demo_wfx\<lparr>wBitsPerSample := 24\<rparr>) s = Inr (s', [], Loop_done))"
proof -
  obtain s where s: "render_inv 0 s" "renderer_instance s = Some demo_conf" using demo_renderer by blast
  have "rate_ok demo_conf (demo_wfx\<lparr>wBitsPerSample := x\<rparr>)" for x
    by (simp add: rate_ok_def demo_wfx_def)
  note bad = render_samples_bad_header [OF s this, of _ "[]" "[]" 0]
  show ?thesis using s(1) bad [of 4] bad [of 24] by (intro exI [of _ s]) (auto simp: demo_wfx_def)
qed


definition demo_env :: "renderer \<Rightarrow> audio_env" where
  "demo_env s = \<lparr>before_read = (\<lambda>fw. fw), during_render = replicate 256 (refill_from s),
     during_silence = replicate 4 (refill_from s), before_reset = (\<lambda>f. f)\<rparr>"


end
