(* ===== verification/Audio_Player.thy ===== *)
theory Audio_Player
  imports Audio_Render
begin

text \<open>
  The stream consumer, \<^verbatim>\<open>components/audio_player/audio_player.c\<close>: it puts received bytes into the
  FIFO and starts the render task once the FIFO is more than half full. The state holds the static
  variables of the file and the FIFO; log output is left out.
\<close>

section \<open>State and operations\<close>

datatype player_command_t = CMD_NONE | CMD_START | CMD_STOP

record player =
  player_status :: component_status_t
  tick :: u32
  command :: player_command_t
  decoder_command :: player_command_t
  decoder_status :: component_status_t
  ram_fifo :: fifo_state

text \<open>The static variables at power-up; \<open>f\<close> is the FIFO.\<close>

definition player_static :: "fifo_state \<Rightarrow> player" where
  "player_static f = \<lparr>player_status = UNINITIALIZED, tick = 0, command = CMD_NONE, decoder_command = CMD_NONE,
     decoder_status = UNINITIALIZED, ram_fifo = f\<rparr>"

definition or_block :: "'a option \<Rightarrow> 'a run" where
  "or_block x = (case x of None \<Rightarrow> Inl Blocks_Forever | Some y \<Rightarrow> Inr y)"

definition fill_level :: "int \<Rightarrow> byte" where
  "fill_level bytes_in_buf = word_of_int ((bytes_in_buf * 100) div spiRamFifoLen)"

text \<open>
  \<open>task_ok\<close> is the answer of \<^verbatim>\<open>xTaskCreate\<close>. The result has the return value and whether the call
  started the render task. A write that waits for a reader that never comes is
  \<open>Blocks_Forever\<close>; \<open>bytes_read\<close> beyond the buffer reads outside it.
\<close>

definition audio_stream_consumer ::
  "task option \<Rightarrow> bool \<Rightarrow> byte list \<Rightarrow> int \<Rightarrow> player \<Rightarrow> (int \<times> bool \<times> player) run" where
  "audio_stream_consumer me task_ok recv_buf bytes_read p =
     (if command p = CMD_STOP then
        Inr (- 1, False, p\<lparr>decoder_command := CMD_STOP, command := CMD_NONE\<rparr>)
      else
        run_bind (if bytes_read > 0 then
                    if int (length recv_buf) < bytes_read then Inl Out_Of_Bounds
                    else or_block (spiRamFifoWrite me (ram_fifo p) (take (nat bytes_read) recv_buf))
                  else Inr (ram_fifo p)) (\<lambda>f1.
        run_bind (or_block (spiRamFifoFill me f1)) (\<lambda>(f2, bytes_in_buf).
          let p1 = p\<lparr>ram_fifo := f2\<rparr>;
              enough_buffer = 50 < fill_level bytes_in_buf in
          if decoder_status p1 \<noteq> RUNNING \<and> enough_buffer then
            if \<not> task_ok then Inr (- 1, False, p1)
            else Inr (0, True, p1\<lparr>decoder_status := RUNNING, tick := (tick p1 + 1) AND 255\<rparr>)
          else Inr (0, False, p1\<lparr>tick := (tick p1 + 1) AND 255\<rparr>))))"

definition audio_player_init :: "player \<Rightarrow> player" where
  "audio_player_init p = p\<lparr>player_status := INITIALIZED\<rparr>"

definition audio_player_destroy :: "player \<Rightarrow> player" where
  "audio_player_destroy p = p\<lparr>player_status := UNINITIALIZED\<rparr>"

definition audio_player_start :: "player \<Rightarrow> player" where
  "audio_player_start p = p\<lparr>player_status := RUNNING\<rparr>"

definition audio_player_stop :: "player \<Rightarrow> player" where
  "audio_player_stop p = p\<lparr>command := CMD_STOP\<rparr>"

definition get_player_status :: "player \<Rightarrow> component_status_t" where
  "get_player_status p = player_status p"

section \<open>Sequences of calls\<close>

text \<open>
  Everything that can happen to the player: calls of its functions and changes of the FIFO by the
  render task. The first argument of \<open>player_step\<close> says whether the step starts the render task.
\<close>

inductive player_step :: "bool \<Rightarrow> player \<Rightarrow> player \<Rightarrow> bool" where
  consume: "audio_stream_consumer me ok data n p = Inr (res, started, p') \<Longrightarrow> player_step started p p'"
| init: "player_step False p (audio_player_init p)"
| destroy: "player_step False p (audio_player_destroy p)"
| start: "player_step False p (audio_player_start p)"
| stop: "player_step False p (audio_player_stop p)"
| reader: "player_step False p (p\<lparr>ram_fifo := f\<rparr>)"

inductive_cases player_stepE: "player_step b p p'"

inductive player_run :: "player \<Rightarrow> nat \<Rightarrow> player \<Rightarrow> bool" where
  refl: "player_run p 0 p"
| step: "player_run p k p' \<Longrightarrow> player_step b p' p'' \<Longrightarrow> player_run p (if b then Suc k else k) p''"

lemma consumer_starts:
  assumes "audio_stream_consumer me ok data n p = Inr (res, started, p')"
  shows "(started \<longrightarrow> decoder_status p \<noteq> RUNNING \<and> decoder_status p' = RUNNING) \<and>
    (\<not> started \<longrightarrow> decoder_status p' = decoder_status p)"
  using assms
  by (auto simp: audio_stream_consumer_def run_bind_Inr_iff Let_def split: if_splits)

lemma player_step_status:
  assumes "player_step b p p'"
  shows "(b \<longrightarrow> decoder_status p \<noteq> RUNNING \<and> decoder_status p' = RUNNING) \<and>
    (\<not> b \<longrightarrow> decoder_status p' = decoder_status p)"
  using assms
proof cases
  case (consume me ok data n res)
  then show ?thesis using consumer_starts by blast
qed (simp_all add: audio_player_init_def audio_player_destroy_def audio_player_start_def
    audio_player_stop_def)

lemma player_run_starts:
  assumes "player_run p k p'"
  shows "k \<le> 1 \<and> (k = 1 \<longrightarrow> decoder_status p' = RUNNING) \<and> (decoder_status p = RUNNING \<longrightarrow> k = 0) \<and>
    (k = 0 \<longrightarrow> decoder_status p' = decoder_status p)"
  using assms
proof induction
  case (step p k p' b p'')
  then show ?case using player_step_status [OF step.hyps(2)] by (cases b) auto
qed simp

lemma fill_law:
  assumes "fifo_inv f"
  shows "\<exists>f'. spiRamFifoFill me f = Some (f', int (fifoFill f)) \<and> fifo_inv f' \<and>
     fifo_content f' = fifo_content f \<and> fifoFill f' = fifoFill f"
proof -
  obtain m where m: "lock_mux me f = Some (f\<lparr>fifo_mux := m\<rparr>)" "bin_sem m"
      "bin_sem (xSemaphoreGive m)" "sem_given (xSemaphoreGive m)"
    using lock_mux_ok [OF assms] by blast
  then show ?thesis
    using assms by (simp add: spiRamFifoFill_def under_mux_def unlock_mux_def fifo_inv_def ring_inv_def
        fifo_content_def)
qed

lemma fill_level_half:
  assumes "fill \<le> SPIRAMSIZE"
  shows "50 < fill_level (int fill) \<longleftrightarrow> 65280 \<le> fill"
proof -
  let ?x = "(int fill * 100) div 128000"
  have "0 \<le> ?x" "?x \<le> 100" using assms by (simp_all add: SPIRAMSIZE_def)
  then have "uint (word_of_int ?x :: byte) = ?x"
    by (simp add: uint_word_of_int_eq take_bit_int_eq_self)
  then have "50 < fill_level (int fill) \<longleftrightarrow> 50 < ?x"
    by (simp add: fill_level_def spiRamFifoLen_def SPIRAMSIZE_def word_less_def)
  also have "\<dots> \<longleftrightarrow> 51 \<le> (fill * 100) div 128000"
  proof -
    have "?x = int ((fill * 100) div 128000)" by (simp add: zdiv_int)
    then show ?thesis by linarith
  qed
  also have "\<dots> \<longleftrightarrow> 65280 \<le> fill"
    by (subst less_eq_div_iff_mult_less_eq) auto
  finally show ?thesis .
qed

section \<open>Properties\<close>

text \<open>
  A call with data that fits into the FIFO, when no stop is pending and the render task has
  not been started: the bytes are appended to the FIFO, and the render task is started exactly
  when the FIFO then holds at least 65280 of its 128000 bytes, the first level that the integer
  percentage reports as more than 50. If the task cannot be created, the call answers -1 and the
  next call tries again.
\<close>

theorem audio_stream_consumer_law:
  assumes "fifo_inv (ram_fifo p)" "command p \<noteq> CMD_STOP" "0 < n" "n \<le> int (length data)"
    "nat n \<le> SPIRAMSIZE - fifoFill (ram_fifo p)" "decoder_status p \<noteq> RUNNING"
  shows "\<exists>res started p'. audio_stream_consumer me ok data n p = Inr (res, started, p') \<and>
     fifo_inv (ram_fifo p') \<and> fifo_content (ram_fifo p') = fifo_content (ram_fifo p) @ take (nat n) data \<and>
     (started \<longleftrightarrow> ok \<and> 65280 \<le> length (fifo_content (ram_fifo p'))) \<and>
     (res = - 1 \<longleftrightarrow> \<not> ok \<and> 65280 \<le> length (fifo_content (ram_fifo p'))) \<and> (res = 0 \<or> res = - 1) \<and>
     decoder_status p' = (if started then RUNNING else decoder_status p)"
proof -
  have len: "length (take (nat n) data) = nat n" using assms(4) by simp
  then obtain f1 where f1: "spiRamFifoWrite me (ram_fifo p) (take (nat n) data) = Some f1" "fifo_inv f1"
      "fifo_content f1 = fifo_content (ram_fifo p) @ take (nat n) data"
    using spiRamFifoWrite_fits [OF assms(1), of "take (nat n) data" me] assms(5) by auto
  obtain f2 where f2: "spiRamFifoFill me f1 = Some (f2, int (fifoFill f1))" "fifo_inv f2"
      "fifo_content f2 = fifo_content f1" "fifoFill f2 = fifoFill f1"
    using fill_law [OF f1(2)] by blast
  have fill: "fifoFill f1 \<le> SPIRAMSIZE" "fifoFill f1 = length (fifo_content f1)"
    using f1(2) length_fifo_content by (auto simp: fifo_inv_def ring_inv_def)
  note half = fill_level_half [OF fill(1)]
  show ?thesis
    using assms(2-4,6) f1 f2 fill(2) half
    by (auto simp: audio_stream_consumer_def or_block_def Let_def)
qed

definition half_full :: player where
  "half_full = player_static fresh_fifo"

theorem audio_stream_consumer_law_witness:
  "\<exists>res p'. audio_stream_consumer None True (replicate 65280 7) 65280 half_full = Inr (res, True, p') \<and>
     decoder_status p' = RUNNING"
  using audio_stream_consumer_law [of half_full 65280 "replicate 65280 7" None True] fresh_fifo_facts
  by (auto simp: half_full_def player_static_def SPIRAMSIZE_def)

text \<open>
  The render task is started at most once in the life of the program: \<^verbatim>\<open>decoder_status\<close> is set to
  RUNNING with the first start and no function ever sets it back, not even a stop or a destroy,
  and not the end of the render task. As that task ends with the first gap in the stream, a later
  stream is never played.
\<close>

theorem decoder_starts_once:
  "player_run p k p' \<Longrightarrow> k \<le> 1 \<and> (k = 1 \<longrightarrow> (\<forall>b p''. player_step b p' p'' \<longrightarrow> \<not> b))"
  using player_run_starts [of p k p'] player_step_status [of _ p'] by blast

lemma half_full_starts: "\<exists>p'. player_run half_full 1 p'"
proof -
  obtain f1 where f1: "spiRamFifoWrite None fresh_fifo (replicate 65280 7) = Some f1" "fifo_inv f1"
      "fifoFill f1 = 65280"
    using spiRamFifoWrite_fits [OF fresh_fifo_facts(1), of "replicate 65280 7" None] fresh_fifo_facts
    by (auto simp: SPIRAMSIZE_def)
  obtain f2 where f2: "spiRamFifoFill None f1 = Some (f2, int (fifoFill f1))" using fill_law [OF f1(2)] by blast
  have "50 < fill_level (int (fifoFill f1))"
    using fill_level_half [of "fifoFill f1"] f1(3) by (simp add: SPIRAMSIZE_def)
  then obtain p' where "audio_stream_consumer None True (replicate 65280 7) 65280 half_full = Inr (0, True, p')"
    using f1 f2 by (simp add: audio_stream_consumer_def half_full_def player_static_def or_block_def Let_def)
  from player_run.step [OF player_run.refl player_step.consume [OF this]] show ?thesis by auto
qed

theorem decoder_starts_once_witness:
  "\<exists>p'. player_run half_full 1 p' \<and> (\<forall>b p''. player_step b p' p'' \<longrightarrow> \<not> b)"
  using half_full_starts decoder_starts_once by blast

end
