(* ===== verification/RTOS_List.thy ===== *)
theory RTOS_List
  imports Speaker_Prelude "HOL-Library.Multiset"
begin

text \<open>
  The kernel's doubly linked lists, \<^verbatim>\<open>components/freertos/list.c\<close> with the macros of \<^verbatim>\<open>list.h\<close>, at the
  level of pointers. Addresses are the values of a type \<open>'n\<close>; a list is named by the address of its end marker
  \<^verbatim>\<open>xListEnd\<close>, which is a node like the items. The memory holds the fields of all nodes and lists.
  An item is linked into one list at most, which its container names, and carries a value and an
  owner. The integrity values are not compiled in. The theory ends with two views of a list: the
  sequence of its items, in the order of their values where \<^verbatim>\<open>vListInsert\<close> built it, and the
  round-robin queue the scheduler walks through.
\<close>

section \<open>Memory\<close>

record 'n list_mem =
  pxNext :: "'n \<Rightarrow> 'n"
  pxPrevious :: "'n \<Rightarrow> 'n"
  xItemValue :: "'n \<Rightarrow> u32"
  pvOwner :: "'n \<Rightarrow> nat"
  pvContainer :: "'n \<Rightarrow> 'n option"
  pxIndex :: "'n \<Rightarrow> 'n"
  uxNumberOfItems :: "'n \<Rightarrow> u32"

definition portMAX_DELAY :: u32 where
  "portMAX_DELAY = 0xffffffff"

definition set_next :: "'n \<Rightarrow> 'n \<Rightarrow> 'n list_mem \<Rightarrow> 'n list_mem" where
  "set_next a b m = m\<lparr>pxNext := (pxNext m)(a := b)\<rparr>"

definition set_previous :: "'n \<Rightarrow> 'n \<Rightarrow> 'n list_mem \<Rightarrow> 'n list_mem" where
  "set_previous a b m = m\<lparr>pxPrevious := (pxPrevious m)(a := b)\<rparr>"

section \<open>Operations\<close>

definition vListInitialise :: "'n \<Rightarrow> 'n list_mem \<Rightarrow> 'n list_mem" where
  "vListInitialise pxList m =
     m\<lparr>pxIndex := (pxIndex m)(pxList := pxList), xItemValue := (xItemValue m)(pxList := portMAX_DELAY),
       pxNext := (pxNext m)(pxList := pxList), pxPrevious := (pxPrevious m)(pxList := pxList),
       uxNumberOfItems := (uxNumberOfItems m)(pxList := 0)\<rparr>"

definition vListInitialiseItem :: "'n \<Rightarrow> 'n list_mem \<Rightarrow> 'n list_mem" where
  "vListInitialiseItem pxItem m = m\<lparr>pvContainer := (pvContainer m)(pxItem := None)\<rparr>"

text \<open>The end of both insertions: remember the list and count the item.\<close>

definition adopt :: "'n \<Rightarrow> 'n \<Rightarrow> 'n list_mem \<Rightarrow> 'n list_mem" where
  "adopt pxList x m = m\<lparr>pvContainer := (pvContainer m)(x := Some pxList),
     uxNumberOfItems := (uxNumberOfItems m)(pxList := uxNumberOfItems m pxList + 1)\<rparr>"

definition vListInsertEnd :: "'n \<Rightarrow> 'n \<Rightarrow> 'n list_mem \<Rightarrow> 'n list_mem" where
  "vListInsertEnd pxList x m =
     (let idx = pxIndex m pxList;
          m1 = set_next x idx m;
          m2 = set_previous x (pxPrevious m1 idx) m1;
          m3 = set_next (pxPrevious m2 idx) x m2;
          m4 = set_previous idx x m3
      in adopt pxList x m4)"

text \<open>The loop of \<^verbatim>\<open>vListInsert\<close>; \<open>None\<close> if it never ends.\<close>

partial_function (option) insert_position :: "'n list_mem \<Rightarrow> u32 \<Rightarrow> 'n \<Rightarrow> 'n option" where
  "insert_position m v it =
     (if xItemValue m (pxNext m it) \<le> v then insert_position m v (pxNext m it) else Some it)"

definition vListInsert :: "'n \<Rightarrow> 'n \<Rightarrow> 'n list_mem \<Rightarrow> 'n list_mem option" where
  "vListInsert pxList x m =
     (case (if xItemValue m x = portMAX_DELAY then Some (pxPrevious m pxList)
            else insert_position m (xItemValue m x) pxList) of
        None \<Rightarrow> None
      | Some it \<Rightarrow>
          let m1 = set_next x (pxNext m it) m;
              m2 = set_previous (pxNext m1 x) x m1;
              m3 = set_previous x it m2;
              m4 = set_next it x m3
          in Some (adopt pxList x m4))"

text \<open>\<^verbatim>\<open>uxListRemove\<close>; an item that is on no list has a NULL container.\<close>

definition uxListRemove :: "'n \<Rightarrow> 'n list_mem \<Rightarrow> (u32 \<times> 'n list_mem) run" where
  "uxListRemove x m =
     (case pvContainer m x of None \<Rightarrow> Inl Null_Pointer
      | Some pxList \<Rightarrow>
          let m1 = set_previous (pxNext m x) (pxPrevious m x) m;
              m2 = set_next (pxPrevious m1 x) (pxNext m1 x) m1;
              m3 = (if pxIndex m2 pxList = x then m2\<lparr>pxIndex := (pxIndex m2)(pxList := pxPrevious m2 x)\<rparr> else m2);
              n = uxNumberOfItems m3 pxList - 1
          in Inr (n, m3\<lparr>pvContainer := (pvContainer m3)(x := None),
                        uxNumberOfItems := (uxNumberOfItems m3)(pxList := n)\<rparr>))"

text \<open>The access macros.\<close>

definition listSET_LIST_ITEM_OWNER :: "'n \<Rightarrow> nat \<Rightarrow> 'n list_mem \<Rightarrow> 'n list_mem" where
  "listSET_LIST_ITEM_OWNER x pxOwner m = m\<lparr>pvOwner := (pvOwner m)(x := pxOwner)\<rparr>"

definition listSET_LIST_ITEM_VALUE :: "'n \<Rightarrow> u32 \<Rightarrow> 'n list_mem \<Rightarrow> 'n list_mem" where
  "listSET_LIST_ITEM_VALUE x xValue m = m\<lparr>xItemValue := (xItemValue m)(x := xValue)\<rparr>"

definition listGET_HEAD_ENTRY :: "'n \<Rightarrow> 'n list_mem \<Rightarrow> 'n" where
  "listGET_HEAD_ENTRY pxList m = pxNext m pxList"

definition listGET_ITEM_VALUE_OF_HEAD_ENTRY :: "'n \<Rightarrow> 'n list_mem \<Rightarrow> u32" where
  "listGET_ITEM_VALUE_OF_HEAD_ENTRY pxList m = xItemValue m (pxNext m pxList)"

definition listGET_OWNER_OF_HEAD_ENTRY :: "'n \<Rightarrow> 'n list_mem \<Rightarrow> nat" where
  "listGET_OWNER_OF_HEAD_ENTRY pxList m = pvOwner m (pxNext m pxList)"

definition listLIST_IS_EMPTY :: "'n \<Rightarrow> 'n list_mem \<Rightarrow> bool" where
  "listLIST_IS_EMPTY pxList m \<longleftrightarrow> uxNumberOfItems m pxList = 0"

definition listIS_CONTAINED_WITHIN :: "'n \<Rightarrow> 'n \<Rightarrow> 'n list_mem \<Rightarrow> bool" where
  "listIS_CONTAINED_WITHIN pxList x m \<longleftrightarrow> pvContainer m x = Some pxList"

text \<open>The walk of the scheduler over a ready list, in two steps: the index, then its owner.\<close>

definition next_entry :: "'n \<Rightarrow> 'n list_mem \<Rightarrow> 'n" where
  "next_entry pxList m =
     (let i = pxNext m (pxIndex m pxList) in if i = pxList then pxNext m i else i)"

definition listGET_OWNER_OF_NEXT_ENTRY :: "'n \<Rightarrow> 'n list_mem \<Rightarrow> nat \<times> 'n list_mem" where
  "listGET_OWNER_OF_NEXT_ENTRY pxList m =
     (let i = next_entry pxList m in (pvOwner m i, m\<lparr>pxIndex := (pxIndex m)(pxList := i)\<rparr>))"

section \<open>The list a memory holds\<close>

text \<open>\<open>seg m a xs b\<close>: from node \<open>a\<close> the forward and backward links lead through \<open>xs\<close> to node \<open>b\<close>.\<close>

fun seg :: "'n list_mem \<Rightarrow> 'n \<Rightarrow> 'n list \<Rightarrow> 'n \<Rightarrow> bool" where
  "seg m a [] b \<longleftrightarrow> pxNext m a = b \<and> pxPrevious m b = a"
| "seg m a (x # xs) b \<longleftrightarrow> pxNext m a = x \<and> pxPrevious m x = a \<and> seg m x xs b"

text \<open>The end marker has no container: it is no item of any list.\<close>

definition holds_list :: "'n list_mem \<Rightarrow> 'n \<Rightarrow> 'n list \<Rightarrow> bool" where
  "holds_list m l xs \<longleftrightarrow>
     seg m l xs l \<and> distinct xs \<and> pvContainer m l = None \<and>
     (\<forall>x. pvContainer m x = Some l \<longleftrightarrow> x \<in> set xs) \<and>
     uxNumberOfItems m l = of_nat (length xs) \<and> length xs < 2 ^ 32 \<and> xItemValue m l = portMAX_DELAY \<and>
     pxIndex m l \<in> insert l (set xs)"

lemma seg_append: "seg m a (xs @ x # ys) b \<longleftrightarrow> seg m a xs x \<and> seg m x ys b"
  by (induction xs arbitrary: a) auto

lemma seg_first: "seg m a xs b \<Longrightarrow> pxNext m a = hd (xs @ [b])"
  by (cases xs) auto

lemma seg_last: "seg m a xs b \<Longrightarrow> pxPrevious m b = last (a # xs)"
  by (induction xs arbitrary: a) auto

lemma seg_cong:
  "(\<And>y. y \<in> insert a (set xs) \<Longrightarrow> pxNext m y = pxNext m' y) \<Longrightarrow>
   (\<And>y. y \<in> insert b (set xs) \<Longrightarrow> pxPrevious m y = pxPrevious m' y) \<Longrightarrow> seg m a xs b = seg m' a xs b"
  by (induction xs arbitrary: a) auto

text \<open>Linking a new node \<open>x\<close> in between the neighbours \<open>p\<close> and \<open>q\<close>, and taking it out again.\<close>

definition linked :: "'n \<Rightarrow> 'n \<Rightarrow> 'n \<Rightarrow> 'n list_mem \<Rightarrow> 'n list_mem" where
  "linked p x q m = m\<lparr>pxNext := (pxNext m)(x := q, p := x), pxPrevious := (pxPrevious m)(q := x, x := p)\<rparr>"

definition unlinked :: "'n \<Rightarrow> 'n \<Rightarrow> 'n list_mem \<Rightarrow> 'n list_mem" where
  "unlinked p q m = m\<lparr>pxNext := (pxNext m)(p := q), pxPrevious := (pxPrevious m)(q := p)\<rparr>"

lemma seg_linked:
  assumes "seg m a (ys @ zs) b" "distinct (a # ys @ zs)" "b \<notin> set (ys @ zs)" "x \<notin> {a, b} \<union> set (ys @ zs)"
  shows "seg (linked (last (a # ys)) x (hd (zs @ [b])) m) a (ys @ x # zs) b"
  using assms
proof (induction ys arbitrary: a)
  case Nil
  show ?case
  proof (cases zs)
    case (Cons z zs')
    have "seg (linked a x z m) z zs' b = seg m z zs' b"
      using Nil Cons by (intro seg_cong) (auto simp: linked_def)
    then show ?thesis using Nil Cons by (auto simp: linked_def)
  qed (use Nil in \<open>auto simp: linked_def\<close>)
next
  case (Cons y ys)
  have "hd (zs @ [b]) \<noteq> y" "last (y # ys) \<noteq> a" "y \<noteq> x" "a \<noteq> x"
    using Cons.prems by (cases zs; auto)+
  moreover have "seg (linked (last (y # ys)) x (hd (zs @ [b])) m) y (ys @ x # zs) b"
    using Cons.prems by (intro Cons.IH) auto
  ultimately show ?case using Cons.prems by (auto simp: linked_def)
qed

lemma seg_unlinked:
  assumes "seg m a (ys @ x # zs) b" "distinct (a # ys @ x # zs)" "b \<notin> set (ys @ x # zs)"
  shows "seg (unlinked (last (a # ys)) (hd (zs @ [b])) m) a (ys @ zs) b"
  using assms
proof (induction ys arbitrary: a)
  case Nil
  show ?case
  proof (cases zs)
    case (Cons z zs')
    have "seg (unlinked a z m) z zs' b = seg m z zs' b"
      using Nil Cons by (intro seg_cong) (auto simp: unlinked_def)
    then show ?thesis using Nil Cons by (auto simp: unlinked_def)
  qed (use Nil in \<open>auto simp: unlinked_def\<close>)
next
  case (Cons y ys)
  have "hd (zs @ [b]) \<noteq> y" "last (y # ys) \<noteq> a"
    using Cons.prems by (cases zs; auto)+
  moreover have "seg (unlinked (last (y # ys)) (hd (zs @ [b])) m) y (ys @ zs) b"
    using Cons.prems by (intro Cons.IH) auto
  ultimately show ?case using Cons.prems by (auto simp: unlinked_def)
qed

section \<open>Operations on one list and on its neighbours\<close>

lemma holds_listD:
  assumes "holds_list m l xs"
  shows "seg m l xs l" "distinct xs" "pvContainer m l = None" "\<And>x. pvContainer m x = Some l \<longleftrightarrow> x \<in> set xs"
    and "uxNumberOfItems m l = of_nat (length xs)" "length xs < 2 ^ 32" "xItemValue m l = portMAX_DELAY"
    and "pxIndex m l \<in> insert l (set xs)" "l \<notin> set xs"
  using assms by (simp_all add: holds_list_def) (metis option.discI)

lemma holds_list_empty: "holds_list m l xs \<Longrightarrow> listLIST_IS_EMPTY l m \<longleftrightarrow> xs = []"
proof -
  assume h: "holds_list m l xs"
  have "of_nat (length xs) = (0 :: u32) \<longleftrightarrow> length xs = 0"
    using holds_listD(6) [OF h] unsigned_of_nat [where ?'a = nat and ?'b = 32, of "length xs"]
    by (auto simp: take_bit_nat_eq_self dest!: arg_cong [where f = unat])
  then show ?thesis using holds_listD(5) [OF h] by (simp add: listLIST_IS_EMPTY_def)
qed

lemma holds_list_head: "holds_list m l (x # xs) \<Longrightarrow> listGET_HEAD_ENTRY l m = x \<and> listGET_OWNER_OF_HEAD_ENTRY l m = pvOwner m x"
  using holds_listD(1) [of m l "x # xs"] by (simp add: listGET_HEAD_ENTRY_def listGET_OWNER_OF_HEAD_ENTRY_def)

lemma holds_list_value: "x \<noteq> l \<Longrightarrow> holds_list (listSET_LIST_ITEM_VALUE x v m) l xs \<longleftrightarrow> holds_list m l xs"
proof -
  assume "x \<noteq> l"
  moreover have "seg (listSET_LIST_ITEM_VALUE x v m) l xs l = seg m l xs l"
    by (intro seg_cong) (simp_all add: listSET_LIST_ITEM_VALUE_def)
  ultimately show ?thesis by (simp add: holds_list_def listSET_LIST_ITEM_VALUE_def)
qed

lemma holds_list_initialise:
  assumes "pvContainer m l = None" "\<And>x. pvContainer m x \<noteq> Some l"
  shows "holds_list (vListInitialise l m) l []"
  using assms by (simp add: holds_list_def vListInitialise_def)

lemma holds_list_insert:
  assumes h: "holds_list m l (ys @ zs)" and x: "pvContainer m x = None" "x \<noteq> l" and room: "length (ys @ zs) + 1 < 2 ^ 32"
  shows "holds_list (adopt l x (linked (last (l # ys)) x (hd (zs @ [l])) m)) l (ys @ x # zs)"
proof -
  note d = holds_listD [OF h]
  have xn: "x \<notin> set (ys @ zs)" using d(4) [of x] x(1) by auto
  have "seg (linked (last (l # ys)) x (hd (zs @ [l])) m) l (ys @ x # zs) l"
    using d(1,2,9) xn x(2) by (intro seg_linked) auto
  then have "seg (adopt l x (linked (last (l # ys)) x (hd (zs @ [l])) m)) l (ys @ x # zs) l"
    by (subst seg_cong [where m' = "linked (last (l # ys)) x (hd (zs @ [l])) m"]) (simp_all add: adopt_def)
  then show ?thesis
    using d(2-9) xn x room by (auto simp: holds_list_def adopt_def linked_def)
qed

lemma holds_list_frame_insert:
  assumes h: "holds_list m l (ys @ zs)" "holds_list m l' xs'" "l' \<noteq> l" and x: "pvContainer m x = None" "x \<noteq> l'"
  shows "holds_list (adopt l x (linked (last (l # ys)) x (hd (zs @ [l])) m)) l' xs'"
proof -
  note d = holds_listD [OF h(1)] and d' = holds_listD [OF h(2)]
  have out: "z \<notin> insert l (set (ys @ zs)) \<and> z \<noteq> x" if "z \<in> insert l' (set xs')" for z
    using that d(3,4) d'(3,4) h(3) x by (metis insertE option.inject option.discI)
  have pq: "last (l # ys) \<in> insert l (set (ys @ zs))" "hd (zs @ [l]) \<in> insert l (set (ys @ zs))"
    by (auto simp: hd_append)
  have "seg (adopt l x (linked (last (l # ys)) x (hd (zs @ [l])) m)) l' xs' l' = seg m l' xs' l'"
    using out pq by (intro seg_cong) (auto simp: adopt_def linked_def)
  then show ?thesis
    using d' x h(3) out by (auto simp: holds_list_def adopt_def linked_def)
qed

lemma holds_list_remove:
  assumes h: "holds_list m l (ys @ x # zs)"
  shows "\<exists>m'. uxListRemove x m = Inr (of_nat (length (ys @ zs)), m') \<and> holds_list m' l (ys @ zs) \<and>
           pxIndex m' l = (if pxIndex m l = x then last (l # ys) else pxIndex m l) \<and> pvContainer m' = (pvContainer m)(x := None) \<and>
           xItemValue m' = xItemValue m \<and> pvOwner m' = pvOwner m \<and>
           (\<forall>l' xs'. l' \<noteq> l \<longrightarrow> holds_list m l' xs' \<longrightarrow> holds_list m' l' xs' \<and> pxIndex m' l' = pxIndex m l')"
proof -
  note d = holds_listD [OF h]
  define p q where "p = last (l # ys)" and "q = hd (zs @ [l])"
  define u where "u = unlinked p q m"
  define m' where "m' = u\<lparr>pxIndex := (pxIndex m)(l := if pxIndex m l = x then p else pxIndex m l),
     pvContainer := (pvContainer m)(x := None),
     uxNumberOfItems := (uxNumberOfItems m)(l := of_nat (length (ys @ zs)))\<rparr>"
  have nb: "pxPrevious m x = p" "pxNext m x = q"
    using d(1) by (auto simp: seg_append p_def q_def dest: seg_first seg_last)
  have pq: "p \<in> insert l (set (ys @ zs))" "q \<in> insert l (set (ys @ zs))" "p \<noteq> x" "q \<noteq> x"
    using d(2,9) by (auto simp: p_def q_def hd_append)
  have cnt: "uxNumberOfItems m l - 1 = of_nat (length (ys @ zs))" using d(5) by simp
  have c: "pvContainer m x = Some l" using d(4) by simp
  have eq: "uxListRemove x m = Inr (of_nat (length (ys @ zs)), m')"
    using nb pq(3,4) c cnt
    by (simp add: uxListRemove_def set_next_def set_previous_def Let_def m'_def u_def unlinked_def fun_upd_idem)
  have "seg u l (ys @ zs) l" unfolding u_def p_def q_def using d(1,2,9) by (intro seg_unlinked) auto
  then have "seg m' l (ys @ zs) l" by (subst seg_cong [where m' = u]) (simp_all add: m'_def)
  then have "holds_list m' l (ys @ zs)"
    using d pq by (auto simp: holds_list_def m'_def u_def unlinked_def)
  moreover have "holds_list m' l' xs'" if h': "l' \<noteq> l" "holds_list m l' xs'" for l' xs'
  proof -
    note d' = holds_listD [OF h'(2)]
    have out: "z \<notin> insert l (set (ys @ zs)) \<and> z \<noteq> x" if "z \<in> insert l' (set xs')" for z
      using that d(3,4) d'(3,4) h'(1) c by (metis (no_types) Un_iff insertE insert_iff list.set(2) option.inject option.discI set_append)
    have "seg m' l' xs' l' = seg m l' xs' l'"
      using out pq(1,2) by (intro seg_cong) (auto simp: m'_def u_def unlinked_def)
    then show ?thesis using d' h'(1) out by (auto simp: holds_list_def m'_def u_def unlinked_def)
  qed
  ultimately show ?thesis using eq by (auto simp: m'_def u_def unlinked_def p_def)
qed

text \<open>Both insertions are the linking of the new item at a place of the list.\<close>

lemma vListInsertEnd_linked:
  assumes h: "holds_list m l (ys @ zs)" and i: "pxIndex m l = hd (zs @ [l])" and x: "pvContainer m x = None" "x \<noteq> l"
  shows "vListInsertEnd l x m = adopt l x (linked (last (l # ys)) x (hd (zs @ [l])) m)"
proof -
  note d = holds_listD [OF h]
  have "pxPrevious m (hd (zs @ [l])) = last (l # ys)"
    using d(1) by (cases zs) (auto simp: seg_append dest: seg_last)
  moreover have "x \<notin> set (ys @ zs)" using d(4) [of x] x(1) by auto
  then have "last (l # ys) \<noteq> x" "hd (zs @ [l]) \<noteq> x" using x(2) by (auto simp: hd_append)
  ultimately show ?thesis
    using i by (auto simp: vListInsertEnd_def Let_def set_next_def set_previous_def linked_def fun_upd_twist)
qed

lemma insert_position_law:
  assumes "seg m a zs l" "v < xItemValue m l"
  shows "insert_position m v a = Some (last (a # takeWhile (\<lambda>y. xItemValue m y \<le> v) zs))"
  using assms(1)
proof (induction zs arbitrary: a)
  case Nil
  then show ?case using assms(2) by (subst insert_position.simps) (auto dest: leD)
next
  case (Cons z zs)
  then show ?case by (subst insert_position.simps) auto
qed

lemma below_portMAX_DELAY: "v \<noteq> portMAX_DELAY \<Longrightarrow> v < portMAX_DELAY" "v \<le> portMAX_DELAY"
proof -
  have m: "portMAX_DELAY = (-1 :: u32)" by (simp add: portMAX_DELAY_def)
  show le: "v \<le> portMAX_DELAY" by (simp add: m)
  show "v < portMAX_DELAY" if "v \<noteq> portMAX_DELAY" using le that by (simp add: order.strict_iff_order)
qed

text \<open>The place by value, after the items of the same value.\<close>

definition place_by :: "('a \<Rightarrow> 'b::linorder) \<Rightarrow> 'a \<Rightarrow> 'a list \<Rightarrow> 'a list" where
  "place_by f x xs = takeWhile (\<lambda>y. f y \<le> f x) xs @ x # dropWhile (\<lambda>y. f y \<le> f x) xs"

lemma mset_place_by [simp]: "set (place_by f x xs) = insert x (set xs)" "length (place_by f x xs) = Suc (length xs)"
proof -
  have "set xs = set (takeWhile (\<lambda>y. f y \<le> f x) xs) \<union> set (dropWhile (\<lambda>y. f y \<le> f x) xs)"
    by (metis set_append takeWhile_dropWhile_id)
  then show "set (place_by f x xs) = insert x (set xs)" by (auto simp: place_by_def)
  have "length xs = length (takeWhile (\<lambda>y. f y \<le> f x) xs) + length (dropWhile (\<lambda>y. f y \<le> f x) xs)"
    by (metis length_append takeWhile_dropWhile_id)
  then show "length (place_by f x xs) = Suc (length xs)" by (simp add: place_by_def)
qed

lemma sorted_place_by: "sorted (map f xs) \<Longrightarrow> sorted (map f (place_by f x xs))"
  unfolding place_by_def
proof (induction xs)
  case (Cons y ys)
  then show ?case by (cases "f y \<le> f x") (auto dest: set_takeWhileD intro: order_trans set_dropWhileD)
qed simp

lemma vListInsert_linked:
  assumes h: "holds_list m l xs" and x: "pvContainer m x = None" "x \<noteq> l"
    and ys: "ys = takeWhile (\<lambda>y. xItemValue m y \<le> xItemValue m x) xs"
    and zs: "zs = dropWhile (\<lambda>y. xItemValue m y \<le> xItemValue m x) xs"
  shows "vListInsert l x m = Some (adopt l x (linked (last (l # ys)) x (hd (zs @ [l])) m))"
proof -
  note d = holds_listD [OF h]
  have xs: "xs = ys @ zs" by (simp add: ys zs)
  have pos: "(if xItemValue m x = portMAX_DELAY then Some (pxPrevious m l)
              else insert_position m (xItemValue m x) l) = Some (last (l # ys))"
  proof (cases "xItemValue m x = portMAX_DELAY")
    case True
    then have "ys = xs" unfolding ys by (simp add: takeWhile_eq_all_conv below_portMAX_DELAY(2))
    then show ?thesis using True seg_last [OF d(1)] by simp
  next
    case False
    then show ?thesis using insert_position_law [OF d(1)] d(7) by (simp add: below_portMAX_DELAY(1) ys)
  qed
  have nx: "pxNext m (last (l # ys)) = hd (zs @ [l])"
    using d(1) unfolding xs
    by (cases ys rule: rev_cases) (auto simp: seg_append dest: seg_first)
  have "x \<notin> set xs" using d(4) [of x] x(1) by auto
  then have "last (l # ys) \<noteq> x" "hd (zs @ [l]) \<noteq> x" using x(2) unfolding xs by (auto simp: hd_append)
  then show ?thesis
    unfolding vListInsert_def pos
    using nx by (simp add: Let_def set_next_def set_previous_def linked_def adopt_def fun_upd_twist)
qed

section \<open>All lists of the kernel\<close>

text \<open>The memory holds the lists \<open>L\<close>, by the addresses of their end markers.\<close>

definition kernel_lists :: "'n list_mem \<Rightarrow> ('n \<rightharpoonup> 'n list) \<Rightarrow> bool" where
  "kernel_lists m L \<longleftrightarrow> (\<forall>l xs. L l = Some xs \<longrightarrow> holds_list m l xs)"

lemma kernel_listsD: "kernel_lists m L \<Longrightarrow> L l = Some xs \<Longrightarrow> holds_list m l xs"
  by (simp add: kernel_lists_def)

lemma kernel_lists_value: "x \<notin> dom L \<Longrightarrow> kernel_lists (listSET_LIST_ITEM_VALUE x v m) L \<longleftrightarrow> kernel_lists m L"
proof -
  assume x: "x \<notin> dom L"
  have "holds_list (listSET_LIST_ITEM_VALUE x v m) l xs \<longleftrightarrow> holds_list m l xs" if "L l = Some xs" for l xs
    using x that by (intro holds_list_value) auto
  then show ?thesis by (auto simp: kernel_lists_def)
qed

lemma kernel_lists_initialise:
  assumes L: "kernel_lists m L" "L l = None" and l: "pvContainer m l = None" "\<And>x. pvContainer m x \<noteq> Some l"
  shows "kernel_lists (vListInitialise l m) (L(l \<mapsto> []))"
proof -
  have "holds_list (vListInitialise l m) l' xs" if h: "L l' = Some xs" for l' xs
  proof -
    note d = holds_listD [OF kernel_listsD [OF L(1) h]]
    have ne: "l' \<noteq> l" using h L(2) by auto
    moreover have "l \<notin> set xs" using d(4) [of l] l(1) by simp
    ultimately have "seg (vListInitialise l m) l' xs l' = seg m l' xs l'"
      by (intro seg_cong) (auto simp: vListInitialise_def)
    then show ?thesis using d ne by (auto simp: holds_list_def vListInitialise_def)
  qed
  then show ?thesis using holds_list_initialise [OF l] by (simp add: kernel_lists_def)
qed

lemma kernel_lists_insert:
  assumes L: "kernel_lists m L" "L l = Some (ys @ zs)" and x: "pvContainer m x = None" "x \<notin> dom L"
    and room: "length (ys @ zs) + 1 < 2 ^ 32"
  shows "kernel_lists (adopt l x (linked (last (l # ys)) x (hd (zs @ [l])) m)) (L(l \<mapsto> ys @ x # zs))"
proof -
  note h = kernel_listsD [OF L]
  have "holds_list (adopt l x (linked (last (l # ys)) x (hd (zs @ [l])) m)) l' xs'"
    if "L l' = Some xs'" "l' \<noteq> l" for l' xs'
    using that x by (intro holds_list_frame_insert [OF h kernel_listsD [OF L(1)]]) auto
  moreover have "holds_list (adopt l x (linked (last (l # ys)) x (hd (zs @ [l])) m)) l (ys @ x # zs)"
    using L(2) x(2) by (intro holds_list_insert [OF h x(1) _ room]) auto
  ultimately show ?thesis by (auto simp: kernel_lists_def)
qed

lemma vListInsert_law:
  assumes L: "kernel_lists m L" "L l = Some xs" and x: "pvContainer m x = None" "x \<notin> dom L" and room: "length xs + 1 < 2 ^ 32"
  shows "\<exists>m'. vListInsert l x m = Some m' \<and> kernel_lists m' (L(l \<mapsto> place_by (xItemValue m) x xs)) \<and>
           xItemValue m' = xItemValue m \<and> pvOwner m' = pvOwner m \<and> pxIndex m' = pxIndex m \<and>
           pvContainer m' = (pvContainer m)(x := Some l)"
proof -
  let ?ys = "takeWhile (\<lambda>y. xItemValue m y \<le> xItemValue m x) xs" and ?zs = "dropWhile (\<lambda>y. xItemValue m y \<le> xItemValue m x) xs"
  have "x \<noteq> l" using L(2) x(2) by auto
  then have eq: "vListInsert l x m = Some (adopt l x (linked (last (l # ?ys)) x (hd (?zs @ [l])) m))"
    by (intro vListInsert_linked [OF kernel_listsD [OF L] x(1)]) simp_all
  have "kernel_lists (adopt l x (linked (last (l # ?ys)) x (hd (?zs @ [l])) m)) (L(l \<mapsto> ?ys @ x # ?zs))"
    using L x room by (intro kernel_lists_insert) simp_all
  then show ?thesis unfolding eq by (simp add: place_by_def adopt_def linked_def)
qed

lemma vListInsertEnd_law:
  assumes L: "kernel_lists m L" "L l = Some (ys @ zs)" and i: "pxIndex m l = hd (zs @ [l])"
    and x: "pvContainer m x = None" "x \<notin> dom L" and room: "length (ys @ zs) + 1 < 2 ^ 32"
  shows "kernel_lists (vListInsertEnd l x m) (L(l \<mapsto> ys @ x # zs)) \<and>
         xItemValue (vListInsertEnd l x m) = xItemValue m \<and> pvOwner (vListInsertEnd l x m) = pvOwner m \<and>
         pxIndex (vListInsertEnd l x m) = pxIndex m \<and> pvContainer (vListInsertEnd l x m) = (pvContainer m)(x := Some l)"
proof -
  have "x \<noteq> l" using L(2) x(2) by auto
  then have eq: "vListInsertEnd l x m = adopt l x (linked (last (l # ys)) x (hd (zs @ [l])) m)"
    by (intro vListInsertEnd_linked [OF kernel_listsD [OF L] i x(1)])
  show ?thesis unfolding eq using kernel_lists_insert [OF L x room] by (simp add: adopt_def linked_def)
qed

lemma uxListRemove_law:
  assumes L: "kernel_lists m L" "L l = Some (ys @ x # zs)"
  shows "\<exists>m'. uxListRemove x m = Inr (of_nat (length (ys @ zs)), m') \<and> kernel_lists m' (L(l \<mapsto> ys @ zs)) \<and>
           pxIndex m' l = (if pxIndex m l = x then last (l # ys) else pxIndex m l) \<and>
           pvContainer m' = (pvContainer m)(x := None) \<and> xItemValue m' = xItemValue m \<and> pvOwner m' = pvOwner m"
proof -
  obtain m' where "uxListRemove x m = Inr (of_nat (length (ys @ zs)), m')" "holds_list m' l (ys @ zs)"
    "pxIndex m' l = (if pxIndex m l = x then last (l # ys) else pxIndex m l)" "pvContainer m' = (pvContainer m)(x := None)"
    "xItemValue m' = xItemValue m" "pvOwner m' = pvOwner m"
    "\<And>l' xs'. l' \<noteq> l \<Longrightarrow> holds_list m l' xs' \<Longrightarrow> holds_list m' l' xs'"
    using holds_list_remove [OF kernel_listsD [OF L]] by blast
  then show ?thesis using L(1) by (intro exI [of _ m']) (auto simp: kernel_lists_def)
qed

text \<open>The same for a caller that does not know the place of the index or of the item.\<close>

lemma vListInsertEnd_some:
  assumes L: "kernel_lists m L" "L l = Some xs" and x: "pvContainer m x = None" "x \<notin> dom L" and room: "length xs + 1 < 2 ^ 32"
  shows "\<exists>xs'. kernel_lists (vListInsertEnd l x m) (L(l \<mapsto> xs')) \<and> set xs' = insert x (set xs) \<and>
         xItemValue (vListInsertEnd l x m) = xItemValue m \<and> pvOwner (vListInsertEnd l x m) = pvOwner m \<and>
         pvContainer (vListInsertEnd l x m) = (pvContainer m)(x := Some l)"
proof -
  obtain ys zs where xs: "xs = ys @ zs" "pxIndex m l = hd (zs @ [l])"
  proof (cases "pxIndex m l = l")
    case True
    then show ?thesis using that [of xs "[]"] by simp
  next
    case False
    then have "pxIndex m l \<in> set xs" using holds_listD(8) [OF kernel_listsD [OF L]] by simp
    then obtain ys zs where "xs = ys @ pxIndex m l # zs" by (meson split_list)
    then show ?thesis using that [of ys "pxIndex m l # zs"] by simp
  qed
  show ?thesis
    using vListInsertEnd_law [of m L l ys zs x] L x room unfolding xs(1)
    by (intro exI [of _ "ys @ x # zs"]) (auto simp: xs(2))
qed

lemma uxListRemove_some:
  assumes L: "kernel_lists m L" "L l = Some xs" and x: "pvContainer m x = Some l"
  shows "\<exists>n m'. uxListRemove x m = Inr (n, m') \<and> kernel_lists m' (L(l \<mapsto> remove1 x xs)) \<and>
           pvContainer m' = (pvContainer m)(x := None) \<and> xItemValue m' = xItemValue m \<and> pvOwner m' = pvOwner m"
proof -
  note d = holds_listD [OF kernel_listsD [OF L]]
  have "x \<in> set xs" using x d(4) by simp
  then obtain ys zs where xs: "xs = ys @ x # zs" by (meson split_list)
  then have "remove1 x xs = ys @ zs" using d(2) by (simp add: remove1_append)
  then show ?thesis using uxListRemove_law [of m L l ys x zs] L unfolding xs by auto
qed

section \<open>The round-robin queue\<close>

text \<open>
  The items of a list in the order in which the walk of the scheduler will reach them, when its index
  stands at \<open>i\<close>: the items after \<open>i\<close>, then those before it, and \<open>i\<close> last.
\<close>

definition run_order :: "'n \<Rightarrow> 'n list \<Rightarrow> 'n list" where
  "run_order i xs = (case dropWhile (\<lambda>y. y \<noteq> i) xs of [] \<Rightarrow> xs | _ # zs \<Rightarrow> zs @ takeWhile (\<lambda>y. y \<noteq> i) xs @ [i])"

lemma run_order_end: "i \<notin> set xs \<Longrightarrow> run_order i xs = xs"
proof -
  assume "i \<notin> set xs"
  then have "dropWhile (\<lambda>y. y \<noteq> i) xs = []" by (auto simp: dropWhile_eq_Nil_conv)
  then show ?thesis unfolding run_order_def by (simp only: list.case)
qed

lemma run_order_split: "i \<notin> set ys \<Longrightarrow> run_order i (ys @ i # zs) = zs @ ys @ [i]"
proof -
  assume i: "i \<notin> set ys"
  then have "dropWhile (\<lambda>y. y \<noteq> i) (ys @ i # zs) = i # zs" by (subst dropWhile_append2) auto
  moreover have "takeWhile (\<lambda>y. y \<noteq> i) (ys @ i # zs) = ys" using i by (subst takeWhile_append2) auto
  ultimately show ?thesis by (simp add: run_order_def)
qed

lemma mset_run_order: "mset (run_order i xs) = mset xs"
proof (cases "i \<in> set xs")
  case True
  then obtain ys zs where "xs = ys @ i # zs" "i \<notin> set ys" by (meson split_list_first)
  then show ?thesis by (simp add: run_order_split)
qed (simp add: run_order_end)

lemma next_entry_law:
  assumes h: "holds_list m l xs" and r: "run_order (pxIndex m l) xs = y # r"
  shows "next_entry l m = y \<and> y \<in> set xs \<and> run_order y xs = r @ [y]"
proof (cases "pxIndex m l \<in> set xs")
  case False
  note d = holds_listD [OF h]
  have i: "pxIndex m l = l" using False d(8) by simp
  have xs: "xs = y # r" using r run_order_end [OF False] by simp
  then show ?thesis
    using i seg_first [OF d(1)] d(9) run_order_split [of y "[]" r] by (simp add: next_entry_def)
next
  case True
  note d = holds_listD [OF h]
  define i where "i = pxIndex m l"
  obtain ys zs where xs: "xs = ys @ i # zs" and ni: "i \<notin> set ys" using True unfolding i_def by (meson split_list_first)
  have o: "zs @ ys @ [i] = y # r" using r run_order_split [OF ni] by (simp add: xs flip: i_def)
  have sg: "seg m l ys i" "seg m i zs l" using d(1) by (simp_all add: xs seg_append)
  show ?thesis
  proof (cases zs)
    case (Cons z zs')
    then have "y = z" "r = zs' @ ys @ [i]" using o by auto
    moreover have "pxNext m i = z" "z \<noteq> l" using sg(2) Cons d(9) xs by auto
    moreover have "run_order z ((ys @ [i]) @ z # zs') = zs' @ (ys @ [i]) @ [z]"
      using d(2) Cons by (intro run_order_split) (auto simp: xs)
    ultimately show ?thesis using Cons by (simp add: next_entry_def xs flip: i_def)
  next
    case Nil
    then have yr: "ys @ [i] = y # r" and ix: "pxNext m i = l" "pxNext m l = hd (ys @ [i])"
      using o sg seg_first [OF sg(1)] by auto
    then have "pxNext m l = y" by simp
    moreover have "run_order y (y # r) = r @ [y]" using run_order_split [of y "[]" r] by simp
    ultimately show ?thesis using Nil yr ix by (auto simp: next_entry_def xs Let_def simp flip: i_def)
  qed
qed

text \<open>
  A queue that serves its entries in turn. \<open>shows s ys\<close>: state \<open>s\<close> will serve \<open>ys\<close>, the front first.
\<close>

fun picks :: "('s \<Rightarrow> 'a \<times> 's) \<Rightarrow> nat \<Rightarrow> 's \<Rightarrow> 'a list \<times> 's" where
  "picks pick 0 s = ([], s)"
| "picks pick (Suc n) s = (let (y, s') = pick s; (ys, s'') = picks pick n s' in (y # ys, s''))"

locale round_robin =
  fixes queued :: "'s \<Rightarrow> 'a list \<Rightarrow> bool" and pick :: "'s \<Rightarrow> 'a \<times> 's"
  assumes pick_law: "queued s (y # ys) \<Longrightarrow> \<exists>s'. pick s = (y, s') \<and> queued s' (ys @ [y])"
begin

lemma picks_prefix: "queued s (ys @ zs) \<Longrightarrow> \<exists>s'. picks pick (length ys) s = (ys, s') \<and> queued s' (zs @ ys)"
proof (induction ys arbitrary: s zs)
  case (Cons y ys)
  then obtain s' where p: "pick s = (y, s')" and q: "queued s' (ys @ zs @ [y])" using pick_law [of s y "ys @ zs"] by auto
  obtain s'' where "picks pick (length ys) s' = (ys, s'')" "queued s'' ((zs @ [y]) @ ys)" using Cons.IH [OF q] by auto
  then show ?case using p by simp
qed simp

lemma picks_full_turn: "queued s ys \<Longrightarrow> \<exists>s'. picks pick (length ys) s = (ys, s') \<and> queued s' ys"
  using picks_prefix [of s ys "[]"] by simp

end

definition in_turn :: "'n \<Rightarrow> 'n list_mem \<Rightarrow> nat list \<Rightarrow> bool" where
  "in_turn l m os \<longleftrightarrow> (\<exists>xs. holds_list m l xs \<and> os = map (pvOwner m) (run_order (pxIndex m l) xs))"

interpretation ready_list: round_robin "in_turn l" "listGET_OWNER_OF_NEXT_ENTRY l" for l
proof
  fix m y ys
  assume "in_turn l m (y # ys)"
  then obtain xs x r where h: "holds_list m l xs" and o: "run_order (pxIndex m l) xs = x # r" and y: "y = pvOwner m x" "ys = map (pvOwner m) r"
    by (auto simp: in_turn_def dest!: map_eq_Cons_D [OF sym])
  have n: "next_entry l m = x" "x \<in> set xs" "run_order x xs = r @ [x]" using next_entry_law [OF h o] by auto
  let ?m = "m\<lparr>pxIndex := (pxIndex m)(l := x)\<rparr>"
  have "seg ?m l xs l = seg m l xs l" by (intro seg_cong) simp_all
  then have "holds_list ?m l xs" using h n(2) by (simp add: holds_list_def)
  then have "in_turn l ?m (ys @ [y])" using n(3) y unfolding in_turn_def by (intro exI [of _ xs]) simp
  then show "\<exists>s'. listGET_OWNER_OF_NEXT_ENTRY l m = (y, s') \<and> in_turn l s' (ys @ [y])"
    using n(1) y(1) by (simp add: listGET_OWNER_OF_NEXT_ENTRY_def)
qed

section \<open>Properties\<close>

text \<open>C26. \<^verbatim>\<open>vListInsert\<close> implements insertion by value on the lists of the kernel: the loop that looks for the
  place ends, also for the value of the end marker; the item stands after all items of a value up to its
  own, so a list in order stays in order and items of the same value keep their order of arrival; every
  other list, all values and owners and the scheduler's index are unchanged.\<close>

theorem vListInsert_in_order:
  assumes "kernel_lists m L" "L l = Some xs" "pvContainer m x = None" "x \<notin> dom L" "length xs + 1 < 2 ^ 32"
  shows "\<exists>m'. vListInsert l x m = Some m' \<and> kernel_lists m' (L(l \<mapsto> place_by (xItemValue m) x xs)) \<and>
    xItemValue m' = xItemValue m \<and> pvOwner m' = pvOwner m \<and> pxIndex m' = pxIndex m \<and>
    (sorted (map (xItemValue m) xs) \<longrightarrow> sorted (map (xItemValue m') (place_by (xItemValue m) x xs)) \<and>
      listGET_HEAD_ENTRY l m' = (if \<forall>y \<in> set xs. xItemValue m x < xItemValue m y then x else hd xs))"
proof -
  obtain m' where m': "vListInsert l x m = Some m'" "kernel_lists m' (L(l \<mapsto> place_by (xItemValue m) x xs))"
    "xItemValue m' = xItemValue m" "pvOwner m' = pvOwner m" "pxIndex m' = pxIndex m"
    using vListInsert_law [OF assms] by blast
  have "holds_list m' l (place_by (xItemValue m) x xs)" using kernel_listsD [OF m'(2)] by simp
  then have "listGET_HEAD_ENTRY l m' = hd (place_by (xItemValue m) x xs)"
    using seg_first [OF holds_listD(1)] by (fastforce simp: listGET_HEAD_ENTRY_def place_by_def hd_append)
  then have "listGET_HEAD_ENTRY l m' = (if \<forall>y \<in> set xs. xItemValue m x < xItemValue m y then x else hd xs)"
    if s: "sorted (map (xItemValue m) xs)"
  proof (cases xs)
    case (Cons z zs)
    then show ?thesis
      using that \<open>listGET_HEAD_ENTRY l m' = hd (place_by (xItemValue m) x xs)\<close>
      by (cases "xItemValue m z \<le> xItemValue m x") (auto simp: place_by_def not_le)
  qed (simp add: place_by_def \<open>listGET_HEAD_ENTRY l m' = hd (place_by (xItemValue m) x xs)\<close>)
  then show ?thesis using m' sorted_place_by by (intro exI [of _ m']) auto
qed

text \<open>Static storage before the kernel starts, and a memory with one list of one item.\<close>

definition list_static :: "nat list_mem" where
  "list_static = \<lparr>pxNext = (\<lambda>_. 0), pxPrevious = (\<lambda>_. 0), xItemValue = (\<lambda>_. 0), pvOwner = (\<lambda>_. 0),
     pvContainer = (\<lambda>_. None), pxIndex = (\<lambda>_. 0), uxNumberOfItems = (\<lambda>_. 0)\<rparr>"

definition one_item :: "nat list_mem" where
  "one_item = vListInsertEnd 9 3 (listSET_LIST_ITEM_VALUE 3 5 (vListInitialise 9 list_static))"

lemma one_item_holds: "kernel_lists one_item [9 \<mapsto> [3]]"
  by (simp add: kernel_lists_def holds_list_def one_item_def list_static_def vListInitialise_def vListInsertEnd_def
      listSET_LIST_ITEM_VALUE_def set_next_def set_previous_def adopt_def Let_def)

lemma one_item_fields [simp]:
  "pvContainer one_item 2 = None" "xItemValue one_item 3 = 5" "xItemValue one_item 2 = 0" "pxIndex one_item 9 = 9"
  by (simp_all add: one_item_def list_static_def vListInitialise_def vListInsertEnd_def
      listSET_LIST_ITEM_VALUE_def set_next_def set_previous_def adopt_def Let_def)

theorem vListInsert_in_order_witness:
  "\<exists>m'. vListInsert 9 2 one_item = Some m' \<and> kernel_lists m' [9 \<mapsto> [2, 3]] \<and> listGET_HEAD_ENTRY 9 m' = 2"
  using vListInsert_in_order [of one_item "[9 \<mapsto> [3]]" 9 "[3]" 2] one_item_holds by (auto simp: place_by_def)

text \<open>\<^verbatim>\<open>uxListRemove\<close> undoes \<^verbatim>\<open>vListInsert\<close>: after both, the memory holds the same lists, the item is on
  none of them, the scheduler's index is where it was and the result is the number of items left.\<close>

theorem list_insert_remove_roundtrip:
  assumes "kernel_lists m L" "L l = Some xs" "pvContainer m x = None" "x \<notin> dom L" "length xs + 1 < 2 ^ 32"
  shows "\<exists>m' m''. vListInsert l x m = Some m' \<and> listIS_CONTAINED_WITHIN l x m' \<and>
    uxListRemove x m' = Inr (of_nat (length xs), m'') \<and> kernel_lists m'' L \<and> pvContainer m'' x = None \<and>
    pxIndex m'' l = pxIndex m l \<and> xItemValue m'' = xItemValue m \<and> pvOwner m'' = pvOwner m"
proof -
  let ?ys = "takeWhile (\<lambda>y. xItemValue m y \<le> xItemValue m x) xs" and ?zs = "dropWhile (\<lambda>y. xItemValue m y \<le> xItemValue m x) xs"
  obtain m' where m': "vListInsert l x m = Some m'" "kernel_lists m' (L(l \<mapsto> ?ys @ x # ?zs))"
    "xItemValue m' = xItemValue m" "pvOwner m' = pvOwner m" "pxIndex m' = pxIndex m"
    using vListInsert_law [OF assms] unfolding place_by_def by blast
  have "pxIndex m l \<in> insert l (set xs)" "x \<notin> set xs" "x \<noteq> l"
    using holds_listD(8) [OF kernel_listsD [OF assms(1,2)]] holds_listD(4) [OF kernel_listsD [OF assms(1,2)], of x]
      assms(2-4) by auto
  then have "pxIndex m' l \<noteq> x" using m'(5) by auto
  moreover have "?ys @ ?zs = xs" by simp
  moreover have "pvContainer m' x = Some l" using holds_listD(4) [OF kernel_listsD [OF m'(2), of l]] by simp
  ultimately show ?thesis
    using uxListRemove_law [OF m'(2), of l ?ys x ?zs] m' assms(2)
    by (auto simp: listIS_CONTAINED_WITHIN_def map_upd_triv)
qed

theorem list_insert_remove_roundtrip_witness:
  "\<exists>m' m''. vListInsert 9 2 one_item = Some m' \<and> uxListRemove 2 m' = Inr (1, m'') \<and> kernel_lists m'' [9 \<mapsto> [3]]"
  using list_insert_remove_roundtrip [of one_item "[9 \<mapsto> [3]]" 9 "[3]" 2] one_item_holds by auto

text \<open>The walk of the scheduler over a ready list serves its tasks in turn: as many steps as the list
  has items return the owner of every item exactly once, in the order of the ring after the index, and
  leave the order of service as it was.\<close>

theorem ready_list_round_robin:
  assumes "kernel_lists m L" "L l = Some xs"
  shows "\<exists>m'. picks (listGET_OWNER_OF_NEXT_ENTRY l) (length xs) m = (map (pvOwner m) (run_order (pxIndex m l) xs), m') \<and>
    mset (map (pvOwner m) (run_order (pxIndex m l) xs)) = mset (map (pvOwner m) xs) \<and>
    in_turn l m' (map (pvOwner m) (run_order (pxIndex m l) xs))"
proof -
  have "in_turn l m (map (pvOwner m) (run_order (pxIndex m l) xs))"
    using kernel_listsD [OF assms] by (auto simp: in_turn_def)
  moreover have "length (run_order (pxIndex m l) xs) = length xs" by (metis mset_run_order size_mset)
  ultimately show ?thesis using ready_list.picks_full_turn [of l m] by (fastforce simp: mset_run_order)
qed

theorem ready_list_round_robin_witness:
  "\<exists>m'. picks (listGET_OWNER_OF_NEXT_ENTRY 9) 1 one_item = ([pvOwner one_item 3], m')"
  using ready_list_round_robin [of one_item "[9 \<mapsto> [3]]" 9 "[3]"] one_item_holds by (auto simp: run_order_def)

end
