(* ===== verification/RTOS_Tasks.thy ===== *)
theory RTOS_Tasks
  imports RTOS_List
begin

text \<open>
  Blocking, waking and the tick of \<^verbatim>\<open>components/freertos/tasks.c\<close>, on the pointer-level lists of
  \<^verbatim>\<open>list.c\<close>. The lists and list items are the kernel's static objects and the two items of every task
  control block; tasks are numbers. The state of a task is the list its \<^verbatim>\<open>xGenericListItem\<close> is on. The
  core a function runs on (\<^verbatim>\<open>xPortGetCoreID\<close>) is its argument \<open>core\<close>. The critical sections make each
  function one step; the tick hooks and the context switch of \<^verbatim>\<open>portYIELD_WITHIN_API\<close> are left out.
\<close>

section \<open>State\<close>

datatype kaddr =
    pxReadyTasksLists nat | xDelayedTaskList1 | xDelayedTaskList2 | xPendingReadyList nat
  | xTasksWaitingTermination | xSuspendedTaskList | event_list nat
  | xGenericListItem nat | xEventListItem nat

definition configMAX_PRIORITIES :: nat where "configMAX_PRIORITIES = 25"

text \<open>
  \<open>xCoreID t\<close> is \<open>None\<close> for \<^verbatim>\<open>tskNO_AFFINITY\<close>; \<open>yields_sent\<close> are the cores that were interrupted through
  \<^verbatim>\<open>vPortYieldOtherCore\<close>, the last one first. The lists of the tasks that wait for an event are part of queues
  and event groups; \<open>initialised\<close> says which of them exist and have been initialised, and is used in proofs only.
\<close>

record kernel =
  lists :: "kaddr list_mem"
  uxPriority :: "nat \<Rightarrow> nat"
  xCoreID :: "nat \<Rightarrow> nat option"
  pxCurrentTCB :: "nat \<Rightarrow> nat"
  pxDelayedTaskList :: kaddr
  pxOverflowDelayedTaskList :: kaddr
  uxCurrentNumberOfTasks :: u32
  xTickCount :: u32
  uxTopReadyPriority :: u32
  uxPendedTicks :: u32
  xYieldPending :: "nat \<Rightarrow> bool"
  xNumOfOverflows :: u32
  xNextTaskUnblockTime :: u32
  uxSchedulerSuspended :: "nat \<Rightarrow> u32"
  yields_sent :: "nat list"
  uxBasePriority :: "nat \<Rightarrow> nat"
  uxMutexesHeld :: "nat \<Rightarrow> u32"
  initialised :: "nat set"

section \<open>Lists\<close>

definition prvInitialiseTaskLists :: "kernel \<Rightarrow> kernel" where
  "prvInitialiseTaskLists k =
     k\<lparr>lists := fold vListInitialise
         (map pxReadyTasksLists [0..<configMAX_PRIORITIES] @
          [xDelayedTaskList1, xDelayedTaskList2, xPendingReadyList 0, xPendingReadyList 1,
           xTasksWaitingTermination, xSuspendedTaskList]) (lists k),
       pxDelayedTaskList := xDelayedTaskList1, pxOverflowDelayedTaskList := xDelayedTaskList2\<rparr>"

definition list_insert :: "kaddr \<Rightarrow> kaddr \<Rightarrow> kernel \<Rightarrow> kernel run" where
  "list_insert l x k =
     (case vListInsert l x (lists k) of None \<Rightarrow> Inl Blocks_Forever | Some m \<Rightarrow> Inr (k\<lparr>lists := m\<rparr>))"

definition list_remove :: "kaddr \<Rightarrow> kernel \<Rightarrow> kernel run" where
  "list_remove x k = run_bind (uxListRemove x (lists k)) (\<lambda>(_, m). Inr (k\<lparr>lists := m\<rparr>))"

definition prvAddTaskToReadyList :: "nat \<Rightarrow> kernel \<Rightarrow> kernel" where
  "prvAddTaskToReadyList pxTCB k =
     k\<lparr>uxTopReadyPriority := (if of_nat (uxPriority k pxTCB) > uxTopReadyPriority k
                              then of_nat (uxPriority k pxTCB) else uxTopReadyPriority k),
       lists := vListInsertEnd (pxReadyTasksLists (uxPriority k pxTCB)) (xGenericListItem pxTCB) (lists k)\<rparr>"

definition prvResetNextTaskUnblockTime :: "kernel \<Rightarrow> kernel" where
  "prvResetNextTaskUnblockTime k =
     k\<lparr>xNextTaskUnblockTime :=
         (if listLIST_IS_EMPTY (pxDelayedTaskList k) (lists k) then portMAX_DELAY
          else xItemValue (lists k) (xGenericListItem (listGET_OWNER_OF_HEAD_ENTRY (pxDelayedTaskList k) (lists k))))\<rparr>"

section \<open>Going to sleep\<close>

definition prvAddCurrentTaskToDelayedList :: "nat \<Rightarrow> u32 \<Rightarrow> kernel \<Rightarrow> kernel run" where
  "prvAddCurrentTaskToDelayedList core xTimeToWake k =
     (let item = xGenericListItem (pxCurrentTCB k core);
          k1 = k\<lparr>lists := listSET_LIST_ITEM_VALUE item xTimeToWake (lists k)\<rparr>
      in if xTimeToWake < xTickCount k then list_insert (pxOverflowDelayedTaskList k) item k1
         else run_bind (list_insert (pxDelayedTaskList k) item k1) (\<lambda>k2.
           Inr (if xTimeToWake < xNextTaskUnblockTime k2 then k2\<lparr>xNextTaskUnblockTime := xTimeToWake\<rparr> else k2)))"

definition vTaskDelay :: "nat \<Rightarrow> u32 \<Rightarrow> kernel \<Rightarrow> kernel run" where
  "vTaskDelay core xTicksToDelay k =
     (if xTicksToDelay > 0 then
        if uxSchedulerSuspended k core \<noteq> 0 then Inl Assert_Failed
        else run_bind (list_remove (xGenericListItem (pxCurrentTCB k core)) k)
               (prvAddCurrentTaskToDelayedList core (xTickCount k + xTicksToDelay))
      else Inr k)"

text \<open>The end of the functions that wait for an event: for ever, or until a time.\<close>

definition block_current :: "nat \<Rightarrow> u32 \<Rightarrow> kernel \<Rightarrow> kernel run" where
  "block_current core xTicksToWait k =
     run_bind (list_remove (xGenericListItem (pxCurrentTCB k core)) k) (\<lambda>k1.
       if xTicksToWait = portMAX_DELAY
       then Inr (k1\<lparr>lists := vListInsertEnd xSuspendedTaskList (xGenericListItem (pxCurrentTCB k core)) (lists k1)\<rparr>)
       else prvAddCurrentTaskToDelayedList core (xTickCount k + xTicksToWait) k1)"

definition vTaskPlaceOnEventList :: "nat \<Rightarrow> kaddr \<Rightarrow> u32 \<Rightarrow> kernel \<Rightarrow> kernel run" where
  "vTaskPlaceOnEventList core pxEventList xTicksToWait k =
     run_bind (list_insert pxEventList (xEventListItem (pxCurrentTCB k core)) k) (block_current core xTicksToWait)"

definition taskEVENT_LIST_ITEM_VALUE_IN_USE :: u32 where
  "taskEVENT_LIST_ITEM_VALUE_IN_USE = 0x80000000"

definition vTaskPlaceOnUnorderedEventList :: "nat \<Rightarrow> kaddr \<Rightarrow> u32 \<Rightarrow> u32 \<Rightarrow> kernel \<Rightarrow> kernel run" where
  "vTaskPlaceOnUnorderedEventList core pxEventList itemValue xTicksToWait k =
     (let item = xEventListItem (pxCurrentTCB k core) in
      if uxSchedulerSuspended k core = 0 then Inl Assert_Failed
      else block_current core xTicksToWait
        (k\<lparr>lists := vListInsertEnd pxEventList item
             (listSET_LIST_ITEM_VALUE item (itemValue OR taskEVENT_LIST_ITEM_VALUE_IN_USE) (lists k))\<rparr>))"

definition uxTaskResetEventItemValue :: "nat \<Rightarrow> kernel \<Rightarrow> u32 \<times> kernel" where
  "uxTaskResetEventItemValue core k =
     (let t = pxCurrentTCB k core in
      (xItemValue (lists k) (xEventListItem t),
       k\<lparr>lists := listSET_LIST_ITEM_VALUE (xEventListItem t)
           (of_nat configMAX_PRIORITIES - of_nat (uxPriority k t)) (lists k)\<rparr>))"

section \<open>The tick\<close>

definition taskSWITCH_DELAYED_LISTS :: "kernel \<Rightarrow> kernel run" where
  "taskSWITCH_DELAYED_LISTS k =
     (if \<not> listLIST_IS_EMPTY (pxDelayedTaskList k) (lists k) then Inl Assert_Failed
      else Inr (prvResetNextTaskUnblockTime
        (k\<lparr>pxDelayedTaskList := pxOverflowDelayedTaskList k, pxOverflowDelayedTaskList := pxDelayedTaskList k,
           xNumOfOverflows := xNumOfOverflows k + 1\<rparr>)))"

text \<open>One task leaves the Blocked state, and the event list it waits on, if any.\<close>

definition unblock_task :: "nat \<Rightarrow> kernel \<Rightarrow> kernel run" where
  "unblock_task pxTCB k =
     run_bind (list_remove (xGenericListItem pxTCB) k) (\<lambda>k1.
     run_bind (if pvContainer (lists k1) (xEventListItem pxTCB) \<noteq> None
               then list_remove (xEventListItem pxTCB) k1 else Inr k1) (\<lambda>k2.
       Inr (prvAddTaskToReadyList pxTCB k2)))"

text \<open>The loop over the delayed list; \<open>None\<close> if it never ends.\<close>

partial_function (option) unblock_loop :: "nat \<Rightarrow> u32 \<Rightarrow> bool \<Rightarrow> kernel \<Rightarrow> (bool \<times> kernel) run option" where
  "unblock_loop core xConstTickCount xSwitchRequired k =
     (if listLIST_IS_EMPTY (pxDelayedTaskList k) (lists k)
      then Some (Inr (xSwitchRequired, k\<lparr>xNextTaskUnblockTime := portMAX_DELAY\<rparr>))
      else let pxTCB = listGET_OWNER_OF_HEAD_ENTRY (pxDelayedTaskList k) (lists k);
               itemValue = xItemValue (lists k) (xGenericListItem pxTCB)
           in if xConstTickCount < itemValue
              then Some (Inr (xSwitchRequired, k\<lparr>xNextTaskUnblockTime := itemValue\<rparr>))
              else (case unblock_task pxTCB k of Inl e \<Rightarrow> Some (Inl e)
                    | Inr k' \<Rightarrow> unblock_loop core xConstTickCount
                        (xSwitchRequired \<or> uxPriority k' pxTCB \<ge> uxPriority k' (pxCurrentTCB k' core)) k'))"

text \<open>A loop that never ends is a fault.\<close>

definition or_blocks :: "'a run option \<Rightarrow> 'a run" where
  "or_blocks r = (case r of None \<Rightarrow> Inl Blocks_Forever | Some x \<Rightarrow> x)"

text \<open>The part of the tick that runs while the scheduler is not suspended.\<close>

definition tick_unsuspended :: "nat \<Rightarrow> kernel \<Rightarrow> (bool \<times> kernel) run" where
  "tick_unsuspended core k =
     (let k1 = k\<lparr>xTickCount := xTickCount k + 1\<rparr>; now = xTickCount k1 in
      run_bind (if now = 0 then taskSWITCH_DELAYED_LISTS k1 else Inr k1) (\<lambda>k2.
      run_bind (if now \<ge> xNextTaskUnblockTime k2
                then or_blocks (unblock_loop core now False k2)
                else Inr (False, k2)) (\<lambda>(sw, k3).
        Inr (sw \<or> uxNumberOfItems (lists k3) (pxReadyTasksLists (uxPriority k3 (pxCurrentTCB k3 core))) > 1, k3))))"

definition xTaskIncrementTick :: "nat \<Rightarrow> kernel \<Rightarrow> (bool \<times> kernel) run" where
  "xTaskIncrementTick core k =
     (if core \<noteq> 0 then Inr (True, k)
      else run_bind (if uxSchedulerSuspended k core = 0 then tick_unsuspended core k
                     else Inr (False, k\<lparr>uxPendedTicks := uxPendedTicks k + 1\<rparr>)) (\<lambda>(sw, k').
        Inr (sw \<or> xYieldPending k' core, k')))"

section \<open>Waking by an event\<close>

definition tskCAN_RUN_HERE :: "nat \<Rightarrow> nat option \<Rightarrow> bool" where
  "tskCAN_RUN_HERE core cpuid \<longleftrightarrow> cpuid = Some core \<or> cpuid = None"

definition taskYIELD_OTHER_CORE :: "nat \<Rightarrow> nat option \<Rightarrow> nat \<Rightarrow> kernel \<Rightarrow> kernel" where
  "taskYIELD_OTHER_CORE core cpuid prio k =
     (case cpuid of
        Some c \<Rightarrow> if uxPriority k (pxCurrentTCB k c) < prio then k\<lparr>yields_sent := c # yields_sent k\<rparr> else k
      | None \<Rightarrow> (case filter (\<lambda>i. i \<noteq> core \<and> uxPriority k (pxCurrentTCB k i) < prio) [0, 1] of
                   [] \<Rightarrow> k | i # _ \<Rightarrow> k\<lparr>yields_sent := i # yields_sent k\<rparr>))"

text \<open>The common end: whether the caller should switch to the woken task.\<close>

definition after_wake :: "nat \<Rightarrow> nat \<Rightarrow> kernel \<Rightarrow> bool \<times> kernel" where
  "after_wake core t k =
     (if tskCAN_RUN_HERE core (xCoreID k t) \<and> uxPriority k t \<ge> uxPriority k (pxCurrentTCB k core)
      then (True, k\<lparr>xYieldPending := (xYieldPending k)(core := True)\<rparr>)
      else if xCoreID k t \<noteq> Some core then (False, taskYIELD_OTHER_CORE core (xCoreID k t) (uxPriority k t) k)
      else (False, k))"

definition xTaskRemoveFromEventList :: "nat \<Rightarrow> kaddr \<Rightarrow> kernel \<Rightarrow> (bool \<times> kernel) run" where
  "xTaskRemoveFromEventList core pxEventList k =
     (if listLIST_IS_EMPTY pxEventList (lists k) then Inr (False, k)
      else let t = listGET_OWNER_OF_HEAD_ENTRY pxEventList (lists k) in
        run_bind (list_remove (xEventListItem t) k) (\<lambda>k1.
        run_bind (if uxSchedulerSuspended k1 core = 0
                  then run_bind (list_remove (xGenericListItem t) k1) (\<lambda>k2. Inr (prvAddTaskToReadyList t k2))
                  else Inr (k1\<lparr>lists := vListInsertEnd (xPendingReadyList core) (xEventListItem t) (lists k1)\<rparr>)) (\<lambda>k3.
          Inr (after_wake core t k3))))"

definition xTaskRemoveFromUnorderedEventList :: "nat \<Rightarrow> kaddr \<Rightarrow> u32 \<Rightarrow> kernel \<Rightarrow> (bool \<times> kernel) run" where
  "xTaskRemoveFromUnorderedEventList core item itemValue k =
     (if uxSchedulerSuspended k core = 0 then Inl Assert_Failed
      else let t = pvOwner (lists k) item in
        run_bind (list_remove item
          (k\<lparr>lists := listSET_LIST_ITEM_VALUE item (itemValue OR taskEVENT_LIST_ITEM_VALUE_IN_USE) (lists k)\<rparr>)) (\<lambda>k1.
        run_bind (list_remove (xGenericListItem t) k1) (\<lambda>k2.
          Inr (after_wake core t (prvAddTaskToReadyList t k2)))))"

section \<open>Suspending the scheduler\<close>

definition vTaskSuspendAll :: "nat \<Rightarrow> kernel \<Rightarrow> kernel" where
  "vTaskSuspendAll core k = k\<lparr>uxSchedulerSuspended := (uxSchedulerSuspended k)(core := uxSchedulerSuspended k core + 1)\<rparr>"

partial_function (option) pending_loop :: "nat \<Rightarrow> kernel \<Rightarrow> kernel run option" where
  "pending_loop core k =
     (if listLIST_IS_EMPTY (xPendingReadyList core) (lists k) then Some (Inr k)
      else let t = listGET_OWNER_OF_HEAD_ENTRY (xPendingReadyList core) (lists k) in
        (case run_bind (list_remove (xEventListItem t) k) (list_remove (xGenericListItem t)) of
           Inl e \<Rightarrow> Some (Inl e)
         | Inr k1 \<Rightarrow>
             let k2 = prvAddTaskToReadyList t k1 in
             if tskCAN_RUN_HERE core (xCoreID k2 t) \<and> uxPriority k2 t \<ge> uxPriority k2 (pxCurrentTCB k2 core)
             then Some (Inr (k2\<lparr>xYieldPending := (xYieldPending k2)(core := True)\<rparr>))
             else pending_loop core k2))"

text \<open>The pended ticks; \<^verbatim>\<open>uxPendedTicks\<close> is counted down after each of them.\<close>

partial_function (option) pended_loop :: "nat \<Rightarrow> kernel \<Rightarrow> kernel run option" where
  "pended_loop core k =
     (if uxPendedTicks k > 0 then
        (case xTaskIncrementTick core k of
           Inl e \<Rightarrow> Some (Inl e)
         | Inr (sw, k1) \<Rightarrow>
             let k2 = (if sw then k1\<lparr>xYieldPending := (xYieldPending k1)(core := True)\<rparr> else k1)
             in pended_loop core (k2\<lparr>uxPendedTicks := uxPendedTicks k2 - 1\<rparr>))
      else Some (Inr k))"

definition xTaskResumeAll :: "nat \<Rightarrow> kernel \<Rightarrow> (bool \<times> kernel) run" where
  "xTaskResumeAll core k =
     (if uxSchedulerSuspended k core = 0 then Inl Assert_Failed
      else let k1 = k\<lparr>uxSchedulerSuspended := (uxSchedulerSuspended k)(core := uxSchedulerSuspended k core - 1)\<rparr> in
        if uxSchedulerSuspended k1 core = 0 \<and> uxCurrentNumberOfTasks k1 > 0 then
          run_bind (or_blocks (pending_loop core k1)) (\<lambda>k2.
          run_bind (or_blocks (pended_loop core k2)) (\<lambda>k3. Inr (xYieldPending k3 core, k3)))
        else Inr (False, k1))"

section \<open>Time-outs\<close>

record TimeOut_t =
  xOverflowCount :: u32
  xTimeOnEntering :: u32

definition vTaskSetTimeOutState :: "kernel \<Rightarrow> TimeOut_t" where
  "vTaskSetTimeOutState k = \<lparr>xOverflowCount = xNumOfOverflows k, xTimeOnEntering = xTickCount k\<rparr>"

text \<open>The result, and the new \<^verbatim>\<open>*pxTimeOut\<close> and \<^verbatim>\<open>*pxTicksToWait\<close>.\<close>

definition xTaskCheckForTimeOut :: "TimeOut_t \<Rightarrow> u32 \<Rightarrow> kernel \<Rightarrow> bool \<times> TimeOut_t \<times> u32" where
  "xTaskCheckForTimeOut to wait k =
     (if wait = portMAX_DELAY then (False, to, wait)
      else if xNumOfOverflows k \<noteq> xOverflowCount to \<and> xTickCount k \<ge> xTimeOnEntering to then (True, to, wait)
      else if xTickCount k - xTimeOnEntering to < wait
      then (False, vTaskSetTimeOutState k, wait - (xTickCount k - xTimeOnEntering to))
      else (True, to, wait))"

section \<open>The kernel's invariant\<close>

definition generic_lists :: "kaddr set" where
  "generic_lists = pxReadyTasksLists ` {..<configMAX_PRIORITIES} \<union>
     {xDelayedTaskList1, xDelayedTaskList2, xTasksWaitingTermination, xSuspendedTaskList}"

definition event_lists :: "kaddr set" where
  "event_lists = range event_list \<union> {xPendingReadyList 0, xPendingReadyList 1}"

text \<open>
  What may be on what: state items on the lists of states, event items on the lists of events. The control
  blocks of tasks are in the data memory, which ends below \<^verbatim>\<open>0x40000000\<close>.
\<close>

abbreviation task_address :: "nat \<Rightarrow> bool" where
  "task_address t \<equiv> t < 0x40000000"

definition fits_on :: "kaddr \<Rightarrow> kaddr \<Rightarrow> bool" where
  "fits_on x l \<longleftrightarrow> (\<exists>t. task_address t \<and>
     (x = xGenericListItem t \<and> l \<in> generic_lists \<or> x = xEventListItem t \<and> l \<in> event_lists))"

definition kernel_ok :: "kernel \<Rightarrow> (kaddr \<rightharpoonup> kaddr list) \<Rightarrow> bool" where
  "kernel_ok k L \<longleftrightarrow> kernel_lists (lists k) L \<and>
     generic_lists \<union> {xPendingReadyList 0, xPendingReadyList 1} \<union> event_list ` initialised k = dom L \<and>
     (\<forall>x l. pvContainer (lists k) x = Some l \<longrightarrow> l \<in> dom L \<and> fits_on x l) \<and>
     (\<forall>t. pvOwner (lists k) (xGenericListItem t) = t \<and> pvOwner (lists k) (xEventListItem t) = t) \<and>
     (\<forall>t. uxPriority k t < configMAX_PRIORITIES) \<and>
     (pxDelayedTaskList k, pxOverflowDelayedTaskList k) \<in>
       {(xDelayedTaskList1, xDelayedTaskList2), (xDelayedTaskList2, xDelayedTaskList1)}"

lemma kernel_okD:
  assumes "kernel_ok k L"
  shows "kernel_lists (lists k) L" "dom L \<subseteq> generic_lists \<union> event_lists"
    "generic_lists \<union> {xPendingReadyList 0, xPendingReadyList 1} \<subseteq> dom L"
    and "\<And>x l. pvContainer (lists k) x = Some l \<Longrightarrow> l \<in> dom L \<and> fits_on x l"
    and "pvOwner (lists k) (xGenericListItem t) = t" "pvOwner (lists k) (xEventListItem t) = t"
    and "uxPriority k t < configMAX_PRIORITIES"
    and "pxDelayedTaskList k = xDelayedTaskList1 \<and> pxOverflowDelayedTaskList k = xDelayedTaskList2 \<or>
         pxDelayedTaskList k = xDelayedTaskList2 \<and> pxOverflowDelayedTaskList k = xDelayedTaskList1"
    and "e \<in> initialised k \<Longrightarrow> \<exists>es. L (event_list e) = Some es"
proof -
  have "dom L = generic_lists \<union> {xPendingReadyList 0, xPendingReadyList 1} \<union> event_list ` initialised k"
    using assms by (simp add: kernel_ok_def)
  then show "dom L \<subseteq> generic_lists \<union> event_lists" "generic_lists \<union> {xPendingReadyList 0, xPendingReadyList 1} \<subseteq> dom L"
    "e \<in> initialised k \<Longrightarrow> \<exists>es. L (event_list e) = Some es"
    by (auto simp: event_lists_def)
qed (use assms in \<open>unfold kernel_ok_def, blast+\<close>)

lemma list_addresses [simp]:
  "xGenericListItem t \<notin> generic_lists" "xEventListItem t \<notin> generic_lists"
  "xGenericListItem t \<notin> event_lists" "xEventListItem t \<notin> event_lists"
  "xDelayedTaskList1 \<in> generic_lists" "xDelayedTaskList2 \<in> generic_lists" "xSuspendedTaskList \<in> generic_lists"
  "xPendingReadyList 0 \<in> event_lists" "xPendingReadyList 1 \<in> event_lists"
  "xPendingReadyList c \<notin> generic_lists" "event_list e \<in> event_lists" "event_list e \<notin> generic_lists"
  "pxReadyTasksLists p \<in> generic_lists \<longleftrightarrow> p < configMAX_PRIORITIES"
  by (auto simp: generic_lists_def event_lists_def)

lemma generic_not_event: "l \<in> generic_lists \<Longrightarrow> l \<notin> event_lists"
  by (auto simp: generic_lists_def event_lists_def)

lemma items_no_lists:
  assumes "kernel_ok k L"
  shows "xGenericListItem t \<notin> dom L" "xEventListItem t \<notin> dom L" "fits_on x l \<Longrightarrow> x \<notin> dom L"
proof -
  show "xGenericListItem t \<notin> dom L" "xEventListItem t \<notin> dom L" for t
    using kernel_okD(2) [OF assms] list_addresses(1-4) by blast+
  then show "fits_on x l \<Longrightarrow> x \<notin> dom L" by (auto simp: fits_on_def)
qed

text \<open>A list has room for one more item, as there is memory for fewer than $2^{32}$ tasks.\<close>

lemma room_for_item:
  assumes ok: "kernel_ok k L" "L l = Some xs" and x: "pvContainer (lists k) x = None" "fits_on x l"
  shows "length xs + 1 < 2 ^ 32"
proof -
  let ?N = "0x40000000 :: nat"
  note d = holds_listD [OF kernel_listsD [OF kernel_okD(1) [OF ok(1)] ok(2)]]
  define item where "item = (if l \<in> generic_lists then xGenericListItem else xEventListItem)"
  have "inj item" by (auto simp: item_def inj_def)
  have only: "fits_on y l \<Longrightarrow> y \<in> item ` {..<?N}" for y
    using generic_not_event [of l] by (auto simp: fits_on_def item_def)
  have "insert x (set xs) \<subseteq> item ` {..<?N}"
    using d(4) kernel_okD(4) [OF ok(1)] x(2) only by blast
  then have "card (insert x (set xs)) \<le> card (item ` {..<?N})" by (intro card_mono) auto
  also have "\<dots> = ?N" using \<open>inj item\<close> by (simp add: card_image inj_on_def)
  finally have "length xs + 1 \<le> ?N"
    using d(2) d(4) [of x] x(1) by (simp add: distinct_card card_insert_if)
  then show ?thesis by simp
qed

section \<open>The list calls under the invariant\<close>

lemma kernel_ok_lists:
  assumes "kernel_ok k L" "kernel_lists m L'" "dom L' = dom L" "pvOwner m = pvOwner (lists k)"
    "\<And>x l. pvContainer m x = Some l \<Longrightarrow> pvContainer (lists k) x = Some l \<or> l \<in> dom L \<and> fits_on x l"
  shows "kernel_ok (k\<lparr>lists := m\<rparr>) L'"
proof -
  have "l \<in> dom L \<and> fits_on x l" if "pvContainer m x = Some l" for x l
    using assms(5) [OF that] kernel_okD(4) [OF assms(1)] by blast
  then show ?thesis using assms(1-4) unfolding kernel_ok_def by simp
qed

lemma list_remove_ok:
  assumes ok: "kernel_ok k L" and x: "pvContainer (lists k) x = Some l" "L l = Some xs"
  shows "\<exists>m. list_remove x k = Inr (k\<lparr>lists := m\<rparr>) \<and> kernel_ok (k\<lparr>lists := m\<rparr>) (L(l \<mapsto> remove1 x xs)) \<and>
           pvContainer m = (pvContainer (lists k))(x := None) \<and> xItemValue m = xItemValue (lists k)"
proof -
  obtain n m where m: "uxListRemove x (lists k) = Inr (n, m)" "kernel_lists m (L(l \<mapsto> remove1 x xs))"
    "pvContainer m = (pvContainer (lists k))(x := None)" "xItemValue m = xItemValue (lists k)" "pvOwner m = pvOwner (lists k)"
    using uxListRemove_some [OF kernel_okD(1) [OF ok] x(2,1)] by blast
  have "kernel_ok (k\<lparr>lists := m\<rparr>) (L(l \<mapsto> remove1 x xs))"
    using x(2) by (intro kernel_ok_lists [OF ok m(2) _ m(5)]) (auto simp: m(3) split: if_splits)
  then show ?thesis using m by (auto simp: list_remove_def)
qed

lemma list_insert_end_ok:
  assumes ok: "kernel_ok k L" and x: "pvContainer (lists k) x = None" "fits_on x l" and l: "L l = Some xs"
  shows "\<exists>xs'. kernel_ok (k\<lparr>lists := vListInsertEnd l x (lists k)\<rparr>) (L(l \<mapsto> xs')) \<and> set xs' = insert x (set xs) \<and>
           pvContainer (vListInsertEnd l x (lists k)) = (pvContainer (lists k))(x := Some l) \<and>
           xItemValue (vListInsertEnd l x (lists k)) = xItemValue (lists k)"
proof -
  let ?m = "vListInsertEnd l x (lists k)"
  obtain xs' where m: "kernel_lists ?m (L(l \<mapsto> xs'))" "set xs' = insert x (set xs)" "xItemValue ?m = xItemValue (lists k)"
    "pvOwner ?m = pvOwner (lists k)" "pvContainer ?m = (pvContainer (lists k))(x := Some l)"
    using vListInsertEnd_some [OF kernel_okD(1) [OF ok] l x(1) items_no_lists(3) [OF ok x(2)] room_for_item [OF ok l x]] by blast
  have "kernel_ok (k\<lparr>lists := ?m\<rparr>) (L(l \<mapsto> xs'))"
    using l x(2) by (intro kernel_ok_lists [OF ok m(1) _ m(4)]) (auto simp: m(5) split: if_splits)
  then show ?thesis using m by blast
qed

lemma list_insert_ok:
  assumes ok: "kernel_ok k L" and x: "pvContainer (lists k) x = None" "fits_on x l" and l: "L l = Some xs"
  shows "\<exists>m. list_insert l x k = Inr (k\<lparr>lists := m\<rparr>) \<and>
           kernel_ok (k\<lparr>lists := m\<rparr>) (L(l \<mapsto> place_by (xItemValue (lists k)) x xs)) \<and>
           pvContainer m = (pvContainer (lists k))(x := Some l) \<and> xItemValue m = xItemValue (lists k)"
proof -
  obtain m where m: "vListInsert l x (lists k) = Some m" "kernel_lists m (L(l \<mapsto> place_by (xItemValue (lists k)) x xs))"
    "xItemValue m = xItemValue (lists k)" "pvOwner m = pvOwner (lists k)" "pvContainer m = (pvContainer (lists k))(x := Some l)"
    using vListInsert_law [OF kernel_okD(1) [OF ok] l x(1) items_no_lists(3) [OF ok x(2)] room_for_item [OF ok l x]] by blast
  have "kernel_ok (k\<lparr>lists := m\<rparr>) (L(l \<mapsto> place_by (xItemValue (lists k)) x xs))"
    using l x(2) by (intro kernel_ok_lists [OF ok m(2) _ m(4)]) (auto simp: m(5) split: if_splits)
  then show ?thesis using m by (auto simp: list_insert_def)
qed

section \<open>Unblocking\<close>

text \<open>The containers after the tasks of the state items \<open>W\<close> have become ready.\<close>

fun woken :: "(nat \<Rightarrow> nat) \<Rightarrow> kaddr set \<Rightarrow> (kaddr \<Rightarrow> kaddr option) \<Rightarrow> kaddr \<Rightarrow> kaddr option" where
  "woken prio W c (xGenericListItem t) =
     (if xGenericListItem t \<in> W then Some (pxReadyTasksLists (prio t)) else c (xGenericListItem t))"
| "woken prio W c (xEventListItem t) = (if xGenericListItem t \<in> W then None else c (xEventListItem t))"
| "woken prio W c x = c x"

lemma woken_none [simp]: "woken prio {} c = c"
proof
  fix x show "woken prio {} c x = c x" by (cases x) auto
qed

lemma woken_one: "woken prio {xGenericListItem t} c =
  c(xGenericListItem t := Some (pxReadyTasksLists (prio t)), xEventListItem t := None)"
proof
  fix x show "woken prio {xGenericListItem t} c x = (c(xGenericListItem t := Some (pxReadyTasksLists (prio t)), xEventListItem t := None)) x"
    by (cases x) auto
qed

lemma woken_more: "woken prio W (woken prio V c) = woken prio (V \<union> W) c"
proof
  fix x show "woken prio W (woken prio V c) x = woken prio (V \<union> W) c x" by (cases x) auto
qed

text \<open>Operations that change only the lists and the top ready priority.\<close>

definition same_but_lists :: "kernel \<Rightarrow> kernel \<Rightarrow> bool" where
  "same_but_lists k k' \<longleftrightarrow> k'\<lparr>lists := lists k, uxTopReadyPriority := uxTopReadyPriority k\<rparr> = k"

lemma same_but_listsD:
  assumes "same_but_lists k k'"
  shows "uxPriority k' = uxPriority k" "xCoreID k' = xCoreID k" "pxCurrentTCB k' = pxCurrentTCB k"
    "pxDelayedTaskList k' = pxDelayedTaskList k" "pxOverflowDelayedTaskList k' = pxOverflowDelayedTaskList k"
    "uxCurrentNumberOfTasks k' = uxCurrentNumberOfTasks k" "xTickCount k' = xTickCount k"
    "uxPendedTicks k' = uxPendedTicks k" "xYieldPending k' = xYieldPending k"
    "xNumOfOverflows k' = xNumOfOverflows k" "xNextTaskUnblockTime k' = xNextTaskUnblockTime k"
    "uxSchedulerSuspended k' = uxSchedulerSuspended k" "initialised k' = initialised k"
proof -
  have k: "k = k'\<lparr>lists := lists k, uxTopReadyPriority := uxTopReadyPriority k\<rparr>"
    using assms by (simp add: same_but_lists_def)
  show "uxPriority k' = uxPriority k" "xCoreID k' = xCoreID k" "pxCurrentTCB k' = pxCurrentTCB k"
    "pxDelayedTaskList k' = pxDelayedTaskList k" "pxOverflowDelayedTaskList k' = pxOverflowDelayedTaskList k"
    "uxCurrentNumberOfTasks k' = uxCurrentNumberOfTasks k" "xTickCount k' = xTickCount k"
    "uxPendedTicks k' = uxPendedTicks k" "xYieldPending k' = xYieldPending k"
    "xNumOfOverflows k' = xNumOfOverflows k" "xNextTaskUnblockTime k' = xNextTaskUnblockTime k"
    "uxSchedulerSuspended k' = uxSchedulerSuspended k" "initialised k' = initialised k"
    by (subst k; simp)+
qed

lemma prvAddTaskToReadyList_ok:
  assumes ok: "kernel_ok k L" and t: "pvContainer (lists k) (xGenericListItem t) = None" "task_address t"
  shows "\<exists>xs. kernel_ok (prvAddTaskToReadyList t k) (L(pxReadyTasksLists (uxPriority k t) \<mapsto> xs)) \<and>
    pvContainer (lists (prvAddTaskToReadyList t k)) =
      (pvContainer (lists k))(xGenericListItem t := Some (pxReadyTasksLists (uxPriority k t))) \<and>
    xItemValue (lists (prvAddTaskToReadyList t k)) = xItemValue (lists k) \<and> same_but_lists k (prvAddTaskToReadyList t k)"
proof -
  let ?l = "pxReadyTasksLists (uxPriority k t)"
  have l: "?l \<in> generic_lists" using kernel_okD(7) [OF ok] by simp
  then obtain ys where ys: "L ?l = Some ys" using kernel_okD(3) [OF ok] by blast
  have "fits_on (xGenericListItem t) ?l" using t l by (auto simp: fits_on_def)
  then obtain xs where xs: "kernel_ok (k\<lparr>lists := vListInsertEnd ?l (xGenericListItem t) (lists k)\<rparr>) (L(?l \<mapsto> xs))"
    "pvContainer (vListInsertEnd ?l (xGenericListItem t) (lists k)) = (pvContainer (lists k))(xGenericListItem t := Some ?l)"
    "xItemValue (vListInsertEnd ?l (xGenericListItem t) (lists k)) = xItemValue (lists k)"
    using list_insert_end_ok [OF ok t(1) _ ys] by blast
  have "kernel_ok (prvAddTaskToReadyList t k) (L(?l \<mapsto> xs))"
    using xs(1) by (simp add: kernel_ok_def prvAddTaskToReadyList_def fits_on_def)
  then show ?thesis using xs(2,3) by (auto simp: prvAddTaskToReadyList_def same_but_lists_def)
qed

lemma leave_event_list_ok:
  assumes ok: "kernel_ok k L"
  shows "\<exists>m L'. (if pvContainer (lists k) (xEventListItem t) \<noteq> None then list_remove (xEventListItem t) k else Inr k) =
      Inr (k\<lparr>lists := m\<rparr>) \<and> kernel_ok (k\<lparr>lists := m\<rparr>) L' \<and> (\<forall>l \<in> generic_lists. L' l = L l) \<and>
      pvContainer m = (pvContainer (lists k))(xEventListItem t := None) \<and> xItemValue m = xItemValue (lists k)"
proof (cases "pvContainer (lists k) (xEventListItem t)")
  case None
  then show ?thesis using ok by (auto simp: fun_upd_idem intro!: exI [of _ "lists k"])
next
  case (Some el)
  then have el: "el \<in> event_lists" "el \<in> dom L"
    using kernel_okD(4) [OF ok, of "xEventListItem t" el] by (auto simp: fits_on_def)
  then obtain es where es: "L el = Some es" by blast
  obtain m where "list_remove (xEventListItem t) k = Inr (k\<lparr>lists := m\<rparr>)"
    "kernel_ok (k\<lparr>lists := m\<rparr>) (L(el \<mapsto> remove1 (xEventListItem t) es))"
    "pvContainer m = (pvContainer (lists k))(xEventListItem t := None)" "xItemValue m = xItemValue (lists k)"
    using list_remove_ok [OF ok Some es] by blast
  moreover have "\<forall>l \<in> generic_lists. l \<noteq> el" using el(1) generic_not_event by blast
  ultimately show ?thesis using Some by (intro exI [of _ m] exI [of _ "L(el \<mapsto> remove1 (xEventListItem t) es)"]) auto
qed

text \<open>How the top priority goes from \<open>a\<close> to \<open>b\<close> when the tasks of the items \<open>W\<close> become ready.\<close>

definition raised :: "(nat \<Rightarrow> nat) \<Rightarrow> kaddr set \<Rightarrow> u32 \<Rightarrow> u32 \<Rightarrow> bool" where
  "raised pr W a b \<longleftrightarrow> a \<le> b \<and> (\<forall>t. xGenericListItem t \<in> W \<longrightarrow> of_nat (pr t) \<le> b) \<and> (b = a \<or> (\<exists>t. b = of_nat (pr t)))"

lemma raised_none [simp]: "raised pr {} a a"
  by (simp add: raised_def)

lemma raised_more: "raised pr V a b \<Longrightarrow> raised pr W b c \<Longrightarrow> raised pr (V \<union> W) a c"
  by (auto simp: raised_def)

lemma raised_ready: "raised (uxPriority k) {xGenericListItem t} (uxTopReadyPriority k) (uxTopReadyPriority (prvAddTaskToReadyList t k))"
  by (auto simp: raised_def prvAddTaskToReadyList_def)

lemma unblock_task_ok:
  assumes ok: "kernel_ok k L" and t: "pvContainer (lists k) (xGenericListItem t) = Some l" "L l = Some xs"
    and l: "l \<in> {xDelayedTaskList1, xDelayedTaskList2, xSuspendedTaskList}"
  shows "\<exists>k' L'. unblock_task t k = Inr k' \<and> kernel_ok k' L' \<and> L' l = Some (remove1 (xGenericListItem t) xs) \<and>
    (\<forall>l' \<in> {xDelayedTaskList1, xDelayedTaskList2} - {l}. L' l' = L l') \<and>
    pvContainer (lists k') = woken (uxPriority k) {xGenericListItem t} (pvContainer (lists k)) \<and>
    xItemValue (lists k') = xItemValue (lists k) \<and> same_but_lists k k' \<and>
    raised (uxPriority k) {xGenericListItem t} (uxTopReadyPriority k) (uxTopReadyPriority k')"
proof -
  let ?x = "xGenericListItem t" and ?e = "xEventListItem t"
  have tN: "task_address t" using kernel_okD(4) [OF ok t(1)] by (auto simp: fits_on_def)
  obtain m1 where m1: "list_remove ?x k = Inr (k\<lparr>lists := m1\<rparr>)" "kernel_ok (k\<lparr>lists := m1\<rparr>) (L(l \<mapsto> remove1 ?x xs))"
    "pvContainer m1 = (pvContainer (lists k))(?x := None)" "xItemValue m1 = xItemValue (lists k)"
    using list_remove_ok [OF ok t] by blast
  obtain m2 L2 where m2: "(if pvContainer m1 ?e \<noteq> None then list_remove ?e (k\<lparr>lists := m1\<rparr>) else Inr (k\<lparr>lists := m1\<rparr>)) =
      Inr (k\<lparr>lists := m2\<rparr>)" "kernel_ok (k\<lparr>lists := m2\<rparr>) L2" "\<And>l'. l' \<in> generic_lists \<Longrightarrow> L2 l' = (L(l \<mapsto> remove1 ?x xs)) l'"
      "pvContainer m2 = (pvContainer m1)(?e := None)" "xItemValue m2 = xItemValue m1"
    using leave_event_list_ok [OF m1(2), of t] by auto
  let ?k2 = "k\<lparr>lists := m2\<rparr>" and ?r = "pxReadyTasksLists (uxPriority k t)"
  obtain ys where k3: "kernel_ok (prvAddTaskToReadyList t ?k2) (L2(?r \<mapsto> ys))"
    "pvContainer (lists (prvAddTaskToReadyList t ?k2)) = (pvContainer m2)(?x := Some ?r)"
    "xItemValue (lists (prvAddTaskToReadyList t ?k2)) = xItemValue m2" "same_but_lists ?k2 (prvAddTaskToReadyList t ?k2)"
    using prvAddTaskToReadyList_ok [OF m2(2), of t] m2(4) m1(3) tN by auto
  have "unblock_task t k = Inr (prvAddTaskToReadyList t ?k2)"
    using m1(1) m2(1) by (simp add: unblock_task_def)
  moreover have "(L2(?r \<mapsto> ys)) l' = (L(l \<mapsto> remove1 ?x xs)) l'"
    if "l' \<in> {xDelayedTaskList1, xDelayedTaskList2, xSuspendedTaskList}" for l'
    using m2(3) [of l'] that by auto
  moreover have "same_but_lists k (prvAddTaskToReadyList t ?k2)" by (simp add: same_but_lists_def prvAddTaskToReadyList_def)
  moreover have "raised (uxPriority k) {?x} (uxTopReadyPriority k) (uxTopReadyPriority (prvAddTaskToReadyList t ?k2))"
    using raised_ready [of ?k2 t] by simp
  ultimately show ?thesis
    using k3 m2 m1 l
    by (intro exI [of _ "prvAddTaskToReadyList t ?k2"] exI [of _ "L2(?r \<mapsto> ys)"]) (auto simp: woken_one fun_upd_twist)
qed

fun head_time :: "('a \<Rightarrow> u32) \<Rightarrow> 'a list \<Rightarrow> u32" where
  "head_time v [] = portMAX_DELAY"
| "head_time v (x # _) = v x"

text \<open>The loop ends, and wakes exactly the tasks at the front whose time has come.\<close>

lemma unblock_loop_ok:
  assumes "kernel_ok k L" "L (pxDelayedTaskList k) = Some xs"
  shows "\<exists>sw' k' L'. unblock_loop core now sw k = Some (Inr (sw', k')) \<and> kernel_ok k' L' \<and>
    L' (pxDelayedTaskList k) = Some (dropWhile (\<lambda>x. xItemValue (lists k) x \<le> now) xs) \<and>
    L' (pxOverflowDelayedTaskList k) = L (pxOverflowDelayedTaskList k) \<and>
    pvContainer (lists k') =
      woken (uxPriority k) (set (takeWhile (\<lambda>x. xItemValue (lists k) x \<le> now) xs)) (pvContainer (lists k)) \<and>
    xItemValue (lists k') = xItemValue (lists k) \<and>
    same_but_lists k (k'\<lparr>xNextTaskUnblockTime := xNextTaskUnblockTime k\<rparr>) \<and>
    xNextTaskUnblockTime k' = head_time (xItemValue (lists k)) (dropWhile (\<lambda>x. xItemValue (lists k) x \<le> now) xs) \<and>
    raised (uxPriority k) (set (takeWhile (\<lambda>x. xItemValue (lists k) x \<le> now) xs)) (uxTopReadyPriority k) (uxTopReadyPriority k')"
  using assms
proof (induction xs arbitrary: k L sw)
  case Nil
  have "listLIST_IS_EMPTY (pxDelayedTaskList k) (lists k)"
    using holds_list_empty [OF kernel_listsD [OF kernel_okD(1) [OF Nil(1)] Nil(2)]] by simp
  moreover have "kernel_ok (k\<lparr>xNextTaskUnblockTime := portMAX_DELAY\<rparr>) L"
    using Nil(1) by (simp add: kernel_ok_def fits_on_def)
  ultimately show ?case using Nil(2)
    by (subst unblock_loop.simps) (auto simp: same_but_lists_def intro!: exI [of _ L])
next
  case (Cons x xs)
  note ok = Cons.prems(1) and h = kernel_listsD [OF kernel_okD(1) [OF ok] Cons.prems(2)]
  have ne: "\<not> listLIST_IS_EMPTY (pxDelayedTaskList k) (lists k)" using holds_list_empty [OF h] by simp
  have c: "pvContainer (lists k) x = Some (pxDelayedTaskList k)" using holds_listD(4) [OF h] by simp
  have dl: "pxDelayedTaskList k \<in> {xDelayedTaskList1, xDelayedTaskList2}" "pxOverflowDelayedTaskList k \<in> {xDelayedTaskList1, xDelayedTaskList2} - {pxDelayedTaskList k}"
    using kernel_okD(8) [OF ok] by auto
  obtain t where t: "x = xGenericListItem t"
    using kernel_okD(4) [OF ok c] dl(1) generic_not_event [of "pxDelayedTaskList k"] by (auto simp: fits_on_def)
  have hd: "listGET_OWNER_OF_HEAD_ENTRY (pxDelayedTaskList k) (lists k) = t"
    using holds_list_head [OF h] kernel_okD(5) [OF ok] t by simp
  show ?case
  proof (cases "now < xItemValue (lists k) x")
    case True
    then have "takeWhile (\<lambda>x. xItemValue (lists k) x \<le> now) (x # xs) = []"
      "dropWhile (\<lambda>x. xItemValue (lists k) x \<le> now) (x # xs) = x # xs" by (simp_all add: not_le)
    moreover have "kernel_ok (k\<lparr>xNextTaskUnblockTime := xItemValue (lists k) x\<rparr>) L"
      using ok by (simp add: kernel_ok_def fits_on_def)
    moreover have "unblock_loop core now sw k = Some (Inr (sw, k\<lparr>xNextTaskUnblockTime := xItemValue (lists k) x\<rparr>))"
      using ne True by (subst unblock_loop.simps) (simp add: hd t)
    ultimately show ?thesis using Cons.prems(2)
      by (intro exI [of _ sw] exI [of _ "k\<lparr>xNextTaskUnblockTime := xItemValue (lists k) x\<rparr>"] exI [of _ L])
        (simp add: same_but_lists_def)
  next
    case False
    obtain k1 L1 where k1: "unblock_task t k = Inr k1" "kernel_ok k1 L1" "L1 (pxDelayedTaskList k) = Some xs"
      "L1 (pxOverflowDelayedTaskList k) = L (pxOverflowDelayedTaskList k)"
      "pvContainer (lists k1) = woken (uxPriority k) {x} (pvContainer (lists k))"
      "xItemValue (lists k1) = xItemValue (lists k)" "same_but_lists k k1"
      "raised (uxPriority k) {x} (uxTopReadyPriority k) (uxTopReadyPriority k1)"
      using unblock_task_ok [OF ok c [unfolded t] Cons.prems(2)] dl t by auto
    note s = same_but_listsD [OF k1(7)]
    have "same_but_lists k (k2\<lparr>xNextTaskUnblockTime := xNextTaskUnblockTime k\<rparr>)"
      if "same_but_lists k1 (k2\<lparr>xNextTaskUnblockTime := xNextTaskUnblockTime k1\<rparr>)" for k2
      using that k1(7) s(11) by (auto simp: same_but_lists_def dest: arg_cong [where f = "\<lambda>x. x\<lparr>lists := lists k, uxTopReadyPriority := uxTopReadyPriority k\<rparr>"])
    moreover have "unblock_loop core now sw k =
        unblock_loop core now (sw \<or> uxPriority k1 t \<ge> uxPriority k1 (pxCurrentTCB k1 core)) k1"
      using ne False by (subst unblock_loop.simps) (simp add: hd t k1(1))
    moreover have "takeWhile (\<lambda>x. xItemValue (lists k) x \<le> now) (x # xs) = x # takeWhile (\<lambda>x. xItemValue (lists k) x \<le> now) xs"
      "dropWhile (\<lambda>x. xItemValue (lists k) x \<le> now) (x # xs) = dropWhile (\<lambda>x. xItemValue (lists k) x \<le> now) xs"
      using False by (simp_all add: not_less)
    ultimately show ?thesis
      using Cons.IH [of k1 L1 "sw \<or> uxPriority k1 t \<ge> uxPriority k1 (pxCurrentTCB k1 core)"] k1(2-6) s
        raised_more [OF k1(8)] by (auto simp: woken_more)
  qed
qed

section \<open>Sleeping tasks and the tick\<close>

text \<open>
  The delayed list holds wake times after the present one, in order, none before the time at which the
  kernel next looks at it; the other list holds those of the next round of the tick counter.
\<close>

definition timed :: "kernel \<Rightarrow> (kaddr \<rightharpoonup> kaddr list) \<Rightarrow> bool" where
  "timed k L \<longleftrightarrow> (\<exists>ds os. L (pxDelayedTaskList k) = Some ds \<and> L (pxOverflowDelayedTaskList k) = Some os \<and>
     sorted (map (xItemValue (lists k)) ds) \<and> sorted (map (xItemValue (lists k)) os) \<and>
     (\<forall>x \<in> set ds. xTickCount k < xItemValue (lists k) x \<and> xNextTaskUnblockTime k \<le> xItemValue (lists k) x) \<and>
     (\<forall>x \<in> set os. xItemValue (lists k) x < xTickCount k))"

lemma sorted_prefix_until:
  fixes n :: "'b::linorder"
  assumes "sorted (map v ds)"
  shows "set (takeWhile (\<lambda>x. v x \<le> n) ds) = {x \<in> set ds. v x \<le> n}"
    and "set (dropWhile (\<lambda>x. v x \<le> n) ds) = {x \<in> set ds. n < v x}"
    and "sorted (map v (dropWhile (\<lambda>x. v x \<le> n) ds))"
proof -
  show "sorted (map v (dropWhile (\<lambda>x. v x \<le> n) ds))" using assms by (induction ds) auto
  show "set (takeWhile (\<lambda>x. v x \<le> n) ds) = {x \<in> set ds. v x \<le> n}"
    using assms by (induction ds) (auto dest: order_trans)
  show "set (dropWhile (\<lambda>x. v x \<le> n) ds) = {x \<in> set ds. n < v x}"
    using assms by (induction ds) (auto simp: not_le dest: less_le_trans)
qed

lemma head_time_le: "sorted (map v xs) \<Longrightarrow> x \<in> set xs \<Longrightarrow> head_time v xs \<le> v x"
  by (cases xs) auto

lemma wake_due_ok:
  assumes ok: "kernel_ok k L" and L: "L (pxDelayedTaskList k) = Some ds" "L (pxOverflowDelayedTaskList k) = Some os"
    and s: "sorted (map (xItemValue (lists k)) ds)" "sorted (map (xItemValue (lists k)) os)"
    and ds: "\<And>x. x \<in> set ds \<Longrightarrow> xTickCount k \<le> xItemValue (lists k) x \<and> xNextTaskUnblockTime k \<le> xItemValue (lists k) x"
    and os: "\<And>x. x \<in> set os \<Longrightarrow> xItemValue (lists k) x < xTickCount k"
  shows "\<exists>sw k' L'. (if xTickCount k \<ge> xNextTaskUnblockTime k then or_blocks (unblock_loop core (xTickCount k) False k)
                     else Inr (False, k)) = Inr (sw, k') \<and> kernel_ok k' L' \<and> timed k' L' \<and>
    pvContainer (lists k') =
      woken (uxPriority k) {x \<in> set ds. xItemValue (lists k) x = xTickCount k} (pvContainer (lists k)) \<and>
    xItemValue (lists k') = xItemValue (lists k) \<and>
    same_but_lists k (k'\<lparr>xNextTaskUnblockTime := xNextTaskUnblockTime k\<rparr>) \<and>
    raised (uxPriority k) {x \<in> set ds. xItemValue (lists k) x = xTickCount k} (uxTopReadyPriority k) (uxTopReadyPriority k')"
proof (cases "xTickCount k \<ge> xNextTaskUnblockTime k")
  case False
  then have none: "{x \<in> set ds. xItemValue (lists k) x = xTickCount k} = {}" using ds by fastforce
  have "timed k L" using L s ds os False unfolding timed_def by fastforce
  then show ?thesis unfolding none using False ok
    by (intro exI [of _ False] exI [of _ k] exI [of _ L]) (simp add: same_but_lists_def)
next
  case True
  let ?v = "xItemValue (lists k)" and ?now = "xTickCount k"
  note p = sorted_prefix_until [OF s(1), of ?now]
  obtain sw k' L' where k': "unblock_loop core ?now False k = Some (Inr (sw, k'))" "kernel_ok k' L'"
    "L' (pxDelayedTaskList k) = Some (dropWhile (\<lambda>x. ?v x \<le> ?now) ds)" "L' (pxOverflowDelayedTaskList k) = Some os"
    "pvContainer (lists k') = woken (uxPriority k) (set (takeWhile (\<lambda>x. ?v x \<le> ?now) ds)) (pvContainer (lists k))"
    "xItemValue (lists k') = ?v" "same_but_lists k (k'\<lparr>xNextTaskUnblockTime := xNextTaskUnblockTime k\<rparr>)"
    "xNextTaskUnblockTime k' = head_time ?v (dropWhile (\<lambda>x. ?v x \<le> ?now) ds)"
    "raised (uxPriority k) (set (takeWhile (\<lambda>x. ?v x \<le> ?now) ds)) (uxTopReadyPriority k) (uxTopReadyPriority k')"
    using unblock_loop_ok [OF ok L(1), of core ?now False] L(2) by auto
  have same: "pxDelayedTaskList k' = pxDelayedTaskList k" "pxOverflowDelayedTaskList k' = pxOverflowDelayedTaskList k"
    "xTickCount k' = ?now" using same_but_listsD(4,5,7) [OF k'(7)] by simp_all
  have "timed k' L'"
    unfolding timed_def same k'(6,8)
    using k'(3,4) p(2,3) s(2) os head_time_le [OF p(3)] by auto
  moreover have "{x \<in> set ds. ?v x \<le> ?now} = {x \<in> set ds. ?v x = ?now}" using ds by (auto intro: antisym)
  ultimately show ?thesis using True k' p(1)
    by (intro exI [of _ sw] exI [of _ k'] exI [of _ L']) (simp add: or_blocks_def)
qed

text \<open>The sleeping tasks are those on either delayed list; \<open>due_items k n\<close> are the items that sleep until \<open>n\<close>.\<close>

definition sleeping :: "kernel \<Rightarrow> nat \<Rightarrow> bool" where
  "sleeping k t \<longleftrightarrow> pvContainer (lists k) (xGenericListItem t) \<in> {Some xDelayedTaskList1, Some xDelayedTaskList2}"

definition due_items :: "kernel \<Rightarrow> u32 \<Rightarrow> kaddr set" where
  "due_items k n = {x. pvContainer (lists k) x \<in> {Some xDelayedTaskList1, Some xDelayedTaskList2} \<and> xItemValue (lists k) x = n}"

definition same_but_time :: "kernel \<Rightarrow> kernel \<Rightarrow> bool" where
  "same_but_time k k' \<longleftrightarrow>
     k'\<lparr>lists := lists k, uxTopReadyPriority := uxTopReadyPriority k, xTickCount := xTickCount k,
        xNextTaskUnblockTime := xNextTaskUnblockTime k, xNumOfOverflows := xNumOfOverflows k,
        pxDelayedTaskList := pxDelayedTaskList k, pxOverflowDelayedTaskList := pxOverflowDelayedTaskList k\<rparr> = k"

lemma same_but_timeD:
  assumes "same_but_time k k'"
  shows "uxPriority k' = uxPriority k" "xCoreID k' = xCoreID k" "pxCurrentTCB k' = pxCurrentTCB k"
    "uxCurrentNumberOfTasks k' = uxCurrentNumberOfTasks k" "uxPendedTicks k' = uxPendedTicks k"
    "xYieldPending k' = xYieldPending k" "uxSchedulerSuspended k' = uxSchedulerSuspended k" "initialised k' = initialised k"
proof -
  have k: "k = k'\<lparr>lists := lists k, uxTopReadyPriority := uxTopReadyPriority k, xTickCount := xTickCount k,
        xNextTaskUnblockTime := xNextTaskUnblockTime k, xNumOfOverflows := xNumOfOverflows k,
        pxDelayedTaskList := pxDelayedTaskList k, pxOverflowDelayedTaskList := pxOverflowDelayedTaskList k\<rparr>"
    using assms by (simp add: same_but_time_def)
  show "uxPriority k' = uxPriority k" "xCoreID k' = xCoreID k" "pxCurrentTCB k' = pxCurrentTCB k"
    "uxCurrentNumberOfTasks k' = uxCurrentNumberOfTasks k" "uxPendedTicks k' = uxPendedTicks k"
    "xYieldPending k' = xYieldPending k" "uxSchedulerSuspended k' = uxSchedulerSuspended k" "initialised k' = initialised k"
    by (subst k; simp)+
qed

lemma same_but_time_lists:
  assumes "same_but_time k k2" "same_but_lists k2 (k3\<lparr>xNextTaskUnblockTime := n\<rparr>)"
  shows "same_but_time k k3"
proof -
  have "k3\<lparr>xNextTaskUnblockTime := n, lists := lists k2, uxTopReadyPriority := uxTopReadyPriority k2\<rparr> = k2"
    using assms(2) by (simp add: same_but_lists_def)
  then have "same_but_time k (k3\<lparr>xNextTaskUnblockTime := n, lists := lists k2, uxTopReadyPriority := uxTopReadyPriority k2\<rparr>)"
    using assms(1) by simp
  then show ?thesis by (simp add: same_but_time_def)
qed

text \<open>The change to the other list when the counter wraps round.\<close>

lemma less_inc: "w + 1 \<noteq> 0 \<Longrightarrow> w < w + 1" for w :: u32
  by (metis inc_less_eq_triv_imp max_word_wrap not_le_imp_less add.commute add.right_inverse)

lemma switch_lists_ok:
  assumes ok: "kernel_ok k L" and tm: "timed k L" and k1: "k1 = k\<lparr>xTickCount := xTickCount k + 1\<rparr>"
  shows "\<exists>k2 ds os. (if xTickCount k1 = 0 then taskSWITCH_DELAYED_LISTS k1 else Inr k1) = Inr k2 \<and> kernel_ok k2 L \<and>
    L (pxDelayedTaskList k2) = Some ds \<and> L (pxOverflowDelayedTaskList k2) = Some os \<and>
    sorted (map (xItemValue (lists k)) ds) \<and> sorted (map (xItemValue (lists k)) os) \<and>
    (\<forall>x \<in> set ds. xTickCount k2 \<le> xItemValue (lists k) x \<and> xNextTaskUnblockTime k2 \<le> xItemValue (lists k) x) \<and>
    (\<forall>x \<in> set os. xItemValue (lists k) x < xTickCount k2) \<and>
    due_items k (xTickCount k + 1) = {x \<in> set ds. xItemValue (lists k) x = xTickCount k + 1} \<and>
    lists k2 = lists k \<and> xTickCount k2 = xTickCount k + 1 \<and>
    xNumOfOverflows k2 = (if xTickCount k + 1 = 0 then xNumOfOverflows k + 1 else xNumOfOverflows k) \<and> same_but_time k k2 \<and>
    uxTopReadyPriority k2 = uxTopReadyPriority k"
proof -
  let ?v = "xItemValue (lists k)" and ?now = "xTickCount k + 1"
  obtain ds os where L: "L (pxDelayedTaskList k) = Some ds" "L (pxOverflowDelayedTaskList k) = Some os"
    and s: "sorted (map ?v ds)" "sorted (map ?v os)"
    and ds: "\<And>x. x \<in> set ds \<Longrightarrow> xTickCount k < ?v x \<and> xNextTaskUnblockTime k \<le> ?v x"
    and os: "\<And>x. x \<in> set os \<Longrightarrow> ?v x < xTickCount k"
    using tm unfolding timed_def by blast
  note hd = kernel_listsD [OF kernel_okD(1) [OF ok] L(1)] and ho = kernel_listsD [OF kernel_okD(1) [OF ok] L(2)]
  have due: "due_items k ?now = {x \<in> set ds \<union> set os. ?v x = ?now}"
    using holds_listD(4) [OF hd] holds_listD(4) [OF ho] kernel_okD(8) [OF ok] unfolding due_items_def by auto
  show ?thesis
  proof (cases "?now = 0")
    case False
    then have now: "xTickCount k < ?now" by (rule less_inc)
    then have "due_items k ?now = {x \<in> set ds. ?v x = ?now}" unfolding due using os by fastforce
    moreover have "kernel_ok k1 L" using ok by (simp add: k1 kernel_ok_def fits_on_def)
    moreover have "?now \<le> ?v x" if "x \<in> set ds" for x using ds [OF that] inc_le by blast
    moreover have "?v x < ?now" if "x \<in> set os" for x using os [OF that] now by (rule less_trans)
    ultimately show ?thesis using False L s ds
      by (intro exI [of _ k1] exI [of _ ds] exI [of _ os]) (simp add: k1 same_but_time_def)
  next
    case True
    then have "xTickCount k = - 1" by (rule max_word_wrap)
    then have "ds = []" using ds by (cases ds) (auto simp: not_less [symmetric])
    let ?k2 = "prvResetNextTaskUnblockTime (k1\<lparr>pxDelayedTaskList := pxOverflowDelayedTaskList k,
      pxOverflowDelayedTaskList := pxDelayedTaskList k, xNumOfOverflows := xNumOfOverflows k + 1\<rparr>)"
    have "taskSWITCH_DELAYED_LISTS k1 = Inr ?k2"
      using holds_list_empty [OF hd] \<open>ds = []\<close> by (simp add: taskSWITCH_DELAYED_LISTS_def k1)
    moreover have "kernel_ok ?k2 L"
      using ok by (auto simp: k1 kernel_ok_def fits_on_def prvResetNextTaskUnblockTime_def)
    moreover have "xNextTaskUnblockTime ?k2 = head_time ?v os"
    proof (cases os)
      case Nil
      then show ?thesis using holds_list_empty [OF ho] by (simp add: prvResetNextTaskUnblockTime_def k1)
    next
      case (Cons x xs)
      have "pvContainer (lists k) x = Some (pxOverflowDelayedTaskList k)" using holds_listD(4) [OF ho] Cons by simp
      then obtain t where "x = xGenericListItem t"
        using kernel_okD(4) [OF ok] kernel_okD(8) [OF ok] generic_not_event by (fastforce simp: fits_on_def)
      then show ?thesis using Cons holds_list_empty [OF ho] holds_list_head [of "lists k" _ x xs] ho kernel_okD(5) [OF ok]
        by (simp add: prvResetNextTaskUnblockTime_def k1)
    qed
    moreover have "due_items k ?now = {x \<in> set os. ?v x = ?now}" unfolding due using \<open>ds = []\<close> by simp
    ultimately show ?thesis using True L s \<open>ds = []\<close> head_time_le [OF s(2)]
      by (intro exI [of _ ?k2] exI [of _ os] exI [of _ ds]) (simp add: k1 same_but_time_def prvResetNextTaskUnblockTime_def)
  qed
qed

lemma tick_unsuspended_ok:
  assumes ok: "kernel_ok k L" and tm: "timed k L"
  shows "\<exists>sw k' L'. tick_unsuspended core k = Inr (sw, k') \<and> kernel_ok k' L' \<and> timed k' L' \<and>
    pvContainer (lists k') = woken (uxPriority k) (due_items k (xTickCount k + 1)) (pvContainer (lists k)) \<and>
    xItemValue (lists k') = xItemValue (lists k) \<and> xTickCount k' = xTickCount k + 1 \<and>
    xNumOfOverflows k' = (if xTickCount k + 1 = 0 then xNumOfOverflows k + 1 else xNumOfOverflows k) \<and> same_but_time k k' \<and>
    raised (uxPriority k) (due_items k (xTickCount k + 1)) (uxTopReadyPriority k) (uxTopReadyPriority k')"
proof -
  define k1 where "k1 = k\<lparr>xTickCount := xTickCount k + 1\<rparr>"
  obtain k2 ds os where k2: "(if xTickCount k1 = 0 then taskSWITCH_DELAYED_LISTS k1 else Inr k1) = Inr k2" "kernel_ok k2 L"
    "L (pxDelayedTaskList k2) = Some ds" "L (pxOverflowDelayedTaskList k2) = Some os"
    and s: "sorted (map (xItemValue (lists k)) ds)" "sorted (map (xItemValue (lists k)) os)"
    and ds: "\<forall>x \<in> set ds. xTickCount k2 \<le> xItemValue (lists k) x \<and> xNextTaskUnblockTime k2 \<le> xItemValue (lists k) x"
    and os: "\<forall>x \<in> set os. xItemValue (lists k) x < xTickCount k2"
    and due: "due_items k (xTickCount k + 1) = {x \<in> set ds. xItemValue (lists k) x = xTickCount k + 1}"
    and f: "lists k2 = lists k" "xTickCount k2 = xTickCount k + 1"
      "xNumOfOverflows k2 = (if xTickCount k + 1 = 0 then xNumOfOverflows k + 1 else xNumOfOverflows k)" "same_but_time k k2" "uxTopReadyPriority k2 = uxTopReadyPriority k"
    using switch_lists_ok [OF ok tm k1_def] by (elim exE conjE) (rule that)
  obtain sw k3 L' where k3: "(if xTickCount k2 \<ge> xNextTaskUnblockTime k2 then or_blocks (unblock_loop core (xTickCount k2) False k2)
      else Inr (False, k2)) = Inr (sw, k3)" "kernel_ok k3 L'" "timed k3 L'"
    "pvContainer (lists k3) = woken (uxPriority k2) {x \<in> set ds. xItemValue (lists k2) x = xTickCount k2} (pvContainer (lists k2))"
    "xItemValue (lists k3) = xItemValue (lists k2)" "same_but_lists k2 (k3\<lparr>xNextTaskUnblockTime := xNextTaskUnblockTime k2\<rparr>)"
    "raised (uxPriority k2) {x \<in> set ds. xItemValue (lists k2) x = xTickCount k2} (uxTopReadyPriority k2) (uxTopReadyPriority k3)"
    using wake_due_ok [OF k2(2-4), of core] s ds os by (auto simp only: f(1) elim!: that)
  note same_but_timeD(1) [OF f(4)] same_but_listsD(7,10) [OF k3(6)]
  moreover have "tick_unsuspended core k =
      Inr (sw \<or> uxNumberOfItems (lists k3) (pxReadyTasksLists (uxPriority k3 (pxCurrentTCB k3 core))) > 1, k3)"
  proof -
    have n: "xTickCount k1 = xTickCount k2" using f(2) by (simp add: k1_def)
    show ?thesis
      unfolding tick_unsuspended_def Let_def k1_def [symmetric] k2(1) run_bind.simps
      unfolding n k3(1) by simp
  qed
  ultimately show ?thesis
    using k3(2-5,7) f due same_but_time_lists [OF f(4) k3(6)] by (simp, blast)
qed

lemma xTaskIncrementTick_ok:
  assumes "kernel_ok k L" "timed k L" "uxSchedulerSuspended k 0 = 0"
  shows "\<exists>sw k' L'. xTaskIncrementTick 0 k = Inr (sw, k') \<and> kernel_ok k' L' \<and> timed k' L' \<and>
    pvContainer (lists k') = woken (uxPriority k) (due_items k (xTickCount k + 1)) (pvContainer (lists k)) \<and>
    xItemValue (lists k') = xItemValue (lists k) \<and> xTickCount k' = xTickCount k + 1 \<and>
    xNumOfOverflows k' = (if xTickCount k + 1 = 0 then xNumOfOverflows k + 1 else xNumOfOverflows k) \<and> same_but_time k k' \<and>
    raised (uxPriority k) (due_items k (xTickCount k + 1)) (uxTopReadyPriority k) (uxTopReadyPriority k')"
  using tick_unsuspended_ok [OF assms(1,2), of 0] assms(3) by (fastforce simp: xTaskIncrementTick_def)

text \<open>The ticks a sleeping task still has to wait, across the wrap-around of the counter.\<close>

definition remaining :: "kernel \<Rightarrow> nat \<Rightarrow> u32" where
  "remaining k t = xItemValue (lists k) (xGenericListItem t) - xTickCount k"

lemma remaining_one: "remaining k t = 1 \<longleftrightarrow> xItemValue (lists k) (xGenericListItem t) = xTickCount k + 1"
  unfolding remaining_def by (metis add.commute diff_add_cancel add_diff_cancel_left')

lemma due_items_sleeping: "xGenericListItem t \<in> due_items k (xTickCount k + 1) \<longleftrightarrow> sleeping k t \<and> remaining k t = 1"
  by (auto simp: due_items_def sleeping_def remaining_one)

lemma tick_effect:
  assumes "kernel_ok k L" "timed k L" "uxSchedulerSuspended k 0 = 0"
  shows "\<exists>sw k' L'. xTaskIncrementTick 0 k = Inr (sw, k') \<and> kernel_ok k' L' \<and> timed k' L' \<and>
    xTickCount k' = xTickCount k + 1 \<and> same_but_time k k' \<and>
    (\<forall>t. if sleeping k t \<and> remaining k t = 1
         then pvContainer (lists k') (xGenericListItem t) = Some (pxReadyTasksLists (uxPriority k t)) \<and>
              pvContainer (lists k') (xEventListItem t) = None
         else pvContainer (lists k') (xGenericListItem t) = pvContainer (lists k) (xGenericListItem t) \<and>
              pvContainer (lists k') (xEventListItem t) = pvContainer (lists k) (xEventListItem t)) \<and>
    (\<forall>t. remaining k' t = remaining k t - 1)"
proof -
  obtain sw k' L' where k': "xTaskIncrementTick 0 k = Inr (sw, k')" "kernel_ok k' L'" "timed k' L'"
    "pvContainer (lists k') = woken (uxPriority k) (due_items k (xTickCount k + 1)) (pvContainer (lists k))"
    "xItemValue (lists k') = xItemValue (lists k)" "xTickCount k' = xTickCount k + 1" "same_but_time k k'"
    using xTaskIncrementTick_ok [OF assms] by blast
  moreover have "remaining k' t = remaining k t - 1" for t unfolding remaining_def k'(5,6) by simp
  ultimately show ?thesis
    by (intro exI [of _ sw] exI [of _ k'] exI [of _ L']) (simp add: due_items_sleeping)
qed

fun ticks :: "nat \<Rightarrow> kernel \<Rightarrow> kernel run" where
  "ticks 0 k = Inr k"
| "ticks (Suc n) k = run_bind (ticks n k) (\<lambda>k'. run_bind (xTaskIncrementTick 0 k') (\<lambda>(_, k''). Inr k''))"

lemma unat_of_nat_le: "unat (of_nat n :: u32) \<le> n"
  by (simp add: unsigned_of_nat)

lemma ticks_sleeping:
  assumes "kernel_ok k L" "timed k L" "uxSchedulerSuspended k 0 = 0" "sleeping k t" "remaining k t \<noteq> 0" "n < unat (remaining k t)"
  shows "\<exists>k' L'. ticks n k = Inr k' \<and> kernel_ok k' L' \<and> timed k' L' \<and> uxSchedulerSuspended k' 0 = 0 \<and>
    sleeping k' t \<and> remaining k' t = remaining k t - of_nat n \<and> uxPriority k' = uxPriority k \<and>
    pvContainer (lists k') (xEventListItem t) = pvContainer (lists k) (xEventListItem t)"
  using assms(6)
proof (induction n)
  case (Suc n)
  then obtain k1 L1 where k1: "ticks n k = Inr k1" "kernel_ok k1 L1" "timed k1 L1" "uxSchedulerSuspended k1 0 = 0"
    "sleeping k1 t" "remaining k1 t = remaining k t - of_nat n" "uxPriority k1 = uxPriority k"
    "pvContainer (lists k1) (xEventListItem t) = pvContainer (lists k) (xEventListItem t)" by auto
  have "remaining k1 t \<noteq> 1"
  proof
    assume "remaining k1 t = 1"
    then have "remaining k t = of_nat (Suc n)" using k1(6) by (metis add.commute diff_add_cancel of_nat_Suc)
    then have "unat (remaining k t) \<le> Suc n" using unat_of_nat_le [of "Suc n"] by simp
    then show False using Suc.prems by simp
  qed
  then obtain sw k2 L2 where k2: "xTaskIncrementTick 0 k1 = Inr (sw, k2)" "kernel_ok k2 L2" "timed k2 L2" "same_but_time k1 k2"
    "pvContainer (lists k2) (xGenericListItem t) = pvContainer (lists k1) (xGenericListItem t)" "remaining k2 t = remaining k1 t - 1"
    "pvContainer (lists k2) (xEventListItem t) = pvContainer (lists k1) (xEventListItem t)"
    using tick_effect [OF k1(2-4)] by (metis (no_types, lifting))
  show ?case using k1 k2 same_but_timeD(1,7) [OF k2(4)] by (auto simp: sleeping_def intro!: exI [of _ L2])
qed (use assms in auto)

text \<open>The tick that completes the time wakes the task.\<close>

lemma ticks_wake:
  assumes ok: "kernel_ok k L" "timed k L" "uxSchedulerSuspended k 0 = 0" "sleeping k t" and d: "remaining k t = d" "0 < d"
  shows "\<exists>k'. ticks (unat d) k = Inr k' \<and> pvContainer (lists k') (xGenericListItem t) = Some (pxReadyTasksLists (uxPriority k t)) \<and>
    pvContainer (lists k') (xEventListItem t) = None"
proof -
  obtain n where n: "unat d = Suc n" using d(2) by (metis not0_implies_Suc unat_eq_0 word_gt_0)
  obtain k1 L1 where k1: "ticks n k = Inr k1" "kernel_ok k1 L1" "timed k1 L1" "uxSchedulerSuspended k1 0 = 0"
    "sleeping k1 t" "remaining k1 t = d - of_nat n" "uxPriority k1 = uxPriority k"
    using ticks_sleeping [OF ok, of n] d n by (auto simp: word_gt_0)
  have "d = of_nat (unat d)" by simp
  then have "d = of_nat (Suc n)" unfolding n .
  then have "remaining k1 t = 1" using k1(6) by simp
  then obtain sw k2 where "xTaskIncrementTick 0 k1 = Inr (sw, k2)"
    "pvContainer (lists k2) (xGenericListItem t) = Some (pxReadyTasksLists (uxPriority k1 t))"
    "pvContainer (lists k2) (xEventListItem t) = None"
    using tick_effect [OF k1(2-4)] k1(5) by (metis (no_types, lifting))
  then show ?thesis using n k1(1,7) by auto
qed

section \<open>Going to sleep\<close>

lemma kernel_ok_value:
  assumes "kernel_ok k L" "x \<notin> dom L"
  shows "kernel_ok (k\<lparr>lists := listSET_LIST_ITEM_VALUE x w (lists k)\<rparr>) L"
proof (rule kernel_ok_lists [OF assms(1)])
  show "kernel_lists (listSET_LIST_ITEM_VALUE x w (lists k)) L"
    using kernel_okD(1) [OF assms(1)] by (simp add: kernel_lists_value [OF assms(2)])
qed (simp_all add: listSET_LIST_ITEM_VALUE_def)

lemma same_but_time_from [simp]: "same_but_time (k\<lparr>lists := m\<rparr>) k' = same_but_time k k'"
  by (cases k; cases k') (auto simp: same_but_time_def)

lemma sorted_map_cong: "(\<And>x. x \<in> set xs \<Longrightarrow> f x = g x) \<Longrightarrow> sorted (map f xs) \<Longrightarrow> sorted (map g xs)"
  by (metis map_cong)

text \<open>The current task, off all lists of states, is put to sleep until \<open>w\<close>.\<close>

lemma prvAddCurrentTaskToDelayedList_ok:
  assumes ok: "kernel_ok k L" and tm: "timed k L" and t: "t = pxCurrentTCB k core" "task_address t"
    "pvContainer (lists k) (xGenericListItem t) = None" and w: "w \<noteq> xTickCount k"
  shows "\<exists>k' L'. prvAddCurrentTaskToDelayedList core w k = Inr k' \<and> kernel_ok k' L' \<and> timed k' L' \<and>
    sleeping k' t \<and> xItemValue (lists k') = (xItemValue (lists k))(xGenericListItem t := w) \<and>
    (\<forall>y. y \<noteq> xGenericListItem t \<longrightarrow> pvContainer (lists k') y = pvContainer (lists k) y) \<and>
    same_but_time k k' \<and> xTickCount k' = xTickCount k"
proof -
  let ?x = "xGenericListItem t" and ?v = "(xItemValue (lists k))(xGenericListItem t := w)"
  define k1 where "k1 = k\<lparr>lists := listSET_LIST_ITEM_VALUE ?x w (lists k)\<rparr>"
  have ok1: "kernel_ok k1 L" unfolding k1_def by (rule kernel_ok_value [OF ok items_no_lists(1) [OF ok]])
  have f: "pvContainer (lists k1) = pvContainer (lists k)" "xItemValue (lists k1) = ?v"
    by (simp_all add: k1_def listSET_LIST_ITEM_VALUE_def)
  obtain ds os where L: "L (pxDelayedTaskList k) = Some ds" "L (pxOverflowDelayedTaskList k) = Some os"
    and s: "sorted (map (xItemValue (lists k)) ds)" "sorted (map (xItemValue (lists k)) os)"
    and ds: "\<And>x. x \<in> set ds \<Longrightarrow> xTickCount k < xItemValue (lists k) x \<and> xNextTaskUnblockTime k \<le> xItemValue (lists k) x"
    and os: "\<And>x. x \<in> set os \<Longrightarrow> xItemValue (lists k) x < xTickCount k"
    using tm unfolding timed_def by blast
  note hd = kernel_listsD [OF kernel_okD(1) [OF ok] L(1)] and ho = kernel_listsD [OF kernel_okD(1) [OF ok] L(2)]
  have x: "?x \<notin> set ds" "?x \<notin> set os"
    using holds_listD(4) [OF hd, of ?x] holds_listD(4) [OF ho, of ?x] t(3) by auto
  have s': "sorted (map ?v ds)" "sorted (map ?v os)"
    using s x by (auto elim!: sorted_map_cong [rotated])
  have D: "pxDelayedTaskList k \<in> {xDelayedTaskList1, xDelayedTaskList2}" "pxOverflowDelayedTaskList k \<in> {xDelayedTaskList1, xDelayedTaskList2}"
    "pxDelayedTaskList k \<noteq> pxOverflowDelayedTaskList k" using kernel_okD(8) [OF ok] by auto
  have fits: "fits_on ?x l" if "l \<in> {xDelayedTaskList1, xDelayedTaskList2}" for l
    using that t(2) by (auto simp: fits_on_def k1_def)
  show ?thesis
  proof (cases "w < xTickCount k")
    case True
    obtain m where m: "list_insert (pxOverflowDelayedTaskList k) ?x k1 = Inr (k1\<lparr>lists := m\<rparr>)"
      "kernel_ok (k1\<lparr>lists := m\<rparr>) (L(pxOverflowDelayedTaskList k \<mapsto> place_by ?v ?x os))"
      "pvContainer m = (pvContainer (lists k))(?x := Some (pxOverflowDelayedTaskList k))" "xItemValue m = ?v"
      using list_insert_ok [OF ok1 _ fits [OF D(2)] L(2)] t(3) f by auto
    have "timed (k1\<lparr>lists := m\<rparr>) (L(pxOverflowDelayedTaskList k \<mapsto> place_by ?v ?x os))"
      unfolding timed_def using L D s' sorted_place_by [OF s'(2)] ds os x True m(4) by (auto simp: k1_def)
    moreover have "prvAddCurrentTaskToDelayedList core w k = Inr (k1\<lparr>lists := m\<rparr>)"
      using True m(1) t(1) by (simp add: prvAddCurrentTaskToDelayedList_def Let_def k1_def)
    ultimately show ?thesis using m(2-4) D
      by (intro exI [of _ "k1\<lparr>lists := m\<rparr>"] exI [of _ "L(pxOverflowDelayedTaskList k \<mapsto> place_by ?v ?x os)"])
        (auto simp: sleeping_def k1_def same_but_time_def)
  next
    case False
    then have now: "xTickCount k < w" using w by simp
    obtain m where m: "list_insert (pxDelayedTaskList k) ?x k1 = Inr (k1\<lparr>lists := m\<rparr>)"
      "kernel_ok (k1\<lparr>lists := m\<rparr>) (L(pxDelayedTaskList k \<mapsto> place_by ?v ?x ds))"
      "pvContainer m = (pvContainer (lists k))(?x := Some (pxDelayedTaskList k))" "xItemValue m = ?v"
      using list_insert_ok [OF ok1 _ fits [OF D(1)] L(1)] t(3) f by auto
    define k2 where "k2 = k1\<lparr>lists := m, xNextTaskUnblockTime := min w (xNextTaskUnblockTime k)\<rparr>"
    have "kernel_ok k2 (L(pxDelayedTaskList k \<mapsto> place_by ?v ?x ds))"
      using m(2) by (simp add: k2_def kernel_ok_def fits_on_def)
    moreover have "timed k2 (L(pxDelayedTaskList k \<mapsto> place_by ?v ?x ds))"
      unfolding timed_def using L D s' sorted_place_by [OF s'(1)] ds os x now m(4)
      by (auto simp: k2_def k1_def min_le_iff_disj)
    moreover have "prvAddCurrentTaskToDelayedList core w k = Inr k2"
    proof (cases "w < xNextTaskUnblockTime k")
      case True
      then show ?thesis using False m(1) t(1)
        by (simp add: prvAddCurrentTaskToDelayedList_def Let_def k1_def k2_def min_def)
    next
      case False
      then have "min w (xNextTaskUnblockTime k) = xNextTaskUnblockTime k" by simp
      then show ?thesis using False \<open>\<not> w < xTickCount k\<close> m(1) t(1)
        by (simp add: prvAddCurrentTaskToDelayedList_def Let_def k1_def k2_def del: not_less)
    qed
    ultimately show ?thesis using m(3,4) D
      by (intro exI [of _ k2] exI [of _ "L(pxDelayedTaskList k \<mapsto> place_by ?v ?x ds)"]) (auto simp: sleeping_def k2_def k1_def same_but_time_def)
  qed
qed

text \<open>A running task is on its ready list and on no event list.\<close>

definition running :: "kernel \<Rightarrow> nat \<Rightarrow> nat \<Rightarrow> bool" where
  "running k core t \<longleftrightarrow> t = pxCurrentTCB k core \<and>
     pvContainer (lists k) (xGenericListItem t) = Some (pxReadyTasksLists (uxPriority k t)) \<and>
     pvContainer (lists k) (xEventListItem t) = None"

lemma leave_ready_list:
  assumes ok: "kernel_ok k L" and tm: "timed k L" and c: "pvContainer (lists k) (xGenericListItem t) = Some (pxReadyTasksLists p)"
  shows "\<exists>m L'. list_remove (xGenericListItem t) k = Inr (k\<lparr>lists := m\<rparr>) \<and> kernel_ok (k\<lparr>lists := m\<rparr>) L' \<and>
    timed (k\<lparr>lists := m\<rparr>) L' \<and> pvContainer m = (pvContainer (lists k))(xGenericListItem t := None) \<and>
    xItemValue m = xItemValue (lists k) \<and> task_address t"
proof -
  note d = kernel_okD(4) [OF ok c]
  obtain xs where xs: "L (pxReadyTasksLists p) = Some xs" using d by blast
  obtain m where m: "list_remove (xGenericListItem t) k = Inr (k\<lparr>lists := m\<rparr>)"
    "kernel_ok (k\<lparr>lists := m\<rparr>) (L(pxReadyTasksLists p \<mapsto> remove1 (xGenericListItem t) xs))"
    "pvContainer m = (pvContainer (lists k))(xGenericListItem t := None)" "xItemValue m = xItemValue (lists k)"
    using list_remove_ok [OF ok c xs] by blast
  have "timed (k\<lparr>lists := m\<rparr>) (L(pxReadyTasksLists p \<mapsto> remove1 (xGenericListItem t) xs))"
    using tm m(4) kernel_okD(8) [OF ok] unfolding timed_def by auto
  then show ?thesis using m d by (auto simp: fits_on_def)
qed

lemma fall_asleep:
  assumes ok: "kernel_ok k L" "timed k L" and t: "t = pxCurrentTCB k core"
    and r: "pvContainer (lists k) (xGenericListItem t) = Some (pxReadyTasksLists p)" and w: "0 < w"
  shows "\<exists>m k' L'. list_remove (xGenericListItem t) k = Inr (k\<lparr>lists := m\<rparr>) \<and>
    prvAddCurrentTaskToDelayedList core (xTickCount k + w) (k\<lparr>lists := m\<rparr>) = Inr k' \<and>
    kernel_ok k' L' \<and> timed k' L' \<and> sleeping k' t \<and> remaining k' t = w \<and>
    (\<forall>y. y \<noteq> xGenericListItem t \<longrightarrow> pvContainer (lists k') y = pvContainer (lists k) y) \<and>
    same_but_time k k' \<and> xTickCount k' = xTickCount k"
proof -
  obtain m L1 where m: "list_remove (xGenericListItem t) k = Inr (k\<lparr>lists := m\<rparr>)" "kernel_ok (k\<lparr>lists := m\<rparr>) L1"
    "timed (k\<lparr>lists := m\<rparr>) L1" "pvContainer m = (pvContainer (lists k))(xGenericListItem t := None)"
    "task_address t"
    using leave_ready_list [OF ok r] by blast
  have p: "t = pxCurrentTCB (k\<lparr>lists := m\<rparr>) core" "task_address t"
    "pvContainer (lists (k\<lparr>lists := m\<rparr>)) (xGenericListItem t) = None" "xTickCount k + w \<noteq> xTickCount (k\<lparr>lists := m\<rparr>)"
    using t m(4,5) w by auto
  obtain k' L' where k': "prvAddCurrentTaskToDelayedList core (xTickCount k + w) (k\<lparr>lists := m\<rparr>) = Inr k'"
    "kernel_ok k' L'" "timed k' L'" "sleeping k' t"
    "xItemValue (lists k') = (xItemValue (lists (k\<lparr>lists := m\<rparr>)))(xGenericListItem t := xTickCount k + w)"
    "\<forall>y. y \<noteq> xGenericListItem t \<longrightarrow> pvContainer (lists k') y = pvContainer (lists (k\<lparr>lists := m\<rparr>)) y"
    "same_but_time (k\<lparr>lists := m\<rparr>) k'" "xTickCount k' = xTickCount (k\<lparr>lists := m\<rparr>)"
    using prvAddCurrentTaskToDelayedList_ok [OF m(2,3) p] by blast
  have "remaining k' t = w" using k'(5,8) by (simp add: remaining_def)
  then show ?thesis using m(1,4) k' by auto
qed

lemma vTaskDelay_ok:
  assumes ok: "kernel_ok k L" "timed k L" and r: "running k core t" and d: "0 < d" and s: "uxSchedulerSuspended k core = 0"
  shows "\<exists>k' L'. vTaskDelay core d k = Inr k' \<and> kernel_ok k' L' \<and> timed k' L' \<and> sleeping k' t \<and> remaining k' t = d \<and>
    (\<forall>y. y \<noteq> xGenericListItem t \<longrightarrow> pvContainer (lists k') y = pvContainer (lists k) y) \<and>
    same_but_time k k' \<and> xTickCount k' = xTickCount k"
proof -
  have t: "t = pxCurrentTCB k core" "pvContainer (lists k) (xGenericListItem t) = Some (pxReadyTasksLists (uxPriority k t))"
    using r by (auto simp: running_def)
  show ?thesis using fall_asleep [OF ok t d] d s t(1) by (auto simp: vTaskDelay_def)
qed

text \<open>A wait for an event: on the event list, and asleep until the time-out or suspended.\<close>

lemma block_current_ok:
  assumes ok: "kernel_ok k L" "timed k L" and t: "t = pxCurrentTCB k core"
    and r: "pvContainer (lists k) (xGenericListItem t) = Some (pxReadyTasksLists p)" and w: "0 < w"
  shows "\<exists>k' L'. block_current core w k = Inr k' \<and> kernel_ok k' L' \<and> timed k' L' \<and>
    (if w = portMAX_DELAY then pvContainer (lists k') (xGenericListItem t) = Some xSuspendedTaskList
     else sleeping k' t \<and> remaining k' t = w) \<and>
    (\<forall>y. y \<noteq> xGenericListItem t \<longrightarrow> pvContainer (lists k') y = pvContainer (lists k) y) \<and>
    same_but_time k k' \<and> xTickCount k' = xTickCount k"
proof -
  let ?x = "xGenericListItem t"
  obtain m L1 where m: "list_remove ?x k = Inr (k\<lparr>lists := m\<rparr>)" "kernel_ok (k\<lparr>lists := m\<rparr>) L1" "timed (k\<lparr>lists := m\<rparr>) L1"
    "pvContainer m = (pvContainer (lists k))(?x := None)" "task_address t"
    using leave_ready_list [OF ok r] by blast
  show ?thesis
  proof (cases "w = portMAX_DELAY")
    case True
    obtain xs where xs: "L1 xSuspendedTaskList = Some xs" using kernel_okD(3) [OF m(2)] by (auto simp: generic_lists_def)
    have "fits_on ?x xSuspendedTaskList" using m(5) by (auto simp: fits_on_def)
    then obtain xs' where e: "kernel_ok (k\<lparr>lists := vListInsertEnd xSuspendedTaskList ?x m\<rparr>) (L1(xSuspendedTaskList \<mapsto> xs'))"
      "pvContainer (vListInsertEnd xSuspendedTaskList ?x m) = (pvContainer m)(?x := Some xSuspendedTaskList)"
      "xItemValue (vListInsertEnd xSuspendedTaskList ?x m) = xItemValue m"
      using list_insert_end_ok [OF m(2) _ _ xs, of ?x] m(4) by auto
    have "timed (k\<lparr>lists := vListInsertEnd xSuspendedTaskList ?x m\<rparr>) (L1(xSuspendedTaskList \<mapsto> xs'))"
      using m(3) e(3) kernel_okD(8) [OF m(2)] unfolding timed_def by auto
    then show ?thesis using True m(1,4) e t by (auto simp: block_current_def same_but_time_def)
  next
    case False
    then show ?thesis using fall_asleep [OF ok t r w] t by (auto simp: block_current_def)
  qed
qed

section \<open>Waking by an event\<close>

text \<open>Whatever a task waits for, it can be made ready at any time; the sleeping tasks stay in order.\<close>

lemma timed_remove:
  assumes tm: "timed k L" and m: "xItemValue m = xItemValue (lists k)" and L: "L l = Some xs"
  shows "timed (k\<lparr>lists := m\<rparr>) (L(l \<mapsto> remove1 x xs))"
proof -
  have "\<And>y. y \<in> set (remove1 x xs) \<Longrightarrow> y \<in> set xs" using set_remove1_subset by fastforce
  then show ?thesis using assms unfolding timed_def by (auto simp: sorted_map_remove1 split: if_splits)
qed

lemma timed_other:
  assumes tm: "timed k L" and m: "xItemValue (lists k') = xItemValue (lists k)" and s: "same_but_lists k k'"
    and l: "l \<noteq> pxDelayedTaskList k" "l \<noteq> pxOverflowDelayedTaskList k"
  shows "timed k' (L(l := r))"
  using tm l same_but_listsD(4,5,7,11) [OF s] unfolding timed_def m by auto

lemma make_ready_ok:
  assumes ok: "kernel_ok k L" "timed k L" and c: "pvContainer (lists k) (xGenericListItem t) = Some l"
  shows "\<exists>k1 k' L'. list_remove (xGenericListItem t) k = Inr k1 \<and> k' = prvAddTaskToReadyList t k1 \<and> kernel_ok k' L' \<and> timed k' L' \<and>
    pvContainer (lists k') = (pvContainer (lists k))(xGenericListItem t := Some (pxReadyTasksLists (uxPriority k t))) \<and>
    same_but_lists k k' \<and> (\<forall>l \<in> event_lists. L' l = L l)"
proof -
  note d = kernel_okD(4) [OF ok(1) c]
  have l: "l \<in> generic_lists" and tN: "task_address t" using d by (auto simp: fits_on_def)
  obtain xs where xs: "L l = Some xs" using d by blast
  obtain m where m: "list_remove (xGenericListItem t) k = Inr (k\<lparr>lists := m\<rparr>)"
    "kernel_ok (k\<lparr>lists := m\<rparr>) (L(l \<mapsto> remove1 (xGenericListItem t) xs))"
    "pvContainer m = (pvContainer (lists k))(xGenericListItem t := None)" "xItemValue m = xItemValue (lists k)"
    using list_remove_ok [OF ok(1) c xs] by blast
  let ?k1 = "k\<lparr>lists := m\<rparr>" and ?r = "pxReadyTasksLists (uxPriority k t)" and ?L1 = "L(l \<mapsto> remove1 (xGenericListItem t) xs)"
  obtain ys where r: "kernel_ok (prvAddTaskToReadyList t ?k1) (?L1(?r \<mapsto> ys))"
    "pvContainer (lists (prvAddTaskToReadyList t ?k1)) = (pvContainer m)(xGenericListItem t := Some ?r)"
    "xItemValue (lists (prvAddTaskToReadyList t ?k1)) = xItemValue m" "same_but_lists ?k1 (prvAddTaskToReadyList t ?k1)"
    using prvAddTaskToReadyList_ok [OF m(2), of t] m(3) tN by auto
  have "timed ?k1 ?L1" by (rule timed_remove [OF ok(2) m(4) xs])
  then have "timed (prvAddTaskToReadyList t ?k1) (?L1(?r \<mapsto> ys))"
    using r(3,4) kernel_okD(8) [OF ok(1)] by (intro timed_other [where k = ?k1 and L = ?L1 and l = ?r]) auto
  moreover have "same_but_lists k (prvAddTaskToReadyList t ?k1)" by (simp add: same_but_lists_def prvAddTaskToReadyList_def)
  moreover have "?r \<in> generic_lists" using kernel_okD(7) [OF ok(1)] by simp
  then have "\<forall>l' \<in> event_lists. (?L1(?r \<mapsto> ys)) l' = L l'" using l generic_not_event by auto
  ultimately show ?thesis using m(1,3) r(1,2) by (intro exI [of _ ?k1] exI [of _ "prvAddTaskToReadyList t ?k1"] exI [of _ "?L1(?r \<mapsto> ys)"]) simp
qed

text \<open>The state after the end of a wake-up differs only in the flags for a context switch.\<close>

lemma after_wake_flags:
  "\<exists>f ys. snd (after_wake core t k) = k\<lparr>xYieldPending := f, yields_sent := ys\<rparr>"
proof -
  have "\<exists>ys. taskYIELD_OTHER_CORE core c p k = k\<lparr>yields_sent := ys\<rparr>" for c p
    by (cases c) (auto simp: taskYIELD_OTHER_CORE_def split: list.split intro: exI [of _ "yields_sent k"])
  then obtain ys where "taskYIELD_OTHER_CORE core (xCoreID k t) (uxPriority k t) k = k\<lparr>yields_sent := ys\<rparr>" by blast
  then have "snd (after_wake core t k) \<in>
    {k\<lparr>xYieldPending := (xYieldPending k)(core := True), yields_sent := yields_sent k\<rparr>,
     k\<lparr>xYieldPending := xYieldPending k, yields_sent := ys\<rparr>,
     k\<lparr>xYieldPending := xYieldPending k, yields_sent := yields_sent k\<rparr>}"
    by (simp add: after_wake_def)
  then show ?thesis by blast
qed

lemma after_wake_ok:
  assumes "after_wake core t k = (b, k')"
  shows "kernel_ok k L \<Longrightarrow> kernel_ok k' L" "timed k L \<Longrightarrow> timed k' L" "lists k' = lists k"
    "b \<longleftrightarrow> tskCAN_RUN_HERE core (xCoreID k t) \<and> uxPriority k t \<ge> uxPriority k (pxCurrentTCB k core)"
proof -
  obtain f ys where k': "k' = k\<lparr>xYieldPending := f, yields_sent := ys\<rparr>" using after_wake_flags [of core t k] assms by auto
  show "kernel_ok k L \<Longrightarrow> kernel_ok k' L" "timed k L \<Longrightarrow> timed k' L" "lists k' = lists k"
    by (simp_all add: k' kernel_ok_def fits_on_def timed_def)
  show "b \<longleftrightarrow> tskCAN_RUN_HERE core (xCoreID k t) \<and> uxPriority k t \<ge> uxPriority k (pxCurrentTCB k core)"
    using assms by (simp add: after_wake_def split: if_splits)
qed

lemma leave_event_list:
  assumes ok: "kernel_ok k L" "timed k L" and e: "L l = Some (xEventListItem t # es)" and l: "l \<in> event_lists"
  shows "\<exists>m. list_remove (xEventListItem t) k = Inr (k\<lparr>lists := m\<rparr>) \<and> kernel_ok (k\<lparr>lists := m\<rparr>) (L(l \<mapsto> es)) \<and>
    timed (k\<lparr>lists := m\<rparr>) (L(l \<mapsto> es)) \<and> pvContainer m = (pvContainer (lists k))(xEventListItem t := None)"
proof -
  have c: "pvContainer (lists k) (xEventListItem t) = Some l"
    using holds_listD(4) [OF kernel_listsD [OF kernel_okD(1) [OF ok(1)] e]] by simp
  have dl: "l \<noteq> pxDelayedTaskList k" "l \<noteq> pxOverflowDelayedTaskList k"
    using kernel_okD(8) [OF ok(1)] l generic_not_event by auto
  obtain m where m: "list_remove (xEventListItem t) k = Inr (k\<lparr>lists := m\<rparr>)" "kernel_ok (k\<lparr>lists := m\<rparr>) (L(l \<mapsto> es))"
    "pvContainer m = (pvContainer (lists k))(xEventListItem t := None)" "xItemValue m = xItemValue (lists k)"
    using list_remove_ok [OF ok(1) c e] by auto
  moreover have "timed (k\<lparr>lists := m\<rparr>) (L(l \<mapsto> es))"
    using m(4) dl by (intro timed_other [OF ok(2)]) (auto simp: same_but_lists_def)
  ultimately show ?thesis by blast
qed

lemma xTaskRemoveFromEventList_ok:
  assumes ok: "kernel_ok k L" "timed k L" and e: "L (event_list e) = Some (xEventListItem t # es)"
    and g: "pvContainer (lists k) (xGenericListItem t) = Some l" and s: "uxSchedulerSuspended k core = 0"
  shows "\<exists>b k' L'. xTaskRemoveFromEventList core (event_list e) k = Inr (b, k') \<and> kernel_ok k' L' \<and> timed k' L' \<and>
    L' (event_list e) = Some es \<and>
    pvContainer (lists k') = (pvContainer (lists k))
      (xEventListItem t := None, xGenericListItem t := Some (pxReadyTasksLists (uxPriority k t))) \<and>
    (b \<longleftrightarrow> tskCAN_RUN_HERE core (xCoreID k t) \<and> uxPriority k t \<ge> uxPriority k (pxCurrentTCB k core))"
proof -
  note h = kernel_listsD [OF kernel_okD(1) [OF ok(1)] e]
  have hd: "\<not> listLIST_IS_EMPTY (event_list e) (lists k)" "listGET_OWNER_OF_HEAD_ENTRY (event_list e) (lists k) = t"
    using holds_list_empty [OF h] holds_list_head [OF h] kernel_okD(6) [OF ok(1)] by simp_all
  obtain m where m: "list_remove (xEventListItem t) k = Inr (k\<lparr>lists := m\<rparr>)" "kernel_ok (k\<lparr>lists := m\<rparr>) (L(event_list e \<mapsto> es))"
    "timed (k\<lparr>lists := m\<rparr>) (L(event_list e \<mapsto> es))" "pvContainer m = (pvContainer (lists k))(xEventListItem t := None)"
    using leave_event_list [OF ok e] by auto
  obtain k1 k2 L' where k2: "list_remove (xGenericListItem t) (k\<lparr>lists := m\<rparr>) = Inr k1" "k2 = prvAddTaskToReadyList t k1"
    "kernel_ok k2 L'" "timed k2 L'" "pvContainer (lists k2) = (pvContainer m)(xGenericListItem t := Some (pxReadyTasksLists (uxPriority k t)))"
    "same_but_lists (k\<lparr>lists := m\<rparr>) k2" "\<forall>l \<in> event_lists. L' l = (L(event_list e \<mapsto> es)) l"
    using make_ready_ok [OF m(2,3), of t l] g m(4) by auto
  obtain b k' where aw: "after_wake core t k2 = (b, k')" by force
  have "xTaskRemoveFromEventList core (event_list e) k = Inr (b, k')"
    using hd m(1) k2(1,2) s aw by (simp add: xTaskRemoveFromEventList_def)
  then show ?thesis
    using after_wake_ok [OF aw] k2(3-5,7) m(4) same_but_listsD(1-3) [OF k2(6)]
    by (intro exI [of _ b] exI [of _ k'] exI [of _ L']) (simp add: event_lists_def)
qed

lemma list_calls_top:
  "list_remove x k = Inr k' \<Longrightarrow> uxTopReadyPriority k' = uxTopReadyPriority k"
  "list_insert l x k = Inr k' \<Longrightarrow> uxTopReadyPriority k' = uxTopReadyPriority k"
  by (auto simp: list_remove_def list_insert_def run_bind_Inr_iff split: option.splits)

lemma delayed_top:
  assumes "prvAddCurrentTaskToDelayedList core w k = Inr k'"
  shows "uxTopReadyPriority k' = uxTopReadyPriority k"
proof -
  let ?x = "xGenericListItem (pxCurrentTCB k core)"
  obtain l k1 where "list_insert l ?x (k\<lparr>lists := listSET_LIST_ITEM_VALUE ?x w (lists k)\<rparr>) = Inr k1"
    "k' = k1 \<or> k' = k1\<lparr>xNextTaskUnblockTime := w\<rparr>"
    using assms by (auto simp: prvAddCurrentTaskToDelayedList_def run_bind_Inr_iff Let_def split: if_splits)
  then show ?thesis using list_calls_top(2) [of l ?x] by fastforce
qed

lemma block_current_top:
  assumes "block_current core w k = Inr k'"
  shows "uxTopReadyPriority k' = uxTopReadyPriority k"
proof -
  obtain k1 where k1: "list_remove (xGenericListItem (pxCurrentTCB k core)) k = Inr k1"
    "uxTopReadyPriority k' = uxTopReadyPriority k1"
    using assms by (auto simp: block_current_def run_bind_Inr_iff dest: delayed_top split: if_splits)
  then show ?thesis using list_calls_top(1) by metis
qed

text \<open>The other way round: a running task goes to wait for an event.\<close>

lemma vTaskPlaceOnEventList_ok:
  assumes ok: "kernel_ok k L" "timed k L" and r: "running k core t" and w: "0 < w" and e: "L (event_list e) = Some es"
  shows "\<exists>k' L'. vTaskPlaceOnEventList core (event_list e) w k = Inr k' \<and> kernel_ok k' L' \<and> timed k' L' \<and>
    (if w = portMAX_DELAY then pvContainer (lists k') (xGenericListItem t) = Some xSuspendedTaskList
     else sleeping k' t \<and> remaining k' t = w) \<and>
    pvContainer (lists k') (xEventListItem t) = Some (event_list e) \<and> same_but_time k k' \<and> xTickCount k' = xTickCount k \<and>
    (\<forall>y. y \<noteq> xGenericListItem t \<and> y \<noteq> xEventListItem t \<longrightarrow> pvContainer (lists k') y = pvContainer (lists k) y) \<and>
    uxTopReadyPriority k' = uxTopReadyPriority k"
proof -
  let ?l = "event_list e" and ?x = "xEventListItem t"
  have t: "t = pxCurrentTCB k core" "pvContainer (lists k) (xGenericListItem t) = Some (pxReadyTasksLists (uxPriority k t))"
    "pvContainer (lists k) ?x = None" using r by (auto simp: running_def)
  have "fits_on ?x ?l" using kernel_okD(4) [OF ok(1) t(2)] by (auto simp: fits_on_def)
  then obtain m where m: "list_insert ?l ?x k = Inr (k\<lparr>lists := m\<rparr>)"
    "kernel_ok (k\<lparr>lists := m\<rparr>) (L(?l \<mapsto> place_by (xItemValue (lists k)) ?x es))"
    "pvContainer m = (pvContainer (lists k))(?x := Some ?l)" "xItemValue m = xItemValue (lists k)"
    using list_insert_ok [OF ok(1) t(3) _ e] by blast
  have tm: "timed (k\<lparr>lists := m\<rparr>) (L(?l \<mapsto> place_by (xItemValue (lists k)) ?x es))"
    using m(4) kernel_okD(8) [OF ok(1)] by (intro timed_other [OF ok(2)]) (auto simp: same_but_lists_def)
  have "t = pxCurrentTCB (k\<lparr>lists := m\<rparr>) core"
    "pvContainer (lists (k\<lparr>lists := m\<rparr>)) (xGenericListItem t) = Some (pxReadyTasksLists (uxPriority k t))"
    using t m(3) by auto
  then obtain k' L' where k': "block_current core w (k\<lparr>lists := m\<rparr>) = Inr k'" "kernel_ok k' L'" "timed k' L'"
    "if w = portMAX_DELAY then pvContainer (lists k') (xGenericListItem t) = Some xSuspendedTaskList
     else sleeping k' t \<and> remaining k' t = w"
    "\<forall>y. y \<noteq> xGenericListItem t \<longrightarrow> pvContainer (lists k') y = pvContainer m y"
    "same_but_time k k'" "xTickCount k' = xTickCount k"
    using block_current_ok [OF m(2) tm, of t core "uxPriority k t" w] w by auto
  then show ?thesis using m(1,3) t(1) block_current_top [OF k'(1)] by (auto simp: vTaskPlaceOnEventList_def)
qed

section \<open>Resuming the scheduler\<close>

lemma kernel_ok_fields [simp]:
  "kernel_ok (k\<lparr>uxPendedTicks := n\<rparr>) L = kernel_ok k L" "timed (k\<lparr>uxPendedTicks := n\<rparr>) L = timed k L"
  "kernel_ok (k\<lparr>xYieldPending := f\<rparr>) L = kernel_ok k L" "timed (k\<lparr>xYieldPending := f\<rparr>) L = timed k L"
  "kernel_ok (k\<lparr>uxSchedulerSuspended := g\<rparr>) L = kernel_ok k L" "timed (k\<lparr>uxSchedulerSuspended := g\<rparr>) L = timed k L"
  by (simp_all add: kernel_ok_def fits_on_def timed_def)

text \<open>One round of the loop over the pended ticks.\<close>

lemma pended_loop_step:
  assumes "uxPendedTicks k > 0" "xTaskIncrementTick core k = Inr (sw, k1)"
  shows "\<exists>f. pended_loop core k = pended_loop core (k1\<lparr>xYieldPending := f, uxPendedTicks := uxPendedTicks k1 - 1\<rparr>)"
proof -
  have "pended_loop core k = pended_loop core
      (k1\<lparr>xYieldPending := (if sw then (xYieldPending k1)(core := True) else xYieldPending k1), uxPendedTicks := uxPendedTicks k1 - 1\<rparr>)"
    using assms by (subst pended_loop.simps) simp
  then show ?thesis by blast
qed

lemma pended_loop_core_0:
  assumes "kernel_ok k L" "timed k L" "uxSchedulerSuspended k 0 = 0"
  shows "\<exists>k' L'. pended_loop 0 k = Some (Inr k') \<and> kernel_ok k' L' \<and> timed k' L' \<and>
    xTickCount k' = xTickCount k + uxPendedTicks k \<and> uxPendedTicks k' = 0 \<and> uxSchedulerSuspended k' = uxSchedulerSuspended k"
  using assms
proof (induction "unat (uxPendedTicks k)" arbitrary: k L)
  case 0
  then have "uxPendedTicks k = 0" by (simp add: unat_eq_0)
  then show ?case using 0 by (subst pended_loop.simps) auto
next
  case (Suc n)
  then have p: "uxPendedTicks k > 0" by (simp add: word_gt_0 flip: unat_eq_0)
  obtain sw k1 L1 where k1: "xTaskIncrementTick 0 k = Inr (sw, k1)" "kernel_ok k1 L1" "timed k1 L1"
    "xTickCount k1 = xTickCount k + 1" "same_but_time k k1"
    using tick_effect [OF Suc.prems] by blast
  obtain f where f: "pended_loop 0 k = pended_loop 0 (k1\<lparr>xYieldPending := f, uxPendedTicks := uxPendedTicks k1 - 1\<rparr>)"
    using pended_loop_step [OF p k1(1)] by blast
  note s = same_but_timeD(5,7) [OF k1(5)]
  have "n = unat (uxPendedTicks k - 1)" using Suc.hyps(2) p by (simp add: unat_minus_one word_gt_0)
  then show ?case
    using Suc.hyps(1) [of "k1\<lparr>xYieldPending := f, uxPendedTicks := uxPendedTicks k1 - 1\<rparr>" L1] Suc.prems(3) k1(2-4) s unfolding f
    by (simp add: algebra_simps)
qed

lemma pended_loop_other_core:
  assumes "core \<noteq> 0"
  shows "\<exists>f. pended_loop core k = Some (Inr (k\<lparr>xYieldPending := f, uxPendedTicks := 0\<rparr>))"
proof (induction "unat (uxPendedTicks k)" arbitrary: k)
  case 0
  then have "uxPendedTicks k = 0" by (simp add: unat_eq_0)
  then have "pended_loop core k = Some (Inr (k\<lparr>xYieldPending := xYieldPending k, uxPendedTicks := 0\<rparr>))"
    by (subst pended_loop.simps) simp
  then show ?case by blast
next
  case (Suc n)
  then have p: "uxPendedTicks k > 0" by (simp add: word_gt_0 flip: unat_eq_0)
  obtain f where f: "pended_loop core k = pended_loop core (k\<lparr>xYieldPending := f, uxPendedTicks := uxPendedTicks k - 1\<rparr>)"
    using pended_loop_step [OF p, of core True k] assms by (auto simp: xTaskIncrementTick_def)
  have "n = unat (uxPendedTicks k - 1)" using Suc.hyps(2) p by (simp add: unat_minus_one word_gt_0)
  then show ?case using Suc.hyps(1) [of "k\<lparr>xYieldPending := f, uxPendedTicks := uxPendedTicks k - 1\<rparr>"] unfolding f by simp
qed

lemma pending_loop_empty:
  "kernel_ok k L \<Longrightarrow> L (xPendingReadyList core) = Some [] \<Longrightarrow> pending_loop core k = Some (Inr k)"
  using holds_list_empty [OF kernel_listsD [OF kernel_okD(1)]] by (subst pending_loop.simps) simp

text \<open>The loop over the pending tasks stops at the first that may run at once.\<close>

lemma pending_loop_break:
  assumes ok: "kernel_ok k L" "timed k L" and c: "core < 2" and e: "L (xPendingReadyList core) = Some (xEventListItem t # es)"
    and g: "pvContainer (lists k) (xGenericListItem t) = Some l"
    and p: "tskCAN_RUN_HERE core (xCoreID k t)" "uxPriority k t \<ge> uxPriority k (pxCurrentTCB k core)"
  shows "\<exists>k' L'. pending_loop core k = Some (Inr k') \<and> kernel_ok k' L' \<and> timed k' L' \<and> L' (xPendingReadyList core) = Some es \<and>
    pvContainer (lists k') = (pvContainer (lists k))
      (xEventListItem t := None, xGenericListItem t := Some (pxReadyTasksLists (uxPriority k t))) \<and>
    xYieldPending k' core \<and> uxSchedulerSuspended k' = uxSchedulerSuspended k \<and> uxPendedTicks k' = uxPendedTicks k"
proof -
  let ?l = "xPendingReadyList core"
  have le: "?l \<in> event_lists" using c by (auto simp: event_lists_def less_2_cases_iff)
  note h = kernel_listsD [OF kernel_okD(1) [OF ok(1)] e]
  have hd: "\<not> listLIST_IS_EMPTY ?l (lists k)" "listGET_OWNER_OF_HEAD_ENTRY ?l (lists k) = t"
    using holds_list_empty [OF h] holds_list_head [OF h] kernel_okD(6) [OF ok(1)] by simp_all
  obtain m where m: "list_remove (xEventListItem t) k = Inr (k\<lparr>lists := m\<rparr>)" "kernel_ok (k\<lparr>lists := m\<rparr>) (L(?l \<mapsto> es))"
    "timed (k\<lparr>lists := m\<rparr>) (L(?l \<mapsto> es))" "pvContainer m = (pvContainer (lists k))(xEventListItem t := None)"
    using leave_event_list [OF ok e le] by auto
  obtain k1 k2 L' where k2: "list_remove (xGenericListItem t) (k\<lparr>lists := m\<rparr>) = Inr k1" "k2 = prvAddTaskToReadyList t k1"
    "kernel_ok k2 L'" "timed k2 L'" "pvContainer (lists k2) = (pvContainer m)(xGenericListItem t := Some (pxReadyTasksLists (uxPriority k t)))"
    "same_but_lists (k\<lparr>lists := m\<rparr>) k2" "\<forall>l \<in> event_lists. L' l = (L(?l \<mapsto> es)) l"
    using make_ready_ok [OF m(2,3), of t l] g m(4) by auto
  note s = same_but_listsD(1-3,8,12) [OF k2(6)]
  have "pending_loop core k = Some (Inr (k2\<lparr>xYieldPending := (xYieldPending k2)(core := True)\<rparr>))"
    using hd m(1) k2(1) p s(1-3) by (subst pending_loop.simps) (simp add: flip: k2(2))
  then show ?thesis using k2(3-5,7) m(4) s le
    by (intro exI [of _ "k2\<lparr>xYieldPending := (xYieldPending k2)(core := True)\<rparr>"] exI [of _ L']) simp
qed

section \<open>The kernel at start-up\<close>

lemma fold_vListInitialise:
  assumes "kernel_lists m L" "distinct ls" "set ls \<inter> dom L = {}" "\<And>x. pvContainer m x = None"
  shows "kernel_lists (fold vListInitialise ls m) (\<lambda>l. if l \<in> set ls then Some [] else L l) \<and>
    pvContainer (fold vListInitialise ls m) = pvContainer m \<and> pvOwner (fold vListInitialise ls m) = pvOwner m"
  using assms
proof (induction ls arbitrary: m L)
  case (Cons l ls)
  have f: "pvContainer (vListInitialise l m) = pvContainer m" "pvOwner (vListInitialise l m) = pvOwner m"
    by (simp_all add: vListInitialise_def)
  have "kernel_lists (vListInitialise l m) (L(l \<mapsto> []))"
    using Cons.prems by (intro kernel_lists_initialise) auto
  moreover have "distinct ls" "set ls \<inter> dom (L(l \<mapsto> [])) = {}" "\<And>x. pvContainer (vListInitialise l m) x = None"
    using Cons.prems f by auto
  moreover have "(\<lambda>l'. if l' \<in> set ls then Some [] else (L(l \<mapsto> [])) l') = (\<lambda>l'. if l' \<in> set (l # ls) then Some [] else L l')"
    by auto
  ultimately show ?case using Cons.IH [of "vListInitialise l m" "L(l \<mapsto> [])"] unfolding f by (simp only: fold_simps)
qed simp

definition no_tasks :: "kaddr \<rightharpoonup> kaddr list" where
  "no_tasks l = (if l \<in> generic_lists \<union> {xPendingReadyList 0, xPendingReadyList 1} then Some [] else None)"

lemma prvInitialiseTaskLists_ok:
  assumes c: "\<And>x. pvContainer (lists k) x = None"
    and o: "\<And>t. pvOwner (lists k) (xGenericListItem t) = t" "\<And>t. pvOwner (lists k) (xEventListItem t) = t"
    and p: "\<And>t. uxPriority k t < configMAX_PRIORITIES" and e: "initialised k = {}"
  shows "kernel_ok (prvInitialiseTaskLists k) no_tasks \<and> timed (prvInitialiseTaskLists k) no_tasks"
proof -
  let ?ls = "map pxReadyTasksLists [0..<configMAX_PRIORITIES] @ [xDelayedTaskList1, xDelayedTaskList2, xPendingReadyList 0,
    xPendingReadyList 1, xTasksWaitingTermination, xSuspendedTaskList]"
  have set: "set ?ls = generic_lists \<union> {xPendingReadyList 0, xPendingReadyList 1}"
    by (auto simp: generic_lists_def)
  have "distinct ?ls" by (auto simp: distinct_map inj_on_def)
  then have "kernel_lists (fold vListInitialise ?ls (lists k)) (\<lambda>l. if l \<in> set ?ls then Some [] else Map.empty l) \<and>
      pvContainer (fold vListInitialise ?ls (lists k)) = pvContainer (lists k) \<and>
      pvOwner (fold vListInitialise ?ls (lists k)) = pvOwner (lists k)"
    using c by (intro fold_vListInitialise) (auto simp: kernel_lists_def)
  moreover have "(\<lambda>l. if l \<in> set ?ls then Some [] else Map.empty l) = no_tasks" unfolding set no_tasks_def by auto
  moreover have "dom no_tasks = generic_lists \<union> {xPendingReadyList 0, xPendingReadyList 1}" by (auto simp: no_tasks_def split: if_splits)
  ultimately have "kernel_ok (prvInitialiseTaskLists k) no_tasks"
    using c o p e by (simp add: kernel_ok_def prvInitialiseTaskLists_def)
  moreover have "timed (prvInitialiseTaskLists k) no_tasks"
    by (simp add: timed_def prvInitialiseTaskLists_def no_tasks_def)
  ultimately show ?thesis ..
qed

definition new_event_list :: "nat \<Rightarrow> kernel \<Rightarrow> kernel" where
  "new_event_list e k = k\<lparr>lists := vListInitialise (event_list e) (lists k), initialised := insert e (initialised k)\<rparr>"

lemma initialise_event_list:
  assumes ok: "kernel_ok k L" "timed k L" and e: "L (event_list e) = None"
  shows "kernel_ok (new_event_list e k) (L(event_list e \<mapsto> [])) \<and> timed (new_event_list e k) (L(event_list e \<mapsto> []))"
proof -
  let ?m = "vListInitialise (event_list e) (lists k)"
  have no: "pvContainer (lists k) (event_list e) = None"
    using kernel_okD(4) [OF ok(1), of "event_list e"] by (cases "pvContainer (lists k) (event_list e)") (auto simp: fits_on_def)
  have "pvContainer (lists k) x \<noteq> Some (event_list e)" for x using kernel_okD(4) [OF ok(1), of x "event_list e"] e by auto
  then have "kernel_lists ?m (L(event_list e \<mapsto> []))" using kernel_okD(1) [OF ok(1)] e no by (intro kernel_lists_initialise) auto
  then have "kernel_ok (new_event_list e k) (L(event_list e \<mapsto> []))"
  proof -
    have f: "pvContainer ?m = pvContainer (lists k)" "pvOwner ?m = pvOwner (lists k)" by (simp_all add: vListInitialise_def)
    have "dom (L(event_list e \<mapsto> [])) = generic_lists \<union> {xPendingReadyList 0, xPendingReadyList 1} \<union> event_list ` insert e (initialised k)"
      using ok(1) unfolding kernel_ok_def by (metis Un_insert_right dom_fun_upd image_insert option.discI)
    moreover have "l \<in> dom (L(event_list e \<mapsto> [])) \<and> fits_on x l" if "pvContainer (lists k) x = Some l" for x l
      using kernel_okD(4) [OF ok(1) that] by auto
    ultimately show ?thesis
      using \<open>kernel_lists ?m _\<close> kernel_okD(5-8) [OF ok(1)] f unfolding kernel_ok_def by (simp add: new_event_list_def)
  qed
  moreover have "timed (new_event_list e k) (L(event_list e \<mapsto> []))"
  proof -
    obtain ds os where L: "L (pxDelayedTaskList k) = Some ds" "L (pxOverflowDelayedTaskList k) = Some os"
      and s: "sorted (map (xItemValue (lists k)) ds)" "sorted (map (xItemValue (lists k)) os)"
      and d: "\<forall>x \<in> set ds. xTickCount k < xItemValue (lists k) x \<and> xNextTaskUnblockTime k \<le> xItemValue (lists k) x"
        "\<forall>x \<in> set os. xItemValue (lists k) x < xTickCount k"
      using ok(2) unfolding timed_def by blast
    have "event_list e \<notin> set ds \<union> set os"
      using holds_listD(4) [OF kernel_listsD [OF kernel_okD(1) [OF ok(1)] L(1)], of "event_list e"]
        holds_listD(4) [OF kernel_listsD [OF kernel_okD(1) [OF ok(1)] L(2)], of "event_list e"] no by auto
    then have v: "\<And>x. x \<in> set ds \<Longrightarrow> xItemValue (lists k) x = xItemValue ?m x"
      "\<And>x. x \<in> set os \<Longrightarrow> xItemValue (lists k) x = xItemValue ?m x"
      by (auto simp: vListInitialise_def)
    then show ?thesis
      using L d sorted_map_cong [OF v(1) s(1)] sorted_map_cong [OF v(2) s(2)] kernel_okD(8) [OF ok(1)]
      unfolding timed_def new_event_list_def by auto
  qed
  ultimately show ?thesis ..
qed

text \<open>A kernel with one task, of priority 1, and one event list, just before the tick counter wraps round.\<close>

definition static_kernel :: kernel where
  "static_kernel =
     \<lparr>lists = \<lparr>pxNext = (\<lambda>x. x), pxPrevious = (\<lambda>x. x), xItemValue = (\<lambda>_. 0),
        pvOwner = (\<lambda>x. case x of xGenericListItem t \<Rightarrow> t | xEventListItem t \<Rightarrow> t | _ \<Rightarrow> 0),
        pvContainer = (\<lambda>_. None), pxIndex = (\<lambda>x. x), uxNumberOfItems = (\<lambda>_. 0)\<rparr>,
      uxPriority = (\<lambda>_. 1), xCoreID = (\<lambda>_. None), pxCurrentTCB = (\<lambda>_. 0),
      pxDelayedTaskList = xDelayedTaskList1, pxOverflowDelayedTaskList = xDelayedTaskList2,
      uxCurrentNumberOfTasks = 1, xTickCount = 0xfffffffe, uxTopReadyPriority = 0, uxPendedTicks = 0,
      xYieldPending = (\<lambda>_. False), xNumOfOverflows = 0, xNextTaskUnblockTime = portMAX_DELAY,
      uxSchedulerSuspended = (\<lambda>_. 0), yields_sent = [],
      uxBasePriority = (\<lambda>_. 1), uxMutexesHeld = (\<lambda>_. 0), initialised = {}\<rparr>"

definition booted :: kernel where
  "booted = new_event_list 7 (prvInitialiseTaskLists static_kernel)"

definition one_task :: kernel where
  "one_task = prvAddTaskToReadyList 0 booted"

lemma booted_ok: "kernel_ok booted (no_tasks(event_list 7 \<mapsto> [])) \<and> timed booted (no_tasks(event_list 7 \<mapsto> []))"
proof -
  have "kernel_ok (prvInitialiseTaskLists static_kernel) no_tasks \<and> timed (prvInitialiseTaskLists static_kernel) no_tasks"
    using prvInitialiseTaskLists_ok [of static_kernel] by (simp add: static_kernel_def configMAX_PRIORITIES_def)
  then show ?thesis unfolding booted_def by (intro initialise_event_list) (auto simp: no_tasks_def)
qed

lemma one_task_ok:
  "\<exists>L. kernel_ok one_task L \<and> timed one_task L \<and> running one_task 0 0 \<and> L (xPendingReadyList 0) = Some [] \<and>
     L (xPendingReadyList 1) = Some [] \<and> L (event_list 7) = Some [] \<and>
     (\<forall>p. 1 < p \<and> p < configMAX_PRIORITIES \<longrightarrow> L (pxReadyTasksLists p) = Some []) \<and>
     (\<forall>t. pvContainer (lists one_task) (xGenericListItem t) \<noteq> None \<longrightarrow> t = 0)"
proof -
  let ?r = "pxReadyTasksLists 1" and ?L = "no_tasks(event_list 7 \<mapsto> [])"
  note i = booted_ok [THEN conjunct1] booted_ok [THEN conjunct2]
  have f: "uxPriority booted = (\<lambda>_. 1)" "uxCurrentNumberOfTasks booted = 1" "pxCurrentTCB booted = (\<lambda>_. 0)"
    by (simp_all add: booted_def new_event_list_def prvInitialiseTaskLists_def static_kernel_def)
  have c: "pvContainer (lists booted) x = None" for x
  proof (cases "pvContainer (lists booted) x")
    case (Some l)
    then obtain xs where "?L l = Some xs" "x \<in> set xs"
      using kernel_okD(4) [OF i(1)] holds_listD(4) [OF kernel_listsD [OF kernel_okD(1) [OF i(1)]]] by blast
    then show ?thesis by (simp add: no_tasks_def split: if_splits)
  qed
  obtain xs where xs: "kernel_ok one_task (?L(?r \<mapsto> xs))"
    "pvContainer (lists one_task) = (pvContainer (lists booted))(xGenericListItem 0 := Some ?r)"
    "xItemValue (lists one_task) = xItemValue (lists booted)" "same_but_lists booted one_task"
    using prvAddTaskToReadyList_ok [OF i(1), of 0] c f by (auto simp: one_task_def)
  have "timed one_task (?L(?r \<mapsto> xs))"
    using i(2) xs(3,4) kernel_okD(8) [OF i(1)] by (intro timed_other [where k = booted and L = ?L and l = ?r]) auto
  then show ?thesis
    using xs(1,2) c f same_but_listsD(1,3) [OF xs(4)]
    by (intro exI [of _ "?L(?r \<mapsto> xs)"]) (simp add: running_def no_tasks_def)
qed

lemma one_task_fields [simp]:
  "uxSchedulerSuspended one_task = (\<lambda>_. 0)" "uxPriority one_task = (\<lambda>_. 1)" "xTickCount one_task = 0xfffffffe"
  "uxCurrentNumberOfTasks one_task = 1" "uxPendedTicks one_task = 0" "xNumOfOverflows one_task = 0"
  "uxTopReadyPriority one_task = 1" "xCoreID one_task = (\<lambda>_. None)" "initialised one_task = {7}"
  by (simp_all add: one_task_def booted_def new_event_list_def prvAddTaskToReadyList_def prvInitialiseTaskLists_def static_kernel_def)

section \<open>Properties\<close>



text \<open>C4. The two delayed lists implement a table of sleeping tasks with the ticks each has left: a tick
  takes one off every entry, makes the tasks whose time is over ready and takes them off the event list they
  wait on, and touches no other task; the loop over the delayed list ends and the assertion at the
  wrap-around of the counter, that the old list is empty, holds.\<close>

theorem tick_wakes_due_tasks:
  assumes "kernel_ok k L" "timed k L" "uxSchedulerSuspended k 0 = 0"
  shows "\<exists>sw k' L'. xTaskIncrementTick 0 k = Inr (sw, k') \<and> kernel_ok k' L' \<and> timed k' L' \<and>
    xTickCount k' = xTickCount k + 1 \<and>
    (\<forall>t. if sleeping k t \<and> remaining k t = 1
         then pvContainer (lists k') (xGenericListItem t) = Some (pxReadyTasksLists (uxPriority k t)) \<and>
              pvContainer (lists k') (xEventListItem t) = None
         else pvContainer (lists k') (xGenericListItem t) = pvContainer (lists k) (xGenericListItem t) \<and>
              pvContainer (lists k') (xEventListItem t) = pvContainer (lists k) (xEventListItem t)) \<and>
    (\<forall>t. remaining k' t = remaining k t - 1)"
  using tick_effect [OF assms] by blast

theorem tick_wakes_due_tasks_witness:
  "\<exists>sw k'. xTaskIncrementTick 0 one_task = Inr (sw, k') \<and> xTickCount k' = 0xffffffff"
  using one_task_ok tick_wakes_due_tasks [of one_task] by fastforce

text \<open>A wait for an event with a time limit ends on time if the event does not come: the task is on the event
  list and asleep through every tick before the limit, and with the tick that reaches it, it is ready again
  and no longer on the event list.\<close>

theorem event_wait_times_out:
  assumes "kernel_ok k L" "timed k L" "running k 0 t" "0 < w" "w \<noteq> portMAX_DELAY" "uxSchedulerSuspended k 0 = 0"
    "L (event_list e) = Some es"
  shows "\<exists>k0. vTaskPlaceOnEventList 0 (event_list e) w k = Inr k0 \<and>
    (\<forall>n < unat w. \<exists>k'. ticks n k0 = Inr k' \<and> sleeping k' t \<and> pvContainer (lists k') (xEventListItem t) = Some (event_list e)) \<and>
    (\<exists>k'. ticks (unat w) k0 = Inr k' \<and> pvContainer (lists k') (xGenericListItem t) = Some (pxReadyTasksLists (uxPriority k t)) \<and>
       pvContainer (lists k') (xEventListItem t) = None)"
proof -
  obtain k0 L0 where k0: "vTaskPlaceOnEventList 0 (event_list e) w k = Inr k0" "kernel_ok k0 L0" "timed k0 L0" "sleeping k0 t"
    "remaining k0 t = w" "pvContainer (lists k0) (xEventListItem t) = Some (event_list e)" "same_but_time k k0"
    using vTaskPlaceOnEventList_ok [OF assms(1-4,7)] assms(5) by auto
  have s0: "uxSchedulerSuspended k0 0 = 0" "uxPriority k0 = uxPriority k"
    using same_but_timeD(1,7) [OF k0(7)] assms(6) by simp_all
  have w: "remaining k0 t \<noteq> 0" using assms(4) k0(5) by auto
  have "\<exists>k'. ticks n k0 = Inr k' \<and> sleeping k' t \<and> pvContainer (lists k') (xEventListItem t) = Some (event_list e)" if "n < unat w" for n
    using ticks_sleeping [OF k0(2,3) s0(1) k0(4) w, of n] that unfolding k0(5) k0(6) by blast
  then show ?thesis using k0(1) ticks_wake [OF k0(2,3) s0(1) k0(4,5) assms(4)] s0(2) by auto
qed

theorem event_wait_times_out_witness:
  "\<exists>k0 k'. vTaskPlaceOnEventList 0 (event_list 7) 5 one_task = Inr k0 \<and> ticks 5 k0 = Inr k' \<and>
     pvContainer (lists k') (xGenericListItem 0) = Some (pxReadyTasksLists 1) \<and> pvContainer (lists k') (xEventListItem 0) = None"
proof -
  obtain L where "kernel_ok one_task L" "timed one_task L" "running one_task 0 0" "L (event_list 7) = Some []" using one_task_ok by blast
  moreover have "(5 :: u32) \<noteq> portMAX_DELAY" by (simp add: portMAX_DELAY_def)
  ultimately show ?thesis using event_wait_times_out [of one_task L 0 5 7 "[]"] by auto
qed

text \<open>Resuming the scheduler on core 0 makes up for the ticks that were pended while it was suspended: the
  tick count does not slip.\<close>

theorem resume_replays_ticks:
  assumes "kernel_ok k L" "timed k L" "L (xPendingReadyList 0) = Some []" "uxSchedulerSuspended k 0 = 1" "uxCurrentNumberOfTasks k > 0"
  shows "\<exists>b k' L'. xTaskResumeAll 0 k = Inr (b, k') \<and> kernel_ok k' L' \<and> timed k' L' \<and> uxSchedulerSuspended k' 0 = 0 \<and>
    xTickCount k' = xTickCount k + uxPendedTicks k \<and> uxPendedTicks k' = 0"
proof -
  let ?k1 = "k\<lparr>uxSchedulerSuspended := (uxSchedulerSuspended k)(0 := 0)\<rparr>"
  have "pending_loop 0 ?k1 = Some (Inr ?k1)" using assms(1,3) by (intro pending_loop_empty [where L = L]) simp_all
  then show ?thesis
    using pended_loop_core_0 [of ?k1 L] assms by (fastforce simp: xTaskResumeAll_def or_blocks_def)
qed

theorem resume_replays_ticks_witness:
  "\<exists>b k'. xTaskResumeAll 0 (vTaskSuspendAll 0 one_task\<lparr>uxPendedTicks := 3\<rparr>) = Inr (b, k') \<and> xTickCount k' = 1"
  using one_task_ok resume_replays_ticks [of "vTaskSuspendAll 0 one_task\<lparr>uxPendedTicks := 3\<rparr>"]
  by (fastforce simp: vTaskSuspendAll_def)

text \<open>Resuming the scheduler on core 1 throws the pended ticks away: \<^verbatim>\<open>xTaskIncrementTick\<close> does nothing
  there, and the loop counts \<^verbatim>\<open>uxPendedTicks\<close>, which both cores share, down to zero all the same. The tick
  count is then behind by that many ticks.\<close>

theorem resume_on_core_1_drops_ticks:
  assumes "kernel_ok k L" "L (xPendingReadyList 1) = Some []" "uxSchedulerSuspended k 1 = 1" "uxCurrentNumberOfTasks k > 0"
  shows "\<exists>b k'. xTaskResumeAll 1 k = Inr (b, k') \<and> xTickCount k' = xTickCount k \<and> uxPendedTicks k' = 0"
proof -
  let ?k1 = "k\<lparr>uxSchedulerSuspended := (uxSchedulerSuspended k)(1 := 0)\<rparr>"
  have p: "pending_loop 1 ?k1 = Some (Inr ?k1)" using assms(1,2) by (intro pending_loop_empty [where L = L]) simp_all
  obtain f where "pended_loop 1 ?k1 = Some (Inr (?k1\<lparr>xYieldPending := f, uxPendedTicks := 0\<rparr>))"
    using pended_loop_other_core [of 1 ?k1] by auto
  then show ?thesis using p assms(3,4) by (simp add: xTaskResumeAll_def or_blocks_def)
qed

theorem resume_on_core_1_drops_ticks_witness:
  "\<exists>b k'. xTaskResumeAll 1 (vTaskSuspendAll 1 one_task\<lparr>uxPendedTicks := 3\<rparr>) = Inr (b, k') \<and> xTickCount k' = 0xfffffffe \<and>
     uxPendedTicks k' = 0"
  using one_task_ok resume_on_core_1_drops_ticks [of "vTaskSuspendAll 1 one_task\<lparr>uxPendedTicks := 3\<rparr>"]
  by (fastforce simp: vTaskSuspendAll_def)

text \<open>When the scheduler is resumed, only the tasks up to the first that may run at once are moved from the
  pending list to their ready lists: the loop stops there, and the rest stay on the pending list, asleep,
  although the scheduler runs again.\<close>

theorem resume_leaves_pending_tasks:
  assumes "kernel_ok k L" "timed k L" "core < 2" "L (xPendingReadyList core) = Some (xEventListItem t # es)"
    "pvContainer (lists k) (xGenericListItem t) = Some l" "tskCAN_RUN_HERE core (xCoreID k t)"
    "uxPriority k t \<ge> uxPriority k (pxCurrentTCB k core)" "uxSchedulerSuspended k core = 1"
    "uxCurrentNumberOfTasks k > 0" "uxPendedTicks k = 0"
  shows "\<exists>k' L'. xTaskResumeAll core k = Inr (True, k') \<and> kernel_ok k' L' \<and> uxSchedulerSuspended k' core = 0 \<and>
    pvContainer (lists k') (xGenericListItem t) = Some (pxReadyTasksLists (uxPriority k t)) \<and>
    L' (xPendingReadyList core) = Some es \<and>
    (\<forall>u. u \<noteq> t \<longrightarrow> pvContainer (lists k') (xGenericListItem u) = pvContainer (lists k) (xGenericListItem u))"
proof -
  let ?k1 = "k\<lparr>uxSchedulerSuspended := (uxSchedulerSuspended k)(core := 0)\<rparr>"
  obtain k2 L' where k2: "pending_loop core ?k1 = Some (Inr k2)" "kernel_ok k2 L'" "L' (xPendingReadyList core) = Some es"
    "pvContainer (lists k2) = (pvContainer (lists k))
      (xEventListItem t := None, xGenericListItem t := Some (pxReadyTasksLists (uxPriority k t)))"
    "xYieldPending k2 core" "uxSchedulerSuspended k2 = (uxSchedulerSuspended k)(core := 0)" "uxPendedTicks k2 = 0"
    using pending_loop_break [of ?k1 L core t es l] assms by auto
  have "pended_loop core k2 = Some (Inr k2)" using k2(7) by (subst pended_loop.simps) simp
  then have "xTaskResumeAll core k = Inr (True, k2)"
    using k2(1,5) assms(8,9) by (simp add: xTaskResumeAll_def or_blocks_def)
  then show ?thesis using k2 by auto
qed

text \<open>
  The clock of the kernel, as a number of ticks since the start: the counter is its remainder, the number of
  overflows its quotient by $2^{32}$.
\<close>

definition clock :: "kernel \<Rightarrow> nat \<Rightarrow> bool" where
  "clock k T \<longleftrightarrow> xTickCount k = of_nat T \<and> xNumOfOverflows k = of_nat (T div 2 ^ 32)"

lemma unat_of_nat_mod: "unat (of_nat T :: u32) = T mod 2 ^ 32"
  by (simp add: unsigned_of_nat take_bit_eq_mod)

lemma clock_tick:
  assumes "kernel_ok k L" "timed k L" "uxSchedulerSuspended k 0 = 0" "clock k T"
  shows "\<exists>sw k'. xTaskIncrementTick 0 k = Inr (sw, k') \<and> clock k' (T + 1)"
proof -
  obtain sw k' where k': "xTaskIncrementTick 0 k = Inr (sw, k')" "xTickCount k' = xTickCount k + 1"
    "xNumOfOverflows k' = (if xTickCount k + 1 = 0 then xNumOfOverflows k + 1 else xNumOfOverflows k)"
    using xTaskIncrementTick_ok [OF assms(1-3)] by blast
  have "(of_nat (T + 1) :: u32) = 0 \<longleftrightarrow> (T + 1) mod 2 ^ 32 = 0"
    using unat_of_nat_mod [of "T + 1"] by (metis unat_eq_0)
  moreover have "(T + 1) div 2 ^ 32 = (if (T + 1) mod 2 ^ 32 = 0 then T div 2 ^ 32 + 1 else T div 2 ^ 32)"
    using div_Suc [of T "2 ^ 32"] by simp
  ultimately show ?thesis using k' assms(4) by (auto simp: clock_def add.commute)
qed

lemma clock_words:
  assumes "clock k0 T0" "clock k T1" "T0 \<le> T1" "T1 - T0 < 2 * 2 ^ 32 - T0 mod 2 ^ 32"
  shows "xTickCount k - xTickCount k0 = of_nat (T1 - T0)"
    and "xNumOfOverflows k \<noteq> xNumOfOverflows k0 \<and> xTickCount k0 \<le> xTickCount k \<longleftrightarrow> 2 ^ 32 \<le> T1 - T0"
proof -
  define N e q0 t q1 where defs: "N = (2 ^ 32 :: nat)" "e = T0 mod N" "q0 = T0 div N" "t = T1 mod N" "q1 = T1 div N"
  have T: "T0 = q0 * N + e" "T1 = q1 * N + t" "e < N" "t < N" by (auto simp: defs)
  show "xTickCount k - xTickCount k0 = of_nat (T1 - T0)" using assms(1-3) by (simp add: clock_def of_nat_diff)
  have "q1 * N + t < (q0 + 2) * N" using assms(3,4) T(1-3) unfolding defs(2) [symmetric] defs(1) [symmetric] by simp
  then have "q1 * N < (q0 + 2) * N" by linarith
  then have "q1 < q0 + 2" by (metis mult_less_cancel2)
  moreover have "q0 \<le> q1" unfolding defs using assms(3) by (rule div_le_mono)
  ultimately have q: "q1 = q0 \<or> q1 = q0 + 1" by linarith
  have "(of_nat q0 :: u32) \<noteq> of_nat (q0 + 1)" by simp
  then have ov: "xNumOfOverflows k \<noteq> xNumOfOverflows k0 \<longleftrightarrow> q1 = q0 + 1"
    using assms(1,2) q unfolding clock_def defs(3,5) [symmetric] by (auto simp: defs)
  have "xTickCount k0 \<le> xTickCount k \<longleftrightarrow> e \<le> t"
    using assms(1,2) by (simp add: clock_def word_le_nat_alt unat_of_nat_mod defs)
  then show "xNumOfOverflows k \<noteq> xNumOfOverflows k0 \<and> xTickCount k0 \<le> xTickCount k \<longleftrightarrow> 2 ^ 32 \<le> T1 - T0"
    using ov q T unfolding defs(1) [symmetric] by (auto simp: algebra_simps)
qed

text \<open>C32. The time-out of a blocking call is exact: between a call of \<^verbatim>\<open>vTaskSetTimeOutState\<close> at time \<open>T0\<close> and a
  check at \<open>T1\<close>, \<^verbatim>\<open>xTaskCheckForTimeOut\<close> reports a time-out if and only if the ticks to wait are over, and
  otherwise leaves the ticks that remain, although it sees the time only through a 32-bit counter and the
  number of its overflows; this holds until the counter passes zero for the second time.\<close>

theorem timeout_exact:
  assumes "clock k0 T0" "clock k T1" "T0 \<le> T1" "T1 - T0 < 2 * 2 ^ 32 - T0 mod 2 ^ 32" "wait \<noteq> portMAX_DELAY"
  shows "xTaskCheckForTimeOut (vTaskSetTimeOutState k0) wait k =
    (if unat wait \<le> T1 - T0 then (True, vTaskSetTimeOutState k0, wait)
     else (False, vTaskSetTimeOutState k, wait - of_nat (T1 - T0)))"
proof (cases "2 ^ 32 \<le> T1 - T0")
  case True
  then have "xNumOfOverflows k \<noteq> xNumOfOverflows k0" "xTickCount k0 \<le> xTickCount k" using clock_words(2) [OF assms(1-4)] by auto
  moreover have "unat wait \<le> T1 - T0" using True unsigned_less [where ?'a = nat, of wait] by simp
  ultimately show ?thesis using assms(5) by (simp add: xTaskCheckForTimeOut_def vTaskSetTimeOutState_def)
next
  case False
  have c: "\<not> (xNumOfOverflows k \<noteq> xNumOfOverflows k0 \<and> xTickCount k0 \<le> xTickCount k)"
    using clock_words(2) [OF assms(1-4)] False by blast
  have d: "xTickCount k - xTickCount k0 = of_nat (T1 - T0)" by (rule clock_words(1) [OF assms(1-4)])
  have "xTickCount k - xTickCount k0 < wait \<longleftrightarrow> T1 - T0 < unat wait"
    using False unfolding d by (simp add: word_less_nat_alt unat_of_nat_mod)
  then show ?thesis using c d assms(5) by (auto simp: xTaskCheckForTimeOut_def vTaskSetTimeOutState_def)
qed

theorem timeout_exact_witness:
  "xTaskCheckForTimeOut (vTaskSetTimeOutState one_task) 5 (one_task\<lparr>xTickCount := 1, xNumOfOverflows := 1\<rparr>) =
     (False, \<lparr>xOverflowCount = 1, xTimeOnEntering = 1\<rparr>, 2)"
proof -
  have "clock one_task 0xfffffffe" "clock (one_task\<lparr>xTickCount := 1, xNumOfOverflows := 1\<rparr>) 0x100000001"
    by (simp_all add: clock_def)
  moreover have "(5 :: u32) \<noteq> portMAX_DELAY" by (simp add: portMAX_DELAY_def)
  ultimately show ?thesis
    using timeout_exact [of one_task "0xfffffffe" "one_task\<lparr>xTickCount := 1, xNumOfOverflows := 1\<rparr>" "0x100000001" 5]
    by (simp add: vTaskSetTimeOutState_def)
qed

end
