(* ===== verification/RTOS_Event_Groups.thy ===== *)
theory RTOS_Event_Groups
  imports RTOS_Queue RTOS_Tasks
begin

text \<open>
  Event groups, \<^verbatim>\<open>components/freertos/event_groups.c\<close>, through which the Wi-Fi callbacks tell the
  rest of the firmware about the connection. A group is its bits and the tasks that wait, each
  with the item value of its event list item, in the order in which they were placed on the
  list (\<^verbatim>\<open>vListInsertEnd\<close> on a list whose index stays at the end marker). Of the scheduler only
  the effect on these item values is modelled: waking a task is handing it its value.
\<close>

section \<open>Data\<close>

definition eventCLEAR_EVENTS_ON_EXIT_BIT :: u32 where "eventCLEAR_EVENTS_ON_EXIT_BIT = 0x01000000"
definition eventUNBLOCKED_DUE_TO_BIT_SET :: u32 where "eventUNBLOCKED_DUE_TO_BIT_SET = 0x02000000"
definition eventWAIT_FOR_ALL_BITS :: u32 where "eventWAIT_FOR_ALL_BITS = 0x04000000"
definition eventEVENT_BITS_CONTROL_BYTES :: u32 where "eventEVENT_BITS_CONTROL_BYTES = 0xff000000"

lemmas event_flags = eventCLEAR_EVENTS_ON_EXIT_BIT_def eventUNBLOCKED_DUE_TO_BIT_SET_def
  eventWAIT_FOR_ALL_BITS_def eventEVENT_BITS_CONTROL_BYTES_def taskEVENT_LIST_ITEM_VALUE_IN_USE_def

type_synonym waiting = "task \<times> u32"

record EventGroup_t =
  uxEventBits :: u32
  xTasksWaitingForBits :: "waiting list"

section \<open>Operations\<close>

text \<open>\<open>ok\<close> says whether \<^verbatim>\<open>pvPortMalloc\<close> finds memory; the mutex is initialised in either case.\<close>

definition xEventGroupCreate :: "bool \<Rightarrow> EventGroup_t run" where
  "xEventGroupCreate ok =
     (if ok then Inr \<lparr>uxEventBits = 0, xTasksWaitingForBits = []\<rparr> else Inl Null_Pointer)"

definition prvTestWaitCondition :: "u32 \<Rightarrow> u32 \<Rightarrow> bool \<Rightarrow> bool" where
  "prvTestWaitCondition uxCurrentEventBits uxBitsToWaitFor xWaitForAllBits =
     (if \<not> xWaitForAllBits then uxCurrentEventBits AND uxBitsToWaitFor \<noteq> 0
      else uxCurrentEventBits AND uxBitsToWaitFor = uxBitsToWaitFor)"

text \<open>
  What \<^verbatim>\<open>vTaskPlaceOnUnorderedEventList\<close> and \<^verbatim>\<open>xTaskRemoveFromUnorderedEventList\<close> do to the event list
  item of the task.
\<close>

definition place_waiting :: "task \<Rightarrow> u32 \<Rightarrow> waiting list \<Rightarrow> waiting list" where
  "place_waiting me item_value ts = ts @ [(me, item_value OR taskEVENT_LIST_ITEM_VALUE_IN_USE)]"

definition wake_waiting :: "waiting \<Rightarrow> u32 \<Rightarrow> waiting" where
  "wake_waiting w item_value = (fst w, item_value OR taskEVENT_LIST_ITEM_VALUE_IN_USE)"

text \<open>
  The loop of \<^verbatim>\<open>xEventGroupSetBits\<close> over the waiting tasks: the bits to clear, the tasks left on
  the list, and those woken, each with its new item value.
\<close>

fun set_bits_loop :: "u32 \<Rightarrow> waiting list \<Rightarrow> u32 \<Rightarrow> u32 \<times> waiting list \<times> waiting list" where
  "set_bits_loop bits [] uxBitsToClear = (uxBitsToClear, [], [])"
| "set_bits_loop bits (w # ws) uxBitsToClear =
     (let uxControlBits = snd w AND eventEVENT_BITS_CONTROL_BYTES;
          uxBitsWaitedFor = snd w AND NOT eventEVENT_BITS_CONTROL_BYTES;
          xMatchFound = (if uxControlBits AND eventWAIT_FOR_ALL_BITS = 0 then uxBitsWaitedFor AND bits \<noteq> 0
                         else uxBitsWaitedFor AND bits = uxBitsWaitedFor)
      in if xMatchFound then
           let clear' = (if uxControlBits AND eventCLEAR_EVENTS_ON_EXIT_BIT \<noteq> 0
                         then uxBitsToClear OR uxBitsWaitedFor else uxBitsToClear);
               (c, rest, woken) = set_bits_loop bits ws clear'
           in (c, rest, wake_waiting w (bits OR eventUNBLOCKED_DUE_TO_BIT_SET) # woken)
         else
           let (c, rest, woken) = set_bits_loop bits ws uxBitsToClear in (c, w # rest, woken))"

definition xEventGroupSetBits :: "u32 \<Rightarrow> EventGroup_t \<Rightarrow> (u32 \<times> EventGroup_t \<times> waiting list) run" where
  "xEventGroupSetBits uxBitsToSet g =
     (if uxBitsToSet AND eventEVENT_BITS_CONTROL_BYTES \<noteq> 0 then Inl Assert_Failed
      else
        let bits = uxEventBits g OR uxBitsToSet;
            (c, rest, woken) = set_bits_loop bits (xTasksWaitingForBits g) 0;
            bits' = bits AND NOT c
        in Inr (bits', \<lparr>uxEventBits = bits', xTasksWaitingForBits = rest\<rparr>, woken))"

definition xEventGroupClearBits :: "u32 \<Rightarrow> EventGroup_t \<Rightarrow> (u32 \<times> EventGroup_t) run" where
  "xEventGroupClearBits uxBitsToClear g =
     (if uxBitsToClear AND eventEVENT_BITS_CONTROL_BYTES \<noteq> 0 then Inl Assert_Failed
      else Inr (uxEventBits g, g\<lparr>uxEventBits := uxEventBits g AND NOT uxBitsToClear\<rparr>))"

definition xEventGroupGetBitsFromISR :: "EventGroup_t \<Rightarrow> u32" where
  "xEventGroupGetBitsFromISR g = uxEventBits g"

text \<open>
  The waiting calls come in two parts: the critical section, which either has the result or puts
  the task on the list, and the part after the task runs again, with the item value it then has.
\<close>

datatype wait_entry = Wait_returns u32 | Wait_blocks

definition wait_bits_enter ::
  "task \<Rightarrow> u32 \<Rightarrow> bool \<Rightarrow> bool \<Rightarrow> u32 \<Rightarrow> EventGroup_t \<Rightarrow> (wait_entry \<times> EventGroup_t) run" where
  "wait_bits_enter me uxBitsToWaitFor xClearOnExit xWaitForAllBits xTicksToWait g =
     (if uxBitsToWaitFor AND eventEVENT_BITS_CONTROL_BYTES \<noteq> 0 \<or> uxBitsToWaitFor = 0 then Inl Assert_Failed
      else if prvTestWaitCondition (uxEventBits g) uxBitsToWaitFor xWaitForAllBits then
        Inr (Wait_returns (uxEventBits g),
             if xClearOnExit then g\<lparr>uxEventBits := uxEventBits g AND NOT uxBitsToWaitFor\<rparr> else g)
      else if xTicksToWait = 0 then Inr (Wait_returns (uxEventBits g), g)
      else
        let uxControlBits = (if xClearOnExit then eventCLEAR_EVENTS_ON_EXIT_BIT else 0) OR
                            (if xWaitForAllBits then eventWAIT_FOR_ALL_BITS else 0)
        in Inr (Wait_blocks, g\<lparr>xTasksWaitingForBits :=
             place_waiting me (uxBitsToWaitFor OR uxControlBits) (xTasksWaitingForBits g)\<rparr>))"

definition wait_bits_resume ::
  "u32 \<Rightarrow> bool \<Rightarrow> bool \<Rightarrow> u32 \<Rightarrow> EventGroup_t \<Rightarrow> u32 \<times> EventGroup_t" where
  "wait_bits_resume uxBitsToWaitFor xClearOnExit xWaitForAllBits itemValue g =
     (let (ret, g') =
        (if itemValue AND eventUNBLOCKED_DUE_TO_BIT_SET = 0 then
           (uxEventBits g,
            if prvTestWaitCondition (uxEventBits g) uxBitsToWaitFor xWaitForAllBits \<and> xClearOnExit
            then g\<lparr>uxEventBits := uxEventBits g AND NOT uxBitsToWaitFor\<rparr> else g)
         else (itemValue, g))
      in (ret AND NOT eventEVENT_BITS_CONTROL_BYTES, g'))"

definition sync_enter ::
  "task \<Rightarrow> u32 \<Rightarrow> u32 \<Rightarrow> u32 \<Rightarrow> EventGroup_t \<Rightarrow> (wait_entry \<times> EventGroup_t \<times> waiting list) run" where
  "sync_enter me uxBitsToSet uxBitsToWaitFor xTicksToWait g =
     (if uxBitsToWaitFor AND eventEVENT_BITS_CONTROL_BYTES \<noteq> 0 \<or> uxBitsToWaitFor = 0 then Inl Assert_Failed
      else
        run_bind (xEventGroupSetBits uxBitsToSet g) (\<lambda>(_, g1, woken).
        let both = uxEventBits g OR uxBitsToSet in
        if both AND uxBitsToWaitFor = uxBitsToWaitFor then
          Inr (Wait_returns both, g1\<lparr>uxEventBits := uxEventBits g1 AND NOT uxBitsToWaitFor\<rparr>, woken)
        else if xTicksToWait \<noteq> 0 then
          Inr (Wait_blocks, g1\<lparr>xTasksWaitingForBits := place_waiting me
                 (uxBitsToWaitFor OR eventCLEAR_EVENTS_ON_EXIT_BIT OR eventWAIT_FOR_ALL_BITS)
                 (xTasksWaitingForBits g1)\<rparr>, woken)
        else Inr (Wait_returns (uxEventBits g1), g1, woken)))"

definition sync_resume :: "u32 \<Rightarrow> u32 \<Rightarrow> EventGroup_t \<Rightarrow> u32 \<times> EventGroup_t" where
  "sync_resume uxBitsToWaitFor itemValue g =
     (let (ret, g') =
        (if itemValue AND eventUNBLOCKED_DUE_TO_BIT_SET = 0 then
           (uxEventBits g,
            if uxEventBits g AND uxBitsToWaitFor = uxBitsToWaitFor
            then g\<lparr>uxEventBits := uxEventBits g AND NOT uxBitsToWaitFor\<rparr> else g)
         else (itemValue, g))
      in (ret AND NOT eventEVENT_BITS_CONTROL_BYTES, g'))"

text \<open>When its ticks are over, the kernel takes the task off the list and leaves its item value.\<close>

definition wait_timeout :: "task \<Rightarrow> EventGroup_t \<Rightarrow> EventGroup_t" where
  "wait_timeout t g = g\<lparr>xTasksWaitingForBits := filter (\<lambda>w. fst w \<noteq> t) (xTasksWaitingForBits g)\<rparr>"

definition vEventGroupDelete :: "EventGroup_t \<Rightarrow> waiting list" where
  "vEventGroupDelete g =
     map (\<lambda>w. wake_waiting w eventUNBLOCKED_DUE_TO_BIT_SET) (xTasksWaitingForBits g)"

section \<open>What the item values mean\<close>

definition waited_bits :: "u32 \<Rightarrow> u32" where
  "waited_bits v = v AND NOT eventEVENT_BITS_CONTROL_BYTES"

definition wants_all :: "u32 \<Rightarrow> bool" where
  "wants_all v \<longleftrightarrow> v AND eventWAIT_FOR_ALL_BITS \<noteq> 0"

definition wants_clear :: "u32 \<Rightarrow> bool" where
  "wants_clear v \<longleftrightarrow> v AND eventCLEAR_EVENTS_ON_EXIT_BIT \<noteq> 0"

definition satisfied :: "u32 \<Rightarrow> waiting \<Rightarrow> bool" where
  "satisfied bits w \<longleftrightarrow> prvTestWaitCondition bits (waited_bits (snd w)) (wants_all (snd w))"

definition control_free :: "u32 \<Rightarrow> bool" where
  "control_free b \<longleftrightarrow> b AND eventEVENT_BITS_CONTROL_BYTES = 0"

definition bits_union :: "u32 list \<Rightarrow> u32" where
  "bits_union bs = fold (OR) bs 0"

lemma mask_cleared: "x AND c = 0 \<Longrightarrow> x AND NOT c = x" for x c :: u32
proof (rule bit_word_eqI)
  fix n
  assume "x AND c = 0"
  then have "\<not> bit (x AND c) n" by simp
  then show "bit (x AND NOT c) n \<longleftrightarrow> bit x n"
    by (auto simp: bit_simps dest: bit_imp_le_length)
qed

lemma wait_value_decode:
  fixes a c :: bool
  assumes "control_free b"
  defines "v \<equiv> b OR ((if c then eventCLEAR_EVENTS_ON_EXIT_BIT else 0) OR (if a then eventWAIT_FOR_ALL_BITS else 0))
      OR taskEVENT_LIST_ITEM_VALUE_IN_USE"
  shows "waited_bits v = b" "wants_all v = a" "wants_clear v = c"
proof -
  have b: "b AND NOT 0xff000000 = b" using mask_cleared [of b "0xff000000"] assms(1) by (simp add: control_free_def event_flags)
  have sub: "b AND x = 0" if "x AND 0xff000000 = x" for x
  proof -
    have "b AND x = (b AND 0xff000000) AND x" using that by (metis and.assoc and.commute)
    then show ?thesis using assms(1) by (simp add: control_free_def event_flags)
  qed
  have s: "b AND 0x1000000 = 0" "b AND 0x4000000 = 0" using sub [of "0x1000000"] sub [of "0x4000000"] by simp_all
  show "waited_bits v = b" using b
    by (cases c; cases a) (simp_all add: v_def waited_bits_def event_flags bit.conj_disj_distrib2)
  show "wants_all v = a" "wants_clear v = c" using s
    by (cases c; cases a; simp add: v_def wants_all_def wants_clear_def event_flags bit.conj_disj_distrib2)+
qed

lemma control_and:
  "(v AND eventEVENT_BITS_CONTROL_BYTES) AND eventWAIT_FOR_ALL_BITS = v AND eventWAIT_FOR_ALL_BITS"
  "(v AND eventEVENT_BITS_CONTROL_BYTES) AND eventCLEAR_EVENTS_ON_EXIT_BIT = v AND eventCLEAR_EVENTS_ON_EXIT_BIT"
  by (simp_all add: event_flags and.assoc)

lemma match_iff:
  "(if snd w AND eventWAIT_FOR_ALL_BITS = 0 then (snd w AND NOT eventEVENT_BITS_CONTROL_BYTES) AND bits \<noteq> 0
    else (snd w AND NOT eventEVENT_BITS_CONTROL_BYTES) AND bits = snd w AND NOT eventEVENT_BITS_CONTROL_BYTES)
   \<longleftrightarrow> satisfied bits w"
  by (simp add: satisfied_def prvTestWaitCondition_def waited_bits_def wants_all_def and.commute [of bits])

definition woken_value :: "u32 \<Rightarrow> u32" where
  "woken_value bits = bits OR eventUNBLOCKED_DUE_TO_BIT_SET OR taskEVENT_LIST_ITEM_VALUE_IN_USE"

lemma set_bits_loop_eq:
  "set_bits_loop bits ws c =
     (fold (OR) (map (waited_bits \<circ> snd) (filter (\<lambda>w. satisfied bits w \<and> wants_clear (snd w)) ws)) c,
      filter (\<lambda>w. \<not> satisfied bits w) ws,
      map (\<lambda>w. (fst w, woken_value bits)) (filter (satisfied bits) ws))"
proof (induction ws arbitrary: c)
  case (Cons w ws)
  show ?case
    unfolding set_bits_loop.simps Let_def match_iff Cons.IH control_and
    by (simp add: wants_clear_def waited_bits_def wake_waiting_def woken_value_def
        or.assoc or.commute [of c] comp_def)
qed simp

section \<open>The invariant: no task waits for what has happened\<close>

definition eg_inv :: "EventGroup_t \<Rightarrow> bool" where
  "eg_inv g \<longleftrightarrow> control_free (uxEventBits g) \<and>
     (\<forall>w \<in> set (xTasksWaitingForBits g). \<not> satisfied (uxEventBits g) w)"

lemma control_free_or: "control_free a \<Longrightarrow> control_free b \<Longrightarrow> control_free (a OR b)"
  by (simp add: control_free_def bit.conj_disj_distrib2)

lemma clear_and: "(x AND NOT c) AND b = (x AND b) AND NOT c" for x b c :: u32
  by (simp add: and.assoc and.commute [of b])

lemma control_free_clear: "control_free a \<Longrightarrow> control_free (a AND NOT b)"
  by (simp add: control_free_def clear_and)

lemma all_before_clear:
  fixes x b c :: u32
  assumes "(x AND NOT c) AND b = b"
  shows "x AND b = b"
proof -
  have "x AND b = x AND ((x AND NOT c) AND b)" by (simp only: assms)
  also have "\<dots> = (x AND NOT c) AND b" by (simp add: and.assoc [symmetric])
  finally show ?thesis by (simp only: assms)
qed

lemma satisfied_clear: "\<not> satisfied a w \<Longrightarrow> \<not> satisfied (a AND NOT c) w"
  using all_before_clear [of a c] by (auto simp: satisfied_def prvTestWaitCondition_def clear_and)

lemma set_bits_law:
  assumes "control_free b"
  shows "\<exists>ret g' c. xEventGroupSetBits b g = Inr (ret, g',
       map (\<lambda>w. (fst w, woken_value (uxEventBits g OR b))) (filter (satisfied (uxEventBits g OR b)) (xTasksWaitingForBits g))) \<and>
     xTasksWaitingForBits g' = filter (\<lambda>w. \<not> satisfied (uxEventBits g OR b) w) (xTasksWaitingForBits g) \<and>
     c = bits_union (map (waited_bits \<circ> snd) (filter (\<lambda>w. satisfied (uxEventBits g OR b) w \<and> wants_clear (snd w))
           (xTasksWaitingForBits g))) \<and>
     uxEventBits g' = (uxEventBits g OR b) AND NOT c \<and> ret = uxEventBits g'"
  using assms by (simp add: xEventGroupSetBits_def control_free_def set_bits_loop_eq bits_union_def Let_def)

text \<open>The steps of a group: the calls of any tasks, their return from waiting, and timeouts.\<close>

inductive eg_step :: "EventGroup_t \<Rightarrow> EventGroup_t \<Rightarrow> bool" where
  set: "xEventGroupSetBits b g = Inr (r, g', ws) \<Longrightarrow> eg_step g g'"
| clear: "xEventGroupClearBits b g = Inr (r, g') \<Longrightarrow> eg_step g g'"
| wait: "wait_bits_enter t b c a k g = Inr (r, g') \<Longrightarrow> eg_step g g'"
| resume: "wait_bits_resume b c a v g = (r, g') \<Longrightarrow> eg_step g g'"
| sync: "sync_enter t b w k g = Inr (r, g', ws) \<Longrightarrow> eg_step g g'"
| sync_resume: "sync_resume w v g = (r, g') \<Longrightarrow> eg_step g g'"
| timeout: "eg_step g (wait_timeout t g)"

inductive eg_reach :: "EventGroup_t \<Rightarrow> bool" where
  create: "xEventGroupCreate True = Inr g \<Longrightarrow> eg_reach g"
| step: "eg_reach g \<Longrightarrow> eg_step g g' \<Longrightarrow> eg_reach g'"

lemma eg_inv_clear: "eg_inv g \<Longrightarrow> eg_inv (g\<lparr>uxEventBits := uxEventBits g AND NOT c\<rparr>)"
  using satisfied_clear control_free_clear by (auto simp: eg_inv_def)

lemma eg_inv_set:
  assumes "eg_inv g" "xEventGroupSetBits b g = Inr (r, g', ws)"
  shows "eg_inv g' \<and> control_free b \<and> (\<exists>c. uxEventBits g' = (uxEventBits g OR b) AND NOT c)"
proof -
  have b: "control_free b" using assms(2) by (auto simp: xEventGroupSetBits_def control_free_def split: if_splits)
  then show ?thesis
    using set_bits_law [OF b, of g] assms satisfied_clear control_free_or control_free_clear
    by (auto simp: eg_inv_def)
qed

lemma eg_inv_place:
  assumes "eg_inv g" "control_free b" "\<not> prvTestWaitCondition (uxEventBits g) b a"
  shows "eg_inv (g\<lparr>xTasksWaitingForBits := place_waiting t
      (b OR ((if c then eventCLEAR_EVENTS_ON_EXIT_BIT else 0) OR (if a then eventWAIT_FOR_ALL_BITS else 0)))
      (xTasksWaitingForBits g)\<rparr>)"
  using assms wait_value_decode [OF assms(2), of c a]
  by (auto simp: eg_inv_def place_waiting_def satisfied_def or.assoc)

lemma eg_inv_wait:
  assumes "eg_inv g" "wait_bits_enter t b c a k g = Inr (r, g')"
  shows "eg_inv g'"
proof -
  have "control_free b" using assms(2) by (simp add: wait_bits_enter_def control_free_def split: if_splits)
  with assms eg_inv_clear [OF assms(1), of b] eg_inv_place [OF assms(1), of b a t c] show ?thesis
    by (auto simp: wait_bits_enter_def Let_def split: if_splits)
qed

lemma eg_inv_sync:
  assumes "eg_inv g" "sync_enter t b w k g = Inr (r, g', ws)"
  shows "eg_inv g'"
proof -
  have w: "control_free w" using assms(2) by (simp add: sync_enter_def control_free_def split: if_splits)
  obtain r1 g1 ws1 where s: "xEventGroupSetBits b g = Inr (r1, g1, ws1)"
    using assms(2) by (auto simp: sync_enter_def run_bind_Inr_iff split: if_splits)
  note g1 = eg_inv_set [OF assms(1) s]
  have "\<not> prvTestWaitCondition (uxEventBits g1) w True" if "(uxEventBits g OR b) AND w \<noteq> w"
    using that g1 all_before_clear [of "uxEventBits g OR b" _ w] by (auto simp: prvTestWaitCondition_def)
  then show ?thesis
    using assms(2) s g1 w eg_inv_clear [of g1 w] eg_inv_place [of g1 w True t True]
    by (auto simp: sync_enter_def Let_def or.assoc split: if_splits)
qed

lemma eg_inv_resume:
  assumes "eg_inv g"
  shows "eg_inv (snd (wait_bits_resume b c a v g))" "eg_inv (snd (sync_resume w v g))" "eg_inv (wait_timeout t g)"
  using assms eg_inv_clear [OF assms]
  by (auto simp: wait_bits_resume_def sync_resume_def Let_def split: if_splits)
    (auto simp: wait_timeout_def eg_inv_def)

lemma eg_step_inv: "eg_step g g' \<Longrightarrow> eg_inv g \<Longrightarrow> eg_inv g'"
proof (induction rule: eg_step.induct)
  case (clear b g r g')
  then show ?case using eg_inv_clear by (auto simp: xEventGroupClearBits_def split: if_splits)
next
  case (resume b c a v g r g')
  then show ?case using eg_inv_resume(1) by (metis snd_conv)
next
  case (sync_resume w v g r g')
  then show ?case using eg_inv_resume(2) by (metis snd_conv)
next
  case (set b g r g' ws)
  then show ?case using eg_inv_set [OF set.prems set.hyps] by simp
next
  case (wait t b c a k g r g')
  then show ?case using eg_inv_wait [OF wait.prems wait.hyps] by simp
next
  case (sync t b w k g r g' ws)
  then show ?case using eg_inv_sync [OF sync.prems sync.hyps] by simp
next
  case (timeout g t)
  then show ?case by (rule eg_inv_resume(3))
qed

lemma eg_reach_inv: "eg_reach g \<Longrightarrow> eg_inv g"
proof (induction rule: eg_reach.induct)
  case (create g)
  then show ?case by (auto simp: xEventGroupCreate_def eg_inv_def control_free_def)
next
  case (step g g')
  then show ?case using eg_step_inv by blast
qed

section \<open>Properties\<close>

text \<open>
  C27. No lost wake-up: in every state that any sequence of calls, returns from waiting and
  timeouts can lead to, no task is on the list whose wait condition the current bits satisfy, and
  the bits of the group never run into the control byte of the item values.
\<close>

theorem event_group_no_lost_wakeup:
  assumes "eg_reach g"
  shows "control_free (uxEventBits g) \<and>
     (\<forall>w \<in> set (xTasksWaitingForBits g).
        \<not> prvTestWaitCondition (uxEventBits g) (waited_bits (snd w)) (wants_all (snd w)))"
  using eg_reach_inv [OF assms] by (auto simp: eg_inv_def satisfied_def)

definition one_waiter :: EventGroup_t where
  "one_waiter = \<lparr>uxEventBits = 0, xTasksWaitingForBits = [(7, 0x80000001)]\<rparr>"

lemma one_waiter_blocks:
  "wait_bits_enter 7 1 False False 10 \<lparr>uxEventBits = 0, xTasksWaitingForBits = []\<rparr> = Inr (Wait_blocks, one_waiter)"
  by (simp add: wait_bits_enter_def prvTestWaitCondition_def event_flags one_waiter_def
      place_waiting_def)

lemma one_waiter_reach: "eg_reach one_waiter"
proof (rule eg_reach.step)
  show "eg_reach \<lparr>uxEventBits = 0, xTasksWaitingForBits = []\<rparr>"
    by (rule eg_reach.create) (simp add: xEventGroupCreate_def)
  show "eg_step \<lparr>uxEventBits = 0, xTasksWaitingForBits = []\<rparr> one_waiter"
    by (rule eg_step.wait [OF one_waiter_blocks])
qed

theorem event_group_no_lost_wakeup_witness:
  "eg_reach one_waiter \<and> xTasksWaitingForBits one_waiter \<noteq> [] \<and> control_free (uxEventBits one_waiter)"
  using event_group_no_lost_wakeup [OF one_waiter_reach] one_waiter_reach by (simp add: one_waiter_def)

text \<open>
  A task that blocks in \<^verbatim>\<open>xEventGroupWaitBits\<close> goes to the end of the list. A later
  \<^verbatim>\<open>xEventGroupSetBits\<close> takes off the list, in order, exactly the tasks whose wait condition the
  bits then satisfy, and clears the bits that those of them waited for that asked for it. The
  woken task's call returns these bits, with its condition met and without the control bits.
\<close>

theorem event_group_wait_and_set:
  assumes "wait_bits_enter me b c a k g = Inr (Wait_blocks, g1)" "eg_inv g2" "control_free s"
  defines "bits \<equiv> uxEventBits g2 OR s"
  shows "\<exists>v ret g3. xTasksWaitingForBits g1 = xTasksWaitingForBits g @ [(me, v)] \<and>
     (satisfied bits (me, v) \<longleftrightarrow> prvTestWaitCondition bits b a) \<and>
     xEventGroupSetBits s g2 = Inr (ret, g3,
       map (\<lambda>w. (fst w, woken_value bits)) (filter (satisfied bits) (xTasksWaitingForBits g2))) \<and>
     xTasksWaitingForBits g3 = filter (\<lambda>w. \<not> satisfied bits w) (xTasksWaitingForBits g2) \<and>
     uxEventBits g3 = bits AND NOT (bits_union (map (waited_bits \<circ> snd)
       (filter (\<lambda>w. satisfied bits w \<and> wants_clear (snd w)) (xTasksWaitingForBits g2)))) \<and>
     wait_bits_resume b c a (woken_value bits) g3 = (bits, g3)"
proof -
  let ?v = "(b OR ((if c then eventCLEAR_EVENTS_ON_EXIT_BIT else 0) OR (if a then eventWAIT_FOR_ALL_BITS else 0)))
      OR taskEVENT_LIST_ITEM_VALUE_IN_USE"
  have b: "control_free b" "xTasksWaitingForBits g1 = xTasksWaitingForBits g @ [(me, ?v)]"
    using assms(1) by (auto simp: wait_bits_enter_def control_free_def place_waiting_def Let_def
        split: if_splits)
  have sat: "satisfied bits (me, ?v) \<longleftrightarrow> prvTestWaitCondition bits b a"
    using wait_value_decode [OF b(1), of c a] by (simp add: satisfied_def or.assoc)
  have "control_free bits" using assms(2,3) control_free_or by (simp add: bits_def eg_inv_def)
  then have "bits AND NOT eventEVENT_BITS_CONTROL_BYTES = bits"
    using mask_cleared by (simp add: control_free_def)
  then have resume: "wait_bits_resume b c a (woken_value bits) g3 = (bits, g3)" for g3
    by (simp add: wait_bits_resume_def woken_value_def event_flags bit.conj_disj_distrib2 Let_def)
  show ?thesis
    using set_bits_law [OF assms(3), of g2] b(2) sat resume unfolding bits_def by blast
qed

theorem event_group_wait_and_set_witness:
  "\<exists>ret g3. xEventGroupSetBits 1 one_waiter = Inr (ret, g3, [(7, woken_value 1)]) \<and>
     wait_bits_resume 1 False False (woken_value 1) g3 = (1, g3)"
proof -
  have "control_free 1" by (simp add: control_free_def event_flags)
  from event_group_wait_and_set [OF one_waiter_blocks eg_reach_inv [OF one_waiter_reach] this] show ?thesis
    by (auto simp: one_waiter_def satisfied_def prvTestWaitCondition_def waited_bits_def wants_all_def event_flags)
qed

text \<open>
  Rendezvous: if every waiting task waits in \<^verbatim>\<open>xEventGroupSync\<close> for the same bits and a further
  task contributes the last of them, its call returns at once with all bits, every waiting task
  is woken in the order of arrival, and the rendezvous bits are clear afterwards.
\<close>

theorem event_group_rendezvous:
  assumes "control_free w" "w \<noteq> 0" "control_free s" "(uxEventBits g OR s) AND w = w"
    "\<And>x. x \<in> set (xTasksWaitingForBits g) \<Longrightarrow> waited_bits (snd x) = w \<and> wants_all (snd x) \<and> wants_clear (snd x)"
  shows "\<exists>g' woken. sync_enter me s w k g = Inr (Wait_returns (uxEventBits g OR s), g', woken) \<and>
     map fst woken = map fst (xTasksWaitingForBits g) \<and> xTasksWaitingForBits g' = [] \<and> uxEventBits g' AND w = 0"
proof -
  have all: "satisfied (uxEventBits g OR s) x" if "x \<in> set (xTasksWaitingForBits g)" for x
    using assms(4) assms(5) [OF that] by (simp add: satisfied_def prvTestWaitCondition_def)
  then have f: "filter (satisfied (uxEventBits g OR s)) (xTasksWaitingForBits g) = xTasksWaitingForBits g"
      "filter (\<lambda>x. \<not> satisfied (uxEventBits g OR s) x) (xTasksWaitingForBits g) = []"
    by (simp_all add: filter_id_conv filter_empty_conv)
  obtain ret g1 where g1: "xEventGroupSetBits s g = Inr (ret, g1,
        map (\<lambda>x. (fst x, woken_value (uxEventBits g OR s))) (xTasksWaitingForBits g))" "xTasksWaitingForBits g1 = []"
    using set_bits_law [OF assms(3), of g] unfolding f by blast
  have "(uxEventBits g1 AND NOT w) AND w = 0" by (simp add: and.assoc)
  then show ?thesis
    using g1 assms(1,2,4) by (simp add: sync_enter_def control_free_def comp_def)
qed

theorem event_group_rendezvous_witness:
  "\<exists>g' woken. sync_enter 2 2 3 10 \<lparr>uxEventBits = 1, xTasksWaitingForBits = [(1, 0x85000003)]\<rparr>
     = Inr (Wait_returns 3, g', woken) \<and> map fst woken = [1] \<and> xTasksWaitingForBits g' = []"
  using event_group_rendezvous [of 3 2 "\<lparr>uxEventBits = 1, xTasksWaitingForBits = [(1, 0x85000003)]\<rparr>" 2 10]
  by (auto simp: control_free_def waited_bits_def wants_all_def wants_clear_def event_flags)

end
