(* ===== verification/Tcp_Server.thy ===== *)
theory Tcp_Server
  imports Data_Buffer Audio_Player RTOS_Event_Groups
begin

text \<open>
  The TCP server of the speaker, \<^verbatim>\<open>main/tcp_perf.c\<close>: the listener that accepts connections, the
  thread that moves received bytes into the data buffer, and the interpreter that takes commands
  out of it and plays them. The socket functions belong to the network stack; what they answer
  is an argument of the definitions. Log output is left out.
\<close>

section \<open>The wire format\<close>

datatype TCP_COMMAND = UN_KNOW | SEND_HEADER | SEND_DATA | SEND_ACK

text \<open>The enumeration is a 32-bit integer; other values than the four fall to the default case.\<close>

definition command_of :: "u32 \<Rightarrow> TCP_COMMAND option" where
  "command_of c = (if c = 0 then Some UN_KNOW else if c = 1 then Some SEND_HEADER
     else if c = 2 then Some SEND_DATA else if c = 3 then Some SEND_ACK else None)"

section \<open>The command interpreter\<close>

record tcp_state =
  db :: db_state
  wfx :: WAVEFORMATEX
  rend :: renderer

definition BUFFER_BYTES :: nat where
  "BUFFER_BYTES = 16384"

text \<open>A read from the data buffer waits, busily, for the other task to fill it.\<close>

definition read_or_spin :: "int \<Rightarrow> tcp_state \<Rightarrow> (byte list \<times> tcp_state) run" where
  "read_or_spin sz t =
     (case buffer_read_data (db t) sz of None \<Rightarrow> Inl Blocks_Forever
      | Some (d, bs, _) \<Rightarrow> Inr (bs, t\<lparr>db := d\<rparr>))"

text \<open>
  The two commands with a payload. The length is checked only for the log, so the payload goes
  into \<^verbatim>\<open>wfx\<close> (20 bytes) or the stack buffer (16384 bytes) whatever its length.
\<close>

definition recv_header :: "tcp_state \<Rightarrow> tcp_state run" where
  "recv_header t =
     run_bind (read_or_spin 4 t) (\<lambda>(lb, t1).
     run_bind (read_or_spin (sint (of_le32 lb)) t1) (\<lambda>(bs, t2).
       if sizeof_WAVEFORMATEX < length bs then Inl Out_Of_Bounds
       else Inr (t2\<lparr>wfx := wfx_of_bytes (overwrite (wfx_bytes (wfx t2)) 0 bs)\<rparr>)))"

definition recv_data ::
  "(renderer \<Rightarrow> renderer run) list \<Rightarrow> byte list \<Rightarrow> tcp_state \<Rightarrow>
   (tcp_state \<times> byte list \<times> byte list list \<times> loop_end) run" where
  "recv_data env stack t =
     run_bind (read_or_spin 4 t) (\<lambda>(lb, t1).
     let length_data = of_le32 lb in
     run_bind (read_or_spin (sint length_data) t1) (\<lambda>(bs, t2).
       if BUFFER_BYTES < length bs then Inl Out_Of_Bounds
       else
         let stack' = overwrite stack 0 bs in
         run_bind (render_samples env stack' length_data (wfx t2) (rend t2)) (\<lambda>(r, played, en).
           Inr (t2\<lparr>rend := r\<rparr>, stack', played, en))))"

text \<open>One round of the interpreter's loop; \<open>stack\<close> is its 16384-byte array.\<close>

definition command_step ::
  "(renderer \<Rightarrow> renderer run) list \<Rightarrow> byte list \<Rightarrow> tcp_state \<Rightarrow>
   (tcp_state \<times> byte list \<times> byte list list \<times> loop_end) run" where
  "command_step env stack t =
     run_bind (read_or_spin 4 t) (\<lambda>(cb, t1).
       case command_of (of_le32 cb) of
         Some SEND_HEADER \<Rightarrow> run_bind (recv_header t1) (\<lambda>t2. Inr (t2, stack, [], Loop_done))
       | Some SEND_DATA \<Rightarrow> recv_data env stack t1
       | _ \<Rightarrow> Inr (t1, stack, [], Loop_done))"

fun command_loop ::
  "(renderer \<Rightarrow> renderer run) list list \<Rightarrow> byte list \<Rightarrow> tcp_state \<Rightarrow> (tcp_state \<times> byte list list) run" where
  "command_loop [] stack t = Inr (t, [])"
| "command_loop (env # envs) stack t =
     run_bind (command_step env stack t) (\<lambda>(t1, stack1, d1, en).
       if \<not> render_over en then Inr (t1, d1)
       else run_bind (command_loop envs stack1 t1) (\<lambda>(t2, d2). Inr (t2, d1 @ d2)))"

text \<open>The task, observed for as many commands as there are environments.\<close>

definition prcess_character ::
  "(renderer \<Rightarrow> renderer run) list list \<Rightarrow> byte list \<Rightarrow> tcp_state \<Rightarrow> (tcp_state \<times> byte list list) run" where
  "prcess_character envs stack t =
     command_loop envs stack
       (t\<lparr>wfx := (wfx t)\<lparr>nChannels := 2, wBitsPerSample := 16, nSamplesPerSec := 48000\<rparr>\<rparr>)"

section \<open>The receiving thread\<close>

text \<open>
  What \<^verbatim>\<open>recv\<close> answers: -1, or a number of bytes that is at most the 1024 asked for and is 0 once
  the peer has closed the connection. The thread is observed for a list of answers: it has
  ended if one of them was the error, and it reports whether it has created the interpreter task.
  A write to the full data buffer spins.
\<close>

datatype recv_answer = Recv_error | Recv "byte list"

record audio_thread_state =
  at_db :: db_state
  render_started :: bool
  thread_closed :: bool

definition thread_receive :: "byte list \<Rightarrow> audio_thread_state \<Rightarrow> audio_thread_state run" where
  "thread_receive bs a =
     (case buffer_write_data (at_db a) bs of None \<Rightarrow> Inl Blocks_Forever
      | Some d \<Rightarrow> Inr (a\<lparr>at_db := d, render_started := render_started a \<or> 50 < getBufferPercent d\<rparr>))"

fun audio_thread :: "recv_answer list \<Rightarrow> audio_thread_state \<Rightarrow> audio_thread_state run" where
  "audio_thread [] a = Inr a"
| "audio_thread (Recv_error # rs) a = Inr (a\<lparr>thread_closed := True\<rparr>)"
| "audio_thread (Recv bs # rs) a = run_bind (thread_receive bs a) (audio_thread rs)"

section \<open>The listener\<close>

text \<open>
  \<^verbatim>\<open>socket\<close>, \<^verbatim>\<open>bind\<close>, \<^verbatim>\<open>listen\<close> and \<^verbatim>\<open>accept\<close> answer a negative number on failure, and \<^verbatim>\<open>error_handle\<close>
  never returns. Every connection's thread gets a pointer to the listener's variable \<^verbatim>\<open>client\<close>
  and reads it when it first runs: an event of the history is an answer of \<^verbatim>\<open>accept\<close> or the start
  of a thread that was created.
\<close>

definition error_handle :: "'a run" where
  "error_handle = Inl Blocks_Forever"

datatype server_event = Accepted int | Thread_starts

record listener =
  client_var :: int
  created :: nat
  thread_clients :: "int list"

fun accept_loop :: "server_event list \<Rightarrow> listener \<Rightarrow> listener run" where
  "accept_loop [] l = Inr l"
| "accept_loop (Accepted c # es) l =
     (if c < 0 then error_handle
      else accept_loop es (l\<lparr>client_var := c, created := created l + 1\<rparr>))"
| "accept_loop (Thread_starts # es) l =
     (if created l \<le> length (thread_clients l) then Inl Uninitialised
      else accept_loop es (l\<lparr>thread_clients := thread_clients l @ [client_var l]\<rparr>))"

definition listen_tcp_server :: "int \<Rightarrow> int \<Rightarrow> int \<Rightarrow> server_event list \<Rightarrow> listener run" where
  "listen_tcp_server socket_res bind_res listen_res es =
     (if socket_res < 0 then error_handle
      else if bind_res < 0 then error_handle
      else if listen_res < 0 then error_handle
      else accept_loop es \<lparr>client_var = 0, created = 0, thread_clients = []\<rparr>)"

section \<open>Smaller functions\<close>

text \<open>\<open>sent\<close> is the answer of \<^verbatim>\<open>send\<close> for the two bytes.\<close>

definition ack_bytes :: "byte list" where
  "ack_bytes = [3, 0]"

definition send_ack :: "(byte list \<Rightarrow> int) \<Rightarrow> int" where
  "send_ack sent = (if sent ack_bytes \<noteq> int (length ack_bytes) then 0 else 1)"

text \<open>\<open>opt\<close> is the answer of \<^verbatim>\<open>getsockopt\<close> and the error it stores.\<close>

definition get_socket_error_code :: "int \<times> int \<Rightarrow> int" where
  "get_socket_error_code opt = (if fst opt = - 1 then - 1 else snd opt)"

definition show_socket_error_reason :: "int \<times> int \<Rightarrow> int" where
  "show_socket_error_reason opt = get_socket_error_code opt"

text \<open>\<^verbatim>\<open>ECONNRESET\<close> is 104 in the C library of the platform; the server build checks both sockets.\<close>

definition check_working_socket :: "int \<times> int \<Rightarrow> int \<times> int \<Rightarrow> int" where
  "check_working_socket server connect =
     (if get_socket_error_code server = 104 then get_socket_error_code server
      else if get_socket_error_code connect \<noteq> 0 then get_socket_error_code connect else 0)"

section \<open>Wi-Fi\<close>

text \<open>
  The Wi-Fi library calls \<^verbatim>\<open>event_handler\<close>; its answer to an event is whether it asks the library to
  connect again, and the new state of the event group.
\<close>

datatype system_event = SYSTEM_EVENT_STA_START | SYSTEM_EVENT_STA_DISCONNECTED | SYSTEM_EVENT_STA_CONNECTED
  | SYSTEM_EVENT_STA_GOT_IP | SYSTEM_EVENT_AP_STACONNECTED | SYSTEM_EVENT_AP_STADISCONNECTED | Other_event

definition WIFI_CONNECTED_BIT :: u32 where
  "WIFI_CONNECTED_BIT = 1"

definition wifi_up :: "EventGroup_t \<Rightarrow> (bool \<times> EventGroup_t) run" where
  "wifi_up g = run_bind (xEventGroupSetBits WIFI_CONNECTED_BIT g) (\<lambda>(_, g', _). Inr (False, g'))"

definition event_handler :: "system_event \<Rightarrow> EventGroup_t \<Rightarrow> (bool \<times> EventGroup_t) run" where
  "event_handler ev g =
     (case ev of
        SYSTEM_EVENT_STA_START \<Rightarrow> Inr (True, g)
      | SYSTEM_EVENT_STA_DISCONNECTED \<Rightarrow>
          run_bind (xEventGroupClearBits WIFI_CONNECTED_BIT g) (\<lambda>(_, g'). Inr (True, g'))
      | SYSTEM_EVENT_STA_CONNECTED \<Rightarrow> Inr (False, g)
      | SYSTEM_EVENT_STA_GOT_IP \<Rightarrow> wifi_up g
      | SYSTEM_EVENT_AP_STACONNECTED \<Rightarrow> wifi_up g
      | SYSTEM_EVENT_AP_STADISCONNECTED \<Rightarrow>
          run_bind (xEventGroupClearBits WIFI_CONNECTED_BIT g) (\<lambda>(_, g'). Inr (False, g'))
      | Other_event \<Rightarrow> Inr (False, g))"

text \<open>
  \<open>errs\<close> are the answers of the checked calls of the Wi-Fi library, in order: event loop, init,
  mode, configuration and start. \<^verbatim>\<open>ESP_ERROR_CHECK\<close> aborts on the first that is not \<^verbatim>\<open>ESP_OK\<close>.
\<close>

definition wifi_init_sta :: "bool \<Rightarrow> esp_err_t list \<Rightarrow> EventGroup_t run" where
  "wifi_init_sta ok errs =
     run_bind (xEventGroupCreate ok) (\<lambda>g. if list_all (\<lambda>e. e = ESP_OK) errs then Inr g else Inl Assert_Failed)"

text \<open>The access point variant differs only in the configuration it hands to the library.\<close>

definition wifi_init_softap :: "bool \<Rightarrow> esp_err_t list \<Rightarrow> EventGroup_t run" where
  "wifi_init_softap ok errs =
     run_bind (xEventGroupCreate ok) (\<lambda>g. if list_all (\<lambda>e. e = ESP_OK) errs then Inr g else Inl Assert_Failed)"

section \<open>Messages\<close>

text \<open>What a sender puts on the wire, and what the speaker should make of it.\<close>

datatype wire_msg = Header WAVEFORMATEX | Data "byte list" | Other u32

fun encode :: "wire_msg \<Rightarrow> byte list" where
  "encode (Header w) = le32 1 @ le32 20 @ wfx_bytes w"
| "encode (Data bs) = le32 2 @ le32 (of_nat (length bs)) @ bs"
| "encode (Other c) = le32 c"

definition playable :: "WAVEFORMATEX \<Rightarrow> bool" where
  "playable w \<longleftrightarrow> stereo16 w \<and> 2442 \<le> unat (nSamplesPerSec w) \<and> unat (nSamplesPerSec w) \<le> 1333333"

fun good_msg :: "wire_msg \<Rightarrow> bool" where
  "good_msg (Header w) = playable w"
| "good_msg (Data bs) = (length bs \<le> BUFFER_BYTES)"
| "good_msg (Other c) = (c \<noteq> 1 \<and> c \<noteq> 2)"

fun wire_frames :: "wire_msg \<Rightarrow> byte list list" where
  "wire_frames (Data bs) = stereo_frames bs"
| "wire_frames _ = []"

fun wire_wfx :: "wire_msg \<Rightarrow> WAVEFORMATEX \<Rightarrow> WAVEFORMATEX" where
  "wire_wfx (Header w) _ = w"
| "wire_wfx _ w = w"

definition tcp_inv :: "nat \<Rightarrow> tcp_state \<Rightarrow> bool" where
  "tcp_inv n t \<longleftrightarrow> db_inv (db t) \<and> render_inv n (rend t) \<and> playable (wfx t)"

lemma read_law:
  assumes "db_inv (db t)" "db_content (db t) = x @ rest" "length x < db_ready (db t)"
  shows "\<exists>d. read_or_spin (int (length x)) t = Inr (x, t\<lparr>db := d\<rparr>) \<and> db_inv d \<and>
     db_content d = rest \<and> db_ready d + length x = db_ready (db t)"
  using db.get_prefix [OF assms] by (auto simp: db_get_def read_or_spin_def)

lemma read_4:
  assumes "db_inv (db t)" "db_content (db t) = le32 c @ rest" "4 < db_ready (db t)"
  shows "\<exists>d. read_or_spin 4 t = Inr (le32 c, t\<lparr>db := d\<rparr>) \<and> db_inv d \<and>
     db_content d = rest \<and> db_ready d + 4 = db_ready (db t)"
  using read_law [OF assms(1,2)] assms(3) by simp

lemma overwrite_whole: "length ys = length xs \<Longrightarrow> overwrite xs 0 ys = ys"
  by (simp add: overwrite_def)

lemma recv_header_law:
  assumes "tcp_inv n t" "db_content (db t) = le32 20 @ wfx_bytes w @ rest" "24 < db_ready (db t)" "playable w"
  shows "\<exists>d. recv_header t = Inr (t\<lparr>db := d, wfx := w\<rparr>) \<and> tcp_inv n (t\<lparr>db := d, wfx := w\<rparr>) \<and>
     db_content d = rest \<and> db_ready d + 24 = db_ready (db t)"
proof -
  obtain d1 where d1: "read_or_spin 4 t = Inr (le32 20, t\<lparr>db := d1\<rparr>)" "db_inv d1"
      "db_content d1 = wfx_bytes w @ rest" "db_ready d1 + 4 = db_ready (db t)"
    using read_4 [of t 20] assms(1-3) by (auto simp: tcp_inv_def)
  obtain d2 where d2: "read_or_spin 20 (t\<lparr>db := d1\<rparr>) = Inr (wfx_bytes w, t\<lparr>db := d2\<rparr>)" "db_inv d2"
      "db_content d2 = rest" "db_ready d2 + 20 = db_ready d1"
    using read_law [of "t\<lparr>db := d1\<rparr>" "wfx_bytes w" rest] d1 assms(3) by auto
  have "recv_header t = Inr (t\<lparr>db := d2, wfx := w\<rparr>)"
    using d1(1) d2(1) by (simp add: recv_header_def sizeof_WAVEFORMATEX_def overwrite_whole wfx_roundtrip)
  then show ?thesis using assms(1,4) d1(4) d2(2-4) by (auto simp: tcp_inv_def)
qed

lemma recv_data_law:
  assumes "tcp_inv n t" "db_content (db t) = le32 (of_nat (length bs)) @ bs @ rest" "4 + length bs < db_ready (db t)"
    "length bs \<le> BUFFER_BYTES" "length stack = BUFFER_BYTES" "env_drains n env" "4096 \<le> length env"
  shows "\<exists>d r stack'. recv_data env stack t = Inr (t\<lparr>db := d, rend := r\<rparr>, stack', stereo_frames bs, Loop_done) \<and>
     tcp_inv n (t\<lparr>db := d, rend := r\<rparr>) \<and> length stack' = BUFFER_BYTES \<and>
     db_content d = rest \<and> db_ready d + (4 + length bs) = db_ready (db t)"
proof -
  let ?n = "of_nat (length bs) :: u32"
  have small: "length bs < 2 ^ 31" using assms(4) by (simp add: BUFFER_BYTES_def)
  then have n: "unat ?n = length bs" "sint ?n = int (length bs)"
    by (simp_all add: unat_of_nat take_bit_nat_eq_self signed_of_nat signed_take_bit_int_eq_self)
  obtain d1 where d1: "read_or_spin 4 t = Inr (le32 ?n, t\<lparr>db := d1\<rparr>)" "db_inv d1"
      "db_content d1 = bs @ rest" "db_ready d1 + 4 = db_ready (db t)"
    using read_4 [of t ?n] assms(1-3) by (auto simp: tcp_inv_def)
  obtain d2 where d2: "read_or_spin (int (length bs)) (t\<lparr>db := d1\<rparr>) = Inr (bs, t\<lparr>db := d2\<rparr>)" "db_inv d2"
      "db_content d2 = rest" "db_ready d2 + length bs = db_ready d1"
    using read_law [of "t\<lparr>db := d1\<rparr>" bs rest] d1 assms(3) by auto
  obtain c where c: "renderer_instance (rend t) = Some c"
    using assms(1) by (auto simp: tcp_inv_def render_inv_def split: option.splits)
  have quarter: "length bs div 4 \<le> length env" using assms(4,7) by (simp add: BUFFER_BYTES_def)
  let ?stack = "overwrite stack 0 bs"
  have st: "length ?stack = BUFFER_BYTES" "take (length bs) ?stack = bs"
    using assms(4,5) by (simp_all add: overwrite_def)
  obtain r where r: "render_samples env ?stack ?n (wfx t) (rend t) = Inr (r, stereo_frames bs, Loop_done)"
      "render_inv n r"
    using render_samples_law [of n "rend t" c "wfx t" ?n ?stack env] assms c n st quarter
    by (auto simp: tcp_inv_def playable_def rate_ok_def BUFFER_BYTES_def)
  have "recv_data env stack t = Inr (t\<lparr>db := d2, rend := r\<rparr>, ?stack, stereo_frames bs, Loop_done)"
    using d1(1) d2(1) n r(1) assms(4) by (simp add: recv_data_def Let_def)
  then show ?thesis using assms(1) d1(4) d2(2-4) r(2) st(1)
    by (intro exI [of _ d2] exI [of _ r] exI [of _ ?stack]) (auto simp: tcp_inv_def)
qed

lemma command_step_law:
  assumes "tcp_inv n t" "db_content (db t) = encode m @ rest" "length (encode m) < db_ready (db t)" "good_msg m"
    "length stack = BUFFER_BYTES" "env_drains n env" "4096 \<le> length env"
  shows "\<exists>t' stack'. command_step env stack t = Inr (t', stack', wire_frames m, Loop_done) \<and> tcp_inv n t' \<and>
     length stack' = BUFFER_BYTES \<and> db_content (db t') = rest \<and> wfx t' = wire_wfx m (wfx t) \<and>
     db_ready (db t') + length (encode m) = db_ready (db t)"
proof (cases m)
  case (Header w)
  obtain d1 where d1: "read_or_spin 4 t = Inr (le32 1, t\<lparr>db := d1\<rparr>)" "db_inv d1"
      "db_content d1 = le32 20 @ wfx_bytes w @ rest" "db_ready d1 + 4 = db_ready (db t)"
    using read_4 [of t 1] assms(1-3) Header by (auto simp: tcp_inv_def)
  have "tcp_inv n (t\<lparr>db := d1\<rparr>)" using assms(1) d1(2) by (simp add: tcp_inv_def)
  from recv_header_law [OF this, of w rest] obtain d2 where
    "recv_header (t\<lparr>db := d1\<rparr>) = Inr (t\<lparr>db := d2, wfx := w\<rparr>)" "tcp_inv n (t\<lparr>db := d2, wfx := w\<rparr>)"
    "db_content d2 = rest" "db_ready d2 + 24 = db_ready d1"
    using d1(3,4) assms(3,4) Header by auto
  with d1 assms(5) Header show ?thesis by (simp add: command_step_def command_of_def)
next
  case (Data bs)
  obtain d1 where d1: "read_or_spin 4 t = Inr (le32 2, t\<lparr>db := d1\<rparr>)" "db_inv d1"
      "db_content d1 = le32 (of_nat (length bs)) @ bs @ rest" "db_ready d1 + 4 = db_ready (db t)"
    using read_4 [of t 2] assms(1-3) Data by (auto simp: tcp_inv_def)
  have "tcp_inv n (t\<lparr>db := d1\<rparr>)" using assms(1) d1(2) by (simp add: tcp_inv_def)
  from recv_data_law [OF this, of bs rest stack env] obtain d2 r stack' where
    "recv_data env stack (t\<lparr>db := d1\<rparr>) = Inr (t\<lparr>db := d2, rend := r\<rparr>, stack', stereo_frames bs, Loop_done)"
    "tcp_inv n (t\<lparr>db := d2, rend := r\<rparr>)" "length stack' = BUFFER_BYTES" "db_content d2 = rest"
    "db_ready d2 + (4 + length bs) = db_ready d1"
    using d1(3,4) assms(3-7) Data by auto
  with d1 Data show ?thesis by (auto simp: command_step_def command_of_def)
next
  case (Other c)
  obtain d1 where d1: "read_or_spin 4 t = Inr (le32 c, t\<lparr>db := d1\<rparr>)" "db_inv d1"
      "db_content d1 = rest" "db_ready d1 + 4 = db_ready (db t)"
    using read_4 [of t c] assms(1-3) Other by (auto simp: tcp_inv_def)
  have "tcp_inv n (t\<lparr>db := d1\<rparr>)" using assms(1) d1(2) by (simp add: tcp_inv_def)
  with d1 assms(4,5) Other show ?thesis by (simp add: command_step_def command_of_def)
qed

lemma command_loop_law:
  "tcp_inv n t \<Longrightarrow> db_content (db t) = concat (map encode ms) @ rest \<Longrightarrow>
   length (concat (map encode ms)) < db_ready (db t) \<Longrightarrow> (\<And>m. m \<in> set ms \<Longrightarrow> good_msg m) \<Longrightarrow>
   length stack = BUFFER_BYTES \<Longrightarrow> length envs = length ms \<Longrightarrow>
   (\<And>env. env \<in> set envs \<Longrightarrow> env_drains n env \<and> 4096 \<le> length env) \<Longrightarrow>
   \<exists>t'. command_loop envs stack t = Inr (t', concat (map wire_frames ms)) \<and> tcp_inv n t' \<and>
     db_content (db t') = rest \<and> wfx t' = fold wire_wfx ms (wfx t)"
proof (induction ms arbitrary: t stack envs)
  case Nil
  then show ?case by simp
next
  case (Cons m ms)
  obtain env es where envs: "envs = env # es" using Cons.prems(6) by (cases envs) auto
  obtain t1 stack1 where t1: "command_step env stack t = Inr (t1, stack1, wire_frames m, Loop_done)" "tcp_inv n t1"
      "length stack1 = BUFFER_BYTES" "db_content (db t1) = concat (map encode ms) @ rest"
      "wfx t1 = wire_wfx m (wfx t)" "db_ready (db t1) + length (encode m) = db_ready (db t)"
    using command_step_law [OF Cons.prems(1), of m "concat (map encode ms) @ rest" stack env]
      Cons.prems(2-7) envs by auto
  have "\<exists>t'. command_loop es stack1 t1 = Inr (t', concat (map wire_frames ms)) \<and> tcp_inv n t' \<and>
     db_content (db t') = rest \<and> wfx t' = fold wire_wfx ms (wfx t1)"
    by (rule Cons.IH [OF t1(2,4)]) (use Cons.prems t1 envs in auto)
  then show ?case using t1(1,5) envs by auto
qed

section \<open>Receiving\<close>

lemma thread_receive_law:
  assumes "db_inv (at_db a)" "length bs < db_free (at_db a)"
  shows "\<exists>d. thread_receive bs a = Inr (a\<lparr>at_db := d, render_started := render_started a \<or> 50 < getBufferPercent d\<rparr>) \<and>
     db_inv d \<and> db_content d = db_content (at_db a) @ bs \<and> db_free d + length bs = db_free (at_db a)"
  using db.put_law [OF assms] by (auto simp: thread_receive_def)

lemma percent_by_free:
  assumes "db_inv s" "db_free s + n = NUMBER_OF_BUFFER * LENGTH_OF_BUFFER" "n < NUMBER_OF_BUFFER * LENGTH_OF_BUFFER"
  shows "50 < getBufferPercent s \<longleftrightarrow> 3 * LENGTH_OF_BUFFER \<le> n"
proof -
  have "getBufferPercent s = 20 * int (n div LENGTH_OF_BUFFER)"
    using db_used_by_free(1) [OF assms] db_invD(3) [OF assms(1)]
    by (simp add: getBufferPercent_def NUMBER_OF_BUFFER_def flip: int_nat_eq)
  moreover have "3 \<le> n div LENGTH_OF_BUFFER \<longleftrightarrow> 3 * LENGTH_OF_BUFFER \<le> n"
    by (rule less_eq_div_iff_mult_less_eq) simp
  ultimately show ?thesis by linarith
qed

text \<open>\<open>n\<close> bytes have been received since the buffer was initialised, and none has been read.\<close>

definition received :: "byte list \<Rightarrow> audio_thread_state \<Rightarrow> bool" where
  "received bs a \<longleftrightarrow> db_inv (at_db a) \<and> db_content (at_db a) = bs \<and>
     db_free (at_db a) + length bs = NUMBER_OF_BUFFER * LENGTH_OF_BUFFER \<and>
     (render_started a \<longleftrightarrow> 3 * LENGTH_OF_BUFFER \<le> length bs)"

lemma audio_thread_law:
  "received bs a \<Longrightarrow> length bs + length (concat chunks) < NUMBER_OF_BUFFER * LENGTH_OF_BUFFER \<Longrightarrow>
   \<exists>a'. audio_thread (map Recv chunks) a = Inr a' \<and> received (bs @ concat chunks) a' \<and>
     thread_closed a' = thread_closed a"
proof (induction chunks arbitrary: bs a)
  case Nil
  then show ?case by simp
next
  case (Cons c cs)
  have inv: "db_inv (at_db a)" "length c < db_free (at_db a)"
    using Cons.prems by (auto simp: received_def)
  obtain d where d: "thread_receive c a
        = Inr (a\<lparr>at_db := d, render_started := render_started a \<or> 50 < getBufferPercent d\<rparr>)" "db_inv d"
      "db_content d = bs @ c" "db_free d + length (bs @ c) = NUMBER_OF_BUFFER * LENGTH_OF_BUFFER"
    using thread_receive_law [OF inv] Cons.prems(1) by (auto simp: received_def)
  have "50 < getBufferPercent d \<longleftrightarrow> 3 * LENGTH_OF_BUFFER \<le> length (bs @ c)"
    using percent_by_free [OF d(2,4)] Cons.prems(2) by simp
  then have "received (bs @ c) (a\<lparr>at_db := d, render_started := render_started a \<or> 50 < getBufferPercent d\<rparr>)"
    using Cons.prems(1) d(2-4) by (auto simp: received_def)
  from Cons.IH [OF this] show ?case using Cons.prems(2) d(1) by auto
qed

definition thread_start :: audio_thread_state where
  "thread_start = \<lparr>at_db = init_data_buffer db_static, render_started = False, thread_closed = False\<rparr>"

lemma received_start: "received [] thread_start"
  using db_inv_init by (simp add: received_def thread_start_def)

lemma received_ready:
  assumes "received bs a" "length bs < NUMBER_OF_BUFFER * LENGTH_OF_BUFFER"
  shows "db_ready (at_db a) = length bs div LENGTH_OF_BUFFER * LENGTH_OF_BUFFER"
  using assms db_used_by_free [of "at_db a" "length bs"]
  by (intro write_from_init_ready [where d = bs]) (auto simp: received_def)

section \<open>Properties\<close>



lemma read_word_law:
  assumes "db_inv (db t)" "db_content (db t) = le32 c @ le32 k @ xs @ rest" "8 + length xs < db_ready (db t)"
  shows "\<exists>d1 d2 d3. read_or_spin 4 t = Inr (le32 c, t\<lparr>db := d1\<rparr>) \<and>
     read_or_spin 4 (t\<lparr>db := d1\<rparr>) = Inr (le32 k, t\<lparr>db := d2\<rparr>) \<and>
     read_or_spin (int (length xs)) (t\<lparr>db := d2\<rparr>) = Inr (xs, t\<lparr>db := d3\<rparr>)"
proof -
  obtain d1 where d1: "read_or_spin 4 t = Inr (le32 c, t\<lparr>db := d1\<rparr>)" "db_inv d1"
      "db_content d1 = le32 k @ xs @ rest" "db_ready d1 + 4 = db_ready (db t)"
    using read_4 [OF assms(1,2)] assms(3) by auto
  obtain d2 where d2: "read_or_spin 4 (t\<lparr>db := d1\<rparr>) = Inr (le32 k, t\<lparr>db := d2\<rparr>)" "db_inv d2"
      "db_content d2 = xs @ rest" "db_ready d2 + 4 = db_ready d1"
    using read_4 [of "t\<lparr>db := d1\<rparr>" k] d1 assms(3) by auto
  obtain d3 where d3: "read_or_spin (int (length xs)) (t\<lparr>db := d2\<rparr>) = Inr (xs, t\<lparr>db := d3\<rparr>)"
    using read_law [of "t\<lparr>db := d2\<rparr>" xs rest] d1(4) d2 assms(3) by auto
  from d1(1) d2(1) d3 show ?thesis by blast
qed

text \<open>
  C37. The lengths on the wire are not checked before they are used. A data command whose payload
  is longer than the 16384 bytes of the interpreter's stack array, and a header command whose
  payload is longer than the 20 bytes of the header variable, write past the end of the array.
\<close>

theorem payload_overruns:
  assumes "db_inv (db t)" "db_content (db t) = le32 c @ le32 (of_nat (length xs)) @ xs @ rest"
    "8 + length xs < db_ready (db t)" "length xs < 2 ^ 31"
    "c = 1 \<and> 20 < length xs \<or> c = 2 \<and> BUFFER_BYTES < length xs"
  shows "command_step env stack t = Inl Out_Of_Bounds"
proof -
  have n: "sint (of_nat (length xs) :: u32) = int (length xs)"
    using assms(4) by (simp add: signed_of_nat signed_take_bit_int_eq_self)
  obtain d1 d2 d3 where d: "read_or_spin 4 t = Inr (le32 c, t\<lparr>db := d1\<rparr>)"
     "read_or_spin 4 (t\<lparr>db := d1\<rparr>) = Inr (le32 (of_nat (length xs)), t\<lparr>db := d2\<rparr>)"
     "read_or_spin (int (length xs)) (t\<lparr>db := d2\<rparr>) = Inr (xs, t\<lparr>db := d3\<rparr>)"
    using read_word_law [OF assms(1-3)] by blast
  show ?thesis
    using assms(5) d n
    by (auto simp: command_step_def command_of_def recv_header_def recv_data_def sizeof_WAVEFORMATEX_def)
qed

theorem payload_overruns_witness:
  "\<exists>a. audio_thread [Recv (le32 1 @ le32 21 @ replicate 21 0 @ replicate 6000 0)] thread_start = Inr a \<and>
     (\<forall>r. command_step [] [] \<lparr>db = at_db a, wfx = demo_wfx, rend = r\<rparr> = Inl Out_Of_Bounds)"
proof -
  let ?bs = "le32 1 @ le32 21 @ replicate 21 0 @ replicate 6000 0 :: byte list"
  have sizes: "NUMBER_OF_BUFFER * LENGTH_OF_BUFFER = 25600" "LENGTH_OF_BUFFER = 5120"
    by (simp_all add: NUMBER_OF_BUFFER_def LENGTH_OF_BUFFER_def)
  obtain a where a: "audio_thread [Recv ?bs] thread_start = Inr a" "received ?bs a"
    using audio_thread_law [OF received_start, of "[?bs]"] sizes(1) by auto
  have ready: "db_ready (at_db a) = 5120"
    using received_ready [OF a(2)] sizes(1) by (simp add: LENGTH_OF_BUFFER_def)
  have "command_step [] [] \<lparr>db = at_db a, wfx = demo_wfx, rend = r\<rparr> = Inl Out_Of_Bounds" for r
    by (rule payload_overruns [where c = 1 and xs = "replicate 21 0" and rest = "replicate 6000 0"])
      (use a(2) ready in \<open>simp_all add: received_def\<close>)
  with a(1) show ?thesis by blast
qed

lemma accept_serial:
  "(\<And>c. c \<in> set cs \<Longrightarrow> 0 \<le> c) \<Longrightarrow> created l = length (thread_clients l) \<Longrightarrow>
   \<exists>l'. accept_loop (concat (map (\<lambda>c. [Accepted c, Thread_starts]) cs)) l = Inr l' \<and>
     thread_clients l' = thread_clients l @ cs"
proof (induction cs arbitrary: l)
  case (Cons c cs)
  let ?l = "l\<lparr>client_var := c, created := created l + 1, thread_clients := thread_clients l @ [c]\<rparr>"
  have "\<exists>l'. accept_loop (concat (map (\<lambda>c. [Accepted c, Thread_starts]) cs)) ?l = Inr l' \<and>
     thread_clients l' = thread_clients ?l @ cs"
    by (rule Cons.IH) (use Cons.prems in auto)
  moreover have "\<not> c < 0" using Cons.prems(1) [of c] by simp
  ultimately show ?case using Cons.prems(2) by auto
qed simp

text \<open>
  Connections and their threads. If every thread runs before the next connection is accepted,
  thread number i serves connection number i. If two connections are accepted first, both
  threads serve the second one, and the first is never served or closed, because each thread
  reads the listener's variable through a pointer. A thread whose peer has closed the connection
  does not end: \<^verbatim>\<open>recv\<close> answers 0, and any number of such answers leaves the thread as it was.
\<close>

theorem connection_threads:
  assumes "0 \<le> s" "0 \<le> b" "0 \<le> i" "\<And>c. c \<in> set cs \<Longrightarrow> 0 \<le> c" "0 \<le> c1" "0 \<le> c2"
    "render_started a \<or> getBufferPercent (at_db a) \<le> 50"
  shows "(\<exists>l. listen_tcp_server s b i (concat (map (\<lambda>c. [Accepted c, Thread_starts]) cs)) = Inr l \<and>
       thread_clients l = cs) \<and>
     (\<exists>l. listen_tcp_server s b i [Accepted c1, Accepted c2, Thread_starts, Thread_starts] = Inr l \<and>
       thread_clients l = [c2, c2]) \<and>
     audio_thread (replicate k (Recv [])) a = Inr a"
proof -
  have same: "a\<lparr>render_started := render_started a \<or> 50 < getBufferPercent (at_db a)\<rparr> = a"
    using assms(7) by auto
  have "audio_thread (replicate k (Recv [])) a = Inr a"
    by (induction k) (simp_all add: thread_receive_def buffer_write_data.simps same)
  then show ?thesis
    using assms accept_serial [of cs "\<lparr>client_var = 0, created = 0, thread_clients = []\<rparr>"]
    by (simp add: listen_tcp_server_def)
qed

theorem connection_threads_witness:
  "\<exists>l. listen_tcp_server 3 0 0 [Accepted 4, Accepted 5, Thread_starts, Thread_starts] = Inr l \<and>
     thread_clients l = [5, 5]"
  using connection_threads [of 3 0 0 "[]" 4 5 "thread_start\<lparr>render_started := True\<rparr>"] by auto

end
