(* ===== verification/Speaker_App.thy ===== *)
theory Speaker_App
  imports Tcp_Server
begin

text \<open>
  The main program, \<^verbatim>\<open>main/master.c\<close>, and the behaviour of the whole: start-up, and the Wi-Fi
  connection bit.
\<close>

section \<open>Start-up\<close>

record app =
  app_db :: db_state
  app_events :: EventGroup_t
  app_renderer :: renderer
  listener_task :: bool

text \<open>
  \<open>task_ok\<close> is the answer of \<^verbatim>\<open>xTaskCreate\<close>, which the program ignores; afterwards the main task only
  logs and sleeps.
\<close>

definition app_main ::
  "bool \<Rightarrow> esp_err_t list \<Rightarrow> bool \<Rightarrow> esp_err_t \<Rightarrow> bool \<Rightarrow> renderer \<Rightarrow> app run" where
  "app_main group_mem wifi_errs config_mem isr_err task_ok r =
     run_bind (wifi_init_sta group_mem wifi_errs) (\<lambda>g.
     run_bind (create_renderer_config config_mem) (\<lambda>config.
     run_bind (renderer_init isr_err config r) (\<lambda>r'.
       Inr \<lparr>app_db = init_data_buffer db_static, app_events = g, app_renderer = r', listener_task = task_ok\<rparr>)))"

text \<open>
  \<^verbatim>\<open>init_hardware\<close>, which the program no longer calls: \<open>fifo_ok\<close> is the result of \<^verbatim>\<open>spiRamFifoInit\<close>, and
  the function loops forever when it is 0.
\<close>

definition init_hardware :: "(nat \<Rightarrow> byte list option) \<Rightarrow> byte list \<Rightarrow> fifo_state run" where
  "init_hardware pvPortMalloc ram =
     (case spiRamFifoInit pvPortMalloc ram of None \<Rightarrow> Inl Assert_Failed
      | Some (f, ok) \<Rightarrow> if ok = 0 then Inl Blocks_Forever else Inr f)"

section \<open>The Wi-Fi events\<close>

fun handle_events :: "system_event list \<Rightarrow> EventGroup_t \<Rightarrow> EventGroup_t run" where
  "handle_events [] g = Inr g"
| "handle_events (ev # evs) g = run_bind (event_handler ev g) (\<lambda>(_, g'). handle_events evs g')"

text \<open>What the bit should say: whether the last event that decides it brought the connection up.\<close>

fun connected_after :: "bool \<Rightarrow> system_event \<Rightarrow> bool" where
  "connected_after c SYSTEM_EVENT_STA_GOT_IP = True"
| "connected_after c SYSTEM_EVENT_AP_STACONNECTED = True"
| "connected_after c SYSTEM_EVENT_STA_DISCONNECTED = False"
| "connected_after c SYSTEM_EVENT_AP_STADISCONNECTED = False"
| "connected_after c _ = c"

definition wifi_bit :: "EventGroup_t \<Rightarrow> bool" where
  "wifi_bit g \<longleftrightarrow> uxEventBits g AND WIFI_CONNECTED_BIT \<noteq> 0"

text \<open>Nobody waits for the bit in a way that clears it, as is the case in the firmware.\<close>

definition no_clearing_waiter :: "EventGroup_t \<Rightarrow> bool" where
  "no_clearing_waiter g \<longleftrightarrow> (\<forall>w \<in> set (xTasksWaitingForBits g). \<not> wants_clear (snd w))"

lemma set_connected:
  assumes "no_clearing_waiter g"
  shows "\<exists>g'. wifi_up g = Inr (False, g') \<and> wifi_bit g' \<and> no_clearing_waiter g'"
proof -
  have c: "control_free WIFI_CONNECTED_BIT" by (simp add: control_free_def WIFI_CONNECTED_BIT_def event_flags)
  have none: "filter (\<lambda>w. satisfied b w \<and> wants_clear (snd w)) (xTasksWaitingForBits g) = []" for b
    using assms by (auto simp: no_clearing_waiter_def filter_empty_conv)
  from set_bits_law [OF c, of g] obtain ret g' ws where g': "xEventGroupSetBits WIFI_CONNECTED_BIT g = Inr (ret, g', ws)"
      "set (xTasksWaitingForBits g') \<subseteq> set (xTasksWaitingForBits g)"
      "uxEventBits g' = uxEventBits g OR WIFI_CONNECTED_BIT"
    unfolding none by (auto simp: bits_union_def)
  then show ?thesis
    using assms by (auto simp: wifi_up_def wifi_bit_def no_clearing_waiter_def WIFI_CONNECTED_BIT_def
        bit.conj_disj_distrib2)
qed

lemma event_handler_law:
  assumes "no_clearing_waiter g"
  shows "\<exists>again g'. event_handler ev g = Inr (again, g') \<and> wifi_bit g' = connected_after (wifi_bit g) ev \<and>
     no_clearing_waiter g'"
proof -
  have cl: "\<exists>r g'. xEventGroupClearBits WIFI_CONNECTED_BIT g = Inr (r, g') \<and> \<not> wifi_bit g' \<and> no_clearing_waiter g'"
    using assms by (simp add: xEventGroupClearBits_def WIFI_CONNECTED_BIT_def event_flags wifi_bit_def
        no_clearing_waiter_def and.assoc)
  show ?thesis
    using cl set_connected [OF assms] assms by (cases ev) (auto simp: event_handler_def)
qed

lemma handle_events_law:
  "no_clearing_waiter g \<Longrightarrow>
   \<exists>g'. handle_events evs g = Inr g' \<and> no_clearing_waiter g' \<and> wifi_bit g' = fold (\<lambda>ev c. connected_after c ev) evs (wifi_bit g)"
proof (induction evs arbitrary: g)
  case (Cons ev evs)
  obtain again g1 where g1: "event_handler ev g = Inr (again, g1)" "wifi_bit g1 = connected_after (wifi_bit g) ev"
      "no_clearing_waiter g1"
    using event_handler_law [OF Cons.prems] by blast
  from Cons.IH [OF g1(3)] g1(1,2) show ?case by auto
qed simp

section \<open>Properties\<close>



text \<open>
  The connection bit of the event group is right after any sequence of Wi-Fi events, provided no
  task waits for it in a way that clears it: the handler never fails, and the bit is set exactly
  if the last event about the link was that an address was assigned or a station joined.
\<close>

theorem wifi_bit_follows_events:
  assumes "no_clearing_waiter g"
  shows "\<exists>g'. handle_events evs g = Inr g' \<and> wifi_bit g' = fold (\<lambda>ev c. connected_after c ev) evs (wifi_bit g)"
  using handle_events_law [OF assms] by blast

theorem wifi_bit_follows_events_witness:
  "\<exists>g'. handle_events [SYSTEM_EVENT_STA_START, SYSTEM_EVENT_STA_GOT_IP, SYSTEM_EVENT_STA_DISCONNECTED,
       SYSTEM_EVENT_STA_GOT_IP] one_waiter = Inr g' \<and> wifi_bit g'"
  using wifi_bit_follows_events [of one_waiter "[SYSTEM_EVENT_STA_START, SYSTEM_EVENT_STA_GOT_IP,
      SYSTEM_EVENT_STA_DISCONNECTED, SYSTEM_EVENT_STA_GOT_IP]"]
  by (auto simp: no_clearing_waiter_def one_waiter_def wants_clear_def event_flags)

end
