(* ===== verification/RTOS_Switch.thy ===== *)
theory RTOS_Switch
  imports RTOS_Tasks
begin

text \<open>
  The choice of the next task, \<^verbatim>\<open>vTaskSwitchContext\<close> of \<^verbatim>\<open>components/freertos/tasks.c\<close>: from the highest
  priority down, it walks once round each ready list and takes the first task that no other core runs and that
  may run on this one. Run-time statistics, the stack checks and \<^verbatim>\<open>xSwitchingContext\<close>, which is true only inside
  the call, are left out.
\<close>

section \<open>Operations\<close>

text \<open>There are two cores, 0 and 1.\<close>

definition executing_elsewhere :: "nat \<Rightarrow> nat \<Rightarrow> kernel \<Rightarrow> bool" where
  "executing_elsewhere core t k \<longleftrightarrow> list_ex (\<lambda>i. i \<noteq> core \<and> pxCurrentTCB k i = t) [0, 1]"

definition next_owner :: "kaddr \<Rightarrow> kernel \<Rightarrow> nat \<times> kernel" where
  "next_owner l k = (let (t, m) = listGET_OWNER_OF_NEXT_ENTRY l (lists k) in (t, k\<lparr>lists := m\<rparr>))"

text \<open>After skipping tasks, the index is moved on until it stands at \<open>pxRefTCB\<close> again.\<close>

partial_function (option) reset_walk :: "kaddr \<Rightarrow> nat \<Rightarrow> kernel \<Rightarrow> kernel option" where
  "reset_walk l pxRefTCB k =
     (let (pxResetTCB, k1) = next_owner l k in if pxResetTCB \<noteq> pxRefTCB then reset_walk l pxRefTCB k1 else Some k1)"

text \<open>The walk round one list: \<^verbatim>\<open>ableToSchedule\<close>, \<^verbatim>\<open>holdTop\<close> and the new state.\<close>

partial_function (option) select_loop :: "nat \<Rightarrow> kaddr \<Rightarrow> nat \<Rightarrow> bool \<Rightarrow> bool \<Rightarrow> kernel \<Rightarrow> (bool \<times> bool \<times> kernel) option" where
  "select_loop core l pxRefTCB resetListHead holdTop k =
     (let (pxTCB, k1) = next_owner l k in
      if \<not> executing_elsewhere core pxTCB k1 \<and> tskCAN_RUN_HERE core (xCoreID k1 pxTCB) then
        let k2 = k1\<lparr>pxCurrentTCB := (pxCurrentTCB k1)(core := pxTCB)\<rparr> in
        if resetListHead
        then (case reset_walk l pxRefTCB k2 of None \<Rightarrow> None | Some k3 \<Rightarrow> Some (True, holdTop, k3))
        else Some (True, holdTop, k2)
      else if pxTCB \<noteq> pxRefTCB then select_loop core l pxRefTCB True True k1
      else Some (False, True, k1))"

definition select_level :: "nat \<Rightarrow> nat \<Rightarrow> bool \<Rightarrow> kernel \<Rightarrow> (bool \<times> bool \<times> kernel) option" where
  "select_level core p holdTop k =
     (let l = pxReadyTasksLists p in
      if listLIST_IS_EMPTY l (lists k)
      then Some (False, holdTop, if holdTop then k else k\<lparr>uxTopReadyPriority := uxTopReadyPriority k - 1\<rparr>)
      else if pxIndex (lists k) l = l
      then let (pxRefTCB, k1) = next_owner l k in select_loop core l pxRefTCB False holdTop k1
      else select_loop core l (pvOwner (lists k) (pxIndex (lists k) l)) False holdTop k)"

text \<open>The loop over the priorities; the argument is \<^verbatim>\<open>uxDynamicTopReady + 1\<close>.\<close>

fun switch_loop :: "nat \<Rightarrow> nat \<Rightarrow> bool \<Rightarrow> kernel \<Rightarrow> kernel option" where
  "switch_loop core 0 holdTop k = Some k"
| "switch_loop core (Suc p) holdTop k =
     (case select_level core p holdTop k of
        None \<Rightarrow> None
      | Some (ableToSchedule, holdTop', k') \<Rightarrow> if ableToSchedule then Some k' else switch_loop core p holdTop' k')"

definition vTaskSwitchContext :: "nat \<Rightarrow> kernel \<Rightarrow> kernel run" where
  "vTaskSwitchContext core k =
     (if uxSchedulerSuspended k core \<noteq> 0 then Inr (k\<lparr>xYieldPending := (xYieldPending k)(core := True)\<rparr>)
      else if sint (uxTopReadyPriority k) \<ge> int configMAX_PRIORITIES then Inl Out_Of_Bounds
      else case switch_loop core (nat (sint (uxTopReadyPriority k) + 1)) False
                  (k\<lparr>xYieldPending := (xYieldPending k)(core := False)\<rparr>) of
             None \<Rightarrow> Inl Blocks_Forever | Some k' \<Rightarrow> Inr k')"

section \<open>The walk round a ready list\<close>

text \<open>The tasks on list \<open>l\<close> in the order in which the walk reaches them.\<close>

definition turns :: "(kaddr \<rightharpoonup> kaddr list) \<Rightarrow> kaddr \<Rightarrow> kernel \<Rightarrow> nat list \<Rightarrow> bool" where
  "turns L l k ts \<longleftrightarrow> kernel_ok k L \<and>
     (\<exists>xs. L l = Some xs \<and> ts = map (pvOwner (lists k)) (run_order (pxIndex (lists k) l) xs))"

lemma kernel_ok_index:
  assumes ok: "kernel_ok k L" and l: "L l = Some xs" "i \<in> set xs"
  shows "kernel_ok (k\<lparr>lists := (lists k)\<lparr>pxIndex := (pxIndex (lists k))(l := i)\<rparr>\<rparr>) L"
proof (rule kernel_ok_lists [OF ok])
  let ?m = "(lists k)\<lparr>pxIndex := (pxIndex (lists k))(l := i)\<rparr>"
  have "holds_list ?m l' xs'" if "L l' = Some xs'" for l' xs'
  proof -
    have "seg ?m l' xs' l' = seg (lists k) l' xs' l'" by (intro seg_cong) simp_all
    moreover have "i \<in> set xs'" if "l' = l" using that l \<open>L l' = Some xs'\<close> by simp
    ultimately show ?thesis using kernel_listsD [OF kernel_okD(1) [OF ok] that] by (simp add: holds_list_def)
  qed
  then show "kernel_lists ?m L" by (simp add: kernel_lists_def)
qed simp_all

text \<open>What the walk leaves alone.\<close>

definition same_but_index :: "kernel \<Rightarrow> kernel \<Rightarrow> bool" where
  "same_but_index k k' \<longleftrightarrow> (\<exists>f. k' = k\<lparr>lists := (lists k)\<lparr>pxIndex := f\<rparr>\<rparr>)"

lemma next_owner_step:
  assumes "turns L l k (t # ts)"
  shows "\<exists>k'. next_owner l k = (t, k') \<and> turns L l k' (ts @ [t]) \<and> same_but_index k k' \<and> pxIndex (lists k') l \<noteq> l"
proof -
  obtain xs where ok: "kernel_ok k L" and xs: "L l = Some xs" "t # ts = map (pvOwner (lists k)) (run_order (pxIndex (lists k) l) xs)"
    using assms by (auto simp: turns_def)
  obtain x r where r: "run_order (pxIndex (lists k) l) xs = x # r" "t = pvOwner (lists k) x" "ts = map (pvOwner (lists k)) r"
    using xs(2) [symmetric] by (auto simp: map_eq_Cons_conv)
  have n: "next_entry l (lists k) = x" "x \<in> set xs" "run_order x xs = r @ [x]"
    using next_entry_law [OF kernel_listsD [OF kernel_okD(1) [OF ok] xs(1)] r(1)] by auto
  let ?k = "k\<lparr>lists := (lists k)\<lparr>pxIndex := (pxIndex (lists k))(l := x)\<rparr>\<rparr>"
  have "turns L l ?k (ts @ [t])"
    unfolding turns_def using kernel_ok_index [OF ok xs(1) n(2)] xs(1) n(3) r(2,3) by auto
  moreover have "next_owner l k = (t, ?k)"
    using n(1) r(2) by (simp add: next_owner_def listGET_OWNER_OF_NEXT_ENTRY_def)
  moreover have "same_but_index k ?k" by (auto simp: same_but_index_def)
  moreover have "pxIndex (lists ?k) l \<noteq> l"
    using n(2) holds_listD(9) [OF kernel_listsD [OF kernel_okD(1) [OF ok] xs(1)]] by auto
  ultimately show ?thesis by blast
qed

interpretation ready_walk: round_robin "turns L l" "next_owner l" for L l
  by unfold_locales (use next_owner_step in blast)

definition can_run :: "nat \<Rightarrow> kernel \<Rightarrow> nat \<Rightarrow> bool" where
  "can_run core k t \<longleftrightarrow> \<not> executing_elsewhere core t k \<and> tskCAN_RUN_HERE core (xCoreID k t)"

lemma same_but_index_refl [simp]: "same_but_index k k"
  unfolding same_but_index_def by (intro exI [of _ "pxIndex (lists k)"]) simp

lemma same_but_index_trans: "same_but_index k k1 \<Longrightarrow> same_but_index k1 k2 \<Longrightarrow> same_but_index k k2"
  by (auto simp: same_but_index_def)

lemma same_but_index_current:
  assumes "same_but_index k k1"
  shows "same_but_index (k\<lparr>pxCurrentTCB := f\<rparr>) (k1\<lparr>pxCurrentTCB := f\<rparr>)"
proof -
  obtain g where "k1 = k\<lparr>lists := (lists k)\<lparr>pxIndex := g\<rparr>\<rparr>" using assms by (auto simp: same_but_index_def)
  then show ?thesis unfolding same_but_index_def by (intro exI [of _ g]) simp
qed

lemma same_but_indexD:
  assumes "same_but_index k k'"
  shows "can_run core k' = can_run core k" "pxCurrentTCB k' = pxCurrentTCB k" "uxTopReadyPriority k' = uxTopReadyPriority k"
    "pvContainer (lists k') = pvContainer (lists k)" "pvOwner (lists k') = pvOwner (lists k)" "xCoreID k' = xCoreID k"
    "executing_elsewhere core t k' = executing_elsewhere core t k"
  using assms by (auto simp: same_but_index_def can_run_def executing_elsewhere_def fun_eq_iff)

lemma turns_current [simp]: "turns L l (k\<lparr>pxCurrentTCB := f\<rparr>) ts = turns L l k ts"
  by (simp add: turns_def kernel_ok_def fits_on_def)

lemma reset_walk_ok:
  assumes "turns L l k (ys @ ref # zs)" "ref \<notin> set ys"
  shows "\<exists>k'. reset_walk l ref k = Some k' \<and> turns L l k' (zs @ ys @ [ref]) \<and> same_but_index k k' \<and> pxIndex (lists k') l \<noteq> l"
  using assms
proof (induction ys arbitrary: k zs)
  case Nil
  then show ?case using next_owner_step [of L l k ref zs] by (subst reset_walk.simps) auto
next
  case (Cons y ys)
  obtain k1 where k1: "next_owner l k = (y, k1)" "turns L l k1 (ys @ ref # zs @ [y])" "same_but_index k k1"
    using next_owner_step [of L l k y "ys @ ref # zs"] Cons.prems(1) by auto
  then obtain k' where "reset_walk l ref k1 = Some k'" "turns L l k' ((zs @ [y]) @ ys @ [ref])" "same_but_index k1 k'" "pxIndex (lists k') l \<noteq> l"
    using Cons.IH [of k1 "zs @ [y]"] Cons.prems(2) by auto
  moreover have "reset_walk l ref k = reset_walk l ref k1"
    using k1(1) Cons.prems(2) by (subst reset_walk.simps) auto
  ultimately show ?case using same_but_index_trans [OF k1(3)] by auto
qed

text \<open>The walk finds the first task in the order of turns that can run, if there is one.\<close>

lemma select_found:
  assumes "turns L l k (y # ys @ vs)" "can_run core k y"
    "reset \<Longrightarrow> ref \<in> set (ys @ vs @ [y])"
  shows "\<exists>k'. select_loop core l ref reset hold k = Some (True, hold, k') \<and>
    same_but_index (k\<lparr>pxCurrentTCB := (pxCurrentTCB k)(core := y)\<rparr>) k' \<and> kernel_ok k' L"
proof -
  obtain k1 where k1: "next_owner l k = (y, k1)" "turns L l k1 ((ys @ vs) @ [y])" "same_but_index k k1"
    using next_owner_step [of L l k y "ys @ vs"] assms(1) by auto
  let ?k2 = "k1\<lparr>pxCurrentTCB := (pxCurrentTCB k1)(core := y)\<rparr>"
  have t2: "turns L l ?k2 (ys @ vs @ [y])" using k1(2) by simp
  have s2: "same_but_index (k\<lparr>pxCurrentTCB := (pxCurrentTCB k)(core := y)\<rparr>) ?k2"
    using same_but_index_current [OF k1(3)] same_but_indexD(2) [OF k1(3)] by simp
  have c: "\<not> executing_elsewhere core y k1 \<and> tskCAN_RUN_HERE core (xCoreID k1 y)"
    using assms(2) same_but_indexD(6,7) [OF k1(3)] by (simp add: can_run_def)
  show ?thesis
  proof (cases reset)
    case False
    then have "select_loop core l ref reset hold k = Some (True, hold, ?k2)"
      using k1(1) c by (subst select_loop.simps) simp
    then show ?thesis using s2 t2 by (auto simp: turns_def)
  next
    case True
    then obtain as bs where "ys @ vs @ [y] = as @ ref # bs" "ref \<notin> set as" using assms(3) by (meson split_list_first)
    then obtain k3 where k3: "reset_walk l ref ?k2 = Some k3" "turns L l k3 (bs @ as @ [ref])" "same_but_index ?k2 k3"
      using reset_walk_ok [of L l ?k2 as ref bs] t2 by auto
    then have "select_loop core l ref reset hold k = Some (True, hold, k3)"
      using True k1(1) c by (subst select_loop.simps) simp
    then show ?thesis using same_but_index_trans [OF s2 k3(3)] k3(2) by (auto simp: turns_def)
  qed
qed

lemma select_loop_ok:
  assumes "turns L l k (ys @ ref # vs)" "ref \<notin> set ys"
  shows "case filter (can_run core k) (ys @ [ref]) of
      [] \<Rightarrow> \<exists>k'. select_loop core l ref reset hold k = Some (False, True, k') \<and> same_but_index k k' \<and> kernel_ok k' L
    | c # _ \<Rightarrow> \<exists>h k'. select_loop core l ref reset hold k = Some (True, h, k') \<and>
        same_but_index (k\<lparr>pxCurrentTCB := (pxCurrentTCB k)(core := c)\<rparr>) k' \<and> kernel_ok k' L"
  using assms
proof (induction ys arbitrary: k vs reset hold)
  case Nil
  show ?case
  proof (cases "can_run core k ref")
    case True
    then show ?thesis using select_found [of L l k ref "[]" vs core reset ref hold] Nil by auto
  next
    case False
    obtain k1 where k1: "next_owner l k = (ref, k1)" "turns L l k1 (vs @ [ref])" "same_but_index k k1"
      using next_owner_step [of L l k ref vs] Nil by auto
    have "select_loop core l ref reset hold k = Some (False, True, k1)"
      using k1(1) False same_but_indexD(6,7) [OF k1(3)] by (subst select_loop.simps) (auto simp: can_run_def)
    then show ?thesis using False k1 by (auto simp: turns_def)
  qed
next
  case (Cons y ys)
  show ?case
  proof (cases "can_run core k y")
    case True
    then show ?thesis using select_found [of L l k y ys "ref # vs" core reset ref hold] Cons.prems by auto
  next
    case False
    obtain k1 where k1: "next_owner l k = (y, k1)" "turns L l k1 (ys @ ref # vs @ [y])" "same_but_index k k1"
      using next_owner_step [of L l k y "ys @ ref # vs"] Cons.prems(1) by auto
    note s = same_but_indexD [OF k1(3)]
    have eq: "select_loop core l ref reset hold k = select_loop core l ref True True k1"
      using k1(1) False s(6,7) Cons.prems(2) by (subst select_loop.simps) (auto simp: can_run_def)
    have fl: "filter (can_run core k) ((y # ys) @ [ref]) = filter (can_run core k1) (ys @ [ref])" using False s(1) by simp
    have "ref \<notin> set ys" using Cons.prems(2) by simp
    note ih = Cons.IH [OF k1(2) this, of True True]
    show ?thesis
    proof (cases "filter (can_run core k1) (ys @ [ref])")
      case Nil
      then show ?thesis using ih same_but_index_trans [OF k1(3)] unfolding fl eq by auto
    next
      case (Cons c cs)
      then show ?thesis
        using ih s(2) same_but_index_trans [OF same_but_index_current [OF k1(3)]] unfolding fl eq by auto
    qed
  qed
qed

section \<open>One priority\<close>

definition ready_at :: "kernel \<Rightarrow> nat \<Rightarrow> nat \<Rightarrow> bool" where
  "ready_at k p t \<longleftrightarrow> pvContainer (lists k) (xGenericListItem t) = Some (pxReadyTasksLists p)"

lemma ready_owners:
  assumes ok: "kernel_ok k L" and xs: "L (pxReadyTasksLists p) = Some xs" and p: "p < configMAX_PRIORITIES"
  shows "distinct (map (pvOwner (lists k)) xs)" "t \<in> set (map (pvOwner (lists k)) xs) \<longleftrightarrow> ready_at k p t"
proof -
  note d = holds_listD [OF kernel_listsD [OF kernel_okD(1) [OF ok] xs]]
  have it: "\<exists>t. x = xGenericListItem t" if "x \<in> set xs" for x
  proof -
    have "fits_on x (pxReadyTasksLists p)" using kernel_okD(4) [OF ok] d(4) that by blast
    then show ?thesis using p generic_not_event [of "pxReadyTasksLists p"] by (auto simp: fits_on_def)
  qed
  have "inj_on (pvOwner (lists k)) (set xs)"
  proof (rule inj_onI)
    fix x y assume "x \<in> set xs" "y \<in> set xs" "pvOwner (lists k) x = pvOwner (lists k) y"
    then show "x = y" using it [of x] it [of y] kernel_okD(5) [OF ok] by auto
  qed
  then show "distinct (map (pvOwner (lists k)) xs)" using d(2) by (simp add: distinct_map)
  show "t \<in> set (map (pvOwner (lists k)) xs) \<longleftrightarrow> ready_at k p t"
  proof
    assume "t \<in> set (map (pvOwner (lists k)) xs)"
    then obtain x where "x \<in> set xs" "t = pvOwner (lists k) x" by auto
    then show "ready_at k p t" using it [of x] d(4) [of x] kernel_okD(5) [OF ok] by (auto simp: ready_at_def)
  next
    assume "ready_at k p t"
    then have "xGenericListItem t \<in> set xs" using d(4) by (simp add: ready_at_def)
    then have "pvOwner (lists k) (xGenericListItem t) \<in> set (map (pvOwner (lists k)) xs)" by simp
    then show "t \<in> set (map (pvOwner (lists k)) xs)" using kernel_okD(5) [OF ok] by simp
  qed
qed

text \<open>Before the walk, the tasks stand in turn with the one the index belongs to at the end.\<close>

lemma select_level_walk:
  assumes ok: "kernel_ok k L" and xs: "L (pxReadyTasksLists p) = Some xs" "xs \<noteq> []" and p: "p < configMAX_PRIORITIES"
  shows "\<exists>k1 ts ref. select_level core p hold k = select_loop core (pxReadyTasksLists p) ref False hold k1 \<and>
    turns L (pxReadyTasksLists p) k1 (ts @ [ref]) \<and> ref \<notin> set ts \<and> same_but_index k k1 \<and>
    (\<forall>t. t \<in> set (ts @ [ref]) \<longleftrightarrow> ready_at k p t)"
proof -
  let ?l = "pxReadyTasksLists p" and ?own = "pvOwner (lists k)"
  note h = kernel_listsD [OF kernel_okD(1) [OF ok] xs(1)]
  have ne: "\<not> listLIST_IS_EMPTY ?l (lists k)" using holds_list_empty [OF h] xs(2) by simp
  have perm: "mset (map ?own (run_order i xs)) = mset (map ?own xs)" for i by (simp add: mset_run_order)
  have dist: "distinct (map ?own (run_order i xs))" for i
    using ready_owners(1) [OF ok xs(1) p] perm [of i] by (metis mset_eq_imp_distinct_iff)
  have mem: "t \<in> set (map ?own (run_order i xs)) \<longleftrightarrow> ready_at k p t" for i t
    using ready_owners(2) [OF ok xs(1) p] perm [of i] by (metis mset_eq_setD)
  have tu: "turns L ?l k (map ?own (run_order (pxIndex (lists k) ?l) xs))" using ok xs(1) by (auto simp: turns_def)
  show ?thesis
  proof (cases "pxIndex (lists k) ?l = ?l")
    case True
    then obtain t ts where ts: "map ?own (run_order (pxIndex (lists k) ?l) xs) = t # ts"
      using xs(2) run_order_end [of ?l xs] holds_listD(9) [OF h] by (cases xs) auto
    then obtain k1 where k1: "next_owner ?l k = (t, k1)" "turns L ?l k1 (ts @ [t])" "same_but_index k k1"
      using next_owner_step [of L ?l k t ts] tu by auto
    moreover have "select_level core p hold k = select_loop core ?l t False hold k1"
      using True ne k1(1) by (simp add: select_level_def)
    moreover have "t \<notin> set ts" "\<forall>u. u \<in> set (ts @ [t]) \<longleftrightarrow> ready_at k p u"
      using dist [of "pxIndex (lists k) ?l"] mem [of _ "pxIndex (lists k) ?l"] unfolding ts by auto
    ultimately show ?thesis by blast
  next
    case False
    then have "pxIndex (lists k) ?l \<in> set xs" using holds_listD(8) [OF h] by simp
    then obtain ys zs where s: "xs = ys @ pxIndex (lists k) ?l # zs" "pxIndex (lists k) ?l \<notin> set ys" by (meson split_list_first)
    then have ro: "run_order (pxIndex (lists k) ?l) xs = (zs @ ys) @ [pxIndex (lists k) ?l]" using run_order_split by fastforce
    have "select_level core p hold k = select_loop core ?l (?own (pxIndex (lists k) ?l)) False hold k"
      using False ne by (simp add: select_level_def Let_def)
    moreover have "turns L ?l k (map ?own (zs @ ys) @ [?own (pxIndex (lists k) ?l)])" using tu unfolding ro by simp
    moreover have "?own (pxIndex (lists k) ?l) \<notin> set (map ?own (zs @ ys))"
      using dist [of "pxIndex (lists k) ?l"] unfolding ro by simp
    moreover have "\<forall>u. u \<in> set (map ?own (zs @ ys) @ [?own (pxIndex (lists k) ?l)]) \<longleftrightarrow> ready_at k p u"
      using mem [of _ "pxIndex (lists k) ?l"] unfolding ro by simp
    ultimately show ?thesis using same_but_index_refl by blast
  qed
qed

lemma select_level_ok:
  assumes ok: "kernel_ok k L" and xs: "L (pxReadyTasksLists p) = Some xs" "xs \<noteq> []" and p: "p < configMAX_PRIORITIES"
  shows "if \<exists>t. ready_at k p t \<and> can_run core k t
    then \<exists>c h k'. select_level core p hold k = Some (True, h, k') \<and> ready_at k p c \<and> can_run core k c \<and>
           same_but_index (k\<lparr>pxCurrentTCB := (pxCurrentTCB k)(core := c)\<rparr>) k' \<and> kernel_ok k' L
    else \<exists>k'. select_level core p hold k = Some (False, True, k') \<and> same_but_index k k' \<and> kernel_ok k' L"
proof -
  obtain k1 ts ref where w: "select_level core p hold k = select_loop core (pxReadyTasksLists p) ref False hold k1"
    "turns L (pxReadyTasksLists p) k1 (ts @ [ref])" "ref \<notin> set ts" "same_but_index k k1"
    "\<And>t. t \<in> set (ts @ [ref]) \<longleftrightarrow> ready_at k p t"
    using select_level_walk [OF assms] by blast
  note s = same_but_indexD [OF w(4)]
  note sl = select_loop_ok [of L "pxReadyTasksLists p" k1 ts ref "[]" core False hold, OF w(2,3)]
  show ?thesis
  proof (cases "filter (can_run core k1) (ts @ [ref])")
    case Nil
    then have "\<not> (\<exists>t. ready_at k p t \<and> can_run core k t)"
      using w(5) s(1) [of core] unfolding filter_empty_conv by metis
    then show ?thesis using sl w(1) same_but_index_trans [OF w(4)] unfolding Nil by auto
  next
    case (Cons c cs)
    then have "c \<in> set (filter (can_run core k1) (ts @ [ref]))" by simp
    then have "c \<in> set (ts @ [ref]) \<and> can_run core k1 c" by (simp only: set_filter mem_Collect_eq)
    then have c: "ready_at k p c" "can_run core k c" using w(5) [of c] s(1) [of core] by simp_all
    obtain h k' where k': "select_level core p hold k = Some (True, h, k')"
      "same_but_index (k1\<lparr>pxCurrentTCB := (pxCurrentTCB k1)(core := c)\<rparr>) k'" "kernel_ok k' L"
      using sl w(1) unfolding Cons by auto
    have "same_but_index (k\<lparr>pxCurrentTCB := (pxCurrentTCB k)(core := c)\<rparr>) k'"
      using same_but_index_trans [OF same_but_index_current [OF w(4)] k'(2)] s(2) by simp
    then show ?thesis using c k'(1,3) by auto
  qed
qed

section \<open>The choice\<close>

text \<open>\<^verbatim>\<open>uxTopReadyPriority\<close> is a bound for the priorities of the ready tasks.\<close>

definition top_bounds :: "kernel \<Rightarrow> (kaddr \<rightharpoonup> kaddr list) \<Rightarrow> nat \<Rightarrow> bool" where
  "top_bounds k L T \<longleftrightarrow> T < configMAX_PRIORITIES \<and> uxTopReadyPriority k = of_nat T \<and>
     (\<forall>p. T < p \<and> p < configMAX_PRIORITIES \<longrightarrow> L (pxReadyTasksLists p) = Some [])"

lemma empty_level:
  "kernel_ok k L \<Longrightarrow> L (pxReadyTasksLists p) = Some [] \<Longrightarrow> \<not> ready_at k p t"
  using holds_listD(4) [OF kernel_listsD [OF kernel_okD(1)]] by (fastforce simp: ready_at_def)

lemma ready_level:
  assumes "kernel_ok k L" "ready_at k p t"
  shows "p < configMAX_PRIORITIES"
  using kernel_okD(4) [OF assms(1) assms(2) [unfolded ready_at_def]] by (auto simp: fits_on_def)

lemma same_but_index_ready: "same_but_index k k' \<Longrightarrow> ready_at k' = ready_at k"
  by (simp add: ready_at_def fun_eq_iff same_but_indexD(4))

text \<open>A priority without a task that can run is passed by; the bound sinks while the lists are empty.\<close>

lemma select_level_fails:
  assumes ok: "kernel_ok k L" and T: "top_bounds k L T" "if hold then Suc n \<le> T else Suc n = Suc T"
    and xs: "L (pxReadyTasksLists n) = Some xs" and n: "n < configMAX_PRIORITIES" "0 < n"
    and no: "\<not> (\<exists>t. ready_at k n t \<and> can_run core k t)"
  shows "\<exists>k1 h T1. select_level core n hold k = Some (False, h, k1) \<and> kernel_ok k1 L \<and> top_bounds k1 L T1 \<and>
    (if h then n \<le> T1 else n = Suc T1) \<and> same_but_index (k\<lparr>uxTopReadyPriority := uxTopReadyPriority k1\<rparr>) k1"
proof (cases "xs = [] \<and> \<not> hold")
  case True
  then have e: "listLIST_IS_EMPTY (pxReadyTasksLists n) (lists k)"
    using holds_list_empty [OF kernel_listsD [OF kernel_okD(1) [OF ok] xs]] by simp
  obtain T1 where T1: "n = Suc T1" "T = n" using n(2) T(2) True by (cases n) auto
  let ?k1 = "k\<lparr>uxTopReadyPriority := uxTopReadyPriority k - 1\<rparr>"
  have "kernel_ok ?k1 L" using ok by (simp add: kernel_ok_def fits_on_def)
  moreover have "L (pxReadyTasksLists p) = Some []" if "T1 < p" "p < configMAX_PRIORITIES" for p
    using that T(1) T1 xs True by (cases "p = n") (auto simp: top_bounds_def)
  then have "top_bounds ?k1 L T1" using T(1) T1 n(1) by (simp add: top_bounds_def)
  ultimately show ?thesis using e True T1(1)
    by (intro exI [of _ ?k1] exI [of _ False] exI [of _ T1]) (simp add: select_level_def)
next
  case False
  have nT: "n \<le> T" using T(2) by (auto split: if_splits)
  show ?thesis
  proof (cases "xs = []")
    case True
    then have "listLIST_IS_EMPTY (pxReadyTasksLists n) (lists k)"
      using holds_list_empty [OF kernel_listsD [OF kernel_okD(1) [OF ok] xs]] by simp
    then show ?thesis using False True ok T(1) nT
      by (intro exI [of _ k] exI [of _ True] exI [of _ T]) (simp add: select_level_def)
  next
    case ne: False
    obtain k1 where k1: "select_level core n hold k = Some (False, True, k1)" "same_but_index k k1" "kernel_ok k1 L"
      using select_level_ok [OF ok xs ne n(1), of core hold] no by auto
    moreover have "top_bounds k1 L T" using T(1) same_but_indexD(3) [OF k1(2)] by (simp add: top_bounds_def)
    ultimately show ?thesis using same_but_indexD(3) [OF k1(2)] nT
      by (intro exI [of _ k1] exI [of _ True] exI [of _ T]) simp
  qed
qed

text \<open>A context switch changes the current task, the index of the ready lists and the bound, and nothing else.\<close>

definition same_but_choice :: "kernel \<Rightarrow> kernel \<Rightarrow> bool" where
  "same_but_choice k k' \<longleftrightarrow> k'\<lparr>lists := (lists k')\<lparr>pxIndex := pxIndex (lists k)\<rparr>, uxTopReadyPriority := uxTopReadyPriority k,
     pxCurrentTCB := pxCurrentTCB k, xYieldPending := xYieldPending k\<rparr> = k"

lemma same_but_index_choice:
  "same_but_index (k\<lparr>pxCurrentTCB := g\<rparr>) k' \<Longrightarrow> same_but_choice k k'"
  "same_but_index (k\<lparr>uxTopReadyPriority := n\<rparr>) k' \<Longrightarrow> same_but_choice k k'"
  by (auto simp: same_but_index_def same_but_choice_def)

lemma same_but_choice_trans:
  assumes "same_but_choice k k1" "same_but_choice k1 k2"
  shows "same_but_choice k k2"
proof -
  let ?reset = "\<lambda>k k'. k'\<lparr>lists := (lists k')\<lparr>pxIndex := pxIndex (lists k)\<rparr>, uxTopReadyPriority := uxTopReadyPriority k,
     pxCurrentTCB := pxCurrentTCB k, xYieldPending := xYieldPending k\<rparr>"
  have "?reset k (?reset k1 k2) = k" using assms unfolding same_but_choice_def by simp
  then show ?thesis by (simp add: same_but_choice_def)
qed

lemma same_but_choiceD:
  assumes "same_but_choice k k'"
  shows "uxPriority k' = uxPriority k" "uxSchedulerSuspended k' = uxSchedulerSuspended k" "initialised k' = initialised k"
    "uxBasePriority k' = uxBasePriority k" "uxMutexesHeld k' = uxMutexesHeld k" "pvContainer (lists k') = pvContainer (lists k)"
    "timed k' L = timed k L"
proof -
  have k: "k = k'\<lparr>lists := (lists k')\<lparr>pxIndex := pxIndex (lists k)\<rparr>, uxTopReadyPriority := uxTopReadyPriority k,
     pxCurrentTCB := pxCurrentTCB k, xYieldPending := xYieldPending k\<rparr>"
    using assms by (simp add: same_but_choice_def)
  show "uxPriority k' = uxPriority k" "uxSchedulerSuspended k' = uxSchedulerSuspended k" "initialised k' = initialised k"
    "uxBasePriority k' = uxBasePriority k" "uxMutexesHeld k' = uxMutexesHeld k" "pvContainer (lists k') = pvContainer (lists k)"
    by (subst k; simp)+
  show "timed k' L = timed k L" by (subst k) (simp add: timed_def)
qed

lemma switch_loop_ok:
  assumes "kernel_ok k L" "top_bounds k L T" "if hold then n \<le> T else n = Suc T"
    "ready_at k p t" "can_run core k t" "p < n"
  shows "\<exists>c q k' T'. switch_loop core n hold k = Some k' \<and> kernel_ok k' L \<and> top_bounds k' L T' \<and>
    pxCurrentTCB k' = (pxCurrentTCB k)(core := c) \<and> pvContainer (lists k') = pvContainer (lists k) \<and> xCoreID k' = xCoreID k \<and>
    same_but_choice k k' \<and> ready_at k q c \<and> can_run core k c \<and> (\<forall>q' t'. ready_at k q' t' \<and> can_run core k t' \<and> q' < n \<longrightarrow> q' \<le> q)"
  using assms
proof (induction n arbitrary: k hold T)
  case (Suc n)
  have T: "T < configMAX_PRIORITIES" using Suc.prems(2) by (simp add: top_bounds_def)
  then have n: "n < configMAX_PRIORITIES" using Suc.prems(3) by (auto split: if_splits)
  then have "pxReadyTasksLists n \<in> generic_lists" by simp
  then obtain xs where xs: "L (pxReadyTasksLists n) = Some xs" using kernel_okD(3) [OF Suc.prems(1)] by blast
  show ?case
  proof (cases "\<exists>t. ready_at k n t \<and> can_run core k t")
    case True
    then have "xs \<noteq> []" using empty_level [OF Suc.prems(1)] xs by auto
    then obtain c h k' where c: "select_level core n hold k = Some (True, h, k')" "ready_at k n c" "can_run core k c"
      "same_but_index (k\<lparr>pxCurrentTCB := (pxCurrentTCB k)(core := c)\<rparr>) k'" "kernel_ok k' L"
      using select_level_ok [OF Suc.prems(1) xs _ n, of core hold] True by auto
    have "top_bounds k' L T" using Suc.prems(2) same_but_indexD(3) [OF c(4)] by (simp add: top_bounds_def)
    moreover have "switch_loop core (Suc n) hold k = Some k'" using c(1) by simp
    ultimately show ?thesis using c(2,3,5) same_but_indexD(2,4,6) [OF c(4)] same_but_index_choice(1) [OF c(4)]
      by (intro exI [of _ c] exI [of _ n] exI [of _ k'] exI [of _ T]) auto
  next
    case False
    then have pn: "p < n" using Suc.prems(4-6) less_antisym by blast
    have "0 < n" using pn by simp
    then obtain k1 h T1 where k1: "select_level core n hold k = Some (False, h, k1)" "kernel_ok k1 L" "top_bounds k1 L T1"
      "if h then n \<le> T1 else n = Suc T1" "same_but_index (k\<lparr>uxTopReadyPriority := uxTopReadyPriority k1\<rparr>) k1"
      using select_level_fails [OF Suc.prems(1-3) xs n _ False] by blast
    have r: "ready_at k1 = ready_at k" "can_run core k1 = can_run core k" "pxCurrentTCB k1 = pxCurrentTCB k"
      "pvContainer (lists k1) = pvContainer (lists k)" "xCoreID k1 = xCoreID k"
      using same_but_indexD [OF k1(5)] by (simp_all add: ready_at_def can_run_def executing_elsewhere_def fun_eq_iff)
    have "\<And>q' t'. ready_at k q' t' \<Longrightarrow> can_run core k t' \<Longrightarrow> q' < Suc n \<Longrightarrow> q' < n" using False less_antisym by blast
    moreover have "ready_at k1 p t" "can_run core k1 t" using Suc.prems(4,5) by (simp_all add: r)
    note ih = Suc.IH [OF k1(2-4) this pn, unfolded r]
    obtain c q k' T' where "switch_loop core n h k1 = Some k'" "kernel_ok k' L" "top_bounds k' L T'"
      "pxCurrentTCB k' = (pxCurrentTCB k)(core := c)" "pvContainer (lists k') = pvContainer (lists k)" "xCoreID k' = xCoreID k"
      "same_but_choice k1 k'" "ready_at k q c" "can_run core k c" "\<forall>q' t'. ready_at k q' t' \<and> can_run core k t' \<and> q' < n \<longrightarrow> q' \<le> q"
      using ih by blast
    ultimately show ?thesis using k1(1) same_but_choice_trans [OF same_but_index_choice(2) [OF k1(5)]]
      by (intro exI [of _ c] exI [of _ q] exI [of _ k'] exI [of _ T']) auto
  qed
qed simp

lemma vTaskSwitchContext_ok:
  assumes "kernel_ok k L" "top_bounds k L T" "uxSchedulerSuspended k core = 0" "ready_at k p t" "can_run core k t"
  shows "\<exists>c q k' T'. vTaskSwitchContext core k = Inr k' \<and> kernel_ok k' L \<and> top_bounds k' L T' \<and>
    pxCurrentTCB k' = (pxCurrentTCB k)(core := c) \<and> pvContainer (lists k') = pvContainer (lists k) \<and>
    same_but_choice k k' \<and> ready_at k q c \<and> can_run core k c \<and> (\<forall>q' t'. ready_at k q' t' \<and> can_run core k t' \<longrightarrow> q' \<le> q)"
proof -
  let ?k1 = "k\<lparr>xYieldPending := (xYieldPending k)(core := False)\<rparr>"
  have ok: "kernel_ok ?k1 L" "top_bounds ?k1 L T" using assms(1,2) by (simp_all add: top_bounds_def)
  have T: "T < 25" using assms(2) by (simp add: top_bounds_def configMAX_PRIORITIES_def)
  have top: "sint (uxTopReadyPriority k) = int T"
    using assms(2) T by (simp add: top_bounds_def signed_of_nat signed_take_bit_int_eq_self)
  have f: "ready_at ?k1 = ready_at k" "can_run core ?k1 = can_run core k"
    by (simp_all add: ready_at_def can_run_def executing_elsewhere_def fun_eq_iff)
  have le: "q' < Suc T" if "ready_at k q' t'" for q' t'
  proof (rule ccontr)
    assume "\<not> q' < Suc T"
    then have "L (pxReadyTasksLists q') = Some []"
      using ready_level [OF assms(1) that] assms(2) by (simp add: top_bounds_def not_less Suc_le_eq)
    then show False using empty_level [OF assms(1)] that by blast
  qed
  have sl: "\<exists>c q k' T'. switch_loop core (Suc T) False ?k1 = Some k' \<and> kernel_ok k' L \<and> top_bounds k' L T' \<and>
    pxCurrentTCB k' = (pxCurrentTCB k)(core := c) \<and> pvContainer (lists k') = pvContainer (lists k) \<and> xCoreID k' = xCoreID k \<and>
    same_but_choice ?k1 k' \<and> ready_at k q c \<and> can_run core k c \<and> (\<forall>q' t'. ready_at k q' t' \<and> can_run core k t' \<and> q' < Suc T \<longrightarrow> q' \<le> q)"
    using switch_loop_ok [OF ok, of False "Suc T" p t core] assms(4,5) le [OF assms(4)]
    by (simp add: f del: switch_loop.simps)
  obtain c q k' T' where "switch_loop core (Suc T) False ?k1 = Some k'" "kernel_ok k' L" "top_bounds k' L T'"
    "pxCurrentTCB k' = (pxCurrentTCB k)(core := c)" "pvContainer (lists k') = pvContainer (lists k)"
    "same_but_choice ?k1 k'" "ready_at k q c" "can_run core k c" "\<And>q' t'. ready_at k q' t' \<Longrightarrow> can_run core k t' \<Longrightarrow> q' < Suc T \<Longrightarrow> q' \<le> q"
    using sl by blast
  moreover have "nat (sint (uxTopReadyPriority k) + 1) = Suc T" "\<not> sint (uxTopReadyPriority k) \<ge> int configMAX_PRIORITIES"
    using top T by (simp_all add: configMAX_PRIORITIES_def)
  moreover have "same_but_choice k k'"
    using \<open>same_but_choice ?k1 k'\<close> by (rule same_but_choice_trans [rotated]) (simp add: same_but_choice_def)
  ultimately show ?thesis using assms(3) le
    by (intro exI [of _ c] exI [of _ q] exI [of _ k'] exI [of _ T']) (auto simp: vTaskSwitchContext_def)
qed

text \<open>C5. The scheduler gives a core the ready task of the highest priority that the core may run and that the
  other core does not run already: if there is such a task, \<^verbatim>\<open>vTaskSwitchContext\<close> ends, with such a task as the
  current one and none of a higher priority left waiting. The lists stay as they are but for the walking
  index, and \<^verbatim>\<open>uxTopReadyPriority\<close> stays a bound for the ready priorities.\<close>

theorem switch_picks_highest_priority:
  assumes "kernel_ok k L" "top_bounds k L T" "uxSchedulerSuspended k core = 0" "ready_at k p t" "can_run core k t"
  shows "\<exists>c q k' T'. vTaskSwitchContext core k = Inr k' \<and> kernel_ok k' L \<and> top_bounds k' L T' \<and>
    pxCurrentTCB k' = (pxCurrentTCB k)(core := c) \<and> pvContainer (lists k') = pvContainer (lists k) \<and>
    ready_at k q c \<and> can_run core k c \<and> (\<forall>q' t'. ready_at k q' t' \<and> can_run core k t' \<longrightarrow> q' \<le> q)"
  using vTaskSwitchContext_ok [OF assms] by blast

theorem switch_picks_highest_priority_witness:
  "\<exists>k'. vTaskSwitchContext 0 (one_task\<lparr>pxCurrentTCB := (\<lambda>i. i + 5)\<rparr>) = Inr k' \<and> pxCurrentTCB k' 0 = 0"
proof -
  let ?k = "one_task\<lparr>pxCurrentTCB := (\<lambda>i. i + 5)\<rparr>"
  obtain L where L: "kernel_ok one_task L" "running one_task 0 0"
    "\<And>p. 1 < p \<Longrightarrow> p < configMAX_PRIORITIES \<Longrightarrow> L (pxReadyTasksLists p) = Some []"
    and only: "\<And>t. pvContainer (lists one_task) (xGenericListItem t) \<noteq> None \<Longrightarrow> t = 0"
    using one_task_ok by blast
  have k: "kernel_ok ?k L" "top_bounds ?k L 1" "ready_at ?k 1 0" "can_run 0 ?k 0"
    using L by (simp_all add: kernel_ok_def fits_on_def top_bounds_def configMAX_PRIORITIES_def ready_at_def running_def
        can_run_def executing_elsewhere_def tskCAN_RUN_HERE_def)
  obtain c q k' where c: "vTaskSwitchContext 0 ?k = Inr k'" "pxCurrentTCB k' = (pxCurrentTCB ?k)(0 := c)" "ready_at ?k q c"
    using switch_picks_highest_priority [OF k(1,2) _ k(3,4)] by auto
  have "c = 0" using only [of c] c(3) by (simp add: ready_at_def)
  then show ?thesis using c(1,2) by simp
qed

section \<open>Skipped tasks\<close>

text \<open>
  When the walk has skipped a task, it moves the index back to where it started, and the order of turns is the
  same as before.
\<close>

lemma select_loop_restores:
  assumes "turns L l k (s @ c # r @ ref # vs)" "ref \<notin> set (s @ c # r @ vs)" "reset \<or> s \<noteq> []"
    "\<forall>t \<in> set s. \<not> can_run core k t" "can_run core k c"
  shows "\<exists>h k'. select_loop core l ref reset hold k = Some (True, h, k') \<and>
    turns L l k' (vs @ s @ c # r @ [ref]) \<and> same_but_index (k\<lparr>pxCurrentTCB := (pxCurrentTCB k)(core := c)\<rparr>) k' \<and>
    pxIndex (lists k') l \<noteq> l"
  using assms
proof (induction s arbitrary: k vs reset hold)
  case Nil
  obtain k1 where k1: "next_owner l k = (c, k1)" "turns L l k1 (r @ ref # vs @ [c])" "same_but_index k k1"
    using next_owner_step [of L l k c "r @ ref # vs"] Nil.prems(1) by auto
  let ?k2 = "k1\<lparr>pxCurrentTCB := (pxCurrentTCB k1)(core := c)\<rparr>"
  obtain k3 where k3: "reset_walk l ref ?k2 = Some k3" "turns L l k3 ((vs @ [c]) @ r @ [ref])" "same_but_index ?k2 k3"
    "pxIndex (lists k3) l \<noteq> l"
    using reset_walk_ok [of L l ?k2 r ref "vs @ [c]"] k1(2) Nil.prems(2) by auto
  have "select_loop core l ref reset hold k = Some (True, hold, k3)"
    using Nil.prems(3,5) k1(1) k3(1) same_but_indexD(6,7) [OF k1(3)] by (subst select_loop.simps) (simp add: can_run_def)
  moreover have "same_but_index (k\<lparr>pxCurrentTCB := (pxCurrentTCB k)(core := c)\<rparr>) k3"
    using same_but_index_trans [OF same_but_index_current [OF k1(3)] k3(3)] same_but_indexD(2) [OF k1(3)] by simp
  ultimately show ?case using k3(2,4) by (intro exI [of _ hold] exI [of _ k3] conjI) (assumption | simp)+
next
  case (Cons y s)
  obtain k1 where k1: "next_owner l k = (y, k1)" "turns L l k1 (s @ c # r @ ref # vs @ [y])" "same_but_index k k1"
    using next_owner_step [of L l k y "s @ c # r @ ref # vs"] Cons.prems(1) by auto
  note i = same_but_indexD [OF k1(3)]
  have eq: "select_loop core l ref reset hold k = select_loop core l ref True True k1"
    using k1(1) Cons.prems(2,4) i(6,7) by (subst select_loop.simps) (auto simp: can_run_def)
  have pr: "ref \<notin> set (s @ c # r @ vs @ [y])" "\<forall>t \<in> set s. \<not> can_run core k1 t" "can_run core k1 c"
    using Cons.prems(2,4,5) i(1) by auto
  obtain h k' where k': "select_loop core l ref True True k1 = Some (True, h, k')"
    "turns L l k' ((vs @ [y]) @ s @ c # r @ [ref])" "same_but_index (k1\<lparr>pxCurrentTCB := (pxCurrentTCB k1)(core := c)\<rparr>) k'"
    "pxIndex (lists k') l \<noteq> l"
    using Cons.IH [OF k1(2) pr(1) disjI1 [OF TrueI] pr(2,3), of True] by blast
  have "same_but_index (k\<lparr>pxCurrentTCB := (pxCurrentTCB k)(core := c)\<rparr>) k'"
    using same_but_index_trans [OF same_but_index_current [OF k1(3)] k'(3)] i(2) by simp
  then show ?case using eq k' by (intro exI [of _ h] exI [of _ k'] conjI) (assumption | simp)+
qed

definition frozen :: "(kaddr \<rightharpoonup> kaddr list) \<Rightarrow> nat \<Rightarrow> nat \<Rightarrow> nat list \<Rightarrow> nat \<Rightarrow> nat list \<Rightarrow> kernel \<Rightarrow> bool" where
  "frozen L core p s c r k \<longleftrightarrow> top_bounds k L p \<and> uxSchedulerSuspended k core = 0 \<and>
     pxIndex (lists k) (pxReadyTasksLists p) \<noteq> pxReadyTasksLists p \<and> turns L (pxReadyTasksLists p) k (s @ c # r) \<and>
     s \<noteq> [] \<and> r \<noteq> [] \<and> (\<forall>t \<in> set s. \<not> can_run core k t) \<and> can_run core k c"

lemma turns_index:
  assumes t: "turns L (pxReadyTasksLists p) k ts" and p: "p < configMAX_PRIORITIES" and ne: "ts \<noteq> []"
    and i: "pxIndex (lists k) (pxReadyTasksLists p) \<noteq> pxReadyTasksLists p"
  shows "last ts = pvOwner (lists k) (pxIndex (lists k) (pxReadyTasksLists p))" "distinct ts"
    and "\<not> listLIST_IS_EMPTY (pxReadyTasksLists p) (lists k)"
proof -
  let ?i = "pxIndex (lists k) (pxReadyTasksLists p)"
  obtain xs where ok: "kernel_ok k L" and xs: "L (pxReadyTasksLists p) = Some xs" "ts = map (pvOwner (lists k)) (run_order ?i xs)"
    using t by (auto simp: turns_def)
  note h = kernel_listsD [OF kernel_okD(1) [OF ok] xs(1)]
  have "?i \<in> set xs" using holds_listD(8) [OF h] i by simp
  then obtain ys zs where s: "xs = ys @ ?i # zs" "?i \<notin> set ys" by (meson split_list_first)
  then have "run_order ?i xs = (zs @ ys) @ [?i]" using run_order_split by fastforce
  then show "last ts = pvOwner (lists k) ?i" using xs(2) by simp
  have "mset ts = mset (map (pvOwner (lists k)) xs)" unfolding xs(2) by (simp add: mset_run_order)
  then show "distinct ts" using ready_owners(1) [OF ok xs(1) p] by (metis mset_eq_imp_distinct_iff)
  show "\<not> listLIST_IS_EMPTY (pxReadyTasksLists p) (lists k)" using holds_list_empty [OF h] s(1) by auto
qed

lemma frozen_step:
  assumes f: "frozen L core p s c r k"
  shows "\<exists>k'. vTaskSwitchContext core k = Inr k' \<and> pxCurrentTCB k' core = c \<and> frozen L core p s c r k'"
proof -
  let ?l = "pxReadyTasksLists p" and ?k1 = "k\<lparr>xYieldPending := (xYieldPending k)(core := False)\<rparr>"
  have T: "p < 25" "uxTopReadyPriority k = of_nat p" using f by (simp_all add: frozen_def top_bounds_def configMAX_PRIORITIES_def)
  have i: "pxIndex (lists k) ?l \<noteq> ?l" and tu: "turns L ?l k (s @ c # r)" using f by (simp_all add: frozen_def)
  obtain r' ref where r: "r = r' @ [ref]" using f by (cases r rule: rev_cases) (auto simp: frozen_def)
  have p: "p < configMAX_PRIORITIES" using T by (simp add: configMAX_PRIORITIES_def)
  have ref: "pvOwner (lists k) (pxIndex (lists k) ?l) = ref" "ref \<notin> set (s @ c # r')" "\<not> listLIST_IS_EMPTY ?l (lists k)"
    using turns_index [OF tu p _ i] unfolding r by auto
  have t1: "turns L ?l ?k1 (s @ c # r' @ ref # [])" using tu r by (simp add: turns_def)
  have c1: "can_run core ?k1 = can_run core k" by (simp add: can_run_def executing_elsewhere_def fun_eq_iff)
  obtain h k' where k': "select_loop core ?l ref False False ?k1 = Some (True, h, k')" "turns L ?l k' (s @ c # r' @ [ref])"
    "same_but_index (?k1\<lparr>pxCurrentTCB := (pxCurrentTCB ?k1)(core := c)\<rparr>) k'" "pxIndex (lists k') ?l \<noteq> ?l"
    using select_loop_restores [OF t1, of False core False] ref(2) f unfolding c1 by (auto simp: frozen_def)
  have lv: "select_level core p False ?k1 = Some (True, h, k')" using k'(1) ref i by (simp add: select_level_def Let_def)
  have sw: "vTaskSwitchContext core k = Inr k'"
  proof -
    have "sint (uxTopReadyPriority k) = int p" using T by (simp add: signed_of_nat signed_take_bit_int_eq_self)
    moreover have "nat (int p + 1) = Suc p" by simp
    moreover have "uxSchedulerSuspended k core = 0" using f by (simp add: frozen_def)
    ultimately show ?thesis using lv p by (simp add: vTaskSwitchContext_def)
  qed
  note d = same_but_indexD [OF k'(3)]
  have "can_run core k' = can_run core k" unfolding d(1) by (simp add: can_run_def executing_elsewhere_def fun_eq_iff)
  moreover have "uxSchedulerSuspended k' core = 0" using k'(3) f by (auto simp: same_but_index_def frozen_def)
  ultimately have "frozen L core p s c r k'"
    using f k'(2,4) d(3) r by (simp add: frozen_def top_bounds_def)
  then show ?thesis using sw d(2) by auto
qed

fun switches :: "nat \<Rightarrow> nat \<Rightarrow> kernel \<Rightarrow> kernel run" where
  "switches core 0 k = Inr k"
| "switches core (Suc n) k = run_bind (switches core n k) (vTaskSwitchContext core)"

text \<open>A task that cannot run on a core freezes the round robin there. If the first tasks in turn on the highest
  ready list are pinned to or running on the other core, every context switch chooses the same task, the first
  that can run: the index is put back behind them each time, and the tasks of the same priority that come after
  it never run, however often the core switches.\<close>

theorem skipped_task_freezes_round_robin:
  assumes "frozen L core p s c r k"
  shows "\<exists>k'. switches core (Suc n) k = Inr k' \<and> pxCurrentTCB k' core = c \<and> frozen L core p s c r k'"
proof (induction n)
  case 0
  then show ?case using frozen_step [OF assms] by simp
next
  case (Suc n)
  then obtain k1 where "switches core (Suc n) k = Inr k1" "frozen L core p s c r k1" by blast
  then show ?case using frozen_step [of L core p s c r k1] by auto
qed

text \<open>
  Three tasks of the same priority, the first pinned to core 1, and the index on the last of them.
\<close>

definition three_tasks :: kernel where
  "three_tasks = fold prvAddTaskToReadyList [0, 1, 2] (prvInitialiseTaskLists
     (static_kernel\<lparr>uxCurrentNumberOfTasks := 3, xCoreID := (\<lambda>_. None)(0 := Some 1), pxCurrentTCB := (\<lambda>i. i + 5)\<rparr>))"

lemma fold_vListInitialise_index: "pxIndex m l = l \<or> l \<in> set ls \<Longrightarrow> pxIndex (fold vListInitialise ls m) l = l"
proof (induction ls arbitrary: m)
  case (Cons a ls)
  have "pxIndex (vListInitialise a m) l = l \<or> l \<in> set ls" using Cons.prems by (auto simp: vListInitialise_def)
  then show ?case using Cons.IH by simp
qed simp

lemma add_at_end:
  assumes ok: "kernel_ok k L" and l: "l = pxReadyTasksLists (uxPriority k t)" "L l = Some xs" "pxIndex (lists k) l = l"
    and t: "pvContainer (lists k) (xGenericListItem t) = None" "task_address t"
  shows "kernel_ok (prvAddTaskToReadyList t k) (L(l \<mapsto> xs @ [xGenericListItem t]))"
    "pxIndex (lists (prvAddTaskToReadyList t k)) l = l"
    "pvContainer (lists (prvAddTaskToReadyList t k)) = (pvContainer (lists k))(xGenericListItem t := Some l)"
proof -
  let ?x = "xGenericListItem t" and ?m = "vListInsertEnd l (xGenericListItem t) (lists k)"
  have f: "fits_on ?x l" using t(2) kernel_okD(7) [OF ok] l(1) by (auto simp: fits_on_def)
  have m: "kernel_lists ?m (L(l \<mapsto> xs @ [?x]))" "pvOwner ?m = pvOwner (lists k)" "pxIndex ?m = pxIndex (lists k)"
    "pvContainer ?m = (pvContainer (lists k))(?x := Some l)"
    using vListInsertEnd_law [OF kernel_okD(1) [OF ok], of l xs "[]" ?x] l(2,3) t(1) items_no_lists(1) [OF ok]
      room_for_item [OF ok l(2) t(1) f] by auto
  have "kernel_ok (k\<lparr>lists := ?m\<rparr>) (L(l \<mapsto> xs @ [?x]))"
    using l(2) f by (intro kernel_ok_lists [OF ok m(1) _ m(2)]) (auto simp: m(4) split: if_splits)
  then show "kernel_ok (prvAddTaskToReadyList t k) (L(l \<mapsto> xs @ [?x]))"
    by (simp add: kernel_ok_def prvAddTaskToReadyList_def fits_on_def flip: l(1))
  show "pxIndex (lists (prvAddTaskToReadyList t k)) l = l" using m(3) l(3) by (simp add: prvAddTaskToReadyList_def flip: l(1))
  show "pvContainer (lists (prvAddTaskToReadyList t k)) = (pvContainer (lists k))(?x := Some l)"
    using m(4) by (simp add: prvAddTaskToReadyList_def flip: l(1))
qed

lemma three_tasks_ok:
  "kernel_ok three_tasks (no_tasks(pxReadyTasksLists 1 \<mapsto> [xGenericListItem 0, xGenericListItem 1, xGenericListItem 2])) \<and>
   pxIndex (lists three_tasks) (pxReadyTasksLists 1) = pxReadyTasksLists 1"
proof -
  let ?l = "pxReadyTasksLists 1" and ?G = xGenericListItem
  define s where "s = static_kernel\<lparr>uxCurrentNumberOfTasks := 3, xCoreID := (\<lambda>_. None)(0 := Some 1), pxCurrentTCB := (\<lambda>i. i + 5)\<rparr>"
  define k0 where "k0 = prvInitialiseTaskLists s"
  have ok0: "kernel_ok k0 no_tasks"
    using prvInitialiseTaskLists_ok [of s] by (simp add: k0_def s_def static_kernel_def configMAX_PRIORITIES_def)
  have f: "uxPriority k0 = (\<lambda>_. 1)" "uxCurrentNumberOfTasks k0 = 3" by (simp_all add: k0_def s_def static_kernel_def prvInitialiseTaskLists_def)
  have fk: "uxPriority (prvAddTaskToReadyList t k) = uxPriority k" "uxCurrentNumberOfTasks (prvAddTaskToReadyList t k) = uxCurrentNumberOfTasks k"
    for t k by (simp_all add: prvAddTaskToReadyList_def)
  have "lists k0 = fold vListInitialise (map pxReadyTasksLists [0..<configMAX_PRIORITIES] @ [xDelayedTaskList1, xDelayedTaskList2,
      xPendingReadyList 0, xPendingReadyList 1, xTasksWaitingTermination, xSuspendedTaskList]) (lists s)"
    by (simp add: k0_def prvInitialiseTaskLists_def)
  then have i0: "pxIndex (lists k0) ?l = ?l"
    using fold_vListInitialise_index [of "lists s" ?l] by (auto simp: configMAX_PRIORITIES_def simp del: fold_append)
  have c0: "pvContainer (lists k0) x = None" for x
  proof (cases "pvContainer (lists k0) x")
    case (Some l)
    then obtain xs where "no_tasks l = Some xs" "x \<in> set xs"
      using kernel_okD(4) [OF ok0] holds_listD(4) [OF kernel_listsD [OF kernel_okD(1) [OF ok0]]] by blast
    then show ?thesis by (simp add: no_tasks_def split: if_splits)
  qed
  have l0: "no_tasks ?l = Some []" by (simp add: no_tasks_def configMAX_PRIORITIES_def)
  let ?k1 = "prvAddTaskToReadyList 0 k0" and ?k2 = "prvAddTaskToReadyList 1 (prvAddTaskToReadyList 0 k0)"
  have p: "?l = pxReadyTasksLists (uxPriority k0 0)" "?l = pxReadyTasksLists (uxPriority ?k1 1)" "?l = pxReadyTasksLists (uxPriority ?k2 2)"
    "task_address 0" "task_address 1" "task_address 2"
    by (simp_all add: fk f)
  note a0 = add_at_end [OF ok0 p(1) l0 i0 c0 p(4)]
  have c1: "pvContainer (lists ?k1) (?G 1) = None" "(no_tasks(?l \<mapsto> [] @ [?G 0])) ?l = Some [?G 0]" using a0(3) c0 by auto
  note a1 = add_at_end [OF a0(1) p(2) c1(2) a0(2) c1(1) p(5)]
  have c2: "pvContainer (lists ?k2) (?G 2) = None"
    "(no_tasks(?l \<mapsto> [] @ [?G 0], ?l \<mapsto> [?G 0] @ [?G 1])) ?l = Some [?G 0, ?G 1]" using a1(3) a0(3) c0 by auto
  note a2 = add_at_end [OF a1(1) p(3) c2(2) a1(2) c2(1) p(6)]
  have "three_tasks = prvAddTaskToReadyList 2 ?k2" by (simp add: three_tasks_def k0_def s_def)
  then show ?thesis using a2(1,2) unfolding fun_upd_upd append_Cons append_Nil by metis
qed

lemma three_tasks_fields:
  "uxTopReadyPriority three_tasks = 1" "xCoreID three_tasks = (\<lambda>_. None)(0 := Some 1)"
  "pxCurrentTCB three_tasks = (\<lambda>i. i + 5)" "uxSchedulerSuspended three_tasks core = 0"
  by (simp_all add: three_tasks_def prvAddTaskToReadyList_def prvInitialiseTaskLists_def static_kernel_def)

lemma three_tasks_frozen:
  "\<exists>L. frozen L 0 1 [0] 1 [2] (snd (picks (next_owner (pxReadyTasksLists 1)) 3 three_tasks))"
proof -
  let ?l = "pxReadyTasksLists 1" and ?L = "no_tasks(pxReadyTasksLists 1 \<mapsto> [xGenericListItem 0, xGenericListItem 1, xGenericListItem 2])"
  note ok = three_tasks_ok [THEN conjunct1]
  have "turns ?L ?l three_tasks [0, 1, 2]"
    unfolding turns_def using ok three_tasks_ok [THEN conjunct2] kernel_okD(5) [OF ok] by (simp add: run_order_end)
  then obtain k1 k2 k3 where k: "next_owner ?l three_tasks = (0, k1)" "same_but_index three_tasks k1"
    "next_owner ?l k1 = (1, k2)" "same_but_index k1 k2" "next_owner ?l k2 = (2, k3)" "same_but_index k2 k3"
    "turns ?L ?l k3 [0, 1, 2]" "pxIndex (lists k3) ?l \<noteq> ?l"
    using next_owner_step [of ?L ?l] by (metis append_Cons append_Nil)
  have s: "same_but_index three_tasks k3" using same_but_index_trans k(2,4,6) by blast
  have "snd (picks (next_owner ?l) 3 three_tasks) = k3" using k(1,3,5) by (simp add: numeral_3_eq_3)
  moreover have "frozen ?L 0 1 [0] 1 [2] k3"
  proof -
    have "uxTopReadyPriority k3 = 1" "can_run 0 k3 = can_run 0 three_tasks" "uxSchedulerSuspended k3 0 = 0"
      using same_but_indexD(1,3) [OF s] s by (auto simp: three_tasks_fields same_but_index_def)
    then show ?thesis using k(7,8)
      by (simp add: frozen_def top_bounds_def configMAX_PRIORITIES_def no_tasks_def can_run_def executing_elsewhere_def
          three_tasks_fields tskCAN_RUN_HERE_def)
  qed
  ultimately show ?thesis by metis
qed

theorem skipped_task_freezes_round_robin_witness:
  "\<exists>k'. switches 0 4 (snd (picks (next_owner (pxReadyTasksLists 1)) 3 three_tasks)) = Inr k' \<and> pxCurrentTCB k' 0 = 1"
proof -
  obtain L where f: "frozen L 0 1 [0] 1 [2] (snd (picks (next_owner (pxReadyTasksLists 1)) 3 three_tasks))"
    using three_tasks_frozen by blast
  have "Suc 3 = 4" by simp
  then show ?thesis using skipped_task_freezes_round_robin [OF f, of 3] by metis
qed

end
