(* ===== verification/RTOS_Priority.thy ===== *)
theory RTOS_Priority
  imports RTOS_Switch
begin

text \<open>
  Priorities of \<^verbatim>\<open>components/freertos/tasks.c\<close>: the inheritance of priorities by the holders of mutexes and
  \<^verbatim>\<open>vTaskPrioritySet\<close>. \<^verbatim>\<open>taskRESET_READY_PRIORITY\<close> is empty in the configuration of the speaker.
\<close>

section \<open>Operations\<close>

text \<open>The same as \<^verbatim>\<open>prvAddTaskToReadyList\<close> but for the trace.\<close>

definition prvReaddTaskToReadyList :: "nat \<Rightarrow> kernel \<Rightarrow> kernel" where
  "prvReaddTaskToReadyList pxTCB k =
     k\<lparr>uxTopReadyPriority := (if of_nat (uxPriority k pxTCB) > uxTopReadyPriority k
                              then of_nat (uxPriority k pxTCB) else uxTopReadyPriority k),
       lists := vListInsertEnd (pxReadyTasksLists (uxPriority k pxTCB)) (xGenericListItem pxTCB) (lists k)\<rparr>"

definition set_event_value :: "nat \<Rightarrow> nat \<Rightarrow> kernel \<Rightarrow> kernel" where
  "set_event_value t p k =
     k\<lparr>lists := listSET_LIST_ITEM_VALUE (xEventListItem t) (of_nat configMAX_PRIORITIES - of_nat p) (lists k)\<rparr>"

definition event_value_free :: "nat \<Rightarrow> kernel \<Rightarrow> bool" where
  "event_value_free t k \<longleftrightarrow> xItemValue (lists k) (xEventListItem t) AND taskEVENT_LIST_ITEM_VALUE_IN_USE = 0"

text \<open>There is always a current task: the scheduler has been started.\<close>

definition pvTaskIncrementMutexHeldCount :: "nat \<Rightarrow> kernel \<Rightarrow> nat \<times> kernel" where
  "pvTaskIncrementMutexHeldCount core k =
     (let t = pxCurrentTCB k core in (t, k\<lparr>uxMutexesHeld := (uxMutexesHeld k)(t := uxMutexesHeld k t + 1)\<rparr>))"

definition vTaskPriorityInherit :: "nat \<Rightarrow> nat option \<Rightarrow> kernel \<Rightarrow> kernel run" where
  "vTaskPriorityInherit core pxMutexHolder k =
     (case pxMutexHolder of
        None \<Rightarrow> Inr k
      | Some t \<Rightarrow>
          let p = uxPriority k (pxCurrentTCB k core) in
          if uxPriority k t < p then
            let k1 = (if event_value_free t k then set_event_value t p k else k) in
            if listIS_CONTAINED_WITHIN (pxReadyTasksLists (uxPriority k1 t)) (xGenericListItem t) (lists k1) then
              run_bind (list_remove (xGenericListItem t) k1) (\<lambda>k2.
                Inr (prvReaddTaskToReadyList t (k2\<lparr>uxPriority := (uxPriority k2)(t := p)\<rparr>)))
            else Inr (k1\<lparr>uxPriority := (uxPriority k1)(t := p)\<rparr>)
          else Inr k)"

text \<open>The result is whether the caller should yield.\<close>

definition xTaskPriorityDisinherit :: "nat option \<Rightarrow> kernel \<Rightarrow> (bool \<times> kernel) run" where
  "xTaskPriorityDisinherit pxMutexHolder k =
     (case pxMutexHolder of
        None \<Rightarrow> Inr (False, k)
      | Some t \<Rightarrow>
          if uxMutexesHeld k t = 0 then Inl Assert_Failed
          else let k1 = k\<lparr>uxMutexesHeld := (uxMutexesHeld k)(t := uxMutexesHeld k t - 1)\<rparr> in
            if uxPriority k1 t \<noteq> uxBasePriority k1 t \<and> uxMutexesHeld k1 t = 0 then
              run_bind (list_remove (xGenericListItem t) k1) (\<lambda>k2.
                let k3 = k2\<lparr>uxPriority := (uxPriority k2)(t := uxBasePriority k2 t)\<rparr> in
                Inr (True, prvReaddTaskToReadyList t (set_event_value t (uxPriority k3 t) k3)))
            else Inr (False, k1))"

text \<open>The second half of \<^verbatim>\<open>vTaskPrioritySet\<close>: the new values and the ready list to go with them.\<close>

definition change_priority :: "nat \<Rightarrow> nat \<Rightarrow> kernel \<Rightarrow> kernel run" where
  "change_priority t uxNewPriority k =
     (let uxPriorityUsedOnEntry = uxPriority k t;
          k2 = (if uxBasePriority k t = uxPriority k t then k\<lparr>uxPriority := (uxPriority k)(t := uxNewPriority)\<rparr> else k)
               \<lparr>uxBasePriority := (uxBasePriority k)(t := uxNewPriority)\<rparr>;
          k3 = (if event_value_free t k2 then set_event_value t uxNewPriority k2 else k2)
      in if listIS_CONTAINED_WITHIN (pxReadyTasksLists uxPriorityUsedOnEntry) (xGenericListItem t) (lists k3)
         then run_bind (list_remove (xGenericListItem t) k3) (\<lambda>k4. Inr (prvReaddTaskToReadyList t k4))
         else Inr k3)"

text \<open>\<open>xTask = None\<close> is the calling task; the result is whether it yields.\<close>

definition vTaskPrioritySet :: "nat \<Rightarrow> nat option \<Rightarrow> nat \<Rightarrow> kernel \<Rightarrow> (bool \<times> kernel) run" where
  "vTaskPrioritySet core xTask uxNewPriority k =
     (if uxNewPriority \<ge> configMAX_PRIORITIES then Inl Assert_Failed
      else let cur = pxCurrentTCB k core; t = (case xTask of None \<Rightarrow> cur | Some t \<Rightarrow> t) in
        if uxBasePriority k t \<noteq> uxNewPriority then
          let (xYieldRequired, k1) =
                (if uxNewPriority > uxBasePriority k t then
                   if t \<noteq> cur then
                     if tskCAN_RUN_HERE core (xCoreID k t) \<and> uxNewPriority \<ge> uxPriority k cur then (True, k)
                     else if xCoreID k t \<noteq> Some core then (False, taskYIELD_OTHER_CORE core (xCoreID k t) uxNewPriority k)
                     else (False, k)
                   else (False, k)
                 else (t = cur, k))
          in run_bind (change_priority t uxNewPriority k1) (\<lambda>k2. Inr (xYieldRequired, k2))
        else Inr (False, k))"

section \<open>The invariant\<close>

text \<open>Ready tasks are on the list of their priority, and the top priority bounds them.\<close>

definition priorities_ok :: "kernel \<Rightarrow> bool" where
  "priorities_ok k \<longleftrightarrow> unat (uxTopReadyPriority k) < configMAX_PRIORITIES \<and>
     (\<forall>p t. ready_at k p t \<longrightarrow> p = uxPriority k t \<and> p \<le> unat (uxTopReadyPriority k))"

definition kernel_inv :: "kernel \<Rightarrow> bool" where
  "kernel_inv k \<longleftrightarrow> priorities_ok k \<and> (\<exists>L. kernel_ok k L \<and> timed k L)"

lemma priorities_top_bounds:
  assumes ok: "kernel_ok k L" and p: "priorities_ok k"
  shows "top_bounds k L (unat (uxTopReadyPriority k))"
proof -
  have "L (pxReadyTasksLists p) = Some []" if "unat (uxTopReadyPriority k) < p" "p < configMAX_PRIORITIES" for p
  proof -
    note q = that
    obtain xs where xs: "L (pxReadyTasksLists p) = Some xs" using kernel_okD(3) [OF ok] q(2) list_addresses(13) by blast
    have "x \<notin> set xs" for x
    proof
      assume x: "x \<in> set xs"
      then have "pvOwner (lists k) x \<in> set (map (pvOwner (lists k)) xs)" by simp
      then have "ready_at k p (pvOwner (lists k) x)" using ready_owners(2) [OF ok xs q(2)] by blast
      then show False using assms(2) q(1) by (fastforce simp: priorities_ok_def)
    qed
    then show ?thesis using xs by (cases xs) auto
  qed
  then show ?thesis using p by (simp add: top_bounds_def priorities_ok_def)
qed

lemma prvReadd_same: "prvReaddTaskToReadyList = prvAddTaskToReadyList"
  by (simp add: fun_eq_iff prvReaddTaskToReadyList_def prvAddTaskToReadyList_def)

text \<open>Changes of priorities and of the values of event items leave the lists as they are.\<close>

lemma kernel_ok_priority:
  "kernel_ok k L \<Longrightarrow> (\<And>t. f t < configMAX_PRIORITIES) \<Longrightarrow> kernel_ok (k\<lparr>uxPriority := f\<rparr>) L"
  by (auto simp: kernel_ok_def fits_on_def)

lemma kernel_ok_counts [simp]:
  "kernel_ok (k\<lparr>uxBasePriority := f\<rparr>) L = kernel_ok k L" "timed (k\<lparr>uxBasePriority := f\<rparr>) L = timed k L"
  "kernel_ok (k\<lparr>uxMutexesHeld := g\<rparr>) L = kernel_ok k L" "timed (k\<lparr>uxMutexesHeld := g\<rparr>) L = timed k L"
  "timed (k\<lparr>uxPriority := f\<rparr>) L = timed k L"
  by (simp_all add: kernel_ok_def fits_on_def timed_def)

lemma delayed_items:
  assumes ok: "kernel_ok k L" and l: "L l = Some xs" "l \<in> generic_lists"
  shows "xEventListItem t \<notin> set xs"
proof
  assume "xEventListItem t \<in> set xs"
  then have "fits_on (xEventListItem t) l"
    using kernel_okD(4) [OF ok] holds_listD(4) [OF kernel_listsD [OF kernel_okD(1) [OF ok] l(1)]] by blast
  then show False using l(2) generic_not_event by (auto simp: fits_on_def)
qed

lemma set_event_value_ok:
  assumes ok: "kernel_ok k L" "timed k L"
  shows "kernel_ok (set_event_value t p k) L" "timed (set_event_value t p k) L"
proof -
  show "kernel_ok (set_event_value t p k) L"
    unfolding set_event_value_def by (rule kernel_ok_value [OF ok(1) items_no_lists(2) [OF ok(1)]])
  obtain ds os where d: "L (pxDelayedTaskList k) = Some ds" "L (pxOverflowDelayedTaskList k) = Some os"
    using ok(2) by (auto simp: timed_def)
  have g: "pxDelayedTaskList k \<in> generic_lists" "pxOverflowDelayedTaskList k \<in> generic_lists" using kernel_okD(8) [OF ok(1)] by auto
  have e: "xEventListItem t \<notin> set ds" "xEventListItem t \<notin> set os"
    using delayed_items [OF ok(1) d(1) g(1)] delayed_items [OF ok(1) d(2) g(2)] by blast+
  then have "\<And>x. x \<in> set ds \<or> x \<in> set os \<Longrightarrow> x \<noteq> xEventListItem t" by auto
  then show "timed (set_event_value t p k) L"
    using ok(2) d e unfolding timed_def set_event_value_def listSET_LIST_ITEM_VALUE_def by auto
qed

lemma set_event_value_fields [simp]:
  "uxPriority (set_event_value t p k) = uxPriority k" "uxBasePriority (set_event_value t p k) = uxBasePriority k"
  "uxMutexesHeld (set_event_value t p k) = uxMutexesHeld k" "pxCurrentTCB (set_event_value t p k) = pxCurrentTCB k"
  "pvContainer (lists (set_event_value t p k)) = pvContainer (lists k)" "xCoreID (set_event_value t p k) = xCoreID k"
  "uxTopReadyPriority (set_event_value t p k) = uxTopReadyPriority k"
  "uxSchedulerSuspended (set_event_value t p k) = uxSchedulerSuspended k"
  "uxCurrentNumberOfTasks (set_event_value t p k) = uxCurrentNumberOfTasks k"
  by (simp_all add: set_event_value_def listSET_LIST_ITEM_VALUE_def)

lemma list_remove_update:
  "list_remove x (k\<lparr>uxPriority := f\<rparr>) = run_bind (list_remove x k) (\<lambda>k1. Inr (k1\<lparr>uxPriority := f\<rparr>))"
  by (cases "uxListRemove x (lists k)") (auto simp: list_remove_def)

definition same_but_prio :: "kernel \<Rightarrow> kernel \<Rightarrow> bool" where
  "same_but_prio k k' \<longleftrightarrow>
     k'\<lparr>lists := lists k, uxTopReadyPriority := uxTopReadyPriority k, uxPriority := uxPriority k\<rparr> = k"

lemma same_but_prioD:
  assumes "same_but_prio k k'"
  shows "uxBasePriority k' = uxBasePriority k" "uxMutexesHeld k' = uxMutexesHeld k" "xCoreID k' = xCoreID k"
    "pxCurrentTCB k' = pxCurrentTCB k" "uxSchedulerSuspended k' = uxSchedulerSuspended k"
    "uxCurrentNumberOfTasks k' = uxCurrentNumberOfTasks k" "can_run core k' = can_run core k"
    "initialised k' = initialised k"
proof -
  have k: "k = k'\<lparr>lists := lists k, uxTopReadyPriority := uxTopReadyPriority k, uxPriority := uxPriority k\<rparr>"
    using assms by (simp add: same_but_prio_def)
  show "uxBasePriority k' = uxBasePriority k" "uxMutexesHeld k' = uxMutexesHeld k" and x: "xCoreID k' = xCoreID k"
    and y: "pxCurrentTCB k' = pxCurrentTCB k"
    and "uxSchedulerSuspended k' = uxSchedulerSuspended k" "uxCurrentNumberOfTasks k' = uxCurrentNumberOfTasks k"
    "initialised k' = initialised k"
    by (subst k; simp)+
  show "can_run core k' = can_run core k" by (simp add: x y can_run_def executing_elsewhere_def fun_eq_iff)
qed

lemma same_but_prio_refl [simp]: "same_but_prio k k" "same_but_prio k (set_event_value t p k)"
  by (simp_all add: same_but_prio_def set_event_value_def)

lemma same_but_prio_trans:
  assumes "same_but_prio k k1" "same_but_prio k1 k2"
  shows "same_but_prio k k2"
proof -
  have "k2\<lparr>lists := lists k1, uxTopReadyPriority := uxTopReadyPriority k1, uxPriority := uxPriority k1,
      lists := lists k, uxTopReadyPriority := uxTopReadyPriority k, uxPriority := uxPriority k\<rparr> = k"
    using assms unfolding same_but_prio_def by simp
  then show ?thesis by (simp add: same_but_prio_def)
qed

text \<open>A task that moves to another ready list, with or without a new value of its event item.\<close>

lemma requeue_ok:
  assumes ok: "kernel_ok k L" "timed k L" "priorities_ok k" and t: "ready_at k p0 t" and p: "p < configMAX_PRIORITIES"
    and ev: "ev = id \<or> (\<exists>v. ev = set_event_value t v)"
  shows "\<exists>k1 k' L'. list_remove (xGenericListItem t) k = Inr k1 \<and>
    k' = prvReaddTaskToReadyList t (ev (k1\<lparr>uxPriority := (uxPriority k1)(t := p)\<rparr>)) \<and> kernel_ok k' L' \<and> timed k' L' \<and>
    priorities_ok k' \<and> uxPriority k' = (uxPriority k)(t := p) \<and> same_but_prio k k' \<and>
    pvContainer (lists k') = (pvContainer (lists k))(xGenericListItem t := Some (pxReadyTasksLists p))"
proof -
  let ?x = "xGenericListItem t"
  obtain m L1 where m: "list_remove ?x k = Inr (k\<lparr>lists := m\<rparr>)" "kernel_ok (k\<lparr>lists := m\<rparr>) L1" "timed (k\<lparr>lists := m\<rparr>) L1"
    "pvContainer m = (pvContainer (lists k))(?x := None)" "task_address t"
    using leave_ready_list [OF ok(1,2) t [unfolded ready_at_def]] by blast
  define k2 where "k2 = k\<lparr>lists := m, uxPriority := (uxPriority k)(t := p)\<rparr>"
  have k2: "kernel_ok k2 L1" "timed k2 L1"
    using kernel_ok_priority [OF m(2), of "(uxPriority k)(t := p)"] m(3) p kernel_okD(7) [OF ok(1)] by (simp_all add: k2_def)
  define k3 where "k3 = ev k2"
  have k3: "kernel_ok k3 L1" "timed k3 L1" "pvContainer (lists k3) = pvContainer m" "uxPriority k3 = (uxPriority k)(t := p)"
    "uxCurrentNumberOfTasks k3 = uxCurrentNumberOfTasks k" "uxTopReadyPriority k3 = uxTopReadyPriority k"
    using ev k2 set_event_value_ok [OF k2] by (auto simp: k3_def k2_def)
  define k4 where "k4 = prvAddTaskToReadyList t k3"
  obtain ys where k4: "kernel_ok k4 (L1(pxReadyTasksLists p \<mapsto> ys))" "xItemValue (lists k4) = xItemValue (lists k3)"
    "pvContainer (lists k4) = (pvContainer m)(?x := Some (pxReadyTasksLists p))" "same_but_lists k3 k4"
    using prvAddTaskToReadyList_ok [OF k3(1), of t] m(4,5) k3(3-5) by (auto simp: k4_def)
  have tm: "timed k4 (L1(pxReadyTasksLists p \<mapsto> ys))"
    using kernel_okD(8) [OF k3(1)] by (intro timed_other [OF k3(2) k4(2,4)]) auto
  have c: "pvContainer (lists k4) = (pvContainer (lists k))(?x := Some (pxReadyTasksLists p))" using k4(3) m(4) by simp
  have pr: "uxPriority k4 = (uxPriority k)(t := p)" using same_but_listsD(1) [OF k4(4)] k3(4) by simp
  have "unat (of_nat p :: u32) = p" using p by (simp add: configMAX_PRIORITIES_def unat_of_nat)
  then have top: "unat (uxTopReadyPriority k4) = max (unat (uxTopReadyPriority k)) p"
    using k3(4,6) by (simp add: k4_def prvAddTaskToReadyList_def word_less_nat_alt max_def)
  have "priorities_ok k4"
    using ok(3) p unfolding priorities_ok_def top ready_at_def c pr by (auto simp: le_max_iff_disj split: if_splits)
  moreover have "same_but_prio k k4"
    using ev by (auto simp: same_but_prio_def k4_def k3_def k2_def prvAddTaskToReadyList_def set_event_value_def)
  ultimately show ?thesis using m(1) k4(1) tm c pr
    by (intro exI [of _ "k\<lparr>lists := m\<rparr>"] exI [of _ k4] exI [of _ "L1(pxReadyTasksLists p \<mapsto> ys)"])
      (simp add: prvReadd_same k4_def k3_def k2_def)
qed

section \<open>Inheriting\<close>

text \<open>The containers after \<open>t\<close> has the priority \<open>p\<close>.\<close>

definition moved :: "kernel \<Rightarrow> nat \<Rightarrow> nat \<Rightarrow> kaddr \<Rightarrow> kaddr option" where
  "moved k t p = (if ready_at k (uxPriority k t) t
     then (pvContainer (lists k))(xGenericListItem t := Some (pxReadyTasksLists p)) else pvContainer (lists k))"

lemma inherit_ok:
  assumes inv: "kernel_inv k"
  shows "\<exists>k'. vTaskPriorityInherit core (Some t) k = Inr k' \<and> kernel_inv k' \<and> same_but_prio k k' \<and>
    uxPriority k' = (uxPriority k)(t := max (uxPriority k t) (uxPriority k (pxCurrentTCB k core))) \<and>
    pvContainer (lists k') = moved k t (uxPriority k' t)"
proof -
  let ?p = "uxPriority k (pxCurrentTCB k core)"
  obtain L where ok: "kernel_ok k L" "timed k L" "priorities_ok k" using inv by (auto simp: kernel_inv_def)
  show ?thesis
  proof (cases "uxPriority k t < ?p")
    case False
    then have "moved k t (max (uxPriority k t) ?p) = pvContainer (lists k)"
      by (auto simp: moved_def ready_at_def max_def)
    then show ?thesis using False inv
      by (intro exI [of _ k]) (simp add: vTaskPriorityInherit_def max_def fun_upd_idem)
  next
    case True
    let ?k1 = "if event_value_free t k then set_event_value t ?p k else k"
    have k1: "kernel_ok ?k1 L" "timed ?k1 L" "priorities_ok ?k1" "uxPriority ?k1 = uxPriority k"
      "pvContainer (lists ?k1) = pvContainer (lists k)" "same_but_prio k ?k1"
      using ok set_event_value_ok [OF ok(1,2), of t ?p]
      by (auto simp: priorities_ok_def ready_at_def)
    have p: "?p < configMAX_PRIORITIES" using kernel_okD(7) [OF ok(1)] .
    show ?thesis
    proof (cases "ready_at k (uxPriority k t) t")
      case r: True
      then have "ready_at ?k1 (uxPriority k t) t" unfolding ready_at_def k1(5) .
      then obtain k2 k' L' where k': "list_remove (xGenericListItem t) ?k1 = Inr k2"
        "k' = prvReaddTaskToReadyList t (id (k2\<lparr>uxPriority := (uxPriority k2)(t := ?p)\<rparr>))" "kernel_ok k' L'" "timed k' L'"
        "priorities_ok k'" "uxPriority k' = (uxPriority ?k1)(t := ?p)" "same_but_prio ?k1 k'"
        "pvContainer (lists k') = (pvContainer (lists ?k1))(xGenericListItem t := Some (pxReadyTasksLists ?p))"
        using requeue_ok [OF k1(1-3) _ p, of _ t id] by blast
      have "vTaskPriorityInherit core (Some t) k = Inr k'"
        using True r k'(1,2) k1(4,5) by (simp add: vTaskPriorityInherit_def Let_def listIS_CONTAINED_WITHIN_def ready_at_def)
      moreover have "same_but_prio k k'" using same_but_prio_trans k1(6) k'(7) by blast
      moreover have "kernel_inv k'" using k'(3-5) by (auto simp: kernel_inv_def)
      ultimately show ?thesis using True r k'(6,8) unfolding k1(4,5) by (auto simp: moved_def max_def)
    next
      case r: False
      let ?k' = "?k1\<lparr>uxPriority := (uxPriority ?k1)(t := ?p)\<rparr>"
      have "kernel_ok ?k' L" using kernel_okD(7) [OF ok(1)] k1(4) by (intro kernel_ok_priority [OF k1(1)]) auto
      moreover have "timed ?k' L" using k1(2) by simp
      moreover have "priorities_ok ?k'"
      proof -
        have "ready_at ?k' q u = ready_at k q u" for q u using k1(5) by (simp add: ready_at_def)
        moreover have "\<not> ready_at k q t" for q using r ok(3) by (auto simp: priorities_ok_def)
        ultimately show ?thesis using k1(3) ok(3) k1(4) by (auto simp: priorities_ok_def)
      qed
      ultimately have "kernel_inv ?k'" by (auto simp: kernel_inv_def)
      moreover have "vTaskPriorityInherit core (Some t) k = Inr ?k'"
        using True r k1(4,5) by (simp add: vTaskPriorityInherit_def Let_def listIS_CONTAINED_WITHIN_def ready_at_def)
      moreover have "same_but_prio k ?k'" using same_but_prio_trans [OF k1(6), of ?k'] by (simp add: same_but_prio_def)
      ultimately show ?thesis using True r k1(4,5)
        by (intro exI [of _ ?k']) (simp add: moved_def max_def)
    qed
  qed
qed

section \<open>Giving the mutex back\<close>

lemma kernel_inv_fields [simp]:
  "kernel_inv (k\<lparr>pxCurrentTCB := f\<rparr>) = kernel_inv k" "kernel_inv (k\<lparr>uxMutexesHeld := g\<rparr>) = kernel_inv k"
  "ready_at (k\<lparr>pxCurrentTCB := f\<rparr>) = ready_at k" "ready_at (k\<lparr>uxMutexesHeld := g\<rparr>) = ready_at k"
  by (simp_all add: kernel_inv_def priorities_ok_def ready_at_def kernel_ok_def fits_on_def timed_def fun_eq_iff)

lemma disinherit_ok:
  assumes inv: "kernel_inv k" and t: "ready_at k (uxPriority k t) t" "uxMutexesHeld k t \<noteq> 0" "uxBasePriority k t < configMAX_PRIORITIES"
  shows "\<exists>b k'. xTaskPriorityDisinherit (Some t) k = Inr (b, k') \<and> kernel_inv k' \<and>
    (b \<longleftrightarrow> uxMutexesHeld k t = 1 \<and> uxPriority k t \<noteq> uxBasePriority k t) \<and>
    uxPriority k' = (uxPriority k)(t := if uxMutexesHeld k t = 1 then uxBasePriority k t else uxPriority k t) \<and>
    pvContainer (lists k') = moved k t (uxPriority k' t) \<and>
    same_but_prio (k\<lparr>uxMutexesHeld := (uxMutexesHeld k)(t := uxMutexesHeld k t - 1)\<rparr>) k'"
proof -
  let ?k1 = "k\<lparr>uxMutexesHeld := (uxMutexesHeld k)(t := uxMutexesHeld k t - 1)\<rparr>" and ?b = "uxBasePriority k t"
  have one: "uxMutexesHeld k t - 1 = 0 \<longleftrightarrow> uxMutexesHeld k t = 1" by (metis diff_add_cancel add.left_neutral diff_self)
  show ?thesis
  proof (cases "uxMutexesHeld k t = 1 \<and> uxPriority k t \<noteq> ?b")
    case False
    then have "xTaskPriorityDisinherit (Some t) k = Inr (False, ?k1)"
      using t(2) one by (auto simp: xTaskPriorityDisinherit_def Let_def)
    moreover have "moved k t (uxPriority k t) = pvContainer (lists k)"
      by (auto simp: moved_def ready_at_def)
    ultimately show ?thesis using False inv by (intro exI [of _ False] exI [of _ ?k1]) (auto simp: fun_upd_idem)
  next
    case True
    obtain L where ok: "kernel_ok ?k1 L" "timed ?k1 L" "priorities_ok ?k1"
      using inv by (auto simp: kernel_inv_def priorities_ok_def)
    have "ready_at ?k1 (uxPriority k t) t" using t(1) by simp
    then obtain k2 k' L' where k': "list_remove (xGenericListItem t) ?k1 = Inr k2"
      "k' = prvReaddTaskToReadyList t (set_event_value t ?b (k2\<lparr>uxPriority := (uxPriority k2)(t := ?b)\<rparr>))" "kernel_ok k' L'" "timed k' L'"
      "priorities_ok k'" "uxPriority k' = (uxPriority ?k1)(t := ?b)" "same_but_prio ?k1 k'"
      "pvContainer (lists k') = (pvContainer (lists ?k1))(xGenericListItem t := Some (pxReadyTasksLists ?b))"
      using requeue_ok [OF ok _ t(3), of _ t "set_event_value t ?b"] by blast
    have "uxBasePriority k2 = uxBasePriority k"
      using k'(1) by (auto simp: list_remove_def run_bind_Inr_iff)
    then have "xTaskPriorityDisinherit (Some t) k = Inr (True, k')"
      using True t(2) k'(1,2) by (simp add: xTaskPriorityDisinherit_def Let_def)
    moreover have "kernel_inv k'" using k'(3-5) by (auto simp: kernel_inv_def)
    ultimately show ?thesis using True t(1) k'(6-8) by (intro exI [of _ True] exI [of _ k']) (simp add: moved_def)
  qed
qed

text \<open>Tasks that run on a core and start to wait for a mutex of \<open>t\<close>, one after the other.\<close>

fun inherits :: "(nat \<times> nat) list \<Rightarrow> nat \<Rightarrow> kernel \<Rightarrow> kernel run" where
  "inherits [] t k = Inr k"
| "inherits ((core, w) # ws) t k =
     run_bind (vTaskPriorityInherit core (Some t) (k\<lparr>pxCurrentTCB := (pxCurrentTCB k)(core := w)\<rparr>)) (inherits ws t)"

lemma inherits_ok:
  assumes "kernel_inv k" "ready_at k (uxPriority k t) t" "t \<notin> snd ` set ws"
  shows "\<exists>k'. inherits ws t k = Inr k' \<and> kernel_inv k' \<and> ready_at k' (uxPriority k' t) t \<and>
    uxPriority k' = (uxPriority k)(t := fold max (map (uxPriority k \<circ> snd) ws) (uxPriority k t)) \<and>
    uxBasePriority k' = uxBasePriority k \<and> uxMutexesHeld k' = uxMutexesHeld k"
  using assms
proof (induction ws arbitrary: k)
  case Nil
  then show ?case by simp
next
  case (Cons cw ws)
  obtain core w where w: "cw = (core, w)" by force
  let ?k = "k\<lparr>pxCurrentTCB := (pxCurrentTCB k)(core := w)\<rparr>"
  obtain k1 where k1: "vTaskPriorityInherit core (Some t) ?k = Inr k1" "kernel_inv k1" "same_but_prio ?k k1"
    "uxPriority k1 = (uxPriority ?k)(t := max (uxPriority ?k t) (uxPriority ?k w))"
    "pvContainer (lists k1) = moved ?k t (uxPriority k1 t)"
    using inherit_ok [of ?k core t] Cons.prems(1) by auto
  have "ready_at k1 (uxPriority k1 t) t" using Cons.prems(2) k1(5) by (simp add: moved_def ready_at_def)
  moreover have "t \<notin> snd ` set ws" using Cons.prems(3) by simp
  ultimately obtain k' where k': "inherits ws t k1 = Inr k'" "kernel_inv k'" "ready_at k' (uxPriority k' t) t"
    "uxPriority k' = (uxPriority k1)(t := fold max (map (uxPriority k1 \<circ> snd) ws) (uxPriority k1 t))"
    "uxBasePriority k' = uxBasePriority k1" "uxMutexesHeld k' = uxMutexesHeld k1"
    using Cons.IH [OF k1(2)] by blast
  have m: "map (uxPriority k1 \<circ> snd) ws = map (uxPriority k \<circ> snd) ws" using Cons.prems(3) k1(4) by (auto simp: image_iff)
  have "uxPriority k' = (uxPriority k)(t := fold max (map (uxPriority k \<circ> snd) (cw # ws)) (uxPriority k t))"
    using k'(4) k1(4) w unfolding m by (simp add: max.commute)
  moreover have "inherits (cw # ws) t k = Inr k'" using w k1(1) k'(1) by simp
  moreover have "uxBasePriority k' = uxBasePriority k" "uxMutexesHeld k' = uxMutexesHeld k"
    using k'(5,6) same_but_prioD(1,2) [OF k1(3)] by simp_all
  ultimately show ?case using k'(2,3) by (intro exI [of _ k'] conjI) assumption+
qed

text \<open>C9. Priority inheritance is undone when the mutex is given back. A running task takes its first mutex;
  any number of other tasks start to wait for it, on either core. While it holds the mutex, the task has the
  highest of these priorities and is on the ready list for it; when it gives the mutex back, every task has
  the priority it had before, the holder is on the ready list of its base priority, and it yields exactly if
  its priority had been raised.\<close>

theorem inherited_priority_is_returned:
  assumes "kernel_inv k" "running k core t" "uxPriority k t = uxBasePriority k t" "uxMutexesHeld k t = 0" "t \<notin> snd ` set ws"
  shows "\<exists>k1 b k2. inherits ws t (snd (pvTaskIncrementMutexHeldCount core k)) = Inr k1 \<and>
    uxPriority k1 t = fold max (map (uxPriority k \<circ> snd) ws) (uxPriority k t) \<and> ready_at k1 (uxPriority k1 t) t \<and>
    xTaskPriorityDisinherit (Some t) k1 = Inr (b, k2) \<and> kernel_inv k2 \<and> uxPriority k2 = uxPriority k \<and>
    ready_at k2 (uxBasePriority k t) t \<and> uxMutexesHeld k2 = uxMutexesHeld k \<and> (b \<longleftrightarrow> uxPriority k1 t \<noteq> uxPriority k t)"
proof -
  let ?k0 = "k\<lparr>uxMutexesHeld := (uxMutexesHeld k)(t := 1)\<rparr>"
  have k0: "snd (pvTaskIncrementMutexHeldCount core k) = ?k0"
    using assms(2,4) by (simp add: pvTaskIncrementMutexHeldCount_def Let_def running_def)
  have "ready_at k (uxPriority k t) t" using assms(2) unfolding running_def ready_at_def by blast
  then obtain k1 where k1: "inherits ws t ?k0 = Inr k1" "kernel_inv k1" "ready_at k1 (uxPriority k1 t) t"
    "uxPriority k1 = (uxPriority k)(t := fold max (map (uxPriority k \<circ> snd) ws) (uxPriority k t))"
    "uxBasePriority k1 = uxBasePriority k" "uxMutexesHeld k1 = (uxMutexesHeld k)(t := 1)"
    using inherits_ok [of ?k0 t ws] assms(1,5) by auto
  obtain L where "kernel_ok k L" using assms(1) by (auto simp: kernel_inv_def)
  then have "uxBasePriority k1 t < configMAX_PRIORITIES" using kernel_okD(7) [of k L t] k1(5) assms(3) by simp
  then obtain b k2 where k2: "xTaskPriorityDisinherit (Some t) k1 = Inr (b, k2)" "kernel_inv k2" "b \<longleftrightarrow> uxPriority k1 t \<noteq> uxBasePriority k t"
    "uxPriority k2 = (uxPriority k1)(t := uxBasePriority k t)" "pvContainer (lists k2) = moved k1 t (uxPriority k2 t)"
    "same_but_prio (k1\<lparr>uxMutexesHeld := (uxMutexesHeld k1)(t := uxMutexesHeld k1 t - 1)\<rparr>) k2"
    using disinherit_ok [OF k1(2,3)] k1(5,6) by auto
  have "uxPriority k2 = uxPriority k" using k2(4) k1(4) assms(3) by (auto simp: fun_upd_idem)
  moreover have "ready_at k2 (uxBasePriority k t) t" using k2(4,5) k1(3) by (simp add: moved_def ready_at_def)
  moreover have "uxMutexesHeld k2 = uxMutexesHeld k"
    using same_but_prioD(2) [OF k2(6)] k1(6) assms(4) by (auto simp: fun_upd_idem)
  ultimately show ?thesis using k0 k1(1,3,4) k2(1-3) assms(3) by auto
qed

section \<open>Waiting for a mutex\<close>

text \<open>A task that goes to wait keeps the invariant.\<close>

lemma place_inv:
  assumes inv: "kernel_inv k" and r: "running k core w" and d: "0 < d" and e: "e \<in> initialised k"
  shows "\<exists>k'. vTaskPlaceOnEventList core (event_list e) d k = Inr k' \<and> kernel_inv k' \<and> same_but_time k k' \<and>
    pvContainer (lists k') (xEventListItem w) = Some (event_list e) \<and> (\<forall>p. \<not> ready_at k' p w) \<and>
    (sleeping k' w \<or> pvContainer (lists k') (xGenericListItem w) = Some xSuspendedTaskList) \<and>
    (\<forall>y. y \<noteq> xGenericListItem w \<and> y \<noteq> xEventListItem w \<longrightarrow> pvContainer (lists k') y = pvContainer (lists k) y)"
proof -
  obtain L where ok: "kernel_ok k L" "timed k L" "priorities_ok k" using inv by (auto simp: kernel_inv_def)
  obtain es where es: "L (event_list e) = Some es" using kernel_okD(9) [OF ok(1) e] by blast
  obtain k' L' where k': "vTaskPlaceOnEventList core (event_list e) d k = Inr k'" "kernel_ok k' L'" "timed k' L'"
    "if d = portMAX_DELAY then pvContainer (lists k') (xGenericListItem w) = Some xSuspendedTaskList
     else sleeping k' w \<and> remaining k' w = d" "same_but_time k k'"
    "pvContainer (lists k') (xEventListItem w) = Some (event_list e)"
    "\<forall>y. y \<noteq> xGenericListItem w \<and> y \<noteq> xEventListItem w \<longrightarrow> pvContainer (lists k') y = pvContainer (lists k) y"
    "uxTopReadyPriority k' = uxTopReadyPriority k"
    using vTaskPlaceOnEventList_ok [OF ok(1,2) r d es] by blast
  have n: "\<not> ready_at k' p w" for p using k'(4) by (auto simp: ready_at_def sleeping_def split: if_splits)
  have sub: "ready_at k p t" if "ready_at k' p t" for p t
    using that n [of p] k'(7) by (cases "t = w") (auto simp: ready_at_def)
  have "priorities_ok k'"
    using ok(3) same_but_timeD(1) [OF k'(5)] k'(8) sub unfolding priorities_ok_def by metis
  moreover have "sleeping k' w \<or> pvContainer (lists k') (xGenericListItem w) = Some xSuspendedTaskList"
    using k'(4) by (auto split: if_splits)
  ultimately show ?thesis using k'(1-3,5-7) n unfolding kernel_inv_def by blast
qed

text \<open>C8. No unbounded priority inversion: when the running task has to wait for a mutex whose holder is ready
  and may run on this core, the holder inherits the priority, the task is put on the event list, and the
  context switch that follows picks a task of at least the waiting task's priority; no task of a priority
  between the two can delay the holder.\<close>

theorem waiting_for_mutex_no_inversion:
  assumes "kernel_inv k" "running k core w" "0 < d" "e \<in> initialised k"
    "uxSchedulerSuspended k core = 0" "h \<noteq> w" "ready_at k (uxPriority k h) h" "can_run core k h"
  shows "\<exists>k1 k2 k3. vTaskPriorityInherit core (Some h) k = Inr k1 \<and>
    vTaskPlaceOnEventList core (event_list e) d k1 = Inr k2 \<and> vTaskSwitchContext core k2 = Inr k3 \<and> kernel_inv k2 \<and>
    pvContainer (lists k2) (xEventListItem w) = Some (event_list e) \<and>
    uxPriority k w \<le> uxPriority k3 (pxCurrentTCB k3 core) \<and> ready_at k2 (uxPriority k3 (pxCurrentTCB k3 core)) (pxCurrentTCB k3 core)"
proof -
  obtain k1 where k1: "vTaskPriorityInherit core (Some h) k = Inr k1" "kernel_inv k1" "same_but_prio k k1"
    "uxPriority k1 = (uxPriority k)(h := max (uxPriority k h) (uxPriority k w))"
    "pvContainer (lists k1) = moved k h (uxPriority k1 h)"
    using inherit_ok [OF assms(1), of core h] assms(2) unfolding running_def by blast
  note f1 = same_but_prioD [OF k1(3)]
  have r: "running k1 core w" "ready_at k1 (uxPriority k1 h) h"
    using assms(2,6,7) k1(4,5) f1(4) by (auto simp: running_def moved_def ready_at_def)
  obtain k2 where k2: "vTaskPlaceOnEventList core (event_list e) d k1 = Inr k2" "kernel_inv k2" "same_but_time k1 k2"
    "pvContainer (lists k2) (xEventListItem w) = Some (event_list e)"
    "\<forall>y. y \<noteq> xGenericListItem w \<and> y \<noteq> xEventListItem w \<longrightarrow> pvContainer (lists k2) y = pvContainer (lists k1) y"
    using place_inv [OF k1(2) r(1) assms(3), of e] assms(4) f1(8) by auto
  note f2 = same_but_timeD [OF k2(3)]
  have h: "ready_at k2 (uxPriority k1 h) h" using r(2) k2(5) assms(6) by (simp add: ready_at_def)
  have c: "can_run core k2 h" using assms(8) f1(3,4) f2(2,3) by (simp add: can_run_def executing_elsewhere_def)
  obtain L where L: "kernel_ok k2 L" "priorities_ok k2" using k2(2) by (auto simp: kernel_inv_def)
  have "uxSchedulerSuspended k2 core = 0" using assms(5) f1(5) f2(7) by simp
  then obtain t q k3 where k3: "vTaskSwitchContext core k2 = Inr k3" "pxCurrentTCB k3 = (pxCurrentTCB k2)(core := t)"
    "ready_at k2 q t" "\<And>q' t'. ready_at k2 q' t' \<Longrightarrow> can_run core k2 t' \<Longrightarrow> q' \<le> q" "same_but_choice k2 k3"
    using vTaskSwitchContext_ok [OF L(1) priorities_top_bounds [OF L] _ h c] by blast
  have "q = uxPriority k2 t" using L(2) k3(3) by (simp add: priorities_ok_def)
  moreover have "uxPriority k w \<le> q" using k3(4) [OF h c] k1(4) by simp
  moreover have "uxPriority k3 = uxPriority k2" by (rule same_but_choiceD(1) [OF k3(5)])
  ultimately show ?thesis using k1(1) k2(1,2,4) k3(1-3) by auto
qed

section \<open>Setting a priority\<close>

lemma yield_other_frame [simp]:
  "lists (taskYIELD_OTHER_CORE core c p k) = lists k" "uxPriority (taskYIELD_OTHER_CORE core c p k) = uxPriority k"
  "uxBasePriority (taskYIELD_OTHER_CORE core c p k) = uxBasePriority k"
  "kernel_inv (taskYIELD_OTHER_CORE core c p k) = kernel_inv k"
proof -
  have "\<exists>ys. taskYIELD_OTHER_CORE core c p k = k\<lparr>yields_sent := ys\<rparr>"
    by (cases c) (auto simp: taskYIELD_OTHER_CORE_def split: list.split intro: exI [of _ "yields_sent k"])
  then obtain ys where "taskYIELD_OTHER_CORE core c p k = k\<lparr>yields_sent := ys\<rparr>" ..
  then show "lists (taskYIELD_OTHER_CORE core c p k) = lists k" "uxPriority (taskYIELD_OTHER_CORE core c p k) = uxPriority k"
    "uxBasePriority (taskYIELD_OTHER_CORE core c p k) = uxBasePriority k"
    "kernel_inv (taskYIELD_OTHER_CORE core c p k) = kernel_inv k"
    by (simp_all add: kernel_inv_def priorities_ok_def ready_at_def kernel_ok_def fits_on_def timed_def)
qed

lemma change_priority_ok:
  assumes inv: "kernel_inv k" and p: "p < configMAX_PRIORITIES"
    and q: "q = (if uxBasePriority k t = uxPriority k t then p else uxPriority k t)"
  shows "\<exists>k'. change_priority t p k = Inr k' \<and> kernel_inv k' \<and> uxPriority k' = (uxPriority k)(t := q) \<and>
    uxBasePriority k' = (uxBasePriority k)(t := p) \<and> pvContainer (lists k') = moved k t q"
proof -
  obtain L where ok: "kernel_ok k L" "timed k L" "priorities_ok k" using inv by (auto simp: kernel_inv_def)
  define k2 where "k2 = (if uxBasePriority k t = uxPriority k t then k\<lparr>uxPriority := (uxPriority k)(t := p)\<rparr> else k)
    \<lparr>uxBasePriority := (uxBasePriority k)(t := p)\<rparr>"
  define k3 where "k3 = (if event_value_free t k2 then set_event_value t p k2 else k2)"
  have eq: "k2 = k\<lparr>uxPriority := (uxPriority k)(t := q), uxBasePriority := (uxBasePriority k)(t := p)\<rparr>"
    using q by (simp add: k2_def fun_upd_idem)
  have qm: "q < configMAX_PRIORITIES" using q p kernel_okD(7) [OF ok(1)] by simp
  have k2: "kernel_ok k2 L" "timed k2 L"
    using kernel_ok_priority [OF ok(1), of "(uxPriority k)(t := q)"] ok(2) qm kernel_okD(7) [OF ok(1)] by (simp_all add: eq)
  have c: "change_priority t p k = (if ready_at k3 (uxPriority k t) t
      then run_bind (list_remove (xGenericListItem t) k3) (\<lambda>k4. Inr (prvReaddTaskToReadyList t k4)) else Inr k3)"
    by (simp add: change_priority_def Let_def listIS_CONTAINED_WITHIN_def ready_at_def k3_def k2_def)
  have k3: "kernel_ok k3 L" "timed k3 L" "pvContainer (lists k3) = pvContainer (lists k)" "uxPriority k3 = (uxPriority k)(t := q)"
    "uxBasePriority k3 = (uxBasePriority k)(t := p)" "uxTopReadyPriority k3 = uxTopReadyPriority k"
    using k2 set_event_value_ok [OF k2] by (simp_all add: k3_def eq)
  have r3: "ready_at k3 = ready_at k" using k3(3) by (simp add: ready_at_def fun_eq_iff)
  have p3: "priorities_ok k3" if "\<not> ready_at k (uxPriority k t) t"
  proof -
    have "\<not> ready_at k p t" for p using that ok(3) by (auto simp: priorities_ok_def)
    then show ?thesis using ok(3) unfolding priorities_ok_def r3 k3(4,6) fun_upd_apply by metis
  qed
  show ?thesis
  proof (cases "ready_at k (uxPriority k t) t")
    case False
    then have "kernel_inv k3" using k3(1,2) p3 unfolding kernel_inv_def by blast
    then show ?thesis using False k3(3-5) unfolding c r3 by (intro exI [of _ k3]) (simp add: moved_def)
  next
    case True
    let ?k = "k3\<lparr>uxPriority := uxPriority k\<rparr>"
    have "kernel_ok ?k L" "timed ?k L" using kernel_ok_priority [OF k3(1), of "uxPriority k"] k3(2) kernel_okD(7) [OF ok(1)] by simp_all
    moreover have r: "ready_at ?k = ready_at k" using k3(3) by (simp add: ready_at_def fun_eq_iff)
    moreover have "priorities_ok ?k" using ok(3) k3(6) unfolding priorities_ok_def r by simp
    ultimately obtain k1 k' L' where k': "list_remove (xGenericListItem t) ?k = Inr k1"
      "k' = prvReaddTaskToReadyList t (id (k1\<lparr>uxPriority := (uxPriority k1)(t := q)\<rparr>))" "kernel_ok k' L'" "timed k' L'"
      "priorities_ok k'" "uxPriority k' = (uxPriority ?k)(t := q)" "same_but_prio ?k k'"
      "pvContainer (lists k') = (pvContainer (lists ?k))(xGenericListItem t := Some (pxReadyTasksLists q))"
      using requeue_ok [of ?k L "uxPriority k t" t q id] qm True unfolding r by blast
    obtain k4 where k4: "list_remove (xGenericListItem t) k3 = Inr k4" "k1 = k4\<lparr>uxPriority := uxPriority k\<rparr>"
      using k'(1) unfolding list_remove_update by (auto simp: run_bind_Inr_iff)
    have "uxPriority k4 = (uxPriority k)(t := q)" using k4(1) k3(4) by (auto simp: list_remove_def run_bind_Inr_iff)
    then have "k4\<lparr>uxPriority := (uxPriority k)(t := q)\<rparr> = k4" by (metis kernel.surjective kernel.update_convs(2))
    then have "k' = prvReaddTaskToReadyList t k4" using k'(2) k4(2) by simp
    moreover have "kernel_inv k'" using k'(3-5) unfolding kernel_inv_def by blast
    moreover have "change_priority t p k = Inr (prvReaddTaskToReadyList t k4)" using True k4(1) unfolding c r3 by simp
    ultimately show ?thesis
      using True k'(6,8) k3(3,5) same_but_prioD(1) [OF k'(7)] by (intro exI [of _ k']) (simp add: moved_def)
  qed
qed

text \<open>\<^verbatim>\<open>vTaskPrioritySet\<close> sets the base priority of the task; the priority it runs with follows only if it
  has not inherited a higher one, and a ready task is then on the list of that priority. The caller yields
  if it lowers its own priority, or raises another task that may run on its core to at least its own.\<close>

theorem vTaskPrioritySet_law:
  assumes "kernel_inv k" "p < configMAX_PRIORITIES"
  shows "\<exists>y k'. vTaskPrioritySet core (Some t) p k = Inr (y, k') \<and> kernel_inv k' \<and>
    uxBasePriority k' = (uxBasePriority k)(t := p) \<and>
    uxPriority k' = (uxPriority k)(t := if uxPriority k t = uxBasePriority k t then p else uxPriority k t) \<and>
    (ready_at k (uxPriority k t) t \<longrightarrow> ready_at k' (uxPriority k' t) t) \<and>
    (y \<longleftrightarrow> (if p < uxBasePriority k t then t = pxCurrentTCB k core
            else p > uxBasePriority k t \<and> t \<noteq> pxCurrentTCB k core \<and> tskCAN_RUN_HERE core (xCoreID k t) \<and>
              p \<ge> uxPriority k (pxCurrentTCB k core)))"
proof (cases "uxBasePriority k t = p")
  case True
  have "(uxPriority k)(t := if uxPriority k t = p then p else uxPriority k t) = uxPriority k" by auto
  then show ?thesis using True assms
    by (intro exI [of _ False] exI [of _ k]) (simp add: vTaskPrioritySet_def Let_def fun_upd_idem)
next
  case False
  let ?cur = "pxCurrentTCB k core"
  obtain y k1 where k1: "(if p > uxBasePriority k t then if t \<noteq> ?cur then
        if tskCAN_RUN_HERE core (xCoreID k t) \<and> p \<ge> uxPriority k ?cur then (True, k)
        else if xCoreID k t \<noteq> Some core then (False, taskYIELD_OTHER_CORE core (xCoreID k t) p k) else (False, k)
      else (False, k) else (t = ?cur, k)) = (y, k1)" by force
  have f: "uxPriority k1 = uxPriority k" "uxBasePriority k1 = uxBasePriority k" "lists k1 = lists k" "kernel_inv k1"
    using k1 assms(1) by (auto split: if_splits)
  have y: "y \<longleftrightarrow> (if p < uxBasePriority k t then t = ?cur else p > uxBasePriority k t \<and> t \<noteq> ?cur \<and>
      tskCAN_RUN_HERE core (xCoreID k t) \<and> p \<ge> uxPriority k ?cur)"
    using k1 False by (auto split: if_splits)
  let ?q = "if uxBasePriority k1 t = uxPriority k1 t then p else uxPriority k1 t"
  obtain k' where k': "change_priority t p k1 = Inr k'" "kernel_inv k'" "uxPriority k' = (uxPriority k1)(t := ?q)"
    "uxBasePriority k' = (uxBasePriority k1)(t := p)" "pvContainer (lists k') = moved k1 t ?q"
    using change_priority_ok [OF f(4) assms(2) refl] by blast
  have "vTaskPrioritySet core (Some t) p k = Inr (y, k')"
    using False assms(2) k'(1) unfolding vTaskPrioritySet_def Let_def option.case k1 by simp
  moreover have "ready_at k (uxPriority k t) t \<longrightarrow> ready_at k' (uxPriority k' t) t"
    using k'(3,5) f(1,3) by (simp add: moved_def ready_at_def)
  ultimately show ?thesis using k'(2-4) y f(1,2) by (intro exI [of _ y] exI [of _ k']) auto
qed

section \<open>Two tasks\<close>

lemma add_ready_inv:
  assumes inv: "kernel_inv k" and t: "pvContainer (lists k) (xGenericListItem t) = None" "task_address t"
  shows "kernel_inv (prvAddTaskToReadyList t k)" "same_but_lists k (prvAddTaskToReadyList t k)"
    "pvContainer (lists (prvAddTaskToReadyList t k)) =
       (pvContainer (lists k))(xGenericListItem t := Some (pxReadyTasksLists (uxPriority k t)))"
proof -
  let ?k = "prvAddTaskToReadyList t k" and ?p = "uxPriority k t"
  obtain L where ok: "kernel_ok k L" "timed k L" "priorities_ok k" using inv by (auto simp: kernel_inv_def)
  obtain xs where xs: "kernel_ok ?k (L(pxReadyTasksLists ?p \<mapsto> xs))" "same_but_lists k ?k"
    "pvContainer (lists ?k) = (pvContainer (lists k))(xGenericListItem t := Some (pxReadyTasksLists ?p))"
    "xItemValue (lists ?k) = xItemValue (lists k)"
    using prvAddTaskToReadyList_ok [OF ok(1) t] by blast
  have tm: "timed ?k (L(pxReadyTasksLists ?p \<mapsto> xs))"
    using kernel_okD(8) [OF ok(1)] by (intro timed_other [OF ok(2) xs(4,2)]) auto
  have p: "?p < configMAX_PRIORITIES" by (rule kernel_okD(7) [OF ok(1)])
  then have "unat (of_nat ?p :: u32) = ?p" by (simp add: configMAX_PRIORITIES_def unat_of_nat)
  then have top: "unat (uxTopReadyPriority ?k) = max (unat (uxTopReadyPriority k)) ?p"
    by (simp add: prvAddTaskToReadyList_def word_less_nat_alt max_def)
  have "priorities_ok ?k"
    using ok(3) p unfolding priorities_ok_def top ready_at_def xs(3) same_but_listsD(1) [OF xs(2)]
    by (auto simp: le_max_iff_disj split: if_splits)
  then show "kernel_inv ?k" using xs(1) tm by (auto simp: kernel_inv_def)
  show "same_but_lists k ?k" "pvContainer (lists ?k) =
       (pvContainer (lists k))(xGenericListItem t := Some (pxReadyTasksLists ?p))" by (fact xs(2,3))+
qed

text \<open>Task 0 has priority 1, task 1 has priority 5 and runs on core 0; both are ready.\<close>

definition two_tasks :: kernel where
  "two_tasks = fold prvAddTaskToReadyList [0, 1] (new_event_list 7 (prvInitialiseTaskLists
     (static_kernel\<lparr>uxCurrentNumberOfTasks := 2, uxPriority := (\<lambda>_. 1)(1 := 5), uxBasePriority := (\<lambda>_. 1)(1 := 5),
        pxCurrentTCB := (\<lambda>_. 9)(0 := 1)\<rparr>)))"

lemma two_tasks_ok:
  "kernel_inv two_tasks" "running two_tasks 0 1" "ready_at two_tasks 1 0" "can_run 0 two_tasks 0"
  "uxPriority two_tasks = (\<lambda>_. 1)(1 := 5)" "uxBasePriority two_tasks = (\<lambda>_. 1)(1 := 5)" "initialised two_tasks = {7}"
  "uxSchedulerSuspended two_tasks 0 = 0" "uxMutexesHeld two_tasks 0 = 0" "pxCurrentTCB two_tasks = (\<lambda>_. 9)(0 := 1)"
  "pvContainer (lists two_tasks) (xEventListItem t) = None"
proof -
  define s where "s = static_kernel\<lparr>uxCurrentNumberOfTasks := 2, uxPriority := (\<lambda>_. 1)(1 := 5), uxBasePriority := (\<lambda>_. 1)(1 := 5),
    pxCurrentTCB := (\<lambda>_. 9)(0 := 1)\<rparr>"
  define k0 where "k0 = new_event_list 7 (prvInitialiseTaskLists s)"
  have "kernel_ok (prvInitialiseTaskLists s) no_tasks \<and> timed (prvInitialiseTaskLists s) no_tasks"
    using prvInitialiseTaskLists_ok [of s] by (simp add: s_def static_kernel_def configMAX_PRIORITIES_def)
  then have ok0: "kernel_ok k0 (no_tasks(event_list 7 \<mapsto> []))" "timed k0 (no_tasks(event_list 7 \<mapsto> []))"
    using initialise_event_list [of "prvInitialiseTaskLists s" no_tasks 7] by (auto simp: k0_def no_tasks_def)
  have c0: "pvContainer (lists k0) x = None" for x
  proof (cases "pvContainer (lists k0) x")
    case (Some l)
    then obtain xs where "(no_tasks(event_list 7 \<mapsto> [])) l = Some xs" "x \<in> set xs"
      using kernel_okD(4) [OF ok0(1)] holds_listD(4) [OF kernel_listsD [OF kernel_okD(1) [OF ok0(1)]]] by blast
    then show ?thesis by (simp add: no_tasks_def split: if_splits)
  qed
  have f0: "uxPriority k0 = (\<lambda>_. 1)(1 := 5)" "uxCurrentNumberOfTasks k0 = 2" "uxTopReadyPriority k0 = 0"
    by (simp_all add: k0_def s_def new_event_list_def prvInitialiseTaskLists_def static_kernel_def)
  have "kernel_inv k0" using ok0 c0 f0(3) by (auto simp: kernel_inv_def priorities_ok_def ready_at_def configMAX_PRIORITIES_def)
  note a0 = add_ready_inv [OF this c0, of 0]
  let ?k1 = "prvAddTaskToReadyList 0 k0"
  have k1: "kernel_inv ?k1" "pvContainer (lists ?k1) (xGenericListItem 1) = None" "task_address 1"
    "uxPriority ?k1 = (\<lambda>_. 1)(1 := 5)"
    using a0 f0 c0 same_but_listsD(1,6) [OF a0(2)] by simp_all
  note a1 = add_ready_inv [OF k1(1-3)]
  have t: "two_tasks = prvAddTaskToReadyList 1 ?k1" by (simp add: two_tasks_def k0_def s_def)
  show "kernel_inv two_tasks" using a1(1) t by simp
  show f: "uxPriority two_tasks = (\<lambda>_. 1)(1 := 5)" "uxBasePriority two_tasks = (\<lambda>_. 1)(1 := 5)" "initialised two_tasks = {7}"
    "uxSchedulerSuspended two_tasks 0 = 0" "uxMutexesHeld two_tasks 0 = 0" "pxCurrentTCB two_tasks = (\<lambda>_. 9)(0 := 1)"
    by (simp_all add: two_tasks_def prvAddTaskToReadyList_def new_event_list_def prvInitialiseTaskLists_def static_kernel_def)
  have "pvContainer (lists two_tasks) = (pvContainer (lists k0))
      (xGenericListItem 0 := Some (pxReadyTasksLists 1), xGenericListItem 1 := Some (pxReadyTasksLists 5))"
    using a0(3) a1(3) f0 k1(4) unfolding t by simp
  then show "running two_tasks 0 1" "ready_at two_tasks 1 0" "pvContainer (lists two_tasks) (xEventListItem t) = None" using c0 f(1,6) by (simp_all add: running_def ready_at_def)
  have "xCoreID two_tasks = (\<lambda>_. None)"
    by (simp add: two_tasks_def prvAddTaskToReadyList_def new_event_list_def prvInitialiseTaskLists_def static_kernel_def)
  then show "can_run 0 two_tasks 0" using f(6) by (simp add: can_run_def executing_elsewhere_def tskCAN_RUN_HERE_def)
qed

theorem inherited_priority_is_returned_witness:
  "\<exists>k1 b k2. inherits [(0, 1)] 0 (snd (pvTaskIncrementMutexHeldCount 1 (two_tasks\<lparr>pxCurrentTCB := (\<lambda>_. 0)(0 := 1)\<rparr>))) = Inr k1 \<and>
     uxPriority k1 0 = 5 \<and> xTaskPriorityDisinherit (Some 0) k1 = Inr (b, k2) \<and> b \<and> uxPriority k2 0 = 1"
proof -
  let ?k = "two_tasks\<lparr>pxCurrentTCB := (\<lambda>_. 0)(0 := 1)\<rparr>"
  have "running ?k 1 0" using two_tasks_ok(3,5,11) by (simp add: running_def ready_at_def)
  then show ?thesis
    using inherited_priority_is_returned [of ?k 1 0 "[(0, 1)]"] two_tasks_ok by auto
qed

theorem waiting_for_mutex_no_inversion_witness:
  "\<exists>k1 k2 k3. vTaskPriorityInherit 0 (Some 0) two_tasks = Inr k1 \<and> vTaskPlaceOnEventList 0 (event_list 7) 10 k1 = Inr k2 \<and>
     vTaskSwitchContext 0 k2 = Inr k3 \<and> 5 \<le> uxPriority k3 (pxCurrentTCB k3 0)"
  using waiting_for_mutex_no_inversion [of two_tasks 0 1 10 7 0] two_tasks_ok by auto

theorem vTaskPrioritySet_law_witness:
  "\<exists>y k'. vTaskPrioritySet 0 (Some 0) 6 two_tasks = Inr (y, k') \<and> y \<and> uxPriority k' 0 = 6 \<and> ready_at k' 6 0"
  using vTaskPrioritySet_law [of two_tasks 6 0 0] two_tasks_ok
  by (auto simp: configMAX_PRIORITIES_def can_run_def)

end
