(* ===== verification/RTOS_Calls.thy ===== *)
theory RTOS_Calls
  imports RTOS_Queue RTOS_Priority
begin

text \<open>
  The calls of \<^verbatim>\<open>components/freertos/queue.c\<close> as a whole: the copies of \<open>RTOS_Queue\<close> with the waking and blocking of
  tasks of \<open>RTOS_Tasks\<close> and the inheritance of priorities of \<open>RTOS_Priority\<close>; from tasks, with time-outs, and from
  interrupts. A queue is known by its handle, and its two lists of waiting tasks are event lists of the kernel.
  What the critical section of a queue's \<^verbatim>\<open>mux\<close> encloses is one step, and the blocking calls are sequences of
  such steps, between which other tasks and interrupts run.
\<close>

section \<open>State\<close>

record qsys =
  kern :: kernel
  queues :: "qhandle \<Rightarrow> Queue_t"

definition to_send :: "qhandle \<Rightarrow> kaddr" where "to_send h = event_list (2 * h)"

definition to_receive :: "qhandle \<Rightarrow> kaddr" where "to_receive h = event_list (2 * h + 1)"

definition set_queue :: "qhandle \<Rightarrow> Queue_t \<Rightarrow> qsys \<Rightarrow> qsys" where
  "set_queue h q s = s\<lparr>queues := (queues s)(h := q)\<rparr>"

section \<open>Posting\<close>

text \<open>\<^verbatim>\<open>prvCopyDataToQueue\<close> with the call it makes for a mutex; the result is whether to yield.\<close>

definition prvCopyDataToQueue :: "qhandle \<Rightarrow> byte list \<Rightarrow> queue_position \<Rightarrow> qsys \<Rightarrow> (bool \<times> qsys) run" where
  "prvCopyDataToQueue h item xPosition s =
     (let q = queues s h in
      run_bind (if uxItemSize q = 0 \<and> is_mutex q then xTaskPriorityDisinherit (pxMutexHolder q) (kern s)
                else Inr (False, kern s)) (\<lambda>(xReturn, k).
        case copy_to_queue q item xPosition of
          None \<Rightarrow> Inl Out_Of_Bounds
        | Some q' \<Rightarrow> Inr (xReturn, set_queue h q' (s\<lparr>kern := k\<rparr>))))"

text \<open>Wakes the first task on a list: \<open>None\<close> if there is none, else whether it should run at once.\<close>

definition wake_first :: "nat \<Rightarrow> kaddr \<Rightarrow> qsys \<Rightarrow> (bool option \<times> qsys) run" where
  "wake_first core l s =
     (if listLIST_IS_EMPTY l (lists (kern s)) then Inr (None, s)
      else run_bind (xTaskRemoveFromEventList core l (kern s)) (\<lambda>(b, k). Inr (Some b, s\<lparr>kern := k\<rparr>)))"

text \<open>The item posted to a queue set is the handle of the member, a pointer.\<close>

definition prvNotifyQueueSetContainer :: "nat \<Rightarrow> qhandle \<Rightarrow> queue_position \<Rightarrow> qsys \<Rightarrow> (bool \<times> qsys) run" where
  "prvNotifyQueueSetContainer core h xCopyPosition s =
     (case pxQueueSetContainer (queues s h) of
        None \<Rightarrow> Inl Assert_Failed
      | Some c \<Rightarrow>
          if \<not> uxMessagesWaiting (queues s c) < uxLength (queues s c) then Inl Assert_Failed
          else run_bind (prvCopyDataToQueue c (le32 (of_nat h)) xCopyPosition s) (\<lambda>(xReturn, s1).
               run_bind (wake_first core (to_receive c) s1) (\<lambda>(w, s2). Inr (xReturn \<or> w = Some True, s2))))"

text \<open>What follows the copy: a post to the queue set, or waking a receiver; whether to yield.\<close>

definition after_post :: "nat \<Rightarrow> qhandle \<Rightarrow> queue_position \<Rightarrow> bool \<Rightarrow> qsys \<Rightarrow> (bool \<times> qsys) run" where
  "after_post core h xCopyPosition xYieldRequired s =
     (if pxQueueSetContainer (queues s h) \<noteq> None then prvNotifyQueueSetContainer core h xCopyPosition s
      else run_bind (wake_first core (to_receive h) s) (\<lambda>(w, s1).
        Inr (case w of Some b \<Rightarrow> b | None \<Rightarrow> xYieldRequired, s1)))"

section \<open>Blocking calls\<close>

text \<open>
  Where a task is in its call: before the first critical section of the loop, with the ticks left to wait and,
  once it is set, the entry time; before the second; giving up the processor, until it runs again; returned.
\<close>

datatype 'r pc = Section1 u32 "TimeOut_t option" | Section2 u32 TimeOut_t | Yielding u32 TimeOut_t | Returned 'r

text \<open>
  The second critical section, common to sending and receiving: \<open>blocked\<close> says whether the task still has to wait,
  \<open>inherit\<close> is what happens before it is put on the list \<open>l\<close>, and \<open>failed\<close> the result when the time is over.
\<close>

definition wait_section ::
  "nat \<Rightarrow> kaddr \<Rightarrow> (qsys \<Rightarrow> bool) \<Rightarrow> (kernel \<Rightarrow> kernel run) \<Rightarrow> 'r \<Rightarrow> u32 \<Rightarrow> TimeOut_t \<Rightarrow> qsys \<Rightarrow> ('r pc \<times> qsys) run" where
  "wait_section core l blocked inherit failed xTicksToWait xTimeOut s =
     (let (expired, to', wait') = xTaskCheckForTimeOut xTimeOut xTicksToWait (kern s) in
      if expired then Inr (Returned failed, s)
      else if blocked s then
        run_bind (inherit (kern s)) (\<lambda>k. run_bind (vTaskPlaceOnEventList core l wait' k) (\<lambda>k'.
          Inr (Yielding wait' to', s\<lparr>kern := k'\<rparr>)))
      else Inr (Section1 wait' (Some to'), s))"

definition entry_time :: "TimeOut_t option \<Rightarrow> qsys \<Rightarrow> TimeOut_t" where
  "entry_time to s = (case to of None \<Rightarrow> vTaskSetTimeOutState (kern s) | Some t \<Rightarrow> t)"

text \<open>One step of \<^verbatim>\<open>xQueueGenericSend\<close>; it returns \<^verbatim>\<open>pdPASS\<close> or \<^verbatim>\<open>errQUEUE_FULL\<close>, and whether it has yielded.\<close>

fun send_step :: "nat \<Rightarrow> qhandle \<Rightarrow> byte list \<Rightarrow> queue_position \<Rightarrow> (bool \<times> bool) pc \<Rightarrow> qsys \<Rightarrow> ((bool \<times> bool) pc \<times> qsys) run" where
  "send_step core h item xCopyPosition (Section1 xTicksToWait to) s =
     (if uxMessagesWaiting (queues s h) < uxLength (queues s h) \<or> xCopyPosition = queueOVERWRITE then
        run_bind (prvCopyDataToQueue h item xCopyPosition s) (\<lambda>(xYieldRequired, s1).
        run_bind (after_post core h xCopyPosition xYieldRequired s1) (\<lambda>(y, s2). Inr (Returned (True, y), s2)))
      else if xTicksToWait = 0 then Inr (Returned (False, False), s)
      else Inr (Section2 xTicksToWait (entry_time to s), s))"
| "send_step core h item xCopyPosition (Section2 xTicksToWait xTimeOut) s =
     wait_section core (to_send h) (\<lambda>s. prvIsQueueFull (queues s h)) Inr (False, False) xTicksToWait xTimeOut s"
| "send_step core h item xCopyPosition (Yielding xTicksToWait xTimeOut) s = Inr (Section1 xTicksToWait (Some xTimeOut), s)"
| "send_step core h item xCopyPosition (Returned r) s = Inr (Returned r, s)"

text \<open>One step of \<^verbatim>\<open>xQueueGenericReceive\<close>; it returns the item, or \<open>None\<close> for \<^verbatim>\<open>errQUEUE_EMPTY\<close>.\<close>

definition take_item :: "nat \<Rightarrow> qhandle \<Rightarrow> bool \<Rightarrow> qsys \<Rightarrow> ((byte list option \<times> bool) \<times> qsys) run" where
  "take_item core h xJustPeeking s =
     (let q = queues s h in
      case queue_receive xJustPeeking (Some (pxCurrentTCB (kern s) core)) q of
        None \<Rightarrow> Inl Out_Of_Bounds
      | Some (q', item) \<Rightarrow>
          let k = (if \<not> xJustPeeking \<and> is_mutex q then snd (pvTaskIncrementMutexHeldCount core (kern s)) else kern s) in
          run_bind (wake_first core (if xJustPeeking then to_receive h else to_send h) (set_queue h q' (s\<lparr>kern := k\<rparr>)))
            (\<lambda>(w, s1). Inr ((item, w = Some True), s1)))"

fun receive_step ::
  "nat \<Rightarrow> qhandle \<Rightarrow> bool \<Rightarrow> (byte list option \<times> bool) pc \<Rightarrow> qsys \<Rightarrow> ((byte list option \<times> bool) pc \<times> qsys) run" where
  "receive_step core h xJustPeeking (Section1 xTicksToWait to) s =
     (if 0 < uxMessagesWaiting (queues s h) then
        run_bind (take_item core h xJustPeeking s) (\<lambda>(r, s1). Inr (Returned r, s1))
      else if xTicksToWait = 0 then Inr (Returned (None, False), s)
      else Inr (Section2 xTicksToWait (entry_time to s), s))"
| "receive_step core h xJustPeeking (Section2 xTicksToWait xTimeOut) s =
     wait_section core (to_receive h) (\<lambda>s. prvIsQueueEmpty (queues s h))
       (\<lambda>k. if is_mutex (queues s h) then vTaskPriorityInherit core (pxMutexHolder (queues s h)) k else Inr k)
       (None, False) xTicksToWait xTimeOut s"
| "receive_step core h xJustPeeking (Yielding xTicksToWait xTimeOut) s = Inr (Section1 xTicksToWait (Some xTimeOut), s)"
| "receive_step core h xJustPeeking (Returned r) s = Inr (Returned r, s)"

text \<open>The steps of a call until it returns; \<open>env\<close> is what others do before each step, and a call that has not
  returned when \<open>env\<close> is over is taken to block for ever.\<close>

fun complete :: "('r pc \<Rightarrow> qsys \<Rightarrow> ('r pc \<times> qsys) run) \<Rightarrow> (qsys \<Rightarrow> qsys run) list \<Rightarrow> 'r pc \<Rightarrow> qsys \<Rightarrow> ('r \<times> qsys) run" where
  "complete f env (Returned r) s = Inr (r, s)"
| "complete f [] p s = Inl Blocks_Forever"
| "complete f (e # env) p s = run_bind (e s) (\<lambda>s1. run_bind (f p s1) (\<lambda>(p', s2). complete f env p' s2))"

text \<open>\<open>None\<close> is a NULL pointer for the item or the buffer.\<close>

definition xQueueGenericSend ::
  "nat \<Rightarrow> qhandle \<Rightarrow> byte list option \<Rightarrow> u32 \<Rightarrow> queue_position \<Rightarrow> (qsys \<Rightarrow> qsys run) list \<Rightarrow> qsys \<Rightarrow> ((bool \<times> bool) \<times> qsys) run" where
  "xQueueGenericSend core h pvItemToQueue xTicksToWait xCopyPosition env s =
     (if pvItemToQueue = None \<and> uxItemSize (queues s h) \<noteq> 0 then Inl Assert_Failed
      else if xCopyPosition = queueOVERWRITE \<and> uxLength (queues s h) \<noteq> 1 then Inl Assert_Failed
      else if uxSchedulerSuspended (kern s) core \<noteq> 0 \<and> xTicksToWait \<noteq> 0 then Inl Assert_Failed
      else complete (send_step core h (case pvItemToQueue of None \<Rightarrow> [] | Some b \<Rightarrow> b) xCopyPosition) env
             (Section1 xTicksToWait None) s)"

definition xQueueGenericReceive ::
  "nat \<Rightarrow> qhandle \<Rightarrow> bool \<Rightarrow> u32 \<Rightarrow> bool \<Rightarrow> (qsys \<Rightarrow> qsys run) list \<Rightarrow> qsys \<Rightarrow> ((byte list option \<times> bool) \<times> qsys) run" where
  "xQueueGenericReceive core h has_buffer xTicksToWait xJustPeeking env s =
     (if \<not> has_buffer \<and> uxItemSize (queues s h) \<noteq> 0 then Inl Assert_Failed
      else if uxSchedulerSuspended (kern s) core \<noteq> 0 \<and> xTicksToWait \<noteq> 0 then Inl Assert_Failed
      else complete (receive_step core h xJustPeeking) env (Section1 xTicksToWait None) s)"

section \<open>Calls from interrupts\<close>

text \<open>The second flag of the result is \<^verbatim>\<open>*pxHigherPriorityTaskWoken\<close>.\<close>

definition xQueueGenericSendFromISR ::
  "nat \<Rightarrow> qhandle \<Rightarrow> byte list option \<Rightarrow> queue_position \<Rightarrow> qsys \<Rightarrow> ((bool \<times> bool) \<times> qsys) run" where
  "xQueueGenericSendFromISR core h pvItemToQueue xCopyPosition s =
     (if pvItemToQueue = None \<and> uxItemSize (queues s h) \<noteq> 0 then Inl Assert_Failed
      else if xCopyPosition = queueOVERWRITE \<and> uxLength (queues s h) \<noteq> 1 then Inl Assert_Failed
      else if uxMessagesWaiting (queues s h) < uxLength (queues s h) \<or> xCopyPosition = queueOVERWRITE then
        run_bind (prvCopyDataToQueue h (case pvItemToQueue of None \<Rightarrow> [] | Some b \<Rightarrow> b) xCopyPosition s) (\<lambda>(_, s1).
        run_bind (after_post core h xCopyPosition False s1) (\<lambda>(y, s2). Inr ((True, y), s2)))
      else Inr ((False, False), s))"

definition xQueueGiveFromISR :: "nat \<Rightarrow> qhandle \<Rightarrow> qsys \<Rightarrow> ((bool \<times> bool) \<times> qsys) run" where
  "xQueueGiveFromISR core h s =
     (let q = queues s h in
      if uxItemSize q \<noteq> 0 then Inl Assert_Failed
      else if uxMessagesWaiting q < uxLength q then
        run_bind (after_post core h queueSEND_TO_BACK False
                    (set_queue h (q\<lparr>uxMessagesWaiting := uxMessagesWaiting q + 1\<rparr>) s)) (\<lambda>(y, s1). Inr ((True, y), s1))
      else Inr ((False, False), s))"

definition xQueueReceiveFromISR :: "nat \<Rightarrow> qhandle \<Rightarrow> bool \<Rightarrow> qsys \<Rightarrow> ((byte list option \<times> bool) \<times> qsys) run" where
  "xQueueReceiveFromISR core h has_buffer s =
     (let q = queues s h in
      if \<not> has_buffer \<and> uxItemSize q \<noteq> 0 then Inl Assert_Failed
      else if 0 < uxMessagesWaiting q then
        (case prvCopyDataFromQueue q of
           None \<Rightarrow> Inl Out_Of_Bounds
         | Some (q1, item) \<Rightarrow>
             run_bind (wake_first core (to_send h) (set_queue h (q1\<lparr>uxMessagesWaiting := uxMessagesWaiting q1 - 1\<rparr>) s))
               (\<lambda>(w, s1). Inr ((Some item, w = Some True), s1)))
      else Inr ((None, False), s))"

definition xQueuePeekFromISR :: "qhandle \<Rightarrow> bool \<Rightarrow> qsys \<Rightarrow> (byte list option \<times> qsys) run" where
  "xQueuePeekFromISR h has_buffer s =
     (let q = queues s h in
      if \<not> has_buffer \<or> uxItemSize q = 0 then Inl Assert_Failed
      else if 0 < uxMessagesWaiting q then
        (case prvCopyDataFromQueue q of
           None \<Rightarrow> Inl Out_Of_Bounds
         | Some (q1, item) \<Rightarrow> Inr (Some item, set_queue h (q1\<lparr>pcReadFrom := pcReadFrom q\<rparr>) s))
      else Inr (None, s))"

section \<open>Reset, queue sets and recursive mutexes\<close>

text \<open>\<^verbatim>\<open>xQueueGenericReset\<close> of a queue in use wakes one task that waits to send; whether to yield.\<close>

definition xQueueGenericReset :: "nat \<Rightarrow> qhandle \<Rightarrow> bool \<Rightarrow> qsys \<Rightarrow> (bool \<times> qsys) run" where
  "xQueueGenericReset core h xNewQueue s =
     (let s1 = set_queue h (reset_ring (queues s h)) s in
      if \<not> xNewQueue then run_bind (wake_first core (to_send h) s1) (\<lambda>(w, s2). Inr (w = Some True, s2))
      else Inr (False, s1\<lparr>kern := new_event_list (2 * h + 1) (new_event_list (2 * h) (kern s1))\<rparr>))"

definition xQueueAddToSet :: "qhandle \<Rightarrow> qhandle \<Rightarrow> qsys \<Rightarrow> bool \<times> qsys" where
  "xQueueAddToSet h xQueueSet s =
     (let q = queues s h in
      if pxQueueSetContainer q \<noteq> None then (False, s)
      else if uxMessagesWaiting q \<noteq> 0 then (False, s)
      else (True, set_queue h (q\<lparr>pxQueueSetContainer := Some xQueueSet\<rparr>) s))"

definition xQueueRemoveFromSet :: "qhandle \<Rightarrow> qhandle \<Rightarrow> qsys \<Rightarrow> bool \<times> qsys" where
  "xQueueRemoveFromSet h xQueueSet s =
     (let q = queues s h in
      if pxQueueSetContainer q \<noteq> Some xQueueSet then (False, s)
      else if uxMessagesWaiting q \<noteq> 0 then (False, s)
      else (True, set_queue h (q\<lparr>pxQueueSetContainer := None\<rparr>) s))"

text \<open>The member with data, or \<open>None\<close> for NULL.\<close>

definition xQueueSelectFromSet :: "nat \<Rightarrow> qhandle \<Rightarrow> u32 \<Rightarrow> (qsys \<Rightarrow> qsys run) list \<Rightarrow> qsys \<Rightarrow> (qhandle option \<times> qsys) run" where
  "xQueueSelectFromSet core xQueueSet xTicksToWait env s =
     run_bind (xQueueGenericReceive core xQueueSet True xTicksToWait False env s) (\<lambda>((item, _), s1).
       Inr (map_option (\<lambda>b. unat (of_le32 b)) item, s1))"

definition xQueueSelectFromSetFromISR :: "nat \<Rightarrow> qhandle \<Rightarrow> qsys \<Rightarrow> (qhandle option \<times> qsys) run" where
  "xQueueSelectFromSetFromISR core xQueueSet s =
     run_bind (xQueueReceiveFromISR core xQueueSet True s) (\<lambda>((item, _), s1).
       Inr (map_option (\<lambda>b. unat (of_le32 b)) item, s1))"

definition xQueueGetMutexHolder :: "qhandle \<Rightarrow> qsys \<Rightarrow> task option" where
  "xQueueGetMutexHolder h s = (if is_mutex (queues s h) then pxMutexHolder (queues s h) else None)"

definition recursion_count :: "(u32 \<Rightarrow> u32) \<Rightarrow> qhandle \<Rightarrow> qsys \<Rightarrow> qsys" where
  "recursion_count f h s =
     set_queue h ((queues s h)\<lparr>uxRecursiveCallCount := f (uxRecursiveCallCount (queues s h))\<rparr>) s"

definition xQueueTakeMutexRecursive ::
  "nat \<Rightarrow> qhandle \<Rightarrow> u32 \<Rightarrow> (qsys \<Rightarrow> qsys run) list \<Rightarrow> qsys \<Rightarrow> (bool \<times> qsys) run" where
  "xQueueTakeMutexRecursive core h xTicksToWait env s =
     (if pxMutexHolder (queues s h) = Some (pxCurrentTCB (kern s) core) then Inr (True, recursion_count (\<lambda>n. n + 1) h s)
      else run_bind (xQueueGenericReceive core h False xTicksToWait False env s) (\<lambda>((item, _), s1).
        Inr (if item \<noteq> None then (True, recursion_count (\<lambda>n. n + 1) h s1) else (False, s1))))"

text \<open>The block time of the give is \<^verbatim>\<open>queueMUTEX_GIVE_BLOCK_TIME\<close>, zero; its result is ignored.\<close>

definition xQueueGiveMutexRecursive :: "nat \<Rightarrow> qhandle \<Rightarrow> qsys \<Rightarrow> (bool \<times> qsys) run" where
  "xQueueGiveMutexRecursive core h s =
     (if pxMutexHolder (queues s h) = Some (pxCurrentTCB (kern s) core) then
        let s1 = recursion_count (\<lambda>n. n - 1) h s in
        if uxRecursiveCallCount (queues s1 h) = 0
        then run_bind (xQueueGenericSend core h None 0 queueSEND_TO_BACK [Inr] s1) (\<lambda>(_, s2). Inr (True, s2))
        else Inr (True, s1)
      else Inr (False, s))"

section \<open>Semaphores that count, queue sets, queries from interrupts\<close>

text \<open>\<open>None\<close> is a failed assertion, on the counts or on the allocation.\<close>

definition xQueueCreateCountingSemaphore :: "(nat \<Rightarrow> byte list option) \<Rightarrow> u32 \<Rightarrow> u32 \<Rightarrow> Queue_t option" where
  "xQueueCreateCountingSemaphore pvPortMalloc uxMaxCount uxInitialCount =
     (if uxMaxCount = 0 \<or> \<not> uxInitialCount \<le> uxMaxCount then None
      else case xQueueGenericCreate pvPortMalloc uxMaxCount 0 of
        Some (Some q) \<Rightarrow> Some (q\<lparr>uxMessagesWaiting := uxInitialCount\<rparr>) | _ \<Rightarrow> None)"

definition xQueueCreateSet :: "(nat \<Rightarrow> byte list option) \<Rightarrow> u32 \<Rightarrow> Queue_t option option" where
  "xQueueCreateSet pvPortMalloc uxEventQueueLength = xQueueGenericCreate pvPortMalloc uxEventQueueLength 4"

definition uxQueueMessagesWaitingFromISR :: "qhandle \<Rightarrow> qsys \<Rightarrow> u32" where
  "uxQueueMessagesWaitingFromISR h s = uxMessagesWaiting (queues s h)"

definition xQueueIsQueueEmptyFromISR :: "qhandle \<Rightarrow> qsys \<Rightarrow> bool" where
  "xQueueIsQueueEmptyFromISR h s \<longleftrightarrow> uxMessagesWaiting (queues s h) = 0"

definition xQueueIsQueueFullFromISR :: "qhandle \<Rightarrow> qsys \<Rightarrow> bool" where
  "xQueueIsQueueFullFromISR h s \<longleftrightarrow> uxMessagesWaiting (queues s h) = uxLength (queues s h)"

text \<open>The wait of the timer task: at the end of the list, and for a time, never for ever.\<close>

definition vTaskPlaceOnEventListRestricted :: "nat \<Rightarrow> kaddr \<Rightarrow> u32 \<Rightarrow> kernel \<Rightarrow> kernel run" where
  "vTaskPlaceOnEventListRestricted core pxEventList xTicksToWait k =
     (let t = pxCurrentTCB k core in
      run_bind (list_remove (xGenericListItem t) (k\<lparr>lists := vListInsertEnd pxEventList (xEventListItem t) (lists k)\<rparr>))
        (prvAddCurrentTaskToDelayedList core (xTickCount k + xTicksToWait)))"

definition vQueueWaitForMessageRestricted :: "nat \<Rightarrow> qhandle \<Rightarrow> u32 \<Rightarrow> qsys \<Rightarrow> qsys run" where
  "vQueueWaitForMessageRestricted core h xTicksToWait s =
     (if uxMessagesWaiting (queues s h) = 0
      then run_bind (vTaskPlaceOnEventListRestricted core (to_receive h) xTicksToWait (kern s)) (\<lambda>k. Inr (s\<lparr>kern := k\<rparr>))
      else Inr s)"

section \<open>What the kernel calls do to waiting and ready tasks\<close>

text \<open>Task \<open>t\<close> is on the event list \<open>l\<close>; it is on no event list, and ready.\<close>

definition waits :: "kernel \<Rightarrow> nat \<Rightarrow> kaddr \<Rightarrow> bool" where
  "waits k t l \<longleftrightarrow> pvContainer (lists k) (xEventListItem t) = Some l"

definition awake :: "kernel \<Rightarrow> nat \<Rightarrow> bool" where
  "awake k t \<longleftrightarrow> pvContainer (lists k) (xEventListItem t) = None \<and> (\<exists>p. ready_at k p t)"

definition blocked_waiters :: "kernel \<Rightarrow> bool" where
  "blocked_waiters k \<longleftrightarrow> (\<forall>t e. waits k t (event_list e) \<longrightarrow>
     sleeping k t \<or> pvContainer (lists k) (xGenericListItem t) = Some xSuspendedTaskList)"

text \<open>The tasks \<open>W\<close> wake up, and the others stay where they are.\<close>

definition wakes :: "nat set \<Rightarrow> kernel \<Rightarrow> kernel \<Rightarrow> bool" where
  "wakes W k k' \<longleftrightarrow> (\<forall>t. if t \<in> W then awake k' t
     else pvContainer (lists k') (xEventListItem t) = pvContainer (lists k) (xEventListItem t) \<and>
          pvContainer (lists k') (xGenericListItem t) = pvContainer (lists k) (xGenericListItem t))"

lemma wakes_none [simp]: "wakes {} k k"
  by (simp add: wakes_def)

lemma wakesD:
  assumes "wakes W k k'"
  shows "awake k t \<Longrightarrow> awake k' t" "t \<in> W \<Longrightarrow> awake k' t" "waits k' t l \<longleftrightarrow> waits k t l \<and> t \<notin> W"
    "awake k' t \<Longrightarrow> t \<in> W \<or> awake k t"
  using assms unfolding wakes_def awake_def waits_def ready_at_def by (metis option.discI)+

lemma blocked_not_awake: "waits k t l \<Longrightarrow> \<not> awake k t"
  by (simp add: waits_def awake_def)

lemma blocked_waiters_wakes:
  assumes "blocked_waiters k" "wakes W k k'"
  shows "blocked_waiters k'"
  unfolding blocked_waiters_def
proof (intro allI impI)
  fix t e assume w: "waits k' t (event_list e)"
  then have t: "waits k t (event_list e)" "t \<notin> W" using wakesD(3) [OF assms(2)] by auto
  then have "pvContainer (lists k') (xGenericListItem t) = pvContainer (lists k) (xGenericListItem t)"
    using assms(2) by (simp add: wakes_def)
  then show "sleeping k' t \<or> pvContainer (lists k') (xGenericListItem t) = Some xSuspendedTaskList"
    using assms(1) t(1) by (auto simp: blocked_waiters_def sleeping_def)
qed

text \<open>The fixed circumstances: which event lists there are, and that no core has suspended the scheduler.\<close>

definition same_setting :: "kernel \<Rightarrow> kernel \<Rightarrow> bool" where
  "same_setting k k' \<longleftrightarrow> initialised k' = initialised k \<and> uxSchedulerSuspended k' = uxSchedulerSuspended k"

lemma same_setting_refl [simp]: "same_setting k k"
  by (simp add: same_setting_def)

lemma remove_event_form:
  assumes "xTaskRemoveFromEventList core l k = Inr (b, k')" "\<not> listLIST_IS_EMPTY l (lists k)" "uxSchedulerSuspended k core = 0"
  obtains m f ys where "k' = (prvAddTaskToReadyList (listGET_OWNER_OF_HEAD_ENTRY l (lists k)) (k\<lparr>lists := m\<rparr>))
    \<lparr>xYieldPending := f, yields_sent := ys\<rparr>"
proof -
  let ?t = "listGET_OWNER_OF_HEAD_ENTRY l (lists k)"
  have remove: "\<exists>m. k2 = k1\<lparr>lists := m\<rparr>" if "list_remove x k1 = Inr k2" for x k1 k2
    using that by (auto simp: list_remove_def run_bind_Inr_iff)
  obtain k1 where k1: "list_remove (xEventListItem ?t) k = Inr k1"
    using assms by (auto simp: xTaskRemoveFromEventList_def Let_def run_bind_Inr_iff)
  then have "uxSchedulerSuspended k1 = uxSchedulerSuspended k" using remove by fastforce
  then obtain k2 where k2: "list_remove (xGenericListItem ?t) k1 = Inr k2" "after_wake core ?t (prvAddTaskToReadyList ?t k2) = (b, k')"
    using assms k1 by (auto simp: xTaskRemoveFromEventList_def Let_def run_bind_Inr_iff)
  obtain m where "k2 = k\<lparr>lists := m\<rparr>" using remove [OF k1] remove [OF k2(1)] by auto
  then show ?thesis using after_wake_flags [of core ?t "prvAddTaskToReadyList ?t k2"] k2(2) that by auto
qed

lemma remove_event_inv:
  assumes inv: "kernel_inv k" "blocked_waiters k" and s: "uxSchedulerSuspended k core = 0" and e: "e \<in> initialised k"
  shows "listLIST_IS_EMPTY (event_list e) (lists k) \<longleftrightarrow> \<not> (\<exists>t. waits k t (event_list e))"
    and "waits k u (event_list e) \<Longrightarrow> \<exists>t b k'. waits k t (event_list e) \<and>
      xTaskRemoveFromEventList core (event_list e) k = Inr (b, k') \<and> kernel_inv k' \<and> wakes {t} k k' \<and> same_setting k k' \<and>
      (b \<longleftrightarrow> tskCAN_RUN_HERE core (xCoreID k t) \<and> uxPriority k t \<ge> uxPriority k (pxCurrentTCB k core))"
proof -
  obtain L where ok: "kernel_ok k L" "timed k L" "priorities_ok k" using inv by (auto simp: kernel_inv_def)
  obtain es where es: "L (event_list e) = Some es" using kernel_okD(9) [OF ok(1) e] by blast
  note h = kernel_listsD [OF kernel_okD(1) [OF ok(1)] es]
  have items: "\<exists>t. x = xEventListItem t" if "x \<in> set es" for x
    using kernel_okD(4) [OF ok(1), of x "event_list e"] holds_listD(4) [OF h, of x] that by (auto simp: fits_on_def)
  have mem: "xEventListItem t \<in> set es \<longleftrightarrow> waits k t (event_list e)" for t
    using holds_listD(4) [OF h] by (simp add: waits_def)
  show "listLIST_IS_EMPTY (event_list e) (lists k) \<longleftrightarrow> \<not> (\<exists>t. waits k t (event_list e))"
    unfolding holds_list_empty [OF h] using mem items by (metis empty_iff list.set(1) list.set_intros(1) neq_Nil_conv)
  assume "waits k u (event_list e)"
  then have "es \<noteq> []" using mem [of u] by auto
  then obtain t es' where t: "es = xEventListItem t # es'" using items by (metis list.set_intros(1) neq_Nil_conv)
  then have w: "waits k t (event_list e)" using mem [of t] by simp
  then obtain l where g: "pvContainer (lists k) (xGenericListItem t) = Some l"
    using inv(2) by (auto simp: blocked_waiters_def sleeping_def)
  obtain b k' L' where k': "xTaskRemoveFromEventList core (event_list e) k = Inr (b, k')" "kernel_ok k' L'" "timed k' L'"
    "pvContainer (lists k') = (pvContainer (lists k))
      (xEventListItem t := None, xGenericListItem t := Some (pxReadyTasksLists (uxPriority k t)))"
    "b \<longleftrightarrow> tskCAN_RUN_HERE core (xCoreID k t) \<and> uxPriority k t \<ge> uxPriority k (pxCurrentTCB k core)"
    using xTaskRemoveFromEventList_ok [OF ok(1,2) es [unfolded t] g s] by blast
  have hd: "listGET_OWNER_OF_HEAD_ENTRY (event_list e) (lists k) = t" "\<not> listLIST_IS_EMPTY (event_list e) (lists k)"
    using holds_list_head [OF h [unfolded t]] holds_list_empty [OF h] t kernel_okD(6) [OF ok(1)] by simp_all
  obtain m f ys where f: "k' = (prvAddTaskToReadyList t (k\<lparr>lists := m\<rparr>))\<lparr>xYieldPending := f, yields_sent := ys\<rparr>"
    using remove_event_form [OF k'(1) hd(2) s] hd(1) by blast
  have "unat (of_nat (uxPriority k t) :: u32) = uxPriority k t"
    using kernel_okD(7) [OF ok(1), of t] by (simp add: configMAX_PRIORITIES_def unat_of_nat)
  then have top: "unat (uxTopReadyPriority k') = max (unat (uxTopReadyPriority k)) (uxPriority k t)" "uxPriority k' = uxPriority k"
    by (simp_all add: f prvAddTaskToReadyList_def word_less_nat_alt max_def)
  have "priorities_ok k'"
    using ok(3) kernel_okD(7) [OF ok(1), of t] unfolding priorities_ok_def top ready_at_def k'(4)
    by (auto simp: le_max_iff_disj split: if_splits)
  then have "kernel_inv k'" using k'(2,3) by (auto simp: kernel_inv_def)
  moreover have "wakes {t} k k'" using k'(4) by (simp add: wakes_def awake_def ready_at_def)
  moreover have "same_setting k k'" by (simp add: f same_setting_def prvAddTaskToReadyList_def)
  ultimately show "\<exists>t b k'. waits k t (event_list e) \<and>
      xTaskRemoveFromEventList core (event_list e) k = Inr (b, k') \<and> kernel_inv k' \<and> wakes {t} k k' \<and> same_setting k k' \<and>
      (b \<longleftrightarrow> tskCAN_RUN_HERE core (xCoreID k t) \<and> uxPriority k t \<ge> uxPriority k (pxCurrentTCB k core))"
    using w k'(1,5) by blast
qed

lemma tick_inv:
  assumes inv: "kernel_inv k" and s: "uxSchedulerSuspended k 0 = 0"
  shows "\<exists>sw k' W. xTaskIncrementTick 0 k = Inr (sw, k') \<and> kernel_inv k' \<and> wakes W k k' \<and> same_setting k k' \<and> (\<forall>t \<in> W. sleeping k t)"
proof -
  obtain L where ok: "kernel_ok k L" "timed k L" "priorities_ok k" using inv by (auto simp: kernel_inv_def)
  let ?W = "{t. xGenericListItem t \<in> due_items k (xTickCount k + 1)}"
  obtain sw k' L' where k': "xTaskIncrementTick 0 k = Inr (sw, k')" "kernel_ok k' L'" "timed k' L'"
    "pvContainer (lists k') = woken (uxPriority k) (due_items k (xTickCount k + 1)) (pvContainer (lists k))" "same_but_time k k'"
    "raised (uxPriority k) (due_items k (xTickCount k + 1)) (uxTopReadyPriority k) (uxTopReadyPriority k')"
    using xTaskIncrementTick_ok [OF ok(1,2) s] by blast
  note f = same_but_timeD [OF k'(5)]
  have u: "unat (of_nat (uxPriority k t) :: u32) = uxPriority k t" "uxPriority k t < configMAX_PRIORITIES" for t
    using kernel_okD(7) [OF ok(1), of t] by (simp_all add: configMAX_PRIORITIES_def unat_of_nat)
  have top: "unat (uxTopReadyPriority k) \<le> unat (uxTopReadyPriority k')" "unat (uxTopReadyPriority k') < configMAX_PRIORITIES"
    "\<And>t. t \<in> ?W \<Longrightarrow> uxPriority k t \<le> unat (uxTopReadyPriority k')"
    using k'(6) u ok(3) by (auto simp: raised_def priorities_ok_def word_le_nat_alt)
  have r: "ready_at k' p t \<longleftrightarrow> (if t \<in> ?W then p = uxPriority k t else ready_at k p t)" for p t
    unfolding ready_at_def k'(4) by auto
  have "priorities_ok k'"
    using ok(3) top unfolding priorities_ok_def r f(1) by (auto intro: le_trans split: if_splits)
  then have "kernel_inv k'" using k'(2,3) by (auto simp: kernel_inv_def)
  moreover have "wakes ?W k k'" unfolding wakes_def awake_def r using k'(4) by auto
  moreover have "same_setting k k'" using f(7,8) by (simp add: same_setting_def)
  moreover have "\<forall>t \<in> ?W. sleeping k t" by (auto simp: due_items_def sleeping_def)
  ultimately show ?thesis using k'(1) by blast
qed

lemma switch_inv:
  assumes inv: "kernel_inv k" and s: "uxSchedulerSuspended k core = 0" and t: "ready_at k p t" "can_run core k t"
  shows "\<exists>k'. vTaskSwitchContext core k = Inr k' \<and> kernel_inv k' \<and> wakes {} k k' \<and> same_setting k k'"
proof -
  obtain L where ok: "kernel_ok k L" "timed k L" "priorities_ok k" using inv by (auto simp: kernel_inv_def)
  obtain k' T' where k': "vTaskSwitchContext core k = Inr k'" "kernel_ok k' L" "top_bounds k' L T'" "same_but_choice k k'"
    using vTaskSwitchContext_ok [OF ok(1) priorities_top_bounds [OF ok(1,3)] s t] by blast
  note f = same_but_choiceD [OF k'(4)]
  have r: "ready_at k' = ready_at k" using f(6) by (simp add: ready_at_def fun_eq_iff)
  have T: "unat (uxTopReadyPriority k') = T'" "T' < configMAX_PRIORITIES"
    using k'(3) by (simp_all add: top_bounds_def configMAX_PRIORITIES_def unat_of_nat)
  have "q \<le> T'" if "ready_at k' q u" for q u
  proof (rule ccontr)
    assume "\<not> q \<le> T'"
    then have "L (pxReadyTasksLists q) = Some []" using k'(3) ready_level [OF k'(2) that] by (simp add: top_bounds_def)
    then show False using empty_level [OF k'(2)] that by blast
  qed
  then have "priorities_ok k'" using ok(3) T f(1) r by (auto simp: priorities_ok_def)
  then have "kernel_inv k'" using k'(2) f(7) ok(2) by (auto simp: kernel_inv_def)
  moreover have "wakes {} k k'" using f(6) by (simp add: wakes_def)
  moreover have "same_setting k k'" using f(2,3) by (simp add: same_setting_def)
  ultimately show ?thesis using k'(1) by blast
qed

end
