(* ===== verification/RTOS_Blocking.thy ===== *)
theory RTOS_Blocking
  imports RTOS_Calls
begin

text \<open>
  Tasks and interrupts that use queues at the same time: an interleaving of the steps of blocking calls, the
  calls from interrupts, the tick and context switches, and the proof that no wake-up is lost. Queues and
  semaphores are covered, mutexes and members of queue sets are not.
\<close>

section \<open>Queues with waiting tasks\<close>

datatype side = Sender | Receiver

fun wlist :: "side \<Rightarrow> qhandle \<Rightarrow> kaddr" where
  "wlist Sender h = to_send h"
| "wlist Receiver h = to_receive h"

text \<open>What the waiting tasks of a side wait for: free slots, or messages.\<close>

fun units :: "side \<Rightarrow> Queue_t \<Rightarrow> nat" where
  "units Sender q = unat (uxLength q) - unat (uxMessagesWaiting q)"
| "units Receiver q = unat (uxMessagesWaiting q)"

lemma wlist_inj [simp]: "wlist \<sigma> h = wlist \<tau> g \<longleftrightarrow> \<sigma> = \<tau> \<and> h = g"
  by (cases \<sigma>; cases \<tau>) (auto simp: to_send_def to_receive_def, presburger+)

definition plain_queue :: "Queue_t \<Rightarrow> bool" where
  "plain_queue q \<longleftrightarrow> queue_inv q \<and> \<not> is_mutex q \<and> pxQueueSetContainer q = None"

definition sys_ok :: "qhandle set \<Rightarrow> qsys \<Rightarrow> bool" where
  "sys_ok H s \<longleftrightarrow> kernel_inv (kern s) \<and> blocked_waiters (kern s) \<and> (\<forall>core. uxSchedulerSuspended (kern s) core = 0) \<and>
     (\<forall>h \<in> H. plain_queue (queues s h) \<and> 2 * h \<in> initialised (kern s) \<and> 2 * h + 1 \<in> initialised (kern s))"

lemma sys_ok_wakes:
  assumes "sys_ok H s" "kernel_inv k" "wakes W (kern s) k" "same_setting (kern s) k"
  shows "sys_ok H (s\<lparr>kern := k\<rparr>)"
  using assms blocked_waiters_wakes [OF _ assms(3)] by (simp add: sys_ok_def same_setting_def)

text \<open>One of the tasks that wait on a list wakes up, if there is one.\<close>

definition wakes_one :: "kernel \<Rightarrow> kaddr \<Rightarrow> nat set \<Rightarrow> bool" where
  "wakes_one k l W \<longleftrightarrow> (if \<exists>t. waits k t l then \<exists>t. waits k t l \<and> W = {t} else W = {})"

lemma wlist_event: "\<exists>e. wlist \<sigma> h = event_list e \<and> (sys_ok H s \<and> h \<in> H \<longrightarrow> e \<in> initialised (kern s))"
  by (cases \<sigma>) (auto simp: to_send_def to_receive_def sys_ok_def)

lemma wake_first_ok:
  assumes ok: "sys_ok H s" and h: "h \<in> H"
  shows "\<exists>w k' W. wake_first core (wlist \<sigma> h) s = Inr (w, s\<lparr>kern := k'\<rparr>) \<and> sys_ok H (s\<lparr>kern := k'\<rparr>) \<and>
    wakes W (kern s) k' \<and> wakes_one (kern s) (wlist \<sigma> h) W"
proof -
  obtain e where e: "wlist \<sigma> h = event_list e" "e \<in> initialised (kern s)" using wlist_event [of \<sigma> h H s] ok h by blast
  have k: "kernel_inv (kern s)" "blocked_waiters (kern s)" "uxSchedulerSuspended (kern s) core = 0"
    using ok by (auto simp: sys_ok_def)
  note r = remove_event_inv [OF k e(2)]
  show ?thesis
  proof (cases "\<exists>t. waits (kern s) t (event_list e)")
    case False
    then have "wake_first core (wlist \<sigma> h) s = Inr (None, s\<lparr>kern := kern s\<rparr>)" using r(1) e(1) by (simp add: wake_first_def)
    moreover have "wakes_one (kern s) (wlist \<sigma> h) {}" using False e(1) by (simp add: wakes_one_def)
    ultimately show ?thesis using ok
      by (intro exI [of _ None] exI [of _ "kern s"] exI [of _ "{}"]) simp
  next
    case True
    then obtain t b k' where t: "waits (kern s) t (event_list e)" "xTaskRemoveFromEventList core (event_list e) (kern s) = Inr (b, k')"
      "kernel_inv k'" "wakes {t} (kern s) k'" "same_setting (kern s) k'"
      using r(2) by blast
    then have "wake_first core (wlist \<sigma> h) s = Inr (Some b, s\<lparr>kern := k'\<rparr>)" using r(1) True e(1) by (simp add: wake_first_def)
    moreover have "wakes_one (kern s) (wlist \<sigma> h) {t}" using t(1) e(1) by (auto simp: wakes_one_def)
    ultimately show ?thesis using sys_ok_wakes [OF ok t(3-5)] t(4) by blast
  qed
qed

section \<open>Posting and taking\<close>

definition fits :: "byte list \<Rightarrow> queue_position \<Rightarrow> Queue_t \<Rightarrow> bool" where
  "fits item pos q \<longleftrightarrow> length item = unat (uxItemSize q) \<and> (pos = queueOVERWRITE \<longrightarrow> uxLength q = 1 \<and> 0 < uxItemSize q)"

definition same_size :: "Queue_t \<Rightarrow> Queue_t \<Rightarrow> bool" where
  "same_size q q' \<longleftrightarrow> uxLength q' = uxLength q \<and> uxItemSize q' = uxItemSize q"

lemma copy_frame:
  "copy_to_queue q item pos = Some q' \<Longrightarrow> is_mutex q' = is_mutex q \<and> pxQueueSetContainer q' = pxQueueSetContainer q \<and> same_size q q'"
  by (auto simp: copy_to_queue_def is_mutex_def same_size_def Let_def split: if_splits)

lemma copy_plain:
  assumes q: "plain_queue q" "fits item pos q" and room: "uxMessagesWaiting q < uxLength q \<or> pos = queueOVERWRITE"
  shows "\<exists>q'. copy_to_queue q item pos = Some q' \<and> plain_queue q' \<and> same_size q q' \<and>
    units Receiver q' \<le> units Receiver q + 1 \<and> units Sender q' = units Sender q - 1"
proof -
  have inv: "queue_inv q" "length item = unat (uxItemSize q)" using q by (simp_all add: plain_queue_def fits_def)
  have "\<exists>q'. copy_to_queue q item pos = Some q' \<and> queue_inv q' \<and>
      (if pos = queueOVERWRITE then length (queue_content q') = 1 \<and> uxLength q = 1
       else length (queue_content q') = length (queue_content q) + 1)"
  proof (cases "uxItemSize q = 0 \<or> pos = queueSEND_TO_BACK")
    case True
    then have pos: "pos \<noteq> queueOVERWRITE" using q(2) by (auto simp: fits_def)
    have "copy_to_queue q item pos = copy_to_queue q item queueSEND_TO_BACK" using True by (auto simp: copy_to_queue_def)
    then show ?thesis using copy_to_queue_back [OF inv(1) _ inv(2)] room pos by (auto simp: unat_inc)
  next
    case False
    then have "0 < uxItemSize q" by (simp add: word_gt_0)
    then show ?thesis using False room q(2) copy_to_queue_front [OF inv(1) _ inv(2)] copy_to_queue_overwrite [OF inv(1) _ inv(2)]
      by (cases pos) (auto simp: fits_def simp del: length_queue_content)
  qed
  then obtain q' where q': "copy_to_queue q item pos = Some q'" "queue_inv q'"
    "if pos = queueOVERWRITE then length (queue_content q') = 1 \<and> uxLength q = 1
     else length (queue_content q') = length (queue_content q) + 1" by blast
  note f = copy_frame [OF q'(1)]
  have "unat (uxMessagesWaiting q) \<le> unat (uxLength q)" using queue_inv_facts(5) [OF inv(1)] by (simp add: word_le_nat_alt)
  then show ?thesis using q' f q(1) by (auto simp: plain_queue_def same_size_def split: if_splits)
qed

lemma take_plain:
  assumes q: "plain_queue q" "0 < uxMessagesWaiting q"
  shows "\<exists>q' item. queue_receive peek me q = Some (q', Some item) \<and> plain_queue q' \<and> same_size q q' \<and>
    (if peek then q' = q else units Receiver q' = units Receiver q - 1 \<and> units Sender q' = units Sender q + 1)"
proof (cases peek)
  case True
  then show ?thesis using queue_receive_peek [of q me] q by (simp add: plain_queue_def same_size_def)
next
  case False
  have inv: "queue_inv q" using q(1) by (simp add: plain_queue_def)
  obtain q' where q': "queue_receive False me q = Some (q', Some (hd (queue_content q)))" "queue_inv q'" "uxLength q' = uxLength q"
    "uxItemSize q' = uxItemSize q" "uxMessagesWaiting q' = uxMessagesWaiting q - 1"
    using queue_receive_head [OF inv q(2), of me] by blast
  have "is_mutex q' = is_mutex q \<and> pxQueueSetContainer q' = pxQueueSetContainer q"
    using q'(1) q(2) by (auto simp: queue_receive_def prvCopyDataFromQueue_def is_mutex_def Let_def split: if_splits)
  moreover have "unat (uxMessagesWaiting q - 1) = unat (uxMessagesWaiting q) - 1" "0 < unat (uxMessagesWaiting q)"
    using q(2) by (simp_all add: counter_simps)
  moreover have "unat (uxMessagesWaiting q) \<le> unat (uxLength q)" using queue_inv_facts(5) [OF inv] by (simp add: word_le_nat_alt)
  ultimately show ?thesis using q' False q(1) by (auto simp: plain_queue_def same_size_def)
qed

text \<open>
  An action on queue \<open>h\<close> that wakes a task of side \<open>\<sigma>\<close>, if one waits: the system stays well formed, the other
  queues stay as they are, and \<open>d\<close> says how the new state of the queue compares with the old.
\<close>

definition acts :: "qhandle set \<Rightarrow> side \<Rightarrow> qhandle \<Rightarrow> (Queue_t \<Rightarrow> bool) \<Rightarrow> qsys \<Rightarrow> nat set \<Rightarrow> qsys \<Rightarrow> bool" where
  "acts H \<sigma> h d s W s' \<longleftrightarrow> sys_ok H s' \<and> wakes W (kern s) (kern s') \<and> wakes_one (kern s) (wlist \<sigma> h) W \<and>
     (\<forall>g. g \<noteq> h \<longrightarrow> queues s' g = queues s g) \<and> same_size (queues s h) (queues s' h) \<and> d (queues s' h)"

lemma sys_ok_set_queue:
  "sys_ok H s \<Longrightarrow> plain_queue q \<Longrightarrow> sys_ok H (set_queue h q s)" "kern (set_queue h q s) = kern s"
  by (simp_all add: sys_ok_def set_queue_def)

text \<open>What follows a change of the queue.\<close>

lemma wake_after:
  assumes ok: "sys_ok H s" "h \<in> H" and q: "plain_queue q" "same_size (queues s h) q" "d q"
  shows "\<exists>w s' W. wake_first core (wlist \<sigma> h) (set_queue h q s) = Inr (w, s') \<and> acts H \<sigma> h d s W s'"
proof -
  obtain w k' W where "wake_first core (wlist \<sigma> h) (set_queue h q s) = Inr (w, (set_queue h q s)\<lparr>kern := k'\<rparr>)"
    "sys_ok H ((set_queue h q s)\<lparr>kern := k'\<rparr>)" "wakes W (kern s) k'" "wakes_one (kern s) (wlist \<sigma> h) W"
    using wake_first_ok [OF sys_ok_set_queue(1) [OF ok(1) q(1), of h] ok(2), where core = core and \<sigma> = \<sigma>]
    unfolding sys_ok_set_queue(2) by blast
  then show ?thesis using q(2,3) by (intro exI [of _ w] exI [of _ "(set_queue h q s)\<lparr>kern := k'\<rparr>"] exI [of _ W])
      (simp add: acts_def set_queue_def)
qed

definition posted :: "Queue_t \<Rightarrow> Queue_t \<Rightarrow> bool" where
  "posted q q' \<longleftrightarrow> units Receiver q' \<le> units Receiver q + 1 \<and> units Sender q' = units Sender q - 1"

definition taken :: "Queue_t \<Rightarrow> Queue_t \<Rightarrow> bool" where
  "taken q q' \<longleftrightarrow> units Receiver q' = units Receiver q - 1 \<and> units Sender q' = units Sender q + 1"

lemma after_post_ok:
  assumes ok: "sys_ok H s" "h \<in> H" and q: "plain_queue q" "same_size (queues s h) q" "posted (queues s h) q"
  shows "\<exists>b s' W. after_post core h pos y (set_queue h q s) = Inr (b, s') \<and> acts H Receiver h (posted (queues s h)) s W s'"
proof -
  obtain w s' W where "wake_first core (to_receive h) (set_queue h q s) = Inr (w, s')" "acts H Receiver h (posted (queues s h)) s W s'"
    using wake_after [where d = "posted (queues s h)" and core = core and \<sigma> = Receiver, OF ok q] by auto
  moreover have "pxQueueSetContainer (queues (set_queue h q s) h) = None" using q(1) by (simp add: set_queue_def plain_queue_def)
  ultimately show ?thesis by (intro exI conjI) (auto simp: after_post_def)
qed

lemma post_ok:
  assumes ok: "sys_ok H s" "h \<in> H" and f: "fits item pos (queues s h)"
    and room: "uxMessagesWaiting (queues s h) < uxLength (queues s h) \<or> pos = queueOVERWRITE"
  shows "\<exists>s1 b s' W. prvCopyDataToQueue h item pos s = Inr (False, s1) \<and> after_post core h pos y s1 = Inr (b, s') \<and>
    acts H Receiver h (posted (queues s h)) s W s'"
proof -
  have p: "plain_queue (queues s h)" using ok by (simp add: sys_ok_def)
  obtain q' where q': "copy_to_queue (queues s h) item pos = Some q'" "plain_queue q'" "same_size (queues s h) q'" "posted (queues s h) q'"
    using copy_plain [OF p f room] by (auto simp: posted_def)
  have "prvCopyDataToQueue h item pos s = Inr (False, set_queue h q' s)"
    using q'(1) p by (simp add: prvCopyDataToQueue_def plain_queue_def Let_def)
  then show ?thesis using after_post_ok [OF ok q'(2-4)] by blast
qed

lemma take_item_ok:
  assumes ok: "sys_ok H s" "h \<in> H" and m: "0 < uxMessagesWaiting (queues s h)"
  shows "\<exists>r s' W. take_item core h peek s = Inr (r, s') \<and>
    (if peek then acts H Receiver h (\<lambda>q'. q' = queues s h) s W s' else acts H Sender h (taken (queues s h)) s W s')"
proof -
  have p: "plain_queue (queues s h)" using ok by (simp add: sys_ok_def)
  obtain q' item where q': "queue_receive peek (Some (pxCurrentTCB (kern s) core)) (queues s h) = Some (q', Some item)"
    "plain_queue q'" "same_size (queues s h) q'"
    "if peek then q' = queues s h else units Receiver q' = units Receiver (queues s h) - 1 \<and> units Sender q' = units Sender (queues s h) + 1"
    using take_plain [OF p m] by blast
  have t: "take_item core h peek s = run_bind (wake_first core (wlist (if peek then Receiver else Sender) h) (set_queue h q' s))
      (\<lambda>(w, s1). Inr ((Some item, w = Some True), s1))"
    using q'(1) p by (simp add: take_item_def plain_queue_def Let_def)
  have d: "if peek then q' = queues s h else taken (queues s h) q'" unfolding taken_def by (rule q'(4))
  show ?thesis
  proof (cases peek)
    case True
    obtain w s' W where "wake_first core (wlist Receiver h) (set_queue h q' s) = Inr (w, s')" "acts H Receiver h (\<lambda>q'. q' = queues s h) s W s'"
      using wake_after [where d = "\<lambda>q'. q' = queues s h" and core = core and \<sigma> = Receiver, OF ok q'(2,3)] d True by auto
    then show ?thesis using True unfolding t by (intro exI conjI) auto
  next
    case False
    obtain w s' W where "wake_first core (wlist Sender h) (set_queue h q' s) = Inr (w, s')" "acts H Sender h (taken (queues s h)) s W s'"
      using wake_after [where d = "taken (queues s h)" and core = core and \<sigma> = Sender, OF ok q'(2,3)] d False by auto
    then show ?thesis using False unfolding t by (intro exI conjI) auto
  qed
qed

section \<open>Tasks in calls\<close>

datatype call =
    Sending qhandle "byte list" queue_position "(bool \<times> bool) pc"
  | Receiving qhandle bool "(byte list option \<times> bool) pc"

text \<open>Before the first critical section, where a task looks into the queue; waiting to get there.\<close>

fun at_loop_head :: "'r pc \<Rightarrow> bool" where
  "at_loop_head (Section1 _ _) = True"
| "at_loop_head (Yielding _ _) = True"
| "at_loop_head _ = False"

fun at_head :: "side \<Rightarrow> qhandle \<Rightarrow> call \<Rightarrow> bool" where
  "at_head Sender h (Sending g _ _ p) = (g = h \<and> at_loop_head p)"
| "at_head Receiver h (Receiving g _ p) = (g = h \<and> at_loop_head p)"
| "at_head _ _ _ = False"

fun yielding :: "side \<Rightarrow> qhandle \<Rightarrow> call \<Rightarrow> bool" where
  "yielding Sender h (Sending g _ _ (Yielding _ _)) = (g = h)"
| "yielding Receiver h (Receiving g _ (Yielding _ _)) = (g = h)"
| "yielding _ _ _ = False"

lemma yielding_at_head: "yielding \<sigma> h c \<Longrightarrow> at_head \<sigma> h c"
  by (cases "(\<sigma>, h, c)" rule: yielding.cases) auto

fun pc_ok :: "'r pc \<Rightarrow> bool" where
  "pc_ok (Section2 w _) = (w \<noteq> 0)"
| "pc_ok _ = True"

fun call_ok :: "qhandle set \<Rightarrow> (qhandle \<Rightarrow> Queue_t) \<Rightarrow> call \<Rightarrow> bool" where
  "call_ok H qs (Sending h item pos p) = (h \<in> H \<and> fits item pos (qs h) \<and> pc_ok p)"
| "call_ok H qs (Receiving h _ p) = (h \<in> H \<and> pc_ok p)"

lemma call_ok_sizes: "(\<And>g. same_size (qs g) (qs' g)) \<Longrightarrow> call_ok H qs c \<Longrightarrow> call_ok H qs' c"
  by (cases c) (simp_all add: same_size_def fits_def)

text \<open>The awake tasks of a side that are about to look into the queue.\<close>

definition heads :: "side \<Rightarrow> kernel \<Rightarrow> (task \<rightharpoonup> call) \<Rightarrow> qhandle \<Rightarrow> task set" where
  "heads \<sigma> k C h = {t. awake k t \<and> (\<exists>c. C t = Some c \<and> at_head \<sigma> h c)}"

text \<open>
  No wake-up is lost: while a task waits, every unit it waits for is covered by another task of its side that
  is awake and about to take it.
\<close>

definition served :: "side \<Rightarrow> qhandle \<Rightarrow> qsys \<Rightarrow> (task \<rightharpoonup> call) \<Rightarrow> bool" where
  "served \<sigma> h s C \<longleftrightarrow> ((\<exists>t. waits (kern s) t (wlist \<sigma> h)) \<longrightarrow> units \<sigma> (queues s h) \<le> card (heads \<sigma> (kern s) C h))"

definition calls_ok :: "qhandle set \<Rightarrow> qsys \<Rightarrow> (task \<rightharpoonup> call) \<Rightarrow> bool" where
  "calls_ok H s C \<longleftrightarrow> finite (dom C) \<and>
     (\<forall>t \<sigma> h. h \<in> H \<and> waits (kern s) t (wlist \<sigma> h) \<longrightarrow> (\<exists>c. C t = Some c \<and> yielding \<sigma> h c)) \<and>
     (\<forall>t c. C t = Some c \<longrightarrow> call_ok H (queues s) c \<and>
        (awake (kern s) t \<or> (\<exists>\<sigma> h. h \<in> H \<and> waits (kern s) t (wlist \<sigma> h))))"

definition system_inv :: "qhandle set \<Rightarrow> qsys \<Rightarrow> (task \<rightharpoonup> call) \<Rightarrow> bool" where
  "system_inv H s C \<longleftrightarrow> sys_ok H s \<and> calls_ok H s C \<and> (\<forall>\<sigma>. \<forall>h \<in> H. served \<sigma> h s C)"

lemma calls_okD:
  assumes "calls_ok H s C"
  shows "finite (dom C)" "h \<in> H \<Longrightarrow> waits (kern s) t (wlist \<sigma> h) \<Longrightarrow> \<exists>c. C t = Some c \<and> yielding \<sigma> h c"
    "C t = Some c \<Longrightarrow> call_ok H (queues s) c"
    "C t = Some c \<Longrightarrow> awake (kern s) t \<or> (\<exists>\<sigma> h. h \<in> H \<and> waits (kern s) t (wlist \<sigma> h))"
  using assms unfolding calls_ok_def by blast+

lemma finite_heads: "finite (dom C) \<Longrightarrow> finite (heads \<sigma> k C h)"
  by (rule finite_subset [of _ "dom C"]) (auto simp: heads_def)

text \<open>
  Steps that put no task to sleep. The units of a side may grow by the number of its waiting tasks that wake,
  and have to shrink with each task that leaves the loop head.
\<close>

definition leavers :: "side \<Rightarrow> qhandle \<Rightarrow> qsys \<Rightarrow> (task \<rightharpoonup> call) \<Rightarrow> (task \<rightharpoonup> call) \<Rightarrow> task set" where
  "leavers \<sigma> h s C C' = {t \<in> heads \<sigma> (kern s) C h. \<not> (\<exists>c. C' t = Some c \<and> at_head \<sigma> h c)}"

definition covered :: "side \<Rightarrow> qhandle \<Rightarrow> nat set \<Rightarrow> qsys \<Rightarrow> (task \<rightharpoonup> call) \<Rightarrow> qsys \<Rightarrow> (task \<rightharpoonup> call) \<Rightarrow> bool" where
  "covered \<sigma> h W s C s' C' \<longleftrightarrow> units \<sigma> (queues s' h) = 0 \<or> \<not> (\<exists>t. waits (kern s') t (wlist \<sigma> h)) \<or>
     units \<sigma> (queues s' h) + card (leavers \<sigma> h s C C') \<le>
       units \<sigma> (queues s h) + card {t \<in> W. waits (kern s) t (wlist \<sigma> h)}"

lemma served_step:
  assumes inv: "calls_ok H s C" "served \<sigma> h s C" and h: "h \<in> H" and W: "wakes W (kern s) (kern s')"
    and C': "finite (dom C')" "\<And>t. \<not> awake (kern s) t \<Longrightarrow> C' t = C t" and cov: "covered \<sigma> h W s C s' C'"
  shows "served \<sigma> h s' C'"
  unfolding served_def
proof
  let ?A = "heads \<sigma> (kern s) C h" and ?A' = "heads \<sigma> (kern s') C' h" and ?X = "leavers \<sigma> h s C C'"
    and ?U = "{t \<in> W. waits (kern s) t (wlist \<sigma> h)}"
  assume w: "\<exists>t. waits (kern s') t (wlist \<sigma> h)"
  then have le: "units \<sigma> (queues s h) \<le> card ?A" using inv(2) wakesD(3) [OF W] by (auto simp: served_def)
  have "?U \<subseteq> dom C" using calls_okD(2) [OF inv(1) h] by blast
  then have fin: "finite ?A" "finite ?A'" "finite ?U" "?X \<subseteq> ?A" "finite ?X"
    using finite_heads calls_okD(1) [OF inv(1)] C'(1) finite_subset by (auto simp: leavers_def)
  have "?A - ?X \<subseteq> ?A'" using wakesD(1) [OF W] by (auto simp: heads_def leavers_def)
  moreover have "?U \<subseteq> ?A'"
  proof
    fix t assume "t \<in> ?U"
    then have t: "t \<in> W" "waits (kern s) t (wlist \<sigma> h)" by auto
    then obtain c where "C t = Some c" "yielding \<sigma> h c" using calls_okD(2) [OF inv(1) h] by blast
    moreover have "C' t = C t" using C'(2) blocked_not_awake [OF t(2)] by blast
    ultimately show "t \<in> ?A'" using wakesD(2) [OF W t(1)] yielding_at_head by (auto simp: heads_def)
  qed
  ultimately have "card ((?A - ?X) \<union> ?U) \<le> card ?A'" using fin by (intro card_mono) auto
  moreover have "?A \<inter> ?U = {}" using blocked_not_awake by (auto simp: heads_def)
  then have "card ((?A - ?X) \<union> ?U) = card ?A - card ?X + card ?U"
    using fin by (subst card_Un_disjoint) (auto simp: card_Diff_subset)
  moreover have "card ?X \<le> card ?A" using fin card_mono by blast
  moreover have "units \<sigma> (queues s' h) = 0 \<or> units \<sigma> (queues s' h) + card ?X \<le> units \<sigma> (queues s h) + card ?U"
    using cov w by (simp add: covered_def)
  ultimately show "units \<sigma> (queues s' h) \<le> card ?A'" using le by arith
qed

lemma wake_step:
  assumes inv: "system_inv H s C" and s': "sys_ok H s'" "wakes W (kern s) (kern s')"
    and sz: "\<And>g. same_size (queues s g) (queues s' g)"
    and C': "finite (dom C')" "\<And>t. \<not> awake (kern s) t \<Longrightarrow> C' t = C t" "\<And>t c. C' t = Some c \<Longrightarrow> C t = Some c \<or> call_ok H (queues s) c"
    and cov: "\<And>\<sigma> h. h \<in> H \<Longrightarrow> covered \<sigma> h W s C s' C'"
  shows "system_inv H s' C'"
proof -
  have ok: "calls_ok H s C" using inv by (simp add: system_inv_def)
  note w = wakesD [OF s'(2)]
  have "\<exists>c. C' t = Some c \<and> yielding \<sigma> h c" if "h \<in> H" "waits (kern s') t (wlist \<sigma> h)" for t \<sigma> h
    using that w(3) calls_okD(2) [OF ok that(1)] C'(2) blocked_not_awake by metis
  moreover have "call_ok H (queues s') c" if "C' t = Some c" for t c
    using C'(3) [OF that] calls_okD(3) [OF ok] call_ok_sizes [of "queues s" "queues s'"] sz by blast
  moreover have "awake (kern s') t \<or> (\<exists>\<sigma> h. h \<in> H \<and> waits (kern s') t (wlist \<sigma> h))" if "C' t = Some c" for t c
    using that C'(2) [of t] calls_okD(4) [OF ok, of t c] w(1-3) by metis
  ultimately have "calls_ok H s' C'" using C'(1) unfolding calls_ok_def by blast
  moreover have "served \<sigma> h s' C'" if "h \<in> H" for \<sigma> h
    using served_step [OF ok _ that s'(2) C'(1,2) cov [OF that]] inv that by (auto simp: system_inv_def)
  ultimately show ?thesis using s'(1) by (simp add: system_inv_def)
qed

section \<open>Steps\<close>

lemma leavers_same [simp]: "leavers \<sigma> h s C C = {}"
  by (auto simp: leavers_def heads_def)

lemma leavers_upd: "C t = Some c \<Longrightarrow> leavers \<sigma> h s C (C(t \<mapsto> c')) =
    (if awake (kern s) t \<and> at_head \<sigma> h c \<and> \<not> at_head \<sigma> h c' then {t} else {})"
  by (auto simp: leavers_def heads_def)

lemma leavers_new [simp]: "C t = None \<Longrightarrow> leavers \<sigma> h s C (C(t \<mapsto> c)) = {}"
  by (auto simp: leavers_def heads_def)

lemma covered_woken:
  assumes "wakes W (kern s) (kern s')" "wakes_one (kern s) (wlist \<sigma> h) W"
    "units \<sigma> (queues s' h) + card (leavers \<sigma> h s C C') \<le> units \<sigma> (queues s h) + 1"
  shows "covered \<sigma> h W s C s' C'"
proof (cases "\<exists>t. waits (kern s) t (wlist \<sigma> h)")
  case True
  then obtain t where "waits (kern s) t (wlist \<sigma> h)" "W = {t}" using assms(2) by (auto simp: wakes_one_def)
  then have "{t \<in> W. waits (kern s) t (wlist \<sigma> h)} = {t}" by auto
  then show ?thesis using assms(3) by (simp add: covered_def)
next
  case False
  then show ?thesis using wakesD(3) [OF assms(1)] by (auto simp: covered_def)
qed

lemma covered_idle:
  "units \<sigma> (queues s' h) = 0 \<or> units \<sigma> (queues s' h) + card (leavers \<sigma> h s C C') \<le> units \<sigma> (queues s h) \<Longrightarrow>
   covered \<sigma> h W s C s' C'"
  by (auto simp: covered_def)

lemma running_awake: "running k core t \<Longrightarrow> awake k t"
  by (auto simp: running_def awake_def ready_at_def)

lemma awake_upd: "awake k t \<Longrightarrow> \<not> awake k u \<Longrightarrow> (C(t := x)) u = C u"
  by auto

text \<open>An action on queue \<open>h\<close>, by an interrupt, or by an awake task whose call goes on from \<open>c\<close> to \<open>c'\<close>.\<close>

lemma acts_step:
  assumes inv: "system_inv H s C" and a: "acts H \<tau> h d s W s'"
    and C': "C' = C \<or> (\<exists>t c c'. awake (kern s) t \<and> C t = Some c \<and> C' = C(t \<mapsto> c') \<and> call_ok H (queues s) c' \<and>
      (\<forall>\<sigma> g. at_head \<sigma> g c \<longrightarrow> g = h))"
    and cov: "\<And>\<sigma>. covered \<sigma> h W s C s' C'"
  shows "system_inv H s' C'"
proof (rule wake_step [OF inv])
  show "sys_ok H s'" "wakes W (kern s) (kern s')" using a by (simp_all add: acts_def)
  show "same_size (queues s g) (queues s' g)" for g using a by (cases "g = h") (auto simp: acts_def same_size_def)
  have "finite (dom C)" using inv by (simp add: system_inv_def calls_ok_def)
  then show "finite (dom C')" using C' by auto
  show "\<And>t. \<not> awake (kern s) t \<Longrightarrow> C' t = C t" "\<And>t c. C' t = Some c \<Longrightarrow> C t = Some c \<or> call_ok H (queues s) c"
    using C' by (auto split: if_splits)
  show "covered \<sigma> g W s C s' C'" if "g \<in> H" for \<sigma> g
  proof (cases "g = h")
    case False
    then have "queues s' g = queues s g" using a by (simp add: acts_def)
    moreover have "leavers \<sigma> g s C C' = {}" using C' False by (auto simp: leavers_upd split: if_splits)
    ultimately show ?thesis by (intro covered_idle) simp
  qed (simp add: cov)
qed

text \<open>The task itself goes on, and nothing else happens.\<close>

lemma local_step:
  assumes inv: "system_inv H s C" and t: "awake (kern s) t" "C t = Some c" "call_ok H (queues s) c'"
    and h: "\<And>\<sigma> g. at_head \<sigma> g c \<Longrightarrow> at_head \<sigma> g c' \<or> units \<sigma> (queues s g) = 0"
  shows "system_inv H s (C(t \<mapsto> c'))"
proof (rule wake_step [OF inv, where W = "{}"])
  show "sys_ok H s" "finite (dom (C(t \<mapsto> c')))" using inv by (auto simp: system_inv_def calls_ok_def)
  show "covered \<sigma> g {} s C s (C(t \<mapsto> c'))" if "g \<in> H" for \<sigma> g
    using h [of \<sigma> g] t(2) by (intro covered_idle) (auto simp: leavers_upd)
qed (use t in \<open>auto simp: same_size_def split: if_splits\<close>)

text \<open>The task goes to sleep; there is nothing for its side in the queue.\<close>

lemma place_step:
  assumes inv: "system_inv H s C" and h: "h \<in> H" and r: "running (kern s) core t" and w: "0 < w"
    and c: "C t = Some c" "\<And>\<tau> g. \<not> at_head \<tau> g c" and c': "yielding \<sigma> h c'" "call_ok H (queues s) c'"
    and u: "units \<sigma> (queues s h) = 0"
  shows "\<exists>k'. vTaskPlaceOnEventList core (wlist \<sigma> h) w (kern s) = Inr k' \<and> system_inv H (s\<lparr>kern := k'\<rparr>) (C(t \<mapsto> c'))"
proof -
  have ok: "sys_ok H s" "calls_ok H s C" using inv by (simp_all add: system_inv_def)
  obtain e where e: "wlist \<sigma> h = event_list e" "e \<in> initialised (kern s)" using wlist_event [of \<sigma> h H s] ok(1) h by blast
  obtain k' where k': "vTaskPlaceOnEventList core (event_list e) w (kern s) = Inr k'" "kernel_inv k'" "same_but_time (kern s) k'"
    "pvContainer (lists k') (xEventListItem t) = Some (event_list e)"
    "sleeping k' t \<or> pvContainer (lists k') (xGenericListItem t) = Some xSuspendedTaskList"
    "\<forall>y. y \<noteq> xGenericListItem t \<and> y \<noteq> xEventListItem t \<longrightarrow> pvContainer (lists k') y = pvContainer (lists (kern s)) y"
    using place_inv [OF _ r w e(2)] ok(1) by (auto simp: sys_ok_def)
  note f = same_but_timeD [OF k'(3)]
  have at: "waits k' t l \<longleftrightarrow> l = wlist \<sigma> h" "\<not> awake k' t" for l using k'(4) e(1) by (auto simp: waits_def awake_def)
  have tn: "\<not> waits (kern s) t l" for l using r by (auto simp: running_def waits_def)
  have other: "waits k' v l = waits (kern s) v l" "awake k' v = awake (kern s) v" "sleeping k' v = sleeping (kern s) v"
    "pvContainer (lists k') (xGenericListItem v) = pvContainer (lists (kern s)) (xGenericListItem v)" if "v \<noteq> t" for v l
    using k'(6) that by (auto simp: waits_def awake_def ready_at_def sleeping_def)
  have "blocked_waiters k'" unfolding blocked_waiters_def
  proof (intro allI impI)
    fix v i assume "waits k' v (event_list i)"
    then show "sleeping k' v \<or> pvContainer (lists k') (xGenericListItem v) = Some xSuspendedTaskList"
      using k'(5) other [of v] ok(1) by (cases "v = t") (auto simp: sys_ok_def blocked_waiters_def)
  qed
  then have "sys_ok H (s\<lparr>kern := k'\<rparr>)" using ok(1) k'(2) f(7,8) by (simp add: sys_ok_def)
  moreover have "calls_ok H (s\<lparr>kern := k'\<rparr>) (C(t \<mapsto> c'))"
    unfolding calls_ok_def
  proof (intro conjI allI impI)
    show "finite (dom (C(t \<mapsto> c')))" using calls_okD(1) [OF ok(2)] by simp
    fix v \<tau> g assume "g \<in> H \<and> waits (kern (s\<lparr>kern := k'\<rparr>)) v (wlist \<tau> g)"
    then show "\<exists>c. (C(t \<mapsto> c')) v = Some c \<and> yielding \<tau> g c"
      using at c'(1) other(1) [of v] calls_okD(2) [OF ok(2)] by (cases "v = t") auto
  next
    fix v d assume "(C(t \<mapsto> c')) v = Some d"
    then show "call_ok H (queues (s\<lparr>kern := k'\<rparr>)) d" using c'(2) calls_okD(3) [OF ok(2)] by (auto split: if_splits)
  next
    fix v d assume d: "(C(t \<mapsto> c')) v = Some d"
    show "awake (kern (s\<lparr>kern := k'\<rparr>)) v \<or> (\<exists>\<sigma> h. h \<in> H \<and> waits (kern (s\<lparr>kern := k'\<rparr>)) v (wlist \<sigma> h))"
    proof (cases "v = t")
      case True
      then show ?thesis using at(1) h by auto
    next
      case False
      then show ?thesis using d other(1,2) [OF False] calls_okD(4) [OF ok(2), of v d] by simp
    qed
  qed
  moreover have "served \<tau> g (s\<lparr>kern := k'\<rparr>) (C(t \<mapsto> c'))" if "g \<in> H" for \<tau> g
  proof (cases "\<tau> = \<sigma> \<and> g = h")
    case True
    then show ?thesis using u by (simp add: served_def)
  next
    case False
    have "heads \<tau> k' (C(t \<mapsto> c')) g = heads \<tau> (kern s) C g"
      using at(2) c other(2) by (auto simp: heads_def)
    moreover have "(\<exists>v. waits k' v (wlist \<tau> g)) \<longrightarrow> (\<exists>v. waits (kern s) v (wlist \<tau> g))"
      using at(1) False other(1) wlist_inj by metis
    ultimately show ?thesis using inv that by (auto simp: system_inv_def served_def)
  qed
  ultimately show ?thesis using k'(1) e(1) unfolding system_inv_def by metis
qed

text \<open>The second critical section; \<open>mk\<close> makes the call of the task from where it is.\<close>

lemma check_wait: "xTaskCheckForTimeOut to w k = (False, to', w') \<Longrightarrow> w \<noteq> 0 \<Longrightarrow> w' \<noteq> 0"
  by (auto simp: xTaskCheckForTimeOut_def split: if_splits)

lemma wait_section_ok:
  assumes inv: "system_inv H s C" and h: "h \<in> H" and r: "running (kern s) core t" and w: "w \<noteq> 0"
    and c: "C t = Some (mk (Section2 w to))" "\<And>\<tau> g. \<not> at_head \<tau> g (mk (Section2 w to))"
    and mk: "\<And>p. pc_ok p \<Longrightarrow> call_ok H (queues s) (mk p)" "\<And>w to. yielding \<sigma> h (mk (Yielding w to))"
    and b: "blocked s \<longleftrightarrow> units \<sigma> (queues s h) = 0"
  shows "\<exists>p' s'. wait_section core (wlist \<sigma> h) blocked Inr failed w to s = Inr (p', s') \<and> system_inv H s' (C(t \<mapsto> mk p'))"
proof -
  obtain expired to' w' where x: "xTaskCheckForTimeOut to w (kern s) = (expired, to', w')" by (metis prod_cases3)
  have go: "system_inv H s (C(t \<mapsto> mk p))" if "pc_ok p" for p
    using local_step [OF inv running_awake [OF r] c(1) mk(1) [OF that]] c(2) by blast
  show ?thesis
  proof (cases "expired \<or> \<not> blocked s")
    case True
    then have "wait_section core (wlist \<sigma> h) blocked Inr failed w to s =
        Inr (if expired then Returned failed else Section1 w' (Some to'), s)"
      using x by (auto simp: wait_section_def)
    moreover have "pc_ok (if expired then Returned failed else Section1 w' (Some to'))" by simp
    ultimately show ?thesis using go by blast
  next
    case False
    then have "0 < w'" using check_wait [of to w "kern s" to' w'] x w by (simp add: word_gt_0)
    then obtain k' where "vTaskPlaceOnEventList core (wlist \<sigma> h) w' (kern s) = Inr k'"
      "system_inv H (s\<lparr>kern := k'\<rparr>) (C(t \<mapsto> mk (Yielding w' to')))"
      using place_step [OF inv h r _ c mk(2) mk(1)] b False by fastforce
    then show ?thesis using x False by (auto simp: wait_section_def)
  qed
qed

text \<open>The conditions on the units for an action by a task at the loop head, or by an interrupt (\<open>C' = C\<close>).\<close>

lemma covered_post:
  assumes a: "acts H Receiver h (posted (queues s h)) s W s'"
    and C': "leavers Receiver h s C C' = {}" "card (leavers Sender h s C C') \<le> 1"
  shows "covered \<sigma> h W s C s' C'"
proof (cases \<sigma>)
  case Sender
  have "units Sender (queues s' h) = units Sender (queues s h) - 1" using a by (simp add: acts_def posted_def)
  then show ?thesis unfolding Sender using C'(2) by (intro covered_idle) linarith
next
  case Receiver
  have "units Receiver (queues s' h) \<le> units Receiver (queues s h) + 1" using a unfolding acts_def posted_def by blast
  then show ?thesis unfolding Receiver using a C'(1) by (intro covered_woken) (simp_all add: acts_def)
qed

lemma covered_take:
  assumes a: "acts H Sender h (taken (queues s h)) s W s'" and m: "0 < uxMessagesWaiting (queues s h)"
    and C': "leavers Sender h s C C' = {}" "card (leavers Receiver h s C C') \<le> 1"
  shows "covered \<sigma> h W s C s' C'"
proof (cases \<sigma>)
  case Sender
  have "units Sender (queues s' h) = units Sender (queues s h) + 1" using a unfolding acts_def taken_def by blast
  then show ?thesis unfolding Sender using a C'(1) by (intro covered_woken) (simp_all add: acts_def)
next
  case Receiver
  have "units Receiver (queues s' h) = units Receiver (queues s h) - 1" using a unfolding acts_def taken_def by blast
  then show ?thesis unfolding Receiver using C'(2) by (intro covered_idle) linarith
qed

lemma covered_peek:
  assumes a: "acts H Receiver h (\<lambda>q. q = queues s h) s W s'"
    and C': "leavers Sender h s C C' = {}" "card (leavers Receiver h s C C') \<le> 1"
  shows "covered \<sigma> h W s C s' C'"
proof (cases \<sigma>)
  case Sender
  then show ?thesis using a C'(1) by (intro covered_idle) (simp add: acts_def)
next
  case Receiver
  then show ?thesis using a C'(2) unfolding Receiver by (intro covered_woken) (simp_all add: acts_def)
qed

lemma sender_head: "at_head \<sigma> g (Sending h item pos p) \<longleftrightarrow> \<sigma> = Sender \<and> g = h \<and> at_loop_head p"
  by (cases \<sigma>) auto

lemma receiver_head: "at_head \<sigma> g (Receiving h peek p) \<longleftrightarrow> \<sigma> = Receiver \<and> g = h \<and> at_loop_head p"
  by (cases \<sigma>) auto

lemma send_progress:
  assumes inv: "system_inv H s C" and c: "C t = Some (Sending h item pos p)" and r: "running (kern s) core t"
  shows "\<exists>p' s'. send_step core h item pos p s = Inr (p', s') \<and> system_inv H s' (C(t \<mapsto> Sending h item pos p'))"
proof -
  have ok: "sys_ok H s" "calls_ok H s C" using inv by (simp_all add: system_inv_def)
  have cok: "h \<in> H" "fits item pos (queues s h)" "pc_ok p" using calls_okD(3) [OF ok(2) c] by simp_all
  have q: "uxMessagesWaiting (queues s h) \<le> uxLength (queues s h)"
    using ok(1) cok(1) queue_inv_facts(5) by (auto simp: sys_ok_def plain_queue_def)
  note aw = running_awake [OF r]
  note go = local_step [OF inv aw c]
  show ?thesis
  proof (cases p)
    case (Section1 w to)
    show ?thesis
    proof (cases "uxMessagesWaiting (queues s h) < uxLength (queues s h) \<or> pos = queueOVERWRITE")
      case True
      obtain s1 b s' W where a: "prvCopyDataToQueue h item pos s = Inr (False, s1)" "after_post core h pos False s1 = Inr (b, s')"
        "acts H Receiver h (posted (queues s h)) s W s'"
        using post_ok [OF ok(1) cok(1,2) True, of core False] by blast
      let ?C' = "C(t \<mapsto> Sending h item pos (Returned (True, b)))"
      have "system_inv H s' ?C'"
      proof (rule acts_step [OF inv a(3)])
        show "covered \<sigma> h W s C s' ?C'" for \<sigma>
          using c Section1 by (intro covered_post [OF a(3)]) (simp_all add: leavers_upd)
        have "\<forall>\<sigma> g. at_head \<sigma> g (Sending h item pos p) \<longrightarrow> g = h" using sender_head by blast
        then show "?C' = C \<or> (\<exists>t c c'. awake (kern s) t \<and> C t = Some c \<and> ?C' = C(t \<mapsto> c') \<and> call_ok H (queues s) c' \<and>
            (\<forall>\<sigma> g. at_head \<sigma> g c \<longrightarrow> g = h))"
          using aw c cok(1,2)
          by (intro disjI2 exI [of _ t] exI [of _ "Sending h item pos p"] exI [of _ "Sending h item pos (Returned (True, b))"]) auto
      qed
      then show ?thesis using True a(1,2) Section1 by simp
    next
      case False
      then have "units Sender (queues s h) = 0" by (simp add: not_less word_le_nat_alt)
      then have "system_inv H s (C(t \<mapsto> Sending h item pos p'))" if "pc_ok p'" for p'
        using go [of "Sending h item pos p'"] cok(1,2) that sender_head by (metis call_ok.simps(1))
      then show ?thesis using False Section1 by (cases "w = 0") auto
    qed
  next
    case (Section2 w to)
    have full: "prvIsQueueFull (queues s h) \<longleftrightarrow> units Sender (queues s h) = 0"
      using q by (auto simp: prvIsQueueFull_def word_le_nat_alt word_unat_eq_iff)
    have "\<not> at_head \<tau> g (Sending h item pos (Section2 w to))" for \<tau> g by (cases \<tau>) auto
    then show ?thesis
      using wait_section_ok [OF inv cok(1) r, of w "Sending h item pos" to Sender "\<lambda>s. prvIsQueueFull (queues s h)" "(False, False)"]
        c cok full Section2 by simp
  next
    case (Yielding w to)
    have "at_head \<sigma> g (Sending h item pos (Section1 w (Some to)))" if "at_head \<sigma> g (Sending h item pos p)" for \<sigma> g
      using that by (cases \<sigma>) auto
    then have "system_inv H s (C(t \<mapsto> Sending h item pos (Section1 w (Some to))))"
      using go [of "Sending h item pos (Section1 w (Some to))"] cok(1,2) by simp
    then show ?thesis using Yielding by simp
  next
    case (Returned x)
    then show ?thesis using inv c by (auto simp: fun_upd_idem)
  qed
qed

lemma receive_progress:
  assumes inv: "system_inv H s C" and c: "C t = Some (Receiving h peek p)" and r: "running (kern s) core t"
  shows "\<exists>p' s'. receive_step core h peek p s = Inr (p', s') \<and> system_inv H s' (C(t \<mapsto> Receiving h peek p'))"
proof -
  have ok: "sys_ok H s" "calls_ok H s C" using inv by (simp_all add: system_inv_def)
  have cok: "h \<in> H" "pc_ok p" using calls_okD(3) [OF ok(2) c] by simp_all
  note aw = running_awake [OF r]
  note go = local_step [OF inv aw c]
  show ?thesis
  proof (cases p)
    case (Section1 w to)
    show ?thesis
    proof (cases "0 < uxMessagesWaiting (queues s h)")
      case True
      obtain x s' W where a: "take_item core h peek s = Inr (x, s')"
        "if peek then acts H Receiver h (\<lambda>q'. q' = queues s h) s W s' else acts H Sender h (taken (queues s h)) s W s'"
        using take_item_ok [OF ok(1) cok(1) True] by blast
      let ?C' = "C(t \<mapsto> Receiving h peek (Returned x))"
      have l: "leavers Sender h s C ?C' = {}" "card (leavers Receiver h s C ?C') \<le> 1"
        using c by (simp_all add: leavers_upd)
      have cs: "?C' = C \<or> (\<exists>t c c'. awake (kern s) t \<and> C t = Some c \<and> ?C' = C(t \<mapsto> c') \<and> call_ok H (queues s) c' \<and>
            (\<forall>\<sigma> g. at_head \<sigma> g c \<longrightarrow> g = h))"
        using aw c cok(1)
        by (intro disjI2 exI [of _ t] exI [of _ "Receiving h peek p"] exI [of _ "Receiving h peek (Returned x)"])
          (auto simp: receiver_head)
      have "system_inv H s' ?C'"
      proof (cases peek)
        case p: True
        then have "acts H Receiver h (\<lambda>q'. q' = queues s h) s W s'" using a(2) by simp
        from acts_step [OF inv this cs] covered_peek [OF this l] show ?thesis by blast
      next
        case p: False
        then have "acts H Sender h (taken (queues s h)) s W s'" using a(2) by simp
        from acts_step [OF inv this cs] covered_take [OF this True l] show ?thesis by blast
      qed
      then show ?thesis using True a(1) Section1 by simp
    next
      case False
      then have "units Receiver (queues s h) = 0" by (simp add: word_gt_0)
      then have "system_inv H s (C(t \<mapsto> Receiving h peek p'))" if "pc_ok p'" for p'
        using go [of "Receiving h peek p'"] cok(1) that receiver_head by (metis call_ok.simps(2))
      then show ?thesis using False Section1 by (cases "w = 0") auto
    qed
  next
    case (Section2 w to)
    have empty: "prvIsQueueEmpty (queues s h) \<longleftrightarrow> units Receiver (queues s h) = 0" by (simp add: prvIsQueueEmpty_def unat_eq_0)
    have "\<not> at_head \<tau> g (Receiving h peek (Section2 w to))" for \<tau> g by (cases \<tau>) auto
    moreover have "\<not> is_mutex (queues s h)" using ok(1) cok(1) by (simp add: sys_ok_def plain_queue_def)
    ultimately show ?thesis
      using wait_section_ok [OF inv cok(1) r, of w "Receiving h peek" to Receiver "\<lambda>s. prvIsQueueEmpty (queues s h)" "(None, False)"]
        c cok empty Section2 by simp
  next
    case (Yielding w to)
    then have "system_inv H s (C(t \<mapsto> Receiving h peek (Section1 w (Some to))))"
      using go [of "Receiving h peek (Section1 w (Some to))"] cok(1) by (auto simp: receiver_head)
    then show ?thesis using Yielding by simp
  next
    case (Returned x)
    then show ?thesis using inv c by (auto simp: fun_upd_idem)
  qed
qed

text \<open>The calls from interrupts.\<close>

lemma isr_send_progress:
  assumes inv: "system_inv H s C" and h: "h \<in> H" "fits item pos (queues s h)"
  shows "\<exists>x s'. xQueueGenericSendFromISR core h (Some item) pos s = Inr (x, s') \<and> system_inv H s' C"
proof (cases "uxMessagesWaiting (queues s h) < uxLength (queues s h) \<or> pos = queueOVERWRITE")
  case True
  have ok: "sys_ok H s" using inv by (simp add: system_inv_def)
  obtain s1 b s' W where a: "prvCopyDataToQueue h item pos s = Inr (False, s1)" "after_post core h pos False s1 = Inr (b, s')"
    "acts H Receiver h (posted (queues s h)) s W s'"
    using post_ok [OF ok h True, of core False] by blast
  have "system_inv H s' C" using acts_step [OF inv a(3), of C] covered_post [OF a(3), of C C] by simp
  then show ?thesis using True a(1,2) h(2) by (auto simp: xQueueGenericSendFromISR_def fits_def)
next
  case False
  then show ?thesis using inv by (auto simp: xQueueGenericSendFromISR_def)
qed

lemma isr_give_progress:
  assumes inv: "system_inv H s C" and h: "h \<in> H" "uxItemSize (queues s h) = 0"
  shows "\<exists>x s'. xQueueGiveFromISR core h s = Inr (x, s') \<and> system_inv H s' C"
proof (cases "uxMessagesWaiting (queues s h) < uxLength (queues s h)")
  case True
  let ?q = "queues s h" and ?q' = "(queues s h)\<lparr>uxMessagesWaiting := uxMessagesWaiting (queues s h) + 1\<rparr>"
  have ok: "sys_ok H s" using inv by (simp add: system_inv_def)
  have "plain_queue ?q" using ok h(1) by (simp add: sys_ok_def)
  then have q: "plain_queue ?q'" "same_size ?q ?q'" "posted ?q ?q'"
    using h(2) True by (auto simp: plain_queue_def queue_inv_no_size inc_le is_mutex_def same_size_def posted_def unat_inc)
  obtain b s' W where a: "after_post core h queueSEND_TO_BACK False (set_queue h ?q' s) = Inr (b, s')"
    "acts H Receiver h (posted ?q) s W s'"
    using after_post_ok [OF ok h(1) q] by blast
  have "system_inv H s' C" using acts_step [OF inv a(2), of C] covered_post [OF a(2), of C C] by simp
  then show ?thesis using True a(1) h(2) by (auto simp: xQueueGiveFromISR_def Let_def)
next
  case False
  then show ?thesis using inv h(2) by (auto simp: xQueueGiveFromISR_def Let_def)
qed

lemma receive_from_isr_same:
  assumes "\<not> is_mutex (queues s h)" "0 < uxMessagesWaiting (queues s h)"
  shows "xQueueReceiveFromISR core h True s = take_item core h False s"
proof (cases "prvCopyDataFromQueue (queues s h)")
  case None
  then show ?thesis using assms by (simp add: xQueueReceiveFromISR_def take_item_def queue_receive_def Let_def)
next
  case (Some qi)
  obtain q1 item where qi: "qi = (q1, item)" by force
  have "uxMessagesWaiting q1 = uxMessagesWaiting (queues s h)" "\<not> is_mutex q1"
    using Some assms(1) by (auto simp: qi prvCopyDataFromQueue_def Let_def is_mutex_def split: if_splits)
  moreover have "is_mutex (q1\<lparr>uxMessagesWaiting := n\<rparr>) = is_mutex q1" for n by (simp add: is_mutex_def)
  ultimately show ?thesis using assms Some
    by (simp add: xQueueReceiveFromISR_def take_item_def queue_receive_def Let_def qi)
qed

lemma isr_receive_progress:
  assumes inv: "system_inv H s C" and h: "h \<in> H"
  shows "\<exists>x s'. xQueueReceiveFromISR core h True s = Inr (x, s') \<and> system_inv H s' C"
proof (cases "0 < uxMessagesWaiting (queues s h)")
  case True
  have ok: "sys_ok H s" using inv by (simp add: system_inv_def)
  have "\<not> is_mutex (queues s h)" using ok h by (simp add: sys_ok_def plain_queue_def)
  note eq = receive_from_isr_same [OF this True, of core]
  obtain x s' W where a: "take_item core h False s = Inr (x, s')" "acts H Sender h (taken (queues s h)) s W s'"
    using take_item_ok [OF ok h True, of core False] by auto
  have "system_inv H s' C" using acts_step [OF inv a(2), of C] covered_take [OF a(2) True, of C C] by simp
  then show ?thesis using a(1) unfolding eq by blast
next
  case False
  then show ?thesis using inv by (auto simp: xQueueReceiveFromISR_def Let_def)
qed

lemma kernel_progress:
  assumes inv: "system_inv H s C" and k: "kernel_inv k" "wakes W (kern s) k" "same_setting (kern s) k"
  shows "system_inv H (s\<lparr>kern := k\<rparr>) C"
proof (rule wake_step [OF inv, where W = W])
  show "sys_ok H (s\<lparr>kern := k\<rparr>)" using sys_ok_wakes [OF _ k(1-3)] inv by (simp add: system_inv_def)
  show "finite (dom C)" using inv by (simp add: system_inv_def calls_ok_def)
  show "covered \<sigma> h W s C (s\<lparr>kern := k\<rparr>) C" if "h \<in> H" for \<sigma> h by (intro covered_idle) simp
qed (use k in \<open>auto simp: same_size_def\<close>)

text \<open>Peeking from an interrupt leaves the queue as it is.\<close>

lemma isr_peek_same:
  assumes "sys_ok H s" "h \<in> H" "uxItemSize (queues s h) \<noteq> 0"
  shows "\<exists>x. xQueuePeekFromISR h True s = Inr (x, s)"
proof (cases "0 < uxMessagesWaiting (queues s h)")
  case True
  let ?q = "queues s h"
  have inv: "queue_inv ?q" using assms(1,2) by (simp add: sys_ok_def plain_queue_def)
  obtain q1 item where q1: "prvCopyDataFromQueue ?q = Some (q1, item)"
    using queue_receive_head [OF inv True, of None] True by (auto simp: queue_receive_def split: option.splits)
  then have "q1\<lparr>pcReadFrom := pcReadFrom ?q\<rparr> = ?q"
    by (auto simp: prvCopyDataFromQueue_def Let_def split: if_splits)
  then show ?thesis using True q1 assms(3) by (simp add: xQueuePeekFromISR_def set_queue_def)
next
  case False
  then show ?thesis using assms(3) by (simp add: xQueuePeekFromISR_def Let_def)
qed

section \<open>The interleavings\<close>

fun entered :: "call \<Rightarrow> bool" where
  "entered (Sending _ _ _ (Section1 _ None)) = True"
| "entered (Receiving _ _ (Section1 _ None)) = True"
| "entered _ = False"

fun returned :: "call \<Rightarrow> bool" where
  "returned (Sending _ _ _ (Returned _)) = True"
| "returned (Receiving _ _ (Returned _)) = True"
| "returned _ = False"

text \<open>
  Steps of the system: a task that runs on some core enters a call, takes a step of it or returns from it; the
  tick; a context switch on a core that has a task to run; and the calls from interrupts.
\<close>

inductive qstep :: "qhandle set \<Rightarrow> qsys \<times> (task \<rightharpoonup> call) \<Rightarrow> qsys \<times> (task \<rightharpoonup> call) \<Rightarrow> bool" for H where
  enter: "running (kern s) core t \<Longrightarrow> C t = None \<Longrightarrow> entered c \<Longrightarrow> call_ok H (queues s) c \<Longrightarrow> qstep H (s, C) (s, C(t \<mapsto> c))"
| send: "running (kern s) core t \<Longrightarrow> C t = Some (Sending h item pos p) \<Longrightarrow> send_step core h item pos p s = Inr (p', s') \<Longrightarrow>
    qstep H (s, C) (s', C(t \<mapsto> Sending h item pos p'))"
| receive: "running (kern s) core t \<Longrightarrow> C t = Some (Receiving h peek p) \<Longrightarrow> receive_step core h peek p s = Inr (p', s') \<Longrightarrow>
    qstep H (s, C) (s', C(t \<mapsto> Receiving h peek p'))"
| return: "running (kern s) core t \<Longrightarrow> C t = Some c \<Longrightarrow> returned c \<Longrightarrow> qstep H (s, C) (s, C(t := None))"
| tick: "xTaskIncrementTick 0 (kern s) = Inr (sw, k) \<Longrightarrow> qstep H (s, C) (s\<lparr>kern := k\<rparr>, C)"
| switch: "ready_at (kern s) p t \<Longrightarrow> can_run core (kern s) t \<Longrightarrow> vTaskSwitchContext core (kern s) = Inr k \<Longrightarrow>
    qstep H (s, C) (s\<lparr>kern := k\<rparr>, C)"
| isr_send: "h \<in> H \<Longrightarrow> fits item pos (queues s h) \<Longrightarrow> xQueueGenericSendFromISR core h (Some item) pos s = Inr (x, s') \<Longrightarrow>
    qstep H (s, C) (s', C)"
| isr_give: "h \<in> H \<Longrightarrow> uxItemSize (queues s h) = 0 \<Longrightarrow> xQueueGiveFromISR core h s = Inr (x, s') \<Longrightarrow> qstep H (s, C) (s', C)"
| isr_receive: "h \<in> H \<Longrightarrow> xQueueReceiveFromISR core h True s = Inr (y, s') \<Longrightarrow> qstep H (s, C) (s', C)"
| isr_peek: "h \<in> H \<Longrightarrow> uxItemSize (queues s h) \<noteq> 0 \<Longrightarrow> xQueuePeekFromISR h True s = Inr (z, s') \<Longrightarrow> qstep H (s, C) (s', C)"

lemma enter_progress:
  assumes inv: "system_inv H s C" and t: "running (kern s) core t" "C t = None" "call_ok H (queues s) c"
  shows "system_inv H s (C(t \<mapsto> c))"
proof (rule wake_step [OF inv, where W = "{}"])
  show "sys_ok H s" "finite (dom (C(t \<mapsto> c)))" using inv by (simp_all add: system_inv_def calls_ok_def)
  show "covered \<sigma> h {} s C s (C(t \<mapsto> c))" if "h \<in> H" for \<sigma> h using t(2) by (intro covered_idle) simp
qed (use t running_awake [OF t(1)] in \<open>auto simp: same_size_def split: if_splits\<close>)

lemma return_progress:
  assumes inv: "system_inv H s C" and t: "running (kern s) core t" "C t = Some c" "returned c"
  shows "system_inv H s (C(t := None))"
proof (rule wake_step [OF inv, where W = "{}"])
  show "sys_ok H s" "finite (dom (C(t := None)))" using inv by (simp_all add: system_inv_def calls_ok_def)
  have "\<not> at_head \<sigma> h c" for \<sigma> h using t(3) by (cases c rule: returned.cases; cases \<sigma>) auto
  then have "leavers \<sigma> h s C (C(t := None)) = {}" for \<sigma> h using t(2) by (auto simp: leavers_def heads_def)
  then show "covered \<sigma> h {} s C s (C(t := None))" if "h \<in> H" for \<sigma> h by (intro covered_idle) simp
qed (use t running_awake [OF t(1)] in \<open>auto simp: same_size_def split: if_splits\<close>)

lemma qstep_inv:
  assumes "qstep H (s, C) (s', C')" "system_inv H s C"
  shows "system_inv H s' C'"
  using assms
proof (induction rule: qstep.induct [split_format (complete)])
  case (enter s core t C c)
  then show ?case using enter_progress by blast
next
  case (send s core t C h item pos p p' s')
  then show ?case using send_progress [OF send(4,2,1)] by (metis sum.inject(2) prod.inject)
next
  case (receive s core t C h peek p p' s')
  then show ?case using receive_progress [OF receive(4,2,1)] by (metis sum.inject(2) prod.inject)
next
  case (return s core t C c)
  then show ?case using return_progress by blast
next
  case (tick s sw k C)
  then have "kernel_inv (kern s)" "uxSchedulerSuspended (kern s) 0 = 0" by (auto simp: system_inv_def sys_ok_def)
  from tick_inv [OF this] tick show ?case using kernel_progress [of H s C k] by auto
next
  case (switch s p t core k C)
  then have "kernel_inv (kern s)" "uxSchedulerSuspended (kern s) core = 0" by (auto simp: system_inv_def sys_ok_def)
  from switch_inv [OF this switch(1,2)] switch show ?case using kernel_progress [of H s C k "{}"] by auto
next
  case isr_send
  from isr_send_progress [OF isr_send(4,1,2)] isr_send(3) show ?case by (metis sum.inject(2) prod.inject)
next
  case isr_give
  from isr_give_progress [OF isr_give(4,1,2)] isr_give(3) show ?case by (metis sum.inject(2) prod.inject)
next
  case isr_receive
  from isr_receive_progress [OF isr_receive(3,1)] isr_receive(2) show ?case by (metis sum.inject(2) prod.inject)
next
  case (isr_peek h s z s' C)
  then have "sys_ok H s" by (simp add: system_inv_def)
  from isr_peek_same [OF this isr_peek(1,2)] isr_peek show ?case by auto
qed

definition reaches :: "qhandle set \<Rightarrow> qsys \<times> (task \<rightharpoonup> call) \<Rightarrow> qsys \<times> (task \<rightharpoonup> call) \<Rightarrow> bool" where
  "reaches H = (qstep H)\<^sup>*\<^sup>*"

lemma reaches_inv:
  assumes "reaches H (s, C) (s', C')" "system_inv H s C"
  shows "system_inv H s' C'"
  using assms(1) unfolding reaches_def
  by (induction rule: rtranclp_induct2) (use assms(2) qstep_inv in blast)+

text \<open>The queues at rest: no task is in a call, and none waits on their lists.\<close>

definition at_rest :: "qhandle set \<Rightarrow> qsys \<Rightarrow> bool" where
  "at_rest H s \<longleftrightarrow> sys_ok H s \<and> (\<forall>h \<in> H. \<forall>\<sigma> t. \<not> waits (kern s) t (wlist \<sigma> h))"

lemma at_rest_inv: "at_rest H s \<Longrightarrow> system_inv H s Map.empty"
  by (auto simp: at_rest_def system_inv_def calls_ok_def served_def)


section \<open>A concrete system\<close>

lemma new_event_list_inv:
  assumes inv: "kernel_inv k" and e: "e \<notin> initialised k"
  shows "kernel_inv (new_event_list e k)"
proof -
  obtain L where L: "kernel_ok k L" "timed k L" "priorities_ok k" using inv by (auto simp: kernel_inv_def)
  have "dom L = generic_lists \<union> {xPendingReadyList 0, xPendingReadyList 1} \<union> event_list ` initialised k"
    using L(1) by (simp add: kernel_ok_def)
  then have "event_list e \<notin> dom L" using e by (auto simp: generic_lists_def)
  then have "kernel_ok (new_event_list e k) (L(event_list e \<mapsto> []))" "timed (new_event_list e k) (L(event_list e \<mapsto> []))"
    using initialise_event_list [OF L(1,2), of e] by (auto simp: domIff)
  moreover have "priorities_ok (new_event_list e k)"
    using L(3) by (simp add: priorities_ok_def ready_at_def new_event_list_def vListInitialise_def)
  ultimately show ?thesis by (auto simp: kernel_inv_def)
qed

text \<open>Two tasks, each running on a core, and queue 1 for two items of one byte.\<close>

definition two_cores :: qsys where
  "two_cores = \<lparr>kern = new_event_list 3 (new_event_list 2 (two_tasks\<lparr>pxCurrentTCB := (\<lambda>_. 0)(0 := 1)\<rparr>)),
     queues = (\<lambda>_. prvInitialiseNewQueue 2 1 (raw_queue [0, 0]))\<rparr>"

lemma two_cores_ok:
  "at_rest {1} two_cores" "running (kern two_cores) 0 1" "running (kern two_cores) 1 0"
  "pvContainer (lists (kern two_cores)) (xEventListItem t) = None"
  "uxMessagesWaiting (queues two_cores 1) = 0" "uxLength (queues two_cores 1) = 2" "uxItemSize (queues two_cores 1) = 1"
proof -
  let ?k = "two_tasks\<lparr>pxCurrentTCB := (\<lambda>_. 0)(0 := 1)\<rparr>"
  have "kernel_inv ?k" using two_tasks_ok(1)
    by (simp add: kernel_inv_def kernel_ok_def priorities_ok_def ready_at_def timed_def fits_on_def)
  then have inv: "kernel_inv (kern two_cores)"
    using two_tasks_ok(7) by (simp add: two_cores_def) (intro new_event_list_inv; simp add: new_event_list_def)
  have c: "pvContainer (lists (kern two_cores)) = pvContainer (lists two_tasks)"
    by (simp add: two_cores_def new_event_list_def vListInitialise_def)
  show n: "pvContainer (lists (kern two_cores)) (xEventListItem t) = None" for t unfolding c by (rule two_tasks_ok(11))
  show "running (kern two_cores) 0 1" "running (kern two_cores) 1 0"
    using two_tasks_ok(2,3,5,10,11) unfolding running_def c ready_at_def
    by (simp_all add: two_cores_def new_event_list_def)
  show q: "uxMessagesWaiting (queues two_cores 1) = 0" "uxLength (queues two_cores 1) = 2" "uxItemSize (queues two_cores 1) = 1"
    by (simp_all add: two_cores_def prvInitialiseNewQueue_def reset_new_def reset_ring_def)
  have "plain_queue (queues two_cores 1)"
    using prvInitialiseNewQueue_inv(1) [of 2 1 "raw_queue [0, 0]"]
    by (simp add: plain_queue_def is_mutex_def two_cores_def) (simp add: raw_queue_def prvInitialiseNewQueue_def reset_new_def reset_ring_def)
  moreover have "initialised (kern two_cores) = {2, 3, 7}" "uxSchedulerSuspended (kern two_cores) = (\<lambda>_. 0)"
    using two_tasks_ok(7)
    by (auto simp: two_cores_def new_event_list_def two_tasks_def prvAddTaskToReadyList_def prvInitialiseTaskLists_def static_kernel_def)
  ultimately show "at_rest {1} two_cores" using inv n
    by (simp add: at_rest_def sys_ok_def blocked_waiters_def waits_def)
qed

lemma receiver_sleeps:
  assumes "running (kern two_cores) core t"
  shows "\<exists>s w to. reaches {1} (two_cores, Map.empty) (s, [t \<mapsto> Receiving 1 False (Yielding w to)]) \<and> waits (kern s) t (to_receive 1)"
proof -
  let ?s = two_cores and ?to = "vTaskSetTimeOutState (kern two_cores)"
  let ?C = "\<lambda>p. [t \<mapsto> Receiving 1 False p]"
  have k: "kernel_inv (kern ?s)" "3 \<in> initialised (kern ?s)" "\<not> is_mutex (queues ?s 1)"
    using two_cores_ok(1) by (simp_all add: at_rest_def sys_ok_def plain_queue_def)
  obtain k' where k': "vTaskPlaceOnEventList core (event_list 3) portMAX_DELAY (kern ?s) = Inr k'"
    "pvContainer (lists k') (xEventListItem t) = Some (event_list 3)"
    using place_inv [OF k(1) assms _ k(2), of portMAX_DELAY] by (auto simp: portMAX_DELAY_def)
  have step: "qstep {1} (a, ?C p) (b, ?C p')" if "receive_step core 1 False p a = Inr (p', b)" "running (kern a) core t" for a b p p'
    using qstep.receive [OF that(2), of "?C p" 1 False p, OF _ that(1)] by simp
  have l: "to_receive 1 = event_list 3" by (simp add: to_receive_def)
  have "qstep {1} (?s, Map.empty) (?s, ?C (Section1 portMAX_DELAY None))"
    using assms by (intro qstep.enter) simp_all
  moreover have "receive_step core 1 False (Section1 portMAX_DELAY None) ?s = Inr (Section2 portMAX_DELAY ?to, ?s)"
    using two_cores_ok(5) by (simp add: entry_time_def portMAX_DELAY_def)
  then have "qstep {1} (?s, ?C (Section1 portMAX_DELAY None)) (?s, ?C (Section2 portMAX_DELAY ?to))"
    by (rule step) fact
  moreover have "receive_step core 1 False (Section2 portMAX_DELAY ?to) ?s = Inr (Yielding portMAX_DELAY ?to, ?s\<lparr>kern := k'\<rparr>)"
    using k'(1) two_cores_ok(5) k(3) l by (simp add: wait_section_def xTaskCheckForTimeOut_def prvIsQueueEmpty_def)
  then have "qstep {1} (?s, ?C (Section2 portMAX_DELAY ?to)) (?s\<lparr>kern := k'\<rparr>, ?C (Yielding portMAX_DELAY ?to))"
    by (rule step) fact
  ultimately have "reaches {1} (?s, Map.empty) (?s\<lparr>kern := k'\<rparr>, ?C (Yielding portMAX_DELAY ?to))"
    unfolding reaches_def by (meson r_into_rtranclp rtranclp_trans)
  moreover have "waits k' t (to_receive 1)" using k'(2) l by (simp add: waits_def)
  ultimately show ?thesis by fastforce
qed


section \<open>Interrupts and tasks\<close>

lemma run_bind_case: "run_bind m f = (case m of Inl e \<Rightarrow> Inl e | Inr x \<Rightarrow> f x)"
  by (cases m) simp_all

lemma copy_no_inherit:
  "\<not> is_mutex (queues s h) \<Longrightarrow> prvCopyDataToQueue h item pos s =
     (case copy_to_queue (queues s h) item pos of None \<Rightarrow> Inl Out_Of_Bounds | Some q' \<Rightarrow> Inr (False, set_queue h q' s))"
  by (simp add: prvCopyDataToQueue_def Let_def split: option.splits)

lemma send_once:
  "xQueueGenericSend core h pvItemToQueue 0 pos [Inr] s =
     (if pvItemToQueue = None \<and> uxItemSize (queues s h) \<noteq> 0 \<or> pos = queueOVERWRITE \<and> uxLength (queues s h) \<noteq> 1 then Inl Assert_Failed
      else if uxMessagesWaiting (queues s h) < uxLength (queues s h) \<or> pos = queueOVERWRITE then
        run_bind (prvCopyDataToQueue h (case pvItemToQueue of None \<Rightarrow> [] | Some b \<Rightarrow> b) pos s) (\<lambda>(y, s1).
        run_bind (after_post core h pos y s1) (\<lambda>(y, s2). Inr ((True, y), s2)))
      else Inr ((False, False), s))"
  by (auto simp: xQueueGenericSend_def run_bind_case split: sum.splits)

text \<open>
  C36. The calls from interrupts do what the calls of tasks do with no time to wait, except for mutexes: same
  result, same queue, same tasks woken, and \<^verbatim>\<open>*pxHigherPriorityTaskWoken\<close> is set exactly if the task's call would
  yield. \<^verbatim>\<open>xQueueGiveFromISR\<close>, which writes out the copy of a semaphore, is a send without an item.
\<close>

theorem interrupt_calls_match_task_calls:
  assumes "\<not> is_mutex (queues s h)"
  shows "xQueueGenericSendFromISR core h pvItemToQueue pos s = xQueueGenericSend core h pvItemToQueue 0 pos [Inr] s \<and>
    xQueueReceiveFromISR core h has_buffer s = xQueueGenericReceive core h has_buffer 0 False [Inr] s \<and>
    (uxItemSize (queues s h) = 0 \<longrightarrow> xQueueGiveFromISR core h s = xQueueGenericSend core h None 0 queueSEND_TO_BACK [Inr] s)"
proof (intro conjI impI)
  show "xQueueGenericSendFromISR core h pvItemToQueue pos s = xQueueGenericSend core h pvItemToQueue 0 pos [Inr] s"
    using assms by (auto simp: xQueueGenericSendFromISR_def send_once copy_no_inherit run_bind_case split: option.splits)
  show "xQueueReceiveFromISR core h has_buffer s = xQueueGenericReceive core h has_buffer 0 False [Inr] s"
  proof (cases "0 < uxMessagesWaiting (queues s h)")
    case True
    have "xQueueReceiveFromISR core h has_buffer s =
        (if \<not> has_buffer \<and> uxItemSize (queues s h) \<noteq> 0 then Inl Assert_Failed else xQueueReceiveFromISR core h True s)"
      by (simp add: xQueueReceiveFromISR_def Let_def)
    then show ?thesis using receive_from_isr_same [OF assms True, of core] True
      by (auto simp: xQueueGenericReceive_def run_bind_case split: sum.splits)
  next
    case False
    then show ?thesis by (simp add: xQueueReceiveFromISR_def xQueueGenericReceive_def Let_def)
  qed
  assume "uxItemSize (queues s h) = 0"
  then show "xQueueGiveFromISR core h s = xQueueGenericSend core h None 0 queueSEND_TO_BACK [Inr] s"
    using assms by (auto simp: xQueueGiveFromISR_def send_once copy_no_inherit copy_to_queue_def Let_def)
qed

theorem interrupt_calls_match_task_calls_witness:
  "xQueueReceiveFromISR 0 1 True two_cores = Inr ((None, False), two_cores) \<and>
   xQueueGenericReceive 0 1 True 0 False [Inr] two_cores = Inr ((None, False), two_cores)"
proof -
  have "\<not> is_mutex (queues two_cores 1)" using two_cores_ok(1) by (simp add: at_rest_def sys_ok_def plain_queue_def)
  from interrupt_calls_match_task_calls [OF this, of 0 None queueSEND_TO_BACK True]
  have "xQueueReceiveFromISR 0 1 True two_cores = xQueueGenericReceive 0 1 True 0 False [Inr] two_cores" by blast
  moreover have "xQueueReceiveFromISR 0 1 True two_cores = Inr ((None, False), two_cores)"
    using two_cores_ok(5) by (simp add: xQueueReceiveFromISR_def)
  ultimately show ?thesis by simp
qed

section \<open>Resetting a queue in use\<close>

lemma wake_first_set_queue:
  assumes "wake_first core l s = Inr (w, s\<lparr>kern := k\<rparr>)"
  shows "wake_first core l (set_queue h q s) = Inr (w, (set_queue h q s)\<lparr>kern := k\<rparr>)"
proof -
  have "k' = k" if "s\<lparr>kern := k'\<rparr> = s\<lparr>kern := k\<rparr>" for k' using arg_cong [OF that, of kern] by simp
  moreover have "kern (s\<lparr>kern := k\<rparr>) = k" by simp
  ultimately show ?thesis using assms by (auto simp: wake_first_def set_queue_def run_bind_Inr_iff split: if_splits)
qed

text \<open>
  A reset of a queue frees all its slots but wakes one waiting sender only, although the woken sender will
  wake no other: if tasks \<open>t\<close> and \<open>u\<close> wait to send, one of them stays asleep with every slot free.
\<close>

theorem reset_leaves_senders_asleep:
  assumes "sys_ok H s" "h \<in> H" "waits (kern s) t (to_send h)" "waits (kern s) u (to_send h)" "t \<noteq> u"
  shows "\<exists>b s'. xQueueGenericReset core h False s = Inr (b, s') \<and> uxMessagesWaiting (queues s' h) = 0 \<and>
    uxLength (queues s' h) = uxLength (queues s h) \<and> (\<exists>v \<in> {t, u}. waits (kern s') v (to_send h) \<and> \<not> awake (kern s') v)"
proof -
  let ?q = "reset_ring (queues s h)" and ?s = "set_queue h (reset_ring (queues s h)) s"
  obtain w k' W where w: "wake_first core (wlist Sender h) s = Inr (w, s\<lparr>kern := k'\<rparr>)" "wakes W (kern s) k'"
    "wakes_one (kern s) (wlist Sender h) W"
    using wake_first_ok [OF assms(1,2), of core Sender] by blast
  have r: "xQueueGenericReset core h False s = Inr (w = Some True, ?s\<lparr>kern := k'\<rparr>)"
    using wake_first_set_queue [OF w(1), of h] by (simp add: xQueueGenericReset_def)
  obtain v where "W = {v}" using w(3) assms(3) unfolding wakes_one_def by (metis wlist.simps(1))
  then obtain v' where v': "v' \<in> {t, u}" "v' \<notin> W" using assms(5) by blast
  then have "waits k' v' (to_send h)" using wakesD(3) [OF w(2)] assms(3,4) by auto
  then show ?thesis using r v'(1) blocked_not_awake
    by (intro exI [of _ "w = Some True"] exI [of _ "?s\<lparr>kern := k'\<rparr>"]) (auto simp: set_queue_def reset_ring_def)
qed

theorem reset_leaves_senders_asleep_witness:
  "\<exists>s b s'. waits (kern s) 0 (to_send 1) \<and> waits (kern s) 1 (to_send 1) \<and> xQueueGenericReset 0 1 False s = Inr (b, s') \<and>
     uxMessagesWaiting (queues s' 1) = 0 \<and> uxLength (queues s' 1) = 2 \<and> (\<exists>v \<in> {0, 1}. waits (kern s') v (to_send 1))"
proof -
  have k: "kernel_inv (kern two_cores)" "2 \<in> initialised (kern two_cores)" "blocked_waiters (kern two_cores)"
    using two_cores_ok(1) by (simp_all add: at_rest_def sys_ok_def)
  obtain k1 where k1: "kernel_inv k1" "same_but_time (kern two_cores) k1"
    "pvContainer (lists k1) (xEventListItem 1) = Some (event_list 2)"
    "sleeping k1 1 \<or> pvContainer (lists k1) (xGenericListItem 1) = Some xSuspendedTaskList"
    "\<forall>y. y \<noteq> xGenericListItem 1 \<and> y \<noteq> xEventListItem 1 \<longrightarrow> pvContainer (lists k1) y = pvContainer (lists (kern two_cores)) y"
    using place_inv [OF k(1) two_cores_ok(2) _ k(2), of 5] by auto
  note f1 = same_but_timeD [OF k1(2)]
  have "running k1 1 0" using two_cores_ok(3) k1(5) f1 by (simp add: running_def)
  then obtain k2 where k2: "kernel_inv k2" "same_but_time k1 k2"
    "pvContainer (lists k2) (xEventListItem 0) = Some (event_list 2)"
    "sleeping k2 0 \<or> pvContainer (lists k2) (xGenericListItem 0) = Some xSuspendedTaskList"
    "\<forall>y. y \<noteq> xGenericListItem 0 \<and> y \<noteq> xEventListItem 0 \<longrightarrow> pvContainer (lists k2) y = pvContainer (lists k1) y"
    using place_inv [OF k1(1), of 1 0 5 2] k(2) f1 by auto
  note f2 = same_but_timeD [OF k2(2)]
  let ?s = "two_cores\<lparr>kern := k2\<rparr>"
  have "t = 0 \<or> t = 1" if "waits k2 t (event_list e)" for t e
  proof (rule ccontr)
    assume "\<not> (t = 0 \<or> t = 1)"
    then have "pvContainer (lists k2) (xEventListItem t) = None" using k1(5) k2(5) two_cores_ok(4) [of t] by simp
    then show False using that by (simp add: waits_def)
  qed
  moreover have "sleeping k2 1 = sleeping k1 1" "pvContainer (lists k2) (xGenericListItem 1) = pvContainer (lists k1) (xGenericListItem 1)"
    using k2(5) by (auto simp: sleeping_def)
  ultimately have "blocked_waiters k2" using k1(4) k2(4) by (metis blocked_waiters_def)
  then have ok: "sys_ok {1} ?s" using two_cores_ok(1) k2(1) f1(7,8) f2(7,8) by (simp add: at_rest_def sys_ok_def)
  have w: "waits (kern ?s) 0 (to_send 1)" "waits (kern ?s) 1 (to_send 1)"
    using k1(3) k2(3,5) by (simp_all add: waits_def to_send_def)
  show ?thesis
    using reset_leaves_senders_asleep [OF ok _ w, of 0] w two_cores_ok(6) by (intro exI [of _ ?s]) auto
qed

end
