(* ===== verification/RTOS_Timers.thy ===== *)
theory RTOS_Timers
  imports RTOS_Blocking
begin

text \<open>
  Software timers (\<^verbatim>\<open>components/freertos/timers.c\<close>): the commands that other tasks and interrupts send through a
  queue, and the timer service task, which keeps the active timers on two lists ordered by expiry time, one
  for the current round of the tick counter and one for the next. The tasks the kernel has, the queue and the
  lists of active timers are a state; timers are numbers. The start of the timer service task is left out.
\<close>

section \<open>State\<close>

datatype taddr = xActiveTimerList1 | xActiveTimerList2 | xTimerListItem nat

text \<open>Callback functions are known by their addresses.\<close>

record Timer_t =
  pcTimerName :: string
  xTimerPeriodInTicks :: u32
  uxAutoReload :: u32
  pvTimerID :: nat
  pxCallbackFunction :: nat

datatype callback = Timer_Callback nat nat | Pended_Callback nat u32 u32

text \<open>\<open>called\<close> are the callbacks that have been called, \<open>freed\<close> the timers that have been deleted, both latest first.\<close>

record tsys =
  qs :: qsys
  tlists :: "taddr list_mem"
  timer :: "nat \<Rightarrow> Timer_t"
  pxCurrentTimerList :: taddr
  pxOverflowTimerList :: taddr
  xTimerQueue :: "qhandle option"
  xLastTime :: u32
  called :: "callback list"
  freed :: "nat list"

definition configTIMER_QUEUE_LENGTH :: u32 where "configTIMER_QUEUE_LENGTH = 10"

section \<open>Messages\<close>

text \<open>
  \<^verbatim>\<open>DaemonTaskMessage_t\<close>: the identifier, and a union of the parameters of timer commands and of pended calls.
\<close>

datatype DaemonTaskMessage_t =
    Timer_Command int u32 nat
  | Pended_Call int nat u32 u32

definition tmrCOMMAND_EXECUTE_CALLBACK_FROM_ISR :: int where "tmrCOMMAND_EXECUTE_CALLBACK_FROM_ISR = -2"
definition tmrCOMMAND_EXECUTE_CALLBACK :: int where "tmrCOMMAND_EXECUTE_CALLBACK = -1"
definition tmrCOMMAND_START_DONT_TRACE :: int where "tmrCOMMAND_START_DONT_TRACE = 0"
definition tmrCOMMAND_START :: int where "tmrCOMMAND_START = 1"
definition tmrCOMMAND_RESET :: int where "tmrCOMMAND_RESET = 2"
definition tmrCOMMAND_STOP :: int where "tmrCOMMAND_STOP = 3"
definition tmrCOMMAND_CHANGE_PERIOD :: int where "tmrCOMMAND_CHANGE_PERIOD = 4"
definition tmrCOMMAND_DELETE :: int where "tmrCOMMAND_DELETE = 5"
definition tmrFIRST_FROM_ISR_COMMAND :: int where "tmrFIRST_FROM_ISR_COMMAND = 6"
definition tmrCOMMAND_START_FROM_ISR :: int where "tmrCOMMAND_START_FROM_ISR = 6"
definition tmrCOMMAND_RESET_FROM_ISR :: int where "tmrCOMMAND_RESET_FROM_ISR = 7"
definition tmrCOMMAND_STOP_FROM_ISR :: int where "tmrCOMMAND_STOP_FROM_ISR = 8"
definition tmrCOMMAND_CHANGE_PERIOD_FROM_ISR :: int where "tmrCOMMAND_CHANGE_PERIOD_FROM_ISR = 9"

text \<open>As the bytes that go through the queue. The last word of a timer command is not initialised by the code.\<close>

fun message_bytes :: "DaemonTaskMessage_t \<Rightarrow> byte list" where
  "message_bytes (Timer_Command xMessageID xMessageValue pxTimer) =
     le32 (word_of_int xMessageID) @ le32 xMessageValue @ le32 (of_nat pxTimer) @ le32 0"
| "message_bytes (Pended_Call xMessageID xFunction pvParameter1 ulParameter2) =
     le32 (word_of_int xMessageID) @ le32 (of_nat xFunction) @ le32 pvParameter1 @ le32 ulParameter2"

definition message_of :: "byte list \<Rightarrow> DaemonTaskMessage_t" where
  "message_of b =
     (let xMessageID = sint (of_le32 (take 4 b)); w = (\<lambda>i. of_le32 (take 4 (drop i b))) in
      if xMessageID < 0 then Pended_Call xMessageID (unat (w 4)) (w 8) (w 12)
      else Timer_Command xMessageID (w 4) (unat (w 8)))"

section \<open>Creation and commands\<close>

text \<open>\<open>h\<close> is the handle the new queue gets; \<open>pvPortMalloc\<close> gives its storage.\<close>

definition prvCheckForValidListAndQueue :: "(nat \<Rightarrow> byte list option) \<Rightarrow> qhandle \<Rightarrow> tsys \<Rightarrow> tsys run" where
  "prvCheckForValidListAndQueue pvPortMalloc h s =
     (if xTimerQueue s = None then
        (case xQueueGenericCreate pvPortMalloc configTIMER_QUEUE_LENGTH 16 of
           Some (Some q) \<Rightarrow>
             Inr (s\<lparr>tlists := vListInitialise xActiveTimerList2 (vListInitialise xActiveTimerList1 (tlists s)),
                    pxCurrentTimerList := xActiveTimerList1, pxOverflowTimerList := xActiveTimerList2, xTimerQueue := Some h,
                    qs := set_queue h q ((qs s)\<lparr>kern := new_event_list (2 * h + 1) (new_event_list (2 * h) (kern (qs s)))\<rparr>)\<rparr>)
         | _ \<Rightarrow> Inl Assert_Failed)
      else Inr s)"

text \<open>\<open>mem\<close> is the address of the new timer, \<open>None\<close> if there is no memory.\<close>

definition xTimerCreate ::
  "(nat \<Rightarrow> byte list option) \<Rightarrow> qhandle \<Rightarrow> nat option \<Rightarrow> string \<Rightarrow> u32 \<Rightarrow> u32 \<Rightarrow> nat \<Rightarrow> nat \<Rightarrow> tsys \<Rightarrow> (nat option \<times> tsys) run" where
  "xTimerCreate pvPortMalloc h mem name period reload tid callback s =
     (if period = 0 then Inl Assert_Failed
      else case mem of
        None \<Rightarrow> Inr (None, s)
      | Some t \<Rightarrow> run_bind (prvCheckForValidListAndQueue pvPortMalloc h s) (\<lambda>s1.
          Inr (Some t, s1\<lparr>timer := (timer s1)(t := \<lparr>pcTimerName = name, xTimerPeriodInTicks = period, uxAutoReload = reload,
                                                    pvTimerID = tid, pxCallbackFunction = callback\<rparr>),
                          tlists := vListInitialiseItem (xTimerListItem t) (tlists s1)\<rparr>)))"

text \<open>Posting a message from a task, with the scheduler started; one that is suspended leaves no time to wait.\<close>

definition post_message ::
  "nat \<Rightarrow> DaemonTaskMessage_t \<Rightarrow> u32 \<Rightarrow> (qsys \<Rightarrow> qsys run) list \<Rightarrow> qhandle \<Rightarrow> tsys \<Rightarrow> (bool \<times> tsys) run" where
  "post_message core m xTicksToWait env h s =
     run_bind (xQueueGenericSend core h (Some (message_bytes m)) xTicksToWait queueSEND_TO_BACK env (qs s))
       (\<lambda>((ok, _), q). Inr (ok, s\<lparr>qs := q\<rparr>))"

text \<open>The result is \<^verbatim>\<open>pdPASS\<close> or not, and \<^verbatim>\<open>*pxHigherPriorityTaskWoken\<close> of the calls from interrupts.\<close>

definition xTimerGenericCommand ::
  "nat \<Rightarrow> nat \<Rightarrow> int \<Rightarrow> u32 \<Rightarrow> u32 \<Rightarrow> (qsys \<Rightarrow> qsys run) list \<Rightarrow> tsys \<Rightarrow> ((bool \<times> bool) \<times> tsys) run" where
  "xTimerGenericCommand core xTimer xCommandID xOptionalValue xTicksToWait env s =
     (case xTimerQueue s of
        None \<Rightarrow> Inr ((False, False), s)
      | Some h \<Rightarrow>
          let m = Timer_Command xCommandID xOptionalValue xTimer in
          if xCommandID < tmrFIRST_FROM_ISR_COMMAND then
            run_bind (post_message core m (if uxSchedulerSuspended (kern (qs s)) core = 0 then xTicksToWait else 0) env h s)
              (\<lambda>(ok, s1). Inr ((ok, False), s1))
          else run_bind (xQueueGenericSendFromISR core h (Some (message_bytes m)) queueSEND_TO_BACK (qs s))
                 (\<lambda>(r, q). Inr (r, s\<lparr>qs := q\<rparr>)))"

definition xTimerPendFunctionCall ::
  "nat \<Rightarrow> nat \<Rightarrow> u32 \<Rightarrow> u32 \<Rightarrow> u32 \<Rightarrow> (qsys \<Rightarrow> qsys run) list \<Rightarrow> tsys \<Rightarrow> (bool \<times> tsys) run" where
  "xTimerPendFunctionCall core xFunctionToPend pvParameter1 ulParameter2 xTicksToWait env s =
     (case xTimerQueue s of
        None \<Rightarrow> Inl Assert_Failed
      | Some h \<Rightarrow> post_message core (Pended_Call tmrCOMMAND_EXECUTE_CALLBACK xFunctionToPend pvParameter1 ulParameter2) xTicksToWait env h s)"

text \<open>The handle of the queue is not tested here, but by the queue's own assertion.\<close>

definition xTimerPendFunctionCallFromISR ::
  "nat \<Rightarrow> nat \<Rightarrow> u32 \<Rightarrow> u32 \<Rightarrow> tsys \<Rightarrow> ((bool \<times> bool) \<times> tsys) run" where
  "xTimerPendFunctionCallFromISR core xFunctionToPend pvParameter1 ulParameter2 s =
     (case xTimerQueue s of
        None \<Rightarrow> Inl Assert_Failed
      | Some h \<Rightarrow> run_bind (xQueueGenericSendFromISR core h (Some (message_bytes
            (Pended_Call tmrCOMMAND_EXECUTE_CALLBACK_FROM_ISR xFunctionToPend pvParameter1 ulParameter2))) queueSEND_TO_BACK (qs s))
          (\<lambda>(r, q). Inr (r, s\<lparr>qs := q\<rparr>)))"

definition xTimerIsTimerActive :: "nat \<Rightarrow> tsys \<Rightarrow> bool" where
  "xTimerIsTimerActive t s \<longleftrightarrow> pvContainer (tlists s) (xTimerListItem t) \<noteq> None"

definition pvTimerGetTimerID :: "nat \<Rightarrow> tsys \<Rightarrow> nat" where
  "pvTimerGetTimerID t s = pvTimerID (timer s t)"

definition pcTimerGetTimerName :: "nat \<Rightarrow> tsys \<Rightarrow> string" where
  "pcTimerGetTimerName t s = pcTimerName (timer s t)"

section \<open>The timer service task\<close>

text \<open>
  What a callback does is the argument \<open>call\<close> of the functions that call one. A command the service task sends
  to itself does not wait; that it is accepted is asserted.
\<close>

definition run_callback :: "(callback \<Rightarrow> tsys \<Rightarrow> tsys run) \<Rightarrow> callback \<Rightarrow> tsys \<Rightarrow> tsys run" where
  "run_callback call c s = call c (s\<lparr>called := c # called s\<rparr>)"

definition timer_callback :: "nat \<Rightarrow> tsys \<Rightarrow> callback" where
  "timer_callback t s = Timer_Callback (pxCallbackFunction (timer s t)) t"

definition restart_timer :: "nat \<Rightarrow> nat \<Rightarrow> u32 \<Rightarrow> tsys \<Rightarrow> tsys run" where
  "restart_timer core t xTime s =
     run_bind (xTimerGenericCommand core t tmrCOMMAND_START_DONT_TRACE xTime 0 [Inr] s)
       (\<lambda>((xResult, _), s1). if xResult then Inr s1 else Inl Assert_Failed)"

definition timer_insert :: "taddr \<Rightarrow> nat \<Rightarrow> tsys \<Rightarrow> tsys run" where
  "timer_insert l t s =
     (case vListInsert l (xTimerListItem t) (tlists s) of None \<Rightarrow> Inl Blocks_Forever | Some m \<Rightarrow> Inr (s\<lparr>tlists := m\<rparr>))"

definition timer_remove :: "nat \<Rightarrow> tsys \<Rightarrow> tsys run" where
  "timer_remove t s = run_bind (uxListRemove (xTimerListItem t) (tlists s)) (\<lambda>(_, m). Inr (s\<lparr>tlists := m\<rparr>))"

definition set_item :: "nat \<Rightarrow> u32 \<Rightarrow> tsys \<Rightarrow> tsys" where
  "set_item t v s = s\<lparr>tlists := listSET_LIST_ITEM_OWNER (xTimerListItem t) t (listSET_LIST_ITEM_VALUE (xTimerListItem t) v (tlists s))\<rparr>"

definition prvInsertTimerInActiveList :: "nat \<Rightarrow> u32 \<Rightarrow> u32 \<Rightarrow> u32 \<Rightarrow> tsys \<Rightarrow> (bool \<times> tsys) run" where
  "prvInsertTimerInActiveList t xNextExpiryTime xTimeNow xCommandTime s =
     (let s1 = set_item t xNextExpiryTime s in
      if xNextExpiryTime \<le> xTimeNow then
        if xTimeNow - xCommandTime \<ge> xTimerPeriodInTicks (timer s1 t) then Inr (True, s1)
        else run_bind (timer_insert (pxOverflowTimerList s1) t s1) (\<lambda>s2. Inr (False, s2))
      else if xTimeNow < xCommandTime \<and> xNextExpiryTime \<ge> xCommandTime then Inr (True, s1)
      else run_bind (timer_insert (pxCurrentTimerList s1) t s1) (\<lambda>s2. Inr (False, s2)))"

definition prvProcessExpiredTimer :: "(callback \<Rightarrow> tsys \<Rightarrow> tsys run) \<Rightarrow> nat \<Rightarrow> u32 \<Rightarrow> u32 \<Rightarrow> tsys \<Rightarrow> tsys run" where
  "prvProcessExpiredTimer call core xNextExpireTime xTimeNow s =
     (let t = listGET_OWNER_OF_HEAD_ENTRY (pxCurrentTimerList s) (tlists s) in
      run_bind (timer_remove t s) (\<lambda>s1.
      run_bind
        (if uxAutoReload (timer s1 t) = 1 then
           run_bind (prvInsertTimerInActiveList t (xNextExpireTime + xTimerPeriodInTicks (timer s1 t)) xTimeNow xNextExpireTime s1)
             (\<lambda>(late, s2). if late then restart_timer core t xNextExpireTime s2 else Inr s2)
         else Inr s1) (\<lambda>s3.
      run_callback call (timer_callback t s3) s3)))"

text \<open>One round of the loop of \<^verbatim>\<open>prvSwitchTimerLists\<close>.\<close>

definition expire_head :: "(callback \<Rightarrow> tsys \<Rightarrow> tsys run) \<Rightarrow> nat \<Rightarrow> tsys \<Rightarrow> tsys run" where
  "expire_head call core s =
     (let xNextExpireTime = listGET_ITEM_VALUE_OF_HEAD_ENTRY (pxCurrentTimerList s) (tlists s);
          t = listGET_OWNER_OF_HEAD_ENTRY (pxCurrentTimerList s) (tlists s)
      in run_bind (timer_remove t s) (\<lambda>s1.
         run_bind (run_callback call (timer_callback t s1) s1) (\<lambda>s2.
           if uxAutoReload (timer s2 t) = 1 then
             let xReloadTime = xNextExpireTime + xTimerPeriodInTicks (timer s2 t) in
             if xReloadTime > xNextExpireTime then timer_insert (pxCurrentTimerList s2) t (set_item t xReloadTime s2)
             else restart_timer core t xNextExpireTime s2
           else Inr s2)))"

partial_function (option) expire_loop :: "(callback \<Rightarrow> tsys \<Rightarrow> tsys run) \<Rightarrow> nat \<Rightarrow> tsys \<Rightarrow> tsys run option" where
  "expire_loop call core s =
     (if listLIST_IS_EMPTY (pxCurrentTimerList s) (tlists s) then Some (Inr s)
      else case expire_head call core s of
        Inl e \<Rightarrow> Some (Inl e)
      | Inr s1 \<Rightarrow> expire_loop call core s1)"

definition prvSwitchTimerLists :: "(callback \<Rightarrow> tsys \<Rightarrow> tsys run) \<Rightarrow> nat \<Rightarrow> tsys \<Rightarrow> tsys run" where
  "prvSwitchTimerLists call core s =
     run_bind (or_blocks (expire_loop call core s)) (\<lambda>s1.
       Inr (s1\<lparr>pxCurrentTimerList := pxOverflowTimerList s1, pxOverflowTimerList := pxCurrentTimerList s1\<rparr>))"

definition prvSampleTimeNow :: "(callback \<Rightarrow> tsys \<Rightarrow> tsys run) \<Rightarrow> nat \<Rightarrow> tsys \<Rightarrow> ((u32 \<times> bool) \<times> tsys) run" where
  "prvSampleTimeNow call core s =
     (let xTimeNow = xTickCount (kern (qs s)); switched = (xTimeNow < xLastTime s) in
      run_bind (if switched then prvSwitchTimerLists call core s else Inr s) (\<lambda>s1.
        Inr ((xTimeNow, switched), s1\<lparr>xLastTime := xTimeNow\<rparr>)))"

definition prvGetNextExpireTime :: "tsys \<Rightarrow> u32 \<times> bool" where
  "prvGetNextExpireTime s =
     (let xListWasEmpty = listLIST_IS_EMPTY (pxCurrentTimerList s) (tlists s) in
      (if xListWasEmpty then 0 else listGET_ITEM_VALUE_OF_HEAD_ENTRY (pxCurrentTimerList s) (tlists s), xListWasEmpty))"

text \<open>The result is whether the task gives up the processor.\<close>

definition prvProcessTimerOrBlockTask ::
  "(callback \<Rightarrow> tsys \<Rightarrow> tsys run) \<Rightarrow> nat \<Rightarrow> u32 \<Rightarrow> bool \<Rightarrow> tsys \<Rightarrow> (bool \<times> tsys) run" where
  "prvProcessTimerOrBlockTask call core xNextExpireTime xListWasEmpty s =
     (let on_kernel = (\<lambda>k s. s\<lparr>qs := (qs s)\<lparr>kern := k\<rparr>\<rparr>) in
      run_bind (prvSampleTimeNow call core (on_kernel (vTaskSuspendAll core (kern (qs s))) s)) (\<lambda>((xTimeNow, switched), s1).
        if switched then run_bind (xTaskResumeAll core (kern (qs s1))) (\<lambda>(_, k). Inr (False, on_kernel k s1))
        else if \<not> xListWasEmpty \<and> xNextExpireTime \<le> xTimeNow then
          run_bind (xTaskResumeAll core (kern (qs s1))) (\<lambda>(_, k).
          run_bind (prvProcessExpiredTimer call core xNextExpireTime xTimeNow (on_kernel k s1)) (\<lambda>s2. Inr (False, s2)))
        else (case xTimerQueue s1 of
            None \<Rightarrow> Inl Null_Pointer
          | Some h \<Rightarrow> run_bind (vQueueWaitForMessageRestricted core h (xNextExpireTime - xTimeNow) (qs s1)) (\<lambda>q.
              run_bind (xTaskResumeAll core (kern q)) (\<lambda>(yielded, k). Inr (\<not> yielded, s1\<lparr>qs := q\<lparr>kern := k\<rparr>\<rparr>))))))"

text \<open>What the service task does with a message.\<close>

definition process_message :: "(callback \<Rightarrow> tsys \<Rightarrow> tsys run) \<Rightarrow> nat \<Rightarrow> DaemonTaskMessage_t \<Rightarrow> tsys \<Rightarrow> tsys run" where
  "process_message call core m s =
     (case m of
        Pended_Call _ f a b \<Rightarrow> run_callback call (Pended_Callback f a b) s
      | Timer_Command xMessageID xMessageValue t \<Rightarrow>
          run_bind (if pvContainer (tlists s) (xTimerListItem t) \<noteq> None then timer_remove t s else Inr s) (\<lambda>s1.
          run_bind (prvSampleTimeNow call core s1) (\<lambda>((xTimeNow, _), s2).
            if xMessageID \<in> {tmrCOMMAND_START, tmrCOMMAND_START_FROM_ISR, tmrCOMMAND_RESET, tmrCOMMAND_RESET_FROM_ISR,
                             tmrCOMMAND_START_DONT_TRACE} then
              run_bind (prvInsertTimerInActiveList t (xMessageValue + xTimerPeriodInTicks (timer s2 t)) xTimeNow xMessageValue s2)
                (\<lambda>(late, s3). if late then
                   run_bind (run_callback call (timer_callback t s3) s3) (\<lambda>s4.
                     if uxAutoReload (timer s4 t) = 1
                     then restart_timer core t (xMessageValue + xTimerPeriodInTicks (timer s4 t)) s4 else Inr s4)
                 else Inr s3)
            else if xMessageID \<in> {tmrCOMMAND_STOP, tmrCOMMAND_STOP_FROM_ISR} then Inr s2
            else if xMessageID \<in> {tmrCOMMAND_CHANGE_PERIOD, tmrCOMMAND_CHANGE_PERIOD_FROM_ISR} then
              let s3 = s2\<lparr>timer := (timer s2)(t := (timer s2 t)\<lparr>xTimerPeriodInTicks := xMessageValue\<rparr>)\<rparr> in
              if xMessageValue = 0 then Inl Assert_Failed
              else run_bind (prvInsertTimerInActiveList t (xTimeNow + xMessageValue) xTimeNow xTimeNow s3) (\<lambda>(_, s4). Inr s4)
            else if xMessageID = tmrCOMMAND_DELETE then Inr (s2\<lparr>freed := t # freed s2\<rparr>)
            else Inr s2)))"

definition receive_message :: "nat \<Rightarrow> tsys \<Rightarrow> (DaemonTaskMessage_t option \<times> tsys) run" where
  "receive_message core s =
     (case xTimerQueue s of
        None \<Rightarrow> Inl Assert_Failed
      | Some h \<Rightarrow> run_bind (xQueueGenericReceive core h True 0 False [Inr] (qs s)) (\<lambda>((item, _), q).
          Inr (map_option message_of item, s\<lparr>qs := q\<rparr>)))"

partial_function (option) prvProcessReceivedCommands :: "(callback \<Rightarrow> tsys \<Rightarrow> tsys run) \<Rightarrow> nat \<Rightarrow> tsys \<Rightarrow> tsys run option" where
  "prvProcessReceivedCommands call core s =
     (case receive_message core s of
        Inl e \<Rightarrow> Some (Inl e)
      | Inr (m, s1) \<Rightarrow> (case m of
          None \<Rightarrow> Some (Inr s1)
        | Some msg \<Rightarrow> (case process_message call core msg s1 of
            Inl e \<Rightarrow> Some (Inl e)
          | Inr s2 \<Rightarrow> prvProcessReceivedCommands call core s2)))"

text \<open>One round of the loop of \<^verbatim>\<open>prvTimerTask\<close>; \<open>env\<close> is what others do while the task has given up the processor.\<close>

definition timer_round :: "(callback \<Rightarrow> tsys \<Rightarrow> tsys run) \<Rightarrow> nat \<Rightarrow> (tsys \<Rightarrow> tsys run) \<Rightarrow> tsys \<Rightarrow> tsys run" where
  "timer_round call core env s =
     (let (xNextExpireTime, xListWasEmpty) = prvGetNextExpireTime s in
      run_bind (prvProcessTimerOrBlockTask call core xNextExpireTime xListWasEmpty s) (\<lambda>(yields, s1).
      run_bind (if yields then env s1 else Inr s1) (\<lambda>s2.
      or_blocks (prvProcessReceivedCommands call core s2))))"

section \<open>The invariant of the active timers\<close>

text \<open>Timers are in the data memory, which ends far below the end of the address space.\<close>

definition timer_address :: "nat \<Rightarrow> bool" where
  "timer_address t \<longleftrightarrow> t < 0x40000000"

definition timers_ok :: "tsys \<Rightarrow> (taddr \<rightharpoonup> taddr list) \<Rightarrow> bool" where
  "timers_ok s L \<longleftrightarrow> kernel_lists (tlists s) L \<and> dom L = {xActiveTimerList1, xActiveTimerList2} \<and>
     (pxCurrentTimerList s, pxOverflowTimerList s) \<in>
       {(xActiveTimerList1, xActiveTimerList2), (xActiveTimerList2, xActiveTimerList1)} \<and>
     (\<forall>x l. pvContainer (tlists s) x = Some l \<longrightarrow> l \<in> dom L \<and> (\<exists>t. x = xTimerListItem t \<and> timer_address t \<and> pvOwner (tlists s) x = t)) \<and>
     (\<forall>l xs. L l = Some xs \<longrightarrow> sorted (map (xItemValue (tlists s)) xs))"

lemma timers_okD:
  assumes "timers_ok s L"
  shows "kernel_lists (tlists s) L" "dom L = {xActiveTimerList1, xActiveTimerList2}"
    "pxCurrentTimerList s \<in> dom L" "pxOverflowTimerList s \<in> dom L" "pxCurrentTimerList s \<noteq> pxOverflowTimerList s"
    and "l \<in> dom L \<Longrightarrow> l = pxCurrentTimerList s \<or> l = pxOverflowTimerList s"
    and "pvContainer (tlists s) x = Some l \<Longrightarrow> l \<in> dom L" "pvContainer (tlists s) x = Some l \<Longrightarrow> \<exists>t. x = xTimerListItem t \<and> timer_address t"
    and "pvContainer (tlists s) (xTimerListItem t) = Some l \<Longrightarrow> pvOwner (tlists s) (xTimerListItem t) = t"
    and "L l = Some xs \<Longrightarrow> sorted (map (xItemValue (tlists s)) xs)" "xTimerListItem t \<notin> dom L"
proof -
  show "pvContainer (tlists s) (xTimerListItem t) = Some l \<Longrightarrow> pvOwner (tlists s) (xTimerListItem t) = t"
    using assms unfolding timers_ok_def by (metis taddr.inject)
  show "pvContainer (tlists s) x = Some l \<Longrightarrow> l \<in> dom L" "pvContainer (tlists s) x = Some l \<Longrightarrow> \<exists>t. x = xTimerListItem t \<and> timer_address t"
    using assms unfolding timers_ok_def by blast+
  show "L l = Some xs \<Longrightarrow> sorted (map (xItemValue (tlists s)) xs)" using assms unfolding timers_ok_def by blast
qed (use assms in \<open>auto simp: timers_ok_def\<close>)

text \<open>
  The times of expiry as numbers that do not wrap, when the last time seen is \<open>T\<close>: the lists are those of the
  current and of the next round of the counter.
\<close>

definition round_start :: "nat \<Rightarrow> nat" where
  "round_start T = T div 2 ^ 32 * 2 ^ 32"

definition deadline :: "tsys \<Rightarrow> nat \<Rightarrow> nat \<rightharpoonup> nat" where
  "deadline s T t = map_option (\<lambda>l. round_start T + (if l = pxCurrentTimerList s then 0 else 2 ^ 32) +
     unat (xItemValue (tlists s) (xTimerListItem t))) (pvContainer (tlists s) (xTimerListItem t))"

lemma timer_room:
  assumes ok: "timers_ok s L" and l: "L l = Some xs"
  shows "length xs + 1 < 2 ^ 32"
proof -
  note h = holds_listD [OF kernel_listsD [OF timers_okD(1) [OF ok] l]]
  have "set xs \<subseteq> xTimerListItem ` {..<0x40000000}"
    using h(4) timers_okD(8) [OF ok] by (force simp: timer_address_def)
  then have "card (set xs) \<le> card (xTimerListItem ` {..<0x40000000})" by (intro card_mono) auto
  also have "\<dots> \<le> 0x40000000" using card_image_le [of "{..<0x40000000}" xTimerListItem] by simp
  finally show ?thesis using h(2) by (simp add: distinct_card)
qed

lemma timer_insert_ok:
  assumes ok: "timers_ok s L" and l: "L l = Some xs" and t: "pvContainer (tlists s) (xTimerListItem t) = None" "timer_address t"
    "pvOwner (tlists s) (xTimerListItem t) = t"
  shows "\<exists>m. timer_insert l t s = Inr (s\<lparr>tlists := m\<rparr>) \<and>
    timers_ok (s\<lparr>tlists := m\<rparr>) (L(l \<mapsto> place_by (xItemValue (tlists s)) (xTimerListItem t) xs)) \<and>
    pvContainer m = (pvContainer (tlists s))(xTimerListItem t := Some l) \<and> xItemValue m = xItemValue (tlists s)"
proof -
  let ?x = "xTimerListItem t" and ?L' = "L(l \<mapsto> place_by (xItemValue (tlists s)) (xTimerListItem t) xs)"
  obtain m where m: "vListInsert l ?x (tlists s) = Some m" "kernel_lists m ?L'" "xItemValue m = xItemValue (tlists s)"
    "pvOwner m = pvOwner (tlists s)" "pvContainer m = (pvContainer (tlists s))(?x := Some l)"
    using vListInsert_law [OF timers_okD(1) [OF ok] l t(1) timers_okD(11) [OF ok] timer_room [OF ok l]] by blast
  have d: "dom ?L' = dom L" using l by auto
  have "sorted (map (xItemValue m) ys)" if "?L' l' = Some ys" for l' ys
    using that timers_okD(10) [OF ok] sorted_place_by [OF timers_okD(10) [OF ok l]] m(3) by (auto split: if_splits)
  moreover have "l' \<in> dom ?L' \<and> (\<exists>u. y = xTimerListItem u \<and> timer_address u \<and> pvOwner m y = u)" if "pvContainer m y = Some l'" for y l'
    using that timers_okD(7-9) [OF ok] t l unfolding d m(4,5) by (fastforce split: if_splits)
  ultimately have "timers_ok (s\<lparr>tlists := m\<rparr>) ?L'" using ok m(2) unfolding timers_ok_def d by simp
  then show ?thesis using m by (auto simp: timer_insert_def)
qed

lemma timer_remove_ok:
  assumes ok: "timers_ok s L" and t: "pvContainer (tlists s) (xTimerListItem t) = Some l" "L l = Some xs"
  shows "\<exists>m. timer_remove t s = Inr (s\<lparr>tlists := m\<rparr>) \<and> timers_ok (s\<lparr>tlists := m\<rparr>) (L(l \<mapsto> remove1 (xTimerListItem t) xs)) \<and>
    pvContainer m = (pvContainer (tlists s))(xTimerListItem t := None) \<and> xItemValue m = xItemValue (tlists s)"
proof -
  let ?x = "xTimerListItem t" and ?L' = "L(l \<mapsto> remove1 (xTimerListItem t) xs)"
  obtain n m where m: "uxListRemove ?x (tlists s) = Inr (n, m)" "kernel_lists m ?L'" "pvContainer m = (pvContainer (tlists s))(?x := None)"
    "xItemValue m = xItemValue (tlists s)" "pvOwner m = pvOwner (tlists s)"
    using uxListRemove_some [OF timers_okD(1) [OF ok] t(2,1)] by blast
  have d: "dom ?L' = dom L" using t(2) by auto
  have "sorted (map (xItemValue m) ys)" if "?L' l' = Some ys" for l' ys
    using that timers_okD(10) [OF ok] sorted_map_remove1 [OF timers_okD(10) [OF ok t(2)]] m(4) by (auto split: if_splits)
  moreover have "l' \<in> dom ?L' \<and> (\<exists>u. y = xTimerListItem u \<and> timer_address u \<and> pvOwner m y = u)" if "pvContainer m y = Some l'" for y l'
    using that timers_okD(7-9) [OF ok] unfolding d m(3,5) by (fastforce split: if_splits)
  ultimately have "timers_ok (s\<lparr>tlists := m\<rparr>) ?L'" using ok m(2) unfolding timers_ok_def d by simp
  then show ?thesis using m by (auto simp: timer_remove_def)
qed

lemma set_item_fields [simp]:
  "pvContainer (tlists (set_item t v s)) = pvContainer (tlists s)" "pxCurrentTimerList (set_item t v s) = pxCurrentTimerList s"
  "pxOverflowTimerList (set_item t v s) = pxOverflowTimerList s" "timer (set_item t v s) = timer s"
  "xItemValue (tlists (set_item t v s)) = (xItemValue (tlists s))(xTimerListItem t := v)"
  "pvOwner (tlists (set_item t v s)) (xTimerListItem t) = t" "(set_item t v s)\<lparr>tlists := m\<rparr> = s\<lparr>tlists := m\<rparr>"
  by (simp_all add: set_item_def listSET_LIST_ITEM_OWNER_def listSET_LIST_ITEM_VALUE_def)

lemma set_item_ok:
  assumes ok: "timers_ok s L" and t: "pvContainer (tlists s) (xTimerListItem t) = None"
  shows "timers_ok (set_item t v s) L"
proof -
  let ?x = "xTimerListItem t" and ?m = "listSET_LIST_ITEM_VALUE (xTimerListItem t) v (tlists s)"
  have "holds_list (listSET_LIST_ITEM_OWNER ?x t ?m) l xs = holds_list ?m l xs" for l xs
    using seg_cong [of l xs ?m "listSET_LIST_ITEM_OWNER ?x t ?m" l] by (simp add: holds_list_def listSET_LIST_ITEM_OWNER_def)
  then have "kernel_lists (tlists (set_item t v s)) L"
    using timers_okD(1,11) [OF ok] kernel_lists_value [of ?x L v "tlists s"] by (simp add: kernel_lists_def set_item_def)
  moreover have "?x \<notin> set xs" if "L l = Some xs" for l xs
    using holds_listD(4) [OF kernel_listsD [OF timers_okD(1) [OF ok] that]] t by (metis option.discI)
  then have "sorted (map (xItemValue (tlists (set_item t v s))) xs)" if "L l = Some xs" for l xs
    using timers_okD(10) [OF ok that] that
    by (simp add: set_item_def listSET_LIST_ITEM_OWNER_def listSET_LIST_ITEM_VALUE_def map_fun_upd)
  moreover have "\<exists>u. x = xTimerListItem u \<and> timer_address u \<and> pvOwner (tlists (set_item t v s)) x = u" if "pvContainer (tlists s) x = Some l" for x l
    using that t timers_okD(8,9) [OF ok] by (fastforce simp: set_item_def listSET_LIST_ITEM_OWNER_def listSET_LIST_ITEM_VALUE_def)
  ultimately show ?thesis using ok unfolding timers_ok_def set_item_fields by blast
qed

text \<open>The arithmetic behind the choice of the list, for a counter with \<open>N\<close> values.\<close>

lemma near_multiple:
  fixes N :: nat
  assumes "y < 2 * N"
  shows "(q * N + y) mod N = (if y < N then y else y - N)" "(q * N + y) div N * N = (if y < N then q * N else q * N + N)"
proof -
  have *: "y = N + (y - N)" "y - N < N" if "\<not> y < N" using that assms by auto
  have "(q * N + y) mod N = y mod N" "0 < N" using assms by auto
  then show m: "(q * N + y) mod N = (if y < N then y else y - N)" using * by (auto simp: le_mod_geq)
  have "(q * N + y) div N * N = q * N + y - (q * N + y) mod N" by (metis minus_mod_eq_div_mult)
  then show "(q * N + y) div N * N = (if y < N then q * N else q * N + N)" using m * by (auto split: if_splits)
qed

lemma expiry_cases:
  fixes N :: nat
  assumes "c \<le> n" "n - c < N" "0 < P" "P < N"
  shows "(c + P) mod N \<le> n mod N \<Longrightarrow> \<not> P \<le> n - c \<Longrightarrow> c + P = n div N * N + N + (c + P) mod N"
    "n mod N < (c + P) mod N \<Longrightarrow> n mod N < c mod N \<and> c mod N \<le> (c + P) mod N \<longleftrightarrow> c + P \<le> n"
    "n mod N < (c + P) mod N \<Longrightarrow> \<not> c + P \<le> n \<Longrightarrow> c + P = n div N * N + (c + P) mod N"
proof -
  define q x y where "q = c div N" and "x = c mod N" and "y = n - q * N"
  have c: "c = q * N + x" "x < N" using assms by (simp_all add: q_def x_def)
  then have n: "n = q * N + y" "x \<le> y" "y < x + N" using assms(1,2) by (auto simp: y_def)
  have cp: "c + P = q * N + (x + P)" using c(1) by simp
  have b: "x + P < 2 * N" "y < 2 * N" using c(2) n(3) assms(4) by simp_all
  have m: "(c + P) mod N = (if x + P < N then x + P else x + P - N)" unfolding cp by (rule near_multiple [OF b(1)])
  have m': "n mod N = (if y < N then y else y - N)" "n div N * N = (if y < N then q * N else q * N + N)" "c mod N = x"
    using near_multiple [OF b(2), of q] unfolding n(1) [symmetric] by (simp_all add: x_def)
  show "(c + P) mod N \<le> n mod N \<Longrightarrow> \<not> P \<le> n - c \<Longrightarrow> c + P = n div N * N + N + (c + P) mod N"
    "n mod N < (c + P) mod N \<Longrightarrow> n mod N < c mod N \<and> c mod N \<le> (c + P) mod N \<longleftrightarrow> c + P \<le> n"
    "n mod N < (c + P) mod N \<Longrightarrow> \<not> c + P \<le> n \<Longrightarrow> c + P = n div N * N + (c + P) mod N"
    unfolding m m' using c n assms(3,4) by (auto split: if_splits)
qed

lemma insert_timer_ok:
  assumes ok: "timers_ok s L" and t: "pvContainer (tlists s) (xTimerListItem t) = None" "timer_address t"
    and p: "xTimerPeriodInTicks (timer s t) = p" "p \<noteq> 0" and time: "c \<le> n" "n - c < 2 ^ 32"
  shows "\<exists>m L'. prvInsertTimerInActiveList t (of_nat c + p) (of_nat n) (of_nat c) s = Inr (c + unat p \<le> n, s\<lparr>tlists := m\<rparr>) \<and>
    timers_ok (s\<lparr>tlists := m\<rparr>) L' \<and>
    deadline (s\<lparr>tlists := m\<rparr>) n = (if c + unat p \<le> n then deadline s n else (deadline s n)(t \<mapsto> c + unat p))"
proof -
  let ?N = "2 ^ 32 :: nat" and ?v = "of_nat c + p :: u32" and ?s = "set_item t (of_nat c + p) s" and ?x = "xTimerListItem t"
  have P: "0 < unat p" "unat p < ?N" using p(2) unsigned_less [of p] by (simp_all add: unat_gt_0)
  have v: "?v = of_nat (c + unat p)" by simp
  have w: "unat (of_nat k :: u32) = k mod ?N" for k by (simp add: unat_of_nat)
  note u = w [of c] w [of n] w [of "c + unat p", folded v]
  have d: "unat (of_nat n - of_nat c :: u32) = n - c"
    using w [of "n - c"] time by (simp add: of_nat_diff)
  note e = expiry_cases [OF time P]
  have ok': "timers_ok ?s L" by (rule set_item_ok [OF ok t(1)])
  have ins: "\<exists>m L'. timer_insert l t ?s = Inr (s\<lparr>tlists := m\<rparr>) \<and> timers_ok (s\<lparr>tlists := m\<rparr>) L' \<and>
      deadline (s\<lparr>tlists := m\<rparr>) n = (deadline s n)(t \<mapsto> round_start n + (if l = pxCurrentTimerList s then 0 else ?N) + unat ?v)"
    if l: "l \<in> dom L" for l
  proof -
    obtain xs where xs: "L l = Some xs" using l by blast
    obtain m where m: "timer_insert l t ?s = Inr (s\<lparr>tlists := m\<rparr>)"
      "timers_ok (s\<lparr>tlists := m\<rparr>) (L(l \<mapsto> place_by (xItemValue (tlists ?s)) ?x xs))"
      "pvContainer m = (pvContainer (tlists s))(?x := Some l)" "xItemValue m = (xItemValue (tlists s))(?x := ?v)"
      using timer_insert_ok [OF ok' xs _ t(2)] t(1) by auto
    have "deadline (s\<lparr>tlists := m\<rparr>) n u = ((deadline s n)(t \<mapsto> round_start n + (if l = pxCurrentTimerList s then 0 else ?N) + unat ?v)) u" for u
      using m(3,4) t(1) by (auto simp: deadline_def)
    then show ?thesis using m(1,2) by blast
  qed
  have late: "\<exists>m L'. Inr (True, ?s) = Inr (True, s\<lparr>tlists := m\<rparr>) \<and> timers_ok (s\<lparr>tlists := m\<rparr>) L' \<and> deadline (s\<lparr>tlists := m\<rparr>) n = deadline s n"
  proof (intro exI conjI)
    show "Inr (True, ?s) = Inr (True, s\<lparr>tlists := tlists ?s\<rparr>)" "timers_ok (s\<lparr>tlists := tlists ?s\<rparr>) L"
      using ok' by (simp_all add: set_item_def)
    show "deadline (s\<lparr>tlists := tlists ?s\<rparr>) n = deadline s n" using t(1) by (auto simp: deadline_def fun_eq_iff)
  qed
  show ?thesis
  proof (cases "?v \<le> of_nat n")
    case v: True
    then have le: "(c + unat p) mod ?N \<le> n mod ?N" by (simp add: word_le_nat_alt u)
    show ?thesis
    proof (cases "unat p \<le> n - c")
      case True
      then have "p \<le> of_nat n - of_nat c" "c + unat p \<le> n" using d time(1) by (simp_all add: word_le_nat_alt)
      then show ?thesis using late v p(1) by (simp add: prvInsertTimerInActiveList_def Let_def)
    next
      case False
      then have "\<not> p \<le> of_nat n - of_nat c" "\<not> c + unat p \<le> n" using d time(1) by (simp_all add: word_le_nat_alt)
      then show ?thesis using ins [OF timers_okD(4) [OF ok]] v p(1) e(1) [OF le False] timers_okD(5) [OF ok] u(3)
        by (auto simp: prvInsertTimerInActiveList_def Let_def round_start_def)
    qed
  next
    case v: False
    then have gt: "n mod ?N < (c + unat p) mod ?N" by (simp add: word_le_nat_alt u)
    have i: "of_nat n < (of_nat c :: u32) \<and> of_nat c \<le> ?v \<longleftrightarrow> c + unat p \<le> n"
      unfolding word_less_nat_alt word_le_nat_alt u by (rule e(2) [OF gt])
    show ?thesis
    proof (cases "c + unat p \<le> n")
      case True
      then show ?thesis using late v i by (simp add: prvInsertTimerInActiveList_def Let_def)
    next
      case False
      have "\<not> (of_nat n < (of_nat c :: u32) \<and> of_nat c \<le> ?v)" unfolding i by (rule False)
      then show ?thesis using ins [OF timers_okD(3) [OF ok]] v False e(3) [OF gt False] u(3)
        by (auto simp: prvInsertTimerInActiveList_def Let_def round_start_def)
    qed
  qed
qed

section \<open>Commands\<close>

text \<open>
  Callbacks that return and leave the timers to the service task: they may do with tasks and queues what
  they like, sending commands to the timers included.
\<close>

definition quiet :: "(callback \<Rightarrow> tsys \<Rightarrow> tsys run) \<Rightarrow> bool" where
  "quiet call \<longleftrightarrow> (\<forall>c s. \<exists>q. call c s = Inr (s\<lparr>qs := q\<rparr>))"

lemma deadline_cong:
  assumes "tlists s' = tlists s" "pxCurrentTimerList s' = pxCurrentTimerList s" "round_start T' = round_start T"
  shows "deadline s' T' = deadline s T"
  using assms by (simp add: deadline_def fun_eq_iff)

lemma timers_ok_cong:
  assumes "timers_ok s L" "tlists s' = tlists s" "pxCurrentTimerList s' = pxCurrentTimerList s" "pxOverflowTimerList s' = pxOverflowTimerList s"
  shows "timers_ok s' L"
  using assms(1) unfolding timers_ok_def assms(2-4) .

lemma timer_off:
  assumes ok: "timers_ok s L"
  shows "\<exists>m L'. (if pvContainer (tlists s) (xTimerListItem t) \<noteq> None then timer_remove t s else Inr s) = Inr (s\<lparr>tlists := m\<rparr>) \<and>
    timers_ok (s\<lparr>tlists := m\<rparr>) L' \<and> pvContainer m (xTimerListItem t) = None \<and>
    deadline (s\<lparr>tlists := m\<rparr>) T = (deadline s T)(t := None)"
proof (cases "pvContainer (tlists s) (xTimerListItem t)")
  case None
  moreover have "deadline s T = (deadline s T)(t := None)" using None by (simp add: deadline_def fun_eq_iff)
  ultimately show ?thesis using ok by (intro exI [of _ "tlists s"] exI [of _ L]) simp
next
  case (Some l)
  then obtain xs where "L l = Some xs" using timers_okD(7) [OF ok Some] by blast
  then obtain m where "timer_remove t s = Inr (s\<lparr>tlists := m\<rparr>)" "timers_ok (s\<lparr>tlists := m\<rparr>) (L(l \<mapsto> remove1 (xTimerListItem t) xs))"
    "pvContainer m = (pvContainer (tlists s))(xTimerListItem t := None)" "xItemValue m = xItemValue (tlists s)"
    using timer_remove_ok [OF ok Some] by blast
  moreover from this have "deadline (s\<lparr>tlists := m\<rparr>) T = (deadline s T)(t := None)" by (simp add: deadline_def fun_eq_iff)
  ultimately show ?thesis using Some by auto
qed

text \<open>The clock of the service task: \<open>m\<close> is the time it has seen last, \<open>n\<close> the time now, in the same round of the counter.\<close>

definition same_round :: "tsys \<Rightarrow> nat \<Rightarrow> nat \<Rightarrow> bool" where
  "same_round s m n \<longleftrightarrow> xLastTime s = of_nat m \<and> xTickCount (kern (qs s)) = of_nat n \<and> m \<le> n \<and> round_start m = round_start n"

lemma round_start_less: "m \<le> n \<Longrightarrow> round_start m = round_start n \<Longrightarrow> \<not> (of_nat n :: u32) < of_nat m"
proof -
  assume "m \<le> n" "round_start m = round_start n"
  moreover have "k = round_start k + k mod 2 ^ 32" for k unfolding round_start_def by simp
  ultimately have "m mod 2 ^ 32 \<le> n mod 2 ^ 32" by (metis nat_add_left_cancel_le)
  then show ?thesis by (simp add: word_less_nat_alt unat_of_nat)
qed

lemma sample_same_round:
  "same_round s m n \<Longrightarrow> prvSampleTimeNow call core s = Inr ((of_nat n, False), s\<lparr>xLastTime := of_nat n\<rparr>)"
  using round_start_less [of m n] by (simp add: prvSampleTimeNow_def same_round_def Let_def)

lemma command_start:
  assumes ok: "timers_ok s L" "timer_address t" and r: "same_round s m n"
  shows "\<exists>s1 L1. timers_ok s1 L1 \<and> pvContainer (tlists s1) (xTimerListItem t) = None \<and> deadline s1 n = (deadline s m)(t := None) \<and>
    s1 = s\<lparr>tlists := tlists s1, xLastTime := of_nat n\<rparr> \<and>
    (\<forall>f :: (u32 \<times> bool) \<times> tsys \<Rightarrow> tsys run. run_bind (if pvContainer (tlists s) (xTimerListItem t) \<noteq> None then timer_remove t s else Inr s) (\<lambda>s1.
       run_bind (prvSampleTimeNow call core s1) f) = f ((of_nat n, False), s1))"
proof -
  obtain tl L' where o: "(if pvContainer (tlists s) (xTimerListItem t) \<noteq> None then timer_remove t s else Inr s) = Inr (s\<lparr>tlists := tl\<rparr>)"
    "timers_ok (s\<lparr>tlists := tl\<rparr>) L'" "pvContainer tl (xTimerListItem t) = None"
    "deadline (s\<lparr>tlists := tl\<rparr>) n = (deadline s n)(t := None)"
    using timer_off [OF ok(1)] by blast
  have rs: "round_start n = round_start m" using r by (simp add: same_round_def)
  have d: "deadline s n = deadline s m" by (rule deadline_cong) (simp_all add: rs)
  have "same_round (s\<lparr>tlists := tl\<rparr>) m n" using r by (simp add: same_round_def)
  note smp = sample_same_round [OF this, of call core]
  let ?s1 = "s\<lparr>tlists := tl, xLastTime := of_nat n\<rparr>"
  have "timers_ok ?s1 L'" by (rule timers_ok_cong [OF o(2)]) simp_all
  moreover have "deadline ?s1 n = (deadline s m)(t := None)" unfolding o(4) [symmetric] d [symmetric] by (rule deadline_cong) simp_all
  ultimately show ?thesis using o(1,3) smp by (intro exI [of _ ?s1] exI [of _ L']) simp
qed

lemmas timer_ids = tmrCOMMAND_START_def tmrCOMMAND_RESET_def tmrCOMMAND_START_FROM_ISR_def tmrCOMMAND_RESET_FROM_ISR_def
    tmrCOMMAND_START_DONT_TRACE_def tmrCOMMAND_STOP_def tmrCOMMAND_STOP_FROM_ISR_def tmrCOMMAND_CHANGE_PERIOD_def
    tmrCOMMAND_CHANGE_PERIOD_FROM_ISR_def tmrCOMMAND_DELETE_def

lemma start_message:
  assumes ok: "timers_ok s L" "timer_address t" and r: "same_round s m n" and q: "quiet call"
    and p: "xTimerPeriodInTicks (timer s t) = p" "p \<noteq> 0"
    and c: "c \<le> n \<and> n - c < 2 ^ 32 \<and> (uxAutoReload (timer s t) \<noteq> 1 \<or> n < c + unat p)"
    and x: "xID \<in> {tmrCOMMAND_START, tmrCOMMAND_RESET, tmrCOMMAND_START_FROM_ISR, tmrCOMMAND_RESET_FROM_ISR, tmrCOMMAND_START_DONT_TRACE}"
  shows "\<exists>s' L'. process_message call core (Timer_Command xID (of_nat c) t) s = Inr s' \<and> timers_ok s' L' \<and>
    (if c + unat p \<le> n
     then deadline s' n = (deadline s m)(t := None) \<and> called s' = Timer_Callback (pxCallbackFunction (timer s t)) t # called s
     else deadline s' n = (deadline s m)(t \<mapsto> c + unat p) \<and> called s' = called s)"
proof -
  obtain s1 L1 where s1: "timers_ok s1 L1" "pvContainer (tlists s1) (xTimerListItem t) = None" "deadline s1 n = (deadline s m)(t := None)"
    "s1 = s\<lparr>tlists := tlists s1, xLastTime := of_nat n\<rparr>"
    "\<And>f :: (u32 \<times> bool) \<times> tsys \<Rightarrow> tsys run. run_bind (if pvContainer (tlists s) (xTimerListItem t) \<noteq> None then timer_remove t s else Inr s) (\<lambda>s1.
       run_bind (prvSampleTimeNow call core s1) f) = f ((of_nat n, False), s1)"
    using command_start [OF ok r, of call core] by blast
  have f: "timer s1 = timer s" "called s1 = called s" "freed s1 = freed s" by (subst s1(4); simp)+
  note pm = process_message_def DaemonTaskMessage_t.case s1(5) prod.case
  obtain tl L' where i: "prvInsertTimerInActiveList t (of_nat c + p) (of_nat n) (of_nat c) s1 = Inr (c + unat p \<le> n, s1\<lparr>tlists := tl\<rparr>)"
    "timers_ok (s1\<lparr>tlists := tl\<rparr>) L'"
    "deadline (s1\<lparr>tlists := tl\<rparr>) n = (if c + unat p \<le> n then deadline s1 n else (deadline s1 n)(t \<mapsto> c + unat p))"
    using insert_timer_ok [OF s1(1,2) ok(2) _ p(2)] p(1) f(1) c by metis
  obtain qq where call: "call (timer_callback t (s1\<lparr>tlists := tl\<rparr>)) (s1\<lparr>tlists := tl, called := timer_callback t (s1\<lparr>tlists := tl\<rparr>) # called s1\<rparr>) =
    Inr (s1\<lparr>tlists := tl, called := timer_callback t (s1\<lparr>tlists := tl\<rparr>) # called s1, qs := qq\<rparr>)"
    using q unfolding quiet_def by blast
  define s' where "s' = (if c + unat p \<le> n then s1\<lparr>tlists := tl, called := timer_callback t (s1\<lparr>tlists := tl\<rparr>) # called s1, qs := qq\<rparr> else s1\<lparr>tlists := tl\<rparr>)"
  have "process_message call core (Timer_Command xID (of_nat c) t) s = Inr s'"
    using x c i(1) call p(1) f(1) unfolding pm s'_def by (auto simp: run_callback_def timer_ids)
  moreover have "timers_ok s' L'" by (rule timers_ok_cong [OF i(2)]) (simp_all add: s'_def)
  moreover have "deadline s' n = deadline (s1\<lparr>tlists := tl\<rparr>) n" by (rule deadline_cong) (simp_all add: s'_def)
  moreover have "called s' = (if c + unat p \<le> n then Timer_Callback (pxCallbackFunction (timer s t)) t # called s else called s)"
    using f(1,2) by (simp add: s'_def timer_callback_def)
  ultimately show ?thesis
    using i(3) s1(3) by (intro exI [of _ s'] exI [of _ L']) simp
qed

lemma change_message:
  assumes ok: "timers_ok s L" "timer_address t" and r: "same_round s m n" and v: "v \<noteq> 0"
    and x: "xID \<in> {tmrCOMMAND_CHANGE_PERIOD, tmrCOMMAND_CHANGE_PERIOD_FROM_ISR}"
  shows "\<exists>s' L'. process_message call core (Timer_Command xID v t) s = Inr s' \<and> timers_ok s' L' \<and>
    deadline s' n = (deadline s m)(t \<mapsto> n + unat v) \<and> called s' = called s \<and> xTimerPeriodInTicks (timer s' t) = v"
proof -
  obtain s1 L1 where s1: "timers_ok s1 L1" "pvContainer (tlists s1) (xTimerListItem t) = None" "deadline s1 n = (deadline s m)(t := None)"
    "s1 = s\<lparr>tlists := tlists s1, xLastTime := of_nat n\<rparr>"
    "\<And>f :: (u32 \<times> bool) \<times> tsys \<Rightarrow> tsys run. run_bind (if pvContainer (tlists s) (xTimerListItem t) \<noteq> None then timer_remove t s else Inr s) (\<lambda>s1.
       run_bind (prvSampleTimeNow call core s1) f) = f ((of_nat n, False), s1)"
    using command_start [OF ok r, of call core] by blast
  have f: "timer s1 = timer s" "called s1 = called s" "freed s1 = freed s" by (subst s1(4); simp)+
  note pm = process_message_def DaemonTaskMessage_t.case s1(5) prod.case
  let ?s2 = "s1\<lparr>timer := (timer s1)(t := (timer s1 t)\<lparr>xTimerPeriodInTicks := v\<rparr>)\<rparr>"
  have "timers_ok ?s2 L1" by (rule timers_ok_cong [OF s1(1)]) simp_all
  then obtain tl L' where i: "prvInsertTimerInActiveList t (of_nat n + v) (of_nat n) (of_nat n) ?s2 = Inr (n + unat v \<le> n, ?s2\<lparr>tlists := tl\<rparr>)"
    "timers_ok (?s2\<lparr>tlists := tl\<rparr>) L'"
    "deadline (?s2\<lparr>tlists := tl\<rparr>) n = (if n + unat v \<le> n then deadline ?s2 n else (deadline ?s2 n)(t \<mapsto> n + unat v))"
    using insert_timer_ok [of ?s2 L1 t v n n] s1(2) ok(2) v by auto
  have "process_message call core (Timer_Command xID v t) s = Inr (?s2\<lparr>tlists := tl\<rparr>)"
    using x i(1) v unfolding pm by (auto simp: timer_ids Let_def)
  moreover have "\<not> n + unat v \<le> n" using v by (simp add: unat_gt_0)
  moreover have "deadline ?s2 n = deadline s1 n" by (rule deadline_cong) simp_all
  ultimately show ?thesis
    using i(2,3) s1(3) f(2) by (intro exI [of _ "?s2\<lparr>tlists := tl\<rparr>"] exI [of _ L']) simp
qed

lemma off_message:
  assumes ok: "timers_ok s L" "timer_address t" and r: "same_round s m n"
    and x: "xID \<in> {tmrCOMMAND_STOP, tmrCOMMAND_STOP_FROM_ISR, tmrCOMMAND_DELETE}"
  shows "\<exists>s' L'. process_message call core (Timer_Command xID v t) s = Inr s' \<and> timers_ok s' L' \<and>
    deadline s' n = (deadline s m)(t := None) \<and> called s' = called s \<and>
    freed s' = (if xID = tmrCOMMAND_DELETE then t # freed s else freed s)"
proof -
  obtain s1 L1 where s1: "timers_ok s1 L1" "pvContainer (tlists s1) (xTimerListItem t) = None" "deadline s1 n = (deadline s m)(t := None)"
    "s1 = s\<lparr>tlists := tlists s1, xLastTime := of_nat n\<rparr>"
    "\<And>f :: (u32 \<times> bool) \<times> tsys \<Rightarrow> tsys run. run_bind (if pvContainer (tlists s) (xTimerListItem t) \<noteq> None then timer_remove t s else Inr s) (\<lambda>s1.
       run_bind (prvSampleTimeNow call core s1) f) = f ((of_nat n, False), s1)"
    using command_start [OF ok r, of call core] by blast
  have f: "timer s1 = timer s" "called s1 = called s" "freed s1 = freed s" by (subst s1(4); simp)+
  note pm = process_message_def DaemonTaskMessage_t.case s1(5) prod.case
  let ?s' = "s1\<lparr>freed := if xID = tmrCOMMAND_DELETE then t # freed s1 else freed s1\<rparr>"
  have "process_message call core (Timer_Command xID v t) s = Inr ?s'" using x unfolding pm by (auto simp: timer_ids)
  moreover have "timers_ok ?s' L1" by (rule timers_ok_cong [OF s1(1)]) simp_all
  moreover have "deadline ?s' n = deadline s1 n" by (rule deadline_cong) simp_all
  ultimately show ?thesis using s1(3) f(2,3) by (intro exI [of _ ?s'] exI [of _ L1]) simp
qed

text \<open>
  C28. Commands to the timer service, with the active timers as a map from timers to times of expiry, when the
  round of the tick counter is the one of the time last seen: a start with command time \<open>c\<close> makes the timer active until
  \<open>c\<close> and its period, or, if that time is over, calls its callback (once, for a timer that does not reload); a stop
  makes it inactive; a change of the period makes it active, from now on; a deletion makes it inactive
  and gives back its memory. No other timer is touched, and no other callback called.
\<close>

theorem timer_commands_refine:
  assumes ok: "timers_ok s L" "timer_address t" and r: "same_round s m n" and q: "quiet call"
    and p: "xTimerPeriodInTicks (timer s t) = p" "p \<noteq> 0"
  shows "(c \<le> n \<and> n - c < 2 ^ 32 \<and> (uxAutoReload (timer s t) \<noteq> 1 \<or> n < c + unat p) \<longrightarrow>
      (\<forall>xID \<in> {tmrCOMMAND_START, tmrCOMMAND_RESET, tmrCOMMAND_START_FROM_ISR, tmrCOMMAND_RESET_FROM_ISR, tmrCOMMAND_START_DONT_TRACE}.
       \<exists>s' L'. process_message call core (Timer_Command xID (of_nat c) t) s = Inr s' \<and> timers_ok s' L' \<and>
         (if c + unat p \<le> n
          then deadline s' n = (deadline s m)(t := None) \<and> called s' = Timer_Callback (pxCallbackFunction (timer s t)) t # called s
          else deadline s' n = (deadline s m)(t \<mapsto> c + unat p) \<and> called s' = called s))) \<and>
    (\<forall>xID \<in> {tmrCOMMAND_STOP, tmrCOMMAND_STOP_FROM_ISR}.
       \<exists>s' L'. process_message call core (Timer_Command xID v t) s = Inr s' \<and> timers_ok s' L' \<and>
         deadline s' n = (deadline s m)(t := None) \<and> called s' = called s \<and> freed s' = freed s) \<and>
    (v \<noteq> 0 \<longrightarrow> (\<forall>xID \<in> {tmrCOMMAND_CHANGE_PERIOD, tmrCOMMAND_CHANGE_PERIOD_FROM_ISR}.
       \<exists>s' L'. process_message call core (Timer_Command xID v t) s = Inr s' \<and> timers_ok s' L' \<and>
         deadline s' n = (deadline s m)(t \<mapsto> n + unat v) \<and> called s' = called s \<and> xTimerPeriodInTicks (timer s' t) = v)) \<and>
    (\<exists>s' L'. process_message call core (Timer_Command tmrCOMMAND_DELETE v t) s = Inr s' \<and> timers_ok s' L' \<and>
         deadline s' n = (deadline s m)(t := None) \<and> called s' = called s \<and> freed s' = t # freed s)"
  using start_message [OF ok r q p] off_message [OF ok r] change_message [OF ok r]
  by (intro conjI impI ballI) (fastforce simp: timer_ids)+

section \<open>The service task between commands\<close>

text \<open>The timer at the head of the current list is the next one to expire.\<close>

lemma next_timer [consumes 1, case_names empty head]:
  assumes ok: "timers_ok s L"
  obtains (empty) "L (pxCurrentTimerList s) = Some []" "prvGetNextExpireTime s = (0, True)"
      "\<And>u d. deadline s T u = Some d \<Longrightarrow> round_start T + 2 ^ 32 \<le> d"
    | (head) u xs d where "L (pxCurrentTimerList s) = Some (xTimerListItem u # xs)" "prvGetNextExpireTime s = (of_nat d, False)"
      "listGET_OWNER_OF_HEAD_ENTRY (pxCurrentTimerList s) (tlists s) = u" "pvContainer (tlists s) (xTimerListItem u) = Some (pxCurrentTimerList s)"
      "deadline s T u = Some d" "round_start T \<le> d" "d < round_start T + 2 ^ 32" "\<And>v d'. deadline s T v = Some d' \<Longrightarrow> d \<le> d'"
      "xItemValue (tlists s) (xTimerListItem u) = of_nat d"
proof -
  let ?c = "pxCurrentTimerList s"
  obtain xs where xs: "L ?c = Some xs" using timers_okD(3) [OF ok] by blast
  note h = kernel_listsD [OF timers_okD(1) [OF ok] xs]
  have le: "unat w < 2 ^ 32" for w :: u32 using unsigned_less [of w] by simp
  show ?thesis
  proof (cases xs)
    case Nil
    have "prvGetNextExpireTime s = (0, True)" using holds_list_empty [OF h] Nil by (simp add: prvGetNextExpireTime_def)
    moreover have "round_start T + 2 ^ 32 \<le> d" if "deadline s T u = Some d" for u d
      using that holds_listD(4) [OF h] Nil by (auto simp: deadline_def)
    ultimately show ?thesis using empty xs Nil by blast
  next
    case (Cons x ys)
    have c: "pvContainer (tlists s) x = Some ?c" using holds_listD(4) [OF h, of x] Cons by simp
    then obtain u where u: "x = xTimerListItem u" using timers_okD(8) [OF ok] by blast
    let ?v = "xItemValue (tlists s) x"
    define d where "d = round_start T + unat ?v"
    have nx: "listGET_OWNER_OF_HEAD_ENTRY ?c (tlists s) = u" "listGET_ITEM_VALUE_OF_HEAD_ENTRY ?c (tlists s) = ?v"
      using holds_list_head [OF h [unfolded Cons]] timers_okD(9) [OF ok c [unfolded u]] u
      by (auto simp: listGET_ITEM_VALUE_OF_HEAD_ENTRY_def listGET_HEAD_ENTRY_def)
    have v: "of_nat d = ?v" by (simp add: d_def round_start_def word_of_nat_eq_0_iff flip: of_nat_mult)
    have least: "d \<le> d'" if "deadline s T w = Some d'" for w d'
    proof (cases "pvContainer (tlists s) (xTimerListItem w) = Some ?c")
      case True
      then have "xTimerListItem w \<in> set xs" using holds_listD(4) [OF h] by blast
      then have "?v \<le> xItemValue (tlists s) (xTimerListItem w)" using timers_okD(10) [OF ok xs] Cons by auto
      then show ?thesis using that True by (auto simp: d_def deadline_def word_le_nat_alt)
    next
      case False
      then show ?thesis using that le [of ?v] by (auto simp: d_def deadline_def split: if_splits)
    qed
    show ?thesis
    proof (rule head)
      show "L ?c = Some (xTimerListItem u # ys)" using xs Cons u by simp
      show "prvGetNextExpireTime s = (of_nat d, False)"
        using holds_list_empty [OF h] Cons nx(2) unfolding v by (simp add: prvGetNextExpireTime_def)
      show "pvContainer (tlists s) (xTimerListItem u) = Some ?c" "deadline s T u = Some d" using c u by (simp_all add: d_def deadline_def)
      show "round_start T \<le> d" "d < round_start T + 2 ^ 32" using le [of ?v] by (simp_all add: d_def)
      show "xItemValue (tlists s) (xTimerListItem u) = of_nat d" unfolding v u ..
    qed (fact nx(1), fact least)
  qed
qed

lemma resume_idle:
  assumes "kernel_ok k K" "K (xPendingReadyList core) = Some []" "uxPendedTicks k = 0" "uxSchedulerSuspended k core = 1"
  shows "\<exists>b. xTaskResumeAll core k = Inr (b, k\<lparr>uxSchedulerSuspended := (uxSchedulerSuspended k)(core := 0)\<rparr>)"
proof -
  let ?k1 = "k\<lparr>uxSchedulerSuspended := (uxSchedulerSuspended k)(core := 0)\<rparr>"
  have "kernel_ok ?k1 K" using assms(1) by (simp add: kernel_ok_def fits_on_def)
  then have "pending_loop core ?k1 = Some (Inr ?k1)" using pending_loop_empty assms(2) by blast
  moreover have "pended_loop core ?k1 = Some (Inr ?k1)" using assms(3) by (subst pended_loop.simps) simp
  ultimately show ?thesis using assms(4) by (auto simp: xTaskResumeAll_def or_blocks_def Let_def)
qed

lemma restricted_wait:
  assumes ok: "kernel_ok k K" "timed k K" and r: "running k core t" and w: "0 < w" and e: "e \<in> initialised k"
    and p: "K (xPendingReadyList c) = Some []"
  shows "\<exists>k' K'. vTaskPlaceOnEventListRestricted core (event_list e) w k = Inr k' \<and> kernel_ok k' K' \<and> timed k' K' \<and>
    sleeping k' t \<and> remaining k' t = w \<and> waits k' t (event_list e) \<and> K' (xPendingReadyList c) = Some [] \<and>
    uxPendedTicks k' = uxPendedTicks k \<and> uxSchedulerSuspended k' = uxSchedulerSuspended k"
proof -
  let ?x = "xEventListItem t"
  have t: "t = pxCurrentTCB k core" "pvContainer (lists k) (xGenericListItem t) = Some (pxReadyTasksLists (uxPriority k t))"
    "pvContainer (lists k) ?x = None" using r unfolding running_def by blast+
  obtain es where es: "K (event_list e) = Some es" using kernel_okD(9) [OF ok(1) e] by blast
  have "task_address t" using kernel_okD(4) [OF ok(1) t(2)] by (auto simp: fits_on_def)
  then have "fits_on ?x (event_list e)" by (auto simp: fits_on_def)
  then obtain es' where i: "kernel_ok (k\<lparr>lists := vListInsertEnd (event_list e) ?x (lists k)\<rparr>) (K(event_list e \<mapsto> es'))"
    "pvContainer (vListInsertEnd (event_list e) ?x (lists k)) = (pvContainer (lists k))(?x := Some (event_list e))"
    "xItemValue (vListInsertEnd (event_list e) ?x (lists k)) = xItemValue (lists k)"
    using list_insert_end_ok [OF ok(1) t(3) _ es] by blast
  let ?k1 = "k\<lparr>lists := vListInsertEnd (event_list e) ?x (lists k)\<rparr>"
  have "timed ?k1 (K(event_list e \<mapsto> es'))"
    using ok kernel_okD(8) [OF ok(1)] i(3) by (intro timed_other [where k = k and L = K]) (auto simp: same_but_lists_def)
  moreover have "pvContainer (lists ?k1) (xGenericListItem t) = Some (pxReadyTasksLists (uxPriority k t))" using i(2) t(2) by simp
  moreover have "t = pxCurrentTCB ?k1 core" using t(1) by simp
  ultimately obtain m k' K' where k': "list_remove (xGenericListItem t) ?k1 = Inr (?k1\<lparr>lists := m\<rparr>)"
    "prvAddCurrentTaskToDelayedList core (xTickCount ?k1 + w) (?k1\<lparr>lists := m\<rparr>) = Inr k'"
    "kernel_ok k' K'" "timed k' K'" "sleeping k' t" "remaining k' t = w"
    "\<forall>y. y \<noteq> xGenericListItem t \<longrightarrow> pvContainer (lists k') y = pvContainer (lists ?k1) y" "same_but_time ?k1 k'" "xTickCount k' = xTickCount ?k1"
    using fall_asleep [OF i(1) _ _ _ w] by blast
  have "vTaskPlaceOnEventListRestricted core (event_list e) w k = Inr k'"
    using k'(1,2) t(1) by (simp add: vTaskPlaceOnEventListRestricted_def Let_def)
  moreover have "waits k' t (event_list e)" using k'(7) i(2) by (simp add: waits_def)
  moreover have "xPendingReadyList c \<in> dom K'"
    using k'(3) i(1) same_but_timeD(8) [OF k'(8)] p by (auto simp: kernel_ok_def)
  then obtain ps where ps: "K' (xPendingReadyList c) = Some ps" by blast
  have "ps = []"
  proof (rule ccontr)
    assume "ps \<noteq> []"
    then have c: "pvContainer (lists k') (hd ps) = Some (xPendingReadyList c)"
      using holds_listD(4) [OF kernel_listsD [OF kernel_okD(1) [OF k'(3)] ps]] by simp
    moreover have "pvContainer (lists k) (hd ps) \<noteq> Some (xPendingReadyList c)"
      using holds_listD(4) [OF kernel_listsD [OF kernel_okD(1) [OF ok(1)] p]] by simp
    ultimately have "hd ps = xGenericListItem t" using spec [OF k'(7), of "hd ps"] i(2) by (auto split: if_splits)
    then show False using kernel_okD(4) [OF k'(3) c] by (auto simp: fits_on_def)
  qed
  ultimately show ?thesis using k'(3-6) same_but_timeD(5,7) [OF k'(8)] ps by auto
qed

text \<open>The kernel as the service task finds it: it runs on core \<open>core\<close>, and nothing is pending there.\<close>

definition service_runs :: "tsys \<Rightarrow> nat \<Rightarrow> nat \<Rightarrow> bool" where
  "service_runs s core t \<longleftrightarrow> (\<exists>K. kernel_ok (kern (qs s)) K \<and> timed (kern (qs s)) K \<and> K (xPendingReadyList core) = Some []) \<and>
     running (kern (qs s)) core t \<and> uxSchedulerSuspended (kern (qs s)) core = 0 \<and> uxPendedTicks (kern (qs s)) = 0"

lemma suspend_fields:
  "kernel_ok k K \<Longrightarrow> kernel_ok (vTaskSuspendAll core k) K" "timed k K \<Longrightarrow> timed (vTaskSuspendAll core k) K"
  "running (vTaskSuspendAll core k) c t = running k c t"
  "initialised (vTaskSuspendAll core k) = initialised k" "uxPendedTicks (vTaskSuspendAll core k) = uxPendedTicks k"
  "xTickCount (vTaskSuspendAll core k) = xTickCount k" "uxSchedulerSuspended (vTaskSuspendAll core k) core = uxSchedulerSuspended k core + 1"
  by (simp_all add: vTaskSuspendAll_def kernel_ok_def fits_on_def timed_def running_def)

lemma of_nat_round [simp]: "of_nat (round_start T) = (0 :: u32)"
  by (simp add: round_start_def word_of_nat_eq_0_iff flip: of_nat_mult)

lemma mod_in_round:
  assumes "round_start m \<le> k" "k < round_start m + 2 ^ 32"
  shows "k mod 2 ^ 32 = k - round_start m"
proof -
  define j where "j = k - round_start m"
  have k: "k = m div 2 ^ 32 * 2 ^ 32 + j" and j: "j < 2 ^ 32" using assms by (simp_all add: j_def round_start_def)
  have "k mod 2 ^ 32 = j" unfolding k using near_multiple(1) [of j "2 ^ 32" "m div 2 ^ 32"] j by simp
  then show ?thesis by (simp add: j_def)
qed

lemma next_wait:
  assumes ok: "timers_ok s L" and r: "same_round s m n"
    and e: "\<And>u d. deadline s m u = Some d \<Longrightarrow> e \<le> d" "e = round_start n + 2 ^ 32 \<or> (\<exists>u. deadline s m u = Some e) \<and> e < round_start n + 2 ^ 32" "n < e"
  shows "fst (prvGetNextExpireTime s) = of_nat e \<and> (snd (prvGetNextExpireTime s) \<or> \<not> (of_nat e :: u32) \<le> of_nat n)"
  using ok
proof (cases rule: next_timer [where T = m])
  case empty
  have rs: "round_start n = round_start m" using r by (simp add: same_round_def)
  have "e = round_start n + 2 ^ 32"
  proof (rule ccontr)
    assume "e \<noteq> round_start n + 2 ^ 32"
    then obtain u where "deadline s m u = Some e" "e < round_start n + 2 ^ 32" using e(2) by blast
    then show False using empty(3) [of u e] rs by simp
  qed
  then have "of_nat e = (0 :: u32)" by (simp add: word_of_nat_eq_0_iff [of "2 ^ 32"])
  then show ?thesis using empty(2) by simp
next
  case (head u xs d)
  have rs: "round_start n = round_start m" using r by (simp add: same_round_def)
  have "e < round_start m + 2 ^ 32" using e(1) [OF head(5)] head(7) by simp
  then obtain v where "deadline s m v = Some e" using e(2) rs by auto
  then have d: "d = e" using head(8) [of v e] e(1) [OF head(5)] by simp
  have "round_start n \<le> n" by (simp add: round_start_def)
  then have "n mod 2 ^ 32 = n - round_start m" "e mod 2 ^ 32 = e - round_start m" "round_start m \<le> n"
    using mod_in_round [of m n] mod_in_round [of m e] head(6,7) d rs e(3) by simp_all
  then have "n mod 2 ^ 32 < e mod 2 ^ 32" using e(3) by simp
  then have "\<not> (of_nat e :: u32) \<le> of_nat n" by (simp add: word_le_nat_alt unat_of_nat)
  then show ?thesis using head(2) d by simp
qed


lemma process_expired:
  assumes ok: "timers_ok s L" and q: "quiet call" and n: "round_start n = round_start m" "e \<le> n"
    and u: "listGET_OWNER_OF_HEAD_ENTRY (pxCurrentTimerList s) (tlists s) = u" "pvContainer (tlists s) (xTimerListItem u) \<noteq> None"
      "deadline s m u = Some e" "round_start m \<le> e"
    and p: "xTimerPeriodInTicks (timer s u) \<noteq> 0" "uxAutoReload (timer s u) \<noteq> 1 \<or> n < e + unat (xTimerPeriodInTicks (timer s u))"
  shows "\<exists>s' L'. prvProcessExpiredTimer call core (of_nat e) (of_nat n) s = Inr s' \<and> timers_ok s' L' \<and>
    called s' = Timer_Callback (pxCallbackFunction (timer s u)) u # called s \<and>
    deadline s' n = (deadline s m)(u := if uxAutoReload (timer s u) = 1 then Some (e + unat (xTimerPeriodInTicks (timer s u))) else None)"
proof -
  let ?p = "xTimerPeriodInTicks (timer s u)"
  obtain tl L1 where o: "timer_remove u s = Inr (s\<lparr>tlists := tl\<rparr>)" "timers_ok (s\<lparr>tlists := tl\<rparr>) L1" "pvContainer tl (xTimerListItem u) = None"
    "deadline (s\<lparr>tlists := tl\<rparr>) n = (deadline s n)(u := None)" using timer_off [OF ok, of u n] u(2) by auto
  have d: "deadline s n = deadline s m" using n(1) by (intro deadline_cong) simp_all
  have a: "timer_address u" using u(2) timers_okD(8) [OF ok, of "xTimerListItem u"] by auto
  have "n < round_start n + 2 ^ 32" unfolding round_start_def by (metis add.commute dividend_less_div_times zero_less_numeral zero_less_power)
  then have t: "n - e < 2 ^ 32" using u(4) n by simp
  obtain tl' L2 where i: "prvInsertTimerInActiveList u (of_nat e + ?p) (of_nat n) (of_nat e) (s\<lparr>tlists := tl\<rparr>) = Inr (e + unat ?p \<le> n, s\<lparr>tlists := tl'\<rparr>)"
    "timers_ok (s\<lparr>tlists := tl'\<rparr>) L2"
    "deadline (s\<lparr>tlists := tl'\<rparr>) n = (if e + unat ?p \<le> n then deadline (s\<lparr>tlists := tl\<rparr>) n else (deadline (s\<lparr>tlists := tl\<rparr>) n)(u \<mapsto> e + unat ?p))"
    using insert_timer_ok [OF o(2) _ a _ p(1) n(2) t] o(3) by auto
  define l where "l = (if uxAutoReload (timer s u) = 1 then tl' else tl)"
  let ?s3 = "s\<lparr>tlists := l\<rparr>" let ?c = "timer_callback u ?s3"
  obtain qq where call: "call ?c (?s3\<lparr>called := ?c # called ?s3\<rparr>) = Inr (?s3\<lparr>called := ?c # called ?s3, qs := qq\<rparr>)"
    using q unfolding quiet_def by blast
  let ?s' = "?s3\<lparr>called := ?c # called ?s3, qs := qq\<rparr>"
  have "prvProcessExpiredTimer call core (of_nat e) (of_nat n) s = Inr ?s'"
  proof (cases "uxAutoReload (timer s u) = 1")
    case True
    then have "l = tl'" "\<not> e + unat ?p \<le> n" using p(2) by (simp_all add: l_def)
    then show ?thesis using o(1) i(1) call u(1) True by (simp add: prvProcessExpiredTimer_def run_callback_def Let_def)
  next
    case False
    then have "l = tl" by (simp add: l_def)
    then show ?thesis using o(1) call u(1) False by (simp add: prvProcessExpiredTimer_def run_callback_def Let_def)
  qed
  moreover have "timers_ok ?s3 (if uxAutoReload (timer s u) = 1 then L2 else L1)"
    using o(2) i(2) unfolding l_def by presburger
  then have "timers_ok ?s' (if uxAutoReload (timer s u) = 1 then L2 else L1)" by (rule timers_ok_cong) simp_all
  moreover have "deadline ?s' n = deadline ?s3 n" by (intro deadline_cong) simp_all
  moreover have "deadline ?s3 n = (deadline s m)(u := if uxAutoReload (timer s u) = 1 then Some (e + unat ?p) else None)"
    using o(4) i(3) d p(2) by (cases "uxAutoReload (timer s u) = 1") (simp_all add: l_def)
  ultimately show ?thesis by (intro exI [of _ ?s'] exI [of _ "if uxAutoReload (timer s u) = 1 then L2 else L1"]) (simp add: timer_callback_def)
qed

text \<open>
  C10. If the earliest time of expiry \<open>e\<close> has come, the timer service calls the callback of one timer that expires then: a
  one-shot timer becomes inactive, and one that reloads gets its next time of expiry from \<open>e\<close>, not from the time
  now, so that late service does not shift it (as long as the service is less than a period late).
\<close>

theorem timer_service_expires_next:
  assumes ok: "timers_ok s L" and r: "same_round s m n" and k: "service_runs s core t" and q: "quiet call"
    and e: "\<And>u d. deadline s m u = Some d \<Longrightarrow> e \<le> d" "\<exists>u. deadline s m u = Some e" "e \<le> n"
    and p: "\<And>u. deadline s m u = Some e \<Longrightarrow> xTimerPeriodInTicks (timer s u) \<noteq> 0 \<and>
      (uxAutoReload (timer s u) \<noteq> 1 \<or> n < e + unat (xTimerPeriodInTicks (timer s u)))"
  shows "\<exists>u s' L'. deadline s m u = Some e \<and> timers_ok s' L' \<and>
    prvProcessTimerOrBlockTask call core (fst (prvGetNextExpireTime s)) (snd (prvGetNextExpireTime s)) s = Inr (False, s') \<and>
    called s' = Timer_Callback (pxCallbackFunction (timer s u)) u # called s \<and>
    deadline s' n = (deadline s m)(u := if uxAutoReload (timer s u) = 1 then Some (e + unat (xTimerPeriodInTicks (timer s u))) else None)"
proof -
  have rs: "round_start n = round_start m" using r by (simp add: same_round_def)
  have n: "n < round_start n + 2 ^ 32" unfolding round_start_def by (metis add.commute dividend_less_div_times zero_less_numeral zero_less_power)
  let ?k0 = "vTaskSuspendAll core (kern (qs s))"
  let ?s0 = "s\<lparr>qs := (qs s)\<lparr>kern := ?k0\<rparr>\<rparr>"
  have "same_round ?s0 m n" using r by (simp add: same_round_def suspend_fields)
  note smp = sample_same_round [OF this, of call core]
  obtain K where K: "kernel_ok (kern (qs s)) K" "K (xPendingReadyList core) = Some []"
    and run: "uxSchedulerSuspended (kern (qs s)) core = 0" "uxPendedTicks (kern (qs s)) = 0"
    using k unfolding service_runs_def by blast
  have "uxPendedTicks ?k0 = 0" "uxSchedulerSuspended ?k0 core = 1" using run by (simp_all add: suspend_fields)
  then obtain b where b: "xTaskResumeAll core ?k0 = Inr (b, ?k0\<lparr>uxSchedulerSuspended := (uxSchedulerSuspended ?k0)(core := 0)\<rparr>)"
    using resume_idle [OF suspend_fields(1) [OF K(1)] K(2)] by blast
  define s1 where "s1 = s\<lparr>xLastTime := of_nat n, qs := (qs s)\<lparr>kern := ?k0\<lparr>uxSchedulerSuspended := (uxSchedulerSuspended ?k0)(core := 0)\<rparr>\<rparr>\<rparr>"
  have s1: "timers_ok s1 L" "deadline s1 m = deadline s m" "timer s1 = timer s" "called s1 = called s" "tlists s1 = tlists s" "pxCurrentTimerList s1 = pxCurrentTimerList s"
    by (auto intro: timers_ok_cong [OF ok] deadline_cong simp: s1_def)
  show ?thesis
    using ok
  proof (cases rule: next_timer [where T = m])
    case empty
    then show ?thesis using e(2,3) n rs by fastforce
  next
    case (head u xs d)
    obtain v where "deadline s m v = Some e" using e(2) by blast
    then have d: "d = e" using head(8) [of v e] e(1) [OF head(5)] by simp
    have "e mod 2 ^ 32 = e - round_start m" "n mod 2 ^ 32 = n - round_start m"
      using mod_in_round [of m e] mod_in_round [of m n] head(6,7) d e(3) n rs by simp_all
    then have le: "(of_nat e :: u32) \<le> of_nat n" using e(3) by (simp add: word_le_nat_alt unat_of_nat)
    obtain s' L' where s': "prvProcessExpiredTimer call core (of_nat e) (of_nat n) s1 = Inr s'" "timers_ok s' L'"
      "called s' = Timer_Callback (pxCallbackFunction (timer s u)) u # called s"
      "deadline s' n = (deadline s m)(u := if uxAutoReload (timer s u) = 1 then Some (e + unat (xTimerPeriodInTicks (timer s u))) else None)"
      using process_expired [OF s1(1) q rs e(3), of u core] head d p [of u] unfolding s1(2-6) by auto
    have "prvProcessTimerOrBlockTask call core (fst (prvGetNextExpireTime s)) (snd (prvGetNextExpireTime s)) s = Inr (False, s')"
      using smp b head(2) d le s'(1) by (simp add: prvProcessTimerOrBlockTask_def Let_def s1_def)
    then show ?thesis using s'(2-4) head(5) d by blast
  qed
qed

section \<open>The change of the lists\<close>

lemma restart_frame: "restart_timer core t v s = Inr s' \<Longrightarrow> \<exists>q. s' = s\<lparr>qs := q\<rparr>"
proof -
  assume r: "restart_timer core t v s = Inr s'"
  then obtain x y s1 where x: "xTimerGenericCommand core t tmrCOMMAND_START_DONT_TRACE v 0 [Inr] s = Inr ((x, y), s1)" "x" "s' = s1"
    by (auto simp: restart_timer_def run_bind_Inr_iff split: if_splits)
  then show ?thesis
    by (auto simp: xTimerGenericCommand_def post_message_def run_bind_Inr_iff Let_def split: option.splits if_splits)
qed

text \<open>One round of the loop, for a timer that does not reload and for one that does.\<close>

lemma expire_head_ok:
  assumes ok: "timers_ok s L" and u: "L (pxCurrentTimerList s) = Some (xTimerListItem u # xs)" and q: "quiet call"
  defines "v \<equiv> xItemValue (tlists s) (xTimerListItem u)" and "p \<equiv> xTimerPeriodInTicks (timer s u)"
  obtains m qq where "timers_ok (s\<lparr>tlists := m\<rparr>) (L(pxCurrentTimerList s \<mapsto> xs))"
      "pvContainer m = (pvContainer (tlists s))(xTimerListItem u := None)" "xItemValue m = xItemValue (tlists s)"
      "expire_head call core s =
        (let s2 = s\<lparr>tlists := m, called := timer_callback u s # called s, qs := qq\<rparr> in
         if uxAutoReload (timer s u) \<noteq> 1 then Inr s2
         else if v + p > v then timer_insert (pxCurrentTimerList s) u (set_item u (v + p) s2)
         else restart_timer core u v s2)"
proof -
  let ?c = "pxCurrentTimerList s" and ?x = "xTimerListItem u"
  note h = kernel_listsD [OF timers_okD(1) [OF ok] u]
  have cx: "pvContainer (tlists s) ?x = Some ?c" using holds_listD(4) [OF h] by simp
  have hd: "listGET_OWNER_OF_HEAD_ENTRY ?c (tlists s) = u" "listGET_ITEM_VALUE_OF_HEAD_ENTRY ?c (tlists s) = v"
    using holds_list_head [OF h] timers_okD(9) [OF ok cx] by (auto simp: v_def listGET_ITEM_VALUE_OF_HEAD_ENTRY_def listGET_HEAD_ENTRY_def)
  obtain m where m: "timer_remove u s = Inr (s\<lparr>tlists := m\<rparr>)" "timers_ok (s\<lparr>tlists := m\<rparr>) (L(?c \<mapsto> xs))"
    "pvContainer m = (pvContainer (tlists s))(?x := None)" "xItemValue m = xItemValue (tlists s)"
    using timer_remove_ok [OF ok cx u] by auto
  let ?s1 = "s\<lparr>tlists := m\<rparr>" let ?cb = "timer_callback u s"
  obtain qq where "call ?cb (?s1\<lparr>called := ?cb # called ?s1\<rparr>) = Inr (?s1\<lparr>called := ?cb # called ?s1, qs := qq\<rparr>)"
    using q unfolding quiet_def by blast
  moreover have "timer_callback u ?s1 = ?cb" by (simp add: timer_callback_def)
  ultimately have "expire_head call core s =
      (let s2 = s\<lparr>tlists := m, called := ?cb # called s, qs := qq\<rparr> in
       if uxAutoReload (timer s u) \<noteq> 1 then Inr s2
       else if v + p > v then timer_insert ?c u (set_item u (v + p) s2) else restart_timer core u v s2)"
    using hd m(1) by (simp add: expire_head_def run_callback_def p_def Let_def)
  then show ?thesis using that [OF m(2-4)] by blast
qed

lemma current_not_empty:
  assumes "timers_ok s L" "L (pxCurrentTimerList s) = Some xs"
  shows "listLIST_IS_EMPTY (pxCurrentTimerList s) (tlists s) \<longleftrightarrow> xs = []" "x \<in> set xs \<Longrightarrow> \<exists>u. x = xTimerListItem u"
  using holds_list_empty [OF kernel_listsD [OF timers_okD(1) [OF assms(1)] assms(2)]]
    holds_listD(4) [OF kernel_listsD [OF timers_okD(1) [OF assms(1)] assms(2)]] timers_okD(8) [OF assms(1)] by blast+

lemma sum_list_place_by: "sum_list (map g (place_by f x xs)) = (g x + sum_list (map g xs) :: nat)"
proof -
  have "sum_list (map g xs) = sum_list (map g (takeWhile P xs)) + sum_list (map g (dropWhile P xs))" for P
    by (metis map_append sum_list_append takeWhile_dropWhile_id)
  then show ?thesis by (simp add: place_by_def)
qed

text \<open>
  The loop that empties the list of the past round ends, whatever timers are on it: a timer that reloads
  goes back to the list with a later time of expiry, until its next one is in the new round.
\<close>

theorem timer_list_switch_ends:
  assumes "timers_ok s L" "quiet call" "\<And>u. xTimerPeriodInTicks (timer s u) \<noteq> 0"
  shows "\<exists>r. expire_loop call core s = Some r"
proof -
  let ?f = "\<lambda>s x. 2 ^ 32 - unat (xItemValue (tlists s) x)"
  have le: "unat w < 2 ^ 32" for w :: u32 using unsigned_less [of w] by simp
  have "\<exists>r. expire_loop call core s = Some r"
    if "timers_ok s L" "L (pxCurrentTimerList s) = Some xs" "\<And>u. xTimerPeriodInTicks (timer s u) \<noteq> 0" "sum_list (map (?f s) xs) = k" for k s L xs
    using that
  proof (induction k arbitrary: s L xs rule: less_induct)
    case (less k)
    note ok = less.prems(1) and xs = less.prems(2) and per = less.prems(3)
    let ?c = "pxCurrentTimerList s"
    show ?case
    proof (cases xs)
      case Nil
      then show ?thesis using current_not_empty(1) [OF ok xs] by (subst expire_loop.simps) simp
    next
      case (Cons x ys)
      then obtain u where u: "x = xTimerListItem u" using current_not_empty(2) [OF ok xs] by auto
      let ?v = "xItemValue (tlists s) x" and ?p = "xTimerPeriodInTicks (timer s u)"
      obtain m qq where m: "timers_ok (s\<lparr>tlists := m\<rparr>) (L(?c \<mapsto> ys))" "pvContainer m = (pvContainer (tlists s))(x := None)"
        "xItemValue m = xItemValue (tlists s)"
        and eh: "expire_head call core s =
          (let s2 = s\<lparr>tlists := m, called := timer_callback u s # called s, qs := qq\<rparr> in
           if uxAutoReload (timer s u) \<noteq> 1 then Inr s2
           else if ?v + ?p > ?v then timer_insert ?c u (set_item u (?v + ?p) s2) else restart_timer core u ?v s2)"
        using expire_head_ok [OF ok _ assms(2), of u ys core] xs Cons u by auto
      let ?s2 = "s\<lparr>tlists := m, called := timer_callback u s # called s, qs := qq\<rparr>"
      have ok2: "timers_ok ?s2 (L(?c \<mapsto> ys))" by (rule timers_ok_cong [OF m(1)]) simp_all
      have off: "\<exists>r. expire_loop call core s' = Some r" if "s' = ?s2\<lparr>qs := q\<rparr>" for s' q
      proof (rule less.IH)
        show "timers_ok s' (L(?c \<mapsto> ys))" by (rule timers_ok_cong [OF ok2]) (simp_all add: that)
        show "sum_list (map (?f s') ys) < k" using less.prems(4) Cons m(3) le [of ?v] by (simp add: that)
      qed (use per in \<open>simp_all add: that\<close>)
      have again: "\<exists>r. expire_loop call core s' = Some r" if "timer_insert ?c u (set_item u (?v + ?p) ?s2) = Inr s'" "?v + ?p > ?v" for s'
      proof -
        note s' = that(1) and v = that(2)
        let ?s3 = "set_item u (?v + ?p) ?s2"
        have n: "pvContainer (tlists ?s2) (xTimerListItem u) = None" using m(2) u by simp
        have "x \<in> set xs" using Cons by simp
        then have "pvContainer (tlists s) x = Some ?c" using holds_listD(4) [OF kernel_listsD [OF timers_okD(1) [OF ok] xs]] by blast
        then have a: "timer_address u" using timers_okD(8) [OF ok, of x] u by auto
        have ys: "x \<notin> set ys" using holds_listD(2) [OF kernel_listsD [OF timers_okD(1) [OF ok] xs]] Cons by simp
        obtain m' where i: "timer_insert ?c u ?s3 = Inr (?s3\<lparr>tlists := m'\<rparr>)"
          "timers_ok (?s3\<lparr>tlists := m'\<rparr>) (L(?c \<mapsto> place_by (xItemValue (tlists ?s3)) x ys))" "xItemValue m' = xItemValue (tlists ?s3)"
          using timer_insert_ok [OF set_item_ok [OF ok2 n, of "?v + ?p"], of ?c ys u] n a u by auto
        then have m': "s' = ?s3\<lparr>tlists := m'\<rparr>" using s' by simp
        note m' = m' i(2) [folded m'] i(3)
        show ?thesis
        proof (rule less.IH [OF _ m'(2)])
          have "sum_list (map (?f s') ys) = sum_list (map (?f s) ys)"
            using ys u m(3) m'(1,3) by (intro arg_cong [where f = sum_list] map_cong) auto
          moreover have "?f s' x = 2 ^ 32 - unat (?v + ?p)" using m'(1,3) u by simp
          ultimately show "sum_list (map (?f s') (place_by (xItemValue (tlists ?s3)) x ys)) < k"
            using less.prems(4) Cons v le [of "?v + ?p"] unfolding sum_list_place_by word_less_nat_alt by simp
        qed (use per m'(1) in \<open>simp_all\<close>)
      qed
      show ?thesis
      proof (cases "expire_head call core s")
        case (Inl e)
        then show ?thesis using current_not_empty(1) [OF ok xs] Cons by (subst expire_loop.simps) simp
      next
        case (Inr s')
        then have "\<exists>r. expire_loop call core s' = Some r"
          using eh off [of ?s2 qq] off [of s'] again [of s'] restart_frame [of core u ?v ?s2 s'] by (auto simp: Let_def split: if_splits)
        then show ?thesis using Inr current_not_empty(1) [OF ok xs] Cons by (subst expire_loop.simps) simp
      qed
    qed
  qed
  then show ?thesis using assms timers_okD(3) [OF assms(1)] by blast
qed

text \<open>For timers that do not reload, the loop calls each callback, in the order of the list.\<close>

lemma expire_all:
  assumes "timers_ok s L" "L (pxCurrentTimerList s) = Some (map xTimerListItem us)" "quiet call" "\<And>u. u \<in> set us \<Longrightarrow> uxAutoReload (timer s u) \<noteq> 1"
  shows "\<exists>m qq. expire_loop call core s = Some (Inr (s\<lparr>tlists := m, called := rev (map (\<lambda>u. timer_callback u s) us) @ called s, qs := qq\<rparr>)) \<and>
    timers_ok (s\<lparr>tlists := m\<rparr>) (L(pxCurrentTimerList s \<mapsto> [])) \<and>
    pvContainer m = (\<lambda>x. if x \<in> xTimerListItem ` set us then None else pvContainer (tlists s) x) \<and> xItemValue m = xItemValue (tlists s)"
  using assms(1,2,4)
proof (induction us arbitrary: s L)
  case Nil
  have "expire_loop call core s = Some (Inr s)" using current_not_empty(1) [OF Nil(1,2)] by (subst expire_loop.simps) simp
  then show ?case using Nil(1,2) by (intro exI [of _ "tlists s"] exI [of _ "qs s"]) (simp add: fun_upd_idem)
next
  case (Cons u us)
  let ?c = "pxCurrentTimerList s"
  obtain m qq where m: "timers_ok (s\<lparr>tlists := m\<rparr>) (L(?c \<mapsto> map xTimerListItem us))" "pvContainer m = (pvContainer (tlists s))(xTimerListItem u := None)"
    "xItemValue m = xItemValue (tlists s)" "expire_head call core s = Inr (s\<lparr>tlists := m, called := timer_callback u s # called s, qs := qq\<rparr>)"
    using expire_head_ok [OF Cons.prems(1) _ assms(3), of u "map xTimerListItem us" core] Cons.prems(2,3) by (auto simp: Let_def)
  define s1 where "s1 = s\<lparr>tlists := m, called := timer_callback u s # called s, qs := qq\<rparr>"
  have f: "pxCurrentTimerList s1 = ?c" "timer s1 = timer s" "tlists s1 = m" "called s1 = timer_callback u s # called s"
    "\<And>w. timer_callback w s1 = timer_callback w s" by (simp_all add: s1_def timer_callback_def)
  have ok1: "timers_ok s1 (L(?c \<mapsto> map xTimerListItem us))" by (rule timers_ok_cong [OF m(1)]) (simp_all add: s1_def)
  have nr: "\<And>w. w \<in> set us \<Longrightarrow> uxAutoReload (timer s w) \<noteq> 1" using Cons.prems(3) by simp
  obtain m' qq' where m': "expire_loop call core s1 = Some (Inr (s1\<lparr>tlists := m', called := rev (map (\<lambda>u. timer_callback u s) us) @ timer_callback u s # called s, qs := qq'\<rparr>))"
    "timers_ok (s1\<lparr>tlists := m'\<rparr>) (L(?c \<mapsto> []))"
    "pvContainer m' = (\<lambda>x. if x \<in> xTimerListItem ` set us then None else pvContainer m x)" "xItemValue m' = xItemValue m"
    using Cons.IH [of s1 "L(?c \<mapsto> map xTimerListItem us)", unfolded f fun_upd_same fun_upd_upd, OF ok1 refl nr] by blast
  have "expire_loop call core s = expire_loop call core s1"
    using current_not_empty(1) [OF Cons.prems(1,2)] m(4) by (subst expire_loop.simps) (simp add: s1_def)
  then have "expire_loop call core s = Some (Inr (s\<lparr>tlists := m', called := rev (map (\<lambda>u. timer_callback u s) (u # us)) @ called s, qs := qq'\<rparr>))"
    using m'(1) by (simp add: s1_def)
  moreover have "timers_ok (s\<lparr>tlists := m'\<rparr>) (L(?c \<mapsto> []))" by (rule timers_ok_cong [OF m'(2)]) (simp_all add: s1_def)
  moreover have "pvContainer m' = (\<lambda>x. if x \<in> xTimerListItem ` set (u # us) then None else pvContainer (tlists s) x)"
    using m'(3) m(2) by auto
  moreover have "xItemValue m' = xItemValue (tlists s)" using m'(4) m(3) by simp
  ultimately show ?case by blast
qed

lemma timers_ok_swap:
  assumes "timers_ok s L" "tlists s' = tlists s" "pxCurrentTimerList s' = pxOverflowTimerList s" "pxOverflowTimerList s' = pxCurrentTimerList s"
  shows "timers_ok s' L"
  using assms(1) unfolding timers_ok_def assms(2-4) by blast

lemma next_round:
  assumes "m \<le> n" "n - m < 2 ^ 32" "round_start n \<noteq> round_start m"
  shows "round_start n = round_start m + 2 ^ 32" "(of_nat n :: u32) < of_nat m"
proof -
  define y where "y = n - round_start m"
  have m: "round_start m \<le> m" "m < round_start m + 2 ^ 32" unfolding round_start_def
    by (simp, metis add.commute dividend_less_div_times zero_less_numeral zero_less_power)
  then have n: "n = m div 2 ^ 32 * 2 ^ 32 + y" "y < 2 * 2 ^ 32" using assms(1,2) by (simp_all add: y_def round_start_def)
  note near = near_multiple [OF n(2), of "m div 2 ^ 32", folded n(1)]
  have "round_start n = (if y < 2 ^ 32 then round_start m else round_start m + 2 ^ 32)"
    using near(2) unfolding round_start_def .
  then have y: "\<not> y < 2 ^ 32" using assms(3) by auto
  then show "round_start n = round_start m + 2 ^ 32" using near(2) unfolding round_start_def by simp
  have "n mod 2 ^ 32 = y - 2 ^ 32" "m mod 2 ^ 32 = m - round_start m" using near(1) y mod_in_round [OF m] by simp_all
  then have "n mod 2 ^ 32 < m mod 2 ^ 32" using assms(1,2) m y by (simp add: y_def)
  then show "(of_nat n :: u32) < of_nat m" by (simp add: word_less_nat_alt unat_of_nat)
qed

text \<open>
  C11. When the tick counter has wrapped since the time last seen, the service calls the callbacks of all timers
  whose time of expiry was before the wrap, each once and in the order of these times, and keeps the others
  active with their times of expiry (if none of the expired timers reloads).
\<close>

theorem timers_survive_wrap:
  assumes ok: "timers_ok s L" and q: "quiet call" and t: "xLastTime s = of_nat m" "xTickCount (kern (qs s)) = of_nat n" "m \<le> n" "n - m < 2 ^ 32"
    and w: "round_start n \<noteq> round_start m"
    and one: "\<And>u d. deadline s m u = Some d \<Longrightarrow> d < round_start n \<Longrightarrow> uxAutoReload (timer s u) \<noteq> 1"
  shows "\<exists>us s' L'. prvSampleTimeNow call core s = Inr ((of_nat n, True), s') \<and> timers_ok s' L' \<and>
    set us = {u. \<exists>d < round_start n. deadline s m u = Some d} \<and> distinct us \<and> sorted (map (\<lambda>u. the (deadline s m u)) us) \<and>
    called s' = rev (map (\<lambda>u. Timer_Callback (pxCallbackFunction (timer s u)) u) us) @ called s \<and>
    deadline s' n = (\<lambda>u. if u \<in> set us then None else deadline s m u)"
proof -
  let ?c = "pxCurrentTimerList s" and ?o = "pxOverflowTimerList s"
  note rs = next_round [OF t(3,4) w]
  obtain xs where xs: "L ?c = Some xs" using timers_okD(3) [OF ok] by blast
  note h = kernel_listsD [OF timers_okD(1) [OF ok] xs]
  have "\<forall>x \<in> set xs. \<exists>u. x = xTimerListItem u" using current_not_empty(2) [OF ok xs] by blast
  then obtain us where us: "xs = map xTimerListItem us" by (metis ex_map_conv)
  have mem: "u \<in> set us \<longleftrightarrow> pvContainer (tlists s) (xTimerListItem u) = Some ?c" for u using holds_listD(4) [OF h] us by auto
  have le: "unat v < 2 ^ 32" for v :: u32 using unsigned_less [of v] by simp
  have dl: "deadline s m u = Some (round_start m + unat (xItemValue (tlists s) (xTimerListItem u)))" if "u \<in> set us" for u
    using that mem by (simp add: deadline_def)
  have exp: "u \<in> set us \<longleftrightarrow> (\<exists>d < round_start n. deadline s m u = Some d)" for u
    using dl [of u] mem [of u] le rs(1) by (cases "u \<in> set us") (auto simp: deadline_def)
  obtain tl qq where lp: "expire_loop call core s = Some (Inr (s\<lparr>tlists := tl, called := rev (map (\<lambda>u. timer_callback u s) us) @ called s, qs := qq\<rparr>))"
    "timers_ok (s\<lparr>tlists := tl\<rparr>) (L(?c \<mapsto> []))"
    "pvContainer tl = (\<lambda>x. if x \<in> xTimerListItem ` set us then None else pvContainer (tlists s) x)" "xItemValue tl = xItemValue (tlists s)"
    using expire_all [OF ok _ q, of us core] xs us one exp by blast
  let ?s' = "s\<lparr>tlists := tl, called := rev (map (\<lambda>u. timer_callback u s) us) @ called s, qs := qq,
    pxCurrentTimerList := ?o, pxOverflowTimerList := ?c, xLastTime := of_nat n\<rparr>"
  have smp: "prvSampleTimeNow call core s = Inr ((of_nat n, True), ?s')"
    using lp(1) t(1,2) rs(2) by (simp add: prvSampleTimeNow_def prvSwitchTimerLists_def or_blocks_def Let_def)
  have ok': "timers_ok ?s' (L(?c \<mapsto> []))" by (rule timers_ok_swap [OF lp(2)]) simp_all
  have "deadline ?s' n u = (if u \<in> set us then None else deadline s m u)" for u
  proof (cases "u \<in> set us")
    case False
    then have "pvContainer tl (xTimerListItem u) = pvContainer (tlists s) (xTimerListItem u)" using lp(3) by auto
    moreover have "l = ?o" if "pvContainer (tlists s) (xTimerListItem u) = Some l" for l
      using that False mem timers_okD(6,7) [OF ok] by metis
    ultimately show ?thesis using False lp(4) rs(1) timers_okD(5) [OF ok]
      by (cases "pvContainer (tlists s) (xTimerListItem u)") (auto simp: deadline_def)
  qed (simp add: deadline_def lp(3))
  moreover have "sorted (map (\<lambda>u. the (deadline s m u)) us)"
  proof -
    have "map (\<lambda>u. the (deadline s m u)) us = map (\<lambda>v. round_start m + unat v) (map (xItemValue (tlists s)) xs)"
      using dl us by simp
    moreover have "sorted (map (\<lambda>v. round_start m + unat v) vs)" if "sorted vs" for vs :: "u32 list"
      using that by (induction vs) (auto simp: word_le_nat_alt)
    ultimately show ?thesis using timers_okD(10) [OF ok xs] by metis
  qed
  moreover have "distinct us" using holds_listD(2) [OF h] us by (simp add: distinct_map)
  ultimately show ?thesis using smp ok' exp
    by (intro exI [of _ us] exI [of _ ?s'] exI [of _ "L(?c \<mapsto> [])"]) (simp add: timer_callback_def fun_eq_iff set_eq_iff)
qed

section \<open>Late service\<close>

lemma restart_full:
  assumes "xTimerQueue s = Some h" "uxMessagesWaiting (queues (qs s) h) = uxLength (queues (qs s) h)"
  shows "restart_timer core t v s = Inl Assert_Failed"
  using assms by (simp add: restart_timer_def xTimerGenericCommand_def post_message_def send_once
      tmrCOMMAND_START_DONT_TRACE_def tmrFIRST_FROM_ISR_COMMAND_def Let_def)

text \<open>
  A timer that reloads and whose next time of expiry has also passed is restarted through the command
  queue, which the service itself has to empty: if the queue is full, the system is aborted.
\<close>

theorem late_reload_needs_queue_slot:
  assumes ok: "timers_ok s L" and n: "round_start n = round_start m"
    and u: "listGET_OWNER_OF_HEAD_ENTRY (pxCurrentTimerList s) (tlists s) = u" "deadline s m u = Some e" "round_start m \<le> e"
    and p: "uxAutoReload (timer s u) = 1" "xTimerPeriodInTicks (timer s u) \<noteq> 0" "e + unat (xTimerPeriodInTicks (timer s u)) \<le> n"
    and h: "xTimerQueue s = Some h" "uxMessagesWaiting (queues (qs s) h) = uxLength (queues (qs s) h)"
  shows "prvProcessExpiredTimer call core (of_nat e) (of_nat n) s = Inl Assert_Failed"
proof -
  let ?p = "xTimerPeriodInTicks (timer s u)"
  have c: "pvContainer (tlists s) (xTimerListItem u) \<noteq> None" using u(2) by (auto simp: deadline_def)
  obtain tl L1 where o: "timer_remove u s = Inr (s\<lparr>tlists := tl\<rparr>)" "timers_ok (s\<lparr>tlists := tl\<rparr>) L1" "pvContainer tl (xTimerListItem u) = None"
    using timer_off [OF ok, of u n] c by auto
  have a: "timer_address u" using c timers_okD(8) [OF ok, of "xTimerListItem u"] by auto
  have "n < round_start n + 2 ^ 32" unfolding round_start_def by (metis add.commute dividend_less_div_times zero_less_numeral zero_less_power)
  then have t: "e \<le> n" "n - e < 2 ^ 32" using u(3) n p(3) by simp_all
  obtain tl' where i: "prvInsertTimerInActiveList u (of_nat e + ?p) (of_nat n) (of_nat e) (s\<lparr>tlists := tl\<rparr>) = Inr (e + unat ?p \<le> n, s\<lparr>tlists := tl'\<rparr>)"
    using insert_timer_ok [OF o(2) _ a _ p(2) t] o(3) by auto
  have "restart_timer core u (of_nat e) (s\<lparr>tlists := tl'\<rparr>) = Inl Assert_Failed" using h by (intro restart_full) simp_all
  then show ?thesis using o(1) i p(1,3) u(1) by (simp add: prvProcessExpiredTimer_def Let_def)
qed

section \<open>Messages through the queue\<close>

lemma message_of_bytes:
  "0 \<le> i \<Longrightarrow> i < 2 ^ 31 \<Longrightarrow> t < 2 ^ 32 \<Longrightarrow> message_of (message_bytes (Timer_Command i v t)) = Timer_Command i v t"
  "- (2 ^ 31) \<le> i \<Longrightarrow> i < 0 \<Longrightarrow> f < 2 ^ 32 \<Longrightarrow> message_of (message_bytes (Pended_Call i f a b)) = Pended_Call i f a b"
  by (simp_all add: message_of_def signed_take_bit_int_eq_self signed_of_int unat_of_nat Let_def)

lemma message_length [simp]: "length (message_bytes m) = 16"
  by (cases m) simp_all

section \<open>A first timer\<close>

lemma timer_lists_new:
  assumes "\<And>x. pvContainer m x = None"
  shows "timers_ok (s\<lparr>tlists := vListInitialise xActiveTimerList2 (vListInitialise xActiveTimerList1 m),
      pxCurrentTimerList := xActiveTimerList1, pxOverflowTimerList := xActiveTimerList2\<rparr>)
    [xActiveTimerList1 \<mapsto> [], xActiveTimerList2 \<mapsto> []]"
proof -
  have "kernel_lists m Map.empty" by (simp add: kernel_lists_def)
  then have "kernel_lists (vListInitialise xActiveTimerList1 m) [xActiveTimerList1 \<mapsto> []]"
    using assms by (intro kernel_lists_initialise) simp_all
  then have "kernel_lists (vListInitialise xActiveTimerList2 (vListInitialise xActiveTimerList1 m))
      [xActiveTimerList1 \<mapsto> [], xActiveTimerList2 \<mapsto> []]"
    by (rule kernel_lists_initialise) (simp_all add: vListInitialise_def assms)
  then show ?thesis using assms by (auto simp: timers_ok_def vListInitialise_def)
qed

text \<open>
  The first timer: the lists and the command queue are made, and no timer is active; the queue has room for ten commands.
\<close>

lemma first_timer_created:
  assumes "xTimerQueue s = None" "\<And>x. pvContainer (tlists s) x = None" "period \<noteq> 0" "\<And>k. pvPortMalloc k = Some (replicate k 0)"
  shows "\<exists>s' L. xTimerCreate pvPortMalloc h (Some t) name period reload tid callback s = Inr (Some t, s') \<and> timers_ok s' L \<and>
    deadline s' T = Map.empty \<and> xTimerQueue s' = Some h \<and> uxLength (queues (qs s') h) = 10 \<and> queue_inv (queues (qs s') h) \<and>
    xTimerPeriodInTicks (timer s' t) = period"
proof -
  obtain q where q: "xQueueGenericCreate pvPortMalloc configTIMER_QUEUE_LENGTH 16 = Some (Some q)" "queue_inv q" "uxLength q = 10"
    using xQueueGenericCreate_new [of configTIMER_QUEUE_LENGTH 16 pvPortMalloc] assms(4) by (auto simp: configTIMER_QUEUE_LENGTH_def)
  let ?m = "vListInitialise xActiveTimerList2 (vListInitialise xActiveTimerList1 (tlists s))"
  have c: "pvContainer ?m = (\<lambda>_. None)" using assms(2) by (auto simp: vListInitialise_def)
  then have i: "vListInitialiseItem (xTimerListItem t) ?m = ?m" by (simp add: vListInitialiseItem_def)
  define s' where "s' = s\<lparr>tlists := ?m, pxCurrentTimerList := xActiveTimerList1, pxOverflowTimerList := xActiveTimerList2, xTimerQueue := Some h,
    qs := set_queue h q ((qs s)\<lparr>kern := new_event_list (2 * h + 1) (new_event_list (2 * h) (kern (qs s)))\<rparr>),
    timer := (timer s)(t := \<lparr>pcTimerName = name, xTimerPeriodInTicks = period, uxAutoReload = reload, pvTimerID = tid, pxCallbackFunction = callback\<rparr>)\<rparr>"
  have "xTimerCreate pvPortMalloc h (Some t) name period reload tid callback s = Inr (Some t, s')"
    using assms(1,3) q(1) i by (simp add: xTimerCreate_def prvCheckForValidListAndQueue_def s'_def)
  moreover have "timers_ok s' [xActiveTimerList1 \<mapsto> [], xActiveTimerList2 \<mapsto> []]"
    by (rule timers_ok_cong [OF timer_lists_new [OF assms(2), of s]]) (simp_all add: s'_def)
  moreover have "deadline s' T = Map.empty" using c by (simp add: deadline_def s'_def fun_eq_iff)
  moreover have "queues (qs s') h = q" "xTimerQueue s' = Some h" "xTimerPeriodInTicks (timer s' t) = period"
    by (simp_all add: s'_def set_queue_def)
  ultimately show ?thesis using q(2,3) by metis
qed

definition no_timers :: tsys where
  "no_timers = \<lparr>qs = two_cores,
     tlists = vListInitialise xActiveTimerList2 (vListInitialise xActiveTimerList1
       \<lparr>pxNext = (\<lambda>x. x), pxPrevious = (\<lambda>x. x), xItemValue = (\<lambda>_. 0), pvOwner = (\<lambda>x. case x of xTimerListItem t \<Rightarrow> t | _ \<Rightarrow> 0),
        pvContainer = (\<lambda>_. None), pxIndex = (\<lambda>x. x), uxNumberOfItems = (\<lambda>_. 0)\<rparr>),
     timer = (\<lambda>_. \<lparr>pcTimerName = ''timer'', xTimerPeriodInTicks = 3, uxAutoReload = 0, pvTimerID = 0, pxCallbackFunction = 7\<rparr>),
     pxCurrentTimerList = xActiveTimerList1, pxOverflowTimerList = xActiveTimerList2,
     xTimerQueue = Some 1, xLastTime = 0, called = [], freed = []\<rparr>"

lemma no_timers_ok:
  "timers_ok no_timers [xActiveTimerList1 \<mapsto> [], xActiveTimerList2 \<mapsto> []]" "deadline no_timers T = Map.empty"
  "service_runs no_timers 0 1" "xTickCount (kern (qs no_timers)) = 0xfffffffe" "3 \<in> initialised (kern (qs no_timers))"
proof -
  let ?k = "kern two_cores"
  have f: "xTickCount ?k = 0xfffffffe" "uxPendedTicks ?k = 0" "uxSchedulerSuspended ?k = (\<lambda>_. 0)" "initialised ?k = {2, 3, 7}"
    using two_tasks_ok(7)
    by (auto simp: two_cores_def new_event_list_def two_tasks_def prvAddTaskToReadyList_def prvInitialiseTaskLists_def static_kernel_def)
  have q: "qs no_timers = two_cores" by (simp add: no_timers_def)
  show "xTickCount (kern (qs no_timers)) = 0xfffffffe" "3 \<in> initialised (kern (qs no_timers))" using f q by simp_all
  obtain K where K: "kernel_ok ?k K" "timed ?k K" using two_cores_ok(1) by (auto simp: at_rest_def sys_ok_def kernel_inv_def)
  obtain xs where xs: "K (xPendingReadyList 0) = Some xs" using kernel_okD(3) [OF K(1)] by blast
  have "x \<notin> set xs" for x
  proof
    assume "x \<in> set xs"
    then have c: "pvContainer (lists ?k) x = Some (xPendingReadyList 0)"
      using holds_listD(4) [OF kernel_listsD [OF kernel_okD(1) [OF K(1)] xs]] by blast
    then have "fits_on x (xPendingReadyList 0)" using K(1) unfolding kernel_ok_def by blast
    then show False using c two_cores_ok(4) by (cases x) (auto simp: fits_on_def)
  qed
  then have "xs = []" by (cases xs) auto
  then show "service_runs no_timers 0 1" using K xs two_cores_ok(2) f q by (auto simp: service_runs_def)
  show "timers_ok no_timers [xActiveTimerList1 \<mapsto> [], xActiveTimerList2 \<mapsto> []]"
    using timer_lists_new [of _ no_timers] by (simp add: no_timers_def)
  show "deadline no_timers T = Map.empty" by (auto simp: no_timers_def deadline_def vListInitialise_def)
qed

lemma no_timers_fields [simp]:
  "timer no_timers t = \<lparr>pcTimerName = ''timer'', xTimerPeriodInTicks = 3, uxAutoReload = 0, pvTimerID = 0, pxCallbackFunction = 7\<rparr>"
  "xTimerQueue no_timers = Some 1" "called no_timers = []" "freed no_timers = []"
  by (simp_all add: no_timers_def)

lemma quiet_callback [simp]: "quiet (\<lambda>c. Inr)"
  unfolding quiet_def by (metis tsys.surjective tsys.update_convs(1))

text \<open>Timer 5 has been started at time \<open>c\<close>, which is also the time last seen if \<open>m = c\<close>.\<close>

lemma one_timer:
  assumes "c + 3 < 2 ^ 32"
  obtains l L where "timers_ok (no_timers\<lparr>tlists := l, xLastTime := v\<rparr>) L"
    "deadline (no_timers\<lparr>tlists := l, xLastTime := v\<rparr>) T = [5 \<mapsto> round_start T + c + 3]"
proof -
  have r: "round_start c = 0" using assms by (simp add: round_start_def)
  have t: "pvContainer (tlists no_timers) (xTimerListItem 5) = None"
    using no_timers_ok(2) [of 0] by (auto simp: deadline_def fun_eq_iff)
  obtain l L where l: "timers_ok (no_timers\<lparr>tlists := l\<rparr>) L" "deadline (no_timers\<lparr>tlists := l\<rparr>) c = [5 \<mapsto> c + 3]"
    using insert_timer_ok [OF no_timers_ok(1) t, of 3 c c] no_timers_ok(2) [of c] by (auto simp: timer_address_def)
  have "deadline (no_timers\<lparr>tlists := l, xLastTime := v\<rparr>) T u = map_option (\<lambda>d. round_start T + d) (deadline (no_timers\<lparr>tlists := l\<rparr>) c u)" for u
    using r by (simp add: deadline_def option.map_comp comp_def ac_simps)
  then have "deadline (no_timers\<lparr>tlists := l, xLastTime := v\<rparr>) T = [5 \<mapsto> round_start T + c + 3]" by (auto simp: fun_eq_iff l(2))
  moreover have "timers_ok (no_timers\<lparr>tlists := l, xLastTime := v\<rparr>) L" using l(1) by (rule timers_ok_cong) simp_all
  ultimately show ?thesis by (rule that [rotated])
qed

section \<open>The properties at work\<close>

theorem timer_commands_refine_witness:
  "\<exists>s'. process_message (\<lambda>c. Inr) 0 (Timer_Command tmrCOMMAND_START 0xfffffff0 5) (no_timers\<lparr>xLastTime := 0xfffffff1\<rparr>) = Inr s' \<and>
     called s' = [Timer_Callback 7 5]"
proof -
  let ?s = "no_timers\<lparr>xLastTime := 0xfffffff1\<rparr>"
  have ok: "timers_ok ?s [xActiveTimerList1 \<mapsto> [], xActiveTimerList2 \<mapsto> []]" by (rule timers_ok_cong [OF no_timers_ok(1)]) simp_all
  have "same_round ?s 0xfffffff1 0xfffffffe" by (simp add: same_round_def no_timers_ok(4) round_start_def)
  from timer_commands_refine [OF ok _ this quiet_callback, of 5 3 "0xfffffff0" 0 0, THEN conjunct1]
  show ?thesis by (fastforce simp: timer_address_def)
qed


theorem timer_service_expires_next_witness:
  "\<exists>s s'. deadline s 0xfffffff0 = [5 \<mapsto> 0xfffffff3] \<and> called s = [] \<and>
     prvProcessTimerOrBlockTask (\<lambda>c. Inr) 0 (fst (prvGetNextExpireTime s)) (snd (prvGetNextExpireTime s)) s = Inr (False, s') \<and>
     called s' = [Timer_Callback 7 5] \<and> deadline s' 0xfffffffe = Map.empty"
proof -
  obtain l L where l: "timers_ok (no_timers\<lparr>tlists := l, xLastTime := 0xfffffff0\<rparr>) L"
    "deadline (no_timers\<lparr>tlists := l, xLastTime := 0xfffffff0\<rparr>) 0xfffffff0 = [5 \<mapsto> 0xfffffff3]"
    using one_timer [of "0xfffffff0" "0xfffffff0" "0xfffffff0"] by (auto simp: round_start_def)
  let ?s = "no_timers\<lparr>tlists := l, xLastTime := 0xfffffff0\<rparr>"
  have r: "same_round ?s 0xfffffff0 0xfffffffe" by (simp add: same_round_def no_timers_ok(4) round_start_def)
  have k: "service_runs ?s 0 1" using no_timers_ok(3) by (simp add: service_runs_def)
  have d: "0xfffffff3 \<le> d \<and> u = 5" if "deadline ?s 0xfffffff0 u = Some d" for u d using that unfolding l(2) by (auto split: if_splits)
  have "\<exists>u s' L'. deadline ?s 0xfffffff0 u = Some 0xfffffff3 \<and> timers_ok s' L' \<and>
    prvProcessTimerOrBlockTask (\<lambda>c. Inr) 0 (fst (prvGetNextExpireTime ?s)) (snd (prvGetNextExpireTime ?s)) ?s = Inr (False, s') \<and>
    called s' = Timer_Callback (pxCallbackFunction (timer ?s u)) u # called ?s \<and>
    deadline s' 0xfffffffe = (deadline ?s 0xfffffff0)(u := if uxAutoReload (timer ?s u) = 1 then Some (0xfffffff3 + unat (xTimerPeriodInTicks (timer ?s u))) else None)"
  proof (rule timer_service_expires_next [OF l(1) r k quiet_callback])
    show "0xfffffff3 \<le> d" if "deadline ?s 0xfffffff0 u = Some d" for u d using d [OF that] ..
    show "\<exists>u. deadline ?s 0xfffffff0 u = Some 0xfffffff3" unfolding l(2) by (intro exI [of _ 5]) simp
  qed simp_all
  then obtain u s' where u: "deadline ?s 0xfffffff0 u = Some 0xfffffff3" and
    s': "prvProcessTimerOrBlockTask (\<lambda>c. Inr) 0 (fst (prvGetNextExpireTime ?s)) (snd (prvGetNextExpireTime ?s)) ?s = Inr (False, s')"
    "called s' = Timer_Callback 7 u # called ?s" "deadline s' 0xfffffffe = (deadline ?s 0xfffffff0)(u := None)" by auto
  have "u = 5" using d [OF u] ..
  then show ?thesis using l(2) s' by (intro exI [of _ ?s] exI [of _ s']) simp
qed

theorem timer_list_switch_ends_witness:
  "\<exists>r. expire_loop (\<lambda>c. Inr) 0 no_timers = Some r"
  using timer_list_switch_ends [OF no_timers_ok(1) quiet_callback] by simp

theorem timers_survive_wrap_witness:
  "\<exists>s s'. deadline s 0xfffffffff = [5 \<mapsto> 0xffffffff3] \<and> called s = [] \<and>
     prvSampleTimeNow (\<lambda>c. Inr) 0 s = Inr ((0xfffffffe, True), s') \<and> called s' = [Timer_Callback 7 5] \<and> deadline s' 0x10fffffffe = Map.empty"
proof -
  obtain l L where l: "timers_ok (no_timers\<lparr>tlists := l, xLastTime := 0xffffffff\<rparr>) L"
    "deadline (no_timers\<lparr>tlists := l, xLastTime := 0xffffffff\<rparr>) 0xfffffffff = [5 \<mapsto> 0xffffffff3]"
    using one_timer [of "0xfffffff0" "0xffffffff" "0xfffffffff"] by (auto simp: round_start_def)
  let ?s = "no_timers\<lparr>tlists := l, xLastTime := 0xffffffff\<rparr>"
  obtain us s' where us: "prvSampleTimeNow (\<lambda>c. Inr) 0 ?s = Inr ((of_nat 0x10fffffffe, True), s')"
    "set us = {u. \<exists>d < round_start 0x10fffffffe. deadline ?s 0xfffffffff u = Some d}" "distinct us"
    "called s' = rev (map (\<lambda>u. Timer_Callback (pxCallbackFunction (timer ?s u)) u) us) @ called ?s"
    "deadline s' 0x10fffffffe = (\<lambda>u. if u \<in> set us then None else deadline ?s 0xfffffffff u)"
    using timers_survive_wrap [OF l(1) quiet_callback, of "0xfffffffff" "0x10fffffffe" 0] no_timers_ok(4)
    by (auto simp: round_start_def)
  have "set us = {5}" using us(2) unfolding l(2) by (auto simp: round_start_def split: if_splits)
  then have "us = [5]" using us(3) by (cases us; cases "tl us") (auto simp: subset_singleton_iff)
  then have "called s' = [Timer_Callback 7 5]" "deadline s' 0x10fffffffe = Map.empty" using us(4,5) l(2) by (simp_all add: fun_eq_iff)
  moreover have "of_nat 0x10fffffffe = (0xfffffffe :: u32)" by simp
  ultimately show ?thesis using us(1) l(2) by (intro exI [of _ ?s] exI [of _ s']) (simp del: of_nat_numeral)
qed

end
