(* ===== verification/RTOS_Task_Life.thy ===== *)
theory RTOS_Task_Life
  imports RTOS_Timers
begin

text \<open>
  The life of tasks (\<^verbatim>\<open>components/freertos/tasks.c\<close>): creation, deletion and the release of their memory by the
  idle tasks, suspension and resumption of single tasks, and thread-local storage.
\<close>

section \<open>State\<close>

text \<open>
  What \<^verbatim>\<open>tasks.c\<close> keeps besides the lists and counters of \<open>kernel\<close>. A control block is known by its address.
  \<open>no_task c\<close> says that \<^verbatim>\<open>pxCurrentTCB[c]\<close> is \<^verbatim>\<open>NULL\<close>; \<open>blocks\<close> are the addresses of the memory blocks in use, and
  \<open>tls_called\<close> the calls of deletion callbacks (function, index, value), latest first.
\<close>

record sched =
  kn :: kernel
  xSchedulerRunning :: bool
  no_task :: "nat \<Rightarrow> bool"
  uxTasksDeleted :: u32
  uxTaskNumber :: u32
  xIdleTaskHandle :: "nat \<Rightarrow> nat option"
  pxStack :: "nat \<Rightarrow> nat"
  pcTaskName :: "nat \<Rightarrow> string"
  pvThreadLocalStoragePointers :: "nat \<Rightarrow> nat \<Rightarrow> nat"
  pvThreadLocalStoragePointersDelCallback :: "nat \<Rightarrow> nat \<Rightarrow> nat option"
  tls_called :: "(nat \<times> nat \<times> nat) list"
  blocks :: "nat set"

definition configMAX_TASK_NAME_LEN :: nat where "configMAX_TASK_NAME_LEN = 16"

definition configNUM_THREAD_LOCAL_STORAGE_POINTERS :: nat where "configNUM_THREAD_LOCAL_STORAGE_POINTERS = 1"

definition got_block :: "nat \<Rightarrow> sched \<Rightarrow> sched" where
  "got_block a w = w\<lparr>blocks := insert a (blocks w)\<rparr>"

definition vPortFree :: "nat \<Rightarrow> sched \<Rightarrow> sched" where
  "vPortFree a w = w\<lparr>blocks := blocks w - {a}\<rparr>"

text \<open>\<^verbatim>\<open>prvGetTCBFromHandle\<close>: no handle means the calling task.\<close>

definition prvGetTCBFromHandle :: "nat \<Rightarrow> nat option \<Rightarrow> sched \<Rightarrow> nat run" where
  "prvGetTCBFromHandle core xTask w =
     (case xTask of
        None \<Rightarrow> if no_task w core then Inl Null_Pointer else Inr (pxCurrentTCB (kn w) core)
      | Some t \<Rightarrow> Inr t)"

definition is_current :: "nat \<Rightarrow> nat \<Rightarrow> sched \<Rightarrow> bool" where
  "is_current core t w \<longleftrightarrow> \<not> no_task w core \<and> pxCurrentTCB (kn w) core = t"

section \<open>Creation\<close>

text \<open>The stack's content, the C library's data and the notification state of the task are left out.\<close>

definition task_name :: "string \<Rightarrow> string" where
  "task_name pcName = take (configMAX_TASK_NAME_LEN - 1) (takeWhile (\<lambda>c. c \<noteq> CHR 0x00) pcName)"

definition prvInitialiseNewTask :: "string \<Rightarrow> nat \<Rightarrow> nat \<Rightarrow> nat option \<Rightarrow> sched \<Rightarrow> sched" where
  "prvInitialiseNewTask pcName prio t core_id w =
     (let p = (if prio \<ge> configMAX_PRIORITIES then configMAX_PRIORITIES - 1 else prio);
          k = kn w;
          m1 = vListInitialiseItem (xEventListItem t) (vListInitialiseItem (xGenericListItem t) (lists k));
          m2 = listSET_LIST_ITEM_OWNER (xGenericListItem t) t m1;
          m3 = listSET_LIST_ITEM_VALUE (xEventListItem t) (of_nat configMAX_PRIORITIES - of_nat p) m2;
          m4 = listSET_LIST_ITEM_OWNER (xEventListItem t) t m3
      in w\<lparr>kn := k\<lparr>uxPriority := (uxPriority k)(t := p), xCoreID := (xCoreID k)(t := core_id),
                    uxBasePriority := (uxBasePriority k)(t := p), uxMutexesHeld := (uxMutexesHeld k)(t := 0), lists := m4\<rparr>,
           pcTaskName := (pcTaskName w)(t := task_name pcName),
           pvThreadLocalStoragePointers := (pvThreadLocalStoragePointers w)(t := \<lambda>_. 0),
           pvThreadLocalStoragePointersDelCallback := (pvThreadLocalStoragePointersDelCallback w)(t := \<lambda>_. None)\<rparr>)"

text \<open>The core on which a new task starts.\<close>

definition start_core :: "nat \<Rightarrow> nat \<Rightarrow> nat option \<Rightarrow> sched \<Rightarrow> nat" where
  "start_core core t core_id w =
     (case core_id of
        Some c \<Rightarrow> c
      | None \<Rightarrow>
          let pr = uxPriority (kn w); cur = pxCurrentTCB (kn w) in
          if no_task w 0 then 0
          else if no_task w 1 then 1
          else if pr (cur 0) < pr t \<and> pr (cur 0) < pr (cur 1) then 0
          else if pr (cur 1) < pr t then 1
          else core)"

text \<open>The first critical section; \<open>c\<close> is the core on which the task starts.\<close>

definition enter_new_task :: "nat \<Rightarrow> nat \<Rightarrow> sched \<Rightarrow> sched" where
  "enter_new_task c t w =
     (let k = kn w;
          w1 = (if no_task w c then
                  let k1 = k\<lparr>pxCurrentTCB := (pxCurrentTCB k)(c := t)\<rparr>
                  in w\<lparr>kn := (if uxCurrentNumberOfTasks k1 = 1 then prvInitialiseTaskLists k1 else k1), no_task := (no_task w)(c := False)\<rparr>
                else if \<not> xSchedulerRunning w \<and> uxPriority k (pxCurrentTCB k c) \<le> uxPriority k t
                then w\<lparr>kn := k\<lparr>pxCurrentTCB := (pxCurrentTCB k)(c := t)\<rparr>\<rparr>
                else w)
      in w1\<lparr>uxTaskNumber := uxTaskNumber w1 + 1, kn := prvAddTaskToReadyList t (kn w1)\<rparr>)"

text \<open>The result is whether the caller yields.\<close>

definition prvAddNewTaskToReadyList :: "nat \<Rightarrow> nat \<Rightarrow> nat option \<Rightarrow> sched \<Rightarrow> (bool \<times> sched) run" where
  "prvAddNewTaskToReadyList core t core_id w =
     (if (case core_id of None \<Rightarrow> False | Some c \<Rightarrow> c \<ge> 2) then Inl Assert_Failed
      else
        let w1 = w\<lparr>kn := (kn w)\<lparr>uxCurrentNumberOfTasks := uxCurrentNumberOfTasks (kn w) + 1\<rparr>\<rparr>;
            c = start_core core t core_id w1;
            w2 = enter_new_task c t w1;
            k = kn w2
        in if xSchedulerRunning w2 \<and> (no_task w2 c \<or> uxPriority k (pxCurrentTCB k c) < uxPriority k t)
           then if c = core then Inr (True, w2)
                else Inr (False, w2\<lparr>kn := taskYIELD_OTHER_CORE core (Some c) (uxPriority k t) k\<rparr>)
           else Inr (False, w2))"

text \<open>
  \<open>stack\<close> and \<open>tcb\<close> are the results of the two allocations; the results are the handle, if the task could be
  created, and whether the caller yields.
\<close>

definition xTaskCreatePinnedToCore ::
  "nat \<Rightarrow> nat option \<Rightarrow> nat option \<Rightarrow> string \<Rightarrow> nat \<Rightarrow> nat option \<Rightarrow> sched \<Rightarrow> ((nat option \<times> bool) \<times> sched) run" where
  "xTaskCreatePinnedToCore core stack tcb pcName prio core_id w =
     (case stack of
        None \<Rightarrow> Inr ((None, False), w)
      | Some s \<Rightarrow>
          let w1 = got_block s w in
          (case tcb of
             None \<Rightarrow> Inr ((None, False), vPortFree s w1)
           | Some t \<Rightarrow>
               let w2 = got_block t w1; w3 = w2\<lparr>pxStack := (pxStack w2)(t := s)\<rparr> in
               run_bind (prvAddNewTaskToReadyList core t core_id (prvInitialiseNewTask pcName prio t core_id w3))
                 (\<lambda>(y, w4). Inr ((Some t, y), w4))))"

section \<open>Deletion\<close>

text \<open>The beginning of deletion and suspension: off its list, off the list of its event, and on list \<open>l\<close>.\<close>

definition park_task :: "kaddr \<Rightarrow> nat \<Rightarrow> kernel \<Rightarrow> kernel run" where
  "park_task l t k =
     run_bind (list_remove (xGenericListItem t) k) (\<lambda>k1.
     run_bind (if pvContainer (lists k1) (xEventListItem t) \<noteq> None then list_remove (xEventListItem t) k1 else Inr k1) (\<lambda>k2.
       Inr (k2\<lparr>lists := vListInsertEnd l (xGenericListItem t) (lists k2)\<rparr>)))"

definition vTaskDelete :: "nat \<Rightarrow> nat option \<Rightarrow> sched \<Rightarrow> (bool \<times> sched) run" where
  "vTaskDelete core xTask w =
     run_bind (prvGetTCBFromHandle core xTask w) (\<lambda>t.
     run_bind (park_task xTasksWaitingTermination t (kn w)) (\<lambda>k.
       let w1 = w\<lparr>kn := k, uxTasksDeleted := uxTasksDeleted w + 1, uxTaskNumber := uxTaskNumber w + 1\<rparr> in
       if xSchedulerRunning w1 then
         if is_current core t w1 then
           if uxSchedulerSuspended k core \<noteq> 0 then Inl Assert_Failed else Inr (True, w1)
         else if is_current (1 - core) t w1 then
           Inr (False, w1\<lparr>kn := k\<lparr>yields_sent := (1 - core) # yields_sent k\<rparr>\<rparr>)
         else Inr (False, w1\<lparr>kn := prvResetNextTaskUnblockTime k\<rparr>)
       else Inr (False, w1)))"

text \<open>The callbacks of the thread-local storage of a task whose memory is released.\<close>

definition tls_callbacks :: "nat \<Rightarrow> sched \<Rightarrow> sched" where
  "tls_callbacks t w = fold (\<lambda>x w. case pvThreadLocalStoragePointersDelCallback w t x of
        None \<Rightarrow> w
      | Some f \<Rightarrow> w\<lparr>tls_called := (f, x, pvThreadLocalStoragePointers w t x) # tls_called w\<rparr>)
     [0..<configNUM_THREAD_LOCAL_STORAGE_POINTERS] w"

definition prvDeleteTCB :: "nat \<Rightarrow> sched \<Rightarrow> sched" where
  "prvDeleteTCB t w = vPortFree t (vPortFree (pxStack w t) w)"

partial_function (option) termination_loop :: "nat \<Rightarrow> sched \<Rightarrow> sched run option" where
  "termination_loop core w =
     (if uxTasksDeleted w > 0 then
        if listLIST_IS_EMPTY xTasksWaitingTermination (lists (kn w)) then termination_loop core w
        else let t = listGET_OWNER_OF_HEAD_ENTRY xTasksWaitingTermination (lists (kn w)) in
          if xCoreID (kn w) t = None \<or> xCoreID (kn w) t = Some core then
            (case list_remove (xGenericListItem t) (kn w) of
               Inl e \<Rightarrow> Some (Inl e)
             | Inr k \<Rightarrow> termination_loop core (prvDeleteTCB t (tls_callbacks t
                 (w\<lparr>kn := k\<lparr>uxCurrentNumberOfTasks := uxCurrentNumberOfTasks k - 1\<rparr>, uxTasksDeleted := uxTasksDeleted w - 1\<rparr>))))
          else Some (Inr w)
      else Some (Inr w))"

text \<open>What the idle task of a core does again and again.\<close>

definition prvCheckTasksWaitingTermination :: "nat \<Rightarrow> sched \<Rightarrow> sched run" where
  "prvCheckTasksWaitingTermination core w = or_blocks (termination_loop core w)"

section \<open>Suspension of single tasks\<close>

definition vTaskSuspend :: "nat \<Rightarrow> nat option \<Rightarrow> sched \<Rightarrow> (bool \<times> sched) run" where
  "vTaskSuspend core xTask w =
     run_bind (prvGetTCBFromHandle core xTask w) (\<lambda>t.
     run_bind (park_task xSuspendedTaskList t (kn w)) (\<lambda>k.
       let w1 = w\<lparr>kn := k\<rparr> in
       if is_current core t w1 then
         if xSchedulerRunning w1 then if uxSchedulerSuspended k core \<noteq> 0 then Inl Assert_Failed else Inr (True, w1)
         else if uxNumberOfItems (lists k) xSuspendedTaskList = uxCurrentNumberOfTasks k
         then Inr (False, w1\<lparr>no_task := (no_task w1)(core := True)\<rparr>)
         else run_bind (vTaskSwitchContext core k) (\<lambda>k1. Inr (False, w1\<lparr>kn := k1\<rparr>))
       else if xSchedulerRunning w1 then Inr (False, w1\<lparr>kn := prvResetNextTaskUnblockTime k\<rparr>)
       else Inr (False, w1)))"

definition prvTaskIsTaskSuspended :: "nat \<Rightarrow> nat \<Rightarrow> kernel \<Rightarrow> bool" where
  "prvTaskIsTaskSuspended core t k \<longleftrightarrow>
     listIS_CONTAINED_WITHIN xSuspendedTaskList (xGenericListItem t) (lists k) \<and>
     \<not> listIS_CONTAINED_WITHIN (xPendingReadyList core) (xEventListItem t) (lists k) \<and>
     pvContainer (lists k) (xEventListItem t) = None"

text \<open>The end of both resumptions: whether to switch to the task here, or to interrupt the other core.\<close>

definition yield_for :: "nat \<Rightarrow> nat \<Rightarrow> kernel \<Rightarrow> bool \<times> kernel" where
  "yield_for core t k =
     (if tskCAN_RUN_HERE core (xCoreID k t) \<and> uxPriority k t \<ge> uxPriority k (pxCurrentTCB k core) then (True, k)
      else if xCoreID k t \<noteq> Some core then (False, taskYIELD_OTHER_CORE core (xCoreID k t) (uxPriority k t) k)
      else (False, k))"

definition vTaskResume :: "nat \<Rightarrow> nat option \<Rightarrow> sched \<Rightarrow> (bool \<times> sched) run" where
  "vTaskResume core xTask w =
     (case xTask of
        None \<Rightarrow> Inl Assert_Failed
      | Some t \<Rightarrow>
          if \<not> is_current core t w \<and> prvTaskIsTaskSuspended core t (kn w) then
            run_bind (list_remove (xGenericListItem t) (kn w)) (\<lambda>k.
              let (y, k1) = yield_for core t (prvAddTaskToReadyList t k) in Inr (y, w\<lparr>kn := k1\<rparr>))
          else Inr (False, w))"

definition xTaskResumeFromISR :: "nat \<Rightarrow> nat option \<Rightarrow> sched \<Rightarrow> (bool \<times> sched) run" where
  "xTaskResumeFromISR core xTask w =
     (case xTask of
        None \<Rightarrow> Inl Assert_Failed
      | Some t \<Rightarrow>
          if prvTaskIsTaskSuspended core t (kn w) then
            if uxSchedulerSuspended (kn w) core = 0 then
              run_bind (list_remove (xGenericListItem t) (kn w)) (\<lambda>k.
                let (y, k1) = yield_for core t (prvAddTaskToReadyList t k) in Inr (y, w\<lparr>kn := k1\<rparr>))
            else Inr (False, w\<lparr>kn := (kn w)\<lparr>lists := vListInsertEnd (xPendingReadyList core) (xEventListItem t) (lists (kn w))\<rparr>\<rparr>)
          else Inr (False, w))"

section \<open>Thread-local storage\<close>

text \<open>The index is signed, and only its upper bound is tested.\<close>

definition vTaskSetThreadLocalStoragePointerAndDelCallback ::
  "nat \<Rightarrow> nat option \<Rightarrow> int \<Rightarrow> nat \<Rightarrow> nat option \<Rightarrow> sched \<Rightarrow> sched run" where
  "vTaskSetThreadLocalStoragePointerAndDelCallback core xTask xIndex pvValue xDelCallback w =
     (if xIndex < int configNUM_THREAD_LOCAL_STORAGE_POINTERS then
        run_bind (prvGetTCBFromHandle core xTask w) (\<lambda>t.
          if xIndex < 0 then Inl Out_Of_Bounds
          else Inr (w\<lparr>pvThreadLocalStoragePointers := (pvThreadLocalStoragePointers w)(t := (pvThreadLocalStoragePointers w t)(nat xIndex := pvValue)),
                      pvThreadLocalStoragePointersDelCallback :=
                        (pvThreadLocalStoragePointersDelCallback w)(t := (pvThreadLocalStoragePointersDelCallback w t)(nat xIndex := xDelCallback))\<rparr>))
      else Inr w)"

definition vTaskSetThreadLocalStoragePointer :: "nat \<Rightarrow> nat option \<Rightarrow> int \<Rightarrow> nat \<Rightarrow> sched \<Rightarrow> sched run" where
  "vTaskSetThreadLocalStoragePointer core xTask xIndex pvValue w =
     vTaskSetThreadLocalStoragePointerAndDelCallback core xTask xIndex pvValue None w"

definition pvTaskGetThreadLocalStoragePointer :: "nat \<Rightarrow> nat option \<Rightarrow> int \<Rightarrow> sched \<Rightarrow> nat run" where
  "pvTaskGetThreadLocalStoragePointer core xTask xIndex w =
     (if xIndex < int configNUM_THREAD_LOCAL_STORAGE_POINTERS then
        run_bind (prvGetTCBFromHandle core xTask w) (\<lambda>t.
          if xIndex < 0 then Inl Out_Of_Bounds else Inr (pvThreadLocalStoragePointers w t (nat xIndex)))
      else Inr 0)"

section \<open>The invariant\<close>

text \<open>The tasks that have been deleted and whose memory is still to be released.\<close>

definition doomed :: "kernel \<Rightarrow> nat set" where
  "doomed k = {t. pvContainer (lists k) (xGenericListItem t) = Some xTasksWaitingTermination}"

definition sched_ok :: "sched \<Rightarrow> bool" where
  "sched_ok w \<longleftrightarrow> kernel_inv (kn w) \<and> card (doomed (kn w)) = unat (uxTasksDeleted w)"

lemma kernel_inv_plain [simp]:
  "kernel_inv (k\<lparr>uxCurrentNumberOfTasks := n\<rparr>) = kernel_inv k" "kernel_inv (k\<lparr>xCoreID := c\<rparr>) = kernel_inv k"
  "kernel_inv (k\<lparr>uxBasePriority := b\<rparr>) = kernel_inv k" "kernel_inv (k\<lparr>yields_sent := ys\<rparr>) = kernel_inv k"
  "kernel_inv (k\<lparr>xYieldPending := y\<rparr>) = kernel_inv k"
  by (simp_all add: kernel_inv_def priorities_ok_def ready_at_def kernel_ok_def timed_def)

lemma doomed_bound:
  assumes "kernel_inv k"
  shows "finite (doomed k)" "card (doomed k) \<le> 0x40000000"
proof -
  have "doomed k \<subseteq> {..<0x40000000}"
    using assms kernel_okD(4) unfolding kernel_inv_def doomed_def by (fastforce simp: fits_on_def)
  then show "finite (doomed k)" "card (doomed k) \<le> 0x40000000"
    using finite_subset card_mono [of "{..<0x40000000}" "doomed k"] by auto
qed

lemma reset_unblock_inv:
  assumes "kernel_inv k"
  shows "kernel_inv (prvResetNextTaskUnblockTime k)"
proof -
  obtain L ds os where ok: "kernel_ok k L" "priorities_ok k" and L: "L (pxDelayedTaskList k) = Some ds" "L (pxOverflowDelayedTaskList k) = Some os"
    and s: "sorted (map (xItemValue (lists k)) ds)" "sorted (map (xItemValue (lists k)) os)"
    and d: "\<And>x. x \<in> set ds \<Longrightarrow> xTickCount k < xItemValue (lists k) x" and o: "\<And>x. x \<in> set os \<Longrightarrow> xItemValue (lists k) x < xTickCount k"
    using assms unfolding kernel_inv_def timed_def by blast
  note h = kernel_listsD [OF kernel_okD(1) [OF ok(1)] L(1)]
  let ?k = "k\<lparr>xNextTaskUnblockTime := head_time (xItemValue (lists k)) ds\<rparr>"
  have "prvResetNextTaskUnblockTime k = ?k"
  proof (cases ds)
    case (Cons x xs)
    then have "pvContainer (lists k) x = Some (pxDelayedTaskList k)" using holds_listD(4) [OF h, of x] by simp
    moreover have "pxDelayedTaskList k \<in> generic_lists" using kernel_okD(8) [OF ok(1)] by auto
    ultimately obtain t where "x = xGenericListItem t"
      using kernel_okD(4) [OF ok(1), of x] generic_not_event by (auto simp: fits_on_def)
    then show ?thesis using holds_list_empty [OF h] holds_list_head [OF h [unfolded Cons]] kernel_okD(5) [OF ok(1)] Cons
      by (simp add: prvResetNextTaskUnblockTime_def)
  qed (use holds_list_empty [OF h] in \<open>simp add: prvResetNextTaskUnblockTime_def\<close>)
  moreover have "timed ?k L" using L s d o head_time_le [OF s(1)] by (auto simp: timed_def)
  moreover have "kernel_ok ?k L" using ok(1) by (simp add: kernel_ok_def)
  ultimately show ?thesis using ok by (auto simp: kernel_inv_def priorities_ok_def ready_at_def)
qed

lemma reset_unblock_fields [simp]:
  "lists (prvResetNextTaskUnblockTime k) = lists k" "xCoreID (prvResetNextTaskUnblockTime k) = xCoreID k"
  "uxPriority (prvResetNextTaskUnblockTime k) = uxPriority k" "pxCurrentTCB (prvResetNextTaskUnblockTime k) = pxCurrentTCB k"
  "uxCurrentNumberOfTasks (prvResetNextTaskUnblockTime k) = uxCurrentNumberOfTasks k"
  "uxSchedulerSuspended (prvResetNextTaskUnblockTime k) = uxSchedulerSuspended k"
  by (simp_all add: prvResetNextTaskUnblockTime_def)

lemma doomed_lists: "lists k' = lists k \<Longrightarrow> doomed k' = doomed k"
  by (simp add: doomed_def)

text \<open>A task that is on some list can be parked.\<close>

lemma park_task_ok:
  assumes inv: "kernel_inv k" and t: "pvContainer (lists k) (xGenericListItem t) \<noteq> None"
    and l: "l \<in> {xTasksWaitingTermination, xSuspendedTaskList}"
  shows "\<exists>k'. park_task l t k = Inr k' \<and> kernel_inv k' \<and> same_but_lists k k' \<and> uxTopReadyPriority k' = uxTopReadyPriority k \<and>
    pvContainer (lists k') = (pvContainer (lists k))(xGenericListItem t := Some l, xEventListItem t := None)"
proof -
  let ?x = "xGenericListItem t" and ?e = "xEventListItem t"
  obtain L where ok: "kernel_ok k L" "timed k L" "priorities_ok k" using inv by (auto simp: kernel_inv_def)
  obtain l0 where c: "pvContainer (lists k) ?x = Some l0" using t by blast
  obtain xs where xs: "L l0 = Some xs" using kernel_okD(4) [OF ok(1) c] by blast
  have a: "task_address t" using kernel_okD(4) [OF ok(1) c] by (auto simp: fits_on_def)
  obtain m1 where m1: "list_remove ?x k = Inr (k\<lparr>lists := m1\<rparr>)" "kernel_ok (k\<lparr>lists := m1\<rparr>) (L(l0 \<mapsto> remove1 ?x xs))"
    "pvContainer m1 = (pvContainer (lists k))(?x := None)" "xItemValue m1 = xItemValue (lists k)"
    using list_remove_ok [OF ok(1) c xs] by blast
  obtain m2 L2 where m2: "(if pvContainer m1 ?e \<noteq> None then list_remove ?e (k\<lparr>lists := m1\<rparr>) else Inr (k\<lparr>lists := m1\<rparr>)) = Inr (k\<lparr>lists := m2\<rparr>)"
    "kernel_ok (k\<lparr>lists := m2\<rparr>) L2" "\<And>l'. l' \<in> generic_lists \<Longrightarrow> L2 l' = (L(l0 \<mapsto> remove1 ?x xs)) l'"
    "pvContainer m2 = (pvContainer m1)(?e := None)" "xItemValue m2 = xItemValue m1"
    using leave_event_list_ok [OF m1(2), of t] by auto
  have g: "pxDelayedTaskList k \<in> generic_lists" "pxOverflowDelayedTaskList k \<in> generic_lists" "l \<in> generic_lists"
    "l \<noteq> pxDelayedTaskList k" "l \<noteq> pxOverflowDelayedTaskList k" using kernel_okD(8) [OF ok(1)] l by (auto simp: generic_lists_def)
  have "timed (k\<lparr>lists := m1\<rparr>) (L(l0 \<mapsto> remove1 ?x xs))" by (rule timed_remove [OF ok(2) m1(4) xs])
  then have tm2: "timed (k\<lparr>lists := m2\<rparr>) L2" using m2(3) [OF g(1)] m2(3) [OF g(2)] by (simp add: timed_def m2(5))
  obtain ys where ys: "L2 l = Some ys" using g(3) kernel_okD(3) [OF m2(2)] by blast
  let ?m = "vListInsertEnd l ?x m2"
  have "fits_on ?x l" using a g(3) by (auto simp: fits_on_def)
  then obtain ys' where m3: "kernel_ok (k\<lparr>lists := ?m\<rparr>) (L2(l \<mapsto> ys'))" "pvContainer ?m = (pvContainer m2)(?x := Some l)" "xItemValue ?m = xItemValue m2"
    using list_insert_end_ok [OF m2(2) _ _ ys, of ?x] m2(4) m1(3) by auto
  have "timed (k\<lparr>lists := ?m\<rparr>) (L2(l \<mapsto> ys'))"
    using tm2 m3(3) g(4,5) by (intro timed_other [where k = "k\<lparr>lists := m2\<rparr>" and L = L2]) (simp_all add: same_but_lists_def)
  moreover have c': "pvContainer ?m = (pvContainer (lists k))(?x := Some l, ?e := None)" using m1(3) m2(4) m3(2) by (auto simp: fun_upd_twist)
  moreover have "priorities_ok (k\<lparr>lists := ?m\<rparr>)"
    using ok(3) l unfolding priorities_ok_def ready_at_def by (auto simp: c' split: if_splits)
  ultimately have "kernel_inv (k\<lparr>lists := ?m\<rparr>)" using m3(1) by (auto simp: kernel_inv_def)
  moreover have "park_task l t k = Inr (k\<lparr>lists := ?m\<rparr>)" using m1(1) m2(1) by (simp add: park_task_def)
  ultimately show ?thesis using c' by (auto simp: same_but_lists_def)
qed

section \<open>Deletion and release\<close>

lemma unat_plus_one: "unat w \<le> 0x40000000 \<Longrightarrow> unat (w + 1) = unat w + 1" for w :: u32
  by (simp add: unat_word_ariths)

text \<open>The states in which the caller of \<^verbatim>\<open>vTaskDelete\<close> or \<^verbatim>\<open>vTaskSuspend\<close> is allowed to name itself.\<close>

definition may_stop :: "nat \<Rightarrow> nat \<Rightarrow> sched \<Rightarrow> bool" where
  "may_stop core t w \<longleftrightarrow> xSchedulerRunning w \<and> pvContainer (lists (kn w)) (xGenericListItem t) \<noteq> None \<and>
     (is_current core t w \<longrightarrow> uxSchedulerSuspended (kn w) core = 0)"

lemma vTaskDelete_ok:
  assumes inv: "kernel_inv (kn w)" and t: "prvGetTCBFromHandle core xTask w = Inr t" "may_stop core t w"
  shows "\<exists>w'. vTaskDelete core xTask w = Inr (is_current core t w, w') \<and> kernel_inv (kn w') \<and>
    pvContainer (lists (kn w')) = (pvContainer (lists (kn w)))(xGenericListItem t := Some xTasksWaitingTermination, xEventListItem t := None) \<and>
    uxTasksDeleted w' = uxTasksDeleted w + 1 \<and> blocks w' = blocks w \<and> pxStack w' = pxStack w \<and>
    xCoreID (kn w') = xCoreID (kn w) \<and> pxCurrentTCB (kn w') = pxCurrentTCB (kn w) \<and> no_task w' = no_task w \<and>
    uxCurrentNumberOfTasks (kn w') = uxCurrentNumberOfTasks (kn w) \<and> xSchedulerRunning w' \<and>
    uxSchedulerSuspended (kn w') = uxSchedulerSuspended (kn w) \<and>
    (is_current (1 - core) t w \<and> \<not> is_current core t w \<longrightarrow> yields_sent (kn w') = (1 - core) # yields_sent (kn w))"
proof -
  obtain k where k: "park_task xTasksWaitingTermination t (kn w) = Inr k" "kernel_inv k" "same_but_lists (kn w) k"
    "pvContainer (lists k) = (pvContainer (lists (kn w)))(xGenericListItem t := Some xTasksWaitingTermination, xEventListItem t := None)"
    using park_task_ok [OF inv, of t xTasksWaitingTermination] t(2) by (auto simp: may_stop_def)
  note s = same_but_listsD [OF k(3)]
  have y: "yields_sent k = yields_sent (kn w)" using arg_cong [OF k(3) [unfolded same_but_lists_def], of yields_sent] by simp
  show ?thesis
    using t k(1,2,4) s reset_unblock_inv [OF k(2)] y by (auto simp: vTaskDelete_def Let_def may_stop_def is_current_def)
qed

lemma delete_doomed:
  assumes "pvContainer (lists k') = (pvContainer (lists k))(xGenericListItem t := Some xTasksWaitingTermination, xEventListItem t := None)"
  shows "doomed k' = insert t (doomed k)"
  using assms by (auto simp: doomed_def)

lemma delete_sched_ok:
  assumes ok: "sched_ok w" and w': "kernel_inv (kn w')" "doomed (kn w') = insert t (doomed (kn w))" "uxTasksDeleted w' = uxTasksDeleted w + 1"
    and t: "t \<notin> doomed (kn w)"
  shows "sched_ok w'"
proof -
  have i: "kernel_inv (kn w)" "card (doomed (kn w)) = unat (uxTasksDeleted w)" using ok by (simp_all add: sched_ok_def)
  have "card (doomed (kn w')) = card (doomed (kn w)) + 1" using t w'(2) doomed_bound(1) [OF i(1)] by simp
  then show ?thesis using w'(1,3) i unat_plus_one [of "uxTasksDeleted w"] doomed_bound(2) [OF i(1)] by (simp add: sched_ok_def)
qed

lemma tls_callbacks_fields [simp]:
  "kn (tls_callbacks t w) = kn w" "uxTasksDeleted (tls_callbacks t w) = uxTasksDeleted w" "blocks (tls_callbacks t w) = blocks w"
  "pxStack (tls_callbacks t w) = pxStack w" "no_task (tls_callbacks t w) = no_task w" "xSchedulerRunning (tls_callbacks t w) = xSchedulerRunning w"
  by (auto simp: tls_callbacks_def configNUM_THREAD_LOCAL_STORAGE_POINTERS_def split: option.splits)

lemma prvDeleteTCB_fields [simp]:
  "kn (prvDeleteTCB t w) = kn w" "uxTasksDeleted (prvDeleteTCB t w) = uxTasksDeleted w" "pxStack (prvDeleteTCB t w) = pxStack w"
  "blocks (prvDeleteTCB t w) = blocks w - {pxStack w t} - {t}" "no_task (prvDeleteTCB t w) = no_task w"
  "xSchedulerRunning (prvDeleteTCB t w) = xSchedulerRunning w"
  by (simp_all add: prvDeleteTCB_def vPortFree_def)

lemma termination_list:
  assumes ok: "kernel_ok k L"
  obtains ts where "L xTasksWaitingTermination = Some (map xGenericListItem ts)" "distinct ts" "set ts = doomed k"
proof -
  obtain xs where xs: "L xTasksWaitingTermination = Some xs" using kernel_okD(3) [OF ok] by (auto simp: generic_lists_def)
  note h = kernel_listsD [OF kernel_okD(1) [OF ok] xs]
  have g: "xTasksWaitingTermination \<in> generic_lists" by (simp add: generic_lists_def)
  have "\<exists>t. x = xGenericListItem t" if "x \<in> set xs" for x
    using holds_listD(4) [OF h, of x] that kernel_okD(4) [OF ok, of x] g generic_not_event by (auto simp: fits_on_def)
  then obtain ts where ts: "xs = map xGenericListItem ts" by (metis ex_map_conv)
  moreover have "distinct ts" using holds_listD(2) [OF h] ts by (simp add: distinct_map)
  moreover have "set ts = doomed k" using holds_listD(4) [OF h] ts by (fastforce simp: doomed_def)
  ultimately show ?thesis using that xs by blast
qed

text \<open>One round of the loop of the idle task.\<close>

lemma release_step:
  assumes ok: "kernel_inv (kn w)" "kernel_ok (kn w) L" "timed (kn w) L" and L: "L xTasksWaitingTermination = Some (map xGenericListItem (t # ts))"
    and d: "0 < uxTasksDeleted w" and c: "tskCAN_RUN_HERE core (xCoreID (kn w) t)"
  shows "\<exists>w1 L1. termination_loop core w = termination_loop core w1 \<and> kernel_inv (kn w1) \<and> kernel_ok (kn w1) L1 \<and> timed (kn w1) L1 \<and>
    L1 xTasksWaitingTermination = Some (map xGenericListItem ts) \<and> xCoreID (kn w1) = xCoreID (kn w) \<and> pxStack w1 = pxStack w \<and>
    pvContainer (lists (kn w1)) = (pvContainer (lists (kn w)))(xGenericListItem t := None) \<and>
    uxTasksDeleted w1 = uxTasksDeleted w - 1 \<and> blocks w1 = blocks w - {pxStack w t, t} \<and> pxCurrentTCB (kn w1) = pxCurrentTCB (kn w) \<and>
    uxCurrentNumberOfTasks (kn w1) = uxCurrentNumberOfTasks (kn w) - 1 \<and> no_task w1 = no_task w \<and> xSchedulerRunning w1 = xSchedulerRunning w"
proof -
  let ?x = "xGenericListItem t"
  note h = kernel_listsD [OF kernel_okD(1) [OF ok(2)] L]
  have x: "pvContainer (lists (kn w)) ?x = Some xTasksWaitingTermination" using holds_listD(4) [OF h] by simp
  have hd: "listGET_OWNER_OF_HEAD_ENTRY xTasksWaitingTermination (lists (kn w)) = t" "\<not> listLIST_IS_EMPTY xTasksWaitingTermination (lists (kn w))"
    using holds_list_head [of _ _ ?x] h kernel_okD(5) [OF ok(2)] holds_list_empty [OF h] by simp_all
  obtain m where m: "list_remove ?x (kn w) = Inr ((kn w)\<lparr>lists := m\<rparr>)" "pvContainer m = (pvContainer (lists (kn w)))(?x := None)"
    "kernel_ok ((kn w)\<lparr>lists := m\<rparr>) (L(xTasksWaitingTermination \<mapsto> map xGenericListItem ts))" "xItemValue m = xItemValue (lists (kn w))"
    using list_remove_ok [OF ok(2) x L] by auto
  have tm: "timed ((kn w)\<lparr>lists := m\<rparr>) (L(xTasksWaitingTermination \<mapsto> map xGenericListItem ts))"
    using timed_remove [OF ok(3) m(4) L, of ?x] by simp
  have "priorities_ok ((kn w)\<lparr>lists := m\<rparr>)" using ok(1) by (auto simp: kernel_inv_def priorities_ok_def ready_at_def m(2))
  then have "kernel_inv ((kn w)\<lparr>lists := m\<rparr>)" using m(3) tm by (auto simp: kernel_inv_def)
  define k' where "k' = (kn w)\<lparr>lists := m, uxCurrentNumberOfTasks := uxCurrentNumberOfTasks (kn w) - 1\<rparr>"
  define w1 where "w1 = prvDeleteTCB t (tls_callbacks t (w\<lparr>kn := k', uxTasksDeleted := uxTasksDeleted w - 1\<rparr>))"
  have "termination_loop core w = termination_loop core w1"
    using d hd c m(1) by (subst termination_loop.simps) (auto simp: w1_def k'_def Let_def tskCAN_RUN_HERE_def)
  moreover have "kernel_ok k' (L(xTasksWaitingTermination \<mapsto> map xGenericListItem ts))" "timed k' (L(xTasksWaitingTermination \<mapsto> map xGenericListItem ts))"
    using m(3) tm by (simp_all add: k'_def kernel_ok_def timed_def)
  ultimately show ?thesis using \<open>kernel_inv ((kn w)\<lparr>lists := m\<rparr>)\<close> m(2)
    by (intro exI [of _ w1] exI [of _ "L(xTasksWaitingTermination \<mapsto> map xGenericListItem ts)"]) (auto simp: w1_def k'_def)
qed

lemma unat_minus_Suc: "unat w = Suc n \<Longrightarrow> unat (w - 1) = n" for w :: u32
  using unat_minus_one [of w] by (cases "w = 0") auto

definition released :: "nat \<Rightarrow> kernel \<Rightarrow> nat list \<Rightarrow> nat list" where
  "released core k ts = takeWhile (\<lambda>t. tskCAN_RUN_HERE core (xCoreID k t)) ts"

text \<open>The loop releases the tasks at the front of the list that may be released on this core.\<close>

lemma release_all:
  assumes "kernel_inv (kn w)" "kernel_ok (kn w) L" "timed (kn w) L" "L xTasksWaitingTermination = Some (map xGenericListItem ts)"
    and "distinct ts" "unat (uxTasksDeleted w) = length ts"
  shows "\<exists>w'. termination_loop core w = Some (Inr w') \<and> kernel_inv (kn w') \<and> unat (uxTasksDeleted w') = length ts - length (released core (kn w) ts) \<and>
    pvContainer (lists (kn w')) = (\<lambda>x. if x \<in> xGenericListItem ` set (released core (kn w) ts) then None else pvContainer (lists (kn w)) x) \<and>
    blocks w' = blocks w - (set (released core (kn w) ts) \<union> pxStack w ` set (released core (kn w) ts)) \<and> pxCurrentTCB (kn w') = pxCurrentTCB (kn w) \<and>
    uxCurrentNumberOfTasks (kn w') = uxCurrentNumberOfTasks (kn w) - of_nat (length (released core (kn w) ts)) \<and> no_task w' = no_task w \<and>
    xSchedulerRunning w' = xSchedulerRunning w"
  unfolding released_def using assms(1-6)
proof (induction ts arbitrary: w L)
  case Nil
  then show ?case by (subst termination_loop.simps) (simp add: unat_eq_0)
next
  case (Cons t ts)
  have d: "0 < uxTasksDeleted w" using Cons.prems(6) by (cases "uxTasksDeleted w = 0") (auto simp: word_neq_0_conv)
  show ?case
  proof (cases "tskCAN_RUN_HERE core (xCoreID (kn w) t)")
    case False
    note h = kernel_listsD [OF kernel_okD(1) [OF Cons.prems(2)] Cons.prems(4)]
    have "listGET_OWNER_OF_HEAD_ENTRY xTasksWaitingTermination (lists (kn w)) = t" "\<not> listLIST_IS_EMPTY xTasksWaitingTermination (lists (kn w))"
      using holds_list_head [of _ _ "xGenericListItem t"] h kernel_okD(5) [OF Cons.prems(2)] holds_list_empty [OF h] by simp_all
    then have "termination_loop core w = Some (Inr w)"
      using d False by (subst termination_loop.simps) (auto simp: Let_def tskCAN_RUN_HERE_def)
    then show ?thesis using False Cons.prems(1,6) by simp
  next
    case True
    obtain w1 L1 where w1: "termination_loop core w = termination_loop core w1" "kernel_inv (kn w1)" "kernel_ok (kn w1) L1" "timed (kn w1) L1"
      "L1 xTasksWaitingTermination = Some (map xGenericListItem ts)" "xCoreID (kn w1) = xCoreID (kn w)" "pxStack w1 = pxStack w"
      "pvContainer (lists (kn w1)) = (pvContainer (lists (kn w)))(xGenericListItem t := None)"
      "uxTasksDeleted w1 = uxTasksDeleted w - 1" "blocks w1 = blocks w - {pxStack w t, t}" "pxCurrentTCB (kn w1) = pxCurrentTCB (kn w)"
      "uxCurrentNumberOfTasks (kn w1) = uxCurrentNumberOfTasks (kn w) - 1" "no_task w1 = no_task w" "xSchedulerRunning w1 = xSchedulerRunning w"
      using release_step [OF Cons.prems(1-4) d True] by blast
    have "unat (uxTasksDeleted w1) = length ts" using w1(9) unat_minus_Suc [of "uxTasksDeleted w" "length ts"] Cons.prems(6) by simp
    moreover have "distinct ts" using Cons.prems(5) by simp
    moreover have "uxCurrentNumberOfTasks (kn w) - 1 - n = uxCurrentNumberOfTasks (kn w) - (1 + n)" for n by simp
    moreover have "B - {a, b} - (C \<union> D) = B - (insert b C \<union> insert a D)" for B C D :: "nat set" and a b by auto
    ultimately show ?thesis using Cons.IH [OF w1(2-5)] True w1(1,6-14) by (auto simp: fun_eq_iff)
  qed
qed


section \<open>Tasks deleted twice, and tasks that still run\<close>

lemma termination_loop_spins:
  assumes "0 < uxTasksDeleted w" "listLIST_IS_EMPTY xTasksWaitingTermination (lists (kn w))"
  shows "termination_loop core w = None"
proof (rule ccontr)
  assume "termination_loop core w \<noteq> None"
  then obtain r where "termination_loop core w = Some r" by blast
  moreover have "\<not> (0 < uxTasksDeleted w \<and> listLIST_IS_EMPTY xTasksWaitingTermination (lists (kn w)))" if "termination_loop core w = Some r" for w r
    by (rule termination_loop.raw_induct [OF _ that]) (auto split: if_splits)
  ultimately show False using assms by blast
qed

lemma one_doomed:
  assumes inv: "kernel_inv k" and d: "doomed k = {t}"
  obtains L where "kernel_ok k L" "timed k L" "L xTasksWaitingTermination = Some (map xGenericListItem [t])"
proof -
  obtain L where L: "kernel_ok k L" "timed k L" using inv by (auto simp: kernel_inv_def)
  obtain ts where ts: "L xTasksWaitingTermination = Some (map xGenericListItem ts)" "distinct ts" "set ts = {t}"
    using termination_list [OF L(1)] d by metis
  then have "ts = [t]" by (cases ts; cases "tl ts") (auto simp: subset_singleton_iff)
  then show ?thesis using that L ts(1) by simp
qed

text \<open>
  Deleting a task twice hangs the system: the counter of deleted tasks then exceeds the number of tasks on
  the list, and the loop of the idle task, which holds the kernel's lock, spins for ever once the list is empty.
\<close>

theorem deleting_twice_hangs_idle:
  assumes ok: "sched_ok w" "doomed (kn w) = {}" and t: "may_stop core t w" "\<not> is_current core t w" "tskCAN_RUN_HERE c (xCoreID (kn w) t)"
  shows "\<exists>w1 w2. vTaskDelete core (Some t) w = Inr (False, w1) \<and> vTaskDelete core (Some t) w1 = Inr (False, w2) \<and>
    prvCheckTasksWaitingTermination c w2 = Inl Blocks_Forever"
proof -
  have h: "prvGetTCBFromHandle core (Some t) v = Inr t" for v by (simp add: prvGetTCBFromHandle_def)
  have inv: "kernel_inv (kn w)" "uxTasksDeleted w = 0" using ok by (simp_all add: sched_ok_def unat_eq_0)
  obtain w1 where w1: "vTaskDelete core (Some t) w = Inr (False, w1)" "kernel_inv (kn w1)" "uxTasksDeleted w1 = 1"
    "pvContainer (lists (kn w1)) = (pvContainer (lists (kn w)))(xGenericListItem t := Some xTasksWaitingTermination, xEventListItem t := None)"
    "xCoreID (kn w1) = xCoreID (kn w)" "pxCurrentTCB (kn w1) = pxCurrentTCB (kn w)" "no_task w1 = no_task w" "xSchedulerRunning w1"
    using vTaskDelete_ok [OF inv(1) h t(1)] t(2) inv(2) by auto
  have n: "\<not> is_current core t w1" using t(2) w1(6,7) by (simp add: is_current_def)
  then have "may_stop core t w1" using w1(4,8) by (simp add: may_stop_def)
  then obtain w2 where w2: "vTaskDelete core (Some t) w1 = Inr (False, w2)" "kernel_inv (kn w2)" "uxTasksDeleted w2 = 1 + 1"
    "pvContainer (lists (kn w2)) = (pvContainer (lists (kn w1)))(xGenericListItem t := Some xTasksWaitingTermination, xEventListItem t := None)"
    "xCoreID (kn w2) = xCoreID (kn w1)"
    using vTaskDelete_ok [OF w1(2) h] n w1(3) by auto
  have "doomed (kn w2) = {t}" using delete_doomed [OF w2(4)] delete_doomed [OF w1(4)] ok(2) by simp
  then obtain L where L: "kernel_ok (kn w2) L" "timed (kn w2) L" "L xTasksWaitingTermination = Some (map xGenericListItem [t])"
    using one_doomed [OF w2(2)] by blast
  have "0 < uxTasksDeleted w2" "tskCAN_RUN_HERE c (xCoreID (kn w2) t)" using w2(3,5) w1(5) t(3) by simp_all
  from release_step [OF w2(2) L this] obtain w3 L3 where w3: "termination_loop c w2 = termination_loop c w3"
    "uxTasksDeleted w3 = uxTasksDeleted w2 - 1" "kernel_ok (kn w3) L3" "L3 xTasksWaitingTermination = Some []" by auto
  have "listLIST_IS_EMPTY xTasksWaitingTermination (lists (kn w3))"
    using holds_list_empty [OF kernel_listsD [OF kernel_okD(1) [OF w3(3)] w3(4)]] by simp
  then have "termination_loop c w3 = None" using w3(2) w2(3) by (intro termination_loop_spins) simp_all
  then show ?thesis using w1(1) w2(1) w3(1) by (auto simp: prvCheckTasksWaitingTermination_def or_blocks_def)
qed

text \<open>
  A task that is not pinned to a core and deletes itself can lose its stack while it runs: the idle task of the
  other core frees its control block and its stack although it is still the current task of its core.
\<close>

theorem running_task_is_released:
  assumes ok: "sched_ok w" "doomed (kn w) = {}" and t: "is_current 1 t w" "may_stop 1 t w" "xCoreID (kn w) t = None"
  shows "\<exists>w1 w2. vTaskDelete 1 None w = Inr (True, w1) \<and> prvCheckTasksWaitingTermination 0 w1 = Inr w2 \<and>
    is_current 1 t w2 \<and> t \<notin> blocks w2 \<and> pxStack w t \<notin> blocks w2"
proof -
  have h: "prvGetTCBFromHandle 1 None w = Inr t" using t(1) by (simp add: prvGetTCBFromHandle_def is_current_def)
  have inv: "kernel_inv (kn w)" "uxTasksDeleted w = 0" using ok by (simp_all add: sched_ok_def unat_eq_0)
  obtain w1 where w1: "vTaskDelete 1 None w = Inr (True, w1)" "kernel_inv (kn w1)" "uxTasksDeleted w1 = 1"
    "pvContainer (lists (kn w1)) = (pvContainer (lists (kn w)))(xGenericListItem t := Some xTasksWaitingTermination, xEventListItem t := None)"
    "xCoreID (kn w1) = xCoreID (kn w)" "pxCurrentTCB (kn w1) = pxCurrentTCB (kn w)" "no_task w1 = no_task w" "pxStack w1 = pxStack w"
    using vTaskDelete_ok [OF inv(1) h t(2)] t(1) inv(2) by auto
  have "doomed (kn w1) = {t}" using delete_doomed [OF w1(4)] ok(2) by simp
  then obtain L where L: "kernel_ok (kn w1) L" "timed (kn w1) L" "L xTasksWaitingTermination = Some (map xGenericListItem [t])"
    using one_doomed [OF w1(2)] by blast
  have "released 0 (kn w1) [t] = [t]" using t(3) w1(5) by (simp add: released_def tskCAN_RUN_HERE_def)
  then show ?thesis using release_all [OF w1(2) L, of 0] w1 t(1)
    by (auto simp: prvCheckTasksWaitingTermination_def or_blocks_def is_current_def)
qed

section \<open>Suspension and resumption\<close>

lemma make_ready_inv:
  assumes inv: "kernel_inv k" and t: "pvContainer (lists k) (xGenericListItem t) \<noteq> None"
  shows "\<exists>k1 k'. list_remove (xGenericListItem t) k = Inr k1 \<and> k' = prvAddTaskToReadyList t k1 \<and> kernel_inv k' \<and> same_but_lists k k' \<and>
    pvContainer (lists k') = (pvContainer (lists k))(xGenericListItem t := Some (pxReadyTasksLists (uxPriority k t)))"
proof -
  obtain L where ok: "kernel_ok k L" "timed k L" "priorities_ok k" using inv by (auto simp: kernel_inv_def)
  obtain l where l: "pvContainer (lists k) (xGenericListItem t) = Some l" using t by blast
  obtain xs where xs: "L l = Some xs" using kernel_okD(4) [OF ok(1) l] by blast
  obtain m where m: "list_remove (xGenericListItem t) k = Inr (k\<lparr>lists := m\<rparr>)" "kernel_ok (k\<lparr>lists := m\<rparr>) (L(l \<mapsto> remove1 (xGenericListItem t) xs))"
    "pvContainer m = (pvContainer (lists k))(xGenericListItem t := None)" "xItemValue m = xItemValue (lists k)"
    using list_remove_ok [OF ok(1) l xs] by blast
  have "priorities_ok (k\<lparr>lists := m\<rparr>)" using ok(3) by (auto simp: priorities_ok_def ready_at_def m(3) split: if_splits)
  then have i: "kernel_inv (k\<lparr>lists := m\<rparr>)" using m(2) timed_remove [OF ok(2) m(4) xs] unfolding kernel_inv_def by blast
  have "pvContainer (lists (k\<lparr>lists := m\<rparr>)) (xGenericListItem t) = None" "task_address t"
    using m(3) kernel_okD(4) [OF ok(1) l] by (auto simp: fits_on_def)
  from add_ready_inv [OF i this] show ?thesis using m(1,3) by (auto simp: same_but_lists_def prvAddTaskToReadyList_def)
qed

lemma yield_for_frame:
  "lists (snd (yield_for core t k)) = lists k" "kernel_inv (snd (yield_for core t k)) = kernel_inv k"
  by (simp_all add: yield_for_def)

text \<open>Ticks leave tasks alone that do not sleep.\<close>

lemma ticks_inv:
  assumes "kernel_inv k" "uxSchedulerSuspended k 0 = 0" "\<not> sleeping k t"
  shows "\<exists>k'. ticks n k = Inr k' \<and> kernel_inv k' \<and> uxSchedulerSuspended k' = uxSchedulerSuspended k \<and> uxPriority k' = uxPriority k \<and>
    pxCurrentTCB k' = pxCurrentTCB k \<and> pvContainer (lists k') (xGenericListItem t) = pvContainer (lists k) (xGenericListItem t) \<and>
    pvContainer (lists k') (xEventListItem t) = pvContainer (lists k) (xEventListItem t)"
proof (induction n)
  case (Suc n)
  then obtain k1 where k1: "ticks n k = Inr k1" "kernel_inv k1" "uxSchedulerSuspended k1 = uxSchedulerSuspended k" "uxPriority k1 = uxPriority k"
    "pxCurrentTCB k1 = pxCurrentTCB k" "pvContainer (lists k1) (xGenericListItem t) = pvContainer (lists k) (xGenericListItem t)"
    "pvContainer (lists k1) (xEventListItem t) = pvContainer (lists k) (xEventListItem t)" by blast
  have s: "uxSchedulerSuspended k1 0 = 0" "\<not> sleeping k1 t" using assms(2,3) k1(3,6) by (simp_all add: sleeping_def)
  obtain L where L: "kernel_ok k1 L" "timed k1 L" using k1(2) by (auto simp: kernel_inv_def)
  obtain sw k2 where k2: "xTaskIncrementTick 0 k1 = Inr (sw, k2)" "same_but_time k1 k2"
    "pvContainer (lists k2) (xGenericListItem t) = pvContainer (lists k1) (xGenericListItem t)"
    "pvContainer (lists k2) (xEventListItem t) = pvContainer (lists k1) (xEventListItem t)"
    using tick_effect [OF L s(1)] s(2) by metis
  moreover have "kernel_inv k2" using tick_inv [OF k1(2) s(1)] k2(1) by auto
  ultimately show ?case using k1 same_but_timeD [OF k2(2)] by auto
qed (use assms in simp)


section \<open>New tasks\<close>

definition new_priority :: "nat \<Rightarrow> nat" where
  "new_priority p = min p (configMAX_PRIORITIES - 1)"

definition fresh :: "nat \<Rightarrow> kernel \<Rightarrow> bool" where
  "fresh t k \<longleftrightarrow> task_address t \<and> pvContainer (lists k) (xGenericListItem t) = None \<and> pvContainer (lists k) (xEventListItem t) = None"

lemma new_task_inv:
  assumes inv: "kernel_inv (kn w)" and t: "fresh t (kn w)"
  shows "kernel_inv (kn (prvInitialiseNewTask name prio t cid w))"
    "pvContainer (lists (kn (prvInitialiseNewTask name prio t cid w))) = pvContainer (lists (kn w))"
    "uxPriority (kn (prvInitialiseNewTask name prio t cid w)) = (uxPriority (kn w))(t := new_priority prio)"
    "xCoreID (kn (prvInitialiseNewTask name prio t cid w)) = (xCoreID (kn w))(t := cid)"
proof -
  let ?p = "new_priority prio" and ?w = "prvInitialiseNewTask name prio t cid w"
  obtain L where L: "kernel_ok (kn w) L" "timed (kn w) L" "priorities_ok (kn w)" using inv by (auto simp: kernel_inv_def)
  have p: "(if prio \<ge> configMAX_PRIORITIES then configMAX_PRIORITIES - 1 else prio) = ?p" "?p < configMAX_PRIORITIES"
    by (auto simp: new_priority_def configMAX_PRIORITIES_def)
  have "(pvContainer (lists (kn w)))(xGenericListItem t := None, xEventListItem t := None) = pvContainer (lists (kn w))"
    "(pvOwner (lists (kn w)))(xGenericListItem t := t, xEventListItem t := t) = pvOwner (lists (kn w))"
    using t kernel_okD(5,6) [OF L(1)] by (auto simp: fresh_def fun_eq_iff)
  then have kn: "kn ?w = (set_event_value t ?p (kn w))\<lparr>uxPriority := (uxPriority (kn w))(t := ?p), xCoreID := (xCoreID (kn w))(t := cid),
      uxBasePriority := (uxBasePriority (kn w))(t := ?p), uxMutexesHeld := (uxMutexesHeld (kn w))(t := 0)\<rparr>"
    unfolding prvInitialiseNewTask_def p(1)
    by (simp add: Let_def set_event_value_def vListInitialiseItem_def listSET_LIST_ITEM_OWNER_def listSET_LIST_ITEM_VALUE_def)
  let ?k = "(set_event_value t ?p (kn w))\<lparr>uxPriority := (uxPriority (kn w))(t := ?p)\<rparr>"
  note e = set_event_value_ok [OF L(1,2), of t ?p]
  have "kernel_ok ?k L" using kernel_okD(7) [OF L(1)] p(2) by (intro kernel_ok_priority [OF e(1)]) simp
  moreover have "timed ?k L" using e(2) by simp
  moreover have "priorities_ok ?k" using L(3) t by (auto simp: priorities_ok_def ready_at_def fresh_def)
  ultimately have "kernel_inv ?k" by (auto simp: kernel_inv_def)
  then show "kernel_inv (kn ?w)" by (simp add: kn)
  show "pvContainer (lists (kn ?w)) = pvContainer (lists (kn w))" "uxPriority (kn ?w) = (uxPriority (kn w))(t := ?p)"
    "xCoreID (kn ?w) = (xCoreID (kn w))(t := cid)" by (simp_all add: kn)
qed

lemma new_task_fields [simp]:
  "blocks (prvInitialiseNewTask name prio t cid w) = blocks w" "pxStack (prvInitialiseNewTask name prio t cid w) = pxStack w"
  "no_task (prvInitialiseNewTask name prio t cid w) = no_task w" "uxTasksDeleted (prvInitialiseNewTask name prio t cid w) = uxTasksDeleted w"
  "xSchedulerRunning (prvInitialiseNewTask name prio t cid w) = xSchedulerRunning w"
  "pxCurrentTCB (kn (prvInitialiseNewTask name prio t cid w)) = pxCurrentTCB (kn w)"
  "yields_sent (kn (prvInitialiseNewTask name prio t cid w)) = yields_sent (kn w)"
  "uxCurrentNumberOfTasks (kn (prvInitialiseNewTask name prio t cid w)) = uxCurrentNumberOfTasks (kn w)"
  by (simp_all add: prvInitialiseNewTask_def Let_def)

text \<open>The cores that could run a task of priority \<open>p\<close> with affinity \<open>cid\<close> now, in place of what they run.\<close>

definition preemptible :: "nat option \<Rightarrow> nat \<Rightarrow> kernel \<Rightarrow> nat set" where
  "preemptible cid p k = {c. c < 2 \<and> tskCAN_RUN_HERE c cid \<and> uxPriority k (pxCurrentTCB k c) < p}"

lemma in_preemptible:
  "d \<in> preemptible None p k \<longleftrightarrow> d = 0 \<and> uxPriority k (pxCurrentTCB k 0) < p \<or> d = 1 \<and> uxPriority k (pxCurrentTCB k 1) < p"
  "d \<in> preemptible (Some c) p k \<longleftrightarrow> d = c \<and> c < 2 \<and> uxPriority k (pxCurrentTCB k c) < p"
  by (auto simp: preemptible_def tskCAN_RUN_HERE_def less_2_cases_iff)

lemma start_core_choice:
  assumes w: "\<not> no_task w 0" "\<not> no_task w 1" and p: "uxPriority (kn w) t = p"
    and cid: "case cid of None \<Rightarrow> core < 2 | Some c \<Rightarrow> c < 2" and c: "c = start_core core t cid w"
  shows "c < 2" "c \<in> preemptible cid p (kn w) \<longleftrightarrow> preemptible cid p (kn w) \<noteq> {}"
    "d \<in> preemptible cid p (kn w) \<Longrightarrow> uxPriority (kn w) (pxCurrentTCB (kn w) c) \<le> uxPriority (kn w) (pxCurrentTCB (kn w) d)"
proof -
  have s: "c < 2 \<and> (c \<in> preemptible cid p (kn w) \<longleftrightarrow> (\<exists>d. d \<in> preemptible cid p (kn w))) \<and>
    (\<forall>d. d \<in> preemptible cid p (kn w) \<longrightarrow> uxPriority (kn w) (pxCurrentTCB (kn w) c) \<le> uxPriority (kn w) (pxCurrentTCB (kn w) d))"
  proof (cases cid)
    case None
    let ?a = "uxPriority (kn w) (pxCurrentTCB (kn w) 0)" and ?b = "uxPriority (kn w) (pxCurrentTCB (kn w) 1)"
    have "c = (if ?a < p \<and> ?a < ?b then 0 else if ?b < p then 1 else core)" using w None c p by (simp add: start_core_def Let_def)
    then consider "c = 0" "?a < p" "?a < ?b" | "c = 1" "?b < p" "\<not> (?a < p \<and> ?a < ?b)" | "c = core" "\<not> ?a < p" "\<not> ?b < p"
      by (cases "?a < p"; cases "?b < p"; cases "?a < ?b") auto
    then show ?thesis unfolding None in_preemptible using cid None by cases auto
  next
    case (Some e)
    then show ?thesis using c cid by (auto simp: in_preemptible start_core_def)
  qed
  then show "c < 2" "c \<in> preemptible cid p (kn w) \<longleftrightarrow> preemptible cid p (kn w) \<noteq> {}"
    "d \<in> preemptible cid p (kn w) \<Longrightarrow> uxPriority (kn w) (pxCurrentTCB (kn w) c) \<le> uxPriority (kn w) (pxCurrentTCB (kn w) d)"
    by blast+
qed

text \<open>
  A task of priority \<open>p\<close> that becomes ready takes the place of the least urgent task it can: the calling core gives up
  its task (\<open>y\<close>), or the other core is interrupted (\<open>ys\<close> are the interrupts sent).
\<close>

definition preempts :: "nat \<Rightarrow> nat option \<Rightarrow> nat \<Rightarrow> kernel \<Rightarrow> bool \<Rightarrow> nat list \<Rightarrow> bool" where
  "preempts core cid p k y ys \<longleftrightarrow>
     (if preemptible cid p k = {} then \<not> y \<and> ys = yields_sent k
      else \<exists>c \<in> preemptible cid p k. (\<forall>d \<in> preemptible cid p k. uxPriority k (pxCurrentTCB k c) \<le> uxPriority k (pxCurrentTCB k d)) \<and>
        y = (c = core) \<and> ys = (if c = core then yields_sent k else c # yields_sent k))"

lemma create_ok:
  assumes ok: "sched_ok w" "xSchedulerRunning w" "\<not> no_task w 0" "\<not> no_task w 1" and t: "fresh t (kn w)" "\<And>c. c < 2 \<Longrightarrow> pxCurrentTCB (kn w) c \<noteq> t"
    and cid: "core < 2" "case cid of None \<Rightarrow> True | Some c \<Rightarrow> c < 2"
  shows "\<exists>y w'. xTaskCreatePinnedToCore core (Some s) (Some t) name prio cid w = Inr ((Some t, y), w') \<and> sched_ok w' \<and>
    pvContainer (lists (kn w')) = (pvContainer (lists (kn w)))(xGenericListItem t := Some (pxReadyTasksLists (new_priority prio))) \<and>
    uxPriority (kn w') = (uxPriority (kn w))(t := new_priority prio) \<and> xCoreID (kn w') = (xCoreID (kn w))(t := cid) \<and>
    blocks w' = blocks w \<union> {s, t} \<and> pxStack w' = (pxStack w)(t := s) \<and> xSchedulerRunning w' \<and> no_task w' = no_task w \<and>
    pxCurrentTCB (kn w') = pxCurrentTCB (kn w) \<and> uxCurrentNumberOfTasks (kn w') = uxCurrentNumberOfTasks (kn w) + 1 \<and>
    preempts core cid (new_priority prio) (kn w) y (yields_sent (kn w'))"
proof -
  let ?p = "new_priority prio"
  define low where "low = preemptible cid ?p (kn w)"
  define w0 where "w0 = (got_block t (got_block s w))\<lparr>pxStack := (pxStack w)(t := s)\<rparr>"
  have w0: "kn w0 = kn w" "no_task w0 = no_task w" "xSchedulerRunning w0" "uxTasksDeleted w0 = uxTasksDeleted w" "blocks w0 = blocks w \<union> {s, t}"
    "pxStack w0 = (pxStack w)(t := s)" using ok(2) by (auto simp: w0_def got_block_def)
  have inv: "kernel_inv (kn w)" using ok(1) by (simp add: sched_ok_def)
  define w1 where "w1 = prvInitialiseNewTask name prio t cid w0"
  note n = new_task_inv [of w0 t name prio cid, unfolded w0(1), OF inv t(1), folded w1_def]
  define w2 where "w2 = w1\<lparr>kn := (kn w1)\<lparr>uxCurrentNumberOfTasks := uxCurrentNumberOfTasks (kn w1) + 1\<rparr>\<rparr>"
  define c where "c = start_core core t cid w2"
  have w2: "kernel_inv (kn w2)" "pvContainer (lists (kn w2)) = pvContainer (lists (kn w))" "uxPriority (kn w2) = (uxPriority (kn w))(t := ?p)"
    "xCoreID (kn w2) = (xCoreID (kn w))(t := cid)" "pxCurrentTCB (kn w2) = pxCurrentTCB (kn w)" "yields_sent (kn w2) = yields_sent (kn w)"
    "uxCurrentNumberOfTasks (kn w2) = uxCurrentNumberOfTasks (kn w) + 1" "no_task w2 = no_task w" "xSchedulerRunning w2"
    "uxTasksDeleted w2 = uxTasksDeleted w" "blocks w2 = blocks w \<union> {s, t}" "pxStack w2 = (pxStack w)(t := s)"
    using n w0 by (simp_all add: w2_def w1_def)
  have low: "preemptible cid ?p (kn w2) = low" using t(2) by (auto simp: preemptible_def low_def w2(3,5))
  have "case cid of None \<Rightarrow> core < 2 | Some c \<Rightarrow> c < 2" using cid by (auto split: option.splits)
  then have ch: "c < 2" "c \<in> low \<longleftrightarrow> low \<noteq> {}"
    "\<And>d. d \<in> low \<Longrightarrow> uxPriority (kn w2) (pxCurrentTCB (kn w2) c) \<le> uxPriority (kn w2) (pxCurrentTCB (kn w2) d)"
    using start_core_choice [where w = w2 and t = t and p = ?p and cid = cid and core = core and c = c] ok(3,4) w2(3,8) low by (auto simp: c_def)
  have c: "\<not> no_task w2 c" using ch(1) ok(3,4) w2(8) by (auto simp: less_2_cases_iff)
  define k3 where "k3 = prvAddTaskToReadyList t (kn w2)"
  define w3 where "w3 = w2\<lparr>uxTaskNumber := uxTaskNumber w2 + 1, kn := k3\<rparr>"
  have e: "enter_new_task c t w2 = w3" using c w2(9) by (simp add: enter_new_task_def Let_def w3_def k3_def)
  have f: "pvContainer (lists (kn w2)) (xGenericListItem t) = None" "task_address t" using t(1) w2(2) by (simp_all add: fresh_def)
  note a = add_ready_inv [OF w2(1) f, folded k3_def]
  note s = same_but_listsD [OF a(2)]
  have ys: "yields_sent k3 = yields_sent (kn w)" using w2(6) by (simp add: k3_def prvAddTaskToReadyList_def)
  have pr: "uxPriority k3 (pxCurrentTCB k3 c) = uxPriority (kn w) (pxCurrentTCB (kn w) c)" "uxPriority k3 t = ?p"
    using s(1,3) w2(3,5) t(2) [OF ch(1)] by simp_all
  have ce: "c \<in> low \<longleftrightarrow> uxPriority (kn w) (pxCurrentTCB (kn w) c) < ?p"
    using ch(1) cid(2) by (auto simp: low_def preemptible_def tskCAN_RUN_HERE_def c_def start_core_def split: option.splits)
  define y where "y \<longleftrightarrow> c \<in> low \<and> c = core"
  define w' where "w' = (if c \<in> low \<and> c \<noteq> core then w3\<lparr>kn := k3\<lparr>yields_sent := c # yields_sent (kn w)\<rparr>\<rparr> else w3)"
  have "prvAddNewTaskToReadyList core t cid w1 = Inr (y, w')"
  proof -
    have "taskYIELD_OTHER_CORE core (Some c) ?p k3 = k3\<lparr>yields_sent := c # yields_sent (kn w)\<rparr>" if "c \<in> low"
      using that pr ce ys by (simp add: taskYIELD_OTHER_CORE_def)
    moreover have "kn w3 = k3" "no_task w3 = no_task w2" "xSchedulerRunning w3" using w2(9) by (simp_all add: w3_def)
    then have "prvAddNewTaskToReadyList core t cid w1 = (if uxPriority k3 (pxCurrentTCB k3 c) < uxPriority k3 t
        then if c = core then Inr (True, w3) else Inr (False, w3\<lparr>kn := taskYIELD_OTHER_CORE core (Some c) (uxPriority k3 t) k3\<rparr>)
        else Inr (False, w3))"
      using cid(2) c e
      by (cases "c = core") (simp_all add: prvAddNewTaskToReadyList_def Let_def c_def [symmetric] w2_def [symmetric] split: option.splits)
    ultimately show ?thesis using pr ce by (auto simp: y_def w'_def)
  qed
  then have "xTaskCreatePinnedToCore core (Some s) (Some t) name prio cid w = Inr ((Some t, y), w')"
    by (simp add: xTaskCreatePinnedToCore_def Let_def w1_def w0_def got_block_def)
  moreover have lists: "lists (kn w') = lists k3" "kernel_inv (kn w')" using a(1) by (auto simp: w'_def w3_def)
  moreover have "sched_ok w'"
  proof -
    have "doomed (kn w') = doomed (kn w)" using f(1) w2(2) by (auto simp: doomed_def lists a(3))
    then show ?thesis using lists(2) ok(1) w2(10) by (simp add: sched_ok_def w'_def w3_def)
  qed
  moreover have "preempts core cid ?p (kn w) y (yields_sent (kn w'))"
  proof (cases "low = {}")
    case False
    have "\<forall>d \<in> low. uxPriority (kn w) (pxCurrentTCB (kn w) c) \<le> uxPriority (kn w) (pxCurrentTCB (kn w) d)"
    proof
      fix d assume "d \<in> low"
      then show "uxPriority (kn w) (pxCurrentTCB (kn w) c) \<le> uxPriority (kn w) (pxCurrentTCB (kn w) d)"
        using ch(3) [of d] t(2) [of d] t(2) [OF ch(1)] w2(3,5) by (simp add: low_def preemptible_def)
    qed
    moreover have "c \<in> low" using False ch(2) by simp
    ultimately show ?thesis using False ys unfolding preempts_def low_def [symmetric]
      by (auto simp: y_def w'_def w3_def intro!: bexI [of _ c])
  qed (use ys in \<open>simp add: preempts_def low_def [symmetric] y_def w'_def w3_def\<close>)
  ultimately show ?thesis using a(3) s w2
    by (intro exI [of _ y] exI [of _ w']) (auto simp: w'_def w3_def)
qed

text \<open>
  C15. Creation of a task while the scheduler runs: the task is ready at the priority asked for, capped at the highest one, with its
  affinity and its two blocks of memory; no other task changes its state; and it preempts the least urgent task it can
  (\<open>preempts\<close>). If one of the blocks cannot be had, nothing changes and no memory is lost.
\<close>

theorem task_creation:
  assumes ok: "sched_ok w" "xSchedulerRunning w" "\<not> no_task w 0" "\<not> no_task w 1" and t: "fresh t (kn w)" "\<And>c. c < 2 \<Longrightarrow> pxCurrentTCB (kn w) c \<noteq> t"
    and cid: "core < 2" "case cid of None \<Rightarrow> True | Some c \<Rightarrow> c < 2" and s: "s \<notin> blocks w"
  shows "(\<exists>y w'. xTaskCreatePinnedToCore core (Some s) (Some t) name prio cid w = Inr ((Some t, y), w') \<and> sched_ok w' \<and>
      ready_at (kn w') (min prio (configMAX_PRIORITIES - 1)) t \<and> xCoreID (kn w') t = cid \<and> blocks w' = blocks w \<union> {s, t} \<and>
      (\<forall>x. x \<noteq> xGenericListItem t \<longrightarrow> pvContainer (lists (kn w')) x = pvContainer (lists (kn w)) x) \<and>
      preempts core cid (min prio (configMAX_PRIORITIES - 1)) (kn w) y (yields_sent (kn w'))) \<and>
    xTaskCreatePinnedToCore core None tcb name prio cid w = Inr ((None, False), w) \<and>
    xTaskCreatePinnedToCore core (Some s) None name prio cid w = Inr ((None, False), w)"
proof -
  have "xTaskCreatePinnedToCore core (Some s) None name prio cid w = Inr ((None, False), w)"
    using s by (simp add: xTaskCreatePinnedToCore_def got_block_def vPortFree_def)
  moreover have "xTaskCreatePinnedToCore core None tcb name prio cid w = Inr ((None, False), w)" by (simp add: xTaskCreatePinnedToCore_def)
  moreover obtain y w' where w': "xTaskCreatePinnedToCore core (Some s) (Some t) name prio cid w = Inr ((Some t, y), w')" "sched_ok w'"
    "pvContainer (lists (kn w')) = (pvContainer (lists (kn w)))(xGenericListItem t := Some (pxReadyTasksLists (new_priority prio)))"
    "xCoreID (kn w') = (xCoreID (kn w))(t := cid)" "blocks w' = blocks w \<union> {s, t}"
    "preempts core cid (new_priority prio) (kn w) y (yields_sent (kn w'))"
    using create_ok [OF ok t cid, of s name prio] by blast
  ultimately show ?thesis
    unfolding new_priority_def [symmetric] by (intro conjI exI [of _ y] exI [of _ w']) (simp_all add: ready_at_def)
qed

text \<open>
  C14. A whole life: a task that is created, deleted and released by an idle task leaves nothing behind: no
  memory, no list item, no count.
\<close>

theorem task_life_leaves_nothing:
  assumes ok: "sched_ok w" "xSchedulerRunning w" "\<not> no_task w 0" "\<not> no_task w 1" "doomed (kn w) = {}"
    and t: "fresh t (kn w)" "\<And>c. c < 2 \<Longrightarrow> pxCurrentTCB (kn w) c \<noteq> t" and cid: "core < 2" "case cid of None \<Rightarrow> True | Some c \<Rightarrow> c < 2"
    and m: "s \<notin> blocks w" "t \<notin> blocks w" and c: "tskCAN_RUN_HERE c cid"
  shows "\<exists>y w1 w2 w3. xTaskCreatePinnedToCore core (Some s) (Some t) name prio cid w = Inr ((Some t, y), w1) \<and>
    vTaskDelete core (Some t) w1 = Inr (False, w2) \<and> prvCheckTasksWaitingTermination c w2 = Inr w3 \<and> sched_ok w3 \<and>
    blocks w3 = blocks w \<and> pvContainer (lists (kn w3)) = pvContainer (lists (kn w)) \<and>
    uxCurrentNumberOfTasks (kn w3) = uxCurrentNumberOfTasks (kn w) \<and> uxTasksDeleted w3 = uxTasksDeleted w"
proof -
  obtain y w1 where w1: "xTaskCreatePinnedToCore core (Some s) (Some t) name prio cid w = Inr ((Some t, y), w1)" "sched_ok w1"
    "pvContainer (lists (kn w1)) = (pvContainer (lists (kn w)))(xGenericListItem t := Some (pxReadyTasksLists (new_priority prio)))"
    "xCoreID (kn w1) = (xCoreID (kn w))(t := cid)" "blocks w1 = blocks w \<union> {s, t}" "pxStack w1 = (pxStack w)(t := s)"
    "xSchedulerRunning w1" "no_task w1 = no_task w" "pxCurrentTCB (kn w1) = pxCurrentTCB (kn w)"
    "uxCurrentNumberOfTasks (kn w1) = uxCurrentNumberOfTasks (kn w) + 1"
    using create_ok [OF ok(1-4) t cid, of s name prio] by blast
  have z: "uxTasksDeleted w = 0" using ok(1,5) by (simp add: sched_ok_def unat_eq_0)
  have d1: "doomed (kn w1) = {}" using ok(5) by (auto simp: doomed_def w1(3) split: if_splits)
  then have z1: "uxTasksDeleted w1 = 0" using w1(2) by (simp add: sched_ok_def unat_eq_0)
  have inv: "kernel_inv (kn w1)" using w1(2) by (simp add: sched_ok_def)
  have n: "\<not> is_current core t w1" using t(2) [OF cid(1)] w1(9) by (simp add: is_current_def)
  have h: "prvGetTCBFromHandle core (Some t) w1 = Inr t" "may_stop core t w1" using n w1(3,7) by (simp_all add: prvGetTCBFromHandle_def may_stop_def)
  obtain w2 where w2: "vTaskDelete core (Some t) w1 = Inr (False, w2)" "kernel_inv (kn w2)" "uxTasksDeleted w2 = 1"
    "pvContainer (lists (kn w2)) = (pvContainer (lists (kn w1)))(xGenericListItem t := Some xTasksWaitingTermination, xEventListItem t := None)"
    "blocks w2 = blocks w1" "pxStack w2 = pxStack w1" "xCoreID (kn w2) = xCoreID (kn w1)"
    "uxCurrentNumberOfTasks (kn w2) = uxCurrentNumberOfTasks (kn w1)"
    using vTaskDelete_ok [OF inv h] n z1 by auto
  have "doomed (kn w2) = {t}" using delete_doomed [OF w2(4)] d1 by simp
  then obtain L where L: "kernel_ok (kn w2) L" "timed (kn w2) L" "L xTasksWaitingTermination = Some (map xGenericListItem [t])"
    using one_doomed [OF w2(2)] by blast
  have rel: "released c (kn w2) [t] = [t]" using c w2(7) w1(4) by (simp add: released_def)
  obtain w3 where w3: "termination_loop c w2 = Some (Inr w3)" "kernel_inv (kn w3)" "unat (uxTasksDeleted w3) = 0"
    "pvContainer (lists (kn w3)) = (\<lambda>x. if x = xGenericListItem t then None else pvContainer (lists (kn w2)) x)"
    "blocks w3 = blocks w2 - ({t} \<union> pxStack w2 ` {t})" "uxCurrentNumberOfTasks (kn w3) = uxCurrentNumberOfTasks (kn w2) - 1"
    using release_all [OF w2(2) L, of c] w2(3) rel by auto
  have cont: "pvContainer (lists (kn w3)) = pvContainer (lists (kn w))"
    using t(1) by (auto simp: fun_eq_iff w3(4) w2(4) w1(3) fresh_def)
  then have "doomed (kn w3) = {}" using ok(5) by (simp add: doomed_def)
  then have "sched_ok w3" using w3(2,3) by (simp add: sched_ok_def)
  moreover have "blocks w3 = blocks w" using m by (auto simp: w3(5) w2(5,6) w1(5,6))
  moreover have "uxTasksDeleted w3 = uxTasksDeleted w" using w3(3) z by (simp add: unat_eq_0)
  moreover have "prvCheckTasksWaitingTermination c w2 = Inr w3" using w3(1) by (simp add: prvCheckTasksWaitingTermination_def or_blocks_def)
  ultimately show ?thesis using w1(1,10) w2(1,8) w3(6) cont by (intro exI [of _ y] exI [of _ w1] exI [of _ w2] exI [of _ w3]) simp
qed

section \<open>The properties at work\<close>

lemma fold_initialise_container: "pvContainer (fold vListInitialise ls m) = pvContainer m"
  by (induction ls arbitrary: m) (simp_all add: vListInitialise_def)

lemma vListInsertEnd_container: "pvContainer (vListInsertEnd l x m) = (pvContainer m)(x \<mapsto> l)"
  by (simp add: vListInsertEnd_def adopt_def set_next_def set_previous_def Let_def)

text \<open>Two ready tasks, 0 on core 1 and 1 on core 0, with their memory.\<close>

definition two_lives :: sched where
  "two_lives = \<lparr>kn = kern two_cores, xSchedulerRunning = True, no_task = (\<lambda>_. False), uxTasksDeleted = 0, uxTaskNumber = 2,
     xIdleTaskHandle = (\<lambda>_. None), pxStack = (\<lambda>t. t + 100), pcTaskName = (\<lambda>_. ''task''), pvThreadLocalStoragePointers = (\<lambda>_ _. 0),
     pvThreadLocalStoragePointersDelCallback = (\<lambda>_ _. None), tls_called = [], blocks = {0, 1, 100, 101}\<rparr>"

lemma two_lives_fields [simp]:
  "xSchedulerRunning two_lives" "\<not> no_task two_lives c" "uxTasksDeleted two_lives = 0" "blocks two_lives = {0, 1, 100, 101}"
  "pxStack two_lives = (\<lambda>t. t + 100)"
  by (simp_all add: two_lives_def)

lemma two_lives_ok:
  "sched_ok two_lives" "doomed (kn two_lives) = {}" "pxCurrentTCB (kn two_lives) = (\<lambda>_. 0)(0 := 1)" "uxPriority (kn two_lives) = (\<lambda>_. 1)(1 := 5)"
  "pvContainer (lists (kn two_lives)) = [xGenericListItem 0 \<mapsto> pxReadyTasksLists 1, xGenericListItem 1 \<mapsto> pxReadyTasksLists 5]"
  "uxSchedulerSuspended (kn two_lives) = (\<lambda>_. 0)" "xCoreID (kn two_lives) = (\<lambda>_. None)" "yields_sent (kn two_lives) = []"
proof -
  have k: "kn two_lives = kern two_cores" by (simp add: two_lives_def)
  note defs = k two_cores_def new_event_list_def two_tasks_def prvAddTaskToReadyList_def prvInitialiseTaskLists_def static_kernel_def
  show c: "pvContainer (lists (kn two_lives)) = [xGenericListItem 0 \<mapsto> pxReadyTasksLists 1, xGenericListItem 1 \<mapsto> pxReadyTasksLists 5]"
    by (simp add: defs fold_initialise_container vListInsertEnd_container vListInitialise_def)
  show d: "doomed (kn two_lives) = {}" by (auto simp: doomed_def c split: if_splits)
  have "kernel_inv (kn two_lives)" using two_cores_ok(1) by (simp add: k at_rest_def sys_ok_def)
  then show "sched_ok two_lives" using d by (simp add: sched_ok_def)
  show "pxCurrentTCB (kn two_lives) = (\<lambda>_. 0)(0 := 1)" "uxPriority (kn two_lives) = (\<lambda>_. 1)(1 := 5)"
    "uxSchedulerSuspended (kn two_lives) = (\<lambda>_. 0)" "xCoreID (kn two_lives) = (\<lambda>_. None)" "yields_sent (kn two_lives) = []"
    by (simp_all add: defs)
qed

lemma two_lives_stop: "may_stop core 0 two_lives" "is_current 1 0 two_lives" "\<not> is_current 0 0 two_lives"
  by (simp_all add: may_stop_def is_current_def two_lives_ok)

lemma two_lives_new: "fresh 7 (kn two_lives)" "c < 2 \<Longrightarrow> pxCurrentTCB (kn two_lives) c \<noteq> 7"
  by (simp_all add: fresh_def two_lives_ok)


theorem deleting_twice_hangs_idle_witness:
  "\<exists>w1 w2. vTaskDelete 0 (Some 0) two_lives = Inr (False, w1) \<and> vTaskDelete 0 (Some 0) w1 = Inr (False, w2) \<and>
     prvCheckTasksWaitingTermination 0 w2 = Inl Blocks_Forever"
  using deleting_twice_hangs_idle [OF two_lives_ok(1,2) two_lives_stop(1,3), of 0] by (simp add: tskCAN_RUN_HERE_def two_lives_ok)

theorem running_task_is_released_witness:
  "\<exists>w1 w2. vTaskDelete 1 None two_lives = Inr (True, w1) \<and> prvCheckTasksWaitingTermination 0 w1 = Inr w2 \<and>
     is_current 1 0 w2 \<and> 0 \<notin> blocks w2 \<and> 100 \<notin> blocks w2"
  using running_task_is_released [OF two_lives_ok(1,2) two_lives_stop(2,1)] by (simp add: two_lives_ok)


text \<open>A new task of priority 3 preempts task 0, of priority 1, on the other core.\<close>

theorem task_creation_witness:
  "\<exists>w'. xTaskCreatePinnedToCore 0 (Some 107) (Some 7) ''new'' 3 None two_lives = Inr ((Some 7, False), w') \<and> ready_at (kn w') 3 7 \<and>
     yields_sent (kn w') = [1] \<and> blocks w' = {0, 1, 7, 100, 101, 107}"
proof -
  have s: "107 \<notin> blocks two_lives" by simp
  have "preemptible None 3 (kn two_lives) = {1}" by (auto simp: in_preemptible two_lives_ok)
  then have "preempts 0 None 3 (kn two_lives) y ys \<longleftrightarrow> \<not> y \<and> ys = [1]" for y ys by (auto simp: preempts_def two_lives_ok)
  moreover have "min 3 (configMAX_PRIORITIES - 1) = 3" by (simp add: configMAX_PRIORITIES_def)
  ultimately show ?thesis
    using task_creation [OF two_lives_ok(1) two_lives_fields(1,2,2) two_lives_new _ _ s, of 0 None "''new''" 3 None] by auto
qed

theorem task_life_leaves_nothing_witness:
  "\<exists>y w1 w2 w3. xTaskCreatePinnedToCore 0 (Some 107) (Some 7) ''new'' 3 None two_lives = Inr ((Some 7, y), w1) \<and>
     vTaskDelete 0 (Some 7) w1 = Inr (False, w2) \<and> prvCheckTasksWaitingTermination 1 w2 = Inr w3 \<and> blocks w3 = {0, 1, 100, 101}"
  using task_life_leaves_nothing [OF two_lives_ok(1) two_lives_fields(1,2,2) two_lives_ok(2) two_lives_new, of 0 None 107 1 "''new''" 3]
  by (auto simp: tskCAN_RUN_HERE_def)

end
