(* ===== verification/RTOS_Start.thy ===== *)
theory RTOS_Start
  imports RTOS_Task_Life
begin

text \<open>
  The start of the scheduler (\<^verbatim>\<open>vTaskStartScheduler\<close> in \<^verbatim>\<open>components/freertos/tasks.c\<close>) with the idle tasks of both
  cores and the task of the timer service (\<^verbatim>\<open>xTimerCreateTimerTask\<close> in \<^verbatim>\<open>timers.c\<close>), from the state in which the
  static variables are at the start of the program; and the functions that ask for the state of the kernel.
\<close>

section \<open>Queries\<close>

definition uxTaskPriorityGet :: "nat \<Rightarrow> nat option \<Rightarrow> sched \<Rightarrow> nat run" where
  "uxTaskPriorityGet core xTask w = run_bind (prvGetTCBFromHandle core xTask w) (\<lambda>t. Inr (uxPriority (kn w) t))"

definition uxTaskPriorityGetFromISR :: "nat \<Rightarrow> nat option \<Rightarrow> sched \<Rightarrow> nat run" where
  "uxTaskPriorityGetFromISR core xTask w = run_bind (prvGetTCBFromHandle core xTask w) (\<lambda>t. Inr (uxPriority (kn w) t))"

definition xTaskGetTickCount :: "sched \<Rightarrow> u32" where
  "xTaskGetTickCount w = xTickCount (kn w)"

definition xTaskGetTickCountFromISR :: "sched \<Rightarrow> u32" where
  "xTaskGetTickCountFromISR w = xTickCount (kn w)"

definition uxTaskGetNumberOfTasks :: "sched \<Rightarrow> u32" where
  "uxTaskGetNumberOfTasks w = uxCurrentNumberOfTasks (kn w)"

definition pcTaskGetTaskName :: "nat \<Rightarrow> nat option \<Rightarrow> sched \<Rightarrow> string run" where
  "pcTaskGetTaskName core xTask w =
     (case prvGetTCBFromHandle core xTask w of Inl _ \<Rightarrow> Inl Assert_Failed | Inr t \<Rightarrow> Inr (pcTaskName w t))"

definition xTaskGetIdleTaskHandle :: "nat \<Rightarrow> sched \<Rightarrow> nat run" where
  "xTaskGetIdleTaskHandle core w = (case xIdleTaskHandle w core of None \<Rightarrow> Inl Assert_Failed | Some t \<Rightarrow> Inr t)"

definition xTaskGetAffinity :: "nat \<Rightarrow> nat option \<Rightarrow> sched \<Rightarrow> nat option run" where
  "xTaskGetAffinity core xTask w = run_bind (prvGetTCBFromHandle core xTask w) (\<lambda>t. Inr (xCoreID (kn w) t))"

text \<open>The number of the processor is signed, and only its upper bound is tested.\<close>

definition xTaskGetCurrentTaskHandleForCPU :: "int \<Rightarrow> sched \<Rightarrow> nat option run" where
  "xTaskGetCurrentTaskHandleForCPU cpuid w =
     (if cpuid < 2 then
        if cpuid < 0 then Inl Out_Of_Bounds
        else Inr (if no_task w (nat cpuid) then None else Some (pxCurrentTCB (kn w) (nat cpuid)))
      else Inr None)"

definition xTaskGetCurrentTaskHandle :: "nat \<Rightarrow> sched \<Rightarrow> nat option" where
  "xTaskGetCurrentTaskHandle core w = (if no_task w core then None else Some (pxCurrentTCB (kn w) core))"

datatype scheduler_state = taskSCHEDULER_NOT_STARTED | taskSCHEDULER_RUNNING | taskSCHEDULER_SUSPENDED

definition xTaskGetSchedulerState :: "nat \<Rightarrow> sched \<Rightarrow> scheduler_state" where
  "xTaskGetSchedulerState core w =
     (if \<not> xSchedulerRunning w then taskSCHEDULER_NOT_STARTED
      else if uxSchedulerSuspended (kn w) core = 0 then taskSCHEDULER_RUNNING
      else taskSCHEDULER_SUSPENDED)"

section \<open>The start of the scheduler\<close>

type_synonym task_memory = "nat option \<times> nat option"

definition configTIMER_TASK_PRIORITY :: nat where "configTIMER_TASK_PRIORITY = 1"

text \<open>
  The task of the timer service, on core 0. The kernel of \<open>w\<close> is the one the timers' queue is in; \<open>h\<close> is the handle of that
  queue, and \<open>mem\<close> are the results of the two allocations for the task.
\<close>

definition xTimerCreateTimerTask ::
  "nat \<Rightarrow> (nat \<Rightarrow> byte list option) \<Rightarrow> qhandle \<Rightarrow> task_memory \<Rightarrow> tsys \<times> sched \<Rightarrow> (tsys \<times> sched) run" where
  "xTimerCreateTimerTask core pvPortMalloc h mem = (\<lambda>(s, w).
     run_bind (prvCheckForValidListAndQueue pvPortMalloc h (s\<lparr>qs := (qs s)\<lparr>kern := kn w\<rparr>\<rparr>)) (\<lambda>s1.
       if xTimerQueue s1 = None then Inl Assert_Failed
       else run_bind (xTaskCreatePinnedToCore core (fst mem) (snd mem) ''Tmr Svc'' configTIMER_TASK_PRIORITY (Some 0) (w\<lparr>kn := kern (qs s1)\<rparr>))
         (\<lambda>((xReturn, _), w1).
           if xReturn = None then Inl Assert_Failed else Inr (s1\<lparr>qs := (qs s1)\<lparr>kern := kn w1\<rparr>\<rparr>, w1))))"

text \<open>One round of the loop that creates the idle tasks; the result is the value of \<^verbatim>\<open>xReturn\<close>.\<close>

definition create_idle :: "nat \<Rightarrow> nat \<Rightarrow> task_memory \<Rightarrow> sched \<Rightarrow> (bool \<times> sched) run" where
  "create_idle core i mem w =
     run_bind (xTaskCreatePinnedToCore core (fst mem) (snd mem) ''IDLE'' 0 (Some i) w) (\<lambda>((t, _), w1).
       Inr (t \<noteq> None, if t = None then w1 else w1\<lparr>xIdleTaskHandle := (xIdleTaskHandle w1)(i := t)\<rparr>))"

text \<open>Up to the call of \<^verbatim>\<open>xPortStartScheduler\<close>, which is part of the port.\<close>

definition vTaskStartScheduler ::
  "nat \<Rightarrow> (nat \<Rightarrow> byte list option) \<Rightarrow> qhandle \<Rightarrow> task_memory \<Rightarrow> task_memory \<Rightarrow> task_memory \<Rightarrow> tsys \<times> sched \<Rightarrow> (tsys \<times> sched) run" where
  "vTaskStartScheduler core pvPortMalloc h mem0 mem1 memT = (\<lambda>(s, w).
     run_bind (create_idle core 0 mem0 w) (\<lambda>(_, w1).
     run_bind (create_idle core 1 mem1 w1) (\<lambda>(xReturn, w2).
       if \<not> xReturn then Inl Assert_Failed
       else run_bind (xTimerCreateTimerTask core pvPortMalloc h memT (s, w2)) (\<lambda>(s3, w3).
         let k = (kn w3)\<lparr>xTickCount := 0\<rparr>
         in Inr (s3\<lparr>qs := (qs s3)\<lparr>kern := k\<rparr>\<rparr>, w3\<lparr>kn := k, xSchedulerRunning := True\<rparr>)))))"

text \<open>Up to the call of \<^verbatim>\<open>vPortEndScheduler\<close>.\<close>

definition vTaskEndScheduler :: "sched \<Rightarrow> sched" where
  "vTaskEndScheduler w = w\<lparr>xSchedulerRunning := False\<rparr>"

section \<open>Creation before the start\<close>

text \<open>The state before the first task: no task, no list, all counters zero.\<close>

definition unborn :: "sched \<Rightarrow> bool" where
  "unborn w \<longleftrightarrow> \<not> xSchedulerRunning w \<and> no_task w = (\<lambda>_. True) \<and> uxTasksDeleted w = 0 \<and> uxCurrentNumberOfTasks (kn w) = 0 \<and>
     pvContainer (lists (kn w)) = (\<lambda>_. None) \<and> initialised (kn w) = {} \<and> uxTopReadyPriority (kn w) = 0 \<and>
     (\<forall>t. uxPriority (kn w) t < configMAX_PRIORITIES \<and> pvOwner (lists (kn w)) (xGenericListItem t) = t \<and> pvOwner (lists (kn w)) (xEventListItem t) = t) \<and>
     uxSchedulerSuspended (kn w) = (\<lambda>_. 0) \<and> xIdleTaskHandle w = (\<lambda>_. None)"

lemma initialised_kernel_inv:
  assumes c: "pvContainer (lists k) = (\<lambda>_. None)"
    and o: "\<And>t. pvOwner (lists k) (xGenericListItem t) = t" "\<And>t. pvOwner (lists k) (xEventListItem t) = t"
    and p: "\<And>t. uxPriority k t < configMAX_PRIORITIES" and e: "initialised k = {}" "uxTopReadyPriority k = 0"
  shows "kernel_inv (prvInitialiseTaskLists k)"
proof -
  have "kernel_ok (prvInitialiseTaskLists k) no_tasks \<and> timed (prvInitialiseTaskLists k) no_tasks"
    using c o p e by (intro prvInitialiseTaskLists_ok) simp_all
  moreover have "pvContainer (lists (prvInitialiseTaskLists k)) = (\<lambda>_. None)" "uxTopReadyPriority (prvInitialiseTaskLists k) = 0"
    using c e by (simp_all add: prvInitialiseTaskLists_def fold_initialise_container del: fold_append)
  then have "priorities_ok (prvInitialiseTaskLists k)" by (simp add: priorities_ok_def ready_at_def configMAX_PRIORITIES_def)
  ultimately show ?thesis by (auto simp: kernel_inv_def)
qed
lemma initialise_lists_fields [simp]:
  "pvContainer (lists (prvInitialiseTaskLists k)) = pvContainer (lists k)" "uxPriority (prvInitialiseTaskLists k) = uxPriority k"
  "xCoreID (prvInitialiseTaskLists k) = xCoreID k" "pxCurrentTCB (prvInitialiseTaskLists k) = pxCurrentTCB k"
  "uxCurrentNumberOfTasks (prvInitialiseTaskLists k) = uxCurrentNumberOfTasks k" "initialised (prvInitialiseTaskLists k) = initialised k"
  "uxSchedulerSuspended (prvInitialiseTaskLists k) = uxSchedulerSuspended k"
  by (simp_all add: prvInitialiseTaskLists_def fold_initialise_container del: fold_append)

lemma new_task_more [simp]:
  "initialised (kn (prvInitialiseNewTask name prio t cid w)) = initialised (kn w)"
  "uxTopReadyPriority (kn (prvInitialiseNewTask name prio t cid w)) = uxTopReadyPriority (kn w)"
  "uxSchedulerSuspended (kn (prvInitialiseNewTask name prio t cid w)) = uxSchedulerSuspended (kn w)"
  "xIdleTaskHandle (prvInitialiseNewTask name prio t cid w) = xIdleTaskHandle w"
  "pvOwner (lists (kn (prvInitialiseNewTask name prio t cid w))) = (pvOwner (lists (kn w)))(xGenericListItem t := t, xEventListItem t := t)"
  "pvContainer (lists (kn (prvInitialiseNewTask name prio t cid w))) = (pvContainer (lists (kn w)))(xGenericListItem t := None, xEventListItem t := None)"
  "uxPriority (kn (prvInitialiseNewTask name prio t cid w)) = (uxPriority (kn w))(t := new_priority prio)"
  "xCoreID (kn (prvInitialiseNewTask name prio t cid w)) = (xCoreID (kn w))(t := cid)"
  by (auto simp: prvInitialiseNewTask_def Let_def vListInitialiseItem_def listSET_LIST_ITEM_OWNER_def listSET_LIST_ITEM_VALUE_def new_priority_def)

text \<open>A task that is created for core \<open>c\<close> before the scheduler starts, as the first one or after others.\<close>

lemma create_early:
  assumes r: "\<not> xSchedulerRunning w" and t: "fresh t (kn w)" and c: "c < 2" "no_task w c \<or> pxCurrentTCB (kn w) c \<noteq> t"
    and b: "kernel_inv (kn w) \<and> uxCurrentNumberOfTasks (kn w) \<noteq> 0 \<or> unborn w"
  shows "\<exists>w'. xTaskCreatePinnedToCore core (Some s) (Some t) name prio (Some c) w = Inr ((Some t, False), w') \<and> kernel_inv (kn w') \<and>
    \<not> xSchedulerRunning w' \<and> no_task w' = (no_task w)(c := False) \<and> uxTasksDeleted w' = uxTasksDeleted w \<and> xIdleTaskHandle w' = xIdleTaskHandle w \<and>
    uxCurrentNumberOfTasks (kn w') = uxCurrentNumberOfTasks (kn w) + 1 \<and> initialised (kn w') = initialised (kn w) \<and>
    uxSchedulerSuspended (kn w') = uxSchedulerSuspended (kn w) \<and>
    uxPriority (kn w') = (uxPriority (kn w))(t := new_priority prio) \<and> xCoreID (kn w') = (xCoreID (kn w))(t := Some c) \<and>
    pvContainer (lists (kn w')) = (pvContainer (lists (kn w)))(xGenericListItem t := Some (pxReadyTasksLists (new_priority prio))) \<and>
    pxCurrentTCB (kn w') = (if no_task w c \<or> uxPriority (kn w) (pxCurrentTCB (kn w) c) \<le> new_priority prio
      then (pxCurrentTCB (kn w))(c := t) else pxCurrentTCB (kn w))"
proof -
  let ?p = "new_priority prio"
  define w0 where "w0 = (got_block t (got_block s w))\<lparr>pxStack := (pxStack w)(t := s)\<rparr>"
  have w0: "kn w0 = kn w" "no_task w0 = no_task w" "\<not> xSchedulerRunning w0" "uxTasksDeleted w0 = uxTasksDeleted w" "xIdleTaskHandle w0 = xIdleTaskHandle w"
    using r by (auto simp: w0_def got_block_def)
  define w1 where "w1 = prvInitialiseNewTask name prio t (Some c) w0"
  define k2 where "k2 = (kn w1)\<lparr>uxCurrentNumberOfTasks := uxCurrentNumberOfTasks (kn w1) + 1\<rparr>"
  define w2 where "w2 = w1\<lparr>kn := k2\<rparr>"
  have idem: "(pvContainer (lists (kn w)))(xGenericListItem t := None, xEventListItem t := None) = pvContainer (lists (kn w))"
    using t by (auto simp: fresh_def fun_eq_iff)
  have k2: "pvContainer (lists k2) = pvContainer (lists (kn w))" "uxPriority k2 = (uxPriority (kn w))(t := ?p)" "xCoreID k2 = (xCoreID (kn w))(t := Some c)"
    "pxCurrentTCB k2 = pxCurrentTCB (kn w)" "uxCurrentNumberOfTasks k2 = uxCurrentNumberOfTasks (kn w) + 1" "initialised k2 = initialised (kn w)"
    "uxSchedulerSuspended k2 = uxSchedulerSuspended (kn w)"
    using idem w0(1) by (simp_all add: k2_def w1_def)
  have f2: "no_task w2 = no_task w" "\<not> xSchedulerRunning w2" "uxTasksDeleted w2 = uxTasksDeleted w" "xIdleTaskHandle w2 = xIdleTaskHandle w" "kn w2 = k2"
    using w0 by (simp_all add: w2_def w1_def)
  define cur where "cur = (if no_task w c \<or> uxPriority (kn w) (pxCurrentTCB (kn w) c) \<le> ?p then (pxCurrentTCB (kn w))(c := t) else pxCurrentTCB (kn w))"
  define first where "first \<longleftrightarrow> no_task w c \<and> uxCurrentNumberOfTasks (kn w) = 0"
  define chosen where "chosen \<longleftrightarrow> no_task w c \<or> uxPriority (kn w) (pxCurrentTCB (kn w) c) \<le> ?p"
  define k3 where "k3 = (if first then prvInitialiseTaskLists (k2\<lparr>pxCurrentTCB := cur\<rparr>) else if chosen then k2\<lparr>pxCurrentTCB := cur\<rparr> else k2)"
  define w3 where "w3 = (if no_task w c then w2\<lparr>kn := k3, no_task := (no_task w)(c := False)\<rparr> else w2\<lparr>kn := k3\<rparr>)"
  have pr: "no_task w c \<or> uxPriority k2 (pxCurrentTCB k2 c) = uxPriority (kn w) (pxCurrentTCB (kn w) c)" using c(2) k2(2,4) by auto
  have nt: "(no_task w)(c := False) = no_task w" if "\<not> no_task w c" using that by (auto simp: fun_eq_iff)
  have e: "enter_new_task c t w2 = w3\<lparr>uxTaskNumber := uxTaskNumber w2 + 1, kn := prvAddTaskToReadyList t k3\<rparr>"
    using pr f2 k2(2,4,5) by (cases "no_task w c") (auto simp: enter_new_task_def Let_def w3_def k3_def cur_def first_def chosen_def)
  have inv: "kernel_inv k3"
  proof (cases "unborn w")
    case True
    then have f: first by (simp add: first_def unborn_def)
    have p: "?p < configMAX_PRIORITIES" by (auto simp: new_priority_def configMAX_PRIORITIES_def)
    have "kernel_inv (prvInitialiseTaskLists (k2\<lparr>pxCurrentTCB := cur\<rparr>))"
      using True p k2 w0(1) by (intro initialised_kernel_inv) (auto simp: unborn_def k2_def w1_def)
    then show ?thesis using f by (simp add: k3_def)
  next
    case False
    then have k: "kernel_inv (kn w)" "uxCurrentNumberOfTasks (kn w) \<noteq> 0" using b by auto
    then show ?thesis using new_task_inv(1) [of w0 t name prio "Some c"] t w0(1) by (simp add: k3_def first_def k2_def w1_def)
  qed
  have k3: "pvContainer (lists k3) = pvContainer (lists (kn w))" "uxPriority k3 = (uxPriority (kn w))(t := ?p)" "xCoreID k3 = (xCoreID (kn w))(t := Some c)"
    "pxCurrentTCB k3 = cur" "uxCurrentNumberOfTasks k3 = uxCurrentNumberOfTasks (kn w) + 1" "initialised k3 = initialised (kn w)"
    "uxSchedulerSuspended k3 = uxSchedulerSuspended (kn w)"
    using k2 by (simp_all add: k3_def chosen_def cur_def first_def)
  have "pvContainer (lists k3) (xGenericListItem t) = None" "task_address t" using t k3(1) by (simp_all add: fresh_def)
  note a = add_ready_inv [OF inv this]
  note s = same_but_listsD [OF a(2)]
  let ?w' = "w3\<lparr>uxTaskNumber := uxTaskNumber w2 + 1, kn := prvAddTaskToReadyList t k3\<rparr>"
  have "prvAddNewTaskToReadyList core t (Some c) w1 = Inr (False, ?w')"
    using c(1) e f2(2) by (simp add: prvAddNewTaskToReadyList_def start_core_def Let_def w2_def [symmetric] k2_def [symmetric] w3_def)
  then have "xTaskCreatePinnedToCore core (Some s) (Some t) name prio (Some c) w = Inr ((Some t, False), ?w')"
    by (simp add: xTaskCreatePinnedToCore_def Let_def w1_def w0_def got_block_def)
  moreover have "no_task w3 = (no_task w)(c := False)" "\<not> xSchedulerRunning w3" "uxTasksDeleted w3 = uxTasksDeleted w" "xIdleTaskHandle w3 = xIdleTaskHandle w"
    using f2 nt by (auto simp: w3_def)
  ultimately show ?thesis using a s k3 by (intro exI [of _ ?w']) (simp add: cur_def)
qed

section \<open>The start\<close>

lemma tick_count_inv:
  assumes inv: "kernel_inv k" and n: "\<And>t. \<not> sleeping k t"
  shows "kernel_inv (k\<lparr>xTickCount := v\<rparr>)"
proof -
  obtain L ds os where ok: "kernel_ok k L" "priorities_ok k" and L: "L (pxDelayedTaskList k) = Some ds" "L (pxOverflowDelayedTaskList k) = Some os"
    using inv unfolding kernel_inv_def timed_def by blast
  have "x \<notin> set xs" if l: "L l = Some xs" "l \<in> {xDelayedTaskList1, xDelayedTaskList2}" for x l xs
  proof
    assume "x \<in> set xs"
    then have c: "pvContainer (lists k) x = Some l" using holds_listD(4) [OF kernel_listsD [OF kernel_okD(1) [OF ok(1)] l(1)]] by blast
    then obtain t where "x = xGenericListItem t" using kernel_okD(4) [OF ok(1) c] l(2) by (auto simp: fits_on_def event_lists_def)
    then show False using n [of t] c l(2) by (auto simp: sleeping_def)
  qed
  note none = this
  have pd: "pxDelayedTaskList k \<in> {xDelayedTaskList1, xDelayedTaskList2}" "pxOverflowDelayedTaskList k \<in> {xDelayedTaskList1, xDelayedTaskList2}"
    using kernel_okD(8) [OF ok(1)] by auto
  have "ds = []" using none [OF L(1) pd(1)] by (cases ds) auto
  moreover have "os = []" using none [OF L(2) pd(2)] by (cases os) auto
  ultimately have "timed (k\<lparr>xTickCount := v\<rparr>) L" using L by (simp add: timed_def)
  moreover have "kernel_ok (k\<lparr>xTickCount := v\<rparr>) L" using ok(1) by (simp add: kernel_ok_def)
  moreover have "priorities_ok (k\<lparr>xTickCount := v\<rparr>)" using ok(2) by (simp add: priorities_ok_def ready_at_def)
  ultimately show ?thesis unfolding kernel_inv_def by blast
qed

lemma new_event_list_fields [simp]:
  "pvContainer (lists (new_event_list e k)) = pvContainer (lists k)" "uxPriority (new_event_list e k) = uxPriority k"
  "xCoreID (new_event_list e k) = xCoreID k" "pxCurrentTCB (new_event_list e k) = pxCurrentTCB k"
  "uxCurrentNumberOfTasks (new_event_list e k) = uxCurrentNumberOfTasks k" "initialised (new_event_list e k) = insert e (initialised k)"
  "uxSchedulerSuspended (new_event_list e k) = uxSchedulerSuspended k"
  by (simp_all add: new_event_list_def vListInitialise_def)

text \<open>The task of the timer service, after at least one other task.\<close>

lemma timer_task_ok:
  assumes w: "kernel_inv (kn w)" "uxCurrentNumberOfTasks (kn w) \<noteq> 0" "\<not> xSchedulerRunning w" "{2 * h, 2 * h + 1} \<inter> initialised (kn w) = {}"
    and t: "fresh t (kn w)" "no_task w 0 \<or> pxCurrentTCB (kn w) 0 \<noteq> t"
    and s: "xTimerQueue s = None" "\<And>x. pvContainer (tlists s) x = None" "\<And>n. pvPortMalloc n = Some (replicate n 0)"
  shows "\<exists>s' w' L. xTimerCreateTimerTask core pvPortMalloc h (Some a, Some t) (s, w) = Inr (s', w') \<and> kern (qs s') = kn w' \<and> timers_ok s' L \<and>
    xTimerQueue s' = Some h \<and> queue_inv (queues (qs s') h) \<and> queue_content (queues (qs s') h) = [] \<and> kernel_inv (kn w') \<and> \<not> xSchedulerRunning w' \<and>
    no_task w' = (no_task w)(0 := False) \<and> uxTasksDeleted w' = uxTasksDeleted w \<and> xIdleTaskHandle w' = xIdleTaskHandle w \<and>
    initialised (kn w') = {2 * h, 2 * h + 1} \<union> initialised (kn w) \<and> uxCurrentNumberOfTasks (kn w') = uxCurrentNumberOfTasks (kn w) + 1 \<and> xCoreID (kn w') = (xCoreID (kn w))(t := Some 0) \<and>
    uxSchedulerSuspended (kn w') = uxSchedulerSuspended (kn w) \<and> uxPriority (kn w') = (uxPriority (kn w))(t := 1) \<and>
    pvContainer (lists (kn w')) = (pvContainer (lists (kn w)))(xGenericListItem t := Some (pxReadyTasksLists 1)) \<and>
    pxCurrentTCB (kn w') = (if no_task w 0 \<or> uxPriority (kn w) (pxCurrentTCB (kn w) 0) \<le> 1 then (pxCurrentTCB (kn w))(0 := t) else pxCurrentTCB (kn w))"
proof -
  let ?k = "new_event_list (2 * h + 1) (new_event_list (2 * h) (kn w))"
  obtain q where q: "xQueueGenericCreate pvPortMalloc configTIMER_QUEUE_LENGTH 16 = Some (Some q)" "queue_inv q" "queue_content q = []"
    using xQueueGenericCreate_new [of configTIMER_QUEUE_LENGTH 16 pvPortMalloc] s(3) by (auto simp: configTIMER_QUEUE_LENGTH_def)
  let ?m = "vListInitialise xActiveTimerList2 (vListInitialise xActiveTimerList1 (tlists s))"
  define s1 where "s1 = s\<lparr>tlists := ?m, pxCurrentTimerList := xActiveTimerList1, pxOverflowTimerList := xActiveTimerList2, xTimerQueue := Some h,
    qs := set_queue h q ((qs s)\<lparr>kern := ?k\<rparr>)\<rparr>"
  have c: "prvCheckForValidListAndQueue pvPortMalloc h (s\<lparr>qs := (qs s)\<lparr>kern := kn w\<rparr>\<rparr>) = Inr s1"
    using s(1) q(1) by (simp add: prvCheckForValidListAndQueue_def s1_def)
  have s1: "xTimerQueue s1 = Some h" "kern (qs s1) = ?k" "queues (qs s1) h = q" by (simp_all add: s1_def set_queue_def)
  have "kernel_inv (new_event_list (2 * h) (kn w))" using w(1,4) by (intro new_event_list_inv) simp_all
  then have inv: "kernel_inv ?k" by (rule new_event_list_inv) (use w(4) in \<open>simp add: new_event_list_def\<close>)
  let ?w = "w\<lparr>kn := ?k\<rparr>"
  have pre: "\<not> xSchedulerRunning ?w" "fresh t (kn ?w)" "(0::nat) < 2" "no_task ?w 0 \<or> pxCurrentTCB (kn ?w) 0 \<noteq> t"
    "kernel_inv (kn ?w) \<and> uxCurrentNumberOfTasks (kn ?w) \<noteq> 0 \<or> unborn ?w"
    using w(2,3) t inv by (simp_all add: fresh_def)
  have p: "new_priority configTIMER_TASK_PRIORITY = 1" by (simp add: new_priority_def configTIMER_TASK_PRIORITY_def configMAX_PRIORITIES_def)
  from create_early [OF pre, of core a "''Tmr Svc''" configTIMER_TASK_PRIORITY, unfolded p] obtain w' where
    w': "xTaskCreatePinnedToCore core (Some a) (Some t) ''Tmr Svc'' configTIMER_TASK_PRIORITY (Some 0) ?w = Inr ((Some t, False), w')" "kernel_inv (kn w')"
    "\<not> xSchedulerRunning w'" "no_task w' = (no_task w)(0 := False)" "uxTasksDeleted w' = uxTasksDeleted w" "xIdleTaskHandle w' = xIdleTaskHandle w"
    "initialised (kn w') = insert (2 * h + 1) (insert (2 * h) (initialised (kn w)))" "uxCurrentNumberOfTasks (kn w') = uxCurrentNumberOfTasks (kn w) + 1" "uxSchedulerSuspended (kn w') = uxSchedulerSuspended (kn w)"
    "uxPriority (kn w') = (uxPriority (kn w))(t := 1)" "xCoreID (kn w') = (xCoreID (kn w))(t := Some 0)"
    "pvContainer (lists (kn w')) = (pvContainer (lists (kn w)))(xGenericListItem t := Some (pxReadyTasksLists 1))"
    "pxCurrentTCB (kn w') = (if no_task w 0 \<or> uxPriority (kn w) (pxCurrentTCB (kn w) 0) \<le> 1 then (pxCurrentTCB (kn w))(0 := t) else pxCurrentTCB (kn w))"
    by auto
  let ?s' = "s1\<lparr>qs := (qs s1)\<lparr>kern := kn w'\<rparr>\<rparr>"
  have "xTimerCreateTimerTask core pvPortMalloc h (Some a, Some t) (s, w) = Inr (?s', w')"
    using c s1(1,2) w'(1) by (simp add: xTimerCreateTimerTask_def)
  moreover have "timers_ok ?s' [xActiveTimerList1 \<mapsto> [], xActiveTimerList2 \<mapsto> []]"
    by (rule timers_ok_cong [OF timer_lists_new [OF s(2), of s]]) (simp_all add: s1_def)
  ultimately show ?thesis using w' s1 q(2,3)
    by (intro exI [of _ ?s'] exI [of _ w'] exI [of _ "[xActiveTimerList1 \<mapsto> [], xActiveTimerList2 \<mapsto> []]"]) auto
qed

text \<open>The idle task of one core.\<close>

lemma create_idle_ok:
  assumes r: "\<not> xSchedulerRunning w" and t: "fresh t (kn w)" and c: "c < 2" "no_task w c \<or> pxCurrentTCB (kn w) c \<noteq> t"
    and b: "kernel_inv (kn w) \<and> uxCurrentNumberOfTasks (kn w) \<noteq> 0 \<or> unborn w"
  shows "\<exists>w'. create_idle core c (Some s, Some t) w = Inr (True, w') \<and> kernel_inv (kn w') \<and>
    \<not> xSchedulerRunning w' \<and> no_task w' = (no_task w)(c := False) \<and> uxTasksDeleted w' = uxTasksDeleted w \<and>
    xIdleTaskHandle w' = (xIdleTaskHandle w)(c \<mapsto> t) \<and>
    uxCurrentNumberOfTasks (kn w') = uxCurrentNumberOfTasks (kn w) + 1 \<and> initialised (kn w') = initialised (kn w) \<and>
    uxSchedulerSuspended (kn w') = uxSchedulerSuspended (kn w) \<and>
    uxPriority (kn w') = (uxPriority (kn w))(t := 0) \<and> xCoreID (kn w') = (xCoreID (kn w))(t := Some c) \<and>
    pvContainer (lists (kn w')) = (pvContainer (lists (kn w)))(xGenericListItem t := Some (pxReadyTasksLists 0)) \<and>
    pxCurrentTCB (kn w') = (if no_task w c \<or> uxPriority (kn w) (pxCurrentTCB (kn w) c) = 0
      then (pxCurrentTCB (kn w))(c := t) else pxCurrentTCB (kn w))"
proof -
  have p: "new_priority 0 = 0" by (simp add: new_priority_def)
  from create_early [OF r t c b, of core s "''IDLE''" 0, unfolded p] obtain w' where
    "xTaskCreatePinnedToCore core (Some s) (Some t) ''IDLE'' 0 (Some c) w = Inr ((Some t, False), w')" and w': "kernel_inv (kn w')"
    "\<not> xSchedulerRunning w'" "no_task w' = (no_task w)(c := False)" "uxTasksDeleted w' = uxTasksDeleted w" "xIdleTaskHandle w' = xIdleTaskHandle w"
    "uxCurrentNumberOfTasks (kn w') = uxCurrentNumberOfTasks (kn w) + 1" "initialised (kn w') = initialised (kn w)"
    "uxSchedulerSuspended (kn w') = uxSchedulerSuspended (kn w)"
    "uxPriority (kn w') = (uxPriority (kn w))(t := 0)" "xCoreID (kn w') = (xCoreID (kn w))(t := Some c)"
    "pvContainer (lists (kn w')) = (pvContainer (lists (kn w)))(xGenericListItem t := Some (pxReadyTasksLists 0))"
    "pxCurrentTCB (kn w') = (if no_task w c \<or> uxPriority (kn w) (pxCurrentTCB (kn w) c) \<le> 0 then (pxCurrentTCB (kn w))(c := t) else pxCurrentTCB (kn w))"
    by auto
  then have "create_idle core c (Some s, Some t) w = Inr (True, w'\<lparr>xIdleTaskHandle := (xIdleTaskHandle w)(c \<mapsto> t)\<rparr>)"
    by (simp add: create_idle_def)
  with w' show ?thesis by (intro exI [of _ "w'\<lparr>xIdleTaskHandle := (xIdleTaskHandle w)(c \<mapsto> t)\<rparr>"]) simp
qed

text \<open>Before the start nothing waits for a time, and the counter of the deleted tasks is right.\<close>

definition early :: "sched \<Rightarrow> bool" where
  "early w \<longleftrightarrow> \<not> xSchedulerRunning w \<and> card (doomed (kn w)) = unat (uxTasksDeleted w) \<and>
     (\<forall>t. \<not> sleeping (kn w) t) \<and> (kernel_inv (kn w) \<and> uxCurrentNumberOfTasks (kn w) \<noteq> 0 \<or> unborn w)"

lemma unborn_early: "unborn w \<Longrightarrow> early w"
  by (simp add: early_def unborn_def doomed_def sleeping_def)

lemma early_add:
  assumes "early w" "kernel_inv (kn w')" "\<not> xSchedulerRunning w'" "uxTasksDeleted w' = uxTasksDeleted w" "fresh t (kn w)"
    and c: "pvContainer (lists (kn w')) = (pvContainer (lists (kn w)))(xGenericListItem t := Some (pxReadyTasksLists p))"
    and n: "uxCurrentNumberOfTasks (kn w') = uxCurrentNumberOfTasks (kn w) + 1" "unat (uxCurrentNumberOfTasks (kn w)) + 1 < 2 ^ 32"
  shows "early w'" "unat (uxCurrentNumberOfTasks (kn w')) = unat (uxCurrentNumberOfTasks (kn w)) + 1" "uxCurrentNumberOfTasks (kn w') \<noteq> 0"
proof -
  show u: "unat (uxCurrentNumberOfTasks (kn w')) = unat (uxCurrentNumberOfTasks (kn w)) + 1"
    using n by (simp add: unat_word_ariths)
  then show n': "uxCurrentNumberOfTasks (kn w') \<noteq> 0" by (metis add_is_0 unat_0 zero_neq_one)
  have "doomed (kn w') = doomed (kn w)" using c assms(5) by (auto simp: doomed_def fresh_def)
  moreover have "\<not> sleeping (kn w') u" for u using assms(1) c by (auto simp: sleeping_def early_def)
  ultimately show "early w'" using assms(1,2,3,4) n' by (simp add: early_def)
qed

text \<open>
  Memory for the task of core 1 and for the timer service is there: what follows the creation of the idle task of core 0 succeeds.
\<close>

lemma start_rest:
  assumes w: "early w" "unat (uxCurrentNumberOfTasks (kn w)) + 2 < 2 ^ 32" "{2 * h, 2 * h + 1} \<inter> initialised (kn w) = {}"
    and t: "fresh i (kn w)" "fresh d (kn w)" "i \<noteq> d" "no_task w 1 \<or> pxCurrentTCB (kn w) 1 \<notin> {i, d}" "no_task w 0 \<or> pxCurrentTCB (kn w) 0 \<notin> {i, d}"
    and s: "xTimerQueue s = None" "\<And>x. pvContainer (tlists s) x = None" "\<And>n. pvPortMalloc n = Some (replicate n 0)"
    and start: "create_idle core 0 mem0 v = Inr (b, w)"
  shows "\<exists>s' w' L. vTaskStartScheduler core pvPortMalloc h mem0 (Some a, Some i) (Some c, Some d) (s, v) = Inr (s', w') \<and> kern (qs s') = kn w' \<and> timers_ok s' L \<and>
    xTimerQueue s' = Some h \<and> queue_inv (queues (qs s') h) \<and> queue_content (queues (qs s') h) = [] \<and> sched_ok w' \<and> xSchedulerRunning w' \<and>
    xTickCount (kn w') = 0 \<and> no_task w' = (no_task w)(0 := False, 1 := False) \<and> xIdleTaskHandle w' = (xIdleTaskHandle w)(1 \<mapsto> i) \<and>
    initialised (kn w') = {2 * h, 2 * h + 1} \<union> initialised (kn w) \<and> uxCurrentNumberOfTasks (kn w') = uxCurrentNumberOfTasks (kn w) + 2 \<and>
    uxPriority (kn w') = (uxPriority (kn w))(i := 0, d := 1) \<and> xCoreID (kn w') = (xCoreID (kn w))(i := Some 1, d := Some 0) \<and>
    pvContainer (lists (kn w')) = (pvContainer (lists (kn w)))(xGenericListItem i := Some (pxReadyTasksLists 0), xGenericListItem d := Some (pxReadyTasksLists 1)) \<and>
    pxCurrentTCB (kn w') 0 = (if no_task w 0 \<or> uxPriority (kn w) (pxCurrentTCB (kn w) 0) \<le> 1 then d else pxCurrentTCB (kn w) 0) \<and>
    pxCurrentTCB (kn w') 1 = (if no_task w 1 \<or> uxPriority (kn w) (pxCurrentTCB (kn w) 1) = 0 then i else pxCurrentTCB (kn w) 1)"
proof -
  have e: "\<not> xSchedulerRunning w" "kernel_inv (kn w) \<and> uxCurrentNumberOfTasks (kn w) \<noteq> 0 \<or> unborn w" using w(1) by (simp_all add: early_def)
  have c1: "no_task w 1 \<or> pxCurrentTCB (kn w) 1 \<noteq> i" using t(4) by auto
  from create_idle_ok [OF e(1) t(1) _ c1 e(2), of core a] obtain w2 where
    w2: "create_idle core 1 (Some a, Some i) w = Inr (True, w2)" "kernel_inv (kn w2)"
    "\<not> xSchedulerRunning w2" "no_task w2 = (no_task w)(1 := False)" "uxTasksDeleted w2 = uxTasksDeleted w"
    "xIdleTaskHandle w2 = (xIdleTaskHandle w)(1 \<mapsto> i)"
    "uxCurrentNumberOfTasks (kn w2) = uxCurrentNumberOfTasks (kn w) + 1" "initialised (kn w2) = initialised (kn w)"
    "uxPriority (kn w2) = (uxPriority (kn w))(i := 0)" "xCoreID (kn w2) = (xCoreID (kn w))(i := Some 1)"
    "pvContainer (lists (kn w2)) = (pvContainer (lists (kn w)))(xGenericListItem i := Some (pxReadyTasksLists 0))"
    and cur2: "pxCurrentTCB (kn w2) = (if no_task w 1 \<or> uxPriority (kn w) (pxCurrentTCB (kn w) 1) = 0
      then (pxCurrentTCB (kn w))(1 := i) else pxCurrentTCB (kn w))"
    by auto
  have "unat (uxCurrentNumberOfTasks (kn w)) + 1 < 2 ^ 32" using w(2) by simp
  note w2e = early_add [OF w(1) w2(2,3,5) t(1) w2(11,7) this]
  have f2: "fresh d (kn w2)" using t(2,3) w2(11) by (simp add: fresh_def)
  have c0: "no_task w2 0 \<or> pxCurrentTCB (kn w2) 0 \<noteq> d" using t(5) w2(4) cur2 by auto
  have p0: "uxPriority (kn w2) (pxCurrentTCB (kn w2) 0) = uxPriority (kn w) (pxCurrentTCB (kn w) 0)" if "\<not> no_task w 0"
    using t(5) w2(9) cur2 that by auto
  have h: "{2 * h, 2 * h + 1} \<inter> initialised (kn w2) = {}" using w(3) w2(8) by simp
  from timer_task_ok [OF w2(2) w2e(3) w2(3) h f2 c0 s, of core c] obtain s' w3 L where
    w3: "xTimerCreateTimerTask core pvPortMalloc h (Some c, Some d) (s, w2) = Inr (s', w3)" "kern (qs s') = kn w3" "timers_ok s' L"
    "xTimerQueue s' = Some h" "queue_inv (queues (qs s') h)" "queue_content (queues (qs s') h) = []" "kernel_inv (kn w3)" "\<not> xSchedulerRunning w3"
    "no_task w3 = (no_task w2)(0 := False)" "uxTasksDeleted w3 = uxTasksDeleted w2" "xIdleTaskHandle w3 = xIdleTaskHandle w2"
    "initialised (kn w3) = {2 * h, 2 * h + 1} \<union> initialised (kn w2)" "uxCurrentNumberOfTasks (kn w3) = uxCurrentNumberOfTasks (kn w2) + 1"
    "xCoreID (kn w3) = (xCoreID (kn w2))(d := Some 0)" "uxPriority (kn w3) = (uxPriority (kn w2))(d := 1)"
    "pvContainer (lists (kn w3)) = (pvContainer (lists (kn w2)))(xGenericListItem d := Some (pxReadyTasksLists 1))"
    and cur3: "pxCurrentTCB (kn w3) = (if no_task w2 0 \<or> uxPriority (kn w2) (pxCurrentTCB (kn w2) 0) \<le> 1
      then (pxCurrentTCB (kn w2))(0 := d) else pxCurrentTCB (kn w2))"
    by auto
  have "unat (uxCurrentNumberOfTasks (kn w2)) + 1 < 2 ^ 32" using w(2) w2e(2) by simp
  note w3e = early_add(1) [OF w2e(1) w3(7,8,10) f2 w3(16,13) this]
  let ?k = "(kn w3)\<lparr>xTickCount := 0\<rparr>"
  let ?s = "s'\<lparr>qs := (qs s')\<lparr>kern := ?k\<rparr>\<rparr>" and ?w = "w3\<lparr>kn := ?k, xSchedulerRunning := True\<rparr>"
  have "vTaskStartScheduler core pvPortMalloc h mem0 (Some a, Some i) (Some c, Some d) (s, v) = Inr (?s, ?w)"
    using start w2(1) w3(1) by (simp add: vTaskStartScheduler_def Let_def)
  moreover have "sched_ok ?w" using w3e tick_count_inv [OF w3(7), of 0] by (simp add: sched_ok_def early_def doomed_def)
  moreover have "timers_ok ?s L" by (rule timers_ok_cong [OF w3(3)]) simp_all
  moreover have "pxCurrentTCB ?k 0 = (if no_task w 0 \<or> uxPriority (kn w) (pxCurrentTCB (kn w) 0) \<le> 1 then d else pxCurrentTCB (kn w) 0)"
    using cur3 cur2 p0 w2(4) by auto
  moreover have "pxCurrentTCB ?k 1 = (if no_task w 1 \<or> uxPriority (kn w) (pxCurrentTCB (kn w) 1) = 0 then i else pxCurrentTCB (kn w) 1)"
    using cur3 cur2 by auto
  ultimately show ?thesis using w2 w3
    by (intro exI [of _ ?s] exI [of _ ?w] exI [of _ L]) (simp add: fun_upd_twist)
qed

text \<open>The task that core \<open>c\<close> starts with when \<open>t\<close>, of priority \<open>p\<close>, is the last one that is made for it.\<close>

definition first_task :: "sched \<Rightarrow> nat \<Rightarrow> nat \<Rightarrow> nat \<Rightarrow> nat" where
  "first_task w c t p = (if no_task w c \<or> uxPriority (kn w) (pxCurrentTCB (kn w) c) \<le> p then t else pxCurrentTCB (kn w) c)"

definition can_be_new :: "nat \<Rightarrow> sched \<Rightarrow> bool" where
  "can_be_new t w \<longleftrightarrow> fresh t (kn w) \<and> (no_task w 0 \<or> pxCurrentTCB (kn w) 0 \<noteq> t) \<and> (no_task w 1 \<or> pxCurrentTCB (kn w) 1 \<noteq> t)"

text \<open>
  C16. The scheduler starts (\<^verbatim>\<open>vTaskStartScheduler\<close>). From the state in which the program begins, or after tasks have been created in it
  that nothing has run yet, and with memory for the idle task of each core, for the queue of the timer service and for its task, the call
  reaches \<^verbatim>\<open>xPortStartScheduler\<close>: no assertion fails, the lists of the kernel and of the timers are well-formed, the timer queue is empty,
  the tick count is 0, both idle tasks can be asked for, every core has a task, and it is the timer service (core 0) or the idle task
  (core 1) unless a task of higher priority was there before.
\<close>

theorem scheduler_starts:
  assumes w: "early w" "unat (uxTaskGetNumberOfTasks w) + 3 < 2 ^ 32" "{2 * h, 2 * h + 1} \<inter> initialised (kn w) = {}"
    and t: "can_be_new i w" "can_be_new j w" "can_be_new d w" "distinct [i, j, d]"
    and s: "xTimerQueue s = None" "\<And>x. pvContainer (tlists s) x = None" "\<And>n. pvPortMalloc n = Some (replicate n 0)"
  shows "\<exists>s' w' L. vTaskStartScheduler core pvPortMalloc h (Some a, Some i) (Some b, Some j) (Some c, Some d) (s, w) = Inr (s', w') \<and>
    kern (qs s') = kn w' \<and> sched_ok w' \<and> timers_ok s' L \<and> xTimerQueue s' = Some h \<and>
    queue_inv (queues (qs s') h) \<and> queue_content (queues (qs s') h) = [] \<and>
    xTaskGetSchedulerState core w' \<noteq> taskSCHEDULER_NOT_STARTED \<and> xTaskGetTickCount w' = 0 \<and>
    uxTaskGetNumberOfTasks w' = uxTaskGetNumberOfTasks w + 3 \<and>
    xTaskGetIdleTaskHandle 0 w' = Inr i \<and> xTaskGetIdleTaskHandle 1 w' = Inr j \<and>
    xTaskGetAffinity core (Some i) w' = Inr (Some 0) \<and> xTaskGetAffinity core (Some j) w' = Inr (Some 1) \<and>
    uxTaskPriorityGet core (Some d) w' = Inr 1 \<and>
    xTaskGetCurrentTaskHandle 0 w' = Some (first_task w 0 d 1) \<and> xTaskGetCurrentTaskHandle 1 w' = Some (first_task w 1 j 0)"
proof -
  have e: "\<not> xSchedulerRunning w" "kernel_inv (kn w) \<and> uxCurrentNumberOfTasks (kn w) \<noteq> 0 \<or> unborn w" using w(1) by (simp_all add: early_def)
  have f: "fresh i (kn w)" "no_task w 0 \<or> pxCurrentTCB (kn w) 0 \<noteq> i" using t(1) by (simp_all add: can_be_new_def)
  from create_idle_ok [OF e(1) f(1) _ f(2) e(2), of core a] obtain w1 where
    w1: "create_idle core 0 (Some a, Some i) w = Inr (True, w1)" "kernel_inv (kn w1)"
    "\<not> xSchedulerRunning w1" "no_task w1 = (no_task w)(0 := False)" "uxTasksDeleted w1 = uxTasksDeleted w"
    "xIdleTaskHandle w1 = (xIdleTaskHandle w)(0 \<mapsto> i)"
    "uxCurrentNumberOfTasks (kn w1) = uxCurrentNumberOfTasks (kn w) + 1" "initialised (kn w1) = initialised (kn w)"
    "uxPriority (kn w1) = (uxPriority (kn w))(i := 0)" "xCoreID (kn w1) = (xCoreID (kn w))(i := Some 0)"
    "pvContainer (lists (kn w1)) = (pvContainer (lists (kn w)))(xGenericListItem i := Some (pxReadyTasksLists 0))"
    and cur: "pxCurrentTCB (kn w1) = (if no_task w 0 \<or> uxPriority (kn w) (pxCurrentTCB (kn w) 0) = 0
      then (pxCurrentTCB (kn w))(0 := i) else pxCurrentTCB (kn w))"
    by auto
  have "unat (uxCurrentNumberOfTasks (kn w)) + 1 < 2 ^ 32" using w(2) by (simp add: uxTaskGetNumberOfTasks_def)
  note e1 = early_add [OF w(1) w1(2,3,5) f(1) w1(11,7) this]
  have f1: "fresh j (kn w1)" "fresh d (kn w1)" "j \<noteq> d" using t w1(11) by (simp_all add: can_be_new_def fresh_def)
  have "no_task w1 1 \<or> pxCurrentTCB (kn w1) 1 \<notin> {j, d}" "no_task w1 0 \<or> pxCurrentTCB (kn w1) 0 \<notin> {j, d}"
    using t w1(4) cur by (auto simp: can_be_new_def)
  note f1 = f1 this
  have n1: "unat (uxCurrentNumberOfTasks (kn w1)) + 2 < 2 ^ 32" "{2 * h, 2 * h + 1} \<inter> initialised (kn w1) = {}"
    using w(2,3) e1(2) w1(8) by (simp_all add: uxTaskGetNumberOfTasks_def)
  have c0: "uxPriority (kn w1) (pxCurrentTCB (kn w1) 0) = (if no_task w 0 then 0 else uxPriority (kn w) (pxCurrentTCB (kn w) 0))"
    using t(1) w1(9) cur by (auto simp: can_be_new_def)
  have c1: "pxCurrentTCB (kn w1) 1 = pxCurrentTCB (kn w) 1" "\<not> no_task w 1 \<Longrightarrow> uxPriority (kn w1) (pxCurrentTCB (kn w1) 1) = uxPriority (kn w) (pxCurrentTCB (kn w) 1)"
    using t(1) w1(9) cur by (auto simp: can_be_new_def)
  have g: "(if no_task w1 0 \<or> uxPriority (kn w1) (pxCurrentTCB (kn w1) 0) \<le> 1 then d else pxCurrentTCB (kn w1) 0) = first_task w 0 d 1"
    "(if no_task w1 1 \<or> uxPriority (kn w1) (pxCurrentTCB (kn w1) 1) = 0 then j else pxCurrentTCB (kn w1) 1) = first_task w 1 j 0"
    using c0 c1 cur w1(4) by (auto simp: first_task_def)
  from start_rest [OF e1(1) n1 f1 s w1(1), of b c, unfolded g] obtain s' w' L where
    "vTaskStartScheduler core pvPortMalloc h (Some a, Some i) (Some b, Some j) (Some c, Some d) (s, w) = Inr (s', w')"
    "kern (qs s') = kn w'" "timers_ok s' L" "xTimerQueue s' = Some h" "queue_inv (queues (qs s') h)" "queue_content (queues (qs s') h) = []"
    "sched_ok w'" "xSchedulerRunning w'" "xTickCount (kn w') = 0" "no_task w' = (no_task w1)(0 := False, 1 := False)"
    "xIdleTaskHandle w' = (xIdleTaskHandle w1)(1 \<mapsto> j)" "uxCurrentNumberOfTasks (kn w') = uxCurrentNumberOfTasks (kn w1) + 2"
    "uxPriority (kn w') = (uxPriority (kn w1))(j := 0, d := 1)" "xCoreID (kn w') = (xCoreID (kn w1))(j := Some 1, d := Some 0)"
    "pxCurrentTCB (kn w') 0 = first_task w 0 d 1" "pxCurrentTCB (kn w') 1 = first_task w 1 j 0"
    by auto
  then show ?thesis using w1 t(4)
    by (intro exI [of _ s'] exI [of _ w'] exI [of _ L])
      (simp add: xTaskGetSchedulerState_def xTaskGetTickCount_def uxTaskGetNumberOfTasks_def xTaskGetIdleTaskHandle_def xTaskGetAffinity_def
        uxTaskPriorityGet_def prvGetTCBFromHandle_def xTaskGetCurrentTaskHandle_def)
qed

text \<open>
  The loop that creates the idle tasks keeps only the result of its last round. When the stack of the idle task of core 0 cannot be
  allocated, and everything else can, the scheduler starts all the same, without that task: asking for its handle fails the assertion in
  \<^verbatim>\<open>xTaskGetIdleTaskHandle\<close>. The same failure for core 1 stops the start with a failed assertion.
\<close>

theorem start_without_idle_task:
  assumes w: "early w" "unat (uxTaskGetNumberOfTasks w) + 2 < 2 ^ 32" "{2 * h, 2 * h + 1} \<inter> initialised (kn w) = {}" "xIdleTaskHandle w 0 = None"
    and t: "can_be_new i w" "can_be_new j w" "can_be_new d w" "distinct [i, j, d]"
    and s: "xTimerQueue s = None" "\<And>x. pvContainer (tlists s) x = None" "\<And>n. pvPortMalloc n = Some (replicate n 0)"
  shows "(\<exists>s' w'. vTaskStartScheduler core pvPortMalloc h (None, x) (Some b, Some j) (Some c, Some d) (s, w) = Inr (s', w') \<and>
      sched_ok w' \<and> xTaskGetSchedulerState core w' \<noteq> taskSCHEDULER_NOT_STARTED \<and> xTaskGetIdleTaskHandle 0 w' = Inl Assert_Failed \<and>
      xTaskGetIdleTaskHandle 1 w' = Inr j) \<and>
    vTaskStartScheduler core pvPortMalloc h (Some b, Some i) (None, x) (Some c, Some d) (s, w) = Inl Assert_Failed"
proof
  have n: "unat (uxCurrentNumberOfTasks (kn w)) + 2 < 2 ^ 32" using w(2) by (simp add: uxTaskGetNumberOfTasks_def)
  have f: "fresh j (kn w)" "fresh d (kn w)" "j \<noteq> d" "no_task w 1 \<or> pxCurrentTCB (kn w) 1 \<notin> {j, d}" "no_task w 0 \<or> pxCurrentTCB (kn w) 0 \<notin> {j, d}"
    using t by (auto simp: can_be_new_def)
  have none: "create_idle core k (None, x) v = Inr (False, v)" for k v by (simp add: create_idle_def xTaskCreatePinnedToCore_def)
  from start_rest [OF w(1) n w(3) f s none, of b c] obtain s' w' where
    "vTaskStartScheduler core pvPortMalloc h (None, x) (Some b, Some j) (Some c, Some d) (s, w) = Inr (s', w')"
    "sched_ok w'" "xSchedulerRunning w'" "xIdleTaskHandle w' = (xIdleTaskHandle w)(1 \<mapsto> j)" by auto
  then show "\<exists>s' w'. vTaskStartScheduler core pvPortMalloc h (None, x) (Some b, Some j) (Some c, Some d) (s, w) = Inr (s', w') \<and>
      sched_ok w' \<and> xTaskGetSchedulerState core w' \<noteq> taskSCHEDULER_NOT_STARTED \<and> xTaskGetIdleTaskHandle 0 w' = Inl Assert_Failed \<and>
      xTaskGetIdleTaskHandle 1 w' = Inr j"
    using w(4) by (intro exI [of _ s'] exI [of _ w']) (simp add: xTaskGetSchedulerState_def xTaskGetIdleTaskHandle_def)
  have e: "\<not> xSchedulerRunning w" "kernel_inv (kn w) \<and> uxCurrentNumberOfTasks (kn w) \<noteq> 0 \<or> unborn w" using w(1) by (simp_all add: early_def)
  have g: "fresh i (kn w)" "no_task w 0 \<or> pxCurrentTCB (kn w) 0 \<noteq> i" using t(1) by (simp_all add: can_be_new_def)
  from create_idle_ok [OF e(1) g(1) _ g(2) e(2), of core b] obtain w1 where "create_idle core 0 (Some b, Some i) w = Inr (True, w1)" by auto
  then show "vTaskStartScheduler core pvPortMalloc h (Some b, Some i) (None, x) (Some c, Some d) (s, w) = Inl Assert_Failed"
    using none by (simp add: vTaskStartScheduler_def)
qed

section \<open>The state in which the program begins\<close>

definition program_start :: sched where
  "program_start = \<lparr>kn = static_kernel\<lparr>uxCurrentNumberOfTasks := 0, xTickCount := 0\<rparr>, xSchedulerRunning = False, no_task = (\<lambda>_. True),
     uxTasksDeleted = 0, uxTaskNumber = 0, xIdleTaskHandle = (\<lambda>_. None), pxStack = (\<lambda>_. 0), pcTaskName = (\<lambda>_. []),
     pvThreadLocalStoragePointers = (\<lambda>_ _. 0), pvThreadLocalStoragePointersDelCallback = (\<lambda>_ _. None), tls_called = [], blocks = {}\<rparr>"

definition no_timer_service :: tsys where
  "no_timer_service = no_timers\<lparr>xTimerQueue := None,
     tlists := \<lparr>pxNext = (\<lambda>x. x), pxPrevious = (\<lambda>x. x), xItemValue = (\<lambda>_. 0), pvOwner = (\<lambda>_. 0), pvContainer = (\<lambda>_. None),
       pxIndex = (\<lambda>x. x), uxNumberOfItems = (\<lambda>_. 0)\<rparr>\<rparr>"

lemma program_start_early:
  "early program_start" "unat (uxTaskGetNumberOfTasks program_start) = 0" "initialised (kn program_start) = {}"
  "xIdleTaskHandle program_start c = None" "task_address t \<Longrightarrow> can_be_new t program_start"
  "xTimerQueue no_timer_service = None" "pvContainer (tlists no_timer_service) x = None" "no_task program_start c"
proof -
  have "unborn program_start" by (simp add: unborn_def program_start_def static_kernel_def configMAX_PRIORITIES_def)
  then show "early program_start" by (rule unborn_early)
qed (simp_all add: program_start_def static_kernel_def can_be_new_def fresh_def no_timer_service_def uxTaskGetNumberOfTasks_def)

theorem scheduler_starts_witness:
  "\<exists>s' w' L. vTaskStartScheduler 0 (\<lambda>n. Some (replicate n 0)) 4 (Some 200, Some 1) (Some 201, Some 2) (Some 202, Some 3)
      (no_timer_service, program_start) = Inr (s', w') \<and> sched_ok w' \<and> timers_ok s' L \<and> xTimerQueue s' = Some 4 \<and>
    xTaskGetTickCount w' = 0 \<and> xTaskGetIdleTaskHandle 0 w' = Inr 1 \<and> xTaskGetIdleTaskHandle 1 w' = Inr 2 \<and>
    xTaskGetCurrentTaskHandle 0 w' = Some 3 \<and> xTaskGetCurrentTaskHandle 1 w' = Some 2"
proof -
  have p: "unat (uxTaskGetNumberOfTasks program_start) + 3 < 2 ^ 32" "{2 * 4, 2 * 4 + 1} \<inter> initialised (kn program_start) = {}"
    "can_be_new 1 program_start" "can_be_new 2 program_start" "can_be_new 3 program_start" "distinct [1, 2, 3 :: nat]"
    by (simp_all add: program_start_early)
  have f: "first_task program_start 0 3 1 = 3" "first_task program_start 1 2 0 = 2" by (simp_all add: first_task_def program_start_early)
  from scheduler_starts [OF program_start_early(1) p program_start_early(6,7), of "\<lambda>n. Some (replicate n 0)" 0 200 201 202, unfolded f]
  show ?thesis by auto
qed

theorem start_without_idle_task_witness:
  "(\<exists>s' w'. vTaskStartScheduler 0 (\<lambda>n. Some (replicate n 0)) 4 (None, Some 1) (Some 201, Some 2) (Some 202, Some 3)
      (no_timer_service, program_start) = Inr (s', w') \<and> xTaskGetIdleTaskHandle 0 w' = Inl Assert_Failed) \<and>
   vTaskStartScheduler 0 (\<lambda>n. Some (replicate n 0)) 4 (Some 201, Some 1) (None, Some 1) (Some 202, Some 3)
      (no_timer_service, program_start) = Inl Assert_Failed"
proof -
  have p: "unat (uxTaskGetNumberOfTasks program_start) + 2 < 2 ^ 32" "{2 * 4, 2 * 4 + 1} \<inter> initialised (kn program_start) = {}"
    "xIdleTaskHandle program_start 0 = None" "can_be_new 1 program_start" "can_be_new 2 program_start" "can_be_new 3 program_start" "distinct [1, 2, 3 :: nat]"
    by (simp_all add: program_start_early)
  from start_without_idle_task [OF program_start_early(1) p program_start_early(6,7), of "\<lambda>n. Some (replicate n 0)" 0 "Some 1" 201 202]
  show ?thesis by blast
qed

end
