(* ===== verification/RTOS_Notify.thy ===== *)
theory RTOS_Notify
  imports RTOS_Task_Life
begin

text \<open>
  Task notifications, periodic delays and the state of a task (\<^verbatim>\<open>components/freertos/tasks.c\<close>). These functions start with the macro
  \<^verbatim>\<open>UNTESTED_FUNCTION\<close>, which fails an assertion under the option \<^verbatim>\<open>CONFIG_FREERTOS_ASSERT_ON_UNTESTED_FUNCTION\<close>; the option is the
  argument \<open>untested\<close>. It is set in the configuration of the speaker, which does not use them.

  The functions that wait are two critical sections, and between them everything else can run: the task has given up its core, or
  another core or an interrupt comes in between. The task can go on on another core.
\<close>

section \<open>Periodic delays\<close>

text \<open>The result is the new value of \<^verbatim>\<open>*pxPreviousWakeTime\<close>, with the kernel; \<open>None\<close> is a NULL pointer.\<close>

definition should_delay :: "u32 \<Rightarrow> u32 \<Rightarrow> u32 \<Rightarrow> bool" where
  "should_delay now previous wake \<longleftrightarrow>
     (if now < previous then wake < previous \<and> wake > now else wake < previous \<or> wake > now)"

definition vTaskDelayUntil :: "bool \<Rightarrow> nat \<Rightarrow> u32 option \<Rightarrow> u32 \<Rightarrow> kernel \<Rightarrow> (u32 \<times> kernel) run" where
  "vTaskDelayUntil untested core pxPreviousWakeTime xTimeIncrement k =
     (if untested then Inl Assert_Failed
      else case pxPreviousWakeTime of
        None \<Rightarrow> Inl Assert_Failed
      | Some previous \<Rightarrow>
          if xTimeIncrement = 0 then Inl Assert_Failed
          else if uxSchedulerSuspended k core \<noteq> 0 then Inl Assert_Failed
          else
            let wake = previous + xTimeIncrement in
            if should_delay (xTickCount k) previous wake then
              run_bind (list_remove (xGenericListItem (pxCurrentTCB k core)) k) (\<lambda>k1.
              run_bind (prvAddCurrentTaskToDelayedList core wake k1) (\<lambda>k2. Inr (wake, k2)))
            else Inr (wake, k))"

section \<open>The state of a task\<close>

datatype eTaskState = eRunning | eReady | eBlocked | eSuspended | eDeleted

definition eTaskGetState :: "bool \<Rightarrow> nat \<Rightarrow> nat option \<Rightarrow> kernel \<Rightarrow> eTaskState run" where
  "eTaskGetState untested core xTask k =
     (if untested then Inl Assert_Failed
      else case xTask of
        None \<Rightarrow> Inl Assert_Failed
      | Some t \<Rightarrow>
          Inr (if t = pxCurrentTCB k core then eRunning
               else
                 let l = pvContainer (lists k) (xGenericListItem t) in
                 if l = Some (pxDelayedTaskList k) \<or> l = Some (pxOverflowDelayedTaskList k) then eBlocked
                 else if l = Some xSuspendedTaskList then
                   if pvContainer (lists k) (xEventListItem t) = None then eSuspended else eBlocked
                 else if l = Some xTasksWaitingTermination then eDeleted
                 else eReady))"

section \<open>Notifications\<close>

datatype eNotifyValue = eNotWaitingNotification | eWaitingNotification | eNotified

datatype eNotifyAction = eNoAction | eSetBits | eIncrement | eSetValueWithOverwrite | eSetValueWithoutOverwrite

text \<open>The kernel, and the two fields of every task that notifications use.\<close>

record nsys =
  nk :: kernel
  ulNotifiedValue :: "nat \<Rightarrow> u32"
  eNotifyState :: "nat \<Rightarrow> eNotifyValue"

definition set_value :: "nat \<Rightarrow> u32 \<Rightarrow> nsys \<Rightarrow> nsys" where
  "set_value t v s = s\<lparr>ulNotifiedValue := (ulNotifiedValue s)(t := v)\<rparr>"

definition set_state :: "nat \<Rightarrow> eNotifyValue \<Rightarrow> nsys \<Rightarrow> nsys" where
  "set_state t v s = s\<lparr>eNotifyState := (eNotifyState s)(t := v)\<rparr>"

text \<open>The part that both waiting functions share: the current task waits, if a time is given. The result is whether it yields.\<close>

definition notify_block :: "nat \<Rightarrow> u32 \<Rightarrow> nsys \<Rightarrow> (bool \<times> nsys) run" where
  "notify_block core xTicksToWait s =
     (let s1 = set_state (pxCurrentTCB (nk s) core) eWaitingNotification s in
      if xTicksToWait > 0 then run_bind (block_current core xTicksToWait (nk s1)) (\<lambda>k. Inr (True, s1\<lparr>nk := k\<rparr>))
      else Inr (False, s1))"

text \<open>The two critical sections of \<^verbatim>\<open>ulTaskNotifyTake\<close>.\<close>

definition take_wait :: "nat \<Rightarrow> u32 \<Rightarrow> nsys \<Rightarrow> (bool \<times> nsys) run" where
  "take_wait core xTicksToWait s =
     (if ulNotifiedValue s (pxCurrentTCB (nk s) core) = 0 then notify_block core xTicksToWait s else Inr (False, s))"

definition take_end :: "nat \<Rightarrow> bool \<Rightarrow> nsys \<Rightarrow> u32 \<times> nsys" where
  "take_end core xClearCountOnExit s =
     (let t = pxCurrentTCB (nk s) core;
          ulReturn = ulNotifiedValue s t;
          s1 = (if ulReturn \<noteq> 0 then set_value t (if xClearCountOnExit then 0 else ulReturn - 1) s else s)
      in (ulReturn, set_state t eNotWaitingNotification s1))"

text \<open>\<open>env\<close> is what happens between the two sections, \<open>core'\<close> the core on which the task goes on.\<close>

definition ulTaskNotifyTake :: "bool \<Rightarrow> nat \<Rightarrow> nat \<Rightarrow> (nsys \<Rightarrow> nsys) \<Rightarrow> bool \<Rightarrow> u32 \<Rightarrow> nsys \<Rightarrow> (u32 \<times> nsys) run" where
  "ulTaskNotifyTake untested core core' env xClearCountOnExit xTicksToWait s =
     (if untested then Inl Assert_Failed
      else run_bind (take_wait core xTicksToWait s) (\<lambda>(_, s1). Inr (take_end core' xClearCountOnExit (env s1))))"

text \<open>The two critical sections of \<^verbatim>\<open>xTaskNotifyWait\<close>; the result is the value that was notified, and whether one was.\<close>

definition wait_begin :: "nat \<Rightarrow> u32 \<Rightarrow> u32 \<Rightarrow> nsys \<Rightarrow> (bool \<times> nsys) run" where
  "wait_begin core ulBitsToClearOnEntry xTicksToWait s =
     (let t = pxCurrentTCB (nk s) core in
      if eNotifyState s t \<noteq> eNotified
      then notify_block core xTicksToWait (set_value t (ulNotifiedValue s t AND NOT ulBitsToClearOnEntry) s)
      else Inr (False, s))"

definition wait_end :: "nat \<Rightarrow> u32 \<Rightarrow> nsys \<Rightarrow> (u32 \<times> bool) \<times> nsys" where
  "wait_end core ulBitsToClearOnExit s =
     (let t = pxCurrentTCB (nk s) core; v = ulNotifiedValue s t in
      if eNotifyState s t = eWaitingNotification then ((v, False), set_state t eNotWaitingNotification s)
      else ((v, True), set_state t eNotWaitingNotification (set_value t (v AND NOT ulBitsToClearOnExit) s)))"

definition xTaskNotifyWait ::
  "bool \<Rightarrow> nat \<Rightarrow> nat \<Rightarrow> (nsys \<Rightarrow> nsys) \<Rightarrow> u32 \<Rightarrow> u32 \<Rightarrow> u32 \<Rightarrow> nsys \<Rightarrow> ((u32 \<times> bool) \<times> nsys) run" where
  "xTaskNotifyWait untested core core' env ulBitsToClearOnEntry ulBitsToClearOnExit xTicksToWait s =
     (if untested then Inl Assert_Failed
      else run_bind (wait_begin core ulBitsToClearOnEntry xTicksToWait s) (\<lambda>(_, s1). Inr (wait_end core' ulBitsToClearOnExit (env s1))))"

text \<open>The new value of a task, and whether it could be written.\<close>

definition notified_value :: "eNotifyAction \<Rightarrow> u32 \<Rightarrow> eNotifyValue \<Rightarrow> u32 \<Rightarrow> u32 \<times> bool" where
  "notified_value eAction ulValue state v =
     (case eAction of
        eNoAction \<Rightarrow> (v, True)
      | eSetBits \<Rightarrow> (v OR ulValue, True)
      | eIncrement \<Rightarrow> (v + 1, True)
      | eSetValueWithOverwrite \<Rightarrow> (ulValue, True)
      | eSetValueWithoutOverwrite \<Rightarrow> if state \<noteq> eNotified then (ulValue, True) else (v, False))"

text \<open>Whether to switch to the task here; otherwise the core it runs on may be interrupted.\<close>

definition notify_yield :: "nat \<Rightarrow> nat \<Rightarrow> kernel \<Rightarrow> bool \<times> kernel" where
  "notify_yield core t k =
     (if tskCAN_RUN_HERE core (xCoreID k t) \<and> uxPriority k t > uxPriority k (pxCurrentTCB k core) then (True, k)
      else if xCoreID k t \<noteq> Some core then (False, taskYIELD_OTHER_CORE core (xCoreID k t) (uxPriority k t) k)
      else (False, k))"

definition xTaskNotify :: "bool \<Rightarrow> nat \<Rightarrow> nat option \<Rightarrow> u32 \<Rightarrow> eNotifyAction \<Rightarrow> nsys \<Rightarrow> ((bool \<times> bool) \<times> nsys) run" where
  "xTaskNotify untested core xTaskToNotify ulValue eAction s =
     (if untested then Inl Assert_Failed
      else case xTaskToNotify of
        None \<Rightarrow> Inl Assert_Failed
      | Some t \<Rightarrow>
          let (v, xReturn) = notified_value eAction ulValue (eNotifyState s t) (ulNotifiedValue s t);
              s1 = set_value t v (set_state t eNotified s) in
          if eNotifyState s t = eWaitingNotification then
            run_bind (list_remove (xGenericListItem t) (nk s1)) (\<lambda>k1.
              let k2 = prvAddTaskToReadyList t k1 in
              if pvContainer (lists k2) (xEventListItem t) \<noteq> None then Inl Assert_Failed
              else let (y, k3) = notify_yield core t k2 in Inr ((xReturn, y), s1\<lparr>nk := k3\<rparr>))
          else Inr ((xReturn, False), s1))"

text \<open>From an interrupt: waking the task, or putting it on the list of pending tasks while the scheduler is suspended.\<close>

definition wake_from_isr :: "nat \<Rightarrow> nat \<Rightarrow> nsys \<Rightarrow> (bool \<times> nsys) run" where
  "wake_from_isr core t s =
     (if pvContainer (lists (nk s)) (xEventListItem t) \<noteq> None then Inl Assert_Failed
      else run_bind
        (if uxSchedulerSuspended (nk s) core = 0
         then run_bind (list_remove (xGenericListItem t) (nk s)) (\<lambda>k1. Inr (prvAddTaskToReadyList t k1))
         else Inr ((nk s)\<lparr>lists := vListInsertEnd (xPendingReadyList core) (xEventListItem t) (lists (nk s))\<rparr>)) (\<lambda>k.
        let (y, k1) = notify_yield core t k in Inr (y, s\<lparr>nk := k1\<rparr>)))"

definition xTaskNotifyFromISR :: "bool \<Rightarrow> nat \<Rightarrow> nat option \<Rightarrow> u32 \<Rightarrow> eNotifyAction \<Rightarrow> nsys \<Rightarrow> ((bool \<times> bool) \<times> nsys) run" where
  "xTaskNotifyFromISR untested core xTaskToNotify ulValue eAction s =
     (if untested then Inl Assert_Failed
      else case xTaskToNotify of
        None \<Rightarrow> Inl Assert_Failed
      | Some t \<Rightarrow>
          let (v, xReturn) = notified_value eAction ulValue (eNotifyState s t) (ulNotifiedValue s t);
              s1 = set_value t v (set_state t eNotified s) in
          if eNotifyState s t = eWaitingNotification
          then run_bind (wake_from_isr core t s1) (\<lambda>(y, s2). Inr ((xReturn, y), s2))
          else Inr ((xReturn, False), s1))"

definition vTaskNotifyGiveFromISR :: "bool \<Rightarrow> nat \<Rightarrow> nat option \<Rightarrow> nsys \<Rightarrow> (bool \<times> nsys) run" where
  "vTaskNotifyGiveFromISR untested core xTaskToNotify s =
     (if untested then Inl Assert_Failed
      else case xTaskToNotify of
        None \<Rightarrow> Inl Assert_Failed
      | Some t \<Rightarrow>
          let s1 = set_value t (ulNotifiedValue s t + 1) (set_state t eNotified s) in
          if eNotifyState s t = eWaitingNotification then wake_from_isr core t s1 else Inr (False, s1))"

section \<open>Periodic delays do not drift\<close>

text \<open>The four comparisons, two for each side of a wrap-around, are one: the period is not over.\<close>

lemma should_delay_elapsed: "should_delay now previous (previous + i) \<longleftrightarrow> now - previous < i" for now :: u32
proof -
  have "now < previous \<Longrightarrow> (previous + i < previous \<and> previous + i > now) \<longleftrightarrow> now - previous < i"
    "\<not> now < previous \<Longrightarrow> (previous + i < previous \<or> previous + i > now) \<longleftrightarrow> now - previous < i"
    by uint_arith+
  then show ?thesis unfolding should_delay_def by simp
qed

lemma run_bind_assoc: "run_bind (run_bind m f) g = run_bind m (\<lambda>x. run_bind (f x) g)"
  by (cases m) simp_all

text \<open>A task that leaves the ready lists, and nothing else, keeps the ready priorities.\<close>

lemma leave_ready_inv:
  assumes "priorities_ok k" "kernel_ok k' L" "timed k' L" "same_but_time k k'" "uxTopReadyPriority k' = uxTopReadyPriority k" "\<And>p. \<not> ready_at k' p t"
    "\<forall>y. y \<noteq> xGenericListItem t \<longrightarrow> pvContainer (lists k') y = pvContainer (lists k) y"
  shows "kernel_inv k'"
proof -
  have "ready_at k p u" if "ready_at k' p u" for p u
    using that assms(6) [of p] assms(7) by (cases "u = t") (auto simp: ready_at_def)
  then have "priorities_ok k'"
    using assms(1) same_but_timeD(1) [OF assms(4)] assms(5) unfolding priorities_ok_def by metis
  then show ?thesis using assms(2,3) unfolding kernel_inv_def by blast
qed

lemma vTaskDelay_top:
  assumes "vTaskDelay core d k = Inr k'"
  shows "uxTopReadyPriority k' = uxTopReadyPriority k"
  using assms by (auto simp: vTaskDelay_def run_bind_Inr_iff dest!: delayed_top list_calls_top(1) split: if_splits)

lemma delay_until_cases:
  assumes "0 < i" "uxSchedulerSuspended k core = 0"
  shows "vTaskDelayUntil False core (Some previous) i k =
    (if xTickCount k - previous < i then run_bind (vTaskDelay core (previous + i - xTickCount k) k) (\<lambda>k'. Inr (previous + i, k'))
     else Inr (previous + i, k))"
proof -
  have "previous + i - xTickCount k > 0" if "xTickCount k - previous < i"
    using that by (metis add.commute diff_eq_eq eq_iff_diff_eq_0 less_irrefl word_gt_0)
  then show ?thesis using assms
    by (simp add: vTaskDelayUntil_def vTaskDelay_def Let_def should_delay_elapsed run_bind_assoc)
qed

text \<open>Any number of ticks succeeds, counts, and keeps the lists in order.\<close>

lemma ticks_any:
  assumes "kernel_inv k" "uxSchedulerSuspended k 0 = 0"
  shows "\<exists>k'. ticks n k = Inr k' \<and> kernel_inv k' \<and> uxSchedulerSuspended k' = uxSchedulerSuspended k \<and> uxPriority k' = uxPriority k \<and>
    pxCurrentTCB k' = pxCurrentTCB k \<and> xTickCount k' = xTickCount k + of_nat n \<and>
    (\<forall>t. pvContainer (lists k) (xGenericListItem t) \<noteq> None \<longrightarrow> pvContainer (lists k') (xGenericListItem t) \<noteq> None) \<and>
    (\<forall>t. pvContainer (lists k) (xEventListItem t) = None \<longrightarrow> pvContainer (lists k') (xEventListItem t) = None)"
proof (induction n)
  case (Suc n)
  then obtain k1 where k1: "ticks n k = Inr k1" "kernel_inv k1" "uxSchedulerSuspended k1 = uxSchedulerSuspended k" "uxPriority k1 = uxPriority k"
    "pxCurrentTCB k1 = pxCurrentTCB k" "xTickCount k1 = xTickCount k + of_nat n"
    "\<forall>t. pvContainer (lists k) (xGenericListItem t) \<noteq> None \<longrightarrow> pvContainer (lists k1) (xGenericListItem t) \<noteq> None"
    "\<forall>t. pvContainer (lists k) (xEventListItem t) = None \<longrightarrow> pvContainer (lists k1) (xEventListItem t) = None" by blast
  have s: "uxSchedulerSuspended k1 0 = 0" using assms(2) k1(3) by simp
  obtain L where L: "kernel_ok k1 L" "timed k1 L" using k1(2) by (auto simp: kernel_inv_def)
  obtain sw k2 where k2: "xTaskIncrementTick 0 k1 = Inr (sw, k2)" "xTickCount k2 = xTickCount k1 + 1" "same_but_time k1 k2" and
    c: "\<forall>t. if sleeping k1 t \<and> remaining k1 t = 1
         then pvContainer (lists k2) (xGenericListItem t) = Some (pxReadyTasksLists (uxPriority k1 t)) \<and>
              pvContainer (lists k2) (xEventListItem t) = None
         else pvContainer (lists k2) (xGenericListItem t) = pvContainer (lists k1) (xGenericListItem t) \<and>
              pvContainer (lists k2) (xEventListItem t) = pvContainer (lists k1) (xEventListItem t)"
    using tick_effect [OF L s] by blast
  have "pvContainer (lists k2) (xGenericListItem t) \<noteq> None" if "pvContainer (lists k) (xGenericListItem t) \<noteq> None" for t
    using spec [OF c, of t] spec [OF k1(7), of t] that by (simp split: if_splits)
  moreover have "pvContainer (lists k2) (xEventListItem t) = None" if "pvContainer (lists k) (xEventListItem t) = None" for t
    using spec [OF c, of t] spec [OF k1(8), of t] that by (simp split: if_splits)
  moreover have "kernel_inv k2" using tick_inv [OF k1(2) s] k2(1) by auto
  ultimately show ?case using k1(1,3-6) k2 same_but_timeD [OF k2(3)] by (auto simp: add.assoc)
qed (use assms in simp)


section \<open>Waiting for a notification\<close>

lemma nsys_fields [simp]:
  "nk (set_value t v s) = nk s" "eNotifyState (set_value t v s) = eNotifyState s" "ulNotifiedValue (set_value t v s) = (ulNotifiedValue s)(t := v)"
  "nk (set_state t e s) = nk s" "eNotifyState (set_state t e s) = (eNotifyState s)(t := e)" "ulNotifiedValue (set_state t e s) = ulNotifiedValue s"
  by (simp_all add: set_value_def set_state_def)

lemma notify_yield_frame:
  "lists (snd (notify_yield core t k)) = lists k" "kernel_inv (snd (notify_yield core t k)) = kernel_inv k"
  "uxSchedulerSuspended (snd (notify_yield core t k)) = uxSchedulerSuspended k"
  by (simp_all add: notify_yield_def taskYIELD_OTHER_CORE_def split: option.splits list.splits)

text \<open>The running task goes to wait: on a delayed list, or on the list of suspended tasks.\<close>

lemma notify_block_ok:
  assumes inv: "kernel_inv (nk s)" and r: "running (nk s) core t" and d: "0 < d"
  shows "\<exists>k. notify_block core d s = Inr (True, (set_state t eWaitingNotification s)\<lparr>nk := k\<rparr>) \<and> kernel_inv k \<and> same_but_time (nk s) k \<and>
    pvContainer (lists k) (xGenericListItem t) \<noteq> None \<and> pvContainer (lists k) (xEventListItem t) = None \<and>
    (if d = portMAX_DELAY then pvContainer (lists k) (xGenericListItem t) = Some xSuspendedTaskList else sleeping k t \<and> remaining k t = d) \<and>
    (\<forall>y. y \<noteq> xGenericListItem t \<longrightarrow> pvContainer (lists k) y = pvContainer (lists (nk s)) y)"
proof -
  obtain L where ok: "kernel_ok (nk s) L" "timed (nk s) L" "priorities_ok (nk s)" using inv by (auto simp: kernel_inv_def)
  have t: "t = pxCurrentTCB (nk s) core" "pvContainer (lists (nk s)) (xGenericListItem t) = Some (pxReadyTasksLists (uxPriority (nk s) t))"
    "pvContainer (lists (nk s)) (xEventListItem t) = None"
    using r by (auto simp: running_def)
  obtain k L' where k: "block_current core d (nk s) = Inr k" "kernel_ok k L'" "timed k L'"
    "if d = portMAX_DELAY then pvContainer (lists k) (xGenericListItem t) = Some xSuspendedTaskList else sleeping k t \<and> remaining k t = d"
    "\<forall>y. y \<noteq> xGenericListItem t \<longrightarrow> pvContainer (lists k) y = pvContainer (lists (nk s)) y" "same_but_time (nk s) k"
    using block_current_ok [OF ok(1,2) t(1,2) d] by blast
  have c: "pvContainer (lists k) (xGenericListItem t) \<noteq> None" "\<not> ready_at k p t" for p
    using k(4) by (auto simp: ready_at_def sleeping_def split: if_splits)
  have "kernel_inv k" using leave_ready_inv [OF ok(3) k(2,3,6) block_current_top [OF k(1)] c(2) k(5)] .
  moreover have "notify_block core d s = Inr (True, (set_state t eWaitingNotification s)\<lparr>nk := k\<rparr>)"
    using d k(1) by (simp add: notify_block_def Let_def t(1) [symmetric])
  moreover have "pvContainer (lists k) (xEventListItem t) = None" using k(5) t(3) by simp
  ultimately show ?thesis using k(4-6) c(1) by blast
qed

text \<open>A notification wakes the task, wherever it is.\<close>

lemma xTaskNotify_wakes:
  assumes inv: "kernel_inv (nk s)" and w: "eNotifyState s t = eWaitingNotification"
    and c: "pvContainer (lists (nk s)) (xGenericListItem t) \<noteq> None" "pvContainer (lists (nk s)) (xEventListItem t) = None"
  shows "\<exists>y k. xTaskNotify False core (Some t) v a s =
      Inr ((True, y), (set_value t (fst (notified_value a v eWaitingNotification (ulNotifiedValue s t))) (set_state t eNotified s))\<lparr>nk := k\<rparr>) \<and>
    kernel_inv k \<and> ready_at k (uxPriority (nk s) t) t \<and> uxSchedulerSuspended k = uxSchedulerSuspended (nk s) \<and>
    (\<forall>y. y \<noteq> xGenericListItem t \<longrightarrow> pvContainer (lists k) y = pvContainer (lists (nk s)) y)"
proof -
  obtain k1 k2 where k2: "list_remove (xGenericListItem t) (nk s) = Inr k1" "k2 = prvAddTaskToReadyList t k1" "kernel_inv k2"
    "pvContainer (lists k2) = (pvContainer (lists (nk s)))(xGenericListItem t := Some (pxReadyTasksLists (uxPriority (nk s) t)))"
    "same_but_lists (nk s) k2"
    using make_ready_inv [OF inv c(1)] by auto
  obtain y k3 where y: "notify_yield core t k2 = (y, k3)" by fastforce
  have k3: "lists k3 = lists k2" "kernel_inv k3" "uxSchedulerSuspended k3 = uxSchedulerSuspended (nk s)"
    using notify_yield_frame [of core t k2] y k2(3) same_but_listsD(12) [OF k2(5)] by simp_all
  obtain u where u: "notified_value a v eWaitingNotification (ulNotifiedValue s t) = (u, True)"
    by (cases a) (simp_all add: notified_value_def)
  have "pvContainer (lists k2) (xEventListItem t) = None" using c(2) by (simp add: k2(4))
  then have "xTaskNotify False core (Some t) v a s = Inr ((True, y), (set_value t u (set_state t eNotified s))\<lparr>nk := k3\<rparr>)"
    using w u k2(1) y by (simp add: xTaskNotify_def Let_def k2(2) [symmetric])
  moreover have "ready_at k3 (uxPriority (nk s) t) t" using k3(1) by (simp add: ready_at_def k2(4))
  moreover have "\<forall>y. y \<noteq> xGenericListItem t \<longrightarrow> pvContainer (lists k3) y = pvContainer (lists (nk s)) y" using k3(1) k2(4) by simp
  ultimately show ?thesis using k3(2,3) u by auto
qed


text \<open>A notification that comes before the wait changes no list, and the wait does not block.\<close>

theorem notification_before_wait:
  assumes t: "pxCurrentTCB (nk s) core = t" and n: "eNotifyState s t = eNotWaitingNotification"
  shows "\<exists>s1. xTaskNotify False c (Some t) v a s = Inr ((True, False), s1) \<and> nk s1 = nk s \<and> wait_begin core clear d s1 = Inr (False, s1) \<and>
    fst (wait_end core exit s1) = (fst (notified_value a v eNotWaitingNotification (ulNotifiedValue s t)), True)"
proof -
  obtain u where "notified_value a v eNotWaitingNotification (ulNotifiedValue s t) = (u, True)"
    by (cases a) (simp_all add: notified_value_def)
  then show ?thesis using n t by (simp add: xTaskNotify_def wait_begin_def wait_end_def Let_def)
qed

text \<open>The two orders of the assertion and of the list operations make no difference, and giving is incrementing.\<close>

lemma isr_is_notify:
  assumes inv: "kernel_inv (nk s)" and z: "uxSchedulerSuspended (nk s) core = 0" and c: "pvContainer (lists (nk s)) (xGenericListItem t) \<noteq> None"
  shows "xTaskNotifyFromISR False core (Some t) v a s = xTaskNotify False core (Some t) v a s"
    and give_is_increment:
      "vTaskNotifyGiveFromISR False core (Some t) s = run_bind (xTaskNotify False core (Some t) v eIncrement s) (\<lambda>((_, y), s'). Inr (y, s'))"
proof -
  obtain k1 where k1: "list_remove (xGenericListItem t) (nk s) = Inr k1"
    "pvContainer (lists (prvAddTaskToReadyList t k1)) (xEventListItem t) = pvContainer (lists (nk s)) (xEventListItem t)"
    using make_ready_inv [OF inv c] by auto
  obtain y k2 where y: "notify_yield core t (prvAddTaskToReadyList t k1) = (y, k2)" by fastforce
  note defs = xTaskNotifyFromISR_def vTaskNotifyGiveFromISR_def xTaskNotify_def wake_from_isr_def
  show "xTaskNotifyFromISR False core (Some t) v a s = xTaskNotify False core (Some t) v a s"
    using k1 z y by (cases "notified_value a v (eNotifyState s t) (ulNotifiedValue s t)") (simp add: defs Let_def)
  show "vTaskNotifyGiveFromISR False core (Some t) s = run_bind (xTaskNotify False core (Some t) v eIncrement s) (\<lambda>((_, y), s'). Inr (y, s'))"
    using k1 z y by (simp add: defs notified_value_def Let_def)
qed

text \<open>
  The notifications from an interrupt do what the one from a task does while the scheduler of the core is not suspended, with
  every action, whether the task waits or not and also when the assertion on its event list fails; and giving from an interrupt is
  notifying with an increment.
\<close>

theorem notify_from_isr_equiv:
  assumes "kernel_inv (nk s)" "uxSchedulerSuspended (nk s) core = 0" "pvContainer (lists (nk s)) (xGenericListItem t) \<noteq> None"
  shows "xTaskNotifyFromISR False core (Some t) v a s = xTaskNotify False core (Some t) v a s \<and>
    vTaskNotifyGiveFromISR False core (Some t) s = run_bind (xTaskNotify False core (Some t) 0 eIncrement s) (\<lambda>((_, y), s'). Inr (y, s'))"
  using isr_is_notify [OF assms] give_is_increment [OF assms] by blast

text \<open>
  A task that takes from a count of 0 waits; the interrupt that gives, at whatever tick, makes it ready, and the task gets the 1 and
  leaves 0, whether it takes one or all.
\<close>

theorem give_ends_take:
  assumes inv: "kernel_inv (nk s)" and r: "running (nk s) core t" and d: "0 < d" and z: "uxSchedulerSuspended (nk s) = (\<lambda>_. 0)"
    and n: "ulNotifiedValue s t = 0"
  shows "\<exists>s1. take_wait core d s = Inr (True, s1) \<and>
    (\<forall>n. \<exists>k y s2. ticks n (nk s1) = Inr k \<and> vTaskNotifyGiveFromISR False c (Some t) (s1\<lparr>nk := k\<rparr>) = Inr (y, s2) \<and>
       kernel_inv (nk s2) \<and> ready_at (nk s2) (uxPriority (nk s) t) t \<and>
       (\<forall>k' core' all. pxCurrentTCB k' core' = t \<longrightarrow>
          fst (take_end core' all (s2\<lparr>nk := k'\<rparr>)) = 1 \<and> ulNotifiedValue (snd (take_end core' all (s2\<lparr>nk := k'\<rparr>))) t = 0))"
    (is "\<exists>s1. _ \<and> (\<forall>n. ?wakes n s1)")
proof -
  have t: "pxCurrentTCB (nk s) core = t" using r by (simp add: running_def)
  obtain k0 where k0: "notify_block core d s = Inr (True, (set_state t eWaitingNotification s)\<lparr>nk := k0\<rparr>)" "kernel_inv k0" "same_but_time (nk s) k0"
    "pvContainer (lists k0) (xGenericListItem t) \<noteq> None" "pvContainer (lists k0) (xEventListItem t) = None"
    using notify_block_ok [OF inv r d] by blast
  define s1 where "s1 = (set_state t eWaitingNotification s)\<lparr>nk := k0\<rparr>"
  have "take_wait core d s = Inr (True, s1)" using k0(1) n t by (simp add: take_wait_def s1_def)
  moreover have "?wakes m s1" for m
  proof -
    have "uxSchedulerSuspended k0 = (\<lambda>_. 0)" "uxPriority k0 = uxPriority (nk s)" using same_but_timeD(1,7) [OF k0(3)] z by simp_all
    then obtain k where k: "ticks m k0 = Inr k" "kernel_inv k" "uxPriority k = uxPriority (nk s)" "uxSchedulerSuspended k = (\<lambda>_. 0)"
      "pvContainer (lists k) (xGenericListItem t) \<noteq> None" "pvContainer (lists k) (xEventListItem t) = None"
      using ticks_any [OF k0(2), of m] k0(4,5) by auto
    let ?s = "s1\<lparr>nk := k\<rparr>"
    have p: "kernel_inv (nk ?s)" "eNotifyState ?s t = eWaitingNotification" "pvContainer (lists (nk ?s)) (xGenericListItem t) \<noteq> None"
      "pvContainer (lists (nk ?s)) (xEventListItem t) = None" "uxSchedulerSuspended (nk ?s) c = 0"
      using k by (simp_all add: s1_def)
    have "fst (notified_value eIncrement 0 eWaitingNotification (ulNotifiedValue ?s t)) = 1"
      using n by (simp add: notified_value_def s1_def)
    then obtain y k2 where k2: "xTaskNotify False c (Some t) 0 eIncrement ?s = Inr ((True, y), (set_value t 1 (set_state t eNotified ?s))\<lparr>nk := k2\<rparr>)"
      "kernel_inv k2" "ready_at k2 (uxPriority (nk s) t) t"
      using xTaskNotify_wakes [OF p(1-4), of c 0 eIncrement] k(3) by auto
    have "vTaskNotifyGiveFromISR False c (Some t) ?s = Inr (y, (set_value t 1 (set_state t eNotified ?s))\<lparr>nk := k2\<rparr>)"
      using give_is_increment [OF p(1,5,3), of 0] k2(1) by simp
    then show ?thesis using k(1) k2(2,3)
      by (intro exI [of _ k] exI [of _ y] exI [of _ "(set_value t 1 (set_state t eNotified ?s))\<lparr>nk := k2\<rparr>"])
        (auto simp: s1_def take_end_def Let_def)
  qed
  ultimately show ?thesis by blast
qed

text \<open>
  A task that waits for a notification for ever is on the list of suspended tasks and on no event list, which is how the kernel
  knows a suspended task: \<^verbatim>\<open>eTaskGetState\<close> calls it suspended, and \<^verbatim>\<open>vTaskResume\<close> ends the wait, which was to have no end,
  with a failure.
\<close>

theorem wait_for_ever_looks_suspended:
  assumes inv: "kernel_inv (nk s)" and r: "running (nk s) core t" and n: "eNotifyState s t \<noteq> eNotified" and c: "pxCurrentTCB (nk s) c \<noteq> t"
  shows "\<exists>s1 y w2. wait_begin core clear portMAX_DELAY s = Inr (True, s1) \<and> eTaskGetState False c (Some t) (nk s1) = Inr eSuspended \<and>
    vTaskResume c (Some t) (w\<lparr>kn := nk s1\<rparr>) = Inr (y, w2) \<and> ready_at (kn w2) (uxPriority (nk s) t) t \<and>
    (\<forall>k' core'. pxCurrentTCB k' core' = t \<longrightarrow> \<not> snd (fst (wait_end core' exit (s1\<lparr>nk := k'\<rparr>))))"
proof -
  have t: "pxCurrentTCB (nk s) core = t" using r by (simp add: running_def)
  define s0 where "s0 = set_value t (ulNotifiedValue s t AND NOT clear) s"
  have m: "0 < portMAX_DELAY" by (simp add: portMAX_DELAY_def)
  obtain k where k: "notify_block core portMAX_DELAY s0 = Inr (True, (set_state t eWaitingNotification s0)\<lparr>nk := k\<rparr>)" "kernel_inv k" "same_but_time (nk s) k"
    "pvContainer (lists k) (xEventListItem t) = None" "pvContainer (lists k) (xGenericListItem t) = Some xSuspendedTaskList"
    using notify_block_ok [of s0 core t portMAX_DELAY] inv r m by (auto simp: s0_def)
  define s1 where "s1 = (set_state t eWaitingNotification s0)\<lparr>nk := k\<rparr>"
  have s1: "nk s1 = k" by (simp add: s1_def)
  have b: "wait_begin core clear portMAX_DELAY s = Inr (True, s1)" using k(1) n t by (simp add: wait_begin_def Let_def s0_def s1_def)
  have f: "pxCurrentTCB k c \<noteq> t" "uxPriority k = uxPriority (nk s)" using same_but_timeD [OF k(3)] c by simp_all
  obtain L where L: "kernel_ok k L" using k(2) by (auto simp: kernel_inv_def)
  have "pxDelayedTaskList k \<noteq> xSuspendedTaskList" "pxOverflowDelayedTaskList k \<noteq> xSuspendedTaskList" using kernel_okD(8) [OF L] by auto
  then have g: "eTaskGetState False c (Some t) k = Inr eSuspended" using f(1) k(4,5) by (auto simp: eTaskGetState_def Let_def)
  obtain k1 k2 where k2: "list_remove (xGenericListItem t) k = Inr k1" "k2 = prvAddTaskToReadyList t k1"
    "pvContainer (lists k2) = (pvContainer (lists k))(xGenericListItem t := Some (pxReadyTasksLists (uxPriority k t)))"
    using make_ready_inv [OF k(2), of t] k(5) by auto
  obtain y k3 where y: "yield_for c t k2 = (y, k3)" by fastforce
  then have k3: "ready_at k3 (uxPriority (nk s) t) t" using yield_for_frame(1) [of c t k2] k2(3) f(2) by (simp add: ready_at_def)
  have "prvTaskIsTaskSuspended c t k" using k(4,5) by (simp add: prvTaskIsTaskSuspended_def listIS_CONTAINED_WITHIN_def)
  then have "vTaskResume c (Some t) (w\<lparr>kn := k\<rparr>) = Inr (y, w\<lparr>kn := k3\<rparr>)"
    using f(1) k2(1) y by (simp add: vTaskResume_def is_current_def k2(2) [symmetric])
  then show ?thesis using b g k3 s1 by (intro exI [of _ s1] exI [of _ y] exI [of _ "w\<lparr>kn := k3\<rparr>"]) (auto simp: wait_end_def Let_def s1_def)
qed

text \<open>
  A notification ends a suspension: \<^verbatim>\<open>vTaskSuspend\<close> leaves the notification state of the task as it is, so a task that was
  suspended while it waited for a notification is made ready by the next one, and nobody has resumed it.
\<close>

theorem notification_ends_suspension:
  assumes ok: "sched_ok w" and t: "may_stop core t w" "\<not> is_current core t w" and n: "eNotifyState s t = eWaitingNotification"
  shows "\<exists>w1 y s2. vTaskSuspend core (Some t) w = Inr (False, w1) \<and> prvTaskIsTaskSuspended core t (kn w1) \<and>
    xTaskNotify False c (Some t) v a (s\<lparr>nk := kn w1\<rparr>) = Inr ((True, y), s2) \<and> ready_at (nk s2) (uxPriority (kn w) t) t"
proof -
  have inv: "kernel_inv (kn w)" using ok by (simp add: sched_ok_def)
  have r: "xSchedulerRunning w" "pvContainer (lists (kn w)) (xGenericListItem t) \<noteq> None" using t(1) by (simp_all add: may_stop_def)
  obtain k where k: "park_task xSuspendedTaskList t (kn w) = Inr k" "kernel_inv k" "same_but_lists (kn w) k"
    "pvContainer (lists k) = (pvContainer (lists (kn w)))(xGenericListItem t := Some xSuspendedTaskList, xEventListItem t := None)"
    using park_task_ok [OF inv r(2), of xSuspendedTaskList] by auto
  define k1 where "k1 = prvResetNextTaskUnblockTime k"
  note f = same_but_listsD [OF k(3)]
  have cur: "is_current core t (w\<lparr>kn := k\<rparr>) = is_current core t w" using f(3) by (simp add: is_current_def)
  have "vTaskSuspend core (Some t) w = Inr (False, w\<lparr>kn := k1\<rparr>)"
    using k(1) t(2) r(1) by (simp add: vTaskSuspend_def prvGetTCBFromHandle_def k1_def cur Let_def)
  moreover have "prvTaskIsTaskSuspended core t k1"
    by (simp add: k1_def prvTaskIsTaskSuspended_def listIS_CONTAINED_WITHIN_def k(4))
  moreover have p: "kernel_inv (nk (s\<lparr>nk := k1\<rparr>))" "eNotifyState (s\<lparr>nk := k1\<rparr>) t = eWaitingNotification"
    "pvContainer (lists (nk (s\<lparr>nk := k1\<rparr>))) (xGenericListItem t) \<noteq> None" "pvContainer (lists (nk (s\<lparr>nk := k1\<rparr>))) (xEventListItem t) = None"
    using reset_unblock_inv [OF k(2)] n by (simp_all add: k1_def k(4))
  moreover have "uxPriority k1 = uxPriority (kn w)" using f(1) by (simp add: k1_def)
  ultimately show ?thesis using xTaskNotify_wakes [OF p, of c v a] by fastforce
qed

section \<open>The properties at work\<close>

text \<open>Task 1 runs on core 0 and task 0 on core 1, with no notifications; then task 0 waits for one.\<close>

definition two_waiters :: nsys where
  "two_waiters = \<lparr>nk = kn two_lives, ulNotifiedValue = (\<lambda>_. 6), eNotifyState = (\<lambda>_. eNotWaitingNotification)\<rparr>"

lemma two_waiters_ok:
  "kernel_inv (nk two_waiters)" "running (nk two_waiters) 1 0" "uxSchedulerSuspended (nk two_waiters) 0 = 0"
  "eNotifyState two_waiters t \<noteq> eNotified" "uxPriority (nk two_waiters) 0 = 1" "ulNotifiedValue two_waiters t = 6"
  using two_lives_ok(1) by (simp_all add: two_waiters_def running_def two_lives_ok sched_ok_def)



theorem notification_before_wait_witness:
  "\<exists>s1. xTaskNotify False 0 (Some 0) 9 eSetBits two_waiters = Inr ((True, False), s1) \<and> wait_begin 1 2 3 s1 = Inr (False, s1) \<and>
     fst (wait_end 1 0 s1) = (15, True)"
proof -
  have c: "pxCurrentTCB (nk two_waiters) 1 = 0" "eNotifyState two_waiters 0 = eNotWaitingNotification"
    using two_waiters_ok(2) by (simp_all add: running_def two_waiters_def)
  have v: "fst (notified_value eSetBits 9 eNotWaitingNotification (ulNotifiedValue two_waiters 0)) = 15"
    by (simp add: two_waiters_ok notified_value_def)
  show ?thesis using notification_before_wait [OF c, of 0 9 eSetBits 2 3 0] unfolding v by blast
qed

theorem wait_for_ever_looks_suspended_witness:
  "\<exists>s1 y w2. wait_begin 1 0 portMAX_DELAY two_waiters = Inr (True, s1) \<and> eTaskGetState False 0 (Some 0) (nk s1) = Inr eSuspended \<and>
     vTaskResume 0 (Some 0) (two_lives\<lparr>kn := nk s1\<rparr>) = Inr (y, w2) \<and> ready_at (kn w2) 1 0 \<and>
     \<not> snd (fst (wait_end 1 0 (s1\<lparr>nk := nk two_waiters\<rparr>)))"
proof -
  have c: "pxCurrentTCB (nk two_waiters) 0 \<noteq> 0" "pxCurrentTCB (nk two_waiters) 1 = 0" by (simp_all add: two_waiters_def two_lives_ok)
  show ?thesis using wait_for_ever_looks_suspended [OF two_waiters_ok(1,2,4) c(1), of 0 two_lives 0] c(2) unfolding two_waiters_ok(5) by blast
qed

theorem notification_ends_suspension_witness:
  "\<exists>w1 y s2. vTaskSuspend 0 (Some 0) two_lives = Inr (False, w1) \<and> prvTaskIsTaskSuspended 0 0 (kn w1) \<and>
     xTaskNotify False 0 (Some 0) 0 eNoAction ((set_state 0 eWaitingNotification two_waiters)\<lparr>nk := kn w1\<rparr>) = Inr ((True, y), s2) \<and> ready_at (nk s2) 1 0"
  using notification_ends_suspension [OF two_lives_ok(1) two_lives_stop(1,3), of "set_state 0 eWaitingNotification two_waiters" 0 0 eNoAction]
  by (simp add: two_lives_ok)

theorem notify_from_isr_equiv_witness:
  "xTaskNotifyFromISR False 0 (Some 0) 9 eSetBits (set_state 0 eWaitingNotification two_waiters) =
     xTaskNotify False 0 (Some 0) 9 eSetBits (set_state 0 eWaitingNotification two_waiters)"
  using notify_from_isr_equiv [of "set_state 0 eWaitingNotification two_waiters" 0 0 9 eSetBits] two_waiters_ok(1-3) by (simp add: running_def)

theorem give_ends_take_witness:
  "\<exists>s1 k y s2. take_wait 1 3 (set_value 0 0 two_waiters) = Inr (True, s1) \<and> ticks 1000 (nk s1) = Inr k \<and>
     vTaskNotifyGiveFromISR False 0 (Some 0) (s1\<lparr>nk := k\<rparr>) = Inr (y, s2) \<and> ready_at (nk s2) 1 0 \<and>
     fst (take_end 1 False (s2\<lparr>nk := nk two_waiters\<rparr>)) = 1"
proof -
  let ?s = "set_value 0 0 two_waiters"
  have p: "kernel_inv (nk ?s)" "running (nk ?s) 1 0" "uxSchedulerSuspended (nk ?s) = (\<lambda>_. 0)" "ulNotifiedValue ?s 0 = 0" "uxPriority (nk ?s) 0 = 1"
    using two_waiters_ok(1,2,5) by (simp_all add: two_waiters_def two_lives_ok)
  have c: "pxCurrentTCB (nk two_waiters) 1 = 0" using two_waiters_ok(2) by (simp add: running_def)
  obtain s1 where s1: "take_wait 1 3 ?s = Inr (True, s1)" and
    n: "\<forall>n. \<exists>k y s2. ticks n (nk s1) = Inr k \<and> vTaskNotifyGiveFromISR False 0 (Some 0) (s1\<lparr>nk := k\<rparr>) = Inr (y, s2) \<and>
       kernel_inv (nk s2) \<and> ready_at (nk s2) (uxPriority (nk ?s) 0) 0 \<and>
       (\<forall>k' core' all. pxCurrentTCB k' core' = 0 \<longrightarrow>
          fst (take_end core' all (s2\<lparr>nk := k'\<rparr>)) = 1 \<and> ulNotifiedValue (snd (take_end core' all (s2\<lparr>nk := k'\<rparr>))) 0 = 0)"
    using give_ends_take [OF p(1,2) _ p(3,4), of 3 0] by auto
  show ?thesis using s1 spec [OF n, of 1000] c unfolding p(5) by blast
qed

end
