(* ===== verification/RTOS_Machine.thy ===== *)
theory RTOS_Machine
  imports RTOS_Notify
begin

text \<open>
  The calls of \<^verbatim>\<open>components/freertos/tasks.c\<close> together: a machine whose steps are the kernel's functions, made in any order by the
  tasks, the interrupts and the tick, under the conditions of their documentation. No call fails an assertion or hangs, and every
  call keeps the lists well-formed.
\<close>

section \<open>The machine\<close>

record machine =
  sw :: sched
  mv :: "nat \<Rightarrow> u32"
  me :: "nat \<Rightarrow> eNotifyValue"

abbreviation mk :: "machine \<Rightarrow> kernel" where "mk m \<equiv> kn (sw m)"

definition put_kernel :: "kernel \<Rightarrow> machine \<Rightarrow> machine" where
  "put_kernel k m = m\<lparr>sw := (sw m)\<lparr>kn := k\<rparr>\<rparr>"

definition notified :: "machine \<Rightarrow> nsys" where
  "notified m = \<lparr>nk = mk m, ulNotifiedValue = mv m, eNotifyState = me m\<rparr>"

definition put_notes :: "nsys \<Rightarrow> machine \<Rightarrow> machine" where
  "put_notes s m = (put_kernel (nk s) m)\<lparr>mv := ulNotifiedValue s, me := eNotifyState s\<rparr>"

text \<open>The calls; the first number is the core on which the call is made.\<close>

datatype call =
  Tick
| Switch nat
| Delay nat u32
| Delay_Until nat u32 u32
| Wait_Event nat nat u32
| Signal_Event nat nat
| Notify_Wait nat u32 u32
| Notify_Wait_End nat u32
| Notify_Take nat u32
| Notify_Take_End nat bool
| Notify nat nat u32 eNotifyAction
| Notify_From_ISR nat nat u32 eNotifyAction
| Suspend nat nat
| Resume nat nat
| Resume_From_ISR nat nat
| Delete nat nat

fun perform :: "call \<Rightarrow> machine \<Rightarrow> machine run" where
  "perform Tick m = run_bind (xTaskIncrementTick 0 (mk m)) (\<lambda>(_, k). Inr (put_kernel k m))"
| "perform (Switch core) m = run_bind (vTaskSwitchContext core (mk m)) (\<lambda>k. Inr (put_kernel k m))"
| "perform (Delay core d) m = run_bind (vTaskDelay core d (mk m)) (\<lambda>k. Inr (put_kernel k m))"
| "perform (Delay_Until core previous i) m =
     run_bind (vTaskDelayUntil False core (Some previous) i (mk m)) (\<lambda>(_, k). Inr (put_kernel k m))"
| "perform (Wait_Event core e d) m = run_bind (vTaskPlaceOnEventList core (event_list e) d (mk m)) (\<lambda>k. Inr (put_kernel k m))"
| "perform (Signal_Event core e) m =
     (if listLIST_IS_EMPTY (event_list e) (lists (mk m)) then Inr m
      else run_bind (xTaskRemoveFromEventList core (event_list e) (mk m)) (\<lambda>(_, k). Inr (put_kernel k m)))"
| "perform (Notify_Wait core clear d) m = run_bind (wait_begin core clear d (notified m)) (\<lambda>(_, s). Inr (put_notes s m))"
| "perform (Notify_Wait_End core clear) m = Inr (put_notes (snd (wait_end core clear (notified m))) m)"
| "perform (Notify_Take core d) m = run_bind (take_wait core d (notified m)) (\<lambda>(_, s). Inr (put_notes s m))"
| "perform (Notify_Take_End core clear) m = Inr (put_notes (snd (take_end core clear (notified m))) m)"
| "perform (Notify core t v a) m = run_bind (xTaskNotify False core (Some t) v a (notified m)) (\<lambda>(_, s). Inr (put_notes s m))"
| "perform (Notify_From_ISR core t v a) m = run_bind (xTaskNotifyFromISR False core (Some t) v a (notified m)) (\<lambda>(_, s). Inr (put_notes s m))"
| "perform (Suspend core t) m = run_bind (vTaskSuspend core (Some t) (sw m)) (\<lambda>(_, w). Inr (m\<lparr>sw := w\<rparr>))"
| "perform (Resume core t) m = run_bind (vTaskResume core (Some t) (sw m)) (\<lambda>(_, w). Inr (m\<lparr>sw := w\<rparr>))"
| "perform (Resume_From_ISR core t) m = run_bind (xTaskResumeFromISR core (Some t) (sw m)) (\<lambda>(_, w). Inr (m\<lparr>sw := w\<rparr>))"
| "perform (Delete core t) m = run_bind (vTaskDelete core (Some t) (sw m)) (\<lambda>(_, w). Inr (m\<lparr>sw := w\<rparr>))"

text \<open>
  When a call may be made. The calling task is running, and not in the middle of a wait for a notification; a task that is named
  exists and is not deleted; a core switches while its idle task is ready for it.
\<close>

definition alive :: "machine \<Rightarrow> nat \<Rightarrow> bool" where
  "alive m t \<longleftrightarrow> pvContainer (lists (mk m)) (xGenericListItem t) \<notin> {None, Some xTasksWaitingTermination}"

definition caller_ok :: "machine \<Rightarrow> nat \<Rightarrow> bool" where
  "caller_ok m core \<longleftrightarrow> running (mk m) core (pxCurrentTCB (mk m) core) \<and> me m (pxCurrentTCB (mk m) core) \<noteq> eWaitingNotification"

fun allowed :: "call \<Rightarrow> machine \<Rightarrow> bool" where
  "allowed Tick m = True"
| "allowed (Switch core) m = (case xIdleTaskHandle (sw m) core of None \<Rightarrow> False
     | Some i \<Rightarrow> ready_at (mk m) (uxPriority (mk m) i) i \<and> can_run core (mk m) i)"
| "allowed (Delay core d) m = caller_ok m core"
| "allowed (Delay_Until core previous i) m = (caller_ok m core \<and> 0 < i)"
| "allowed (Wait_Event core e d) m = (caller_ok m core \<and> e \<in> initialised (mk m) \<and> 0 < d)"
| "allowed (Signal_Event core e) m = (e \<in> initialised (mk m))"
| "allowed (Notify_Wait core clear d) m = caller_ok m core"
| "allowed (Notify_Wait_End core clear) m = True"
| "allowed (Notify_Take core d) m = caller_ok m core"
| "allowed (Notify_Take_End core clear) m = True"
| "allowed (Notify core t v a) m = alive m t"
| "allowed (Notify_From_ISR core t v a) m = alive m t"
| "allowed (Suspend core t) m = alive m t"
| "allowed (Resume core t) m = True"
| "allowed (Resume_From_ISR core t) m = True"
| "allowed (Delete core t) m = alive m t"

text \<open>
  Well-formed states: those of the scheduler's lists and counters; the tasks on event lists are blocked, and those that wait for a
  notification are on no event list.
\<close>

definition machine_ok :: "machine \<Rightarrow> bool" where
  "machine_ok m \<longleftrightarrow> sched_ok (sw m) \<and> xSchedulerRunning (sw m) \<and> uxSchedulerSuspended (mk m) = (\<lambda>_. 0) \<and> blocked_waiters (mk m) \<and>
     (\<forall>t. me m t = eWaitingNotification \<longrightarrow> pvContainer (lists (mk m)) (xEventListItem t) = None)"

section \<open>Every call keeps the machine well-formed\<close>

lemma machine_fields [simp]:
  "nk (notified m) = mk m" "ulNotifiedValue (notified m) = mv m" "eNotifyState (notified m) = me m"
  "mk (put_kernel k m) = k" "me (put_kernel k m) = me m" "mv (put_kernel k m) = mv m"
  "mk (put_notes s m) = nk s" "me (put_notes s m) = eNotifyState s"
  by (simp_all add: notified_def put_kernel_def put_notes_def)

lemma machine_okD:
  assumes "machine_ok m"
  shows "kernel_inv (mk m)" "uxSchedulerSuspended (mk m) c = 0" "blocked_waiters (mk m)"
    "me m t = eWaitingNotification \<Longrightarrow> pvContainer (lists (mk m)) (xEventListItem t) = None"
    "xSchedulerRunning (sw m)" "card (doomed (mk m)) = unat (uxTasksDeleted (sw m))"
  using assms by (auto simp: machine_ok_def sched_ok_def)

text \<open>A call that changes the lists, and deletes no task.\<close>

lemma put_kernel_ok:
  assumes ok: "machine_ok m" and k: "kernel_inv k" "uxSchedulerSuspended k = uxSchedulerSuspended (mk m)" "doomed k = doomed (mk m)" "blocked_waiters k"
    and e: "\<And>t. e t = eWaitingNotification \<Longrightarrow> pvContainer (lists k) (xEventListItem t) = None"
  shows "machine_ok ((put_kernel k m)\<lparr>mv := v, me := e\<rparr>)"
  using ok k e by (simp add: machine_ok_def sched_ok_def put_kernel_def)

text \<open>One task moves to another list; it was on no event list.\<close>

lemma moved_ok:
  assumes b: "blocked_waiters k" and e: "pvContainer (lists k) (xEventListItem t) = None"
    and c: "\<forall>y. y \<noteq> xGenericListItem t \<longrightarrow> pvContainer (lists k') y = pvContainer (lists k) y"
    and d: "t \<notin> doomed k" "pvContainer (lists k') (xGenericListItem t) \<noteq> Some xTasksWaitingTermination"
  shows "blocked_waiters k'" "doomed k' = doomed k" "pvContainer (lists k') (xEventListItem u) = pvContainer (lists k) (xEventListItem u)"
proof -
  show ev: "pvContainer (lists k') (xEventListItem u) = pvContainer (lists k) (xEventListItem u)" for u using c by simp
  have g: "pvContainer (lists k') (xGenericListItem u) = pvContainer (lists k) (xGenericListItem u)" if "u \<noteq> t" for u using c that by simp
  show "doomed k' = doomed k" using d g by (auto simp: doomed_def) metis+
  have "u \<noteq> t" if "waits k' u (event_list x)" for u x using that e by (auto simp: waits_def ev)
  then show "blocked_waiters k'" using b g unfolding blocked_waiters_def by (metis ev sleeping_def waits_def)
qed

text \<open>Tasks wake up; none of them was deleted.\<close>

lemma wakes_ok:
  assumes w: "wakes W k k'" "blocked_waiters k" and W: "\<And>t. t \<in> W \<Longrightarrow> t \<notin> doomed k"
  shows "blocked_waiters k'" "doomed k' = doomed k"
    "pvContainer (lists k) (xEventListItem u) = None \<Longrightarrow> pvContainer (lists k') (xEventListItem u) = None"
proof -
  show "blocked_waiters k'" by (rule blocked_waiters_wakes [OF w(2,1)])
  have c: "if t \<in> W then awake k' t
     else pvContainer (lists k') (xEventListItem t) = pvContainer (lists k) (xEventListItem t) \<and>
          pvContainer (lists k') (xGenericListItem t) = pvContainer (lists k) (xGenericListItem t)" for t
    using w(1) unfolding wakes_def by blast
  have "t \<in> doomed k' \<longleftrightarrow> t \<in> doomed k" for t
    using c [of t] W [of t] by (cases "t \<in> W") (auto simp: doomed_def awake_def ready_at_def)
  then show "doomed k' = doomed k" by blast
  show "pvContainer (lists k') (xEventListItem u) = None" if "pvContainer (lists k) (xEventListItem u) = None"
    using c [of u] that by (cases "u \<in> W") (auto simp: awake_def)
qed

lemma put_woken_ok:
  assumes ok: "machine_ok m" and k: "kernel_inv k" "same_setting (mk m) k" "wakes W (mk m) k" and W: "\<And>t. t \<in> W \<Longrightarrow> t \<notin> doomed (mk m)"
  shows "machine_ok (put_kernel k m)"
proof -
  note w = wakes_ok [OF k(3) machine_okD(3) [OF ok] W]
  have "machine_ok ((put_kernel k m)\<lparr>mv := mv m, me := me m\<rparr>)"
    using w machine_okD(4) [OF ok] k(2) by (intro put_kernel_ok [OF ok k(1)]) (auto simp: same_setting_def)
  then show ?thesis by (simp add: put_kernel_def)
qed

lemma put_moved_ok:
  assumes ok: "machine_ok m" and k: "kernel_inv k" "uxSchedulerSuspended k = uxSchedulerSuspended (mk m)"
    and t: "pvContainer (lists (mk m)) (xEventListItem t) = None" "t \<notin> doomed (mk m)" "t \<notin> doomed k"
    and c: "\<forall>y. y \<noteq> xGenericListItem t \<longrightarrow> pvContainer (lists k) y = pvContainer (lists (mk m)) y"
    and e: "\<And>u. u \<noteq> t \<Longrightarrow> e u = eWaitingNotification \<Longrightarrow> me m u = eWaitingNotification"
  shows "machine_ok ((put_kernel k m)\<lparr>mv := v, me := e\<rparr>)"
proof -
  have "pvContainer (lists k) (xGenericListItem t) \<noteq> Some xTasksWaitingTermination" using t(3) by (simp add: doomed_def)
  note mo = moved_ok [OF machine_okD(3) [OF ok] t(1) c t(2) this]
  have "pvContainer (lists k) (xEventListItem u) = None" if "e u = eWaitingNotification" for u
    using that t(1) e [of u] machine_okD(4) [OF ok, of u] mo(3) [of u] by (cases "u = t") auto
  then show ?thesis using put_kernel_ok [OF ok k mo(2,1)] by blast
qed
lemma put_same [simp]: "put_kernel (mk m) m = m" "put_notes (notified m) m = m"
  by (simp_all add: put_kernel_def put_notes_def notified_def)

lemma put_notes_eq: "put_notes s m = (put_kernel (nk s) m)\<lparr>mv := ulNotifiedValue s, me := eNotifyState s\<rparr>"
  by (simp add: put_notes_def)

lemma caller_okD:
  assumes "caller_ok m core" "t = pxCurrentTCB (mk m) core"
  shows "running (mk m) core t" "pvContainer (lists (mk m)) (xEventListItem t) = None" "t \<notin> doomed (mk m)"
  using assms by (auto simp: caller_ok_def running_def doomed_def)

lemma tick_keeps:
  assumes ok: "machine_ok m"
  shows "\<exists>m'. perform Tick m = Inr m' \<and> machine_ok m'"
proof -
  obtain b k W where k: "xTaskIncrementTick 0 (mk m) = Inr (b, k)" "kernel_inv k" "wakes W (mk m) k" "same_setting (mk m) k" "\<forall>t \<in> W. sleeping (mk m) t"
    using tick_inv [OF machine_okD(1,2) [OF ok]] by blast
  have "t \<notin> doomed (mk m)" if "t \<in> W" for t using k(5) that by (auto simp: sleeping_def doomed_def)
  then show ?thesis using put_woken_ok [OF ok k(2,4,3)] k(1) by simp
qed

lemma switch_keeps:
  assumes ok: "machine_ok m" and i: "allowed (Switch core) m"
  shows "\<exists>m'. perform (Switch core) m = Inr m' \<and> machine_ok m'"
proof -
  obtain i where "ready_at (mk m) (uxPriority (mk m) i) i" "can_run core (mk m) i" using i by (auto split: option.splits)
  then obtain k where k: "vTaskSwitchContext core (mk m) = Inr k" "kernel_inv k" "wakes {} (mk m) k" "same_setting (mk m) k"
    using switch_inv [OF machine_okD(1,2) [OF ok]] by blast
  then show ?thesis using put_woken_ok [OF ok k(2,4,3)] by simp
qed

lemma delay_keeps:
  assumes ok: "machine_ok m" and c: "caller_ok m core"
  shows "\<exists>k. vTaskDelay core d (mk m) = Inr k \<and> machine_ok (put_kernel k m)"
proof (cases "d = 0")
  case True
  then show ?thesis using ok by (simp add: vTaskDelay_def)
next
  case False
  define t where "t = pxCurrentTCB (mk m) core"
  note t = caller_okD [OF c t_def]
  obtain L where L: "kernel_ok (mk m) L" "timed (mk m) L" "priorities_ok (mk m)" using machine_okD(1) [OF ok] by (auto simp: kernel_inv_def)
  have d: "0 < d" using False by (simp add: word_gt_0)
  obtain k L' where k: "vTaskDelay core d (mk m) = Inr k" "kernel_ok k L'" "timed k L'" "sleeping k t"
    "\<forall>y. y \<noteq> xGenericListItem t \<longrightarrow> pvContainer (lists k) y = pvContainer (lists (mk m)) y" "same_but_time (mk m) k"
    using vTaskDelay_ok [OF L(1,2) t(1) d machine_okD(2) [OF ok]] by blast
  have n: "\<not> ready_at k p t" "t \<notin> doomed k" for p using k(4) by (auto simp: sleeping_def ready_at_def doomed_def)
  have "kernel_inv k" using leave_ready_inv [OF L(3) k(2,3,6) vTaskDelay_top [OF k(1)] n(1) k(5)] .
  then have "machine_ok ((put_kernel k m)\<lparr>mv := mv m, me := me m\<rparr>)"
    using put_moved_ok [OF ok _ _ t(2,3) n(2) k(5)] same_but_timeD(7) [OF k(6)] by blast
  then show ?thesis using k(1) by (simp add: put_kernel_def)
qed

lemma wait_event_keeps:
  assumes ok: "machine_ok m" and c: "allowed (Wait_Event core e d) m"
  shows "\<exists>m'. perform (Wait_Event core e d) m = Inr m' \<and> machine_ok m'"
proof -
  define t where "t = pxCurrentTCB (mk m) core"
  have a: "caller_ok m core" "e \<in> initialised (mk m)" "0 < d" using c by simp_all
  note t = caller_okD [OF a(1) t_def]
  obtain k where k: "vTaskPlaceOnEventList core (event_list e) d (mk m) = Inr k" "kernel_inv k" "same_but_time (mk m) k"
    "sleeping k t \<or> pvContainer (lists k) (xGenericListItem t) = Some xSuspendedTaskList"
    "\<forall>y. y \<noteq> xGenericListItem t \<and> y \<noteq> xEventListItem t \<longrightarrow> pvContainer (lists k) y = pvContainer (lists (mk m)) y"
    using place_inv [OF machine_okD(1) [OF ok] t(1) a(3,2)] by blast
  have s: "pvContainer (lists k) (xGenericListItem u) = pvContainer (lists (mk m)) (xGenericListItem u)"
    "pvContainer (lists k) (xEventListItem u) = pvContainer (lists (mk m)) (xEventListItem u)" if "u \<noteq> t" for u
    using k(5) that by auto
  have "doomed k = doomed (mk m)"
  proof -
    have "u \<in> doomed k \<longleftrightarrow> u \<in> doomed (mk m)" for u
      using s(1) [of u] t(3) k(4) by (cases "u = t") (auto simp: doomed_def sleeping_def)
    then show ?thesis by blast
  qed
  moreover have "sleeping k u \<or> pvContainer (lists k) (xGenericListItem u) = Some xSuspendedTaskList" if "waits k u (event_list x)" for u x
    using that s [of u] k(4) machine_okD(3) [OF ok] by (cases "u = t") (auto simp: blocked_waiters_def waits_def sleeping_def)
  then have "blocked_waiters k" unfolding blocked_waiters_def by blast
  moreover have "pvContainer (lists k) (xEventListItem u) = None" if "me m u = eWaitingNotification" for u
    using that a(1) s(2) [of u] machine_okD(4) [OF ok that] by (cases "u = t") (auto simp: caller_ok_def t_def)
  ultimately have "machine_ok ((put_kernel k m)\<lparr>mv := mv m, me := me m\<rparr>)"
    using put_kernel_ok [OF ok k(2)] same_but_timeD(7) [OF k(3)] by blast
  then show ?thesis using k(1) by (simp add: put_kernel_def)
qed

lemma signal_keeps:
  assumes ok: "machine_ok m" and e: "e \<in> initialised (mk m)"
  shows "\<exists>m'. perform (Signal_Event core e) m = Inr m' \<and> machine_ok m'"
proof (cases "listLIST_IS_EMPTY (event_list e) (lists (mk m))")
  case False
  note r = remove_event_inv [OF machine_okD(1) [OF ok] machine_okD(3,2) [OF ok] e]
  obtain u where "waits (mk m) u (event_list e)" using r(1) False by blast
  from r(2) [OF this] obtain t b k where k: "waits (mk m) t (event_list e)" "xTaskRemoveFromEventList core (event_list e) (mk m) = Inr (b, k)"
    "kernel_inv k" "wakes {t} (mk m) k" "same_setting (mk m) k" by blast
  have "t \<notin> doomed (mk m)" using machine_okD(3) [OF ok] k(1) by (auto simp: blocked_waiters_def sleeping_def doomed_def)
  then show ?thesis using put_woken_ok [OF ok k(3,5,4)] k(2) False by simp
qed (use ok in simp)

lemma notify_block_keeps:
  assumes ok: "machine_ok m" and c: "caller_ok m core" and s: "nk s = mk m" "eNotifyState s = me m"
  shows "\<exists>b s'. notify_block core d s = Inr (b, s') \<and> machine_ok (put_notes s' m)"
proof -
  define t where "t = pxCurrentTCB (mk m) core"
  note t = caller_okD [OF c t_def]
  show ?thesis
  proof (cases "d = 0")
    case True
    have "machine_ok (put_notes (set_state t eWaitingNotification s) m)" unfolding put_notes_eq
      using t(2) machine_okD(4) [OF ok] s by (intro put_kernel_ok [OF ok]) (auto simp: machine_okD(1,3) [OF ok] split: if_splits)
    then show ?thesis using True s(1)
      by (intro exI [of _ False] exI [of _ "set_state t eWaitingNotification s"]) (simp add: notify_block_def t_def [symmetric] Let_def)
  next
    case False
    then have d: "0 < d" by (simp add: word_gt_0)
    have p: "kernel_inv (nk s)" "running (nk s) core t" using s(1) machine_okD(1) [OF ok] t(1) by simp_all
    obtain k where k: "notify_block core d s = Inr (True, (set_state t eWaitingNotification s)\<lparr>nk := k\<rparr>)" "kernel_inv k" "same_but_time (mk m) k"
      "if d = portMAX_DELAY then pvContainer (lists k) (xGenericListItem t) = Some xSuspendedTaskList else sleeping k t \<and> remaining k t = d"
      "\<forall>y. y \<noteq> xGenericListItem t \<longrightarrow> pvContainer (lists k) y = pvContainer (lists (mk m)) y"
      using notify_block_ok [OF p d] unfolding s(1) by blast
    have n: "t \<notin> doomed k" using k(4) by (auto simp: doomed_def sleeping_def split: if_splits)
    have "machine_ok ((put_kernel k m)\<lparr>mv := ulNotifiedValue s, me := (me m)(t := eWaitingNotification)\<rparr>)"
      by (rule put_moved_ok [OF ok k(2) same_but_timeD(7) [OF k(3)] t(2,3) n k(5)]) simp
    then have "machine_ok (put_notes ((set_state t eWaitingNotification s)\<lparr>nk := k\<rparr>) m)" using s(2) by (simp add: put_notes_eq)
    then show ?thesis using k(1) by blast
  qed
qed

text \<open>A call that changes only the notification of one task, and leaves it not waiting.\<close>

lemma settled_ok:
  assumes ok: "machine_ok m" and s: "nk s = mk m" "eNotifyState s = (me m)(t := x)" "x \<noteq> eWaitingNotification"
  shows "machine_ok (put_notes s m)"
  unfolding put_notes_eq
  using machine_okD(4) [OF ok] s by (intro put_kernel_ok [OF ok]) (auto simp: machine_okD(1,3) [OF ok] split: if_splits)

lemma notify_keeps:
  assumes ok: "machine_ok m" and t: "alive m t"
  shows "\<exists>r s. xTaskNotify False core (Some t) v a (notified m) = Inr (r, s) \<and> machine_ok (put_notes s m)"
proof (cases "me m t = eWaitingNotification")
  case True
  have p: "kernel_inv (nk (notified m))" "eNotifyState (notified m) t = eWaitingNotification" "pvContainer (lists (nk (notified m))) (xGenericListItem t) \<noteq> None"
    "pvContainer (lists (nk (notified m))) (xEventListItem t) = None"
    using True machine_okD(1,4) [OF ok] t by (auto simp: alive_def)
  obtain y k s where k: "xTaskNotify False core (Some t) v a (notified m) = Inr ((True, y), s)" "nk s = k" "eNotifyState s = (me m)(t := eNotified)"
    "kernel_inv k" "ready_at k (uxPriority (mk m) t) t" "uxSchedulerSuspended k = uxSchedulerSuspended (mk m)"
    "\<forall>y. y \<noteq> xGenericListItem t \<longrightarrow> pvContainer (lists k) y = pvContainer (lists (mk m)) y"
    using xTaskNotify_wakes [OF p, of core v a] by auto
  have n: "t \<notin> doomed (mk m)" "t \<notin> doomed k" using t k(5) by (auto simp: alive_def doomed_def ready_at_def)
  have "machine_ok ((put_kernel k m)\<lparr>mv := ulNotifiedValue s, me := (me m)(t := eNotified)\<rparr>)"
    by (rule put_moved_ok [OF ok k(4,6) machine_okD(4) [OF ok True] n k(7)]) simp
  then have "machine_ok (put_notes s m)" using k(2,3) by (simp add: put_notes_eq)
  then show ?thesis using k(1) by blast
next
  case False
  obtain u r where u: "notified_value a v (me m t) (mv m t) = (u, r)" by fastforce
  then have "xTaskNotify False core (Some t) v a (notified m) = Inr ((r, False), set_value t u (set_state t eNotified (notified m)))"
    using False by (simp add: xTaskNotify_def Let_def)
  moreover have "machine_ok (put_notes (set_value t u (set_state t eNotified (notified m))) m)"
    by (rule settled_ok [OF ok, where t = t and x = eNotified]) simp_all
  ultimately show ?thesis by blast
qed

lemma suspend_keeps:
  assumes ok: "machine_ok m" and t: "alive m t"
  shows "\<exists>m'. perform (Suspend core t) m = Inr m' \<and> machine_ok m'"
proof -
  have c: "pvContainer (lists (mk m)) (xGenericListItem t) \<noteq> None" "t \<notin> doomed (mk m)" using t by (auto simp: alive_def doomed_def)
  obtain k where k: "park_task xSuspendedTaskList t (mk m) = Inr k" "kernel_inv k" "same_but_lists (mk m) k"
    "pvContainer (lists k) = (pvContainer (lists (mk m)))(xGenericListItem t := Some xSuspendedTaskList, xEventListItem t := None)"
    using park_task_ok [OF machine_okD(1) [OF ok] c(1), of xSuspendedTaskList] by auto
  define k' where "k' = (if is_current core t (sw m) then k else prvResetNextTaskUnblockTime k)"
  have f: "lists k' = lists k" "kernel_inv k'" "uxSchedulerSuspended k' = uxSchedulerSuspended (mk m)"
    using reset_unblock_inv [OF k(2)] k(2) same_but_listsD(12) [OF k(3)] by (simp_all add: k'_def)
  have "is_current core t ((sw m)\<lparr>kn := k\<rparr>) = is_current core t (sw m)" using same_but_listsD(3) [OF k(3)] by (simp add: is_current_def)
  then have "vTaskSuspend core (Some t) (sw m) = Inr (is_current core t (sw m), (sw m)\<lparr>kn := k'\<rparr>)"
    using k(1) machine_okD(2,5) [OF ok] same_but_listsD(12) [OF k(3)] by (simp add: vTaskSuspend_def prvGetTCBFromHandle_def Let_def k'_def)
  moreover have "doomed k' = doomed (mk m)" using c(2) by (auto simp: doomed_def f(1) k(4))
  moreover have "blocked_waiters k'"
    using machine_okD(3) [OF ok] by (auto simp: blocked_waiters_def waits_def sleeping_def f(1) k(4) split: if_splits)
  moreover have "pvContainer (lists k') (xEventListItem u) = None" if "me m u = eWaitingNotification" for u
    using machine_okD(4) [OF ok that] by (simp add: f(1) k(4))
  ultimately have "machine_ok ((put_kernel k' m)\<lparr>mv := mv m, me := me m\<rparr>)" using put_kernel_ok [OF ok f(2,3)] by blast
  then show ?thesis using \<open>vTaskSuspend core (Some t) (sw m) = _\<close> by (simp add: put_kernel_def)
qed

lemma yield_for_suspended: "uxSchedulerSuspended (snd (yield_for core t k)) = uxSchedulerSuspended k"
  by (simp add: yield_for_def taskYIELD_OTHER_CORE_def split: option.splits list.splits)

lemma resumed_ok:
  assumes ok: "machine_ok m" and p: "prvTaskIsTaskSuspended core t (mk m)"
  shows "\<exists>k1 y k. list_remove (xGenericListItem t) (mk m) = Inr k1 \<and> yield_for core t (prvAddTaskToReadyList t k1) = (y, k) \<and> machine_ok (put_kernel k m)"
proof -
  have c: "pvContainer (lists (mk m)) (xGenericListItem t) \<noteq> None" "pvContainer (lists (mk m)) (xEventListItem t) = None" "t \<notin> doomed (mk m)"
    using p by (auto simp: prvTaskIsTaskSuspended_def listIS_CONTAINED_WITHIN_def doomed_def)
  obtain k1 k2 where k: "list_remove (xGenericListItem t) (mk m) = Inr k1" "k2 = prvAddTaskToReadyList t k1" "kernel_inv k2" "same_but_lists (mk m) k2"
    "pvContainer (lists k2) = (pvContainer (lists (mk m)))(xGenericListItem t := Some (pxReadyTasksLists (uxPriority (mk m) t)))"
    using make_ready_inv [OF machine_okD(1) [OF ok] c(1)] by auto
  obtain y k3 where y: "yield_for core t k2 = (y, k3)" by fastforce
  have f: "lists k3 = lists k2" "kernel_inv k3" "uxSchedulerSuspended k3 = uxSchedulerSuspended (mk m)"
    using yield_for_frame [of core t k2] yield_for_suspended [of core t k2] y k(3) same_but_listsD(12) [OF k(4)] by auto
  have n: "t \<notin> doomed k3" by (simp add: doomed_def f(1) k(5))
  have "machine_ok ((put_kernel k3 m)\<lparr>mv := mv m, me := me m\<rparr>)"
    using put_moved_ok [OF ok f(2,3) c(2,3) n] f(1) k(5) by simp
  then show ?thesis using k(1,2) y by (simp add: put_kernel_def)
qed

lemma delete_keeps:
  assumes ok: "machine_ok m" and t: "alive m t"
  shows "\<exists>m'. perform (Delete core t) m = Inr m' \<and> machine_ok m'"
proof -
  have c: "t \<notin> doomed (mk m)" "prvGetTCBFromHandle core (Some t) (sw m) = Inr t" "may_stop core t (sw m)"
    using t machine_okD(2,5) [OF ok] by (auto simp: alive_def doomed_def prvGetTCBFromHandle_def may_stop_def)
  obtain w where w: "vTaskDelete core (Some t) (sw m) = Inr (is_current core t (sw m), w)" "kernel_inv (kn w)"
    "pvContainer (lists (kn w)) = (pvContainer (lists (mk m)))(xGenericListItem t := Some xTasksWaitingTermination, xEventListItem t := None)"
    "uxTasksDeleted w = uxTasksDeleted (sw m) + 1" "xSchedulerRunning w" "uxSchedulerSuspended (kn w) = uxSchedulerSuspended (mk m)"
    using vTaskDelete_ok [OF machine_okD(1) [OF ok] c(2,3)] by blast
  have "sched_ok (sw m)" using ok by (simp add: machine_ok_def)
  then have "sched_ok w" using delete_sched_ok [OF _ w(2) delete_doomed [OF w(3)] w(4) c(1)] by blast
  moreover have "blocked_waiters (kn w)"
    using machine_okD(3) [OF ok] by (auto simp: blocked_waiters_def waits_def sleeping_def w(3) split: if_splits)
  moreover have "pvContainer (lists (kn w)) (xEventListItem u) = None" if "me m u = eWaitingNotification" for u
    using machine_okD(4) [OF ok that] by (simp add: w(3))
  ultimately have "machine_ok (m\<lparr>sw := w\<rparr>)" using w(5,6) ok by (simp add: machine_ok_def)
  then show ?thesis using w(1) by simp
qed

text \<open>Progress and preservation, for every call.\<close>

lemma call_keeps:
  assumes ok: "machine_ok m" and a: "allowed c m"
  shows "\<exists>m'. perform c m = Inr m' \<and> machine_ok m'"
proof (cases c)
  case (Delay core d)
  then show ?thesis using delay_keeps [OF ok, of core d] a by auto
next
  case (Delay_Until core previous i)
  then have "caller_ok m core" "0 < i" using a by simp_all
  then show ?thesis
    using Delay_Until ok delay_keeps [OF ok, of core "previous + i - xTickCount (mk m)"] delay_until_cases [OF _ machine_okD(2) [OF ok], of i core previous]
    by auto
next
  case (Notify_Wait core clear d)
  define t where "t = pxCurrentTCB (mk m) core"
  show ?thesis
  proof (cases "me m t = eNotified")
    case False
    obtain b s where "notify_block core d (set_value t (mv m t AND NOT clear) (notified m)) = Inr (b, s)" "machine_ok (put_notes s m)"
      using notify_block_keeps [OF ok, of core "set_value t (mv m t AND NOT clear) (notified m)" d] a Notify_Wait by auto
    then show ?thesis using False Notify_Wait by (simp add: wait_begin_def Let_def t_def)
  qed (use Notify_Wait ok in \<open>simp add: wait_begin_def Let_def t_def\<close>)
next
  case (Notify_Wait_End core clear)
  have "machine_ok (put_notes (snd (wait_end core clear (notified m))) m)"
    by (rule settled_ok [OF ok, where t = "pxCurrentTCB (mk m) core" and x = eNotWaitingNotification]) (simp_all add: wait_end_def Let_def)
  then show ?thesis using Notify_Wait_End by simp
next
  case (Notify_Take core d)
  show ?thesis
  proof (cases "mv m (pxCurrentTCB (mk m) core) = 0")
    case True
    obtain b s where "notify_block core d (notified m) = Inr (b, s)" "machine_ok (put_notes s m)"
      using notify_block_keeps [OF ok, of core "notified m" d] a Notify_Take by auto
    then show ?thesis using True Notify_Take by (simp add: take_wait_def)
  qed (use Notify_Take ok in \<open>simp add: take_wait_def\<close>)
next
  case (Notify_Take_End core clear)
  have "machine_ok (put_notes (snd (take_end core clear (notified m))) m)"
    by (rule settled_ok [OF ok, where t = "pxCurrentTCB (mk m) core" and x = eNotWaitingNotification]) (simp_all add: take_end_def Let_def)
  then show ?thesis using Notify_Take_End by simp
next
  case (Notify core t v x)
  then show ?thesis using notify_keeps [OF ok, of t core v x] a by auto
next
  case (Notify_From_ISR core t v x)
  then have "kernel_inv (nk (notified m))" "uxSchedulerSuspended (nk (notified m)) core = 0" "pvContainer (lists (nk (notified m))) (xGenericListItem t) \<noteq> None"
    using a machine_okD(1,2) [OF ok] by (auto simp: alive_def)
  from isr_is_notify [OF this] show ?thesis using Notify_From_ISR notify_keeps [OF ok, of t core v x] a by auto
next
  case (Resume core t)
  show ?thesis
  proof (cases "\<not> is_current core t (sw m) \<and> prvTaskIsTaskSuspended core t (mk m)")
    case True
    then show ?thesis using Resume resumed_ok [OF ok, of core t] by (auto simp: vTaskResume_def put_kernel_def)
  qed (use Resume ok in \<open>auto simp: vTaskResume_def\<close>)
next
  case (Resume_From_ISR core t)
  show ?thesis
  proof (cases "prvTaskIsTaskSuspended core t (mk m)")
    case True
    then show ?thesis using Resume_From_ISR resumed_ok [OF ok, of core t] machine_okD(2) [OF ok] by (auto simp: xTaskResumeFromISR_def put_kernel_def)
  qed (use Resume_From_ISR ok in \<open>simp add: xTaskResumeFromISR_def\<close>)
qed (use ok a tick_keeps switch_keeps wait_event_keeps signal_keeps suspend_keeps delete_keeps in \<open>auto simp del: perform.simps\<close>)

section \<open>Runs\<close>

text \<open>The states that any sequence of allowed calls leads to.\<close>

inductive kernel_run :: "machine \<Rightarrow> machine \<Rightarrow> bool" where
  start: "kernel_run m m"
| call: "kernel_run m m1 \<Longrightarrow> allowed c m1 \<Longrightarrow> perform c m1 = Inr m2 \<Longrightarrow> kernel_run m m2"

lemma kernel_run_ok: "kernel_run m m' \<Longrightarrow> machine_ok m \<Longrightarrow> machine_ok m'"
proof (induction rule: kernel_run.induct)
  case (call m m1 c m2)
  then show ?case using call_keeps [of m1 c] by auto
qed


text \<open>Task 0 waits for a notification on core 1, and then the tick comes.\<close>

definition two_machines :: machine where
  "two_machines = \<lparr>sw = two_lives, mv = (\<lambda>_. 0), me = (\<lambda>_. eNotWaitingNotification)\<rparr>"


end
