(* ===== verification/RTOS_Ringbuf.thy ===== *)
theory RTOS_Ringbuf
  imports RTOS_Calls
begin

text \<open>
  The ring buffer for items of any length (\<^verbatim>\<open>components/freertos/ringbuf.c\<close>). An item is copied into the buffer
  behind a header with its length and flags; a receiver gets a pointer into the buffer and gives the item back later.
  Three kinds: items are never split, items may be split where the buffer ends, or plain bytes without headers.

  Pointers into the data storage are offsets from its start. The headers are bytes of the storage, as in the code:
  four bytes of length and four of flags. The conversions between \<^verbatim>\<open>int\<close>, \<^verbatim>\<open>ptrdiff_t\<close> and \<^verbatim>\<open>size_t\<close>, all of 32 bits, are
  written out where the code compares signed and unsigned values. Access outside the storage is the fault
  \<open>Out_Of_Bounds\<close>. The calls are those with a handle that is not NULL.
\<close>

section \<open>The structure\<close>

datatype ringbuf_type_t = RINGBUF_TYPE_NOSPLIT | RINGBUF_TYPE_ALLOWSPLIT | RINGBUF_TYPE_BYTEBUF

text \<open>The three function pointers of the structure are chosen together, by the type: \<open>rb_type\<close>.\<close>

record ringbuf_t =
  free_space_sem :: Queue_t
  items_buffered_sem :: Queue_t
  rb_size :: nat
  write_ptr :: nat
  read_ptr :: nat
  free_ptr :: nat
  rb_data :: "byte list"
  rb_type :: ringbuf_type_t
  maxItemSize :: nat

definition iflag_free :: u32 where "iflag_free = 1"

definition iflag_dummydata :: u32 where "iflag_dummydata = 2"

text \<open>Conversion of a signed value to \<^verbatim>\<open>size_t\<close>, and addition in \<^verbatim>\<open>size_t\<close>.\<close>

definition size_t :: "int \<Rightarrow> nat" where
  "size_t i = nat (i mod 2 ^ 32)"

definition size_add :: "nat \<Rightarrow> nat \<Rightarrow> nat" where
  "size_add a b = (a + b) mod 2 ^ 32"

text \<open>\<^verbatim>\<open>(n+3)&~3\<close>\<close>

definition round_up :: "nat \<Rightarrow> nat" where
  "round_up n = size_add n 3 div 4 * 4"

section \<open>The storage\<close>

text \<open>\<^verbatim>\<open>sizeof(buf_entry_hdr_t)\<close> is 8.\<close>

definition hdr_len :: "nat \<Rightarrow> ringbuf_t \<Rightarrow> nat run" where
  "hdr_len p rb = (if p + 8 \<le> length (rb_data rb) then Inr (unat (of_le32 (chunk (rb_data rb) p 4))) else Inl Out_Of_Bounds)"

definition hdr_flags :: "nat \<Rightarrow> ringbuf_t \<Rightarrow> u32 run" where
  "hdr_flags p rb = (if p + 8 \<le> length (rb_data rb) then Inr (of_le32 (chunk (rb_data rb) (p + 4) 4)) else Inl Out_Of_Bounds)"

definition store :: "nat \<Rightarrow> byte list \<Rightarrow> ringbuf_t \<Rightarrow> ringbuf_t run" where
  "store p bs rb = (if p + length bs \<le> length (rb_data rb) then Inr (rb\<lparr>rb_data := overwrite (rb_data rb) p bs\<rparr>) else Inl Out_Of_Bounds)"

definition set_len :: "nat \<Rightarrow> nat \<Rightarrow> ringbuf_t \<Rightarrow> ringbuf_t run" where
  "set_len p n rb = store p (le32 (of_nat n)) rb"

definition set_flags :: "nat \<Rightarrow> u32 \<Rightarrow> ringbuf_t \<Rightarrow> ringbuf_t run" where
  "set_flags p f rb = store (p + 4) (le32 f) rb"

definition ringbufferFreeMem :: "ringbuf_t \<Rightarrow> int" where
  "ringbufferFreeMem rb =
     (let free_size = int (free_ptr rb) - int (write_ptr rb)
      in (if free_size \<le> 0 then free_size + int (rb_size rb) else free_size) - 1)"

text \<open>A pointer that leaves no room for a header before the end goes to the start.\<close>

definition forward :: "ringbuf_t \<Rightarrow> nat \<Rightarrow> nat" where
  "forward rb p = (if size_t (int (rb_size rb) - int p) < 8 then 0 else p)"

section \<open>Copying an item into the buffer\<close>

text \<open>The end of both functions: header and data at the write pointer.\<close>

definition put_item :: "byte list \<Rightarrow> nat \<Rightarrow> ringbuf_t \<Rightarrow> (bool \<times> ringbuf_t) run" where
  "put_item buffer rbuffer_size rb =
     run_bind (set_len (write_ptr rb) (length buffer) rb) (\<lambda>rb1.
     run_bind (set_flags (write_ptr rb) 0 rb1) (\<lambda>rb2.
     run_bind (store (write_ptr rb + 8) buffer rb2) (\<lambda>rb3.
       Inr (True, rb3\<lparr>write_ptr := forward rb (write_ptr rb + 8 + rbuffer_size)\<rparr>))))"

definition copyItemToRingbufNoSplit :: "byte list \<Rightarrow> ringbuf_t \<Rightarrow> (bool \<times> ringbuf_t) run" where
  "copyItemToRingbufNoSplit buffer rb =
     (let rbuffer_size = round_up (length buffer);
          rem_len = size_t (int (rb_size rb) - int (write_ptr rb)) in
      if write_ptr rb mod 4 \<noteq> 0 then Inl Assert_Failed
      else if size_t (int (write_ptr rb) - int (rb_size rb)) < 8 then Inl Assert_Failed
      else if rem_len < size_add rbuffer_size 8 then
        if size_t (int (free_ptr rb)) < size_add (size_add rbuffer_size 8) 4 then Inr (False, rb)
        else if free_ptr rb > write_ptr rb then Inr (False, rb)
        else run_bind (set_flags (write_ptr rb) iflag_dummydata rb) (\<lambda>rb1. put_item buffer rbuffer_size (rb1\<lparr>write_ptr := 0\<rparr>))
      else if size_t (ringbufferFreeMem rb) < size_add 8 rbuffer_size then Inr (False, rb)
      else put_item buffer rbuffer_size rb)"

text \<open>The first part of a split item, and what remains for the second: buffer and rounded size.\<close>

definition put_first_part :: "byte list \<Rightarrow> nat \<Rightarrow> nat \<Rightarrow> ringbuf_t \<Rightarrow> ((byte list \<times> nat) \<times> ringbuf_t) run" where
  "put_first_part buffer rbuffer_size rem_len rb =
     run_bind (set_flags (write_ptr rb) 0 rb) (\<lambda>rb1.
     run_bind (set_len (write_ptr rb) (rem_len - 8) rb1) (\<lambda>rb2.
       let rem = rem_len - 8 in
       if rem \<noteq> 0 then
         if length buffer < rem then Inl Out_Of_Bounds
         else run_bind (store (write_ptr rb + 8) (take rem buffer) rb2) (\<lambda>rb3.
           Inr ((drop rem buffer, size_t (int rbuffer_size - int rem)), rb3\<lparr>write_ptr := 0\<rparr>))
       else run_bind (set_flags (write_ptr rb) iflag_dummydata rb2) (\<lambda>rb3.
         Inr ((buffer, rbuffer_size), rb3\<lparr>write_ptr := 0\<rparr>))))"

definition copyItemToRingbufAllowSplit :: "byte list \<Rightarrow> ringbuf_t \<Rightarrow> (bool \<times> ringbuf_t) run" where
  "copyItemToRingbufAllowSplit buffer rb =
     (let rbuffer_size = round_up (length buffer);
          rem_len = size_t (int (rb_size rb) - int (write_ptr rb)) in
      if write_ptr rb mod 4 \<noteq> 0 then Inl Assert_Failed
      else if size_t (int (write_ptr rb) - int (rb_size rb)) < 8 then Inl Assert_Failed
      else if rem_len < size_add rbuffer_size 8 then
        if size_t (ringbufferFreeMem rb) < size_add 16 rbuffer_size then Inr (False, rb)
        else if rem_len < 8 then Inl Assert_Failed
        else run_bind (put_first_part buffer rbuffer_size rem_len rb) (\<lambda>((buffer', rbuffer_size'), rb1).
          put_item buffer' rbuffer_size' rb1)
      else if size_t (ringbufferFreeMem rb) < size_add 8 rbuffer_size then Inr (False, rb)
      else put_item buffer rbuffer_size rb)"

definition copyItemToRingbufByteBuf :: "byte list \<Rightarrow> ringbuf_t \<Rightarrow> (bool \<times> ringbuf_t) run" where
  "copyItemToRingbufByteBuf buffer rb =
     (let rem_len = size_t (int (rb_size rb) - int (write_ptr rb)) in
      run_bind (if rem_len < length buffer
                then run_bind (store (write_ptr rb) (take rem_len buffer) rb) (\<lambda>rb1.
                  Inr (drop rem_len buffer, rb1\<lparr>write_ptr := 0\<rparr>))
                else Inr (buffer, rb)) (\<lambda>(buffer', rb1).
      run_bind (store (write_ptr rb1) buffer' rb1) (\<lambda>rb2.
        let w = write_ptr rb1 + length buffer'
        in Inr (True, rb2\<lparr>write_ptr := (if rb_size rb = w then 0 else w)\<rparr>))))"

definition copyItemToRingbufImpl :: "byte list \<Rightarrow> ringbuf_t \<Rightarrow> (bool \<times> ringbuf_t) run" where
  "copyItemToRingbufImpl buffer rb =
     (case rb_type rb of
        RINGBUF_TYPE_NOSPLIT \<Rightarrow> copyItemToRingbufNoSplit buffer rb
      | RINGBUF_TYPE_ALLOWSPLIT \<Rightarrow> copyItemToRingbufAllowSplit buffer rb
      | RINGBUF_TYPE_BYTEBUF \<Rightarrow> copyItemToRingbufByteBuf buffer rb)"

section \<open>Getting an item\<close>

text \<open>The result is the offset of the item and its length; \<open>None\<close> is NULL.\<close>

type_synonym item_ref = "(nat \<times> nat) option"

definition getItemFromRingbufDefault :: "ringbuf_t \<Rightarrow> (item_ref \<times> ringbuf_t) run" where
  "getItemFromRingbufDefault rb =
     (if read_ptr rb mod 4 \<noteq> 0 then Inl Assert_Failed
      else if read_ptr rb = write_ptr rb then Inr (None, rb)
      else
        run_bind (hdr_len (read_ptr rb) rb) (\<lambda>len0.
        run_bind (hdr_flags (read_ptr rb) rb) (\<lambda>flags.
          if \<not> (len0 < rb_size rb \<or> flags AND iflag_dummydata \<noteq> 0) then Inl Assert_Failed
          else
            let r = (if flags AND iflag_dummydata \<noteq> 0 then 0 else read_ptr rb) in
            run_bind (hdr_len r rb) (\<lambda>len.
              if \<not> len < rb_size rb then Inl Assert_Failed
              else Inr (Some (r + 8, len), rb\<lparr>read_ptr := forward rb (r + 8 + round_up len)\<rparr>)))))"

definition getItemFromRingbufByteBuf :: "nat \<Rightarrow> ringbuf_t \<Rightarrow> item_ref \<times> ringbuf_t" where
  "getItemFromRingbufByteBuf wanted_length rb =
     (if read_ptr rb \<noteq> free_ptr rb then (None, rb)
      else if read_ptr rb = write_ptr rb then (None, rb)
      else
        let len = (if read_ptr rb > write_ptr rb then rb_size rb - read_ptr rb else write_ptr rb - read_ptr rb) in
        if wanted_length \<noteq> 0 \<and> len > wanted_length
        then (Some (read_ptr rb, wanted_length), rb\<lparr>read_ptr := read_ptr rb + wanted_length\<rparr>)
        else (Some (read_ptr rb, len), rb\<lparr>read_ptr := (if read_ptr rb > write_ptr rb then 0 else write_ptr rb)\<rparr>))"

definition getItemFromRingbufImpl :: "nat \<Rightarrow> ringbuf_t \<Rightarrow> (item_ref \<times> ringbuf_t) run" where
  "getItemFromRingbufImpl wanted_length rb =
     (if rb_type rb = RINGBUF_TYPE_BYTEBUF then Inr (getItemFromRingbufByteBuf wanted_length rb)
      else getItemFromRingbufDefault rb)"

section \<open>Giving an item back\<close>

partial_function (option) cleanup_loop :: "ringbuf_t \<Rightarrow> ringbuf_t run option" where
  "cleanup_loop rb =
     (case hdr_flags (free_ptr rb) rb of
        Inl e \<Rightarrow> Some (Inl e)
      | Inr flags \<Rightarrow>
          if (flags AND iflag_free \<noteq> 0 \<or> flags AND iflag_dummydata \<noteq> 0) \<and> free_ptr rb \<noteq> write_ptr rb then
            case (if flags AND iflag_dummydata \<noteq> 0 then Inr 0
                  else run_bind (hdr_len (free_ptr rb) rb) (\<lambda>len.
                    let p = free_ptr rb + (round_up len + 8) in if p \<le> rb_size rb then Inr p else Inl Assert_Failed)) of
              Inl e \<Rightarrow> Some (Inl e)
            | Inr p \<Rightarrow>
                let rb1 = rb\<lparr>free_ptr := forward rb p\<rparr>
                in if free_ptr rb1 = read_ptr rb1 then Some (Inr rb1) else cleanup_loop rb1
          else Some (Inr rb))"

definition returnItemToRingbufDefault :: "nat \<Rightarrow> ringbuf_t \<Rightarrow> ringbuf_t run" where
  "returnItemToRingbufDefault item rb =
     (if free_ptr rb mod 4 \<noteq> 0 then Inl Assert_Failed
      else if item \<ge> rb_size rb then Inl Assert_Failed
      else if item < 8 then Inl Out_Of_Bounds
      else
        run_bind (hdr_len (item - 8) rb) (\<lambda>len.
        run_bind (hdr_flags (item - 8) rb) (\<lambda>flags.
          if \<not> len < rb_size rb \<or> flags AND iflag_dummydata \<noteq> 0 \<or> flags AND iflag_free \<noteq> 0 then Inl Assert_Failed
          else run_bind (set_flags (item - 8) (flags OR iflag_free) rb) (\<lambda>rb1. or_blocks (cleanup_loop rb1)))))"

definition returnItemToRingbufBytebuf :: "nat \<Rightarrow> ringbuf_t \<Rightarrow> ringbuf_t run" where
  "returnItemToRingbufBytebuf item rb =
     (if item \<ge> rb_size rb then Inl Assert_Failed else Inr (rb\<lparr>free_ptr := read_ptr rb\<rparr>))"

definition returnItemToRingbufImpl :: "nat \<Rightarrow> ringbuf_t \<Rightarrow> ringbuf_t run" where
  "returnItemToRingbufImpl item rb =
     (if rb_type rb = RINGBUF_TYPE_BYTEBUF then returnItemToRingbufBytebuf item rb else returnItemToRingbufDefault item rb)"

section \<open>Creation and deletion\<close>

text \<open>
  \<open>a\<close>, \<open>d\<close>, \<open>s1\<close> and \<open>s2\<close> are the addresses the four allocations return, \<open>area\<close> is the content of the storage; \<open>blocks\<close> are the
  allocated blocks. A type that is none of the three (\<open>None\<close>) fails an assertion.
\<close>

definition rb_free_all :: "nat \<Rightarrow> nat option \<Rightarrow> nat option \<Rightarrow> nat option \<Rightarrow> nat set \<Rightarrow> nat set" where
  "rb_free_all a d s1 s2 blocks = blocks - (set_option d \<union> set_option s1 \<union> set_option s2) - {a}"

definition max_item_size :: "nat \<Rightarrow> ringbuf_type_t \<Rightarrow> nat" where
  "max_item_size n type =
     (case type of
        RINGBUF_TYPE_ALLOWSPLIT \<Rightarrow> size_t (int n - 8 * 2 - 4)
      | RINGBUF_TYPE_BYTEBUF \<Rightarrow> size_t (int n - 1)
      | RINGBUF_TYPE_NOSPLIT \<Rightarrow> size_t (int (n div 2) - 8 - 4))"

definition xRingbufferCreate ::
  "nat option \<Rightarrow> nat option \<Rightarrow> nat option \<Rightarrow> nat option \<Rightarrow> byte list \<Rightarrow> nat \<Rightarrow> ringbuf_type_t option \<Rightarrow> nat set \<Rightarrow> (ringbuf_t option \<times> nat set) run" where
  "xRingbufferCreate a d s1 s2 area buf_length type blocks =
     (case a of
        None \<Rightarrow> Inr (None, blocks)
      | Some a \<Rightarrow>
          let b1 = insert a blocks in
          if d = None then Inr (None, rb_free_all a None None None b1)
          else
            let b2 = b1 \<union> set_option d \<union> set_option s1 \<union> set_option s2;
                sem = prvInitialiseNewQueue 1 0 (raw_queue [])
            in case type of
              None \<Rightarrow> Inl Assert_Failed
            | Some type \<Rightarrow>
                if s1 = None \<or> s2 = None then Inr (None, rb_free_all a d s1 s2 b2)
                else Inr (Some \<lparr>free_space_sem = sem, items_buffered_sem = sem, rb_size = buf_length, write_ptr = 0, read_ptr = 0,
                  free_ptr = 0, rb_data = area, rb_type = type, maxItemSize = max_item_size buf_length type\<rparr>, b2))"

definition vRingbufferDelete :: "nat option \<Rightarrow> nat option \<Rightarrow> nat option \<Rightarrow> nat option \<Rightarrow> nat set \<Rightarrow> nat set" where
  "vRingbufferDelete a d s1 s2 blocks = (case a of None \<Rightarrow> blocks | Some a \<Rightarrow> rb_free_all a d s1 s2 blocks)"

definition xRingbufferGetMaxItemSize :: "ringbuf_t \<Rightarrow> nat" where
  "xRingbufferGetMaxItemSize rb = maxItemSize rb"

section \<open>Sending\<close>

text \<open>
  What other tasks do to the buffer while a task is in \<^verbatim>\<open>xRingbufferSend\<close>, in one round of its loops: before the first test of the
  free space, up to the end of the wait for the semaphore (which is successful if the semaphore is there then), before the second
  test, and before the copy. \<open>now\<close> is the tick count after the wait. The result is \<open>None\<close> if the rounds end before the function does.
\<close>

record send_round =
  at_test :: "ringbuf_t \<Rightarrow> ringbuf_t"
  while_waiting :: "ringbuf_t \<Rightarrow> ringbuf_t"
  now :: u32
  at_retest :: "ringbuf_t \<Rightarrow> ringbuf_t"
  at_lock :: "ringbuf_t \<Rightarrow> ringbuf_t"

definition too_small :: "byte list \<Rightarrow> ringbuf_t \<Rightarrow> bool" where
  "too_small data rb \<longleftrightarrow> size_t (ringbufferFreeMem rb) < size_add (length data) 8"

text \<open>The first half of a round: \<open>None\<close> is the time-out.\<close>

definition wait_for_space :: "task \<Rightarrow> byte list \<Rightarrow> u32 \<Rightarrow> u32 \<Rightarrow> u32 \<Rightarrow> send_round \<Rightarrow> ringbuf_t \<Rightarrow> u32 option \<times> ringbuf_t" where
  "wait_for_space me data ticks_to_wait ticks_end ticks_remaining e rb =
     (if too_small data rb then
        let rb1 = while_waiting e rb in
        case xSemaphoreTake (Some me) (free_space_sem rb1) of
          None \<Rightarrow> (None, rb1)
        | Some q \<Rightarrow> (Some (if ticks_to_wait \<noteq> portMAX_DELAY then ticks_end - now e else ticks_remaining), rb1\<lparr>free_space_sem := q\<rparr>)
      else (Some ticks_remaining, rb))"

fun send_loop :: "task \<Rightarrow> byte list \<Rightarrow> u32 \<Rightarrow> u32 \<Rightarrow> u32 \<Rightarrow> send_round list \<Rightarrow> ringbuf_t \<Rightarrow> (bool \<times> ringbuf_t) run option" where
  "send_loop me data ticks_to_wait ticks_end ticks_remaining [] rb = None"
| "send_loop me data ticks_to_wait ticks_end ticks_remaining (e # es) rb =
     (case wait_for_space me data ticks_to_wait ticks_end ticks_remaining e (at_test e rb) of
        (None, rb1) \<Rightarrow> Some (Inr (False, rb1))
      | (Some left, rb1) \<Rightarrow>
          let rb2 = at_retest e rb1 in
          if too_small data rb2 \<and> 0 < left \<and> left \<le> ticks_to_wait
          then send_loop me data ticks_to_wait ticks_end left es rb2
          else
            (case copyItemToRingbufImpl data (at_lock e rb2) of
               Inl f \<Rightarrow> Some (Inl f)
             | Inr (done, rb3) \<Rightarrow>
                 if done then Some (Inr (True, rb3\<lparr>items_buffered_sem := xSemaphoreGive (items_buffered_sem rb3)\<rparr>))
                 else send_loop me data ticks_to_wait ticks_end left es rb3))"

definition xRingbufferSend ::
  "task \<Rightarrow> byte list \<Rightarrow> u32 \<Rightarrow> u32 \<Rightarrow> send_round list \<Rightarrow> ringbuf_t \<Rightarrow> (bool \<times> ringbuf_t) run option" where
  "xRingbufferSend me data ticks_to_wait start rounds rb =
     (if length data > xRingbufferGetMaxItemSize rb then Some (Inr (False, rb))
      else send_loop me data ticks_to_wait (start + ticks_to_wait) ticks_to_wait rounds rb)"

text \<open>From an interrupt; whether a task of higher priority was woken is left out.\<close>

definition xRingbufferSendFromISR :: "byte list \<Rightarrow> ringbuf_t \<Rightarrow> (bool \<times> ringbuf_t) run" where
  "xRingbufferSendFromISR data rb =
     (if size_add (length data) 8 > size_t (ringbufferFreeMem rb) then Inr (False, rb)
      else run_bind (copyItemToRingbufImpl data rb) (\<lambda>(write_succeeded, rb1).
        Inr (write_succeeded, if write_succeeded then rb1\<lparr>items_buffered_sem := xSemaphoreGive (items_buffered_sem rb1)\<rparr> else rb1)))"

section \<open>Receiving\<close>

text \<open>What other tasks do in one round: before the test, up to the end of the wait, before the lock.\<close>

type_synonym receive_round = "(ringbuf_t \<Rightarrow> ringbuf_t) \<times> (ringbuf_t \<Rightarrow> ringbuf_t) \<times> (ringbuf_t \<Rightarrow> ringbuf_t)"

fun xRingbufferReceiveGeneric :: "task \<Rightarrow> nat \<Rightarrow> receive_round list \<Rightarrow> ringbuf_t \<Rightarrow> (item_ref \<times> ringbuf_t) run option" where
  "xRingbufferReceiveGeneric me wanted_size [] rb = None"
| "xRingbufferReceiveGeneric me wanted_size ((tst, waiting, locking) # es) rb =
     (let rb1 = tst rb in
      if read_ptr rb1 = write_ptr rb1 then
        let rb2 = waiting rb1 in
        case xSemaphoreTake (Some me) (items_buffered_sem rb2) of
          None \<Rightarrow> Some (Inr (None, rb2))
        | Some q \<Rightarrow> xRingbufferReceiveGeneric me wanted_size es (rb2\<lparr>items_buffered_sem := q\<rparr>)
      else
        case getItemFromRingbufImpl wanted_size (locking rb1) of
          Inl f \<Rightarrow> Some (Inl f)
        | Inr (None, rb2) \<Rightarrow> xRingbufferReceiveGeneric me wanted_size es rb2
        | Inr (Some item, rb2) \<Rightarrow> Some (Inr (Some item, rb2)))"

definition xRingbufferReceive :: "task \<Rightarrow> receive_round list \<Rightarrow> ringbuf_t \<Rightarrow> (item_ref \<times> ringbuf_t) run option" where
  "xRingbufferReceive me rounds rb = xRingbufferReceiveGeneric me 0 rounds rb"

definition xRingbufferReceiveFromISR :: "ringbuf_t \<Rightarrow> (item_ref \<times> ringbuf_t) run" where
  "xRingbufferReceiveFromISR rb = getItemFromRingbufImpl 0 rb"

definition xRingbufferReceiveUpTo :: "task \<Rightarrow> nat \<Rightarrow> receive_round list \<Rightarrow> ringbuf_t \<Rightarrow> (item_ref \<times> ringbuf_t) run option" where
  "xRingbufferReceiveUpTo me wanted_size rounds rb =
     (if wanted_size = 0 then Some (Inr (None, rb))
      else if rb_type rb \<noteq> RINGBUF_TYPE_BYTEBUF then Some (Inl Assert_Failed)
      else xRingbufferReceiveGeneric me wanted_size rounds rb)"

definition xRingbufferReceiveUpToFromISR :: "nat \<Rightarrow> ringbuf_t \<Rightarrow> (item_ref \<times> ringbuf_t) run" where
  "xRingbufferReceiveUpToFromISR wanted_size rb =
     (if wanted_size = 0 then Inr (None, rb)
      else if rb_type rb \<noteq> RINGBUF_TYPE_BYTEBUF then Inl Assert_Failed
      else getItemFromRingbufImpl wanted_size rb)"

definition vRingbufferReturnItem :: "nat \<Rightarrow> ringbuf_t \<Rightarrow> ringbuf_t run" where
  "vRingbufferReturnItem item rb =
     run_bind (returnItemToRingbufImpl item rb) (\<lambda>rb1. Inr (rb1\<lparr>free_space_sem := xSemaphoreGive (free_space_sem rb1)\<rparr>))"

definition vRingbufferReturnItemFromISR :: "nat \<Rightarrow> ringbuf_t \<Rightarrow> ringbuf_t run" where
  "vRingbufferReturnItemFromISR item rb =
     run_bind (returnItemToRingbufImpl item rb) (\<lambda>rb1. Inr (rb1\<lparr>free_space_sem := xSemaphoreGive (free_space_sem rb1)\<rparr>))"

text \<open>
  Membership in queue sets is that of the semaphores, which are the queues \<open>free_space\<close> and \<open>items_buffered\<close> of the kernel.
\<close>

definition xRingbufferAddToQueueSetRead :: "qhandle \<Rightarrow> qhandle \<Rightarrow> qsys \<Rightarrow> bool \<times> qsys" where
  "xRingbufferAddToQueueSetRead items_buffered xQueueSet s = xQueueAddToSet items_buffered xQueueSet s"

definition xRingbufferAddToQueueSetWrite :: "qhandle \<Rightarrow> qhandle \<Rightarrow> qsys \<Rightarrow> bool \<times> qsys" where
  "xRingbufferAddToQueueSetWrite free_space xQueueSet s = xQueueAddToSet free_space xQueueSet s"

definition xRingbufferRemoveFromQueueSetRead :: "qhandle \<Rightarrow> qhandle \<Rightarrow> qsys \<Rightarrow> bool \<times> qsys" where
  "xRingbufferRemoveFromQueueSetRead items_buffered xQueueSet s = xQueueRemoveFromSet items_buffered xQueueSet s"

definition xRingbufferRemoveFromQueueSetWrite :: "qhandle \<Rightarrow> qhandle \<Rightarrow> qsys \<Rightarrow> bool \<times> qsys" where
  "xRingbufferRemoveFromQueueSetWrite free_space xQueueSet s = xQueueRemoveFromSet free_space xQueueSet s"

section \<open>Entries in the storage\<close>

text \<open>What a stretch of the ring holds: items, which have been given back or not, and the marks after which the ring goes on at its start.\<close>

datatype entry = Item "byte list" bool | Dummy

definition pad :: "nat \<Rightarrow> nat" where
  "pad n = (n + 3) div 4 * 4"

lemma pad_bounds: "n \<le> pad n" "pad n < n + 4" "pad n mod 4 = 0" "n mod 4 = 0 \<Longrightarrow> pad n = n"
proof -
  show "pad n mod 4 = 0" by (simp add: pad_def)
  have "(n + 3) div 4 * 4 + (n + 3) mod 4 = n + 3" by (rule div_mult_mod_eq)
  moreover have "(n + 3) mod 4 < 4" by simp
  ultimately show "n \<le> pad n" "pad n < n + 4" unfolding pad_def by linarith+
  show "n mod 4 = 0 \<Longrightarrow> pad n = n" by (auto simp: pad_def elim!: dvdE [OF iffD2 [OF dvd_eq_mod_eq_0]])
qed

lemma pad_drop: "k mod 4 = 0 \<Longrightarrow> k \<le> n \<Longrightarrow> pad (n - k) = pad n - k"
proof -
  assume "k mod 4 = 0" "k \<le> n"
  then obtain j where j: "k = 4 * j" by (auto elim!: dvdE [OF iffD2 [OF dvd_eq_mod_eq_0]])
  then obtain m where "n = 4 * j + m" using \<open>k \<le> n\<close> by (metis le_iff_add)
  then show ?thesis by (simp add: j pad_def add.assoc)
qed

text \<open>The part of the ring of size \<open>z\<close> that an entry at \<open>p\<close> takes up, up to the next entry.\<close>

fun ext :: "nat \<Rightarrow> nat \<Rightarrow> entry \<Rightarrow> nat" where
  "ext z p (Item bs _) = (if z - (p + (8 + pad (length bs))) < 8 then z - p else 8 + pad (length bs))"
| "ext z p Dummy = z - p"

fun entry_at :: "byte list \<Rightarrow> nat \<Rightarrow> entry \<Rightarrow> bool" where
  "entry_at d p (Item bs f) \<longleftrightarrow> p + (8 + pad (length bs)) \<le> length d \<and> chunk d p 4 = le32 (of_nat (length bs)) \<and>
     chunk d (p + 4) 4 = le32 (if f then iflag_free else 0) \<and> chunk d (p + 8) (length bs) = bs"
| "entry_at d p Dummy \<longleftrightarrow> p + 8 \<le> length d \<and> chunk d (p + 4) 4 = le32 iflag_dummydata"

text \<open>Entries one after the other, from the position \<open>v\<close> on a ring that is unrolled without end.\<close>

fun spans :: "nat \<Rightarrow> nat \<Rightarrow> entry list \<Rightarrow> nat" where
  "spans z v [] = 0"
| "spans z v (e # es) = ext z (v mod z) e + spans z (v + ext z (v mod z) e) es"

fun chain :: "byte list \<Rightarrow> nat \<Rightarrow> entry list \<Rightarrow> bool" where
  "chain d v [] = True"
| "chain d v (e # es) \<longleftrightarrow> entry_at d (v mod length d) e \<and> chain d (v + ext (length d) (v mod length d) e) es"

lemma spans_append: "spans z v (es @ fs) = spans z v es + spans z (v + spans z v es) fs"
  by (induction es arbitrary: v) (simp_all add: add.assoc)

lemma chain_append: "chain d v (es @ fs) \<longleftrightarrow> chain d v es \<and> chain d (v + spans (length d) v es) fs"
  by (induction es arbitrary: v) (simp_all add: add.assoc)

lemma ext_bounds:
  assumes "entry_at d p e"
  shows "8 \<le> ext (length d) p e" "p + ext (length d) p e \<le> length d" "p + 8 \<le> length d"
  using assms by (cases e; auto split: if_splits)+

lemma ext_aligned: "z mod 4 = 0 \<Longrightarrow> p mod 4 = 0 \<Longrightarrow> ext z p e mod 4 = 0"
  by (cases e) (auto simp: pad_def mod_eq_0_iff_dvd intro!: dvd_diff_nat dvd_add)

text \<open>Where the next entry is.\<close>

lemma mod_step_ring:
  fixes v x z :: nat
  assumes "v mod z + x \<le> z" "0 < z"
  shows "(v + x) mod z = (if v mod z + x = z then 0 else v mod z + x)"
proof -
  have "(v + x) mod z = (v mod z + x) mod z" by (simp add: mod_add_left_eq)
  then show ?thesis using assms by simp
qed

lemma mod_inside:
  fixes v i z :: nat
  shows "v mod z + i < z \<Longrightarrow> (v + i) mod z = v mod z + i"
  using mod_step_ring [of v z i] by simp

lemma next_entry:
  assumes e: "entry_at d (v mod length d) e"
  shows "(v + ext (length d) (v mod length d) e) mod length d =
    (case e of Dummy \<Rightarrow> 0
     | Item bs _ \<Rightarrow> if length d - (v mod length d + (8 + pad (length bs))) < 8 then 0 else v mod length d + (8 + pad (length bs)))"
proof -
  let ?p = "v mod length d"
  have z: "0 < length d" "?p < length d" using ext_bounds(3) [OF e] by auto
  have le: "?p + ext (length d) ?p e \<le> length d" by (rule ext_bounds(2) [OF e])
  show ?thesis using mod_step_ring [OF le z(1)] e z(2) by (cases e) auto
qed

lemma entry_ends:
  assumes e: "entry_at d (v mod length d) e"
  shows "(v + ext (length d) (v mod length d) e) mod length d + 8 \<le> length d"
  using next_entry [OF e] ext_bounds(3) [OF e] by (auto split: entry.splits)

lemma chain_ends:
  "chain d v es \<Longrightarrow> v mod length d + 8 \<le> length d \<Longrightarrow> (v + spans (length d) v es) mod length d + 8 \<le> length d"
proof (induction es arbitrary: v)
  case (Cons e es)
  let ?v = "v + ext (length d) (v mod length d) e"
  have "(?v + spans (length d) ?v es) mod length d + 8 \<le> length d"
    using Cons.prems entry_ends [of d v e] by (intro Cons.IH) simp_all
  then show ?case by (simp add: add.assoc)
qed simp

lemma spans_aligned:
  "z mod 4 = 0 \<Longrightarrow> v mod 4 = 0 \<Longrightarrow> spans z v es mod 4 = 0"
proof (induction es arbitrary: v)
  case (Cons e es)
  have "v mod z mod 4 = 0" using Cons.prems by (metis dvd_eq_mod_eq_0 dvd_mod)
  then have a: "ext z (v mod z) e mod 4 = 0" using Cons.prems(1) by (intro ext_aligned)
  then have "(v + ext z (v mod z) e) mod 4 = 0" using Cons.prems(2) by (metis add_0 mod_add_eq mod_mod_trivial)
  from Cons.IH [OF Cons.prems(1) this] a show ?case by (metis add_0 mod_add_eq mod_0 spans.simps(2))
qed simp

section \<open>Writing leaves the other entries alone\<close>

lemma nth_chunk: "i < n \<Longrightarrow> p + n \<le> length d \<Longrightarrow> chunk d p n ! i = d ! (p + i)"
  by (simp add: chunk_def)

lemma chunk_cong:
  assumes "length d' = length d" "p + n \<le> length d" "\<And>i. i < n \<Longrightarrow> d' ! (p + i) = d ! (p + i)"
  shows "chunk d' p n = chunk d p n"
  using assms by (intro nth_equalityI) (auto simp: length_chunk nth_chunk)

lemma entry_at_cong:
  assumes e: "entry_at d p e" and d: "length d' = length d" "\<And>i. i < ext (length d) p e \<Longrightarrow> d' ! (p + i) = d ! (p + i)"
  shows "entry_at d' p e"
proof -
  have part: "chunk d' (p + a) n = chunk d (p + a) n" if "a + n \<le> ext (length d) p e" for a n
    using that d ext_bounds(2) [OF e] by (intro chunk_cong) (simp_all add: add.assoc)
  show ?thesis
  proof (cases e)
    case (Item bs f)
    have "8 + length bs \<le> ext (length d) p e" using e Item pad_bounds(1) [of "length bs"] by (auto simp: not_less)
    then show ?thesis using e d(1) part [of 0 4] part [of 4 4] part [of 8 "length bs"] by (simp add: Item)
  next
    case Dummy
    then have "8 \<le> ext (length d) p e" using ext_bounds(1) [OF e] by simp
    then show ?thesis using e d(1) part [of 4 4] Dummy by simp
  qed
qed

lemma chain_cong:
  assumes "chain d v es" "length d' = length d" "\<And>i. i < spans (length d) v es \<Longrightarrow> d' ! ((v + i) mod length d) = d ! ((v + i) mod length d)"
  shows "chain d' v es"
  using assms
proof (induction es arbitrary: v)
  case (Cons e es)
  let ?p = "v mod length d" and ?x = "ext (length d) (v mod length d) e"
  have e: "entry_at d ?p e" using Cons.prems(1) by simp
  have "d' ! (?p + i) = d ! (?p + i)" if "i < ?x" for i
  proof -
    have "(v + i) mod length d = ?p + i" using that ext_bounds(2) [OF e] by (intro mod_inside) simp
    then show ?thesis using Cons.prems(3) [of i] that by simp
  qed
  then have "entry_at d' ?p e" using e Cons.prems(2) by (rule entry_at_cong [rotated 2])
  moreover have "chain d' (v + ?x) es"
  proof (rule Cons.IH)
    show "d' ! ((v + ?x + i) mod length d) = d ! ((v + ?x + i) mod length d)" if "i < spans (length d) (v + ?x) es" for i
      using Cons.prems(3) [of "?x + i"] that by (simp add: add.assoc)
  qed (use Cons.prems in simp_all)
  ultimately show ?case using Cons.prems(2) by simp
qed simp

text \<open>A write at distance \<open>a\<close> from \<open>v\<close> is not seen at other distances.\<close>

lemma overwrite_elsewhere:
  assumes w: "(v + a) mod length d + length bs \<le> length d" "a + length bs \<le> length d"
    and i: "i < length d" "i < a \<or> a + length bs \<le> i"
  shows "overwrite d ((v + a) mod length d) bs ! ((v + i) mod length d) = d ! ((v + i) mod length d)"
proof -
  let ?z = "length d"
  have z: "(v + i) mod ?z < ?z" using i(1) by (intro mod_less_divisor) linarith
  have "\<not> ((v + a) mod ?z \<le> (v + i) mod ?z \<and> (v + i) mod ?z < (v + a) mod ?z + length bs)"
  proof
    assume h: "(v + a) mod ?z \<le> (v + i) mod ?z \<and> (v + i) mod ?z < (v + a) mod ?z + length bs"
    then obtain j where j: "(v + i) mod ?z = (v + a) mod ?z + j" "j < length bs" by (metis le_iff_add nat_add_left_cancel_less)
    then have "(v + i) mod ?z = (v + (a + j)) mod ?z" using w(1) mod_inside [of "v + a" ?z j] by (simp add: add.assoc)
    moreover have "a + j < ?z" using j(2) w(2) by simp
    ultimately have "i = a + j" using mod_ring_inj i(1) by blast
    with i(2) j(2) show False by auto
  qed
  then show ?thesis using z w(1) by (subst nth_overwrite) auto
qed

lemma chunk_overwrite_inside:
  assumes "p + length ys \<le> length xs" "a + n \<le> length ys"
  shows "chunk (overwrite xs p ys) (p + a) n = chunk ys a n"
  using assms by (intro nth_equalityI) (auto simp: length_chunk length_overwrite nth_chunk nth_overwrite)

lemma overwrite_append:
  assumes "p + length ys + length zs \<le> length xs"
  shows "overwrite (overwrite xs p ys) (p + length ys) zs = overwrite xs p (ys @ zs)"
  using assms by (simp add: overwrite_def ac_simps)

lemma chain_overwrite:
  assumes c: "chain d v es" and s: "spans (length d) v es \<le> a" "a + length bs \<le> length d" and p: "(v + a) mod length d + length bs \<le> length d"
  shows "chain (overwrite d ((v + a) mod length d) bs) v es"
  using c p s by (intro chain_cong [OF c]) (auto simp: length_overwrite intro!: overwrite_elsewhere)

text \<open>A new item, and a new mark, at the end of the chain.\<close>

definition item_bytes :: "byte list \<Rightarrow> byte list" where
  "item_bytes b = le32 (of_nat (length b)) @ le32 0 @ b"

lemma chain_new_item:
  assumes c: "chain d v es" and p: "p = (v + spans (length d) v es) mod length d" "p + (8 + pad (length b)) \<le> length d"
    and s: "spans (length d) v es + (8 + pad (length b)) \<le> length d"
  shows "chain (overwrite d p (item_bytes b)) v (es @ [Item b False])"
proof -
  let ?d = "overwrite d p (item_bytes b)"
  have l: "length (item_bytes b) = 8 + length b" "8 + length b \<le> 8 + pad (length b)" using pad_bounds(1) by (simp_all add: item_bytes_def)
  have w: "p + length (item_bytes b) \<le> length d" using l p(2) by linarith
  have "chain ?d v es" unfolding p(1) using c w l s p(1) by (intro chain_overwrite) auto
  moreover have "chunk ?d p 4 = le32 (of_nat (length b))" "chunk ?d (p + 4) 4 = le32 0" "chunk ?d (p + 8) (length b) = b"
    using chunk_overwrite_inside [OF w, of 0 4] chunk_overwrite_inside [OF w, of 4 4] chunk_overwrite_inside [OF w, of 8 "length b"] l
    by (simp_all add: item_bytes_def chunk_def)
  ultimately show ?thesis using p w by (simp add: chain_append length_overwrite)
qed

lemma chain_new_dummy:
  assumes c: "chain d v es" and p: "p = (v + spans (length d) v es) mod length d" "p + 8 \<le> length d"
    and s: "spans (length d) v es + 8 \<le> length d"
  shows "chain (overwrite d (p + 4) (le32 iflag_dummydata)) v (es @ [Dummy])"
proof -
  let ?d = "overwrite d (p + 4) (le32 iflag_dummydata)" and ?s = "spans (length d) v es"
  have "(v + ?s) mod length d + 4 < length d" using p by simp
  from mod_inside [OF this] have q: "(v + (?s + 4)) mod length d = p + 4" using p(1) by (simp add: add.assoc)
  have "chain ?d v es" using chain_overwrite [OF c, of "?s + 4" "le32 iflag_dummydata"] p(2) s unfolding q by simp
  moreover have "chunk ?d (p + 4) 4 = le32 iflag_dummydata"
    using chunk_overwrite_inside [of "p + 4" "le32 iflag_dummydata" d 0 4] p(2) by (simp add: chunk_def)
  ultimately show ?thesis using p by (simp add: chain_append length_overwrite)
qed

section \<open>The invariant of a buffer of items\<close>

lemma size_t_small: "0 \<le> i \<Longrightarrow> i < 2 ^ 32 \<Longrightarrow> size_t i = nat i"
  by (simp add: size_t_def)

lemma size_t_negative: "- (2 ^ 31) \<le> i \<Longrightarrow> i < 0 \<Longrightarrow> size_t i = nat (i + 2 ^ 32)"
proof -
  assume "- (2 ^ 31) \<le> i" "i < 0"
  then have "(i + 2 ^ 32) mod 2 ^ 32 = i + 2 ^ 32" by (intro mod_pos_pos_trivial) simp_all
  then show ?thesis by (simp add: size_t_def)
qed

lemma round_up_pad: "n < 2 ^ 31 \<Longrightarrow> round_up n = pad n"
  by (simp add: round_up_def size_add_def pad_def)

lemma pad_less: "n < 2 ^ 31 \<Longrightarrow> pad n < 2 ^ 31 + 4"
  using pad_bounds(2) [of n] by linarith

lemma forward_eq: "p \<le> rb_size rb \<Longrightarrow> rb_size rb < 2 ^ 31 \<Longrightarrow> forward rb p = (if rb_size rb - p < 8 then 0 else p)"
  by (auto simp: forward_def size_t_def)

text \<open>What is behind the read pointer: items that have not been given back, and every mark is followed by an item.\<close>

fun unread_ok :: "entry list \<Rightarrow> bool" where
  "unread_ok [] = True"
| "unread_ok (Item b f # es) \<longleftrightarrow> \<not> f \<and> unread_ok es"
| "unread_ok (Dummy # Item b f # es) \<longleftrightarrow> \<not> f \<and> unread_ok es"
| "unread_ok (Dummy # _) = False"

fun items :: "entry list \<Rightarrow> byte list list" where
  "items [] = []"
| "items (Item b _ # es) = b # items es"
| "items (Dummy # es) = items es"

lemma items_append [simp]: "items (es @ fs) = items es @ items fs"
  by (induction es rule: items.induct) simp_all

lemma unread_ok_append: "unread_ok es \<Longrightarrow> unread_ok fs \<Longrightarrow> unread_ok (es @ fs)"
  by (induction es rule: unread_ok.induct) simp_all

text \<open>The entries from the free pointer to the write pointer.\<close>

definition ring_ok :: "ringbuf_t \<Rightarrow> bool" where
  "ring_ok rb \<longleftrightarrow> rb_size rb mod 4 = 0 \<and> rb_size rb < 2 ^ 31 \<and> length (rb_data rb) = rb_size rb \<and>
     free_ptr rb + 8 \<le> rb_size rb \<and> free_ptr rb mod 4 = 0"

definition used :: "ringbuf_t \<Rightarrow> entry list \<Rightarrow> nat" where
  "used rb es = spans (rb_size rb) (free_ptr rb) es"

definition laid :: "ringbuf_t \<Rightarrow> entry list \<Rightarrow> bool" where
  "laid rb es \<longleftrightarrow> ring_ok rb \<and> chain (rb_data rb) (free_ptr rb) es \<and> used rb es < rb_size rb \<and>
     write_ptr rb = (free_ptr rb + used rb es) mod rb_size rb"

text \<open>From the free pointer to the read pointer are the entries \<open>out\<close>, from there to the write pointer the entries \<open>un\<close>.\<close>

definition holds :: "ringbuf_t \<Rightarrow> entry list \<Rightarrow> entry list \<Rightarrow> bool" where
  "holds rb out un \<longleftrightarrow> laid rb (out @ un) \<and> read_ptr rb = (free_ptr rb + used rb out) mod rb_size rb \<and> unread_ok un"

lemma laidD:
  assumes "laid rb es"
  shows "rb_size rb mod 4 = 0" "rb_size rb < 2 ^ 31" "length (rb_data rb) = rb_size rb" "free_ptr rb + 8 \<le> rb_size rb" "free_ptr rb mod 4 = 0"
    and "chain (rb_data rb) (free_ptr rb) es" "used rb es < rb_size rb" "write_ptr rb = (free_ptr rb + used rb es) mod rb_size rb"
  using assms by (simp_all add: laid_def ring_ok_def)

lemma write_ptr_ok:
  assumes h: "laid rb es"
  shows "write_ptr rb + 8 \<le> rb_size rb" "write_ptr rb mod 4 = 0"
    "write_ptr rb = (if free_ptr rb + used rb es < rb_size rb then free_ptr rb + used rb es else free_ptr rb + used rb es - rb_size rb)"
proof -
  note d = laidD [OF h]
  have "free_ptr rb mod rb_size rb = free_ptr rb" using d(4) by simp
  then show "write_ptr rb + 8 \<le> rb_size rb" using chain_ends [OF d(6)] d(3,4,8) by (simp add: used_def)
  have "used rb es mod 4 = 0" unfolding used_def by (rule spans_aligned [OF d(1,5)])
  then have "(free_ptr rb + used rb es) mod 4 = 0" using d(5) by (metis add_0 mod_add_eq mod_0)
  then show "write_ptr rb mod 4 = 0" using d(1,8) by (metis dvd_eq_mod_eq_0 dvd_mod)
  show "write_ptr rb = (if free_ptr rb + used rb es < rb_size rb then free_ptr rb + used rb es else free_ptr rb + used rb es - rb_size rb)"
    using d(4,7,8) by (auto simp: mod_if)
qed

lemma free_mem:
  assumes h: "laid rb es"
  shows "ringbufferFreeMem rb = int (rb_size rb) - int (used rb es) - 1" "size_t (ringbufferFreeMem rb) = rb_size rb - used rb es - 1"
proof -
  note d = laidD [OF h]
  show "ringbufferFreeMem rb = int (rb_size rb) - int (used rb es) - 1"
    using write_ptr_ok(3) [OF h] d(4,7) by (auto simp: ringbufferFreeMem_def Let_def split: if_splits)
  then show "size_t (ringbufferFreeMem rb) = rb_size rb - used rb es - 1"
    using d(2,7) by (subst size_t_small) auto
qed

section \<open>Copying keeps the invariant\<close>

definition same_ends :: "ringbuf_t \<Rightarrow> ringbuf_t \<Rightarrow> bool" where
  "same_ends rb rb' \<longleftrightarrow> rb_size rb' = rb_size rb \<and> free_ptr rb' = free_ptr rb \<and> read_ptr rb' = read_ptr rb \<and> rb_type rb' = rb_type rb \<and>
     maxItemSize rb' = maxItemSize rb \<and> free_space_sem rb' = free_space_sem rb \<and> items_buffered_sem rb' = items_buffered_sem rb"

lemma same_ends_trans: "same_ends a b \<Longrightarrow> same_ends b c \<Longrightarrow> same_ends a c"
  by (simp add: same_ends_def)

lemma put_item_eq:
  assumes "write_ptr rb + (8 + length b) \<le> length (rb_data rb)"
  shows "put_item b r rb = Inr (True, rb\<lparr>rb_data := overwrite (rb_data rb) (write_ptr rb) (item_bytes b),
    write_ptr := forward rb (write_ptr rb + 8 + r)\<rparr>)"
proof -
  let ?d = "rb_data rb" and ?w = "write_ptr rb" and ?l = "le32 (of_nat (length b)) :: byte list" and ?f = "le32 0 :: byte list"
  have "overwrite (overwrite ?d ?w ?l) (?w + 4) ?f = overwrite ?d ?w (?l @ ?f)"
    using overwrite_append [of ?w ?l ?f ?d] assms by simp
  moreover have "overwrite (overwrite ?d ?w (?l @ ?f)) (?w + 8) b = overwrite ?d ?w (item_bytes b)"
    using overwrite_append [of ?w "?l @ ?f" b ?d] assms by (simp add: item_bytes_def add.assoc)
  ultimately show ?thesis using assms
    by (simp add: put_item_def set_len_def set_flags_def store_def length_overwrite)
qed

text \<open>
  The room for an item at the write pointer, behind which the buffer does not look empty: if the item ends so close to the end
  of the storage that the write pointer goes on at the start, the free pointer must not be there.
\<close>

definition fills_up :: "ringbuf_t \<Rightarrow> nat \<Rightarrow> bool" where
  "fills_up rb n \<longleftrightarrow> free_ptr rb = 0 \<and> rb_size rb - (write_ptr rb + n) < 8"

lemma laid_put:
  assumes h: "laid rb es" and b: "write_ptr rb + (8 + pad (length b)) \<le> rb_size rb" "used rb es + (8 + pad (length b)) < rb_size rb"
    and f: "\<not> fills_up rb (8 + pad (length b))"
  shows "\<exists>rb'. put_item b (pad (length b)) rb = Inr (True, rb') \<and> laid rb' (es @ [Item b False]) \<and> same_ends rb rb'"
proof -
  note d = laidD [OF h]
  let ?n = "8 + pad (length b)" and ?w = "write_ptr rb"
  let ?rb = "rb\<lparr>rb_data := overwrite (rb_data rb) ?w (item_bytes b), write_ptr := forward rb (?w + ?n)\<rparr>"
  have l: "length (item_bytes b) = 8 + length b" "length b \<le> pad (length b)" using pad_bounds(1) by (simp_all add: item_bytes_def)
  have "put_item b (pad (length b)) rb = Inr (True, ?rb)"
    using put_item_eq [of rb b "pad (length b)"] b(1) d(3) l(2) by (simp add: add.assoc)
  moreover have c: "chain (rb_data ?rb) (free_ptr rb) (es @ [Item b False])"
    using d(3,8) b chain_new_item [OF d(6), of ?w b] by (simp add: used_def)
  have len: "length (rb_data ?rb) = rb_size rb" using b(1) l d(3) by (simp add: length_overwrite)
  have p: "(free_ptr rb + used rb es) mod rb_size rb = ?w" using d(8) by simp
  have e: "entry_at (rb_data ?rb) ((free_ptr rb + used rb es) mod length (rb_data ?rb)) (Item b False)"
    using c len by (simp add: chain_append used_def)
  have x: "ext (rb_size rb) ?w (Item b False) = (if rb_size rb - (?w + ?n) < 8 then rb_size rb - ?w else ?n)" by simp
  have u: "used ?rb (es @ [Item b False]) = used rb es + ext (rb_size rb) ?w (Item b False)"
    using p by (simp add: used_def spans_append)
  have "(free_ptr rb + used rb es + ext (rb_size rb) ?w (Item b False)) mod rb_size rb = (if rb_size rb - (?w + ?n) < 8 then 0 else ?w + ?n)"
    using next_entry [OF e, unfolded len p] by (simp only: entry.case)
  then have "forward rb (?w + ?n) = (free_ptr rb + used ?rb (es @ [Item b False])) mod rb_size rb"
    by (subst u) (simp only: forward_eq [OF b(1) d(2)] add.assoc)
  moreover have "used ?rb (es @ [Item b False]) < rb_size rb"
  proof (cases "rb_size rb - (?w + ?n) < 8")
    case True
    then have "0 < free_ptr rb" using f by (simp add: fills_up_def)
    then show ?thesis using True u x write_ptr_ok(3) [OF h] d(4,7) b by (auto split: if_splits)
  qed (use u x b(2) in simp)
  ultimately show ?thesis using c len d by (intro exI [of _ ?rb]) (simp add: laid_def ring_ok_def same_ends_def used_def)
qed

lemma laid_dummy:
  assumes h: "laid rb es" and f: "free_ptr rb \<le> write_ptr rb" "0 < free_ptr rb"
  shows "\<exists>rb'. set_flags (write_ptr rb) iflag_dummydata rb = Inr rb' \<and> laid (rb'\<lparr>write_ptr := 0\<rparr>) (es @ [Dummy]) \<and> same_ends rb rb' \<and>
    used (rb'\<lparr>write_ptr := 0\<rparr>) (es @ [Dummy]) = rb_size rb - free_ptr rb"
proof -
  note d = laidD [OF h]
  let ?w = "write_ptr rb"
  let ?rb = "rb\<lparr>rb_data := overwrite (rb_data rb) (?w + 4) (le32 iflag_dummydata)\<rparr>"
  note w = write_ptr_ok [OF h]
  have u0: "used rb es = ?w - free_ptr rb" using w(3) f(1) d(4,7) by (auto split: if_splits)
  have "set_flags ?w iflag_dummydata rb = Inr ?rb" using w(1) d(3) by (simp add: set_flags_def store_def)
  moreover have "chain (rb_data ?rb) (free_ptr rb) (es @ [Dummy])"
    using d(3,8) chain_new_dummy [OF d(6), of ?w] w(1) u0 f(2) by (simp add: used_def)
  moreover have "length (rb_data ?rb) = rb_size rb" using w(1) d(3) by (simp add: length_overwrite)
  moreover have u: "used (?rb\<lparr>write_ptr := 0\<rparr>) (es @ [Dummy]) = rb_size rb - free_ptr rb"
    using u0 f(1) w(1) d(8) by (simp add: used_def spans_append)
  moreover have "(free_ptr rb + (rb_size rb - free_ptr rb)) mod rb_size rb = 0" using d(4) by simp
  ultimately show ?thesis using d f(2) by (intro exI [of _ ?rb]) (simp add: laid_def ring_ok_def same_ends_def used_def)
qed

lemma copy_arith:
  assumes h: "laid rb es" and b: "length b < 2 ^ 31"
  shows "round_up (length b) = pad (length b)" "size_add (pad (length b)) 8 = pad (length b) + 8" "size_add 8 (pad (length b)) = 8 + pad (length b)"
    "size_add 16 (pad (length b)) = 16 + pad (length b)" "size_add (pad (length b) + 8) 4 = pad (length b) + 12"
    "size_t (int (rb_size rb) - int (write_ptr rb)) = rb_size rb - write_ptr rb" "\<not> size_t (int (write_ptr rb) - int (rb_size rb)) < 8"
    "size_t (int (free_ptr rb)) = free_ptr rb"
proof -
  have p: "pad (length b) < 2 ^ 31 + 4" by (rule pad_less [OF b])
  show "round_up (length b) = pad (length b)" by (rule round_up_pad [OF b])
  show "size_add (pad (length b)) 8 = pad (length b) + 8" "size_add 8 (pad (length b)) = 8 + pad (length b)"
    "size_add 16 (pad (length b)) = 16 + pad (length b)" "size_add (pad (length b) + 8) 4 = pad (length b) + 12"
    using p by (simp_all add: size_add_def)
  have w: "write_ptr rb + 8 \<le> rb_size rb" "rb_size rb < 2 ^ 31" "free_ptr rb + 8 \<le> rb_size rb" using write_ptr_ok(1) [OF h] laidD [OF h] by auto
  show "size_t (int (rb_size rb) - int (write_ptr rb)) = rb_size rb - write_ptr rb" using w by (subst size_t_small) auto
  have "size_t (int (write_ptr rb) - int (rb_size rb)) = nat (int (write_ptr rb) - int (rb_size rb) + 2 ^ 32)"
    using w by (intro size_t_negative) auto
  then show "\<not> size_t (int (write_ptr rb) - int (rb_size rb)) < 8" using w by simp
  show "size_t (int (free_ptr rb)) = free_ptr rb" using w by (subst size_t_small) auto
qed

text \<open>When an item finds room that need not be split.\<close>

definition room_whole :: "ringbuf_t \<Rightarrow> entry list \<Rightarrow> nat \<Rightarrow> bool" where
  "room_whole rb es n \<longleftrightarrow>
     (if write_ptr rb + n \<le> rb_size rb then used rb es + n < rb_size rb else n + 4 \<le> free_ptr rb \<and> free_ptr rb \<le> write_ptr rb)"

lemma copy_no_split:
  assumes h: "laid rb es" and b: "length b < 2 ^ 31" and f: "\<not> fills_up rb (8 + pad (length b))"
  shows "if room_whole rb es (8 + pad (length b))
    then \<exists>rb' ds. copyItemToRingbufNoSplit b rb = Inr (True, rb') \<and> laid rb' (es @ ds) \<and> ds \<in> {[Item b False], [Dummy, Item b False]} \<and> same_ends rb rb'
    else copyItemToRingbufNoSplit b rb = Inr (False, rb)"
proof -
  let ?n = "8 + pad (length b)" and ?w = "write_ptr rb"
  note a = copy_arith [OF h b] and d = laidD [OF h] and w = write_ptr_ok [OF h] and m = free_mem(2) [OF h]
  note copy = copyItemToRingbufNoSplit_def [of b rb] Let_def a w(2) m
  consider (fits) "?w + ?n \<le> rb_size rb" "used rb es + ?n < rb_size rb" | (full) "?w + ?n \<le> rb_size rb" "\<not> used rb es + ?n < rb_size rb"
    | (wrap) "\<not> ?w + ?n \<le> rb_size rb" "?n + 4 \<le> free_ptr rb" "free_ptr rb \<le> ?w"
    | (no_wrap) "\<not> ?w + ?n \<le> rb_size rb" "\<not> (?n + 4 \<le> free_ptr rb \<and> free_ptr rb \<le> ?w)" by blast
  then show ?thesis
  proof cases
    case fits
    have "copyItemToRingbufNoSplit b rb = put_item b (pad (length b)) rb" using fits d(7) by (auto simp: copy)
    then show ?thesis using laid_put [OF h fits f] fits by (auto simp: room_whole_def)
  next
    case full
    then show ?thesis using w(1) by (auto simp: copy room_whole_def)
  next
    case wrap
    then have "0 < free_ptr rb" by simp
    from laid_dummy [OF h wrap(3) this] obtain rb1 where
      r1: "set_flags ?w iflag_dummydata rb = Inr rb1" "laid (rb1\<lparr>write_ptr := 0\<rparr>) (es @ [Dummy])" "same_ends rb rb1"
        "used (rb1\<lparr>write_ptr := 0\<rparr>) (es @ [Dummy]) = rb_size rb - free_ptr rb" by blast
    have s: "rb_size rb1 = rb_size rb" "free_ptr rb1 = free_ptr rb" using r1(3) by (simp_all add: same_ends_def)
    have "\<not> fills_up (rb1\<lparr>write_ptr := 0\<rparr>) ?n" using wrap s by (simp add: fills_up_def)
    moreover have "write_ptr (rb1\<lparr>write_ptr := 0\<rparr>) + ?n \<le> rb_size (rb1\<lparr>write_ptr := 0\<rparr>)"
      "used (rb1\<lparr>write_ptr := 0\<rparr>) (es @ [Dummy]) + ?n < rb_size (rb1\<lparr>write_ptr := 0\<rparr>)" using r1(4) wrap d(4) s by simp_all
    ultimately obtain rb2 where r2: "put_item b (pad (length b)) (rb1\<lparr>write_ptr := 0\<rparr>) = Inr (True, rb2)"
      "laid rb2 ((es @ [Dummy]) @ [Item b False])" "same_ends (rb1\<lparr>write_ptr := 0\<rparr>) rb2" using laid_put [OF r1(2)] by blast
    have "copyItemToRingbufNoSplit b rb = Inr (True, rb2)" using wrap r1(1) r2(1) w(1) by (auto simp: copy)
    moreover have "same_ends rb rb2" using r1(3) r2(3) by (simp add: same_ends_def)
    ultimately show ?thesis using wrap r2(2) by (auto simp: room_whole_def)
  next
    case no_wrap
    then show ?thesis using w(1) by (auto simp: copy room_whole_def)
  qed
qed

lemma overwrite_prepend:
  assumes "p + length ys + length zs \<le> length xs"
  shows "overwrite (overwrite xs (p + length ys) zs) p ys = overwrite xs p (ys @ zs)"
  using assms by (simp add: overwrite_def ac_simps)

lemma laid_store:
  assumes h: "laid rb es" and n: "write_ptr rb + length bs \<le> rb_size rb" "used rb es + length bs \<le> rb_size rb"
  shows "laid (rb\<lparr>rb_data := overwrite (rb_data rb) (write_ptr rb) bs\<rparr>) es"
proof -
  note d = laidD [OF h]
  have "chain (overwrite (rb_data rb) (write_ptr rb) bs) (free_ptr rb) es"
    using chain_overwrite [OF d(6), of "used rb es" bs] n d(3,8) by (simp add: used_def)
  then show ?thesis using d n by (simp add: laid_def ring_ok_def used_def length_overwrite)
qed

text \<open>The first part of a split item is an item of its own that ends where the storage ends.\<close>

lemma first_part_item:
  assumes h: "laid rb es" and k: "write_ptr rb + (8 + k) = rb_size rb" "k \<noteq> 0" "k \<le> length b"
    and rb1: "put_item (take k b) k rb = Inr (True, rb1)"
  shows "put_first_part b r (8 + k) rb = Inr ((drop k b, size_t (int r - int k)), rb1)" "write_ptr rb1 = 0"
proof -
  note d = laidD [OF h]
  let ?d = "rb_data rb" and ?w = "write_ptr rb" and ?l = "le32 (of_nat k) :: byte list" and ?f = "le32 0 :: byte list"
  have "overwrite (overwrite ?d (?w + 4) ?f) ?w ?l = overwrite ?d ?w (?l @ ?f)"
    using overwrite_prepend [of ?w ?l ?f ?d] k(1) d(3) by simp
  moreover have "overwrite (overwrite ?d ?w (?l @ ?f)) (?w + 8) (take k b) = overwrite ?d ?w (item_bytes (take k b))"
    using overwrite_append [of ?w "?l @ ?f" "take k b" ?d] k(1,3) d(3) by (simp add: item_bytes_def add.assoc min_absorb2)
  moreover have "forward rb (?w + 8 + k) = 0" using k(1) forward_eq [of "?w + 8 + k" rb] d(2) by (simp add: add.assoc)
  ultimately show "put_first_part b r (8 + k) rb = Inr ((drop k b, size_t (int r - int k)), rb1)" "write_ptr rb1 = 0"
    using rb1 put_item_eq [of rb "take k b" k] k d(3)
    by (auto simp: put_first_part_def set_len_def set_flags_def store_def length_overwrite Let_def min_absorb2)
qed

lemma first_part_dummy:
  assumes h: "laid rb es" and w: "write_ptr rb + 8 = rb_size rb" "free_ptr rb \<le> write_ptr rb" "0 < free_ptr rb"
  shows "\<exists>rb1. put_first_part b r 8 rb = Inr ((b, r), rb1) \<and> laid rb1 (es @ [Dummy]) \<and> same_ends rb rb1 \<and> write_ptr rb1 = 0"
proof -
  note d = laidD [OF h]
  let ?rb = "rb\<lparr>rb_data := overwrite (rb_data rb) (write_ptr rb) (le32 0 @ le32 0)\<rparr>"
  have u: "used rb es = write_ptr rb - free_ptr rb" using write_ptr_ok(3) [OF h] w d(4,7) by (auto split: if_splits)
  have h1: "laid ?rb es" using u w by (intro laid_store [OF h]) simp_all
  from laid_dummy [OF this] w obtain rb1 where r1: "set_flags (write_ptr rb) iflag_dummydata ?rb = Inr rb1"
    "laid (rb1\<lparr>write_ptr := 0\<rparr>) (es @ [Dummy])" "same_ends ?rb rb1" by auto
  have "overwrite (overwrite (rb_data rb) (write_ptr rb + 4) (le32 0)) (write_ptr rb) (le32 0) = overwrite (rb_data rb) (write_ptr rb) (le32 0 @ le32 0)"
    using overwrite_prepend [of "write_ptr rb" "le32 0" "le32 0" "rb_data rb"] w(1) d(3) by simp
  then have "put_first_part b r 8 rb = Inr ((b, r), rb1\<lparr>write_ptr := 0\<rparr>)"
    using r1(1) w(1) d(3) by (simp add: put_first_part_def set_len_def set_flags_def store_def length_overwrite Let_def)
  then show ?thesis using r1(2,3) by (intro exI [of _ "rb1\<lparr>write_ptr := 0\<rparr>"]) (simp add: same_ends_def)
qed

text \<open>When an item finds room, split if need be.\<close>

definition room_split :: "ringbuf_t \<Rightarrow> entry list \<Rightarrow> nat \<Rightarrow> bool" where
  "room_split rb es n \<longleftrightarrow> used rb es + (if write_ptr rb + n \<le> rb_size rb then n else n + 8) < rb_size rb"

lemma split_room:
  assumes h: "laid rb es" and n: "\<not> write_ptr rb + n \<le> rb_size rb" "room_split rb es n"
  shows "free_ptr rb \<le> write_ptr rb" "0 < free_ptr rb" "used rb es = write_ptr rb - free_ptr rb" "n + 8 < free_ptr rb + (rb_size rb - write_ptr rb)"
  using write_ptr_ok(1,3) [OF h] laidD [OF h] n by (auto simp: room_split_def split: if_splits)

lemma split_sizes:
  assumes h: "laid rb es" and n: "\<not> write_ptr rb + (8 + pad (length b)) \<le> rb_size rb"
    and k: "k = rb_size rb - write_ptr rb - 8"
  shows "k mod 4 = 0" "k < length b" "write_ptr rb + (8 + k) = rb_size rb" "pad k = k" "pad (length b - k) = pad (length b) - k" "k < pad (length b)"
proof -
  note w = write_ptr_ok [OF h] and d = laidD [OF h]
  show k4: "k mod 4 = 0" using w(2) d(1) by (auto simp: k mod_eq_0_iff_dvd intro!: dvd_diff_nat)
  show wk: "write_ptr rb + (8 + k) = rb_size rb" using w(1) k by simp
  show kp: "k < pad (length b)" using n w(1) k by simp
  have "4 dvd pad (length b) - k" using k4 pad_bounds(3) [of "length b"] by (intro dvd_diff_nat) (simp_all add: dvd_eq_mod_eq_0)
  then have "4 \<le> pad (length b) - k" using kp by (intro dvd_imp_le) simp_all
  then show "k < length b" using pad_bounds(2) [of "length b"] by linarith
  then show "pad (length b - k) = pad (length b) - k" using k4 by (intro pad_drop) simp_all
  show "pad k = k" by (rule pad_bounds(4) [OF k4])
qed

lemma laid_at_start:
  assumes h: "laid rb es" and w: "write_ptr rb = 0" "0 < free_ptr rb"
  shows "used rb es = rb_size rb - free_ptr rb"
  using write_ptr_ok(3) [OF h] w laidD(4,7) [OF h] by (auto split: if_splits)

lemma copy_allow_split:
  assumes h: "laid rb es" and b: "length b < 2 ^ 31" and f: "\<not> fills_up rb (8 + pad (length b))"
  shows "if room_split rb es (8 + pad (length b))
    then \<exists>rb' ds. copyItemToRingbufAllowSplit b rb = Inr (True, rb') \<and> laid rb' (es @ ds) \<and> concat (items ds) = b \<and> unread_ok ds \<and>
      (b \<noteq> [] \<longrightarrow> [] \<notin> set (items ds)) \<and> same_ends rb rb'
    else copyItemToRingbufAllowSplit b rb = Inr (False, rb)"
proof -
  let ?n = "8 + pad (length b)" and ?w = "write_ptr rb"
  note a = copy_arith [OF h b] and d = laidD [OF h] and w = write_ptr_ok [OF h] and m = free_mem(2) [OF h]
  note copy = copyItemToRingbufAllowSplit_def [of b rb] Let_def a w(2) m
  consider (whole) "?w + ?n \<le> rb_size rb" "room_split rb es ?n" | (none) "\<not> room_split rb es ?n"
    | (split) "\<not> ?w + ?n \<le> rb_size rb" "room_split rb es ?n" by blast
  then show ?thesis
  proof cases
    case whole
    then have u: "used rb es + ?n < rb_size rb" by (simp add: room_split_def)
    have "copyItemToRingbufAllowSplit b rb = put_item b (pad (length b)) rb" using whole(1) u by (auto simp: copy)
    then show ?thesis using laid_put [OF h whole(1) u f] whole(2) by fastforce
  next
    case none
    then show ?thesis using w(1) by (auto simp: copy room_split_def split: if_splits)
  next
    case split
    define k where "k = rb_size rb - ?w - 8"
    note s = split_sizes [OF h split(1) k_def] and r = split_room [OF h split]
    have kw: "rb_size rb - ?w = 8 + k" using s(3) by simp
    have step: "copyItemToRingbufAllowSplit b rb =
        run_bind (put_first_part b (pad (length b)) (8 + k) rb) (\<lambda>((b', r'), rb1). put_item b' r' rb1)"
      using split r s(3) w(1) kw by (auto simp: copy room_split_def)
    have st: "size_t (int (pad (length b)) - int k) = pad (length b) - k" using s(6) pad_less [OF b] by (subst size_t_small) auto
    obtain rb1 rest ds where r1: "put_first_part b (pad (length b)) (8 + k) rb = Inr ((rest, pad (length rest)), rb1)" "write_ptr rb1 = 0"
      "laid rb1 (es @ ds)" "same_ends rb rb1" "rest = drop k b" "concat (items ds) = take k b" "unread_ok (ds @ [Item rest False])" "[] \<notin> set (items ds)"
    proof (cases "k = 0")
      case True
      then show ?thesis using that [where rest = b and ds = "[Dummy]"] first_part_dummy [OF h _ r(1,2), of b "pad (length b)"] s(3) by auto
    next
      case False
      have p: "?w + (8 + pad (length (take k b))) \<le> rb_size rb" "used rb es + (8 + pad (length (take k b))) < rb_size rb"
        "\<not> fills_up rb (8 + pad (length (take k b)))" using s r(1,2,3) by (simp_all add: min_absorb2 fills_up_def)
      obtain rb1 where q: "put_item (take k b) k rb = Inr (True, rb1)" "laid rb1 (es @ [Item (take k b) False])" "same_ends rb rb1"
        using laid_put [OF h p] s(2,4) by (auto simp: min_absorb2)
      show ?thesis using that [where rest = "drop k b" and ds = "[Item (take k b) False]"] first_part_item [OF h s(3) False _ q(1)] q(2,3) s(2,5) st False by (cases b) auto
    qed
    have e: "rb_size rb1 = rb_size rb" "free_ptr rb1 = free_ptr rb" using r1(4) by (simp_all add: same_ends_def)
    have u: "used rb1 (es @ ds) = rb_size rb - free_ptr rb" using laid_at_start [OF r1(3,2)] e r(2) by simp
    have n: "8 + pad (length rest) < free_ptr rb" using r(4) s(3,5,6) r1(5) by simp
    have "write_ptr rb1 + (8 + pad (length rest)) \<le> rb_size rb1" "used rb1 (es @ ds) + (8 + pad (length rest)) < rb_size rb1"
      "\<not> fills_up rb1 (8 + pad (length rest))" using n u e r(2) d(4) r1(2) by (simp_all add: fills_up_def)
    from laid_put [OF r1(3) this] obtain rb2 where r2: "put_item rest (pad (length rest)) rb1 = Inr (True, rb2)"
      "laid rb2 (es @ ds @ [Item rest False])" "same_ends rb1 rb2" by auto
    have "copyItemToRingbufAllowSplit b rb = Inr (True, rb2)" using step r1(1) r2(1) by simp
    moreover have "concat (items (ds @ [Item rest False])) = b" "[] \<notin> set (items (ds @ [Item rest False]))" using r1(5,6,8) s(2) by auto
    ultimately show ?thesis using split(2) r2(2) r1(7) same_ends_trans [OF r1(4) r2(3)]
      by (auto intro!: exI [of _ "ds @ [Item rest False]"])
  qed
qed

section \<open>Getting an item\<close>

lemma hdr_of_item:
  assumes e: "entry_at (rb_data rb) p (Item b f)" and z: "length (rb_data rb) = rb_size rb" "rb_size rb < 2 ^ 31"
  shows "hdr_len p rb = Inr (length b)" "hdr_flags p rb = Inr (if f then iflag_free else 0)" "length b < rb_size rb" "round_up (length b) = pad (length b)"
proof -
  have l: "length b \<le> pad (length b)" by (rule pad_bounds(1))
  then have b: "length b < rb_size rb" using e z by simp
  then have "unat (of_nat (length b) :: u32) = length b" using z(2) by (simp add: unat_of_nat)
  then show "hdr_len p rb = Inr (length b)" "hdr_flags p rb = Inr (if f then iflag_free else 0)" using e by (simp_all add: hdr_len_def hdr_flags_def)
  show "length b < rb_size rb" "round_up (length b) = pad (length b)" using b z(2) round_up_pad [of "length b"] by simp_all
qed

lemma hdr_of_dummy:
  assumes "entry_at (rb_data rb) p Dummy"
  shows "\<exists>l. hdr_len p rb = Inr l" "hdr_flags p rb = Inr iflag_dummydata"
  using assms by (simp_all add: hdr_len_def hdr_flags_def)

lemma flag_bits:
  "iflag_free AND iflag_dummydata = 0" "iflag_free AND iflag_free \<noteq> 0" "iflag_dummydata AND iflag_dummydata \<noteq> 0" "0 OR iflag_free = iflag_free"
  "iflag_dummydata AND iflag_free = 0"
  by (simp_all add: iflag_free_def iflag_dummydata_def)

lemma holdsD:
  assumes "holds rb out un"
  shows "laid rb (out @ un)" "read_ptr rb = (free_ptr rb + used rb out) mod rb_size rb" "unread_ok un"
  using assms by (simp_all add: holds_def)

lemma used_append: "used rb (es @ fs) = used rb es + spans (rb_size rb) (free_ptr rb + used rb es) fs"
  by (simp add: used_def spans_append)

lemma laid_append:
  assumes "laid rb (es @ fs)"
  shows "chain (rb_data rb) (free_ptr rb) es" "chain (rb_data rb) (free_ptr rb + used rb es) fs"
  using laidD(3,6) [OF assms] by (simp_all add: chain_append used_def)

text \<open>The entry after \<open>es\<close>, and the position behind it.\<close>

lemma laid_entry:
  assumes h: "laid rb (es @ e # fs)" and p: "p = (free_ptr rb + used rb es) mod rb_size rb"
  shows "entry_at (rb_data rb) p e" "used rb (es @ [e]) = used rb es + ext (rb_size rb) p e" "p mod 4 = 0"
    "(free_ptr rb + used rb (es @ [e])) mod rb_size rb =
      (case e of Dummy \<Rightarrow> 0 | Item b _ \<Rightarrow> if rb_size rb - (p + (8 + pad (length b))) < 8 then 0 else p + (8 + pad (length b)))"
    "0 < ext (rb_size rb) p e"
proof -
  note d = laidD [OF h]
  show e: "entry_at (rb_data rb) p e" using laid_append(2) [OF h] d(3) p by simp
  show u: "used rb (es @ [e]) = used rb es + ext (rb_size rb) p e" using p by (simp add: used_append)
  have "(free_ptr rb + used rb es) mod 4 = 0" using spans_aligned [OF d(1,5), of es] d(5) by (metis add_0 mod_add_eq mod_0 used_def)
  then show "p mod 4 = 0" using d(1) p by (metis dvd_eq_mod_eq_0 dvd_mod)
  have "entry_at (rb_data rb) ((free_ptr rb + used rb es) mod length (rb_data rb)) e" using e d(3) p by simp
  from next_entry [OF this, unfolded d(3) p [symmetric]]
  show "(free_ptr rb + used rb (es @ [e])) mod rb_size rb =
      (case e of Dummy \<Rightarrow> 0 | Item b _ \<Rightarrow> if rb_size rb - (p + (8 + pad (length b))) < 8 then 0 else p + (8 + pad (length b)))"
    by (simp add: u add.assoc)
  show "0 < ext (rb_size rb) p e" using ext_bounds(1) [OF e] d(3) by simp
qed

lemma laid_positions_differ:
  assumes h: "laid rb (es @ fs @ gs)" and f: "fs \<noteq> []"
  shows "(free_ptr rb + used rb es) mod rb_size rb \<noteq> (free_ptr rb + used rb (es @ fs)) mod rb_size rb"
proof -
  obtain e fs' where "fs = e # fs'" using f by (cases fs) auto
  then have "0 < spans (rb_size rb) (free_ptr rb + used rb es) fs" using laid_entry(5) [of rb es e "fs' @ gs"] h by auto
  then have "used rb es < used rb (es @ fs)" by (simp add: used_append)
  moreover have "used rb (es @ fs) < rb_size rb" using laidD(7) [OF h] used_append [of rb "es @ fs" gs] by simp
  ultimately show ?thesis using mod_ring_inj [of "used rb es" "rb_size rb" "used rb (es @ fs)" "free_ptr rb"] by auto
qed

lemma get_item_none:
  assumes h: "holds rb out []"
  shows "getItemFromRingbufDefault rb = Inr (None, rb)"
  using holdsD(1,2) [OF h] laidD(8) [of rb out] write_ptr_ok(2) [of rb out] by (simp add: getItemFromRingbufDefault_def)

lemma get_item_at:
  assumes h: "laid rb (es @ Item b False # fs)" and p: "p = (free_ptr rb + used rb es) mod rb_size rb"
  shows "hdr_len p rb = Inr (length b)" "hdr_flags p rb = Inr 0" "length b < rb_size rb"
    "forward rb (p + 8 + round_up (length b)) = (free_ptr rb + used rb (es @ [Item b False])) mod rb_size rb" "p mod 4 = 0"
    "chunk (rb_data rb) (p + 8) (length b) = b"
proof -
  note d = laidD [OF h] and e = laid_entry [OF h p]
  note q = hdr_of_item [OF e(1) d(3,2)]
  show "hdr_len p rb = Inr (length b)" "hdr_flags p rb = Inr 0" "length b < rb_size rb" "p mod 4 = 0" using q e(3) by simp_all
  show "chunk (rb_data rb) (p + 8) (length b) = b" using e(1) by simp
  have "p + 8 + pad (length b) \<le> rb_size rb" using e(1) d(3) by simp
  from forward_eq [OF this d(2)] show "forward rb (p + 8 + round_up (length b)) = (free_ptr rb + used rb (es @ [Item b False])) mod rb_size rb"
    using e(4) q(4) by (simp add: add.assoc)
qed

text \<open>The first unread item is delivered, with a mark before it skipped.\<close>

lemma get_item_some:
  assumes h: "holds rb out (ds @ Item b f # rest)" and ds: "ds \<in> {[], [Dummy]}" and p: "p = (free_ptr rb + used rb (out @ ds)) mod rb_size rb"
  shows "\<exists>rb'. getItemFromRingbufDefault rb = Inr (Some (p + 8, length b), rb') \<and> holds rb' (out @ ds @ [Item b False]) rest \<and>
    chunk (rb_data rb) (p + 8) (length b) = b \<and> rb' = rb\<lparr>read_ptr := read_ptr rb'\<rparr>"
proof -
  note g = holdsD [OF h]
  have f: "f = False" "unread_ok rest" using g(3) ds by auto
  have l: "laid rb ((out @ ds) @ Item b False # rest)" using g(1) f(1) by simp
  note i = get_item_at [OF l p] and d = laidD [OF l]
  let ?rb = "rb\<lparr>read_ptr := (free_ptr rb + used rb ((out @ ds) @ [Item b False])) mod rb_size rb\<rparr>"
  have ne: "read_ptr rb \<noteq> write_ptr rb"
    using laid_positions_differ [of rb out "ds @ Item b f # rest" "[]"] g(1,2) laidD(8) [OF g(1)] by simp
  have "getItemFromRingbufDefault rb = Inr (Some (p + 8, length b), ?rb)"
  proof (cases "ds = []")
    case True
    then show ?thesis using i ne p g(2) by (simp add: getItemFromRingbufDefault_def iflag_dummydata_def)
  next
    case False
    then have ds: "ds = [Dummy]" using ds by simp
    have l1: "laid rb (out @ Dummy # Item b False # rest)" using l ds by simp
    note e = laid_entry [OF l1 g(2)]
    obtain l0 where "hdr_len (read_ptr rb) rb = Inr l0" "hdr_flags (read_ptr rb) rb = Inr iflag_dummydata" using hdr_of_dummy [OF e(1)] by blast
    moreover have "p = 0" using e(4) p ds by simp
    ultimately show ?thesis using i ne e(3) flag_bits by (simp add: getItemFromRingbufDefault_def)
  qed
  moreover have "holds ?rb (out @ ds @ [Item b False]) rest"
    using l f(2) by (simp add: holds_def laid_def ring_ok_def used_def)
  ultimately show ?thesis using i(6) by (intro exI [of _ ?rb]) simp
qed

section \<open>Giving an item back\<close>

lemma spans_mod: "spans z (v mod z) es = spans z v es"
proof (induction es arbitrary: v)
  case (Cons e es)
  have "spans z (v mod z + x) es = spans z (v + x) es" for x
    using Cons.IH [of "v mod z + x"] Cons.IH [of "v + x"] by (simp add: mod_add_left_eq)
  then show ?case by simp
qed simp

lemma chain_mod: "chain d (v mod length d) es = chain d v es"
proof (induction es arbitrary: v)
  case (Cons e es)
  have "chain d (v mod length d + x) es = chain d (v + x) es" for x
    using Cons.IH [of "v mod length d + x"] Cons.IH [of "v + x"] by (simp add: mod_add_left_eq)
  then show ?case by simp
qed simp

lemma ext_flag: "ext z p (Item b f) = ext z p (Item b g)"
  by simp

lemma chain_mark_free:
  assumes c: "chain d v (es @ Item b False # fs)" and s: "spans (length d) v (es @ Item b False # fs) \<le> length d"
    and p: "p = (v + spans (length d) v es) mod length d"
  shows "chain (overwrite d (p + 4) (le32 iflag_free)) v (es @ Item b True # fs)"
proof -
  let ?d = "overwrite d (p + 4) (le32 iflag_free)" and ?s = "spans (length d) v es" and ?x = "ext (length d) p (Item b False)"
  have e: "entry_at d p (Item b False)" and fs: "chain d (v + ?s + ?x) fs" and es: "chain d v es" using c p by (simp_all add: chain_append)
  note x = ext_bounds [OF e]
  have "p + 4 < length d" using x(3) by simp
  then have q: "(v + (?s + 4)) mod length d = p + 4" using mod_inside [of "v + ?s" "length d" 4] p by (simp add: add.assoc)
  have tot: "?s + ?x + spans (length d) (v + ?s + ?x) fs \<le> length d" using s p by (simp add: spans_append add.assoc)
  have len: "length ?d = length d" using x(3) by (simp add: length_overwrite)
  have "chain ?d v es" using chain_overwrite [OF es, of "?s + 4" "le32 iflag_free"] x(1,3) tot unfolding q by simp
  moreover have "entry_at ?d p (Item b True)"
  proof -
    have "chunk ?d (p + 4) 4 = le32 iflag_free" using chunk_overwrite_inside [of "p + 4" "le32 iflag_free" d 0 4] x(3) by (simp add: chunk_def)
    moreover have "chunk ?d p 4 = chunk d p 4" using x(3) len by (intro chunk_cong) (auto simp: nth_overwrite)
    moreover have "chunk ?d (p + 8) (length b) = chunk d (p + 8) (length b)"
      using e pad_bounds(1) [of "length b"] len by (intro chunk_cong) (auto simp: nth_overwrite)
    ultimately show ?thesis using e len by simp
  qed
  moreover have "chain ?d (v + ?s + ?x) fs"
  proof (rule chain_cong [OF fs len])
    show "?d ! ((v + ?s + ?x + i) mod length d) = d ! ((v + ?s + ?x + i) mod length d)" if "i < spans (length d) (v + ?s + ?x) fs" for i
      using overwrite_elsewhere [of v "?s + 4" d "le32 iflag_free" "?s + ?x + i"] that x(1,3) tot unfolding q by (simp add: add.assoc)
  qed
  ultimately show ?thesis using len p ext_flag [of "length d" p b True False] by (simp add: chain_append)
qed

text \<open>The free pointer moves over the first entry.\<close>

lemma laid_tail:
  assumes h: "laid rb (e # es)" and p: "q = (free_ptr rb + ext (rb_size rb) (free_ptr rb) e) mod rb_size rb"
  shows "laid (rb\<lparr>free_ptr := q\<rparr>) es" "used rb (e # fs) = ext (rb_size rb) (free_ptr rb) e + used (rb\<lparr>free_ptr := q\<rparr>) fs"
    "(q + used (rb\<lparr>free_ptr := q\<rparr>) fs) mod rb_size rb = (free_ptr rb + used rb (e # fs)) mod rb_size rb"
proof -
  note d = laidD [OF h]
  have z: "free_ptr rb mod rb_size rb = free_ptr rb" using d(4) by simp
  show u: "used rb (e # fs) = ext (rb_size rb) (free_ptr rb) e + used (rb\<lparr>free_ptr := q\<rparr>) fs" for fs
    using z p spans_mod [of "rb_size rb" "free_ptr rb + ext (rb_size rb) (free_ptr rb) e" fs] by (simp add: used_def)
  show w: "(q + used (rb\<lparr>free_ptr := q\<rparr>) fs) mod rb_size rb = (free_ptr rb + used rb (e # fs)) mod rb_size rb" for fs
    using u [of fs] p by (simp add: mod_add_left_eq add.assoc)
  have "laid rb ([] @ e # es)" using h by simp
  note e = laid_entry [OF this, of "free_ptr rb"]
  have f: "used rb [] = 0" by (simp add: used_def)
  have e1: "entry_at (rb_data rb) (free_ptr rb) e" using e(1) f z by simp
  have "q + 8 \<le> rb_size rb" using entry_ends [of "rb_data rb" "free_ptr rb" e] e1 d(3) z p by simp
  moreover have "q mod 4 = 0"
  proof -
    have "ext (rb_size rb) (free_ptr rb) e mod 4 = 0" by (rule ext_aligned [OF d(1,5)])
    then have "(free_ptr rb + ext (rb_size rb) (free_ptr rb) e) mod 4 = 0" using d(5) by (metis add_0 mod_add_eq mod_0)
    then show ?thesis using d(1) p by (metis dvd_eq_mod_eq_0 dvd_mod)
  qed
  moreover have "chain (rb_data rb) q es"
    using d(3,6) z p chain_mod [of "rb_data rb" "free_ptr rb + ext (rb_size rb) (free_ptr rb) e" es] by simp
  moreover have "write_ptr rb = (q + used (rb\<lparr>free_ptr := q\<rparr>) es) mod rb_size rb" using w [of es] d(8) by simp
  ultimately show "laid (rb\<lparr>free_ptr := q\<rparr>) es" using d u [of es] by (simp add: laid_def ring_ok_def)
qed

fun freed :: "entry \<Rightarrow> bool" where
  "freed (Item _ f) = f"
| "freed Dummy = True"

lemma cleanup_step:
  assumes h: "laid rb (e # es)" and f: "freed e"
  shows "cleanup_loop rb = (let rb1 = rb\<lparr>free_ptr := (free_ptr rb + ext (rb_size rb) (free_ptr rb) e) mod rb_size rb\<rparr>
    in if free_ptr rb1 = read_ptr rb1 then Some (Inr rb1) else cleanup_loop rb1)"
proof -
  note d = laidD [OF h]
  have l: "laid rb ([] @ e # es)" using h by simp
  have f0: "free_ptr rb = (free_ptr rb + used rb []) mod rb_size rb" using d(4) by (simp add: used_def)
  note e = laid_entry [OF l f0]
  have ne: "free_ptr rb \<noteq> write_ptr rb"
    using laid_positions_differ [of rb "[]" "e # es" "[]"] h d(8) f0 by simp
  let ?q = "(free_ptr rb + ext (rb_size rb) (free_ptr rb) e) mod rb_size rb"
  have q: "?q = (case e of Dummy \<Rightarrow> 0 | Item b _ \<Rightarrow> if rb_size rb - (free_ptr rb + (8 + pad (length b))) < 8 then 0 else free_ptr rb + (8 + pad (length b)))"
    using e(2,4) by (simp add: used_def)
  show ?thesis
  proof (cases e)
    case (Item b fl)
    then have t: "entry_at (rb_data rb) (free_ptr rb) (Item b True)" using e(1) f by simp
    note i = hdr_of_item [OF t d(3,2)]
    have le: "free_ptr rb + (8 + pad (length b)) \<le> rb_size rb" using t d(3) by simp
    have "forward rb (free_ptr rb + (pad (length b) + 8)) = ?q" using forward_eq [OF le d(2)] q Item by (simp add: add.commute)
    then show ?thesis using i(1,2,4) ne le flag_bits by (subst cleanup_loop.simps) (simp add: Let_def add.commute)
  next
    case Dummy
    then have t: "entry_at (rb_data rb) (free_ptr rb) Dummy" using e(1) by simp
    have "forward rb 0 = 0" using d(2,4) by (subst forward_eq) simp_all
    then show ?thesis using hdr_of_dummy(2) [OF t] ne q Dummy flag_bits by (subst cleanup_loop.simps) (simp add: Let_def)
  qed
qed

lemma cleanup_stop:
  assumes h: "laid rb (e # es)" and f: "\<not> freed e"
  shows "cleanup_loop rb = Some (Inr rb)"
proof -
  obtain b where e: "e = Item b False" using f by (cases e) auto
  have l: "laid rb ([] @ Item b False # es)" using h e by simp
  have "free_ptr rb = (free_ptr rb + used rb []) mod rb_size rb" using laidD(4) [OF h] by (simp add: used_def)
  from get_item_at(2) [OF l this] show ?thesis by (subst cleanup_loop.simps) (simp add: iflag_free_def iflag_dummydata_def)
qed

lemma cleanup_ok:
  "laid rb (out @ un) \<Longrightarrow> out \<noteq> [] \<Longrightarrow> read_ptr rb = (free_ptr rb + used rb out) mod rb_size rb \<Longrightarrow>
   \<exists>q. cleanup_loop rb = Some (Inr (rb\<lparr>free_ptr := q\<rparr>)) \<and> laid (rb\<lparr>free_ptr := q\<rparr>) (dropWhile freed out @ un) \<and>
     read_ptr rb = (q + used (rb\<lparr>free_ptr := q\<rparr>) (dropWhile freed out)) mod rb_size rb \<and>
     q = (free_ptr rb + used rb (takeWhile freed out)) mod rb_size rb"
proof (induction out arbitrary: rb)
  case (Cons e es)
  have h: "laid rb (e # es @ un)" using Cons.prems(1) by simp
  have z: "free_ptr rb mod rb_size rb = free_ptr rb" using laidD(4) [OF h] by simp
  show ?case
  proof (cases "freed e")
    case True
    define q where "q = (free_ptr rb + ext (rb_size rb) (free_ptr rb) e) mod rb_size rb"
    let ?rb = "rb\<lparr>free_ptr := q\<rparr>"
    note t = laid_tail [OF h q_def]
    have r: "read_ptr ?rb = (free_ptr ?rb + used ?rb es) mod rb_size ?rb" using t(3) [of es] Cons.prems(3) by simp
    have step: "cleanup_loop rb = (if q = read_ptr rb then Some (Inr ?rb) else cleanup_loop ?rb)"
      using cleanup_step [OF h True] by (simp add: q_def Let_def)
    show ?thesis
    proof (cases "es = []")
      case es: True
      then have "q = read_ptr rb" using r q_def by (simp add: used_def)
      then show ?thesis using step t(1) r True es z by (intro exI [of _ q]) (simp add: used_def q_def)
    next
      case False
      have "q mod rb_size rb = q" by (simp add: q_def)
      then have "q \<noteq> read_ptr rb" using laid_positions_differ [of ?rb "[]" es un] t(1) False r by (simp add: used_def)
      moreover obtain q' where "cleanup_loop ?rb = Some (Inr (?rb\<lparr>free_ptr := q'\<rparr>))" "laid (?rb\<lparr>free_ptr := q'\<rparr>) (dropWhile freed es @ un)"
        "read_ptr ?rb = (q' + used (?rb\<lparr>free_ptr := q'\<rparr>) (dropWhile freed es)) mod rb_size ?rb"
        "q' = (q + used ?rb (takeWhile freed es)) mod rb_size rb" using Cons.IH [of ?rb] t(1) False r by auto
      ultimately show ?thesis using step True t(3) [of "takeWhile freed es"] by (intro exI [of _ q']) simp
    qed
  next
    case False
    then show ?thesis using cleanup_stop [OF h False] Cons.prems z by (intro exI [of _ "free_ptr rb"]) (simp add: used_def)
  qed
qed simp

text \<open>Giving back an item that has been delivered marks it, and frees the storage up to the first item that is still in use.\<close>

lemma return_item_ok:
  assumes h: "holds rb (o1 @ Item b False # o2) un" and b: "b \<noteq> []" and p: "p = (free_ptr rb + used rb o1) mod rb_size rb"
  shows "\<exists>rb'. returnItemToRingbufDefault (p + 8) rb = Inr rb' \<and> holds rb' (dropWhile freed (o1 @ Item b True # o2)) un \<and>
    free_ptr rb' = (free_ptr rb + used rb (takeWhile freed (o1 @ Item b True # o2))) mod rb_size rb \<and>
    rb' = rb\<lparr>free_ptr := free_ptr rb', rb_data := rb_data rb'\<rparr>"
proof -
  note g = holdsD [OF h]
  have l: "laid rb (o1 @ Item b False # o2 @ un)" using g(1) by simp
  note d = laidD [OF l] and i = get_item_at [OF l p]
  have e: "entry_at (rb_data rb) p (Item b False)" using laid_entry(1) [OF l p] .
  let ?rb = "rb\<lparr>rb_data := overwrite (rb_data rb) (p + 4) (le32 iflag_free)\<rparr>"
  let ?out = "o1 @ Item b True # o2"
  have sp: "spans z v (es @ Item b True # fs) = spans z v (es @ Item b False # fs)" for z v es fs by (simp add: spans_append)
  have u: "used ?rb (es @ Item b True # fs) = used rb (es @ Item b False # fs)" for es fs using sp by (simp add: used_def)
  have c: "chain (rb_data ?rb) (free_ptr rb) (?out @ un)"
    using chain_mark_free [OF d(6)] d(3,7) p by (simp add: used_def)
  have len: "length (rb_data ?rb) = rb_size rb" using e d(3) by (simp add: length_overwrite)
  have l1: "laid ?rb (?out @ un)" using d c len u [of o1 "o2 @ un"] by (simp add: laid_def ring_ok_def)
  have r1: "read_ptr ?rb = (free_ptr ?rb + used ?rb ?out) mod rb_size ?rb" using g(2) u [of o1 o2] by simp
  obtain q where q: "cleanup_loop ?rb = Some (Inr (?rb\<lparr>free_ptr := q\<rparr>))" "laid (?rb\<lparr>free_ptr := q\<rparr>) (dropWhile freed ?out @ un)"
    "read_ptr rb = (q + used (?rb\<lparr>free_ptr := q\<rparr>) (dropWhile freed ?out)) mod rb_size rb"
    "q = (free_ptr rb + used rb (takeWhile freed ?out)) mod rb_size rb" using cleanup_ok [OF l1 _ r1] by (auto simp: used_def)
  have "p + 8 < rb_size rb" using e d(3) b pad_bounds(1) [of "length b"] by (cases b) auto
  then have "returnItemToRingbufDefault (p + 8) rb = Inr (?rb\<lparr>free_ptr := q\<rparr>)"
    using i(1,2,3) q(1) d(3,5) by (simp add: returnItemToRingbufDefault_def set_flags_def store_def or_blocks_def iflag_free_def)
  then show ?thesis using q(2,3,4) g(3) by (intro exI [of _ "?rb\<lparr>free_ptr := q\<rparr>"]) (simp add: holds_def)
qed

end
