(* ===== verification/Ringbuf_Runs.thy ===== *)
theory Ringbuf_Runs
  imports RTOS_Ringbuf
begin

text \<open>
  Ring buffers in use. The functions of \<^verbatim>\<open>ringbuf.c\<close> that touch the buffer run under its lock, so tasks and interrupts that use a
  buffer at the same time make a sequence of these functions: \<open>item_run\<close> for the two kinds of buffers of items, \<open>byte_run\<close> for
  buffers of bytes. After that, the calls around them, with their waiting loops.
\<close>

section \<open>Runs of a buffer of items\<close>

text \<open>The items between the free pointer and the read pointer that have not been given back: their offsets and contents.\<close>

fun held :: "nat \<Rightarrow> nat \<Rightarrow> entry list \<Rightarrow> (nat \<times> byte list) list" where
  "held z v [] = []"
| "held z v (e # es) = (case e of Item b False \<Rightarrow> [(v mod z + 8, b)] | _ \<Rightarrow> []) @ held z (v + ext z (v mod z) e) es"

text \<open>\<open>sent\<close> are the items that were accepted, \<open>got\<close> those that were delivered, \<open>hs\<close> those that are still to be given back.\<close>

inductive item_run :: "ringbuf_t \<Rightarrow> byte list list \<Rightarrow> byte list list \<Rightarrow> (nat \<times> byte list) list \<Rightarrow> bool" where
  start: "item_run rb [] [] []"
    if "xRingbufferCreate (Some a) (Some d) (Some s1) (Some s2) area n (Some type) blocks = Inr (Some rb, blocks')"
      "length area = n" "n mod 4 = 0" "8 \<le> n" "n < 2 ^ 31" "type \<noteq> RINGBUF_TYPE_BYTEBUF"
| send: "item_run rb' (if done then sent @ [b] else sent) got hs"
    if "item_run rb sent got hs" "b \<noteq> []" "length b < 2 ^ 31" "\<not> fills_up rb (8 + pad (length b))"
      "copyItemToRingbufImpl b rb = Inr (done, rb')"
| receive: "item_run rb' sent (got @ [chunk (rb_data rb) p n]) (hs @ [(p, chunk (rb_data rb) p n)])"
    if "item_run rb sent got hs" "getItemFromRingbufImpl w rb = Inr (Some (p, n), rb')"
| receive_none: "item_run rb' sent got hs"
    if "item_run rb sent got hs" "getItemFromRingbufImpl w rb = Inr (None, rb')"
| give_back: "item_run rb' sent got (remove1 (p, b) hs)"
    if "item_run rb sent got hs" "(p, b) \<in> set hs" "returnItemToRingbufImpl p rb = Inr rb'"
| semaphores: "item_run (rb\<lparr>free_space_sem := q1, items_buffered_sem := q2\<rparr>) sent got hs"
    if "item_run rb sent got hs"

definition run_inv :: "ringbuf_t \<Rightarrow> byte list list \<Rightarrow> byte list list \<Rightarrow> (nat \<times> byte list) list \<Rightarrow> entry list \<Rightarrow> entry list \<Rightarrow> bool" where
  "run_inv rb sent got hs out un \<longleftrightarrow> holds rb out un \<and> rb_type rb \<noteq> RINGBUF_TYPE_BYTEBUF \<and>
     maxItemSize rb = max_item_size (rb_size rb) (rb_type rb) \<and>
     concat sent = concat (got @ items un) \<and> (rb_type rb = RINGBUF_TYPE_NOSPLIT \<longrightarrow> sent = got @ items un) \<and>
     hs = held (rb_size rb) (free_ptr rb) out \<and> [] \<notin> set (items (out @ un)) \<and> (hs = [] \<longrightarrow> out = [])"

lemma held_append: "held z v (es @ fs) = held z v es @ held z (v + spans z v es) fs"
  by (induction es arbitrary: v) (simp_all add: add.assoc)

lemma held_mod: "held z (v mod z) es = held z v es"
proof (induction es arbitrary: v)
  case (Cons e es)
  have "held z (v mod z + x) es = held z (v + x) es" for x
    using Cons.IH [of "v mod z + x"] Cons.IH [of "v + x"] by (simp add: mod_add_left_eq)
  then show ?case by (simp split: entry.split bool.split)
qed simp

lemma held_split:
  "(p, b) \<in> set (held z v es) \<Longrightarrow> \<exists>o1 o2. es = o1 @ Item b False # o2 \<and> p = (v + spans z v o1) mod z + 8"
proof (induction es arbitrary: v)
  case (Cons e es)
  show ?case
  proof (cases "(p, b) \<in> set (held z (v + ext z (v mod z) e) es)")
    case True
    from Cons.IH [OF this] obtain o1 o2 where "es = o1 @ Item b False # o2" "p = (v + ext z (v mod z) e + spans z (v + ext z (v mod z) e) o1) mod z + 8" by blast
    then show ?thesis by (intro exI [of _ "e # o1"] exI [of _ o2]) (simp add: add.assoc)
  next
    case False
    then have "e = Item b False" "p = v mod z + 8" using Cons.prems by (auto split: entry.splits bool.splits)
    then show ?thesis by (intro exI [of _ "[]"] exI [of _ es]) simp
  qed
qed simp

lemma held_freed: "list_all freed es \<Longrightarrow> held z v es = []"
proof (induction es arbitrary: v)
  case (Cons e es)
  then show ?case by (cases e) auto
qed simp

lemma held_dropWhile: "held z (v + spans z v (takeWhile freed es)) (dropWhile freed es) = held z v es"
proof -
  have "held z v (takeWhile freed es) = []" by (rule held_freed) (auto simp: list_all_iff dest: set_takeWhileD)
  then show ?thesis using held_append [of z v "takeWhile freed es" "dropWhile freed es"] by simp
qed

lemma held_nonempty:
  assumes "\<not> list_all freed es"
  shows "held z v es \<noteq> []"
  using assms
proof (induction es arbitrary: v)
  case (Cons e es)
  show ?case using Cons by (cases e) (auto split: bool.splits)
qed simp

text \<open>Distinct items have distinct offsets.\<close>

lemma held_distinct:
  assumes l: "laid rb (o1 @ Item b False # fs)" and o: "fs = o2 @ gs"
  shows "((free_ptr rb + used rb o1) mod rb_size rb + 8, c) \<notin> set (held (rb_size rb) (free_ptr rb) o1)"
proof
  assume "((free_ptr rb + used rb o1) mod rb_size rb + 8, c) \<in> set (held (rb_size rb) (free_ptr rb) o1)"
  from held_split [OF this] obtain p1 p2 where p: "o1 = p1 @ Item c False # p2" "(free_ptr rb + used rb o1) mod rb_size rb = (free_ptr rb + used rb p1) mod rb_size rb"
    by (auto simp: used_def)
  then show False using laid_positions_differ [of rb p1 "Item c False # p2" "Item b False # fs"] l by simp
qed

lemma items_freed: "items (o1 @ Item b f # o2) = items (o1 @ Item b g # o2)"
  by simp

lemma set_items_dropWhile: "set (items (dropWhile freed es)) \<subseteq> set (items es)"
proof (induction es)
  case (Cons e es)
  then show ?case by (cases e) auto
qed simp

lemma run_start:
  assumes "xRingbufferCreate (Some a) (Some d) (Some s1) (Some s2) area n (Some type) blocks = Inr (Some rb, blocks')"
    and "length area = n" "n mod 4 = 0" "8 \<le> n" "n < 2 ^ 31" "type \<noteq> RINGBUF_TYPE_BYTEBUF"
  shows "run_inv rb [] [] [] [] []"
  using assms by (auto simp: xRingbufferCreate_def Let_def run_inv_def holds_def laid_def ring_ok_def used_def)

lemma run_send:
  assumes r: "run_inv rb sent got hs out un" and b: "b \<noteq> []" "length b < 2 ^ 31" "\<not> fills_up rb (8 + pad (length b))"
  shows "copyItemToRingbufImpl b rb = Inr (False, rb) \<or>
    (\<exists>rb' ds. copyItemToRingbufImpl b rb = Inr (True, rb') \<and> run_inv rb' (sent @ [b]) got hs out (un @ ds))"
proof -
  have h: "laid rb (out @ un)" "unread_ok un" "rb_type rb \<noteq> RINGBUF_TYPE_BYTEBUF" using r by (simp_all add: run_inv_def holds_def)
  have "copyItemToRingbufImpl b rb = Inr (False, rb) \<or> (\<exists>rb' ds. copyItemToRingbufImpl b rb = Inr (True, rb') \<and> laid rb' ((out @ un) @ ds) \<and>
    same_ends rb rb' \<and> unread_ok ds \<and> concat (items ds) = b \<and> [] \<notin> set (items ds) \<and> (rb_type rb = RINGBUF_TYPE_NOSPLIT \<longrightarrow> items ds = [b]))"
  proof (cases "rb_type rb")
    case RINGBUF_TYPE_NOSPLIT
    then have i: "copyItemToRingbufImpl b rb = copyItemToRingbufNoSplit b rb" by (simp add: copyItemToRingbufImpl_def)
    show ?thesis
    proof (cases "room_whole rb (out @ un) (8 + pad (length b))")
      case True
      with copy_no_split [OF h(1) b(2,3)] obtain rb' ds where "copyItemToRingbufNoSplit b rb = Inr (True, rb')" "laid rb' ((out @ un) @ ds)"
        "ds \<in> {[Item b False], [Dummy, Item b False]}" "same_ends rb rb'" by auto
      then show ?thesis using i b(1) by (intro disjI2 exI [of _ rb'] exI [of _ ds]) auto
    qed (use copy_no_split [OF h(1) b(2,3)] i in simp)
  next
    case RINGBUF_TYPE_ALLOWSPLIT
    then show ?thesis using copy_allow_split [OF h(1) b(2,3)] b(1)
      by (cases "room_split rb (out @ un) (8 + pad (length b))") (auto simp: copyItemToRingbufImpl_def)
  qed (use h(3) in simp)
  then show ?thesis
  proof
    assume "\<exists>rb' ds. copyItemToRingbufImpl b rb = Inr (True, rb') \<and> laid rb' ((out @ un) @ ds) \<and>
      same_ends rb rb' \<and> unread_ok ds \<and> concat (items ds) = b \<and> [] \<notin> set (items ds) \<and> (rb_type rb = RINGBUF_TYPE_NOSPLIT \<longrightarrow> items ds = [b])"
    then obtain rb' ds where c: "copyItemToRingbufImpl b rb = Inr (True, rb')" "laid rb' ((out @ un) @ ds)" "same_ends rb rb'" "unread_ok ds"
      "concat (items ds) = b" "[] \<notin> set (items ds)" "rb_type rb = RINGBUF_TYPE_NOSPLIT \<longrightarrow> items ds = [b]" by blast
    have "holds rb' out (un @ ds)"
      using r c(2,3,4) unread_ok_append [OF h(2) c(4)] by (simp add: run_inv_def holds_def same_ends_def used_def)
    then have "run_inv rb' (sent @ [b]) got hs out (un @ ds)" using r c by (auto simp: run_inv_def same_ends_def)
    then show ?thesis using c(1) by blast
  qed simp
qed

text \<open>What is unread is a first item, perhaps behind a mark, and the rest.\<close>

lemma unread_cases:
  assumes "unread_ok un" "un \<noteq> []"
  obtains ds b rest where "ds \<in> {[], [Dummy]}" "un = ds @ Item b False # rest"
proof (cases un rule: unread_ok.cases)
  case (2 b f es)
  then show ?thesis using assms that [of "[]" b es] by auto
next
  case (3 b f es)
  then show ?thesis using assms that [of "[Dummy]" b es] by auto
qed (use assms in auto)

lemma run_receive:
  assumes r: "run_inv rb sent got hs out un"
  shows "un = [] \<and> getItemFromRingbufImpl w rb = Inr (None, rb) \<or>
    (\<exists>p b rb' out' un'. un \<noteq> [] \<and> getItemFromRingbufImpl w rb = Inr (Some (p, length b), rb') \<and> chunk (rb_data rb) p (length b) = b \<and>
      hd (items un) = b \<and> run_inv rb' sent (got @ [b]) (hs @ [(p, b)]) out' un')"
proof (cases "un = []")
  case True
  then have "holds rb out []" "rb_type rb \<noteq> RINGBUF_TYPE_BYTEBUF" using r by (simp_all add: run_inv_def)
  then show ?thesis using True get_item_none by (simp add: getItemFromRingbufImpl_def)
next
  case False
  have h: "holds rb out un" "unread_ok un" using r by (simp_all add: run_inv_def holds_def)
  obtain ds b rest where un: "ds \<in> {[], [Dummy]}" "un = ds @ Item b False # rest" using unread_cases [OF h(2) False] by blast
  define p where "p = (free_ptr rb + used rb (out @ ds)) mod rb_size rb"
  obtain rb' where g: "getItemFromRingbufDefault rb = Inr (Some (p + 8, length b), rb')" "holds rb' (out @ ds @ [Item b False]) rest"
    "chunk (rb_data rb) (p + 8) (length b) = b" "rb' = rb\<lparr>read_ptr := read_ptr rb'\<rparr>"
    using get_item_some [OF h(1) [unfolded un(2)] un(1) p_def] by blast
  have e: "rb_size rb' = rb_size rb" "free_ptr rb' = free_ptr rb" "rb_type rb' = rb_type rb" "maxItemSize rb' = maxItemSize rb" by (subst g(4), simp)+
  have "held (rb_size rb) (free_ptr rb + used rb out) ds = []" using un(1) by (intro held_freed) auto
  then have hs: "held (rb_size rb) (free_ptr rb) (out @ ds @ [Item b False]) = held (rb_size rb) (free_ptr rb) out @ [(p + 8, b)]"
    using p_def by (simp add: held_append used_def spans_append add.assoc)
  have "items ds = []" using un(1) by auto
  then have "run_inv rb' sent (got @ [b]) (hs @ [(p + 8, b)]) (out @ ds @ [Item b False]) rest"
    using r g(2) e hs un(2) by (simp add: run_inv_def)
  moreover have "getItemFromRingbufImpl w rb = Inr (Some (p + 8, length b), rb')" using g(1) r by (simp add: getItemFromRingbufImpl_def run_inv_def)
  moreover have "hd (items un) = b" using un by auto
  ultimately show ?thesis using False g(3) by blast
qed

lemma run_give_back:
  assumes r: "run_inv rb sent got hs out un" and p: "(p, b) \<in> set hs"
  shows "\<exists>rb' out'. returnItemToRingbufImpl p rb = Inr rb' \<and> run_inv rb' sent got (remove1 (p, b) hs) out' un"
proof -
  let ?z = "rb_size rb" and ?f = "free_ptr rb"
  have h: "holds rb out un" "hs = held ?z ?f out" using r by (simp_all add: run_inv_def)
  obtain o1 o2 where o: "out = o1 @ Item b False # o2" "p = (?f + used rb o1) mod ?z + 8"
    using held_split p h(2) by (fastforce simp: used_def)
  let ?out = "o1 @ Item b True # o2"
  have ne: "b \<noteq> []" using r o(1) by (auto simp: run_inv_def)
  obtain rb' where g: "returnItemToRingbufDefault p rb = Inr rb'" "holds rb' (dropWhile freed ?out) un"
    "free_ptr rb' = (?f + used rb (takeWhile freed ?out)) mod ?z" "rb' = rb\<lparr>free_ptr := free_ptr rb', rb_data := rb_data rb'\<rparr>"
    using return_item_ok [OF h(1) [unfolded o(1)] ne refl] o(2) by blast
  have e: "rb_size rb' = ?z" "rb_type rb' = rb_type rb" "maxItemSize rb' = maxItemSize rb" by (subst g(4), simp)+
  have "held ?z (free_ptr rb') (dropWhile freed ?out) = held ?z ?f ?out"
    using held_mod [of ?z "?f + used rb (takeWhile freed ?out)" "dropWhile freed ?out"] held_dropWhile [of ?z ?f ?out] g(3) by (simp add: used_def)
  also have "\<dots> = remove1 (p, b) hs"
  proof -
    have l: "laid rb (o1 @ Item b False # o2 @ un)" using holdsD(1) [OF h(1)] o(1) by simp
    have "(p, b) \<notin> set (held ?z ?f o1)" using held_distinct [OF l refl, of b] o(2) by simp
    moreover have "held ?z ?f out = held ?z ?f o1 @ (p, b) # held ?z (?f + used rb o1 + ext ?z ((?f + used rb o1) mod ?z) (Item b False)) o2"
      using o by (simp add: held_append used_def)
    moreover have "held ?z ?f ?out = held ?z ?f o1 @ held ?z (?f + used rb o1 + ext ?z ((?f + used rb o1) mod ?z) (Item b False)) o2"
      by (simp add: held_append used_def)
    ultimately show ?thesis using h(2) by (simp add: remove1_append)
  qed
  finally have hs: "remove1 (p, b) hs = held ?z (free_ptr rb') (dropWhile freed ?out)" by simp
  have "dropWhile freed ?out = []" if "held ?z (free_ptr rb') (dropWhile freed ?out) = []"
  proof (rule ccontr)
    assume "dropWhile freed ?out \<noteq> []"
    then have "hd (dropWhile freed ?out) \<in> set (dropWhile freed ?out)" "\<not> freed (hd (dropWhile freed ?out))"
      by (simp_all only: hd_in_set hd_dropWhile not_False_eq_True)
    then have "\<not> list_all freed (dropWhile freed ?out)" unfolding list_all_iff by blast
    from held_nonempty [OF this] that show False by blast
  qed
  moreover have "[] \<notin> set (items (dropWhile freed ?out @ un))"
    using r o(1) set_items_dropWhile [of ?out] by (auto simp: run_inv_def)
  ultimately have "run_inv rb' sent got (remove1 (p, b) hs) (dropWhile freed ?out) un"
    using r g(2) unfolding run_inv_def hs e by blast
  moreover have "returnItemToRingbufImpl p rb = Inr rb'" using g(1) r by (simp add: returnItemToRingbufImpl_def run_inv_def)
  ultimately show ?thesis by blast
qed

lemma item_run_inv: "item_run rb sent got hs \<Longrightarrow> \<exists>out un. run_inv rb sent got hs out un"
proof (induction rule: item_run.induct)
  case (start a d s1 s2 area n type blocks rb blocks')
  from run_start [OF start] show ?case by blast
next
  case (send rb sent got hs b ok rb')
  then obtain out un where "run_inv rb sent got hs out un" by blast
  from run_send [OF this send.hyps(2,3,4)] send.hyps(5) show ?case using \<open>run_inv rb sent got hs out un\<close> by auto
next
  case (receive rb sent got hs w p n rb')
  then obtain out un where "run_inv rb sent got hs out un" by blast
  from run_receive [OF this, of w] receive.hyps(2) show ?case by auto
next
  case (receive_none rb sent got hs w rb')
  then obtain out un where "run_inv rb sent got hs out un" by blast
  from run_receive [OF this, of w] receive_none.hyps(2) show ?case using \<open>run_inv rb sent got hs out un\<close> by auto
next
  case (give_back rb sent got hs p b rb')
  then obtain out un where "run_inv rb sent got hs out un" by blast
  from run_give_back [OF this give_back.hyps(2)] give_back.hyps(3) show ?case by auto
next
  case (semaphores rb sent got hs q2 q1)
  then obtain out un where "run_inv rb sent got hs out un" by blast
  then have "run_inv (rb\<lparr>free_space_sem := q1, items_buffered_sem := q2\<rparr>) sent got hs out un"
    by (simp add: run_inv_def holds_def laid_def ring_ok_def used_def)
  then show ?case by blast
qed

lemma held_intact:
  assumes h: "holds rb out un" and p: "(p, b) \<in> set (held (rb_size rb) (free_ptr rb) out)"
  shows "chunk (rb_data rb) p (length b) = b"
proof -
  obtain o1 o2 where o: "out = o1 @ Item b False # o2" "p = (free_ptr rb + used rb o1) mod rb_size rb + 8"
    using held_split [OF p] by (auto simp: used_def)
  have "laid rb (o1 @ Item b False # o2 @ un)" using holdsD(1) [OF h] o(1) by simp
  from get_item_at(6) [OF this refl] show ?thesis using o(2) by simp
qed

lemma unread_items: "unread_ok un \<Longrightarrow> items un = [] \<longleftrightarrow> un = []"
  by (cases un rule: unread_ok.cases) auto


text \<open>An empty buffer has room for the largest item that its kind allows.\<close>

lemma empty_room:
  assumes h: "laid rb []" and z: "24 \<le> rb_size rb" and t: "rb_type rb \<noteq> RINGBUF_TYPE_BYTEBUF"
    and b: "length b \<le> max_item_size (rb_size rb) (rb_type rb)"
  shows "\<not> fills_up rb (8 + pad (length b))" "\<not> too_small b rb" "length b < 2 ^ 31"
    "if rb_type rb = RINGBUF_TYPE_NOSPLIT then room_whole rb [] (8 + pad (length b)) else room_split rb [] (8 + pad (length b))"
proof -
  note d = laidD [OF h] and w = write_ptr_ok [OF h]
  have u: "used rb [] = 0" "write_ptr rb = free_ptr rb" using d(4,8) by (simp_all add: used_def)
  have m: "max_item_size (rb_size rb) RINGBUF_TYPE_NOSPLIT = rb_size rb div 2 - 12" "max_item_size (rb_size rb) RINGBUF_TYPE_ALLOWSPLIT = rb_size rb - 20"
    using z d(2) by (auto simp: max_item_size_def size_t_def)
  have b20: "length b \<le> rb_size rb - 20" using b t m z by (cases "rb_type rb") auto
  then show "length b < 2 ^ 31" using d(2) by simp
  obtain k where k: "rb_size rb = 4 * k" using d(1) by auto
  obtain f where f: "free_ptr rb = 4 * f" using d(5) by auto
  obtain j where j: "pad (length b) = 4 * j" using pad_bounds(3) [of "length b"] by auto
  have pb: "4 * j < length b + 4" using pad_bounds(2) [of "length b"] j by simp
  have jk: "j + 5 \<le> k" using pb b20 k z by simp
  have "size_add (length b) 8 = length b + 8" using b20 d(2) by (simp add: size_add_def)
  then show "\<not> too_small b rb" using free_mem(2) [OF h] u b20 z by (simp add: too_small_def)
  show "\<not> fills_up rb (8 + pad (length b))" using jk k j u by (cases "free_ptr rb = 0") (simp_all add: fills_up_def)
  show "if rb_type rb = RINGBUF_TYPE_NOSPLIT then room_whole rb [] (8 + pad (length b)) else room_split rb [] (8 + pad (length b))"
  proof (cases "rb_type rb = RINGBUF_TYPE_NOSPLIT")
    case True
    then have "2 * length b + 24 \<le> rb_size rb" using b m z by auto
    then have "4 * j + 4 * j + 16 < 4 * k" using pb k by simp
    then have "2 * j + 5 \<le> k" by simp
    then show ?thesis using True u jk k f j by (auto simp: room_whole_def)
  next
    case False
    then show ?thesis using u jk k j by (auto simp: room_split_def)
  qed
qed

lemma empty_buffer_send:
  assumes run: "item_run rb sent got []" "concat got = concat sent" and z: "24 \<le> rb_size rb"
    and b: "b \<noteq> []" "length b \<le> xRingbufferGetMaxItemSize rb"
  shows "\<exists>rb'. xRingbufferSendFromISR b rb = Inr (True, rb') \<and> item_run rb' (sent @ [b]) got []"
proof -
  obtain out un where r: "run_inv rb sent got [] out un" using item_run_inv [OF run(1)] by blast
  have h: "holds rb out un" "out = []" "concat (items un) = []" "[] \<notin> set (items un)" "rb_type rb \<noteq> RINGBUF_TYPE_BYTEBUF"
    "maxItemSize rb = max_item_size (rb_size rb) (rb_type rb)" using r run(2) by (auto simp: run_inv_def)
  have un: "un = []" using unread_items [OF holdsD(3) [OF h(1)]] h(3,4) by (cases "items un") auto
  have l: "laid rb []" using holdsD(1) [OF h(1)] h(2) un by simp
  have b': "length b \<le> max_item_size (rb_size rb) (rb_type rb)" using b(2) h(6) by (simp add: xRingbufferGetMaxItemSize_def)
  note e = empty_room [OF l z h(5) b']
  have "copyItemToRingbufImpl b rb \<noteq> Inr (False, rb)"
    using e copy_no_split [OF l, of b] copy_allow_split [OF l, of b] h(5)
    by (cases "rb_type rb") (auto simp: copyItemToRingbufImpl_def)
  then obtain rb1 where c: "copyItemToRingbufImpl b rb = Inr (True, rb1)" using run_send [OF r b(1) e(3,1)] by auto
  have i: "item_run rb1 (sent @ [b]) got []" using item_run.send [OF run(1) b(1) e(3,1) c] by simp
  let ?rb = "rb1\<lparr>items_buffered_sem := xSemaphoreGive (items_buffered_sem rb1)\<rparr>"
  have "xRingbufferSendFromISR b rb = Inr (True, ?rb)" using c e(2) by (simp add: xRingbufferSendFromISR_def too_small_def)
  moreover have "item_run ?rb (sent @ [b]) got []" using item_run.semaphores [OF i, of "xSemaphoreGive (items_buffered_sem rb1)" "free_space_sem rb1"] by simp
  ultimately show ?thesis by blast
qed


section \<open>Where buffers of items fail\<close>

text \<open>
  C40. An item that ends four bytes before the end of the storage, while nothing has been received or given back since the pointers were at
  the start, is accepted, and then the buffer looks empty: the write pointer goes on at the start, where the read pointer is, so nothing
  is delivered, the free space is the whole buffer, and all items in it, this one included, are lost. The comment in the code says that the
  write pointer has no chance of overtaking the read pointer there.
\<close>

theorem full_buffer_looks_empty:
  assumes h: "holds rb [] un" and f: "free_ptr rb = 0" and t: "rb_type rb \<noteq> RINGBUF_TYPE_BYTEBUF" and b: "length b < 2 ^ 31"
    and n: "write_ptr rb + (8 + pad (length b)) + 4 = rb_size rb"
  shows "\<exists>rb'. xRingbufferSendFromISR b rb = Inr (True, rb') \<and> xRingbufferReceiveFromISR rb' = Inr (None, rb') \<and>
    ringbufferFreeMem rb' = int (rb_size rb) - 1"
proof -
  have l: "laid rb un" "read_ptr rb = 0" using holdsD(1,2) [OF h] f by (simp_all add: used_def)
  note a = copy_arith [OF l(1) b] and d = laidD [OF l(1)] and w = write_ptr_ok [OF l(1)]
  have u: "used rb un = write_ptr rb" using w(3) f d(7) by simp
  have m: "size_t (ringbufferFreeMem rb) = rb_size rb - write_ptr rb - 1" using free_mem(2) [OF l(1)] u by simp
  note p = pad_bounds(1) [of "length b"]
  have c: "\<not> rb_size rb - write_ptr rb < pad (length b) + 8" "\<not> rb_size rb - write_ptr rb - 1 < 8 + pad (length b)" using n by simp_all
  have "copyItemToRingbufNoSplit b rb = put_item b (pad (length b)) rb" "copyItemToRingbufAllowSplit b rb = put_item b (pad (length b)) rb"
    by (simp_all only: copyItemToRingbufNoSplit_def copyItemToRingbufAllowSplit_def Let_def a m w(2) c if_False simp_thms)
  then have "copyItemToRingbufImpl b rb = put_item b (pad (length b)) rb" using t by (cases "rb_type rb") (simp_all add: copyItemToRingbufImpl_def)
  moreover have "forward rb (write_ptr rb + 8 + pad (length b)) = 0" using n d(2) by (subst forward_eq) simp_all
  ultimately have "copyItemToRingbufImpl b rb = Inr (True, rb\<lparr>rb_data := overwrite (rb_data rb) (write_ptr rb) (item_bytes b), write_ptr := 0\<rparr>)"
    using put_item_eq [of rb b "pad (length b)"] n p d(3) by simp
  moreover have "\<not> size_add (length b) 8 > size_t (ringbufferFreeMem rb)" using m n p b by (simp add: size_add_def)
  ultimately show ?thesis using l(2) f t
    by (simp add: xRingbufferSendFromISR_def xRingbufferReceiveFromISR_def getItemFromRingbufImpl_def getItemFromRingbufDefault_def ringbufferFreeMem_def)
qed

text \<open>A round in which nobody else does anything.\<close>

definition quiet :: "u32 \<Rightarrow> send_round" where
  "quiet t = \<lparr>at_test = (\<lambda>rb. rb), while_waiting = (\<lambda>rb. rb), now = t, at_retest = (\<lambda>rb. rb), at_lock = (\<lambda>rb. rb)\<rparr>"

text \<open>
  A send to a buffer without splitting does not keep to its time-out: while the free space is large enough in total, but not in one
  piece, \<^verbatim>\<open>xRingbufferSend\<close> does not wait for the semaphore but tries again and again. Until another task gives items back it does not return,
  even if it was called with no waiting time at all.
\<close>

theorem send_spins:
  assumes h: "laid rb es" and t: "rb_type rb = RINGBUF_TYPE_NOSPLIT" and b: "length b < 2 ^ 31" "length b \<le> xRingbufferGetMaxItemSize rb"
    and r: "\<not> too_small b rb" "\<not> room_whole rb es (8 + pad (length b))" "\<not> fills_up rb (8 + pad (length b))"
  shows "xRingbufferSend me b ticks_to_wait start (replicate n (quiet time)) rb = None"
proof -
  have c: "copyItemToRingbufImpl b rb = Inr (False, rb)" using copy_no_split [OF h b(1) r(3)] r(2) t by (simp add: copyItemToRingbufImpl_def)
  have "send_loop me b ticks_to_wait e left (replicate n (quiet time)) rb = None" for e left
    by (induction n) (use c r(1) in \<open>simp_all add: quiet_def wait_for_space_def Let_def\<close>)
  then show ?thesis using b(2) by (simp add: xRingbufferSend_def)
qed

text \<open>
  An empty item in the last eight bytes of the storage: it is delivered with a pointer to the end of the storage, and giving it back fails
  the assertion that the pointer is inside.
\<close>

lemma empty_item_at_end:
  assumes h: "holds rb (o1 @ Item [] False # o2) un" and p: "(free_ptr rb + used rb o1) mod rb_size rb + 8 = rb_size rb"
  shows "returnItemToRingbufDefault (rb_size rb) rb = Inl Assert_Failed"
  using laidD(5) [OF holdsD(1) [OF h]] by (simp add: returnItemToRingbufDefault_def)

section \<open>Creation and deletion\<close>

text \<open>
  \<^verbatim>\<open>xRingbufferCreate\<close> either returns a buffer, or NULL with every block it allocated released; it returns NULL exactly when one of the four
  allocations fails. What it allocates is what \<^verbatim>\<open>vRingbufferDelete\<close> releases.
\<close>

theorem create_delete_no_leak:
  assumes n: "(set_option a \<union> set_option d \<union> set_option s1 \<union> set_option s2) \<inter> blocks = {}"
  shows "\<exists>rb blocks'. xRingbufferCreate a d s1 s2 area len (Some type) blocks = Inr (rb, blocks') \<and>
    (rb = None \<longleftrightarrow> a = None \<or> d = None \<or> s1 = None \<or> s2 = None) \<and>
    (if rb = None then blocks' = blocks else vRingbufferDelete a d s1 s2 blocks' = blocks)"
  using n by (auto simp: xRingbufferCreate_def vRingbufferDelete_def rb_free_all_def Let_def split: option.splits)

section \<open>Buffers of bytes\<close>

text \<open>From the free pointer on: the bytes that were delivered and not given back, then those that were not delivered.\<close>

definition byte_holds :: "ringbuf_t \<Rightarrow> byte list \<Rightarrow> byte list \<Rightarrow> bool" where
  "byte_holds rb busy un \<longleftrightarrow> rb_type rb = RINGBUF_TYPE_BYTEBUF \<and> rb_size rb < 2 ^ 31 \<and> length (rb_data rb) = rb_size rb \<and>
     free_ptr rb < rb_size rb \<and> read_ptr rb = (free_ptr rb + length busy) mod rb_size rb \<and>
     write_ptr rb = (free_ptr rb + (length busy + length un)) mod rb_size rb \<and> length busy + length un < rb_size rb \<and>
     take (length busy + length un) (rotate (free_ptr rb) (rb_data rb)) = busy @ un"

lemma byte_holdsD:
  assumes "byte_holds rb busy un"
  shows "rb_type rb = RINGBUF_TYPE_BYTEBUF" "rb_size rb < 2 ^ 31" "length (rb_data rb) = rb_size rb" "free_ptr rb < rb_size rb"
    "read_ptr rb = (free_ptr rb + length busy) mod rb_size rb" "write_ptr rb = (free_ptr rb + (length busy + length un)) mod rb_size rb"
    "length busy + length un < rb_size rb" "take (length busy + length un) (rotate (free_ptr rb) (rb_data rb)) = busy @ un"
    "write_ptr rb < rb_size rb" "read_ptr rb < rb_size rb"
proof -
  show f: "free_ptr rb < rb_size rb" using assms by (simp add: byte_holds_def)
  show "write_ptr rb < rb_size rb" "read_ptr rb < rb_size rb" using assms f by (auto simp: byte_holds_def intro!: mod_less_divisor)
qed (use assms in \<open>simp_all add: byte_holds_def\<close>)

lemma byte_write_ptr:
  assumes "byte_holds rb busy un"
  shows "write_ptr rb = (if free_ptr rb + (length busy + length un) < rb_size rb then free_ptr rb + (length busy + length un)
    else free_ptr rb + (length busy + length un) - rb_size rb)"
    "read_ptr rb = (if free_ptr rb + length busy < rb_size rb then free_ptr rb + length busy else free_ptr rb + length busy - rb_size rb)"
  using byte_holdsD(4,5,6,7) [OF assms] by (auto simp: mod_if)

lemma byte_free_mem:
  assumes "byte_holds rb busy un"
  shows "ringbufferFreeMem rb = int (rb_size rb) - int (length busy + length un) - 1"
    "size_t (ringbufferFreeMem rb) = rb_size rb - (length busy + length un) - 1"
proof -
  note d = byte_holdsD [OF assms]
  show "ringbufferFreeMem rb = int (rb_size rb) - int (length busy + length un) - 1"
    using byte_write_ptr(1) [OF assms] d(4,7) by (auto simp: ringbufferFreeMem_def Let_def split: if_splits)
  then show "size_t (ringbufferFreeMem rb) = rb_size rb - (length busy + length un) - 1"
    using d(2,7) by (subst size_t_small) auto
qed

text \<open>A block of bytes that ends at or before the end of the storage.\<close>

lemma byte_store:
  assumes h: "byte_holds rb busy un" and b: "length busy + length un + length b < rb_size rb" "write_ptr rb + length b \<le> rb_size rb"
  shows "\<exists>rb'. store (write_ptr rb) b rb = Inr rb' \<and> same_ends rb rb' \<and>
    byte_holds (rb'\<lparr>write_ptr := (if write_ptr rb + length b = rb_size rb then 0 else write_ptr rb + length b)\<rparr>) busy (un @ b)"
proof -
  note d = byte_holdsD [OF h]
  let ?d = "overwrite (rb_data rb) (write_ptr rb) b"
  have "take (length busy + length un + length b) (rotate (free_ptr rb) ?d) = (busy @ un) @ b"
    using ring_append [of "length busy + length un" b "rb_data rb" "write_ptr rb" "free_ptr rb"] b d(3,6,8) by simp
  moreover have "(free_ptr rb + (length busy + length (un @ b))) mod rb_size rb = (if write_ptr rb + length b = rb_size rb then 0 else write_ptr rb + length b)"
    using mod_step_ring [of "free_ptr rb + (length busy + length un)" "rb_size rb" "length b"] b(2) d(4,6) by (simp add: add.assoc)
  ultimately show ?thesis using d b
    by (intro exI [of _ "rb\<lparr>rb_data := ?d\<rparr>"]) (simp add: store_def same_ends_def byte_holds_def length_overwrite add.assoc)
qed

lemma byte_copy:
  assumes h: "byte_holds rb busy un" and b: "length busy + length un + length b < rb_size rb"
  shows "\<exists>rb'. copyItemToRingbufImpl b rb = Inr (True, rb') \<and> byte_holds rb' busy (un @ b) \<and> same_ends rb rb'"
proof -
  note d = byte_holdsD [OF h]
  define k where "k = rb_size rb - write_ptr rb"
  have k: "size_t (int (rb_size rb) - int (write_ptr rb)) = k" using d(2,9) by (subst size_t_small) (auto simp: k_def)
  note copy = copyItemToRingbufImpl_def copyItemToRingbufByteBuf_def Let_def k
  show ?thesis
  proof (cases "k < length b")
    case False
    then have "write_ptr rb + length b \<le> rb_size rb" using d(9) by (simp add: k_def)
    from byte_store [OF h b this] obtain rb' where "store (write_ptr rb) b rb = Inr rb'" "same_ends rb rb'"
      "byte_holds (rb'\<lparr>write_ptr := (if write_ptr rb + length b = rb_size rb then 0 else write_ptr rb + length b)\<rparr>) busy (un @ b)" by blast
    then show ?thesis using False d(1) by (auto simp: copy same_ends_def eq_commute [of "rb_size rb"])
  next
    case True
    have t: "length busy + length un + length (take k b) < rb_size rb" "write_ptr rb + length (take k b) = rb_size rb"
      using True b d(9) by (simp_all add: k_def min_absorb2)
    obtain rb1 where r1: "store (write_ptr rb) (take k b) rb = Inr rb1" "same_ends rb rb1" "byte_holds (rb1\<lparr>write_ptr := 0\<rparr>) busy (un @ take k b)"
      using byte_store [OF h t(1)] t(2) by auto
    have s: "rb_size rb1 = rb_size rb" using r1(2) by (simp add: same_ends_def)
    have t2: "length busy + length (un @ take k b) + length (drop k b) < rb_size (rb1\<lparr>write_ptr := 0\<rparr>)"
      "write_ptr (rb1\<lparr>write_ptr := 0\<rparr>) + length (drop k b) \<le> rb_size (rb1\<lparr>write_ptr := 0\<rparr>)" "length (drop k b) \<noteq> rb_size rb"
      using True b s by (simp_all add: min_absorb2)
    obtain rb2 where r2: "store 0 (drop k b) (rb1\<lparr>write_ptr := 0\<rparr>) = Inr rb2" "same_ends (rb1\<lparr>write_ptr := 0\<rparr>) rb2"
      "byte_holds (rb2\<lparr>write_ptr := length (drop k b)\<rparr>) busy ((un @ take k b) @ drop k b)"
      using byte_store [OF r1(3) t2(1,2)] t2(3) s by auto
    have "copyItemToRingbufImpl b rb = Inr (True, rb2\<lparr>write_ptr := length (drop k b)\<rparr>)" using True d(1) r1(1) r2(1) t2(3) by (simp add: copy)
    then show ?thesis using r1(2) r2(2,3) by (intro exI [of _ "rb2\<lparr>write_ptr := length (drop k b)\<rparr>"]) (simp add: same_ends_def)
  qed
qed

definition portion :: "nat \<Rightarrow> ringbuf_t \<Rightarrow> nat" where
  "portion wanted rb =
     (let len = (if read_ptr rb > write_ptr rb then rb_size rb - read_ptr rb else write_ptr rb - read_ptr rb)
      in if wanted \<noteq> 0 \<and> len > wanted then wanted else len)"

lemma byte_get:
  assumes h: "byte_holds rb busy un"
  shows "if busy = [] \<and> un \<noteq> [] then \<exists>rb'. getItemFromRingbufImpl w rb = Inr (Some (read_ptr rb, portion w rb), rb') \<and> 0 < portion w rb \<and>
      chunk (rb_data rb) (read_ptr rb) (portion w rb) = take (portion w rb) un \<and> portion w rb \<le> length un \<and>
      byte_holds rb' (take (portion w rb) un) (drop (portion w rb) un) \<and> rb' = rb\<lparr>read_ptr := read_ptr rb'\<rparr>
    else getItemFromRingbufImpl w rb = Inr (None, rb)"
proof (cases "busy = [] \<and> un \<noteq> []")
  case False
  note d = byte_holdsD [OF h]
  have "read_ptr rb \<noteq> free_ptr rb" if "busy \<noteq> []" using byte_write_ptr(2) [OF h] d(4,7) that by (auto split: if_splits)
  moreover have "read_ptr rb = write_ptr rb" if "busy = []" "un = []" using d(5,6) that by simp
  ultimately show ?thesis using False d(1) by (cases "busy = []") (auto simp: getItemFromRingbufImpl_def getItemFromRingbufByteBuf_def)
next
  case True
  note d = byte_holdsD [OF h] and w = byte_write_ptr [OF h]
  let ?m = "portion w rb" and ?q = "(free_ptr rb + portion w rb) mod rb_size rb"
  have r: "read_ptr rb = free_ptr rb" using d(4,5) True by simp
  have un: "0 < length un" "length un < rb_size rb" using True d(7) by simp_all
  have m: "0 < ?m" "?m \<le> length un" "read_ptr rb + ?m \<le> rb_size rb" using w(1) r un True d(4) by (auto simp: portion_def Let_def split: if_splits)
  have q: "?q = (if read_ptr rb + ?m = rb_size rb then 0 else read_ptr rb + ?m)"
    using mod_step_ring [of "free_ptr rb" "rb_size rb" ?m] m(3) d(4) r by simp
  have ne: "read_ptr rb \<noteq> write_ptr rb" using w(1) r un True d(4) by (auto split: if_splits)
  let ?len = "if read_ptr rb > write_ptr rb then rb_size rb - read_ptr rb else write_ptr rb - read_ptr rb"
  let ?next = "if w \<noteq> 0 \<and> ?len > w then read_ptr rb + w else if read_ptr rb > write_ptr rb then 0 else write_ptr rb"
  have "getItemFromRingbufByteBuf w rb = (Some (read_ptr rb, ?m), rb\<lparr>read_ptr := ?next\<rparr>)"
    using r ne by (simp add: getItemFromRingbufByteBuf_def portion_def Let_def)
  moreover have "?next = ?q"
  proof (cases "w \<noteq> 0 \<and> ?len > w")
    case True
    then have "?m = w" by (simp add: portion_def Let_def)
    moreover have "read_ptr rb + w < rb_size rb" using True d(9,10) by (auto split: if_splits)
    ultimately show ?thesis using q True by simp
  next
    case False
    then have "?m = ?len" unfolding portion_def Let_def by (rule if_not_P)
    then show ?thesis using q False d(9,10) ne by auto
  qed
  ultimately have "getItemFromRingbufImpl w rb = Inr (Some (read_ptr rb, ?m), rb\<lparr>read_ptr := ?q\<rparr>)"
    using d(1) by (simp add: getItemFromRingbufImpl_def)
  moreover have "chunk (rb_data rb) (read_ptr rb) ?m = take ?m un"
  proof -
    have "take (length un) (rotate (free_ptr rb) (rb_data rb)) = un" using d(8) True by simp
    then show ?thesis using ring_front [of ?m "length un" "rb_data rb" "free_ptr rb"] m(2,3) d(3) un(2) r by (simp only: less_imp_le)
  qed
  moreover have "byte_holds (rb\<lparr>read_ptr := ?q\<rparr>) (take ?m un) (drop ?m un)"
    using d m True by (simp add: byte_holds_def min_absorb2)
  ultimately show ?thesis using True m by (auto intro!: exI [of _ "rb\<lparr>read_ptr := ?q\<rparr>"])
qed

lemma byte_return:
  assumes h: "byte_holds rb busy un" and p: "p < rb_size rb"
  shows "returnItemToRingbufImpl p rb = Inr (rb\<lparr>free_ptr := read_ptr rb\<rparr>)" "byte_holds (rb\<lparr>free_ptr := read_ptr rb\<rparr>) [] un"
proof -
  note d = byte_holdsD [OF h]
  show "returnItemToRingbufImpl p rb = Inr (rb\<lparr>free_ptr := read_ptr rb\<rparr>)" using p d(1) by (simp add: returnItemToRingbufImpl_def returnItemToRingbufBytebuf_def)
  have "take (length un) (rotate (read_ptr rb) (rb_data rb)) = un"
    using ring_drop [of "length busy" "length busy + length un" "rb_data rb" "free_ptr rb"] d(3,5,7,8) by simp
  moreover have "write_ptr rb = (read_ptr rb + length un) mod rb_size rb" using d(5,6) by (simp add: mod_add_left_eq add.assoc)
  ultimately show "byte_holds (rb\<lparr>free_ptr := read_ptr rb\<rparr>) [] un" using d by (simp add: byte_holds_def)
qed

text \<open>Runs: \<open>hold\<close> is the piece that was delivered and not yet given back. Senders test the free space first.\<close>

inductive byte_run :: "ringbuf_t \<Rightarrow> byte list \<Rightarrow> byte list \<Rightarrow> (nat \<times> byte list) option \<Rightarrow> bool" where
  start: "byte_run rb [] [] None"
    if "xRingbufferCreate (Some a) (Some d) (Some s1) (Some s2) area n (Some RINGBUF_TYPE_BYTEBUF) blocks = Inr (Some rb, blocks')"
      "length area = n" "0 < n" "n < 2 ^ 31"
| send: "byte_run rb' (sent @ b) got hold"
    if "byte_run rb sent got hold" "int (length b) \<le> ringbufferFreeMem rb" "copyItemToRingbufImpl b rb = Inr (True, rb')"
| receive: "byte_run rb' sent (got @ chunk (rb_data rb) p n) (Some (p, chunk (rb_data rb) p n))"
    if "byte_run rb sent got hold" "getItemFromRingbufImpl w rb = Inr (Some (p, n), rb')"
| receive_none: "byte_run rb' sent got hold"
    if "byte_run rb sent got hold" "getItemFromRingbufImpl w rb = Inr (None, rb')"
| give_back: "byte_run rb' sent got None"
    if "byte_run rb sent got (Some (p, b))" "returnItemToRingbufImpl p rb = Inr rb'"
| semaphores: "byte_run (rb\<lparr>free_space_sem := q1, items_buffered_sem := q2\<rparr>) sent got hold"
    if "byte_run rb sent got hold"

definition byte_inv :: "ringbuf_t \<Rightarrow> byte list \<Rightarrow> byte list \<Rightarrow> (nat \<times> byte list) option \<Rightarrow> byte list \<Rightarrow> byte list \<Rightarrow> bool" where
  "byte_inv rb sent got hold busy un \<longleftrightarrow> byte_holds rb busy un \<and> sent = got @ un \<and> free_ptr rb + length busy \<le> rb_size rb \<and>
     hold = (if busy = [] then None else Some (free_ptr rb, busy))"

lemma byte_run_send:
  assumes r: "byte_inv rb sent got hold busy un" and b: "int (length b) \<le> ringbufferFreeMem rb"
  shows "\<exists>rb'. copyItemToRingbufImpl b rb = Inr (True, rb') \<and> byte_inv rb' (sent @ b) got hold busy (un @ b)"
proof -
  have h: "byte_holds rb busy un" using r by (simp add: byte_inv_def)
  have "length busy + length un + length b < rb_size rb" using b byte_free_mem(1) [OF h] by simp
  from byte_copy [OF h this] show ?thesis using r by (auto simp: byte_inv_def same_ends_def)
qed

lemma byte_run_receive:
  assumes r: "byte_inv rb sent got hold busy un"
  shows "if hold = None \<and> un \<noteq> []
    then \<exists>p n rb'. getItemFromRingbufImpl w rb = Inr (Some (p, n), rb') \<and>
      byte_inv rb' sent (got @ chunk (rb_data rb) p n) (Some (p, chunk (rb_data rb) p n)) (chunk (rb_data rb) p n) (drop n un)
    else getItemFromRingbufImpl w rb = Inr (None, rb)"
proof (cases "hold = None \<and> un \<noteq> []")
  case True
  have h: "byte_holds rb [] un" using r True by (auto simp: byte_inv_def split: if_splits)
  let ?m = "portion w rb"
  obtain rb' where g: "getItemFromRingbufImpl w rb = Inr (Some (read_ptr rb, ?m), rb')" "0 < ?m" "chunk (rb_data rb) (read_ptr rb) ?m = take ?m un"
    "?m \<le> length un" "byte_holds rb' (take ?m un) (drop ?m un)" "rb' = rb\<lparr>read_ptr := read_ptr rb'\<rparr>" using byte_get [OF h, of w] True by auto
  have e: "free_ptr rb' = free_ptr rb" "rb_size rb' = rb_size rb" by (subst g(6), simp)+
  have f: "read_ptr rb = free_ptr rb" using byte_holdsD(4,5) [OF h] by simp
  have "read_ptr rb + ?m \<le> rb_size rb"
    using byte_holdsD(9,10) [OF h] by (auto simp: portion_def Let_def)
  moreover have "take ?m un \<noteq> []" using g(2) True by auto
  ultimately have "byte_inv rb' sent (got @ take ?m un) (Some (read_ptr rb, take ?m un)) (take ?m un) (drop ?m un)"
    using r g(4,5) e f True by (simp add: byte_inv_def min_absorb2)
  then have "byte_inv rb' sent (got @ chunk (rb_data rb) (read_ptr rb) ?m) (Some (read_ptr rb, chunk (rb_data rb) (read_ptr rb) ?m))
      (chunk (rb_data rb) (read_ptr rb) ?m) (drop ?m un)" by (simp only: g(3))
  then show ?thesis using True g(1) by (simp only: simp_thms if_True) blast
next
  case False
  have h: "byte_holds rb busy un" using r by (simp add: byte_inv_def)
  have "\<not> (busy = [] \<and> un \<noteq> [])" using r False by (auto simp: byte_inv_def)
  then have "getItemFromRingbufImpl w rb = Inr (None, rb)" using byte_get [OF h, of w] by (simp only: if_False)
  then show ?thesis by (simp only: if_not_P [OF False])
qed

lemma byte_run_give_back:
  assumes r: "byte_inv rb sent got (Some (p, b)) busy un"
  shows "\<exists>rb'. returnItemToRingbufImpl p rb = Inr rb' \<and> byte_inv rb' sent got None [] un" "chunk (rb_data rb) p (length b) = b"
proof -
  have h: "byte_holds rb busy un" "p = free_ptr rb" "b = busy" "free_ptr rb + length busy \<le> rb_size rb" "sent = got @ un"
    using r by (auto simp: byte_inv_def split: if_splits)
  note d = byte_holdsD [OF h(1)]
  have "p < rb_size rb" using h(2) d(4) by simp
  from byte_return [OF h(1) this] show "\<exists>rb'. returnItemToRingbufImpl p rb = Inr rb' \<and> byte_inv rb' sent got None [] un"
    using h(5) d(10) by (auto simp: byte_inv_def)
  have "take (length busy) (take (length busy + length un) (rotate (free_ptr rb) (rb_data rb))) = busy" using d(8) by simp
  then show "chunk (rb_data rb) p (length b) = b"
    using ring_front [of "length busy" "length busy + length un" "rb_data rb" "free_ptr rb"] d(3,7) h(2,3,4) by (simp only: le_add1 less_imp_le)
qed

lemma byte_run_inv: "byte_run rb sent got hold \<Longrightarrow> \<exists>busy un. byte_inv rb sent got hold busy un"
proof (induction rule: byte_run.induct)
  case (start a d s1 s2 area n blocks rb blocks')
  then have "byte_inv rb [] [] None [] []" by (auto simp: xRingbufferCreate_def Let_def byte_inv_def byte_holds_def)
  then show ?case by blast
next
  case (send rb sent got hold b rb')
  then obtain busy un where "byte_inv rb sent got hold busy un" by blast
  from byte_run_send [OF this send.hyps(2)] send.hyps(3) show ?case by auto
next
  case (receive rb sent got hold w p n rb')
  then obtain busy un where "byte_inv rb sent got hold busy un" by blast
  from byte_run_receive [OF this, of w] receive.hyps(2) show ?case by (cases "hold = None \<and> un \<noteq> []") auto
next
  case (receive_none rb sent got hold w rb')
  then obtain busy un where i: "byte_inv rb sent got hold busy un" by blast
  from byte_run_receive [OF i, of w] receive_none.hyps(2) have "rb' = rb" by (cases "hold = None \<and> un \<noteq> []") auto
  then show ?case using i by blast
next
  case (give_back rb sent got p b rb')
  then obtain busy un where "byte_inv rb sent got (Some (p, b)) busy un" by blast
  from byte_run_give_back(1) [OF this] give_back.hyps(2) show ?case by auto
next
  case (semaphores rb sent got hold q2 q1)
  then obtain busy un where "byte_inv rb sent got hold busy un" by blast
  then have "byte_inv (rb\<lparr>free_space_sem := q1, items_buffered_sem := q2\<rparr>) sent got hold busy un" by (simp add: byte_inv_def byte_holds_def)
  then show ?case by blast
qed


section \<open>Where buffers of bytes fail\<close>

text \<open>
  A send that runs out of time writes without room. If the semaphore is there but the time is over when \<^verbatim>\<open>xRingbufferSend\<close> looks
  again, it leaves its waiting loop and copies, and the copy into a buffer of bytes tests nothing. With one byte more than is free,
  the send reports success, and the buffer looks empty: everything in it, the new bytes included, is lost.
\<close>

theorem late_byte_send_overwrites:
  assumes h: "byte_holds rb [] un" and b: "length b + length un = rb_size rb" "length b \<le> xRingbufferGetMaxItemSize rb"
    and s: "bin_sem (free_space_sem rb)" "sem_given (free_space_sem rb)" and t: "ticks_to_wait \<noteq> portMAX_DELAY"
  shows "\<exists>rb'. xRingbufferSend me b ticks_to_wait start [quiet (start + ticks_to_wait)] rb = Some (Inr (True, rb')) \<and>
    xRingbufferReceiveFromISR rb' = Inr (None, rb') \<and> ringbufferFreeMem rb' = int (rb_size rb) - 1"
proof -
  note d = byte_holdsD [OF h]
  have r: "read_ptr rb = free_ptr rb" using d(4,5) by simp
  obtain q where q: "xSemaphoreTake (Some me) (free_space_sem rb) = Some q" using sem.take_given [OF s, of "Some me"] by blast
  let ?rb = "rb\<lparr>free_space_sem := q\<rparr>"
  have "too_small b rb" using byte_free_mem(2) [OF h] b(1) d(2,7) by (simp add: too_small_def size_add_def)
  moreover have "ringbufferFreeMem ?rb = ringbufferFreeMem rb" by (simp add: ringbufferFreeMem_def Let_def)
  ultimately have small: "too_small b rb" "too_small b ?rb" by (simp_all add: too_small_def)
  define k where "k = rb_size rb - write_ptr rb"
  have k: "size_t (int (rb_size rb) - int (write_ptr rb)) = k" using d(2,9) by (subst size_t_small) (auto simp: k_def)
  have w: "write_ptr rb = (if free_ptr rb + length un < rb_size rb then free_ptr rb + length un else free_ptr rb + length un - rb_size rb)"
    using byte_write_ptr(1) [OF h] by simp
  have "\<exists>dd. copyItemToRingbufImpl b ?rb = Inr (True, ?rb\<lparr>rb_data := dd, write_ptr := free_ptr rb\<rparr>)"
  proof (cases "k < length b")
    case True
    have l: "write_ptr rb + length (take k b) \<le> length (rb_data rb)" "length (drop k b) \<le> length (rb_data rb)" "length (drop k b) = free_ptr rb"
      "free_ptr rb \<noteq> rb_size rb"
      using True d(3,4,9) w b(1) by (auto simp: k_def min_absorb2 split: if_splits)
    show ?thesis using True l d(1) k
      by (intro exI [of _ "overwrite (overwrite (rb_data rb) (write_ptr rb) (take k b)) 0 (drop k b)"])
        (simp add: copyItemToRingbufImpl_def copyItemToRingbufByteBuf_def store_def length_overwrite)
  next
    case False
    have l: "write_ptr rb + length b \<le> length (rb_data rb)" "(if rb_size rb = write_ptr rb + length b then 0 else write_ptr rb + length b) = free_ptr rb"
      using False d(3,4,9) w b(1) by (auto simp: k_def split: if_splits)
    show ?thesis using False l d(1) k by (intro exI [of _ "overwrite (rb_data rb) (write_ptr rb) b"]) (simp add: copyItemToRingbufImpl_def copyItemToRingbufByteBuf_def store_def)
  qed
  then obtain dd where c: "copyItemToRingbufImpl b ?rb = Inr (True, ?rb\<lparr>rb_data := dd, write_ptr := free_ptr rb\<rparr>)" by blast
  let ?rb' = "?rb\<lparr>rb_data := dd, write_ptr := free_ptr rb, items_buffered_sem := xSemaphoreGive (items_buffered_sem rb)\<rparr>"
  have "xRingbufferSend me b ticks_to_wait start [quiet (start + ticks_to_wait)] rb = Some (Inr (True, ?rb'))"
    using small q c t b(2) by (simp add: xRingbufferSend_def wait_for_space_def quiet_def)
  then show ?thesis using r d(1)
    by (simp add: xRingbufferReceiveFromISR_def getItemFromRingbufImpl_def getItemFromRingbufByteBuf_def ringbufferFreeMem_def)
qed

text \<open>
  A second receive spins: while a piece is held and more bytes are there, \<^verbatim>\<open>xRingbufferReceive\<close> on a buffer of bytes finds data, gets no
  piece, and tries again without waiting, so that it does not return until the piece is given back, whatever its time-out.
\<close>

theorem byte_receive_spins:
  assumes h: "byte_holds rb busy un" and n: "busy \<noteq> []" "un \<noteq> []"
  shows "xRingbufferReceive me (replicate k (\<lambda>r. r, \<lambda>r. r, \<lambda>r. r)) rb = None"
proof -
  have "read_ptr rb \<noteq> write_ptr rb"
  proof
    assume "read_ptr rb = write_ptr rb"
    then have e: "(free_ptr rb + length busy) mod rb_size rb = (free_ptr rb + (length busy + length un)) mod rb_size rb"
      by (simp only: byte_holdsD(5,6) [OF h])
    have "length busy = length busy + length un"
      by (rule mod_ring_inj [OF _ byte_holdsD(7) [OF h] e]) (use byte_holdsD(7) [OF h] in linarith)
    then show False using n(2) by simp
  qed
  moreover have "getItemFromRingbufImpl 0 rb = Inr (None, rb)" using byte_get [OF h, of 0] n(1) by simp
  ultimately have "xRingbufferReceiveGeneric me 0 (replicate k (\<lambda>r. r, \<lambda>r. r, \<lambda>r. r)) rb = None" by (induction k) simp_all
  then show ?thesis by (simp add: xRingbufferReceive_def)
qed

text \<open>The largest items that are reported as possible for a buffer of bytes are never accepted: a header is counted that is not there.\<close>

lemma byte_largest_refused:
  assumes h: "byte_holds rb busy un" and b: "rb_size rb < length b + 9" "length b < 2 ^ 31"
  shows "xRingbufferSendFromISR b rb = Inr (False, rb)"
proof -
  have "size_t (ringbufferFreeMem rb) < rb_size rb" using byte_free_mem(2) [OF h] byte_holdsD(7) [OF h] by simp
  then show ?thesis using b byte_free_mem(2) [OF h] byte_holdsD(7) [OF h] by (auto simp: xRingbufferSendFromISR_def size_add_def)
qed

section \<open>The properties at work\<close>

definition new_buffer :: "ringbuf_type_t \<Rightarrow> nat \<Rightarrow> ringbuf_t" where
  "new_buffer type n = \<lparr>free_space_sem = prvInitialiseNewQueue 1 0 (raw_queue []), items_buffered_sem = prvInitialiseNewQueue 1 0 (raw_queue []),
     rb_size = n, write_ptr = 0, read_ptr = 0, free_ptr = 0, rb_data = replicate n 0, rb_type = type, maxItemSize = max_item_size n type\<rparr>"

lemma new_buffer_created:
  "xRingbufferCreate (Some 1) (Some 2) (Some 3) (Some 4) (replicate n 0) n (Some type) {} = Inr (Some (new_buffer type n), {1, 2, 3, 4})"
  by (auto simp: xRingbufferCreate_def new_buffer_def Let_def)

lemma new_buffer_runs:
  "item_run (new_buffer RINGBUF_TYPE_NOSPLIT 32) [] [] []" "byte_run (new_buffer RINGBUF_TYPE_BYTEBUF 16) [] [] None"
  by (rule item_run.start [OF new_buffer_created] byte_run.start [OF new_buffer_created]; simp)+

lemma new_buffer_max [simp]:
  "xRingbufferGetMaxItemSize (new_buffer RINGBUF_TYPE_NOSPLIT 32) = 4" "rb_size (new_buffer type n) = n"
  by (simp_all add: xRingbufferGetMaxItemSize_def new_buffer_def max_item_size_def size_t_def)



text \<open>Twenty-eight bytes, with an item of four bytes in the first twelve: another one of four bytes, and both are gone.\<close>

definition half_full :: ringbuf_t where
  "half_full = (new_buffer RINGBUF_TYPE_ALLOWSPLIT 28)\<lparr>rb_data := item_bytes [1, 2, 3, 4] @ replicate 16 0, write_ptr := 12\<rparr>"

lemma half_full_holds: "holds half_full [] [Item [1, 2, 3, 4] False]"
  by (simp add: half_full_def new_buffer_def holds_def laid_def ring_ok_def used_def item_bytes_def chunk_def pad_def)

theorem full_buffer_looks_empty_witness:
  "\<exists>rb'. xRingbufferSendFromISR [5, 6, 7, 8] half_full = Inr (True, rb') \<and> xRingbufferReceiveFromISR rb' = Inr (None, rb')"
proof -
  have "free_ptr half_full = 0" "rb_type half_full \<noteq> RINGBUF_TYPE_BYTEBUF" "length ([5, 6, 7, 8] :: byte list) < 2 ^ 31"
    "write_ptr half_full + (8 + pad (length ([5, 6, 7, 8] :: byte list))) + 4 = rb_size half_full"
    by (simp_all add: half_full_def new_buffer_def pad_def)
  from full_buffer_looks_empty [OF half_full_holds this] show ?thesis by blast
qed

text \<open>Thirty-two bytes, of which the first twelve have been given back and the last eight are not used yet.\<close>

definition in_two_pieces :: ringbuf_t where
  "in_two_pieces = (new_buffer RINGBUF_TYPE_NOSPLIT 32)\<lparr>rb_data := replicate 12 0 @ item_bytes [1, 2, 3, 4] @ replicate 8 0,
     free_ptr := 12, read_ptr := 12, write_ptr := 24\<rparr>"

theorem send_spins_witness:
  "xRingbufferSend 5 [5, 6, 7, 8] 0 100 (replicate 1000 (quiet 100)) in_two_pieces = None"
proof -
  have "laid in_two_pieces [Item [1, 2, 3, 4] False]" "rb_type in_two_pieces = RINGBUF_TYPE_NOSPLIT" "length ([5, 6, 7, 8] :: byte list) < 2 ^ 31"
    "length ([5, 6, 7, 8] :: byte list) \<le> xRingbufferGetMaxItemSize in_two_pieces" "\<not> too_small [5, 6, 7, 8] in_two_pieces"
    "\<not> room_whole in_two_pieces [Item [1, 2, 3, 4] False] (8 + pad (length ([5, 6, 7, 8] :: byte list)))"
    "\<not> fills_up in_two_pieces (8 + pad (length ([5, 6, 7, 8] :: byte list)))"
    by (simp_all add: in_two_pieces_def new_buffer_def laid_def ring_ok_def used_def item_bytes_def chunk_def pad_def too_small_def size_add_def
        ringbufferFreeMem_def size_t_def room_whole_def fills_up_def xRingbufferGetMaxItemSize_def max_item_size_def)
  from send_spins [OF this] show ?thesis .
qed

theorem create_delete_no_leak_witness:
  "\<exists>rb blocks'. xRingbufferCreate (Some 1) (Some 2) None (Some 4) (replicate 32 0) 32 (Some RINGBUF_TYPE_NOSPLIT) {9} = Inr (rb, blocks') \<and> blocks' = {9}"
  using create_delete_no_leak [of "Some 1" "Some 2" None "Some 4" "{9}" "replicate 32 0" 32 RINGBUF_TYPE_NOSPLIT] by auto


text \<open>Sixteen bytes, twelve of them unread, and a semaphore that was given.\<close>

definition late_bytes :: ringbuf_t where
  "late_bytes = (new_buffer RINGBUF_TYPE_BYTEBUF 16)\<lparr>write_ptr := 12, free_space_sem := xSemaphoreGive (prvInitialiseNewQueue 1 0 (raw_queue []))\<rparr>"

theorem late_byte_send_overwrites_witness:
  "\<exists>rb'. xRingbufferSend 5 [1, 2, 3, 4] 10 100 [quiet 110] late_bytes = Some (Inr (True, rb')) \<and> xRingbufferReceiveFromISR rb' = Inr (None, rb')"
proof -
  have p: "byte_holds late_bytes [] (replicate 12 0)" "length ([1, 2, 3, 4] :: byte list) + length (replicate 12 0 :: byte list) = rb_size late_bytes"
    "length ([1, 2, 3, 4] :: byte list) \<le> xRingbufferGetMaxItemSize late_bytes"
    by (simp_all add: byte_holds_def late_bytes_def new_buffer_def xRingbufferGetMaxItemSize_def max_item_size_def size_t_def)
  have s: "bin_sem (free_space_sem late_bytes)" "sem_given (free_space_sem late_bytes)" "10 \<noteq> portMAX_DELAY"
    using sem.give_inv [OF new_bin_sem] sem.give_given [OF new_bin_sem] by (simp_all add: late_bytes_def portMAX_DELAY_def)
  have "(100 :: u32) + 10 = 110" by simp
  from late_byte_send_overwrites [OF p s, of 5 100, unfolded this] show ?thesis by blast
qed

theorem byte_receive_spins_witness:
  "xRingbufferReceive 5 (replicate 1000 (\<lambda>r. r, \<lambda>r. r, \<lambda>r. r)) ((new_buffer RINGBUF_TYPE_BYTEBUF 16)\<lparr>read_ptr := 2, write_ptr := 4\<rparr>) = None"
proof -
  have "byte_holds ((new_buffer RINGBUF_TYPE_BYTEBUF 16)\<lparr>read_ptr := 2, write_ptr := 4\<rparr>) (replicate 2 0) (replicate 2 0)"
    by (simp add: byte_holds_def new_buffer_def flip: replicate_add)
  from byte_receive_spins [OF this] show ?thesis by simp
qed

text \<open>
  The size of the storage is not rounded to a multiple of four. With thirty bytes, an item of twelve bytes that is split leaves the write
  pointer at an address that fails the assertion of the next send, and the read pointer goes past the end of the storage.
\<close>

lemma unaligned_size_leaves_storage:
  fixes rb :: ringbuf_t
  defines "rb \<equiv> (new_buffer RINGBUF_TYPE_ALLOWSPLIT 30)\<lparr>free_ptr := 12, read_ptr := 12, write_ptr := 12\<rparr>"
  shows "\<exists>rb1 rb2. copyItemToRingbufImpl (replicate 12 1) rb = Inr (True, rb1) \<and> copyItemToRingbufImpl [1] rb1 = Inl Assert_Failed \<and>
    getItemFromRingbufImpl 0 rb1 = Inr (Some (20, 10), rb2) \<and> read_ptr rb2 = 32 \<and> rb_size rb2 = 30"
proof -
  let ?d = "overwrite (overwrite (replicate 30 0) 12 (item_bytes (replicate 10 1))) 0 (item_bytes (replicate 2 (1 :: byte)))"
  let ?rb1 = "rb\<lparr>rb_data := ?d, write_ptr := 10\<rparr>"
  have "put_first_part (replicate 12 1) 12 18 rb = Inr ((replicate 2 1, 2), rb\<lparr>rb_data := overwrite (replicate 30 0) 12 (item_bytes (replicate 10 1)), write_ptr := 0\<rparr>)"
    by (simp add: put_first_part_def rb_def new_buffer_def set_flags_def set_len_def store_def length_overwrite item_bytes_def size_t_def
        overwrite_def)
  moreover have "put_item (replicate 2 1) 2 (rb\<lparr>rb_data := overwrite (replicate 30 0) 12 (item_bytes (replicate 10 1)), write_ptr := 0\<rparr>) = Inr (True, ?rb1)"
    using put_item_eq [of "rb\<lparr>rb_data := overwrite (replicate 30 0) 12 (item_bytes (replicate 10 1)), write_ptr := 0\<rparr>" "replicate 2 1" 2]
    by (simp add: length_overwrite item_bytes_def forward_def rb_def new_buffer_def size_t_def)
  ultimately have "copyItemToRingbufImpl (replicate 12 1) rb = Inr (True, ?rb1)"
    by (simp add: copyItemToRingbufImpl_def copyItemToRingbufAllowSplit_def rb_def new_buffer_def round_up_def size_add_def size_t_def ringbufferFreeMem_def)
  moreover have "copyItemToRingbufImpl [1] ?rb1 = Inl Assert_Failed"
    by (simp add: copyItemToRingbufImpl_def copyItemToRingbufAllowSplit_def rb_def new_buffer_def)
  moreover have "hdr_len 12 ?rb1 = Inr 10" "hdr_flags 12 ?rb1 = Inr 0"
    by (simp_all add: hdr_len_def hdr_flags_def rb_def new_buffer_def overwrite_def item_bytes_def chunk_def)
  then have "getItemFromRingbufImpl 0 ?rb1 = Inr (Some (20, 10), ?rb1\<lparr>read_ptr := 32\<rparr>)"
    by (simp add: getItemFromRingbufImpl_def getItemFromRingbufDefault_def rb_def new_buffer_def round_up_def size_add_def forward_def size_t_def)
  ultimately show ?thesis by (intro exI [of _ ?rb1] exI [of _ "?rb1\<lparr>read_ptr := 32\<rparr>"]) (simp add: rb_def new_buffer_def)
qed

end
